(* ===== verification/Prelude.thy ===== *)
theory Prelude
  imports Main "HOL-Library.Word"
begin

unbundle bit_operations_syntax

text \<open>
  Shared vocabulary of the development: the error numbers the code returns, the page and block
  constants of \<^verbatim>\<open>pmfs_def.h\<close>, the C idioms that several components use (rounding to a
  power of two, counted loops) and the lemmas about them.  Collections: \<open>wf_simps\<close> gathers the
  unfoldings of well-formedness predicates, \<open>frame_simps\<close> the facts that an operation leaves a
  field alone.
\<close>

named_theorems wf_simps
named_theorems frame_simps

section \<open>Error numbers and constants\<close>

text \<open>The negated \<^verbatim>\<open>errno\<close> values the modelled functions return.\<close>

datatype errno = ENOMEM | ENOSPC | EIO | EINVAL | EAGAIN | EACCES | ENOENT | ENXIO | ENODATA
  | EFAULT | EMLINK | ENOTEMPTY | ESTALE | EPERM | ENAMETOOLONG | EOPNOTSUPP | ENODEV | ENOTTY | ENOIOCTLCMD

abbreviation PAGE_SHIFT :: nat where "PAGE_SHIFT \<equiv> 12"
abbreviation PAGE_SIZE :: nat where "PAGE_SIZE \<equiv> 4096"

text \<open>
  \<^verbatim>\<open>pmfs_get_numblocks\<close>: number of 4K blocks of a block type (4K, 2M, else 1G).
\<close>

definition pmfs_get_numblocks :: "nat \<Rightarrow> nat" where
  "pmfs_get_numblocks btype = (if btype = 0 then 1 else if btype = 1 then 512 else 0x40000)"

text \<open>\<^verbatim>\<open>pmfs_get_block_off\<close>: byte offset of a block; the block type is not used.\<close>

definition pmfs_get_block_off :: "nat \<Rightarrow> nat" where
  "pmfs_get_block_off blocknr = blocknr * 2 ^ PAGE_SHIFT"

lemma pmfs_get_numblocks_pos [simp]: "0 < pmfs_get_numblocks btype"
  by (simp add: pmfs_get_numblocks_def)

lemma pmfs_get_numblocks_0 [simp]: "pmfs_get_numblocks 0 = 1"
  by (simp add: pmfs_get_numblocks_def)

section \<open>Rounding\<close>

text \<open>
  \<^verbatim>\<open>x & ~(n - 1)\<close> for a power of two \<open>n\<close>, on numbers that fit the machine word; the
  lemma below ties it to the bit operation.
\<close>

definition round_down :: "nat \<Rightarrow> nat \<Rightarrow> nat" where
  "round_down n x = x div n * n"

lemma round_down_le: "round_down n x \<le> x"
  by (simp add: round_down_def)

lemma round_down_dvd [simp]: "n dvd round_down n x"
  by (simp add: round_down_def)

lemma round_down_1 [simp]: "round_down (Suc 0) x = x"
  by (simp add: round_down_def)

lemma round_up_gt: "0 < n \<Longrightarrow> x < round_down n (x + n)"
  using dividend_less_div_times [of n x] div_add_self2 [of n x]
  by (simp add: round_down_def algebra_simps)

text \<open>\<open>round_down n (x + n)\<close> is the least multiple of \<open>n\<close> above \<open>x\<close>.\<close>

lemma round_up_least:
  assumes "0 < n" "n dvd y" "x < y"
  shows "round_down n (x + n) \<le> y"
proof -
  from assms(2) obtain k where k: "y = n * k" by (elim dvdE)
  from assms(3) k have "x < k * n" by (simp add: mult.commute)
  then have "x div n < k" by (simp add: assms(1) div_less_iff_less_mult)
  then have "(x div n + 1) * n \<le> k * n" by (intro mult_le_mono1) simp
  moreover have "round_down n (x + n) = (x div n + 1) * n"
    using assms(1) div_add_self2 [of n x] by (simp add: round_down_def)
  ultimately show ?thesis using k by (simp add: mult.commute)
qed

lemma round_down_mask:
  fixes x :: "64 word"
  assumes "k < 64"
  shows "unat (x AND NOT (2 ^ k - 1)) = round_down (2 ^ k) (unat x)"
proof -
  have "x AND NOT (2 ^ k - 1) = push_bit k (drop_bit k x)"
    by (rule bit_word_eqI)
      (auto simp: bit_simps mask_eq_exp_minus_1 [symmetric] not_less)
  moreover have "unat (push_bit k (drop_bit k x)) = unat x div 2 ^ k * 2 ^ k"
  proof -
    have "unat (drop_bit k x) = unat x div 2 ^ k"
      unfolding unat_drop_bit_eq by (rule drop_bit_eq_div)
    moreover have "unat x div 2 ^ k * 2 ^ k < 2 ^ 64"
      by (rule le_less_trans [OF div_times_less_eq_dividend]) (use unsigned_less [of x] in simp)
    ultimately show ?thesis
      unfolding unsigned_push_bit_eq push_bit_eq_mult [where 'a = nat]
        take_bit_eq_mod [where 'a = nat] by simp
  qed
  ultimately show ?thesis by (simp add: round_down_def)
qed

section \<open>Counted loops\<close>

text \<open>
  \<open>for_loop f i n s\<close> is \<^verbatim>\<open>for (; i < n; i++) s = f(i, s)\<close>; \<open>for_err\<close> is the same
  loop whose body may leave it with an error, keeping the state reached.
\<close>

fun for_steps :: "(nat \<Rightarrow> 's \<Rightarrow> 's) \<Rightarrow> nat list \<Rightarrow> 's \<Rightarrow> 's" where
  "for_steps f [] s = s"
| "for_steps f (i # is) s = for_steps f is (f i s)"

definition for_loop :: "(nat \<Rightarrow> 's \<Rightarrow> 's) \<Rightarrow> nat \<Rightarrow> nat \<Rightarrow> 's \<Rightarrow> 's" where
  "for_loop f i n s = for_steps f [i..<n] s"

fun for_err :: "(nat \<Rightarrow> 's \<Rightarrow> (errno + unit) \<times> 's) \<Rightarrow> nat list \<Rightarrow> 's \<Rightarrow> (errno + unit) \<times> 's" where
  "for_err f [] s = (Inr (), s)"
| "for_err f (i # is) s =
     (case f i s of (Inl e, s') \<Rightarrow> (Inl e, s') | (Inr _, s') \<Rightarrow> for_err f is s')"

lemma for_steps_append [simp]:
  "for_steps f (xs @ ys) s = for_steps f ys (for_steps f xs s)"
  by (induction xs arbitrary: s) auto

lemma for_loop_Suc: "i \<le> n \<Longrightarrow> for_loop f i (Suc n) s = f n (for_loop f i n s)"
  by (simp add: for_loop_def)

lemma for_loop_empty [simp]: "n \<le> i \<Longrightarrow> for_loop f i n s = s"
  by (simp add: for_loop_def)

lemma for_steps_inv:
  assumes "P s" "\<And>i s. i \<in> set is \<Longrightarrow> P s \<Longrightarrow> P (f i s)"
  shows "P (for_steps f is s)"
  using assms by (induction "is" arbitrary: s) auto

lemma for_loop_inv:
  assumes "P s" "\<And>j s. i \<le> j \<Longrightarrow> j < n \<Longrightarrow> P s \<Longrightarrow> P (f j s)"
  shows "P (for_loop f i n s)"
  unfolding for_loop_def by (rule for_steps_inv) (use assms in auto)

lemma for_loop_frame:
  assumes "\<And>j s. g (f j s) = g s"
  shows "g (for_loop f i n s) = g s"
  by (rule for_loop_inv [where P = "\<lambda>t. g t = g s"]) (auto simp: assms)

lemma for_err_append:
  "for_err f (xs @ ys) s =
     (case for_err f xs s of (Inl e, t) \<Rightarrow> (Inl e, t) | (Inr _, t) \<Rightarrow> for_err f ys t)"
  by (induction xs arbitrary: s) (auto split: prod.splits sum.splits)

lemma for_err_inv:
  assumes "P s" "\<And>i s. i \<in> set is \<Longrightarrow> P s \<Longrightarrow> P (snd (f i s))"
  shows "P (snd (for_err f is s))"
  using assms
proof (induction "is" arbitrary: s)
  case (Cons i "is")
  obtain r t where ft: "f i s = (r, t)" by (cases "f i s")
  with Cons.prems have "P t" by (metis list.set_intros(1) snd_conv)
  with Cons ft show ?case by (cases r) auto
qed simp

section \<open>Lists\<close>

lemma sorted_wrt_take: "sorted_wrt R xs \<Longrightarrow> sorted_wrt R (take n xs)"
  by (metis append_take_drop_id sorted_wrt_append)

lemma sorted_wrt_drop: "sorted_wrt R xs \<Longrightarrow> sorted_wrt R (drop n xs)"
  by (metis append_take_drop_id sorted_wrt_append)

end
