(* ===== verification/PmState.thy ===== *)
theory PmState
  imports Prelude
begin

text \<open>
  The state the modelled code works on.  \<open>pmfs_sb_info\<close> is the super-block information of
  \<^verbatim>\<open>pmfs.h\<close> (the fields the model uses, in the order of the C struct); \<open>wpmfs\<close> extends it
  by the memory and the globals the functions reach: the persistent memory, the page descriptors,
  the write counters and the interrupt controller of \<^verbatim>\<open>wpmfs_wl.c\<close>.

  Persistent memory is a byte function on physical offsets from \<^verbatim>\<open>phys_addr\<close>: the direct
  mapping and the two vmalloc windows are views of these bytes.  Block, page and inode numbers and
  offsets are natural numbers (the code's \<^verbatim>\<open>unsigned long\<close> quantities are bounded by the device
  size); identifiers and flags whose wrap-around or bits matter are words.
\<close>

section \<open>Block nodes and the vmalloc windows\<close>

record pmfs_blocknode =
  block_low :: nat
  block_high :: nat

record wpmfs_vmap_info =
  enabled :: bool
  base_static :: nat
  size_static :: nat
  base_dynamic :: nat
  size_dynamic :: nat

section \<open>Super-block information\<close>

record pmfs_sb_info =
  phys_addr :: nat
  virt_addr :: nat
  block_inuse_head :: "pmfs_blocknode list"
  block_start :: nat
  block_end :: nat
  num_free_blocks :: nat
  num_inodes :: nat
  initsize :: nat
  s_mount_opt :: "64 word"
  s_inodes_count :: nat
  s_free_inodes_count :: nat
  s_inodes_used_count :: nat
  s_free_inode_hint :: nat
  num_blocknode_allocated :: nat
  vmapi :: wpmfs_vmap_info
  num_bins :: nat
  block_bins :: "nat list list"
  unused_block_low :: nat
  unused_block_high :: nat

section \<open>Memory, page descriptors, counters and the interrupt controller\<close>

text \<open>
  \<open>page_private\<close> and \<open>page_index\<close> are the fields of \<^verbatim>\<open>struct page\<close> the code uses, by
  block number (\<^verbatim>\<open>pfn - pfn0\<close>); \<open>page_mapping\<close> is the inode that maps the page, if any.
  \<open>vmap_pt\<close> is the kernel's page table of the vmalloc windows, by virtual page number: the block a
  page shows and whether it may be written.  \<open>wt_cnt\<close> is the counter file, one counter per block.  \<open>fifo\<close> holds the queued page
  requests, \<open>work_queued\<close> records that the bottom half has been scheduled.  \<open>kmem_ok\<close> is the
  answer of the kernel's memory allocator to the next request.
\<close>

record wpmfs = pmfs_sb_info +
  pm :: "nat \<Rightarrow> 8 word"
  wt_cnt :: "nat \<Rightarrow> 64 word"
  page_private :: "nat \<Rightarrow> 64 word"
  page_index :: "nat \<Rightarrow> nat"
  page_mapping :: "nat \<Rightarrow> nat option"
  vmap_pt :: "nat \<Rightarrow> (nat \<times> bool) option"
  int_thres_power :: nat
  fs_ready :: bool
  wl_switch :: "32 word"
  fifo :: "nat list"
  work_queued :: bool
  kmem_ok :: bool

section \<open>Page marks\<close>

abbreviation WPMFS_PAGE_USING :: "64 word" where "WPMFS_PAGE_USING \<equiv> 1"
abbreviation WPMFS_PAGE_TIRED :: "64 word" where "WPMFS_PAGE_TIRED \<equiv> 2"
abbreviation WPMFS_PAGE_VMAP :: "64 word" where "WPMFS_PAGE_VMAP \<equiv> 4"
abbreviation WPMFS_PAGE_VMAP_DYNAMIC :: "64 word" where "WPMFS_PAGE_VMAP_DYNAMIC \<equiv> 8"

definition wpmfs_page_marks :: "wpmfs \<Rightarrow> nat \<Rightarrow> 64 word" where
  "wpmfs_page_marks s b = page_private s b"

text \<open>
  \<^verbatim>\<open>wpmfs_mark_page\<close>: compare-and-exchange on the page's marks; \<open>False\<close> when the page no longer
  carries the expected marks, and then nothing is written.
\<close>

definition wpmfs_mark_page :: "wpmfs \<Rightarrow> nat \<Rightarrow> 64 word \<Rightarrow> 64 word \<Rightarrow> bool \<times> wpmfs" where
  "wpmfs_mark_page s b ori_flags new_flags =
     (if page_private s b \<noteq> ori_flags then (False, s)
      else (True, s\<lparr>page_private := (page_private s)(b := new_flags)\<rparr>))"

text \<open>The way every caller uses it: mark with the marks just read as the expected ones.\<close>

definition mark_page :: "wpmfs \<Rightarrow> nat \<Rightarrow> 64 word \<Rightarrow> wpmfs" where
  "mark_page s b new_flags = snd (wpmfs_mark_page s b (wpmfs_page_marks s b) new_flags)"

lemma mark_page_eq: "mark_page s b f = s\<lparr>page_private := (page_private s)(b := f)\<rparr>"
  by (simp add: mark_page_def wpmfs_mark_page_def wpmfs_page_marks_def)

section \<open>Filling memory\<close>

text \<open>\<^verbatim>\<open>memset_nt\<close> on the byte memory: \<open>len\<close> bytes from \<open>a\<close> become \<open>v\<close>.\<close>

definition mem_fill :: "(nat \<Rightarrow> 8 word) \<Rightarrow> nat \<Rightarrow> 8 word \<Rightarrow> nat \<Rightarrow> (nat \<Rightarrow> 8 word)" where
  "mem_fill m a v len = (\<lambda>x. if a \<le> x \<and> x < a + len then v else m x)"

lemma mem_fill_in [simp]: "a \<le> x \<Longrightarrow> x < a + len \<Longrightarrow> mem_fill m a v len x = v"
  by (simp add: mem_fill_def)

lemma mem_fill_out [simp]: "x < a \<or> a + len \<le> x \<Longrightarrow> mem_fill m a v len x = m x"
  by (auto simp: mem_fill_def)

end
