(* ===== verification/WriteTrack.thy ===== *)
theory WriteTrack
  imports PmState
begin

text \<open>
  Write tracking (\<^verbatim>\<open>wpmfs_wt.h\<close>, \<^verbatim>\<open>wpmfs_wt.c\<close>): one 64-bit counter per page, increased by the
  bytes of every store to persistent memory.  When the sum passes a multiple of the threshold
  \<open>2 ^ int_thres_power\<close> the page is reported to the interrupt controller
  (\<^verbatim>\<open>wpmfs_int_top\<close> of \<^verbatim>\<open>wpmfs_wl.c\<close>), which queues it for the wear-levelling worker.

  Page numbers here are block numbers, \<^verbatim>\<open>pfn - _pfn0\<close>; addresses are offsets from a page-aligned
  base, so that \<^verbatim>\<open>addr & PAGE_MASK\<close> and \<^verbatim>\<open>addr & ~PAGE_MASK\<close> are quotient and remainder by the
  page size.  The debug-only \<^verbatim>\<open>check_pfn\<close> always answers true.
\<close>

section \<open>Thresholds\<close>

definition MIGRATION_THRESHOLD_POWER :: nat where "MIGRATION_THRESHOLD_POWER = 17"
definition CELL_ENDURANCE_POWER :: nat where "CELL_ENDURANCE_POWER = 20"

text \<open>\<^verbatim>\<open>set_int_threshold\<close> stops the kernel (\<open>None\<close>) for a threshold below one page.\<close>

definition set_int_threshold :: "wpmfs \<Rightarrow> int \<Rightarrow> wpmfs option" where
  "set_int_threshold s pw =
     (if pw < 12 then None else Some (s\<lparr>int_thres_power := nat pw\<rparr>))"

text \<open>
  \<^verbatim>\<open>1 << _int_thres_power\<close> is an \<^verbatim>\<open>int\<close> expression, converted to 64 bits with its sign.
\<close>

definition get_int_thres_size :: "wpmfs \<Rightarrow> 64 word" where
  "get_int_thres_size s = scast (push_bit (int_thres_power s) (1 :: 32 word))"

definition get_int_thres_mask :: "wpmfs \<Rightarrow> 64 word" where
  "get_int_thres_mask s = NOT (get_int_thres_size s - 1)"

definition get_cell_endurance :: "nat \<Rightarrow> 64 word" where
  "get_cell_endurance cell_endur_power = scast (push_bit cell_endur_power (1 :: 32 word))"

section \<open>The interrupt controller's top half\<close>

text \<open>
  \<^verbatim>\<open>wpmfs_int_top\<close>: nothing before the mount or with wear levelling switched off; otherwise the
  page is queued and the worker scheduled, unless the queue of 1024 entries is full.
\<close>

definition FIFO_CAPACITY :: nat where "FIFO_CAPACITY = 2 ^ 10"

definition wpmfs_int_top :: "wpmfs \<Rightarrow> nat \<Rightarrow> wpmfs" where
  "wpmfs_int_top s pfn =
     (if \<not> fs_ready s then s
      else if wl_switch s = 0 then s
      else if length (fifo s) < FIFO_CAPACITY then s\<lparr>fifo := fifo s @ [pfn], work_queued := True\<rparr>
      else s)"

section \<open>Counters\<close>

definition wt_cnter_read_blocknr :: "wpmfs \<Rightarrow> nat \<Rightarrow> 64 word" where
  "wt_cnter_read_blocknr s blocknr = wt_cnt s blocknr"

definition wt_cnter_read_pfn :: "wpmfs \<Rightarrow> nat \<Rightarrow> 64 word" where
  "wt_cnter_read_pfn s pfn = wt_cnt s pfn"

definition wpmfs_init_all_cnter :: "wpmfs \<Rightarrow> wpmfs" where
  "wpmfs_init_all_cnter s = s\<lparr>wt_cnt := (\<lambda>_. 0)\<rparr>"

text \<open>\<^verbatim>\<open>_wt_cnter_add\<close>: the counter after the addition, and whether to signal an interrupt.\<close>

definition wt_cnter_add :: "wpmfs \<Rightarrow> nat \<Rightarrow> 64 word \<Rightarrow> bool \<times> wpmfs" where
  "wt_cnter_add s pfn cnt =
     (let res = wt_cnt s pfn + cnt
      in ((res AND get_int_thres_mask s) XOR ((res - cnt) AND get_int_thres_mask s) \<noteq> 0,
          s\<lparr>wt_cnt := (wt_cnt s)(pfn := res)\<rparr>))"

definition wt_cnter_track_pfn :: "wpmfs \<Rightarrow> nat \<Rightarrow> 64 word \<Rightarrow> wpmfs" where
  "wt_cnter_track_pfn s pfn cnt =
     (case wt_cnter_add s pfn cnt of (signal, s1) \<Rightarrow> if signal then wpmfs_int_top s1 pfn else s1)"

definition wt_cnter_track_pfn_intless :: "wpmfs \<Rightarrow> nat \<Rightarrow> 64 word \<Rightarrow> bool \<times> wpmfs" where
  "wt_cnter_track_pfn_intless s pfn cnt = wt_cnter_add s pfn cnt"

section \<open>Tracking an address range\<close>

text \<open>
  \<open>to_pfn\<close> is the kernel's translation of a page of the address space (\<^verbatim>\<open>vmalloc_to_pfn\<close> or
  \<^verbatim>\<open>virt_to_phys\<close>), by page of the address.
\<close>

definition wt_track_addr1 :: "(nat \<Rightarrow> nat) \<Rightarrow> wpmfs \<Rightarrow> nat \<Rightarrow> nat \<Rightarrow> wpmfs" where
  "wt_track_addr1 to_pfn s addr cnt = wt_cnter_track_pfn s (to_pfn (addr div PAGE_SIZE)) (of_nat cnt)"

text \<open>The bytes the loop of \<^verbatim>\<open>wt_cnter_track_addr\<close> charges to the page at \<open>addr_t\<close>.\<close>

definition wt_sub_cnt :: "nat \<Rightarrow> nat \<Rightarrow> nat \<Rightarrow> nat" where
  "wt_sub_cnt addr cnt addr_t =
     (let sub1 = (if addr_t = addr div PAGE_SIZE * PAGE_SIZE then PAGE_SIZE - addr mod PAGE_SIZE
                  else PAGE_SIZE)
      in if addr_t = (addr + cnt) div PAGE_SIZE * PAGE_SIZE then (addr + sub1) mod PAGE_SIZE else sub1)"

function wt_track_loop :: "(nat \<Rightarrow> nat) \<Rightarrow> nat \<Rightarrow> nat \<Rightarrow> nat \<Rightarrow> wpmfs \<Rightarrow> wpmfs" where
  "wt_track_loop to_pfn addr cnt addr_t s =
     (if addr_t < addr + cnt then
        wt_track_loop to_pfn addr cnt (addr_t + PAGE_SIZE)
          (wt_track_addr1 to_pfn s addr_t (wt_sub_cnt addr cnt addr_t))
      else s)"
  by pat_completeness auto
termination
  by (relation "measure (\<lambda>(to_pfn, addr, cnt, addr_t, s). addr + cnt - addr_t)") auto

declare wt_track_loop.simps [simp del]

definition wt_cnter_track_addr :: "(nat \<Rightarrow> nat) \<Rightarrow> wpmfs \<Rightarrow> nat \<Rightarrow> nat \<Rightarrow> wpmfs" where
  "wt_cnter_track_addr to_pfn s addr cnt =
     (if addr mod PAGE_SIZE + cnt \<le> PAGE_SIZE then wt_track_addr1 to_pfn s addr cnt
      else wt_track_loop to_pfn addr cnt (addr div PAGE_SIZE * PAGE_SIZE) s)"

text \<open>The variant that only reports whether an interrupt is due.\<close>

definition wt_track_addr1_intless :: "(nat \<Rightarrow> nat) \<Rightarrow> wpmfs \<Rightarrow> nat \<Rightarrow> nat \<Rightarrow> bool \<times> wpmfs" where
  "wt_track_addr1_intless to_pfn s addr cnt =
     wt_cnter_track_pfn_intless s (to_pfn (addr div PAGE_SIZE)) (of_nat cnt)"

function wt_track_loop_intless ::
    "(nat \<Rightarrow> nat) \<Rightarrow> nat \<Rightarrow> nat \<Rightarrow> nat \<Rightarrow> bool \<Rightarrow> wpmfs \<Rightarrow> bool \<times> wpmfs" where
  "wt_track_loop_intless to_pfn addr cnt addr_t signal_int s =
     (if addr_t < addr + cnt then
        (case wt_track_addr1_intless to_pfn s addr_t (wt_sub_cnt addr cnt addr_t) of
           (g, s1) \<Rightarrow>
             wt_track_loop_intless to_pfn addr cnt (addr_t + PAGE_SIZE) (if g then True else signal_int) s1)
      else (signal_int, s))"
  by pat_completeness auto
termination
  by (relation "measure (\<lambda>(to_pfn, addr, cnt, addr_t, g, s). addr + cnt - addr_t)") auto

declare wt_track_loop_intless.simps [simp del]

definition wt_cnter_track_addr_intless :: "(nat \<Rightarrow> nat) \<Rightarrow> wpmfs \<Rightarrow> nat \<Rightarrow> nat \<Rightarrow> bool \<times> wpmfs" where
  "wt_cnter_track_addr_intless to_pfn s addr cnt =
     (if addr mod PAGE_SIZE + cnt \<le> PAGE_SIZE then wt_track_addr1_intless to_pfn s addr cnt
      else wt_track_loop_intless to_pfn addr cnt (addr div PAGE_SIZE * PAGE_SIZE) False s)"

text \<open>\<^verbatim>\<open>PM_TOUCH\<close> on a block's own bytes through the direct mapping, where pages are block numbers.\<close>

definition pm_touch :: "wpmfs \<Rightarrow> nat \<Rightarrow> nat \<Rightarrow> wpmfs" where
  "pm_touch s off cnt = wt_cnter_track_addr (\<lambda>p. p) s off cnt"

section \<open>Tracking through a file\<close>

text \<open>
  \<^verbatim>\<open>wt_cnter_track_fileoff\<close> and \<^verbatim>\<open>wt_cnter_read_fileoff\<close> find the page of a file offset; \<open>isize\<close>
  and \<open>lookup\<close> are the inode's size and its \<^verbatim>\<open>pmfs_find_data_block\<close> (0 for a hole), whose offset is
  relative to the start of the device.
\<close>

definition wt_cnter_track_fileoff :: "wpmfs \<Rightarrow> nat \<Rightarrow> (nat \<Rightarrow> nat) \<Rightarrow> nat \<Rightarrow> 64 word \<Rightarrow> bool \<times> wpmfs" where
  "wt_cnter_track_fileoff s isize lookup pageoff cnt =
     (if isize = 0 then (False, s)
      else let block = lookup pageoff
           in if block = 0 then (False, s)
              else (True, wt_cnter_track_pfn s (block div PAGE_SIZE) cnt))"

definition wt_cnter_read_fileoff :: "wpmfs \<Rightarrow> nat \<Rightarrow> (nat \<Rightarrow> nat) \<Rightarrow> nat \<Rightarrow> 64 word option" where
  "wt_cnter_read_fileoff s isize lookup pageoff =
     (if isize = 0 then None
      else let block = lookup pageoff
           in if block = 0 then None else Some (wt_cnter_read_pfn s (block div PAGE_SIZE)))"

section \<open>When an interrupt is signalled\<close>

definition thres_ok :: "wpmfs \<Rightarrow> bool" where
  "thres_ok s \<longleftrightarrow> 12 \<le> int_thres_power s \<and> int_thres_power s \<le> 30"

lemma get_int_thres_size_eq: "thres_ok s \<Longrightarrow> get_int_thres_size s = 2 ^ int_thres_power s"
  unfolding get_int_thres_size_def push_bit_of_1 [symmetric]
  by (rule bit_word_eqI) (auto simp: thres_ok_def bit_simps)

lemma unat_thres_size: "thres_ok s \<Longrightarrow> unat (get_int_thres_size s) = 2 ^ int_thres_power s"
proof -
  assume s: "thres_ok s"
  then have "(2::nat) ^ int_thres_power s < 2 ^ 64"
    by (intro power_strict_increasing) (simp_all add: thres_ok_def)
  then have "unat (word_of_nat (2 ^ int_thres_power s) :: 64 word) = 2 ^ int_thres_power s"
    unfolding unsigned_of_nat using s by (simp add: take_bit_nat_eq_self_iff thres_ok_def)
  then show ?thesis by (simp add: get_int_thres_size_eq [OF s])
qed

lemma thres_mask:
  assumes "thres_ok s"
  shows "unat (x AND get_int_thres_mask s) = round_down (2 ^ int_thres_power s) (unat x)"
  using assms round_down_mask [of "int_thres_power s" x]
  by (simp add: get_int_thres_mask_def get_int_thres_size_eq thres_ok_def)

lemma xor_nonzero_iff: "(x :: 64 word) XOR y \<noteq> 0 \<longleftrightarrow> x \<noteq> y"
  by (metis xor_self_eq bit.xor_left_self xor.right_neutral)

lemma round_down_eq_iff: "0 < n \<Longrightarrow> round_down n x = round_down n y \<longleftrightarrow> x div n = y div n"
  by (simp add: round_down_def)

lemma wt_cnter_add_signal:
  assumes "thres_ok s"
  shows "fst (wt_cnter_add s pfn cnt) \<longleftrightarrow>
    unat (wt_cnt s pfn) div 2 ^ int_thres_power s \<noteq>
    unat (wt_cnt s pfn + cnt) div 2 ^ int_thres_power s"
proof -
  have "fst (wt_cnter_add s pfn cnt) \<longleftrightarrow>
    (wt_cnt s pfn + cnt) AND get_int_thres_mask s \<noteq> wt_cnt s pfn AND get_int_thres_mask s"
    by (simp add: wt_cnter_add_def Let_def xor_nonzero_iff)
  also have "\<dots> \<longleftrightarrow> unat ((wt_cnt s pfn + cnt) AND get_int_thres_mask s)
      \<noteq> unat (wt_cnt s pfn AND get_int_thres_mask s)"
    by (simp add: word_unat_eq_iff)
  finally show ?thesis
    unfolding thres_mask [OF assms] by (auto simp: round_down_eq_iff)
qed

lemma div_changes_iff:
  fixes a c n :: nat
  assumes "0 < n"
  shows "a div n \<noteq> (a + c) div n \<longleftrightarrow> (\<exists>k. a < k * n \<and> k * n \<le> a + c)"
proof
  assume "a div n \<noteq> (a + c) div n"
  then have "a div n < (a + c) div n" by (simp add: div_le_mono order.strict_iff_order)
  then have "a < (a + c) div n * n" using assms by (simp add: div_less_iff_less_mult)
  moreover have "(a + c) div n * n \<le> a + c" by simp
  ultimately show "\<exists>k. a < k * n \<and> k * n \<le> a + c" by blast
next
  assume "\<exists>k. a < k * n \<and> k * n \<le> a + c"
  then obtain k where "a < k * n" "k * n \<le> a + c" by blast
  then have "a div n < k" "k \<le> (a + c) div n"
    using assms by (simp_all add: div_less_iff_less_mult less_eq_div_iff_mult_less_eq)
  then show "a div n \<noteq> (a + c) div n" by simp
qed

lemma wt_cnter_add_signal_multiple:
  assumes "thres_ok s" "unat (wt_cnt s pfn) + unat cnt < 2 ^ 64"
  shows "fst (wt_cnter_add s pfn cnt) \<longleftrightarrow>
    (\<exists>k. unat (wt_cnt s pfn) < k * 2 ^ int_thres_power s
       \<and> k * 2 ^ int_thres_power s \<le> unat (wt_cnt s pfn) + unat cnt)"
proof -
  have "unat (wt_cnt s pfn + cnt) = unat (wt_cnt s pfn) + unat cnt"
    using assms(2) by (simp add: unat_word_ariths)
  then show ?thesis
    unfolding wt_cnter_add_signal [OF assms(1)] by (simp add: div_changes_iff)
qed

section \<open>What the top half and the counters leave alone\<close>

lemma wpmfs_int_top_frame [simp, frame_simps]:
  "wt_cnt (wpmfs_int_top s p) = wt_cnt s" "int_thres_power (wpmfs_int_top s p) = int_thres_power s"
  "pm (wpmfs_int_top s p) = pm s" "page_private (wpmfs_int_top s p) = page_private s"
  by (simp_all add: wpmfs_int_top_def)

lemma wpmfs_int_top_sb: "\<exists>q w. wpmfs_int_top s p = s\<lparr>fifo := q, work_queued := w\<rparr>"
proof (cases "fs_ready s \<and> wl_switch s \<noteq> 0 \<and> length (fifo s) < FIFO_CAPACITY")
  case True
  then show ?thesis by (auto simp: wpmfs_int_top_def)
next
  case False
  then have "wpmfs_int_top s p = s\<lparr>fifo := fifo s, work_queued := work_queued s\<rparr>"
    by (auto simp: wpmfs_int_top_def)
  then show ?thesis by blast
qed

lemma wt_track_pfn_only:
  "\<exists>c q w. wt_cnter_track_pfn s p n = s\<lparr>wt_cnt := c, fifo := q, work_queued := w\<rparr>"
proof -
  obtain sgn1 where a: "wt_cnter_add s p n = (sgn1, s\<lparr>wt_cnt := (wt_cnt s)(p := wt_cnt s p + n)\<rparr>)"
    by (simp add: wt_cnter_add_def Let_def)
  show ?thesis
  proof (cases sgn1)
    case True
    with a wpmfs_int_top_sb [of "s\<lparr>wt_cnt := (wt_cnt s)(p := wt_cnt s p + n)\<rparr>" p]
    show ?thesis by (auto simp: wt_cnter_track_pfn_def)
  next
    case False
    with a have "wt_cnter_track_pfn s p n =
        s\<lparr>wt_cnt := (wt_cnt s)(p := wt_cnt s p + n), fifo := fifo s, work_queued := work_queued s\<rparr>"
      by (simp add: wt_cnter_track_pfn_def)
    then show ?thesis by blast
  qed
qed

lemma wt_track_loop_only:
  "\<exists>c q w. wt_track_loop f addr cnt a s = s\<lparr>wt_cnt := c, fifo := q, work_queued := w\<rparr>"
proof (induction f addr cnt a s rule: wt_track_loop.induct)
  case (1 f addr cnt a s)
  show ?case
  proof (cases "a < addr + cnt")
    case True
    obtain c q w where t: "wt_track_addr1 f s a (wt_sub_cnt addr cnt a) = s\<lparr>wt_cnt := c, fifo := q, work_queued := w\<rparr>"
      using wt_track_pfn_only unfolding wt_track_addr1_def by blast
    from "1.IH" [OF True] obtain c' q' w' where
      "wt_track_loop f addr cnt (a + PAGE_SIZE) (wt_track_addr1 f s a (wt_sub_cnt addr cnt a)) =
        (wt_track_addr1 f s a (wt_sub_cnt addr cnt a))\<lparr>wt_cnt := c', fifo := q', work_queued := w'\<rparr>"
      by blast
    then have "wt_track_loop f addr cnt a s = s\<lparr>wt_cnt := c', fifo := q', work_queued := w'\<rparr>"
      using True t by (subst wt_track_loop.simps) simp
    then show ?thesis by blast
  next
    case False
    have "s = s\<lparr>wt_cnt := wt_cnt s, fifo := fifo s, work_queued := work_queued s\<rparr>" by simp
    then have "wt_track_loop f addr cnt a s = s\<lparr>wt_cnt := wt_cnt s, fifo := fifo s, work_queued := work_queued s\<rparr>"
      using False by (subst wt_track_loop.simps) simp
    then show ?thesis by blast
  qed
qed

text \<open>A store to persistent memory changes counters and the request queue, nothing else.\<close>

lemma wt_track_addr_only:
  "\<exists>c q w. wt_cnter_track_addr f s addr cnt = s\<lparr>wt_cnt := c, fifo := q, work_queued := w\<rparr>"
  unfolding wt_cnter_track_addr_def wt_track_addr1_def
  using wt_track_loop_only wt_track_pfn_only by (auto split: if_split)

lemma pm_touch_only: "\<exists>c q w. pm_touch s off cnt = s\<lparr>wt_cnt := c, fifo := q, work_queued := w\<rparr>"
  unfolding pm_touch_def by (rule wt_track_addr_only)

lemma pm_touch_frame [simp, frame_simps]:
  "block_inuse_head (pm_touch s off cnt) = block_inuse_head s"
  "block_start (pm_touch s off cnt) = block_start s" "block_end (pm_touch s off cnt) = block_end s"
  "num_free_blocks (pm_touch s off cnt) = num_free_blocks s"
  "num_blocknode_allocated (pm_touch s off cnt) = num_blocknode_allocated s"
  "num_bins (pm_touch s off cnt) = num_bins s" "block_bins (pm_touch s off cnt) = block_bins s"
  "unused_block_low (pm_touch s off cnt) = unused_block_low s"
  "unused_block_high (pm_touch s off cnt) = unused_block_high s"
  "pm (pm_touch s off cnt) = pm s" "page_private (pm_touch s off cnt) = page_private s"
  "page_index (pm_touch s off cnt) = page_index s" "vmapi (pm_touch s off cnt) = vmapi s"
  "vmap_pt (pm_touch s off cnt) = vmap_pt s" "page_mapping (pm_touch s off cnt) = page_mapping s"
  "virt_addr (pm_touch s off cnt) = virt_addr s" "phys_addr (pm_touch s off cnt) = phys_addr s"
  "kmem_ok (pm_touch s off cnt) = kmem_ok s" "int_thres_power (pm_touch s off cnt) = int_thres_power s"
  using pm_touch_only [of s off cnt] by auto

section \<open>The charge of each page\<close>

text \<open>The bytes of the range \<open>[addr, addr + cnt)\<close> that lie in page \<open>p\<close>.\<close>

definition page_overlap :: "nat \<Rightarrow> nat \<Rightarrow> nat \<Rightarrow> nat" where
  "page_overlap addr cnt p = min (addr + cnt) ((p + 1) * PAGE_SIZE) - max addr (p * PAGE_SIZE)"

lemma wt_sub_cnt_page:
  assumes "PAGE_SIZE < addr mod PAGE_SIZE + cnt" "addr div PAGE_SIZE \<le> p" "p * PAGE_SIZE < addr + cnt"
  shows "wt_sub_cnt addr cnt (p * PAGE_SIZE) =
    (if p = (addr + cnt) div PAGE_SIZE then addr mod PAGE_SIZE else page_overlap addr cnt p)"
proof -
  have d: "addr div 4096 * 4096 + addr mod 4096 = addr" by simp
  have last: "p \<noteq> addr div 4096" if "p = (addr + cnt) div 4096"
  proof
    assume "p = addr div 4096"
    moreover have "addr + cnt < ((addr + cnt) div 4096 + 1) * 4096"
      by (simp add: dividend_less_div_times)
    ultimately show False using that assms(1) d by simp
  qed
  have le: "p \<le> (addr + cnt) div 4096" using assms(3) by (simp add: less_eq_div_iff_mult_less_eq)
  have ov: "page_overlap addr cnt p = (if p = addr div 4096 then 4096 - addr mod 4096 else 4096)"
    if "p < (addr + cnt) div 4096"
  proof -
    from that have "p + 1 \<le> (addr + cnt) div 4096" by simp
    then have "(p + 1) * 4096 \<le> addr + cnt"
      by (simp only: less_eq_div_iff_mult_less_eq zero_less_numeral)
    moreover have "4096 + addr div 4096 * 4096 - addr = 4096 - addr mod 4096" using d by linarith
    ultimately show ?thesis using assms(2) by (auto simp: page_overlap_def)
  qed
  show ?thesis
    using last le ov by (auto simp: wt_sub_cnt_def Let_def)
qed

lemma wt_track_loop_charges:
  assumes "a = p * PAGE_SIZE" "e = (addr + cnt + PAGE_SIZE - 1) div PAGE_SIZE"
  shows "wt_track_loop f addr cnt a s =
    fold (\<lambda>p s. wt_cnter_track_pfn s (f p) (of_nat (wt_sub_cnt addr cnt (p * PAGE_SIZE)))) [p..<e] s"
  using assms
proof (induction f addr cnt a s arbitrary: p rule: wt_track_loop.induct)
  case (1 f addr cnt a s)
  show ?case
  proof (cases "a < addr + cnt")
    case True
    with "1.prems" have "(p + 1) * PAGE_SIZE \<le> addr + cnt + PAGE_SIZE - 1" by simp
    then have "p + 1 \<le> e"
      unfolding "1.prems"(2) by (simp only: less_eq_div_iff_mult_less_eq zero_less_numeral)
    then have up: "[p..<e] = p # [p + 1..<e]" by (simp add: upt_rec)
    have "a div PAGE_SIZE = p" "a + PAGE_SIZE = (p + 1) * PAGE_SIZE" using "1.prems" by simp_all
    with True "1.IH" [OF True, of "p + 1"] "1.prems" show ?thesis
      unfolding up by (subst wt_track_loop.simps) (simp add: wt_track_addr1_def)
  next
    case False
    with "1.prems" have "addr + cnt + PAGE_SIZE - 1 < (p + 1) * PAGE_SIZE" by simp
    then have "e < p + 1"
      unfolding "1.prems"(2) by (simp only: div_less_iff_less_mult zero_less_numeral)
    with False show ?thesis by (subst wt_track_loop.simps) simp
  qed
qed

section \<open>The interrupt-less variant\<close>

lemma wt_track_pfn_cnt [simp]:
  "wt_cnt (wt_cnter_track_pfn s p n) = (wt_cnt s)(p := wt_cnt s p + n)"
  by (simp add: wt_cnter_track_pfn_def wt_cnter_add_def Let_def)

lemma wt_intless_cnt [simp]:
  "wt_cnt (snd (wt_cnter_track_pfn_intless s p n)) = (wt_cnt s)(p := wt_cnt s p + n)"
  by (simp add: wt_cnter_track_pfn_intless_def wt_cnter_add_def Let_def)

lemma wt_loop_intless_cnt:
  "wt_cnt s = wt_cnt t \<Longrightarrow>
    wt_cnt (snd (wt_track_loop_intless f addr cnt a sgn1 s)) = wt_cnt (wt_track_loop f addr cnt a t)"
proof (induction f addr cnt a sgn1 s arbitrary: t rule: wt_track_loop_intless.induct)
  case (1 f addr cnt a sgn1 s)
  show ?case
  proof (cases "a < addr + cnt")
    case True
    obtain g s1 where g: "wt_track_addr1_intless f s a (wt_sub_cnt addr cnt a) = (g, s1)"
      by (cases "wt_track_addr1_intless f s a (wt_sub_cnt addr cnt a)")
    then have "wt_cnt s1 = wt_cnt (wt_track_addr1 f t a (wt_sub_cnt addr cnt a))"
      using "1.prems" wt_intless_cnt [of s "f (a div PAGE_SIZE)" "of_nat (wt_sub_cnt addr cnt a)"]
      by (simp add: wt_track_addr1_intless_def wt_track_addr1_def)
    from "1.IH" [OF True g [symmetric] this] True g show ?thesis
      by (subst wt_track_loop_intless.simps, subst wt_track_loop.simps) simp
  next
    case False
    with "1.prems" show ?thesis
      by (subst wt_track_loop_intless.simps, subst wt_track_loop.simps) simp
  qed
qed

lemma wt_intless_same_counters:
  "wt_cnt (snd (wt_cnter_track_addr_intless f s addr cnt)) = wt_cnt (wt_cnter_track_addr f s addr cnt)"
  by (simp add: wt_cnter_track_addr_intless_def wt_cnter_track_addr_def wt_loop_intless_cnt
      wt_track_addr1_intless_def wt_track_addr1_def)

section \<open>The request queue\<close>

definition fifo_ok :: "wpmfs \<Rightarrow> bool" where
  "fifo_ok s \<longleftrightarrow> length (fifo s) \<le> FIFO_CAPACITY"

lemma wpmfs_int_top_fifo_ok: "fifo_ok s \<Longrightarrow> fifo_ok (wpmfs_int_top s p)"
  by (simp add: fifo_ok_def wpmfs_int_top_def)

end
