(* ===== verification/PmBytes.thy ===== *)
theory PmBytes
  imports WriteTrack
begin

text \<open>
  Little-endian fields in the byte memory: what \<^verbatim>\<open>le16_to_cpu\<close> to \<^verbatim>\<open>le64_to_cpu\<close> read and the
  tracked stores (\<^verbatim>\<open>PM_EQU\<close>, \<^verbatim>\<open>PM_MEMSET\<close>, \<^verbatim>\<open>PM_MEMCPY\<close> of \<^verbatim>\<open>pm_instr.h\<close>) write.  A store writes the
  bytes and then charges the page's counter.
\<close>

section \<open>Loads and stores\<close>

primrec le_load :: "nat \<Rightarrow> (nat \<Rightarrow> 8 word) \<Rightarrow> nat \<Rightarrow> nat" where
  "le_load 0 m a = 0"
| "le_load (Suc n) m a = unat (m a) + 256 * le_load n m (Suc a)"

definition le_store :: "nat \<Rightarrow> (nat \<Rightarrow> 8 word) \<Rightarrow> nat \<Rightarrow> nat \<Rightarrow> (nat \<Rightarrow> 8 word)" where
  "le_store n m a v = (\<lambda>x. if a \<le> x \<and> x < a + n then word_of_nat (v div 256 ^ (x - a)) else m x)"

definition mem_copy :: "(nat \<Rightarrow> 8 word) \<Rightarrow> nat \<Rightarrow> nat \<Rightarrow> nat \<Rightarrow> (nat \<Rightarrow> 8 word)" where
  "mem_copy m dst src n = (\<lambda>x. if dst \<le> x \<and> x < dst + n then m (src + (x - dst)) else m x)"

section \<open>Tracked stores\<close>

definition PM_EQU :: "nat \<Rightarrow> wpmfs \<Rightarrow> nat \<Rightarrow> nat \<Rightarrow> wpmfs" where
  "PM_EQU n s off y = pm_touch (s\<lparr>pm := le_store n (pm s) off y\<rparr>) off n"

text \<open>
  A field whose assigned expression has another size than the field (\<^verbatim>\<open>sizeof(y)\<close> is what is charged),
  and a plain store that is not tracked.
\<close>

definition PM_STORE :: "nat \<Rightarrow> nat \<Rightarrow> wpmfs \<Rightarrow> nat \<Rightarrow> nat \<Rightarrow> wpmfs" where
  "PM_STORE n charge s off y = pm_touch (s\<lparr>pm := le_store n (pm s) off y\<rparr>) off charge"

definition PM_OR_EQU :: "nat \<Rightarrow> wpmfs \<Rightarrow> nat \<Rightarrow> nat \<Rightarrow> wpmfs" where
  "PM_OR_EQU n s off y = PM_STORE n n s off (Bit_Operations.or (le_load n (pm s) off) y)"

definition plain_store :: "nat \<Rightarrow> wpmfs \<Rightarrow> nat \<Rightarrow> nat \<Rightarrow> wpmfs" where
  "plain_store n s off y = s\<lparr>pm := le_store n (pm s) off y\<rparr>"

definition PM_MEMSET :: "wpmfs \<Rightarrow> nat \<Rightarrow> 8 word \<Rightarrow> nat \<Rightarrow> wpmfs" where
  "PM_MEMSET s off v sz = pm_touch (s\<lparr>pm := mem_fill (pm s) off v sz\<rparr>) off sz"

definition PM_MEMCPY :: "wpmfs \<Rightarrow> nat \<Rightarrow> nat \<Rightarrow> nat \<Rightarrow> wpmfs" where
  "PM_MEMCPY s dst src sz = pm_touch (s\<lparr>pm := mem_copy (pm s) dst src sz\<rparr>) dst sz"

definition PM_EQU_NO_INT :: "nat \<Rightarrow> wpmfs \<Rightarrow> nat \<Rightarrow> nat \<Rightarrow> bool \<times> wpmfs" where
  "PM_EQU_NO_INT n s off y =
     wt_cnter_track_addr_intless (\<lambda>p. p) (s\<lparr>pm := le_store n (pm s) off y\<rparr>) off n"

definition PM_MEMCPY_NO_INT :: "wpmfs \<Rightarrow> nat \<Rightarrow> nat \<Rightarrow> nat \<Rightarrow> bool \<times> wpmfs" where
  "PM_MEMCPY_NO_INT s dst src sz =
     wt_cnter_track_addr_intless (\<lambda>p. p) (s\<lparr>pm := mem_copy (pm s) dst src sz\<rparr>) dst sz"

section \<open>Lemmas\<close>

lemma le_load_cong: "(\<And>x. a \<le> x \<Longrightarrow> x < a + n \<Longrightarrow> m x = m' x) \<Longrightarrow> le_load n m a = le_load n m' a"
proof (induction n arbitrary: a)
  case (Suc n)
  have "le_load n m (Suc a) = le_load n m' (Suc a)" by (rule Suc.IH) (use Suc.prems in auto)
  moreover have "m a = m' a" using Suc.prems by simp
  ultimately show ?case by simp
qed simp

lemma le_load_bound: "le_load n m a < 256 ^ n"
proof (induction n arbitrary: a)
  case (Suc n)
  have "unat (m a) < 256" using unsigned_less [of "m a"] by simp
  moreover have "le_load n m (Suc a) < 256 ^ n" by (rule Suc)
  ultimately have "unat (m a) + 256 * le_load n m (Suc a) < 256 + 256 * (256 ^ n - 1)" by linarith
  also have "\<dots> = 256 * 256 ^ n" by (simp add: algebra_simps)
  finally show ?case by simp
qed simp

lemma le_store_out [simp]: "x < a \<or> a + n \<le> x \<Longrightarrow> le_store n m a v x = m x"
  by (auto simp: le_store_def)

lemma le_load_store [simp]: "le_load n (le_store n m a v) a = v mod 256 ^ n"
proof (induction n arbitrary: a v m)
  case (Suc n)
  have "le_load n (le_store (Suc n) m a v) (Suc a) = le_load n (le_store n m (Suc a) (v div 256)) (Suc a)"
  proof (rule le_load_cong)
    fix x assume "Suc a \<le> x" "x < Suc a + n"
    moreover from this obtain k where "x = Suc a + k" by (metis le_Suc_ex)
    ultimately show "le_store (Suc n) m a v x = le_store n m (Suc a) (v div 256) x"
      by (simp add: le_store_def div_mult2_eq)
  qed
  then have "le_load n (le_store (Suc n) m a v) (Suc a) = v div 256 mod 256 ^ n" by (simp add: Suc)
  moreover have "unat (le_store (Suc n) m a v a) = v mod 256" by (simp add: le_store_def unat_of_nat)
  ultimately show ?case by (simp add: mod_mult2_eq)
qed simp

lemma le_load_store_other:
  "b + k \<le> a \<or> a + n \<le> b \<Longrightarrow> le_load k (le_store n m a v) b = le_load k m b"
  by (rule le_load_cong) auto

lemma le_store_load [simp]: "le_store n m a (le_load n m a) = m"
proof -
  have byte: "word_of_nat (le_load n m a div 256 ^ k) = m (a + k)" if "k < n" for k a
    using that
  proof (induction n arbitrary: a k)
    case (Suc n)
    have b: "unat (m a) < 256" using unsigned_less [of "m a"] by simp
    show ?case
    proof (cases k)
      case 0
      have "of_nat (256 * le_load n m (Suc a)) = (0 :: 8 word)"
        unfolding word_of_nat_eq_0_iff by simp
      with 0 show ?thesis by simp
    next
      case (Suc j)
      have "(unat (m a) + 256 * le_load n m (Suc a)) div 256 = le_load n m (Suc a)" using b by simp
      with Suc Suc.IH [of j "Suc a"] Suc.prems show ?thesis
        by (simp add: div_mult2_eq)
    qed
  qed simp
  then have "le_store n m a (le_load n m a) x = m x" for x
  proof (cases "a \<le> x \<and> x < a + n")
    case True
    then obtain k where "x = a + k" "k < n" by (metis le_Suc_ex nat_add_left_cancel_less)
    with byte show ?thesis by (simp add: le_store_def)
  qed auto
  then show ?thesis by (simp add: fun_eq_iff)
qed

lemma le_load_fill_other:
  "b + k \<le> a \<or> a + n \<le> b \<Longrightarrow> le_load k (mem_fill m a v n) b = le_load k m b"
  by (rule le_load_cong) auto

lemma le_load_zero: "(\<And>x. a \<le> x \<Longrightarrow> x < a + n \<Longrightarrow> m x = 0) \<Longrightarrow> le_load n m a = 0"
proof (induction n arbitrary: a)
  case (Suc n)
  have "m a = 0" using Suc.prems [of a] by simp
  moreover have "le_load n m (Suc a) = 0" by (rule Suc.IH) (use Suc.prems in auto)
  ultimately show ?case by simp
qed simp

lemma le_load_fill [simp]: "a \<le> b \<Longrightarrow> b + k \<le> a + n \<Longrightarrow> le_load k (mem_fill m a 0 n) b = 0"
  by (rule le_load_zero) auto

lemma mem_copy_in [simp]: "k < n \<Longrightarrow> mem_copy m dst src n (dst + k) = m (src + k)"
  by (simp add: mem_copy_def)

lemma mem_copy_out [simp]: "x < dst \<or> dst + n \<le> x \<Longrightarrow> mem_copy m dst src n x = m x"
  by (auto simp: mem_copy_def)

lemma wt_track_loop_intless_only:
  "\<exists>c. snd (wt_track_loop_intless f addr cnt a g s) = s\<lparr>wt_cnt := c\<rparr>"
proof (induction f addr cnt a g s rule: wt_track_loop_intless.induct)
  case (1 f addr cnt a g s)
  show ?case
  proof (cases "a < addr + cnt")
    case True
    obtain g' c where t: "wt_track_addr1_intless f s a (wt_sub_cnt addr cnt a) = (g', s\<lparr>wt_cnt := c\<rparr>)"
      by (simp add: wt_track_addr1_intless_def wt_cnter_track_pfn_intless_def wt_cnter_add_def Let_def)
    from "1.IH" [OF True t [symmetric]] obtain c' where
      "snd (wt_track_loop_intless f addr cnt (a + PAGE_SIZE) (if g' then True else g) (s\<lparr>wt_cnt := c\<rparr>)) =
        s\<lparr>wt_cnt := c, wt_cnt := c'\<rparr>" by blast
    with True t show ?thesis
      by (subst wt_track_loop_intless.simps) auto
  next
    case False
    then show ?thesis by (subst wt_track_loop_intless.simps) (auto intro!: exI [of _ "wt_cnt s"])
  qed
qed

lemma wt_track_intless_only:
  "\<exists>c. snd (wt_cnter_track_addr_intless f s addr cnt) = s\<lparr>wt_cnt := c\<rparr>"
  unfolding wt_cnter_track_addr_intless_def
  using wt_track_loop_intless_only
  by (auto simp: wt_track_addr1_intless_def wt_cnter_track_pfn_intless_def wt_cnter_add_def Let_def)

lemma wt_track_intless_frame [simp]:
  "pm (snd (wt_cnter_track_addr_intless f s a n)) = pm s"
  "page_private (snd (wt_cnter_track_addr_intless f s a n)) = page_private s"
  "page_index (snd (wt_cnter_track_addr_intless f s a n)) = page_index s"
  "vmap_pt (snd (wt_cnter_track_addr_intless f s a n)) = vmap_pt s"
  "vmapi (snd (wt_cnter_track_addr_intless f s a n)) = vmapi s"
  using wt_track_intless_only [of f s a n] by auto

lemma PM_EQU_sel [simp]:
  "pm (PM_EQU n s off y) = le_store n (pm s) off y" "page_private (PM_EQU n s off y) = page_private s"
  "page_index (PM_EQU n s off y) = page_index s" "vmap_pt (PM_EQU n s off y) = vmap_pt s"
  "vmapi (PM_EQU n s off y) = vmapi s" "virt_addr (PM_EQU n s off y) = virt_addr s"
  "phys_addr (PM_EQU n s off y) = phys_addr s"
  by (simp_all add: PM_EQU_def)

lemma PM_STORE_sel [simp]:
  "pm (PM_STORE n c s off y) = le_store n (pm s) off y" "page_private (PM_STORE n c s off y) = page_private s"
  "page_index (PM_STORE n c s off y) = page_index s" "vmap_pt (PM_STORE n c s off y) = vmap_pt s"
  "vmapi (PM_STORE n c s off y) = vmapi s" "virt_addr (PM_STORE n c s off y) = virt_addr s"
  "phys_addr (PM_STORE n c s off y) = phys_addr s"
  by (simp_all add: PM_STORE_def)

lemma PM_MEMSET_sel [simp]:
  "pm (PM_MEMSET s off v n) = mem_fill (pm s) off v n" "page_private (PM_MEMSET s off v n) = page_private s"
  "page_index (PM_MEMSET s off v n) = page_index s" "vmap_pt (PM_MEMSET s off v n) = vmap_pt s"
  "vmapi (PM_MEMSET s off v n) = vmapi s" "virt_addr (PM_MEMSET s off v n) = virt_addr s"
  "phys_addr (PM_MEMSET s off v n) = phys_addr s"
  by (simp_all add: PM_MEMSET_def)

lemma PM_NO_INT_sel [simp]:
  "pm (snd (PM_EQU_NO_INT n s off y)) = le_store n (pm s) off y"
  "page_private (snd (PM_EQU_NO_INT n s off y)) = page_private s"
  "page_index (snd (PM_EQU_NO_INT n s off y)) = page_index s"
  "vmap_pt (snd (PM_EQU_NO_INT n s off y)) = vmap_pt s" "vmapi (snd (PM_EQU_NO_INT n s off y)) = vmapi s"
  "pm (snd (PM_MEMCPY_NO_INT s d a n)) = mem_copy (pm s) d a n"
  "page_private (snd (PM_MEMCPY_NO_INT s d a n)) = page_private s"
  "page_index (snd (PM_MEMCPY_NO_INT s d a n)) = page_index s"
  "vmap_pt (snd (PM_MEMCPY_NO_INT s d a n)) = vmap_pt s" "vmapi (snd (PM_MEMCPY_NO_INT s d a n)) = vmapi s"
  by (simp_all add: PM_EQU_NO_INT_def PM_MEMCPY_NO_INT_def)

end
