(* ===== verification/VMap.thy ===== *)
theory VMap
  imports PmBytes
begin

text \<open>
  Block offsets and the two vmalloc windows (\<^verbatim>\<open>wpmfs_balloc.c\<close> from "Additional memory management
  functions", \<^verbatim>\<open>wpmfs_wl.h\<close>, the inline accessors of \<^verbatim>\<open>pmfs.h\<close>, the recovery half of
  \<^verbatim>\<open>wpmfs_bbuild.c\<close>).

  A block offset (\<^verbatim>\<open>union wpmfs_blockoff\<close>) packs a 57-bit offset with the window it is relative to:
  0 the direct mapping, 1 the static window, 2 the dynamic window.  Each window page shows one block;
  two mapping tables at the start of the device record which, so that a mount can map them again.

  The device starts with \<^verbatim>\<open>struct wpmfs_mptables\<close>: the number of static pages at byte 0, the first
  block of the dynamic table at byte 8, the number of dynamic pages at byte 16, then the slots of the
  static table.  Table pointers are offsets from the start of the device.  \<^verbatim>\<open>PMFS_ASSERT\<close> only prints
  and is left out; \<^verbatim>\<open>wpmfs_assert\<close> stops the kernel: \<open>None\<close>.
\<close>

section \<open>Block offsets\<close>

definition wb_val :: "64 word \<Rightarrow> nat" where
  "wb_val bo = unat (take_bit 57 bo)"

definition wb_vlocation :: "64 word \<Rightarrow> nat" where
  "wb_vlocation bo = unat (drop_bit 57 bo)"

definition wb_make :: "nat \<Rightarrow> nat \<Rightarrow> 64 word" where
  "wb_make val vlocation = take_bit 57 (of_nat val) OR push_bit 57 (of_nat vlocation)"

definition wpmfs_get_block :: "wpmfs \<Rightarrow> 64 word \<Rightarrow> nat option" where
  "wpmfs_get_block s blockoff =
     (let direct = (if wb_val blockoff \<noteq> 0 then virt_addr s + wb_val blockoff else 0)
      in if wb_vlocation blockoff = 0 then Some direct
      else if wb_vlocation blockoff = 1 then
        if \<not> enabled (vmapi s) then Some direct
        else Some (if wb_val blockoff \<noteq> 0 then base_static (vmapi s) + wb_val blockoff else 0)
      else if wb_vlocation blockoff = 2 then
        if \<not> enabled (vmapi s) then Some direct
        else Some (base_dynamic (vmapi s) + wb_val blockoff)
      else None)"

text \<open>\<^verbatim>\<open>wpmfs_get_blockoff\<close> at its \<^verbatim>\<open>vmap_disabled\<close> label.\<close>

definition wpmfs_get_blockoff_direct :: "nat \<Rightarrow> 64 word option" where
  "wpmfs_get_blockoff_direct blocknr =
     (let wblock = wb_make (blocknr * 2 ^ PAGE_SHIFT) 0
      in if wblock = 0 then None else Some wblock)"

definition pmfs_get_block :: "wpmfs \<Rightarrow> nat \<Rightarrow> nat" where
  "pmfs_get_block s blockoff = (if blockoff \<noteq> 0 then virt_addr s + blockoff else 0)"

definition pmfs_get_pfn :: "wpmfs \<Rightarrow> nat \<Rightarrow> nat" where
  "pmfs_get_pfn s blockoff = (phys_addr s + blockoff) div 2 ^ PAGE_SHIFT"

definition wpmfs_get_blocknr :: "wpmfs \<Rightarrow> nat \<Rightarrow> nat" where
  "wpmfs_get_blocknr s pfn = (pfn * 2 ^ PAGE_SHIFT - phys_addr s) div 2 ^ PAGE_SHIFT"

section \<open>The mapping tables\<close>

abbreviation MPTABLES_SIZE :: nat where "MPTABLES_SIZE \<equiv> 24"

definition wpmfs_get_mptable_static :: nat where
  "wpmfs_get_mptable_static = MPTABLES_SIZE"

definition wpmfs_get_mptable_dynamic :: "wpmfs \<Rightarrow> nat option" where
  "wpmfs_get_mptable_dynamic s =
     (case wpmfs_get_blockoff_direct (le_load 8 (pm s) 8) of
        None \<Rightarrow> None
      | Some blockoff \<Rightarrow> (case wpmfs_get_block s blockoff of
          None \<Rightarrow> None | Some addr \<Rightarrow> Some (addr - virt_addr s)))"

definition wpmfs_confirm_mptable_dynamic :: "wpmfs \<Rightarrow> wpmfs" where
  "wpmfs_confirm_mptable_dynamic s =
     s\<lparr>pm := le_store 8 (pm s) 16 (size_dynamic (vmapi s) div 2 ^ PAGE_SHIFT)\<rparr>"

definition wpmfs_get_pfn :: "wpmfs \<Rightarrow> 64 word \<Rightarrow> nat option" where
  "wpmfs_get_pfn s blockoff =
     (let pfn0 = phys_addr s div 2 ^ PAGE_SHIFT
      in if wb_vlocation blockoff = 0 then Some (pfn0 + unat blockoff div 2 ^ PAGE_SHIFT)
      else if wb_vlocation blockoff = 2 then
        (case wpmfs_get_mptable_dynamic s of
           None \<Rightarrow> None
         | Some mptable \<Rightarrow> Some (pfn0 + le_load 8 (pm s) (mptable + 8 * (wb_val blockoff div 2 ^ PAGE_SHIFT))))
      else None)"

definition wpmfs_reget_blocknr :: "wpmfs \<Rightarrow> 64 word \<Rightarrow> nat option" where
  "wpmfs_reget_blocknr s blockoff =
     (if wb_vlocation blockoff = 0 then Some (unat blockoff div 2 ^ PAGE_SHIFT)
      else if wb_vlocation blockoff = 2 then
        (case wpmfs_get_mptable_dynamic s of
           None \<Rightarrow> None
         | Some mptable \<Rightarrow> Some (le_load 8 (pm s) (mptable + 8 * (wb_val blockoff div 2 ^ PAGE_SHIFT))))
      else None)"

definition wpmfs_reget_mptable_slot :: "wpmfs \<Rightarrow> nat \<Rightarrow> nat option" where
  "wpmfs_reget_mptable_slot s page =
     (if wpmfs_page_marks s page AND WPMFS_PAGE_VMAP_DYNAMIC = 0
      then Some (wpmfs_get_mptable_static + 8 * page_index s page)
      else case wpmfs_get_mptable_dynamic s of
        None \<Rightarrow> None | Some mptable \<Rightarrow> Some (mptable + 8 * page_index s page))"

text \<open>
  \<^verbatim>\<open>wpmfs_reget_blockoff\<close>: the block offset of an address.  \<open>is_vmalloc\<close> is the kernel's
  \<^verbatim>\<open>is_vmalloc_addr\<close>.
\<close>

definition wpmfs_reget_blockoff :: "(nat \<Rightarrow> bool) \<Rightarrow> wpmfs \<Rightarrow> nat \<Rightarrow> 64 word option" where
  "wpmfs_reget_blockoff is_vmalloc s addr =
     (if \<not> is_vmalloc addr then Some (wb_make (addr - virt_addr s) 0)
      else if base_static (vmapi s) \<le> addr \<and> addr < base_static (vmapi s) + size_static (vmapi s)
        then Some (wb_make (addr - base_static (vmapi s)) 1)
      else if base_dynamic (vmapi s) \<le> addr \<and> addr < base_dynamic (vmapi s) + size_dynamic (vmapi s)
        then Some (wb_make (addr - base_dynamic (vmapi s)) 2)
      else None)"

section \<open>Mapping pages\<close>

text \<open>
  The kernel's mapping services: \<^verbatim>\<open>vmap_page_range\<close> and \<^verbatim>\<open>vmap\<close> map a list of pages from a virtual
  page on (the second chooses the address, or fails), \<^verbatim>\<open>get_vm_area_caller\<close> reserves a range.
  \<open>kernel_vm_ok\<close> states what they are documented to do.
\<close>

type_synonym page_table = "nat \<Rightarrow> (nat \<times> bool) option"

record kernel_vm =
  vmap_page_range :: "page_table \<Rightarrow> nat \<Rightarrow> nat list \<Rightarrow> page_table"
  vmap :: "page_table \<Rightarrow> nat list \<Rightarrow> (nat \<times> page_table) option"
  get_vm_area :: "nat \<Rightarrow> nat option"

definition maps_pages :: "page_table \<Rightarrow> page_table \<Rightarrow> nat \<Rightarrow> nat list \<Rightarrow> bool" where
  "maps_pages pt pt' vp bs \<longleftrightarrow> (\<forall>i<length bs. pt' (vp + i) = Some (bs ! i, True))
     \<and> (\<forall>q. q < vp \<or> vp + length bs \<le> q \<longrightarrow> pt' q = pt q)"

definition kernel_vm_ok :: "kernel_vm \<Rightarrow> bool" where
  "kernel_vm_ok K \<longleftrightarrow> (\<forall>pt vp bs. maps_pages pt (vmap_page_range K pt vp bs) vp bs)
     \<and> (\<forall>pt bs va pt'. vmap K pt bs = Some (va, pt') \<longrightarrow> PAGE_SIZE dvd va \<and> maps_pages pt pt' (va div PAGE_SIZE) bs)
     \<and> (\<forall>size va. get_vm_area K size = Some va \<longrightarrow> PAGE_SIZE dvd va)"

definition wpmfs_map_dynamic_page :: "kernel_vm \<Rightarrow> wpmfs \<Rightarrow> nat \<Rightarrow> (64 word \<times> wpmfs) option" where
  "wpmfs_map_dynamic_page K s blocknr =
     (let size = size_dynamic (vmapi s);
          index = size div 2 ^ PAGE_SHIFT;
          start_addr = base_dynamic (vmapi s) + size
      in case wpmfs_get_mptable_dynamic s of None \<Rightarrow> None | Some mptable \<Rightarrow>
         case wpmfs_get_blockoff_direct blocknr of None \<Rightarrow> None | Some blockoff \<Rightarrow>
         case wpmfs_get_pfn s blockoff of None \<Rightarrow> None | Some pfn \<Rightarrow>
         let page = pfn - phys_addr s div 2 ^ PAGE_SHIFT;
             s1 = s\<lparr>vmap_pt := vmap_page_range K (vmap_pt s) (start_addr div PAGE_SIZE) [page]\<rparr>;
             s2 = mark_page s1 page (WPMFS_PAGE_USING OR WPMFS_PAGE_VMAP OR WPMFS_PAGE_VMAP_DYNAMIC);
             s3 = s2\<lparr>page_index := (page_index s2)(page := index)\<rparr>;
             s4 = PM_EQU 8 s3 (mptable + 8 * index) blocknr
         in Some (wb_make size 2, s4\<lparr>vmapi := (vmapi s4)\<lparr>size_dynamic := size + PAGE_SIZE\<rparr>\<rparr>))"

definition wpmfs_get_blockoff :: "kernel_vm \<Rightarrow> wpmfs \<Rightarrow> nat \<Rightarrow> nat \<Rightarrow> (64 word \<times> wpmfs) option" where
  "wpmfs_get_blockoff K s blocknr vlocation =
     (let direct = (case wpmfs_get_blockoff_direct blocknr of None \<Rightarrow> None | Some bo \<Rightarrow> Some (bo, s))
      in if vlocation = 0 then direct
      else if vlocation = 2 then
        if \<not> enabled (vmapi s) then direct
        else (case wpmfs_map_dynamic_page K s blocknr of
                None \<Rightarrow> None
              | Some (wblock, s') \<Rightarrow> if wblock = 0 then None else Some (wblock, s'))
      else None)"

section \<open>Setting the windows up on a new device\<close>

definition setup_static_slot :: "nat \<Rightarrow> nat \<Rightarrow> wpmfs \<Rightarrow> wpmfs" where
  "setup_static_slot map_pages cur_slot s =
     (let blocknr = map_pages + cur_slot;
          s1 = PM_EQU 8 s (wpmfs_get_mptable_static + 8 * cur_slot) blocknr;
          s2 = mark_page s1 blocknr (WPMFS_PAGE_USING OR WPMFS_PAGE_VMAP)
      in s2\<lparr>page_index := (page_index s2)(blocknr := cur_slot)\<rparr>)"

text \<open>Both return success, the reserved size and the state.\<close>

definition setup_vmap_static :: "kernel_vm \<Rightarrow> wpmfs \<Rightarrow> nat \<Rightarrow> bool \<times> nat \<times> wpmfs" where
  "setup_vmap_static K s reserved =
     (let s0 = PM_STORE 8 4 s 0 0;
          rsrv_mem_size = round_down PAGE_SIZE (reserved + (PAGE_SIZE - 1));
          rsrv_mem_pages = rsrv_mem_size div 2 ^ PAGE_SHIFT;
          map_size = round_down PAGE_SIZE (MPTABLES_SIZE + rsrv_mem_pages * 8 + (PAGE_SIZE - 1));
          map_pages = map_size div 2 ^ PAGE_SHIFT
      in if \<not> kmem_ok s0 then (False, reserved, s0)
      else
        let s1 = for_loop (setup_static_slot map_pages) 0 rsrv_mem_pages s0;
            ppages = map (\<lambda>cur_slot. map_pages + cur_slot) [0..<rsrv_mem_pages]
        in case vmap K (vmap_pt s1) ppages of
             None \<Rightarrow> (False, reserved, s1)
           | Some (vmaddr, pt) \<Rightarrow>
               let s2 = s1\<lparr>vmap_pt := pt,
                           vmapi := (vmapi s1)\<lparr>base_static := vmaddr, size_static := rsrv_mem_size\<rparr>\<rparr>
               in (True, reserved + map_size, PM_EQU 8 s2 0 rsrv_mem_pages))"

definition setup_dynamic_page :: "nat \<Rightarrow> nat \<Rightarrow> wpmfs \<Rightarrow> wpmfs" where
  "setup_dynamic_page first cur_page s =
     (let blocknr = first + cur_page;
          s1 = PM_MEMSET s (pmfs_get_block_off blocknr) 0 PAGE_SIZE
      in mark_page s1 blocknr (WPMFS_PAGE_USING OR WPMFS_PAGE_VMAP_DYNAMIC))"

definition setup_vmap_dynamic :: "kernel_vm \<Rightarrow> wpmfs \<Rightarrow> nat \<Rightarrow> bool \<times> nat \<times> wpmfs" where
  "setup_vmap_dynamic K s reserved =
     (let map_size = round_down PAGE_SIZE (PAGE_SIZE * 10 + (PAGE_SIZE - 1));
          map_pages = map_size div 2 ^ PAGE_SHIFT;
          first = reserved div 2 ^ PAGE_SHIFT;
          s1 = for_loop (setup_dynamic_page first) 0 map_pages s;
          s2 = s1\<lparr>pm := le_store 8 (pm s1) 8 first\<rparr>;
          s3 = s2\<lparr>pm := le_store 8 (pm s2) 16 0\<rparr>
      in case get_vm_area K (1024 * 1024 * 1024) of
           None \<Rightarrow> (False, reserved, s3)
         | Some addr \<Rightarrow>
             (True, reserved + map_size,
              s3\<lparr>vmapi := (vmapi s3)\<lparr>base_dynamic := addr, size_dynamic := 0\<rparr>\<rparr>))"

definition wpmfs_setup_memory :: "kernel_vm \<Rightarrow> wpmfs \<Rightarrow> nat \<Rightarrow> bool \<times> nat \<times> wpmfs" where
  "wpmfs_setup_memory K s reserved =
     (if \<not> enabled (vmapi s) then (True, reserved, s)
      else case setup_vmap_static K s reserved of
        (False, r, s1) \<Rightarrow> (False, r, s1)
      | (True, r, s1) \<Rightarrow> setup_vmap_dynamic K s1 r)"

section \<open>Mapping the windows again at mount\<close>

definition recv_mark_using :: "nat \<Rightarrow> wpmfs \<Rightarrow> wpmfs" where
  "recv_mark_using page s = mark_page s page WPMFS_PAGE_USING"

definition recv_static_slot :: "nat \<Rightarrow> wpmfs \<Rightarrow> wpmfs" where
  "recv_static_slot cur_page s =
     (let blocknr = le_load 8 (pm s) (wpmfs_get_mptable_static + 8 * cur_page);
          s1 = mark_page s blocknr (WPMFS_PAGE_VMAP OR WPMFS_PAGE_USING)
      in s1\<lparr>page_index := (page_index s1)(blocknr := cur_page)\<rparr>)"

text \<open>
  Both loops of \<^verbatim>\<open>recv_vmap_static\<close> run to \<^verbatim>\<open>num_pages\<close> inclusive.  The store of the extra element
  behind \<^verbatim>\<open>ppages\<close> is outside the allocated array and is not modelled; \<^verbatim>\<open>vmap\<close> reads the first
  \<^verbatim>\<open>num_pages\<close> elements.
\<close>

definition recv_vmap_static :: "kernel_vm \<Rightarrow> wpmfs \<Rightarrow> bool \<times> wpmfs" where
  "recv_vmap_static K s =
     (let n = le_load 8 (pm s) 0;
          mptable_size = round_down PAGE_SIZE (n * 8 + MPTABLES_SIZE + (PAGE_SIZE - 1));
          s1 = for_loop recv_mark_using 0 (mptable_size div 2 ^ PAGE_SHIFT + 1) s
      in if \<not> kmem_ok s1 then (False, s1)
      else
        let s2 = for_loop recv_static_slot 0 (n + 1) s1;
            ppages = map (\<lambda>cur_page. le_load 8 (pm s1) (wpmfs_get_mptable_static + 8 * cur_page)) [0..<n]
        in case vmap K (vmap_pt s2) ppages of
             None \<Rightarrow> (False, s2)
           | Some (vmaddr, pt) \<Rightarrow>
               (True, s2\<lparr>vmap_pt := pt,
                         vmapi := (vmapi s2)\<lparr>base_static := vmaddr, size_static := n * 2 ^ PAGE_SHIFT\<rparr>\<rparr>))"

fun recv_dynamic_slots :: "kernel_vm \<Rightarrow> nat \<Rightarrow> nat list \<Rightarrow> wpmfs \<Rightarrow> wpmfs option" where
  "recv_dynamic_slots K mptable [] s = Some s"
| "recv_dynamic_slots K mptable (cur_page # ps) s =
     (case wpmfs_map_dynamic_page K s (le_load 8 (pm s) (mptable + 8 * cur_page)) of
        None \<Rightarrow> None
      | Some (_, s') \<Rightarrow> recv_dynamic_slots K mptable ps s')"

definition recv_vmap_dynamic :: "kernel_vm \<Rightarrow> wpmfs \<Rightarrow> (bool \<times> wpmfs) option" where
  "recv_vmap_dynamic K s =
     (case wpmfs_get_mptable_dynamic s of None \<Rightarrow> None | Some mptable \<Rightarrow>
      case get_vm_area K (1024 * 1024 * 1024) of
        None \<Rightarrow> Some (False, s)
      | Some addr \<Rightarrow>
          let s1 = s\<lparr>vmapi := (vmapi s)\<lparr>base_dynamic := addr, size_dynamic := 0\<rparr>\<rparr>;
              s2 = for_loop (\<lambda>cur_page. recv_mark_using (mptable div 2 ^ PAGE_SHIFT + cur_page)) 0 10 s1;
              num_pages = le_load 8 (pm s2) 16
          in (case recv_dynamic_slots K mptable [0..<num_pages] s2 of
                None \<Rightarrow> None | Some s3 \<Rightarrow> Some (True, s3)))"

definition wpmfs_recv_memory :: "kernel_vm \<Rightarrow> wpmfs \<Rightarrow> (bool \<times> wpmfs) option" where
  "wpmfs_recv_memory K s =
     (if \<not> enabled (vmapi s) then Some (True, s)
      else case recv_vmap_static K s of
        (False, s1) \<Rightarrow> Some (False, s1)
      | (True, s1) \<Rightarrow> recv_vmap_dynamic K s1)"

section \<open>Block offsets: lemmas\<close>

lemma wb_val_make: "val < 2 ^ 57 \<Longrightarrow> wb_val (wb_make val loc) = val"
proof -
  assume v: "val < 2 ^ 57"
  have "take_bit 57 (wb_make val loc) = take_bit 57 (of_nat val :: 64 word)"
    unfolding wb_make_def by (rule bit_word_eqI) (auto simp: bit_simps)
  also have "unat \<dots> = val"
    using v by (simp add: unsigned_take_bit_eq unat_of_nat take_bit_nat_eq_self)
  finally show ?thesis by (simp add: wb_val_def)
qed

lemma wb_vlocation_make: "loc < 128 \<Longrightarrow> wb_vlocation (wb_make val loc) = loc"
proof -
  assume l: "loc < 128"
  have b: "bit (of_nat loc :: 64 word) n \<longleftrightarrow> n < 64 \<and> bit loc n" for n by (simp add: bit_simps)
  have hi: "n < 7" if "bit loc n" for n
  proof -
    have "take_bit 7 loc = loc" using l by (simp add: take_bit_nat_eq_self)
    then show ?thesis using that by (metis bit_take_bit_iff not_less)
  qed
  have "drop_bit 57 (wb_make val loc) = of_nat loc"
    unfolding wb_make_def by (rule bit_word_eqI) (auto simp: bit_simps b not_less dest: hi)
  with l show ?thesis by (simp add: wb_vlocation_def unat_of_nat)
qed

lemma unat_wb_make_0: "val < 2 ^ 57 \<Longrightarrow> unat (wb_make val 0) = val"
  by (simp add: wb_make_def unsigned_take_bit_eq unat_of_nat take_bit_nat_eq_self)

lemma wb_make_0_eq_0: "val < 2 ^ 57 \<Longrightarrow> wb_make val 0 = 0 \<longleftrightarrow> val = 0"
  using unat_wb_make_0 [of val] by (auto simp: wb_make_def)

lemma wb_make_eq_0: "val < 2 ^ 57 \<Longrightarrow> 0 < loc \<Longrightarrow> loc < 128 \<Longrightarrow> wb_make val loc \<noteq> 0"
  using wb_vlocation_make [of loc val] by (auto simp: wb_vlocation_def)

text \<open>A block number that fits the 57 bits of an offset.\<close>

abbreviation blocknr_ok :: "nat \<Rightarrow> bool" where
  "blocknr_ok b \<equiv> 0 < b \<and> b < 2 ^ 45"

lemma blockoff_direct: "blocknr_ok b \<Longrightarrow> wpmfs_get_blockoff_direct b = Some (wb_make (b * 4096) 0)"
  by (simp add: wpmfs_get_blockoff_direct_def Let_def wb_make_0_eq_0)

lemma get_block_direct:
  "0 < val \<Longrightarrow> val < 2 ^ 57 \<Longrightarrow> wpmfs_get_block s (wb_make val 0) = Some (virt_addr s + val)"
  by (simp add: wpmfs_get_block_def wb_vlocation_make wb_val_make)

lemma get_pfn_direct:
  "b < 2 ^ 45 \<Longrightarrow> wpmfs_get_pfn s (wb_make (b * 4096) 0) = Some (phys_addr s div 4096 + b)"
  by (simp add: wpmfs_get_pfn_def wb_vlocation_make unat_wb_make_0)

lemma mptable_dynamic_eq:
  "blocknr_ok (le_load 8 (pm s) 8) \<Longrightarrow> wpmfs_get_mptable_dynamic s = Some (le_load 8 (pm s) 8 * 4096)"
  by (simp add: wpmfs_get_mptable_dynamic_def blockoff_direct get_block_direct)

text \<open>
  An address inside the device or inside a window is found again from its block offset; the first
  page of the static window, whose offset 0 reads as null, is the exception.
\<close>

lemma get_block_reget:
  assumes "enabled (vmapi s)" "wpmfs_reget_blockoff is_vm s addr = Some bo"
    and "\<not> is_vm addr \<Longrightarrow> virt_addr s < addr \<and> addr - virt_addr s < 2 ^ 57"
    and "is_vm addr \<Longrightarrow> addr \<noteq> base_static (vmapi s)"
    and "size_static (vmapi s) \<le> 2 ^ 57" "size_dynamic (vmapi s) \<le> 2 ^ 57"
  shows "wpmfs_get_block s bo = Some addr"
proof (cases "is_vm addr")
  case False
  with assms show ?thesis by (auto simp: wpmfs_reget_blockoff_def get_block_direct)
next
  case True
  show ?thesis
  proof (cases "base_static (vmapi s) \<le> addr \<and> addr < base_static (vmapi s) + size_static (vmapi s)")
    case True
    with assms(5) have "addr - base_static (vmapi s) < 2 ^ 57" by linarith
    with True \<open>is_vm addr\<close> assms show ?thesis
      by (auto simp: wpmfs_reget_blockoff_def wpmfs_get_block_def wb_vlocation_make wb_val_make)
  next
    case False
    with True assms(2) have d: "base_dynamic (vmapi s) \<le> addr"
      "addr < base_dynamic (vmapi s) + size_dynamic (vmapi s)"
      and bo: "bo = wb_make (addr - base_dynamic (vmapi s)) 2"
      by (auto simp: wpmfs_reget_blockoff_def split: if_splits)
    from d assms(6) have "addr - base_dynamic (vmapi s) < 2 ^ 57" by linarith
    with bo d assms(1) show ?thesis
      by (simp add: wpmfs_get_block_def wb_vlocation_make wb_val_make)
  qed
qed

lemma reget_get_block:
  assumes "enabled (vmapi s)" "loc = 1 \<or> loc = 2" "val < 2 ^ 57" "loc = 1 \<Longrightarrow> 0 < val"
    and "wpmfs_get_block s (wb_make val loc) = Some addr" "is_vm addr"
    and "loc = 1 \<Longrightarrow> val < size_static (vmapi s)" "loc = 2 \<Longrightarrow> val < size_dynamic (vmapi s)"
    and "base_static (vmapi s) + size_static (vmapi s) \<le> base_dynamic (vmapi s)
      \<or> base_dynamic (vmapi s) + size_dynamic (vmapi s) \<le> base_static (vmapi s)"
  shows "wpmfs_reget_blockoff is_vm s addr = Some (wb_make val loc)"
  using assms by (auto simp: wpmfs_get_block_def wb_vlocation_make wb_val_make wpmfs_reget_blockoff_def)

section \<open>Well-formed windows\<close>

definition head_blocknr :: "wpmfs \<Rightarrow> nat" where "head_blocknr s = le_load 8 (pm s) 8"
definition static_slot :: "wpmfs \<Rightarrow> nat \<Rightarrow> nat" where "static_slot s i = le_load 8 (pm s) (24 + 8 * i)"
definition dynamic_slot :: "wpmfs \<Rightarrow> nat \<Rightarrow> nat" where
  "dynamic_slot s i = le_load 8 (pm s) (head_blocknr s * 4096 + 8 * i)"

abbreviation static_pages :: "wpmfs \<Rightarrow> nat" where "static_pages s \<equiv> size_static (vmapi s) div 4096"
abbreviation dynamic_pages :: "wpmfs \<Rightarrow> nat" where "dynamic_pages s \<equiv> size_dynamic (vmapi s) div 4096"

text \<open>The blocks of both windows, and the blocks that hold the mapping tables.\<close>

definition window_blocks :: "wpmfs \<Rightarrow> nat list" where
  "window_blocks s = map (static_slot s) [0..<static_pages s] @ map (dynamic_slot s) [0..<dynamic_pages s]"

definition table_blocks :: "wpmfs \<Rightarrow> nat set" where
  "table_blocks s = {0..(23 + 8 * static_pages s) div 4096} \<union> {head_blocknr s..<head_blocknr s + 10}"

definition page_marked :: "wpmfs \<Rightarrow> nat \<Rightarrow> nat \<Rightarrow> bool \<Rightarrow> bool" where
  "page_marked s b i dyn \<longleftrightarrow> page_index s b = i \<and> page_private s b AND WPMFS_PAGE_VMAP \<noteq> 0
     \<and> (page_private s b AND WPMFS_PAGE_VMAP_DYNAMIC \<noteq> 0 \<longleftrightarrow> dyn)"

text \<open>The windows lie apart; a dynamic window may grow to the 5120 pages its table has room for.\<close>

definition windows_apart :: "wpmfs \<Rightarrow> bool" where
  "windows_apart s \<longleftrightarrow> PAGE_SIZE dvd base_static (vmapi s) \<and> PAGE_SIZE dvd base_dynamic (vmapi s)
     \<and> PAGE_SIZE dvd size_static (vmapi s) \<and> PAGE_SIZE dvd size_dynamic (vmapi s)
     \<and> (base_static (vmapi s) + size_static (vmapi s) \<le> base_dynamic (vmapi s)
        \<or> base_dynamic (vmapi s) + 1073741824 \<le> base_static (vmapi s))"

definition vmap_wf :: "wpmfs \<Rightarrow> bool" where
  "vmap_wf s \<longleftrightarrow> windows_apart s \<and> dynamic_pages s \<le> 5120
     \<and> blocknr_ok (head_blocknr s) \<and> (23 + 8 * static_pages s) div 4096 < head_blocknr s
     \<and> distinct (window_blocks s) \<and> (\<forall>b\<in>set (window_blocks s). blocknr_ok b \<and> b \<notin> table_blocks s)
     \<and> (\<forall>i < static_pages s. vmap_pt s (base_static (vmapi s) div 4096 + i) = Some (static_slot s i, True)
          \<and> page_marked s (static_slot s i) i False)
     \<and> (\<forall>i < dynamic_pages s. vmap_pt s (base_dynamic (vmapi s) div 4096 + i) = Some (dynamic_slot s i, True)
          \<and> page_marked s (dynamic_slot s i) i True)"

text \<open>What a load through the windows reads.\<close>

definition vread :: "wpmfs \<Rightarrow> nat \<Rightarrow> 8 word option" where
  "vread s va = (case vmap_pt s (va div 4096) of
     None \<Rightarrow> None | Some (b, _) \<Rightarrow> Some (pm s (b * 4096 + va mod 4096)))"

section \<open>Mapping one more page\<close>

lemma vmap_page_range_one:
  assumes "kernel_vm_ok K"
  shows "vmap_page_range K pt vp [b] vp = Some (b, True)"
    "q \<noteq> vp \<Longrightarrow> vmap_page_range K pt vp [b] q = pt q"
proof -
  have "maps_pages pt (vmap_page_range K pt vp [b]) vp [b]" using assms by (simp add: kernel_vm_ok_def)
  note m = this [unfolded maps_pages_def]
  from m show "vmap_page_range K pt vp [b] vp = Some (b, True)" by (auto dest: spec [of _ 0])
  from m show "q \<noteq> vp \<Longrightarrow> vmap_page_range K pt vp [b] q = pt q" by (auto simp: Suc_le_eq nat_neq_iff)
qed

lemma windows_apart_grow:
  assumes "windows_apart s" "dynamic_pages s < 5120"
    "vmapi s' = (vmapi s)\<lparr>size_dynamic := size_dynamic (vmapi s) + 4096\<rparr>"
  shows "windows_apart s'" "dynamic_pages s' = dynamic_pages s + 1" "static_pages s' = static_pages s"
  using assms by (auto simp: windows_apart_def)

text \<open>The virtual pages of the two windows do not meet.\<close>

lemma windows_apart_pages:
  assumes w: "windows_apart s" and i: "i < static_pages s" and j: "j \<le> 5120"
  shows "base_static (vmapi s) div 4096 + i \<noteq> base_dynamic (vmapi s) div 4096 + j"
proof -
  obtain a b c where abc: "base_static (vmapi s) = 4096 * a" "base_dynamic (vmapi s) = 4096 * b"
    "size_static (vmapi s) = 4096 * c"
    using w unfolding windows_apart_def by (auto elim!: dvdE)
  with w have "a + c \<le> b \<or> b + 262144 \<le> a" unfolding windows_apart_def by auto
  with i j abc show ?thesis by auto
qed

lemma map_dynamic_page_eq:
  assumes "blocknr_ok (head_blocknr s)" "blocknr_ok b"
  shows "wpmfs_map_dynamic_page K s b =
     (let size = size_dynamic (vmapi s); index = size div 4096;
          s1 = s\<lparr>vmap_pt := vmap_page_range K (vmap_pt s) ((base_dynamic (vmapi s) + size) div 4096) [b]\<rparr>;
          s2 = mark_page s1 b (WPMFS_PAGE_USING OR WPMFS_PAGE_VMAP OR WPMFS_PAGE_VMAP_DYNAMIC);
          s3 = s2\<lparr>page_index := (page_index s2)(b := index)\<rparr>;
          s4 = PM_EQU 8 s3 (head_blocknr s * 4096 + 8 * index) b
      in Some (wb_make size 2, s4\<lparr>vmapi := (vmapi s4)\<lparr>size_dynamic := size + 4096\<rparr>\<rparr>))"
  using assms mptable_dynamic_eq [of s]
  by (simp add: wpmfs_map_dynamic_page_def head_blocknr_def blockoff_direct get_pfn_direct)

lemma map_dynamic_page_Some:
  assumes "blocknr_ok (head_blocknr s)" "blocknr_ok b"
  obtains bo s' where "wpmfs_map_dynamic_page K s b = Some (bo, s')"
  using map_dynamic_page_eq [OF assms] by (auto simp: Let_def)

text \<open>What the mapping of block \<open>b\<close> changes, for a table with room for it.\<close>

lemma map_dynamic_page_effect:
  assumes "blocknr_ok (head_blocknr s)" "blocknr_ok b" "wpmfs_map_dynamic_page K s b = Some (bo, s')"
  shows "bo = wb_make (size_dynamic (vmapi s)) 2"
    "pm s' = le_store 8 (pm s) (head_blocknr s * 4096 + 8 * dynamic_pages s) b"
    "vmap_pt s' = vmap_page_range K (vmap_pt s) ((base_dynamic (vmapi s) + size_dynamic (vmapi s)) div 4096) [b]"
    "page_private s' = (page_private s)(b := 13)" "page_index s' = (page_index s)(b := dynamic_pages s)"
    "vmapi s' = (vmapi s)\<lparr>size_dynamic := size_dynamic (vmapi s) + 4096\<rparr>"
  using assms(3) unfolding map_dynamic_page_eq [OF assms(1,2)] by (auto simp: Let_def mark_page_eq)

lemma map_dynamic_slots:
  assumes wf: "vmap_wf s" and room: "dynamic_pages s < 5120" and b: "blocknr_ok b"
    and map: "wpmfs_map_dynamic_page K s b = Some (bo, s')"
  shows "head_blocknr s' = head_blocknr s" "i < static_pages s \<Longrightarrow> static_slot s' i = static_slot s i"
    "i < dynamic_pages s \<Longrightarrow> dynamic_slot s' i = dynamic_slot s i"
    "dynamic_slot s' (dynamic_pages s) = b"
proof -
  have h: "blocknr_ok (head_blocknr s)" "(23 + 8 * static_pages s) div 4096 < head_blocknr s"
    using wf by (auto simp: vmap_wf_def)
  note pm = map_dynamic_page_effect(2) [OF h(1) b map]
  show hd: "head_blocknr s' = head_blocknr s"
  proof -
    have "4096 \<le> head_blocknr s * 4096" using h(1) by simp
    then show ?thesis unfolding head_blocknr_def pm
      by (intro le_load_store_other) (simp add: head_blocknr_def)
  qed
  show "i < static_pages s \<Longrightarrow> static_slot s' i = static_slot s i"
    unfolding static_slot_def pm using h(2) by (intro le_load_store_other) linarith
  show "i < dynamic_pages s \<Longrightarrow> dynamic_slot s' i = dynamic_slot s i"
    unfolding dynamic_slot_def hd unfolding pm by (intro le_load_store_other) linarith
  show "dynamic_slot s' (dynamic_pages s) = b"
    unfolding dynamic_slot_def hd unfolding pm using b by (simp del: div_mult_self1)
qed

lemma map_dynamic_page_wf:
  assumes K: "kernel_vm_ok K" and wf: "vmap_wf s" and room: "dynamic_pages s < 5120" and b: "blocknr_ok b"
    and fresh: "b \<notin> set (window_blocks s)" "b \<notin> table_blocks s"
    and map: "wpmfs_map_dynamic_page K s b = Some (bo, s')"
  shows "vmap_wf s'" "window_blocks s' = window_blocks s @ [b]"
proof -
  have h: "blocknr_ok (head_blocknr s)" and wa: "windows_apart s" using wf by (auto simp: vmap_wf_def)
  note eff = map_dynamic_page_effect [OF h b map]
  note slots = map_dynamic_slots [OF wf room b map]
  note grow = windows_apart_grow [OF wa room eff(6)]
  show wb: "window_blocks s' = window_blocks s @ [b]"
    unfolding window_blocks_def grow using slots by simp
  have tb: "table_blocks s' = table_blocks s" unfolding table_blocks_def grow(3) slots(1) ..
  have dv: "4096 dvd base_dynamic (vmapi s)" "4096 dvd size_dynamic (vmapi s)"
    using wa by (auto simp: windows_apart_def)
  then have vp: "(base_dynamic (vmapi s) + size_dynamic (vmapi s)) div 4096 =
      base_dynamic (vmapi s) div 4096 + dynamic_pages s" by (simp add: div_plus_div_distrib_dvd_left)
  have pt: "vmap_pt s' (base_dynamic (vmapi s) div 4096 + dynamic_pages s) = Some (b, True)"
    "q \<noteq> base_dynamic (vmapi s) div 4096 + dynamic_pages s \<Longrightarrow> vmap_pt s' q = vmap_pt s q" for q
    unfolding eff(3) vp by (simp_all add: vmap_page_range_one [OF K])
  have marked: "page_marked s' c i d = page_marked s c i d" if "c \<in> set (window_blocks s)" for c i d
    using that fresh(1) unfolding page_marked_def eff(4,5) by (metis fun_upd_other)
  have st: "vmap_pt s' (base_static (vmapi s') div 4096 + i) = Some (static_slot s' i, True)
      \<and> page_marked s' (static_slot s' i) i False" if i: "i < static_pages s" for i
  proof -
    have "static_slot s i \<in> set (window_blocks s)" using i by (auto simp: window_blocks_def)
    moreover have "base_static (vmapi s) div 4096 + i \<noteq> base_dynamic (vmapi s) div 4096 + dynamic_pages s"
      by (rule windows_apart_pages [OF wa i]) (use room in simp)
    ultimately show ?thesis using wf i marked pt(2) slots(2) unfolding vmap_wf_def eff(6) by simp
  qed
  have dy: "vmap_pt s' (base_dynamic (vmapi s') div 4096 + i) = Some (dynamic_slot s' i, True)
      \<and> page_marked s' (dynamic_slot s' i) i True" if i: "i < dynamic_pages s + 1" for i
  proof (cases "i = dynamic_pages s")
    case True
    then show ?thesis using pt(1) slots(4) by (simp add: eff(4,5,6) page_marked_def)
  next
    case False
    with i have lt: "i < dynamic_pages s" by simp
    then have "dynamic_slot s i \<in> set (window_blocks s)" by (auto simp: window_blocks_def)
    with lt wf marked pt(2) slots(3) show ?thesis unfolding vmap_wf_def eff(6) by simp
  qed
  show "vmap_wf s'"
    unfolding vmap_wf_def wb tb grow(2,3) slots(1)
    using wf b fresh grow(1) room st dy by (auto simp: vmap_wf_def)
qed

text \<open>The new page shows the block, and what the windows showed before is unchanged.\<close>

lemma map_dynamic_page_read:
  assumes K: "kernel_vm_ok K" and wf: "vmap_wf s" and room: "dynamic_pages s < 5120" and b: "blocknr_ok b"
    and fresh: "b \<notin> table_blocks s"
    and map: "wpmfs_map_dynamic_page K s b = Some (bo, s')" and x: "x < 4096"
  shows "\<exists>va. wpmfs_get_block (s\<lparr>vmapi := (vmapi s')\<lparr>enabled := True\<rparr>\<rparr>) bo = Some va \<and>
    vread s' (va + x) = Some (pm s (b * 4096 + x))"
proof -
  have h: "blocknr_ok (head_blocknr s)" and wa: "windows_apart s" using wf by (auto simp: vmap_wf_def)
  note eff = map_dynamic_page_effect [OF h b map]
  have dv: "4096 dvd base_dynamic (vmapi s)" "4096 dvd size_dynamic (vmapi s)"
    using wa by (auto simp: windows_apart_def)
  let ?va = "base_dynamic (vmapi s) + size_dynamic (vmapi s)"
  have dva: "4096 dvd ?va" using dv by simp
  have pt: "vmap_pt s' (?va div 4096) = Some (b, True)"
    unfolding eff(3) by (simp add: vmap_page_range_one [OF K])
  have "size_dynamic (vmapi s) < 2 ^ 57" using room by simp
  then have "wpmfs_get_block (s\<lparr>vmapi := (vmapi s')\<lparr>enabled := True\<rparr>\<rparr>) bo = Some ?va"
    by (simp add: wpmfs_get_block_def eff(1,6) wb_val_make wb_vlocation_make)
  moreover have "(?va + x) div 4096 = ?va div 4096" "(?va + x) mod 4096 = x"
    using dva x by (auto elim!: dvdE)
  moreover have "pm s' (b * 4096 + x) = pm s (b * 4096 + x)"
  proof -
    have "b < head_blocknr s \<or> head_blocknr s + 10 \<le> b" using fresh by (auto simp: table_blocks_def)
    then have "b * 4096 + x < head_blocknr s * 4096 + 8 * dynamic_pages s
        \<or> head_blocknr s * 4096 + 8 * dynamic_pages s + 8 \<le> b * 4096 + x"
      using x room by auto
    then show ?thesis unfolding eff(2) by simp
  qed
  ultimately show ?thesis using pt by (auto simp: vread_def)
qed

section \<open>A new device\<close>

lemma setup_static_slot_sel:
  "pm (setup_static_slot mp n t) = le_store 8 (pm t) (24 + 8 * n) (mp + n)"
  "page_private (setup_static_slot mp n t) = (page_private t)(mp + n := 5)"
  "page_index (setup_static_slot mp n t) = (page_index t)(mp + n := n)"
  "vmap_pt (setup_static_slot mp n t) = vmap_pt t" "vmapi (setup_static_slot mp n t) = vmapi t"
  by (simp_all add: setup_static_slot_def Let_def mark_page_eq wpmfs_get_mptable_static_def)

lemma setup_static_loop:
  assumes "mp + n < 2 ^ 64"
  shows "(\<forall>i < n. le_load 8 (pm (for_loop (setup_static_slot mp) 0 n s)) (24 + 8 * i) = mp + i) \<and>
    (\<forall>i < n. page_private (for_loop (setup_static_slot mp) 0 n s) (mp + i) = 5
       \<and> page_index (for_loop (setup_static_slot mp) 0 n s) (mp + i) = i) \<and>
    (\<forall>x. x < 24 \<or> 24 + 8 * n \<le> x \<longrightarrow> pm (for_loop (setup_static_slot mp) 0 n s) x = pm s x) \<and>
    vmap_pt (for_loop (setup_static_slot mp) 0 n s) = vmap_pt s \<and>
    vmapi (for_loop (setup_static_slot mp) 0 n s) = vmapi s"
  using assms
proof (induction n)
  case (Suc n)
  have step: "for_loop (setup_static_slot mp) 0 (Suc n) s =
      setup_static_slot mp n (for_loop (setup_static_slot mp) 0 n s)"
    by (simp add: for_loop_Suc)
  from Suc show ?case
    unfolding step setup_static_slot_sel by (auto simp: less_Suc_eq le_load_store_other)
qed simp

lemma setup_dynamic_page_sel:
  "pm (setup_dynamic_page first n t) = mem_fill (pm t) ((first + n) * 4096) 0 4096"
  "page_private (setup_dynamic_page first n t) = (page_private t)(first + n := 9)"
  "page_index (setup_dynamic_page first n t) = page_index t"
  "vmap_pt (setup_dynamic_page first n t) = vmap_pt t" "vmapi (setup_dynamic_page first n t) = vmapi t"
  by (simp_all add: setup_dynamic_page_def Let_def mark_page_eq pmfs_get_block_off_def)

lemma setup_dynamic_loop:
  "(\<forall>x. x < first * 4096 \<or> (first + n) * 4096 \<le> x \<longrightarrow>
      pm (for_loop (setup_dynamic_page first) 0 n s) x = pm s x) \<and>
   (\<forall>b. b < first \<or> first + n \<le> b \<longrightarrow>
      page_private (for_loop (setup_dynamic_page first) 0 n s) b = page_private s b) \<and>
   page_index (for_loop (setup_dynamic_page first) 0 n s) = page_index s \<and>
   vmap_pt (for_loop (setup_dynamic_page first) 0 n s) = vmap_pt s \<and>
   vmapi (for_loop (setup_dynamic_page first) 0 n s) = vmapi s"
proof (induction n)
  case (Suc n)
  have step: "for_loop (setup_dynamic_page first) 0 (Suc n) s =
      setup_dynamic_page first n (for_loop (setup_dynamic_page first) 0 n s)"
    by (simp add: for_loop_Suc)
  from Suc show ?case
    unfolding step setup_dynamic_page_sel by (auto simp: mem_fill_def)
qed simp

text \<open>The address range of the static window and the reserved range are different kernel areas.\<close>

definition kernel_areas_apart :: "kernel_vm \<Rightarrow> bool" where
  "kernel_areas_apart K \<longleftrightarrow> (\<forall>pt bs va pt' a. vmap K pt bs = Some (va, pt') \<longrightarrow>
     get_vm_area K 1073741824 = Some a \<longrightarrow> va + 4096 * length bs \<le> a \<or> a + 1073741824 \<le> va)"

text \<open>Pages of the static mapping table for \<open>n\<close> slots.\<close>

definition map_pages :: "nat \<Rightarrow> nat" where
  "map_pages n = (23 + 8 * n) div 4096 + 1"

lemma setup_static_eq:
  assumes r: "reserved = 4096 * n" "map_pages n + n < 2 ^ 64"
    and ok: "setup_vmap_static K s reserved = (True, r', s')"
  obtains va pt t where "vmap K (vmap_pt t) (map (\<lambda>i. map_pages n + i) [0..<n]) = Some (va, pt)"
    "t = for_loop (setup_static_slot (map_pages n)) 0 n (PM_STORE 8 4 s 0 0)" "r' = 4096 * (n + map_pages n)"
    "pm s' = le_store 8 (pm t) 0 n" "vmap_pt s' = pt" "page_private s' = page_private t"
    "page_index s' = page_index t"
    "vmapi s' = (vmapi s)\<lparr>base_static := va, size_static := 4096 * n\<rparr>"
proof -
  let ?t = "for_loop (setup_static_slot (map_pages n)) 0 n (PM_STORE 8 4 s 0 0)"
  have sz: "round_down PAGE_SIZE (reserved + (PAGE_SIZE - 1)) = 4096 * n"
    by (simp add: round_down_def r)
  have pg: "4096 * m div 2 ^ PAGE_SHIFT = m" for m :: nat by simp
  have e: "MPTABLES_SIZE + n * 8 + (PAGE_SIZE - 1) = (23 + 8 * n) + 4096" by simp
  have d: "((23 + 8 * n) + 4096) div 4096 = map_pages n"
    unfolding map_pages_def by (rule div_add_self2) simp
  have mp: "round_down PAGE_SIZE (MPTABLES_SIZE + n * 8 + (PAGE_SIZE - 1)) = 4096 * map_pages n"
    unfolding round_down_def e d by (rule mult.commute)
  have vm: "vmapi ?t = vmapi s" using setup_static_loop [OF r(2), of "PM_STORE 8 4 s 0 0"] by simp
  have eq: "setup_vmap_static K s reserved =
     (if \<not> kmem_ok (PM_STORE 8 4 s 0 0) then (False, reserved, PM_STORE 8 4 s 0 0)
      else case vmap K (vmap_pt ?t) (map (\<lambda>i. map_pages n + i) [0..<n]) of
             None \<Rightarrow> (False, reserved, ?t)
           | Some (va, pt) \<Rightarrow> (True, reserved + 4096 * map_pages n,
               PM_EQU 8 (?t\<lparr>vmap_pt := pt,
                 vmapi := (vmapi ?t)\<lparr>base_static := va, size_static := 4096 * n\<rparr>\<rparr>) 0 n))"
    unfolding setup_vmap_static_def Let_def sz pg mp by (rule refl)
  from ok obtain va pt where "vmap K (vmap_pt ?t) (map (\<lambda>i. map_pages n + i) [0..<n]) = Some (va, pt)"
    "r' = reserved + 4096 * map_pages n"
    "s' = PM_EQU 8 (?t\<lparr>vmap_pt := pt, vmapi := (vmapi ?t)\<lparr>base_static := va, size_static := 4096 * n\<rparr>\<rparr>) 0 n"
    unfolding eq by (auto split: if_splits option.splits)
  then show thesis
    by (intro that [of ?t va pt]) (simp_all add: r vm)
qed

theorem setup_memory_wf:
  assumes K: "kernel_vm_ok K" "kernel_areas_apart K" and en: "enabled (vmapi s)"
    and r: "reserved = 4096 * n" "map_pages n + n < 2 ^ 45" "0 < n"
    and ok: "wpmfs_setup_memory K s reserved = (True, r', s')"
  shows "vmap_wf s'" "window_blocks s' = [map_pages n..<map_pages n + n]"
    "r' = 4096 * (n + map_pages n + 10)" "table_blocks s' \<union> set (window_blocks s') = {0..<r' div 4096}"
proof -
  from ok en obtain r1 s1 where st: "setup_vmap_static K s reserved = (True, r1, s1)"
    and dy: "setup_vmap_dynamic K s1 r1 = (True, r', s')"
    by (auto simp: wpmfs_setup_memory_def split: prod.splits bool.splits)
  have b64: "map_pages n + n < 2 ^ 64" using r(2) by simp
  from st obtain va pt t where t: "vmap K (vmap_pt t) (map (\<lambda>i. map_pages n + i) [0..<n]) = Some (va, pt)"
    "t = for_loop (setup_static_slot (map_pages n)) 0 n (PM_STORE 8 4 s 0 0)" "r1 = 4096 * (n + map_pages n)"
    "pm s1 = le_store 8 (pm t) 0 n" "vmap_pt s1 = pt" "page_private s1 = page_private t"
    "page_index s1 = page_index t" "vmapi s1 = (vmapi s)\<lparr>base_static := va, size_static := 4096 * n\<rparr>"
    by (rule setup_static_eq [OF r(1) b64])
  let ?first = "n + map_pages n"
  let ?u = "for_loop (setup_dynamic_page ?first) 0 10 s1"
  note loop = setup_static_loop [OF b64, of "PM_STORE 8 4 s 0 0", folded t(2)]
  note dloop = setup_dynamic_loop [of ?first 10 s1]
  from dy obtain a where a: "get_vm_area K 1073741824 = Some a" "r' = r1 + 40960"
    "s' = ?u\<lparr>pm := le_store 8 (le_store 8 (pm ?u) 8 ?first) 16 0,
             vmapi := (vmapi s1)\<lparr>base_dynamic := a, size_dynamic := 0\<rparr>\<rparr>"
    by (auto simp: setup_vmap_dynamic_def Let_def round_down_def t(3) dloop split: option.splits)
  have vm: "base_static (vmapi s') = va" "size_static (vmapi s') = 4096 * n"
    "base_dynamic (vmapi s') = a" "size_dynamic (vmapi s') = 0" by (simp_all add: a(3) t(8))
  have head: "head_blocknr s' = ?first"
    using r(2) by (simp add: head_blocknr_def a(3) le_load_store_other)
  have tab: "24 + 8 * n \<le> 4096 * map_pages n" by (simp add: map_pages_def)
  have slot: "static_slot s' i = map_pages n + i" if i: "i < n" for i
  proof -
    have "static_slot s' i = le_load 8 (pm s1) (24 + 8 * i)"
      unfolding static_slot_def a(3)
      using i tab by (auto simp: le_load_store_other intro!: le_load_cong dloop [THEN conjunct1, rule_format])
    also have "\<dots> = map_pages n + i" using loop i by (simp add: t(4) le_load_store_other)
    finally show ?thesis .
  qed
  have sl: "map (static_slot s') [0..<n] = [map_pages n..<map_pages n + n]"
    by (rule nth_equalityI) (auto simp: slot)
  show wb: "window_blocks s' = [map_pages n..<map_pages n + n]"
    by (simp add: window_blocks_def vm sl)
  have tb: "table_blocks s' = {0..<map_pages n} \<union> {?first..<?first + 10}"
    by (auto simp: table_blocks_def vm head map_pages_def)
  show r': "r' = 4096 * (n + map_pages n + 10)" by (simp add: a(2) t(3))
  show "table_blocks s' \<union> set (window_blocks s') = {0..<r' div 4096}"
    by (auto simp: tb wb r')
  have "maps_pages (vmap_pt t) pt (va div 4096) (map (\<lambda>i. map_pages n + i) [0..<n])" "4096 dvd va"
    using K(1) t(1) by (auto simp: kernel_vm_ok_def)
  then have pt: "pt (va div 4096 + i) = Some (map_pages n + i, True)" if "i < n" for i
    using that by (simp add: maps_pages_def)
  have "4096 dvd a" using K(1) a(1) by (auto simp: kernel_vm_ok_def)
  moreover have "va + 4096 * n \<le> a \<or> a + 1073741824 \<le> va"
    using K(2) t(1) a(1) unfolding kernel_areas_apart_def by fastforce
  ultimately have apart: "windows_apart s'" using \<open>4096 dvd va\<close> by (simp add: windows_apart_def vm)
  have mk: "page_marked s' (map_pages n + i) i False" "vmap_pt s' (va div 4096 + i) = Some (map_pages n + i, True)"
    if i: "i < n" for i
    using loop pt [OF i] i by (simp_all add: page_marked_def a(3) dloop t(5,6,7))
  have mp: "0 < map_pages n" by (simp add: map_pages_def)
  show "vmap_wf s'"
    unfolding vmap_wf_def vm(1,2,3,4) wb tb head
    using apart mk slot r mp by (auto simp: map_pages_def)
qed

section \<open>A remount finds the windows again\<close>

lemma slots_cong:
  assumes "pm u = pm s"
  shows "head_blocknr u = head_blocknr s" "static_slot u = static_slot s" "dynamic_slot u = dynamic_slot s"
proof -
  show h: "head_blocknr u = head_blocknr s" by (simp add: head_blocknr_def assms)
  show "static_slot u = static_slot s" by (rule ext) (simp add: static_slot_def assms)
  show "dynamic_slot u = dynamic_slot s" by (rule ext) (simp add: dynamic_slot_def assms h)
qed

lemma recv_mark_loop:
  "(\<forall>b. b < n \<longrightarrow> page_private (for_loop recv_mark_using 0 n s) b = 1) \<and>
   (\<forall>b. n \<le> b \<longrightarrow> page_private (for_loop recv_mark_using 0 n s) b = page_private s b) \<and>
   pm (for_loop recv_mark_using 0 n s) = pm s \<and> page_index (for_loop recv_mark_using 0 n s) = page_index s \<and>
   vmap_pt (for_loop recv_mark_using 0 n s) = vmap_pt s \<and> vmapi (for_loop recv_mark_using 0 n s) = vmapi s"
proof (induction n)
  case (Suc n)
  then show ?case by (simp add: for_loop_Suc recv_mark_using_def mark_page_eq less_Suc_eq)
qed simp

lemma recv_mark_table_loop:
  "(\<forall>b. b < f \<or> f + n \<le> b \<longrightarrow> page_private (for_loop (\<lambda>i. recv_mark_using (f + i)) 0 n s) b = page_private s b) \<and>
   pm (for_loop (\<lambda>i. recv_mark_using (f + i)) 0 n s) = pm s \<and>
   page_index (for_loop (\<lambda>i. recv_mark_using (f + i)) 0 n s) = page_index s \<and>
   vmap_pt (for_loop (\<lambda>i. recv_mark_using (f + i)) 0 n s) = vmap_pt s \<and>
   vmapi (for_loop (\<lambda>i. recv_mark_using (f + i)) 0 n s) = vmapi s"
proof (induction n)
  case (Suc n)
  then show ?case by (simp add: for_loop_Suc recv_mark_using_def mark_page_eq)
qed simp

lemma recv_static_slot_sel:
  "pm (recv_static_slot n t) = pm t" "vmap_pt (recv_static_slot n t) = vmap_pt t"
  "vmapi (recv_static_slot n t) = vmapi t"
  "page_private (recv_static_slot n t) = (page_private t)(static_slot t n := 5)"
  "page_index (recv_static_slot n t) = (page_index t)(static_slot t n := n)"
  by (simp_all add: recv_static_slot_def Let_def mark_page_eq static_slot_def wpmfs_get_mptable_static_def)

text \<open>The slot loop, for slots that name different blocks.\<close>

lemma recv_static_loop:
  assumes "distinct (map (static_slot s) [0..<n])"
  shows "(\<forall>i < n. page_private (for_loop recv_static_slot 0 n s) (static_slot s i) = 5 \<and>
      page_index (for_loop recv_static_slot 0 n s) (static_slot s i) = i) \<and>
    pm (for_loop recv_static_slot 0 n s) = pm s \<and> vmap_pt (for_loop recv_static_slot 0 n s) = vmap_pt s \<and>
    vmapi (for_loop recv_static_slot 0 n s) = vmapi s"
  using assms
proof (induction n)
  case (Suc n)
  let ?t = "for_loop recv_static_slot 0 n s"
  have IH: "\<forall>i < n. page_private ?t (static_slot s i) = 5 \<and> page_index ?t (static_slot s i) = i"
    "pm ?t = pm s" "vmap_pt ?t = vmap_pt s" "vmapi ?t = vmapi s"
    using Suc by auto
  have b: "static_slot ?t n = static_slot s n" using slots_cong(2) [OF IH(2)] by simp
  have "static_slot s i \<noteq> static_slot s n" if "i < n" for i
    using Suc.prems that by (auto simp: image_iff dest: bspec [of _ _ i])
  with IH show ?case
    unfolding for_loop_Suc [OF le0] recv_static_slot_sel b by (auto simp: less_Suc_eq)
qed simp

lemma recv_dynamic_slots_wf:
  assumes K: "kernel_vm_ok K"
  shows "vmap_wf u \<Longrightarrow> dynamic_pages u = k \<Longrightarrow> k + m \<le> 5120 \<Longrightarrow>
    distinct (window_blocks u @ map (dynamic_slot u) [k..<k + m]) \<Longrightarrow>
    (\<forall>i. k \<le> i \<and> i < k + m \<longrightarrow> blocknr_ok (dynamic_slot u i) \<and> dynamic_slot u i \<notin> table_blocks u) \<Longrightarrow>
    \<exists>u'. recv_dynamic_slots K (head_blocknr u * 4096) [k..<k + m] u = Some u' \<and> vmap_wf u' \<and> pm u' = pm u
      \<and> window_blocks u' = window_blocks u @ map (dynamic_slot u) [k..<k + m] \<and> dynamic_pages u' = k + m"
proof (induction m arbitrary: k u)
  case (Suc m)
  let ?b = "dynamic_slot u k"
  have h: "blocknr_ok (head_blocknr u)" and b: "blocknr_ok ?b" "?b \<notin> table_blocks u" and room: "dynamic_pages u < 5120"
    using Suc.prems by (auto simp: vmap_wf_def)
  have upt: "[k..<k + Suc m] = k # [k + 1..<k + 1 + m]" by (simp add: upt_rec)
  have fresh: "?b \<notin> set (window_blocks u)" using Suc.prems(4) unfolding upt by simp
  obtain bo u1 where u1: "wpmfs_map_dynamic_page K u ?b = Some (bo, u1)"
    by (rule map_dynamic_page_Some [OF h b(1)])
  note wf1 = map_dynamic_page_wf [OF K Suc.prems(1) room b(1) fresh b(2) u1]
  note eff = map_dynamic_page_effect [OF h b(1) u1]
  have "pm u1 = le_store 8 (pm u) (head_blocknr u * 4096 + 8 * k) (le_load 8 (pm u) (head_blocknr u * 4096 + 8 * k))"
    unfolding eff(2) Suc.prems(2) unfolding dynamic_slot_def ..
  then have pm1: "pm u1 = pm u" by simp
  then have hd1: "head_blocknr u1 = head_blocknr u" "dynamic_slot u1 = dynamic_slot u"
    by (rule slots_cong)+
  have dv: "dynamic_pages u1 = k + 1" using Suc.prems(2) eff(6) by simp
  have tb: "table_blocks u1 = table_blocks u" by (simp add: table_blocks_def hd1 eff(6))
  have "\<exists>u'. recv_dynamic_slots K (head_blocknr u1 * 4096) [k + 1..<k + 1 + m] u1 = Some u' \<and> vmap_wf u' \<and> pm u' = pm u1
      \<and> window_blocks u' = window_blocks u1 @ map (dynamic_slot u1) [k + 1..<k + 1 + m] \<and> dynamic_pages u' = k + 1 + m"
  proof (rule Suc.IH [OF wf1(1) dv])
    show "k + 1 + m \<le> 5120" using Suc.prems(3) by simp
    show "distinct (window_blocks u1 @ map (dynamic_slot u1) [k + 1..<k + 1 + m])"
      using Suc.prems(4) unfolding wf1(2) hd1 upt by (simp only: append_assoc list.map append.simps)
    show "\<forall>i. k + 1 \<le> i \<and> i < k + 1 + m \<longrightarrow> blocknr_ok (dynamic_slot u1 i) \<and> dynamic_slot u1 i \<notin> table_blocks u1"
      using Suc.prems(5) unfolding hd1 tb by auto
  qed
  moreover have "le_load 8 (pm u) (head_blocknr u * 4096 + 8 * k) = ?b" by (simp add: dynamic_slot_def)
  ultimately show ?case
    unfolding upt using u1 by (simp add: wf1(2) hd1 pm1 del: upt.simps)
qed auto

text \<open>
  A boot that knows only the memory: both windows show the blocks the tables name, whatever the page
  descriptors and the page table held before.  The slot behind the static table, which the loop also
  reads, must not name a static block.
\<close>

theorem recv_memory_windows:
  assumes K: "kernel_vm_ok K" "kernel_areas_apart K"
    and wf: "vmap_wf s" and num: "le_load 8 (pm s) 0 = static_pages s" "le_load 8 (pm s) 16 = dynamic_pages s"
    and extra: "static_slot s (static_pages s) \<notin> set (map (static_slot s) [0..<static_pages s])"
    and boot: "pm t = pm s" "enabled (vmapi t)" and ok: "wpmfs_recv_memory K t = Some (True, t')"
  shows "vmap_wf t' \<and> window_blocks t' = window_blocks s \<and> pm t' = pm s"
proof -
  let ?n = "static_pages s" and ?d = "dynamic_pages s"
  note slots = slots_cong [of _ s]
  from ok boot obtain t1 where st: "recv_vmap_static K t = (True, t1)" and dy: "recv_vmap_dynamic K t1 = Some (True, t')"
    by (auto simp: wpmfs_recv_memory_def split: prod.splits bool.splits)
  have num_t: "le_load 8 (pm t) 0 = ?n" using num boot by simp
  define a where "a = for_loop recv_mark_using 0
    (round_down PAGE_SIZE (?n * 8 + MPTABLES_SIZE + (PAGE_SIZE - 1)) div 2 ^ PAGE_SHIFT + 1) t"
  have a: "pm a = pm s" "vmapi a = vmapi t" unfolding a_def by (simp_all only: recv_mark_loop boot)
  define b where "b = for_loop recv_static_slot 0 (?n + 1) a"
  have dist: "distinct (map (static_slot a) [0..<?n + 1])"
    using wf extra by (auto simp: slots(2) [OF a(1)] vmap_wf_def window_blocks_def)
  have b: "\<forall>i < ?n. page_private b (static_slot s i) = 5 \<and> page_index b (static_slot s i) = i"
    "pm b = pm s" "vmapi b = vmapi t"
    using recv_static_loop [OF dist] a unfolding b_def [symmetric] slots(2) [OF a(1)] by auto
  have pp: "map (\<lambda>i. le_load 8 (pm a) (wpmfs_get_mptable_static + 8 * i)) [0..<?n] = map (static_slot s) [0..<?n]"
    by (simp add: a static_slot_def wpmfs_get_mptable_static_def)
  from st obtain va pt where va: "vmap K (vmap_pt b) (map (static_slot s) [0..<?n]) = Some (va, pt)"
    "t1 = b\<lparr>vmap_pt := pt, vmapi := (vmapi b)\<lparr>base_static := va, size_static := ?n * 4096\<rparr>\<rparr>"
    unfolding recv_vmap_static_def Let_def num_t a_def [symmetric] b_def [symmetric] pp
    by (auto split: if_splits option.splits)
  have pm1: "pm t1 = pm s" by (simp add: va(2) b)
  have hd: "blocknr_ok (head_blocknr s)" using wf by (simp add: vmap_wf_def)
  then have mpt: "wpmfs_get_mptable_dynamic t1 = Some (head_blocknr s * 4096)"
    using mptable_dynamic_eq [of t1] by (simp add: head_blocknr_def pm1)
  define c where "c addr = for_loop (\<lambda>i. recv_mark_using (head_blocknr s + i)) 0 10
    (t1\<lparr>vmapi := (vmapi t1)\<lparr>base_dynamic := addr, size_dynamic := 0\<rparr>\<rparr>)" for addr
  have c: "pm (c addr) = pm s" "vmap_pt (c addr) = vmap_pt t1" "page_index (c addr) = page_index t1"
    "vmapi (c addr) = (vmapi t1)\<lparr>base_dynamic := addr, size_dynamic := 0\<rparr>"
    "x \<notin> table_blocks s \<Longrightarrow> page_private (c addr) x = page_private t1 x" for addr x
    unfolding c_def using recv_mark_table_loop
      [of "head_blocknr s" 10 "t1\<lparr>vmapi := (vmapi t1)\<lparr>base_dynamic := addr, size_dynamic := 0\<rparr>\<rparr>"]
    by (auto simp: pm1 table_blocks_def)
  from dy mpt obtain addr where addr: "get_vm_area K 1073741824 = Some addr"
    and rec: "recv_dynamic_slots K (head_blocknr s * 4096) [0..<?d] (c addr) = Some t'"
    by (auto simp: recv_vmap_dynamic_def Let_def c_def [symmetric] c num split: option.splits)
  let ?c = "c addr"
  have vm: "base_static (vmapi ?c) = va" "size_static (vmapi ?c) = ?n * 4096" "base_dynamic (vmapi ?c) = addr"
    "size_dynamic (vmapi ?c) = 0" by (simp_all add: c va(2))
  have "maps_pages (vmap_pt b) pt (va div 4096) (map (static_slot s) [0..<?n])" "4096 dvd va"
    using K(1) va(1) by (auto simp: kernel_vm_ok_def)
  then have pt: "pt (va div 4096 + i) = Some (static_slot s i, True)" if "i < ?n" for i
    using that by (simp add: maps_pages_def)
  have "4096 dvd addr" using K(1) addr by (auto simp: kernel_vm_ok_def)
  moreover have "va + 4096 * ?n \<le> addr \<or> addr + 1073741824 \<le> va"
    using K(2) va(1) addr unfolding kernel_areas_apart_def by fastforce
  ultimately have apart: "windows_apart ?c" using \<open>4096 dvd va\<close> by (simp add: windows_apart_def vm mult.commute)
  have wb: "window_blocks ?c = map (static_slot s) [0..<?n]" by (simp add: window_blocks_def vm slots [OF c(1)])
  have tb: "table_blocks ?c = table_blocks s" by (simp add: table_blocks_def vm slots [OF c(1)])
  have mk: "page_marked ?c (static_slot s i) i False" if i: "i < ?n" for i
  proof -
    have "static_slot s i \<notin> table_blocks s" using wf i by (auto simp: vmap_wf_def window_blocks_def)
    with b i c show ?thesis by (simp add: page_marked_def va(2))
  qed
  have wfc: "vmap_wf ?c"
    unfolding vmap_wf_def wb tb vm slots [OF c(1)]
    using wf apart mk pt by (auto simp: vmap_wf_def window_blocks_def c(2) va(2))
  have "\<exists>u'. recv_dynamic_slots K (head_blocknr ?c * 4096) [0..<0 + ?d] ?c = Some u' \<and> vmap_wf u' \<and> pm u' = pm ?c
      \<and> window_blocks u' = window_blocks ?c @ map (dynamic_slot ?c) [0..<0 + ?d] \<and> dynamic_pages u' = 0 + ?d"
    by (rule recv_dynamic_slots_wf [OF K(1) wfc])
      (use wf in \<open>auto simp: vm wb slots [OF c(1)] tb vmap_wf_def window_blocks_def\<close>)
  moreover have "window_blocks s = window_blocks ?c @ map (dynamic_slot s) [0..<?d]"
    unfolding wb by (simp add: window_blocks_def)
  ultimately show ?thesis using rec c(1) by (simp add: slots(1,3) [OF c(1)])
qed

end
