(* ===== verification/AllocInterface.thy ===== *)
theory AllocInterface
  imports PmState
begin

text \<open>
  The contract of the allocator factory (\<^verbatim>\<open>struct allocator_factory\<close> of \<^verbatim>\<open>pmfs.h\<close>): the file
  system calls \<^verbatim>\<open>pmfs_new_block\<close> and \<^verbatim>\<open>pmfs_free_block\<close> through function pointers and relies on the
  same promises of both allocators.  A block is handed out only while it is available, an
  allocation that fails changes nothing, and freeing a block somebody holds keeps the invariant.
  Freed blocks need not become available again: the wear-aware allocator retires worn pages.
\<close>

locale block_allocator =
  fixes invar :: "'s \<Rightarrow> bool"
    and avail :: "'s \<Rightarrow> nat set"
    and may_free :: "'s \<Rightarrow> nat \<Rightarrow> bool"
    and new_block :: "'s \<Rightarrow> (errno + nat) \<times> 's"
    and free_block :: "'s \<Rightarrow> nat \<Rightarrow> 's"
  assumes new_ok: "invar s \<Longrightarrow> new_block s = (Inr b, s') \<Longrightarrow>
      invar s' \<and> b \<in> avail s \<and> avail s' = avail s - {b} \<and> may_free s' b"
    and new_err: "invar s \<Longrightarrow> new_block s = (Inl e, s') \<Longrightarrow> s' = s"
    and new_keeps: "invar s \<Longrightarrow> new_block s = (Inr b, s') \<Longrightarrow> may_free s c \<Longrightarrow> may_free s' c"
    and held_not_avail: "invar s \<Longrightarrow> may_free s b \<Longrightarrow> b \<notin> avail s"
    and free_ok: "invar s \<Longrightarrow> may_free s b \<Longrightarrow>
      invar (free_block s b) \<and> avail s \<subseteq> avail (free_block s b) \<and> avail (free_block s b) \<subseteq> insert b (avail s)"
    and free_keeps: "invar s \<Longrightarrow> may_free s b \<Longrightarrow> may_free s c \<Longrightarrow> b \<noteq> c \<Longrightarrow> may_free (free_block s b) c"

text \<open>A client that allocates and gives back what it holds, over any sequence of requests.\<close>

datatype alloc_req = ReqAlloc | ReqFree nat

fun client_run :: "('s \<Rightarrow> (errno + nat) \<times> 's) \<Rightarrow> ('s \<Rightarrow> nat \<Rightarrow> 's) \<Rightarrow> alloc_req list \<Rightarrow>
    's \<times> nat list \<Rightarrow> 's \<times> nat list" where
  "client_run new free [] (s, held) = (s, held)"
| "client_run new free (ReqAlloc # rs) (s, held) =
     (case new s of
        (Inl _, s') \<Rightarrow> client_run new free rs (s', held)
      | (Inr b, s') \<Rightarrow> client_run new free rs (s', b # held))"
| "client_run new free (ReqFree b # rs) (s, held) =
     (if b \<in> set held then client_run new free rs (free s b, remove1 b held)
      else client_run new free rs (s, held))"

definition client_safe :: "('s \<Rightarrow> bool) \<Rightarrow> ('s \<Rightarrow> nat set) \<Rightarrow> ('s \<Rightarrow> nat \<Rightarrow> bool) \<Rightarrow> 's \<times> nat list \<Rightarrow> bool" where
  "client_safe invar avail may_free = (\<lambda>(s, held).
     invar s \<and> distinct held \<and> (\<forall>b\<in>set held. may_free s b) \<and> set held \<inter> avail s = {})"

context block_allocator
begin

lemma new_not_held: "invar s \<Longrightarrow> new_block s = (Inr b, s') \<Longrightarrow> may_free s c \<Longrightarrow> b \<noteq> c"
  using new_ok held_not_avail by blast

lemma client_step_alloc:
  assumes "client_safe invar avail may_free (s, held)" "new_block s = (Inr b, s')"
  shows "client_safe invar avail may_free (s', b # held)"
  using assms new_ok [of s b s'] new_keeps [of s b s'] new_not_held [of s b s']
    held_not_avail [of s']
  by (auto simp: client_safe_def)

lemma client_step_free:
  assumes "client_safe invar avail may_free (s, held)" "b \<in> set held"
  shows "client_safe invar avail may_free (free_block s b, remove1 b held)"
  using assms free_ok [of s b] free_keeps [of s b] held_not_avail [of "free_block s b"]
  by (auto simp: client_safe_def)

theorem client_run_safe:
  "client_safe invar avail may_free (s, held) \<Longrightarrow>
    client_safe invar avail may_free (client_run new_block free_block rs (s, held))"
proof (induction rs arbitrary: s held)
  case (Cons r rs)
  show ?case
  proof (cases r)
    case ReqAlloc
    obtain x s' where x: "new_block s = (x, s')" by (cases "new_block s")
    show ?thesis
    proof (cases x)
      case (Inl e)
      with x Cons.prems have "s' = s" using new_err by (auto simp: client_safe_def)
      with Inl x ReqAlloc Cons show ?thesis by simp
    next
      case (Inr b)
      with x have "client_safe invar avail may_free (s', b # held)"
        using client_step_alloc [OF Cons.prems] by simp
      with Inr x ReqAlloc Cons.IH show ?thesis by simp
    qed
  next
    case (ReqFree b)
    with Cons client_step_free [OF Cons.prems] show ?thesis by simp
  qed
qed simp

end

text \<open>An allocator that recycles every block: what is freed can be handed out again.\<close>

locale recycling_allocator = block_allocator +
  assumes free_exact: "invar s \<Longrightarrow> may_free s b \<Longrightarrow> avail (free_block s b) = insert b (avail s)"

context recycling_allocator
begin

lemma new_free_roundtrip:
  assumes "invar s" "new_block s = (Inr b, s')"
  shows "avail (free_block s' b) = avail s"
proof -
  from new_ok [OF assms] have "invar s'" "may_free s' b" "b \<in> avail s" "avail s' = avail s - {b}" by auto
  with free_exact [of s' b] show ?thesis by auto
qed

end

end
