(* ===== verification/BallocList.thy ===== *)
theory BallocList
  imports AllocInterface WriteTrack
begin

text \<open>
  The default allocator of PMFS (\<^verbatim>\<open>wpmfs_balloc.c\<close>, "SN: 1"): the blocks in use are an
  ordered list of disjoint intervals \<^verbatim>\<open>block_inuse_head\<close>, and \<^verbatim>\<open>pmfs_new_block\<close> searches the
  gaps first-fit.  The list is kept in order by the code alone; \<open>blocklist_wf\<close> states that order,
  and the lemmas show that every operation keeps it and what it does to the set of blocks in use.
\<close>

section \<open>Block nodes\<close>

text \<open>
  \<^verbatim>\<open>pmfs_alloc_blocknode\<close> counts the node when the slab allocator delivers one;
  \<^verbatim>\<open>pmfs_free_blocknode\<close> takes it off the count again, \<^verbatim>\<open>__pmfs_free_blocknode\<close> does not.
\<close>

definition pmfs_alloc_blocknode :: "wpmfs \<Rightarrow> bool \<times> wpmfs" where
  "pmfs_alloc_blocknode s =
     (if kmem_ok s then (True, s\<lparr>num_blocknode_allocated := num_blocknode_allocated s + 1\<rparr>)
      else (False, s))"

definition pmfs_free_blocknode :: "wpmfs \<Rightarrow> wpmfs" where
  "pmfs_free_blocknode s = s\<lparr>num_blocknode_allocated := num_blocknode_allocated s - 1\<rparr>"

section \<open>Initial map\<close>

text \<open>
  The first node covers the blocks the file system itself takes.  Without memory for the node the
  code only prints a warning and then follows the null pointer: \<open>None\<close>.
\<close>

definition pmfs_init_blockmap :: "wpmfs \<Rightarrow> nat \<Rightarrow> wpmfs option" where
  "pmfs_init_blockmap s init_used_size =
     (let num_used_block = (init_used_size + PAGE_SIZE - 1) div 2 ^ PAGE_SHIFT;
          (ok, s1) = pmfs_alloc_blocknode s;
          blknode = \<lparr>block_low = block_start s, block_high = block_start s + num_used_block - 1\<rparr>
      in if \<not> ok then None
         else Some (s1\<lparr>num_free_blocks := num_free_blocks s1 - num_used_block,
                       block_inuse_head := blknode # block_inuse_head s1\<rparr>))"

section \<open>Freeing\<close>

text \<open>
  The scan of \<^verbatim>\<open>__pmfs_free_block\<close> from one node on.  The result says which rewriting of the
  list took place: the new suffix, the node the hint is left on (its index in the new suffix,
  \<open>None\<close> for a null hint), whether a node was deleted and whether the blocks were freed at all (they
  are not when splitting a node finds no memory).  \<open>None\<close> is running off the list.
\<close>

record free_result =
  fr_list :: "pmfs_blocknode list"
  fr_hint :: "nat option"
  fr_deleted :: bool
  fr_split :: bool
  fr_freed :: bool

fun free_scan :: "bool \<Rightarrow> nat \<Rightarrow> nat \<Rightarrow> pmfs_blocknode list \<Rightarrow> free_result option" where
  "free_scan kmem new_block_low new_block_high [] = None"
| "free_scan kmem new_block_low new_block_high (i # rest) =
     (let skip = map_option (\<lambda>r. r\<lparr>fr_list := i # fr_list r, fr_hint := map_option Suc (fr_hint r)\<rparr>)
                   (free_scan kmem new_block_low new_block_high rest)
      in if new_block_low > block_high i then skip
      else if new_block_low = block_low i \<and> new_block_high = block_high i then
        Some \<lparr>fr_list = rest, fr_hint = (if rest = [] then None else Some 0),
              fr_deleted = True, fr_split = False, fr_freed = True\<rparr>
      else if new_block_low = block_low i \<and> new_block_high < block_high i then
        Some \<lparr>fr_list = i\<lparr>block_low := new_block_high + 1\<rparr> # rest, fr_hint = Some 0,
              fr_deleted = False, fr_split = False, fr_freed = True\<rparr>
      else if new_block_low > block_low i \<and> new_block_high = block_high i then
        Some \<lparr>fr_list = i\<lparr>block_high := new_block_low - 1\<rparr> # rest,
              fr_hint = (if rest = [] then None else Some 1),
              fr_deleted = False, fr_split = False, fr_freed = True\<rparr>
      else if new_block_low > block_low i \<and> new_block_high < block_high i then
        (if kmem then
           Some \<lparr>fr_list = i\<lparr>block_high := new_block_low - 1\<rparr>
                   # \<lparr>block_low = new_block_high + 1, block_high = block_high i\<rparr> # rest,
                 fr_hint = Some 1, fr_deleted = False, fr_split = True, fr_freed = True\<rparr>
         else
           Some \<lparr>fr_list = i # rest, fr_hint = Some 0,
                 fr_deleted = False, fr_split = False, fr_freed = False\<rparr>)
      else skip)"

text \<open>
  \<^verbatim>\<open>__pmfs_free_block\<close>.  The hint is a pointer to a node, here the node's index in the list:
  \<open>None\<close> for no hint argument, \<open>Some None\<close> for a null hint.  A hint whose node starts above the
  block is ignored.  When the split finds no memory the hint variable keeps its value.
\<close>

definition hint_start :: "wpmfs \<Rightarrow> nat \<Rightarrow> nat option option \<Rightarrow> nat" where
  "hint_start s new_block_low start_hint =
     (case start_hint of
        Some (Some k) \<Rightarrow> (if new_block_low \<ge> block_low (block_inuse_head s ! k) then k else 0)
      | _ \<Rightarrow> 0)"

definition pmfs_free_block_locked ::
    "wpmfs \<Rightarrow> nat \<Rightarrow> nat \<Rightarrow> nat option option \<Rightarrow> wpmfs \<times> nat option option" where
  "pmfs_free_block_locked s blocknr btype start_hint =
     (let num_blocks = pmfs_get_numblocks btype;
          new_block_low = blocknr;
          new_block_high = blocknr + num_blocks - 1;
          k = hint_start s new_block_low start_hint;
          done_part = take k (block_inuse_head s);
          todo_part = drop k (block_inuse_head s)
      in case free_scan (kmem_ok s) new_block_low new_block_high todo_part of
           None \<Rightarrow> (s, start_hint)
         | Some r \<Rightarrow>
             if \<not> fr_freed r then (s, start_hint)
             else
               (s\<lparr>block_inuse_head := done_part @ fr_list r,
                  num_blocknode_allocated :=
                    num_blocknode_allocated s + (if fr_split r then 1 else 0)
                      - (if fr_deleted r then 1 else 0),
                  num_free_blocks := num_free_blocks s + num_blocks\<rparr>,
                map_option (\<lambda>_. map_option ((+) k) (fr_hint r)) start_hint))"

definition pmfs_free_block :: "wpmfs \<Rightarrow> nat \<Rightarrow> nat \<Rightarrow> wpmfs" where
  "pmfs_free_block s blocknr btype = fst (pmfs_free_block_locked s blocknr btype None)"

section \<open>Allocation\<close>

text \<open>
  The scan of \<^verbatim>\<open>pmfs_new_block\<close>.  \<open>be\<close> is \<^verbatim>\<open>sbi->block_end\<close>, \<open>n\<close> the number of blocks wanted.
  The result is the first block of the run found, the new suffix of the list and the change of the
  node count; \<open>None\<close> is both running off the list and finding no memory for a new node, which the
  code answers with \<^verbatim>\<open>-ENOSPC\<close> alike.
\<close>

record new_result =
  nr_low :: nat
  nr_list :: "pmfs_blocknode list"
  nr_added :: bool
  nr_deleted :: bool

definition nr_cons :: "pmfs_blocknode \<Rightarrow> new_result \<Rightarrow> new_result" where
  "nr_cons i r = r\<lparr>nr_list := i # nr_list r\<rparr>"

fun new_scan :: "bool \<Rightarrow> nat \<Rightarrow> nat \<Rightarrow> pmfs_blocknode list \<Rightarrow> new_result option" where
  "new_scan kmem be n [] = None"
| "new_scan kmem be n (i # rest) =
     (let next_block_low = (case rest of [] \<Rightarrow> be | j # _ \<Rightarrow> block_low j);
          new_block_low = round_down n (block_high i + n);
          new_block_high = new_block_low + n - 1;
          node = \<lparr>block_low = new_block_low, block_high = new_block_high\<rparr>
      in if new_block_high \<ge> next_block_low then
        map_option (nr_cons i) (new_scan kmem be n rest)
      else if new_block_low = block_high i + 1 \<and> new_block_high = next_block_low - 1 then
        (case rest of
           j # rest' \<Rightarrow>
             Some \<lparr>nr_low = new_block_low, nr_list = i\<lparr>block_high := block_high j\<rparr> # rest',
                   nr_added = False, nr_deleted = True\<rparr>
         | [] \<Rightarrow>
             Some \<lparr>nr_low = new_block_low, nr_list = [i\<lparr>block_high := new_block_high\<rparr>],
                   nr_added = False, nr_deleted = False\<rparr>)
      else if new_block_low = block_high i + 1 \<and> new_block_high < next_block_low - 1 then
        Some \<lparr>nr_low = new_block_low, nr_list = i\<lparr>block_high := new_block_high\<rparr> # rest,
              nr_added = False, nr_deleted = False\<rparr>
      else if new_block_low > block_high i + 1 \<and> new_block_high = next_block_low - 1 then
        (case rest of
           j # rest' \<Rightarrow>
             Some \<lparr>nr_low = new_block_low, nr_list = i # j\<lparr>block_low := new_block_low\<rparr> # rest',
                   nr_added = False, nr_deleted = False\<rparr>
         | [] \<Rightarrow>
             if kmem then
               Some \<lparr>nr_low = new_block_low, nr_list = [i, node], nr_added = True, nr_deleted = False\<rparr>
             else None)
      else if new_block_low > block_high i + 1 \<and> new_block_high < next_block_low - 1 then
        (if kmem then
           Some \<lparr>nr_low = new_block_low, nr_list = i # node # rest, nr_added = True, nr_deleted = False\<rparr>
         else None)
      else map_option (nr_cons i) (new_scan kmem be n rest))"

text \<open>
  \<^verbatim>\<open>pmfs_new_block\<close>; the size of the block zeroed follows the block type, and \<^verbatim>\<open>memset_nt\<close> reports
  its store to the write counters.
\<close>

definition pmfs_new_block :: "wpmfs \<Rightarrow> nat \<Rightarrow> bool \<Rightarrow> (errno + nat) \<times> wpmfs" where
  "pmfs_new_block s btype zero =
     (let num_blocks = pmfs_get_numblocks btype
      in case new_scan (kmem_ok s) (block_end s) num_blocks (block_inuse_head s) of
           None \<Rightarrow> (Inl ENOSPC, s)
         | Some r \<Rightarrow>
             let s1 = s\<lparr>block_inuse_head := nr_list r,
                        num_blocknode_allocated :=
                          num_blocknode_allocated s + (if nr_added r then 1 else 0)
                            - (if nr_deleted r then 1 else 0),
                        num_free_blocks := num_free_blocks s - num_blocks\<rparr>;
                 size = (if btype = 0 then 2 ^ 12 else if btype = 1 then 2 ^ 21 else 2 ^ 30);
                 s2 = (if zero then
                         pm_touch (s1\<lparr>pm := mem_fill (pm s1) (pmfs_get_block_off (nr_low r)) 0 size\<rparr>)
                           (pmfs_get_block_off (nr_low r)) size
                       else s1)
             in (Inr (nr_low r), s2))"

definition pmfs_count_free_blocks :: "wpmfs \<Rightarrow> nat" where
  "pmfs_count_free_blocks s = num_free_blocks s"

section \<open>The set of blocks in use\<close>

definition node_blocks :: "pmfs_blocknode \<Rightarrow> nat set" where
  "node_blocks i = {block_low i..block_high i}"

definition inuse :: "pmfs_blocknode list \<Rightarrow> nat set" where
  "inuse is = (\<Union>i\<in>set is. node_blocks i)"

definition blocklist_wf :: "nat \<Rightarrow> pmfs_blocknode list \<Rightarrow> bool" where
  "blocklist_wf be is \<longleftrightarrow>
     (\<forall>i\<in>set is. block_low i \<le> block_high i \<and> block_high i < be) \<and>
     sorted_wrt (\<lambda>a b. block_high a < block_low b) is"

lemma inuse_simps [simp]:
  "inuse [] = {}" "inuse (i # is) = node_blocks i \<union> inuse is" "inuse (xs @ ys) = inuse xs \<union> inuse ys"
  by (auto simp: inuse_def)

lemma blocklist_wf_Nil [simp]: "blocklist_wf be []"
  by (simp add: blocklist_wf_def)

lemma in_inuse_low: "j \<in> set is \<Longrightarrow> block_low j \<le> block_high j \<Longrightarrow> block_low j \<in> inuse is"
  by (auto simp: inuse_def node_blocks_def)

lemma blocklist_wf_lows: "blocklist_wf be is \<Longrightarrow> j \<in> set is \<Longrightarrow> block_low j \<in> inuse is"
  by (auto simp: blocklist_wf_def intro: in_inuse_low)

text \<open>The order condition between a node and the rest, as a condition on the set in use.\<close>

lemma blocklist_wf_Cons:
  "blocklist_wf be (i # is) \<longleftrightarrow>
     block_low i \<le> block_high i \<and> block_high i < be \<and> (\<forall>b\<in>inuse is. block_high i < b) \<and> blocklist_wf be is"
proof
  assume "blocklist_wf be (i # is)"
  then show "block_low i \<le> block_high i \<and> block_high i < be \<and> (\<forall>b\<in>inuse is. block_high i < b)
      \<and> blocklist_wf be is"
    by (fastforce simp: blocklist_wf_def inuse_def node_blocks_def)
next
  assume r: "block_low i \<le> block_high i \<and> block_high i < be \<and> (\<forall>b\<in>inuse is. block_high i < b)
      \<and> blocklist_wf be is"
  then have "\<forall>j\<in>set is. block_high i < block_low j"
    using blocklist_wf_lows by blast
  with r show "blocklist_wf be (i # is)" by (simp add: blocklist_wf_def)
qed

lemma blocklist_wf_bound: "blocklist_wf be is \<Longrightarrow> b \<in> inuse is \<Longrightarrow> b < be"
  by (force simp: blocklist_wf_def inuse_def node_blocks_def)

lemma inuse_finite [simp]: "finite (inuse is)"
  by (simp add: inuse_def node_blocks_def)

section \<open>Freeing\<close>

lemma free_scan_sound:
  assumes "blocklist_wf be is" "lo \<le> hi" "free_scan kmem lo hi is = Some r" "fr_freed r"
  shows "blocklist_wf be (fr_list r) \<and> inuse (fr_list r) = inuse is - {lo..hi} \<and> {lo..hi} \<subseteq> inuse is
    \<and> (\<forall>k. fr_hint r = Some k \<longrightarrow> k < length (fr_list r))
    \<and> length (fr_list r) + (if fr_deleted r then 1 else 0) = length is + (if fr_split r then 1 else 0)"
  using assms
proof (induction "is" arbitrary: r)
  case Nil
  then show ?case by simp
next
  case (Cons i rest)
  let ?skip = "map_option (\<lambda>r. r\<lparr>fr_list := i # fr_list r, fr_hint := map_option Suc (fr_hint r)\<rparr>)
                   (free_scan kmem lo hi rest)"
  have wf: "block_low i \<le> block_high i" "block_high i < be" "\<forall>b\<in>inuse rest. block_high i < b"
      "blocklist_wf be rest"
    using Cons.prems(1) by (auto simp: blocklist_wf_Cons)
  consider (skip) "?skip = Some r" "\<not> (lo \<ge> block_low i \<and> lo \<le> block_high i \<and> hi \<le> block_high i)"
    | (here) "free_scan kmem lo hi (i # rest) = Some r" "lo \<ge> block_low i" "lo \<le> block_high i" "hi \<le> block_high i"
    using Cons.prems(3) by (auto simp: Let_def split: if_splits)
  then show ?case
  proof cases
    case skip
    then obtain q where q: "free_scan kmem lo hi rest = Some q"
      "r = q\<lparr>fr_list := i # fr_list q, fr_hint := map_option Suc (fr_hint q)\<rparr>"
      by auto
    with Cons.IH [of q] wf Cons.prems have IH: "blocklist_wf be (fr_list q)"
      "inuse (fr_list q) = inuse rest - {lo..hi}" "{lo..hi} \<subseteq> inuse rest"
      "\<forall>k. fr_hint q = Some k \<longrightarrow> k < length (fr_list q)"
      "length (fr_list q) + (if fr_deleted q then 1 else 0) = length rest + (if fr_split q then 1 else 0)"
      by auto
    have "node_blocks i \<inter> {lo..hi} = {}"
      using IH(3) wf(3) by (fastforce simp: node_blocks_def)
    with IH q wf show ?thesis by (auto simp: blocklist_wf_Cons)
  next
    case here
    have out: "inuse rest \<inter> {lo..hi} = {}" using here wf(3) by fastforce
    show ?thesis
    proof (cases "lo = block_low i")
      case lowT: True
      show ?thesis
      proof (cases "hi = block_high i")
        case True
        with lowT here Cons.prems(2) have "r = \<lparr>fr_list = rest, fr_hint = (if rest = [] then None else Some 0),
              fr_deleted = True, fr_split = False, fr_freed = True\<rparr>" by (simp add: Let_def)
        with True lowT wf out show ?thesis by (auto simp: node_blocks_def)
      next
        case False
        with lowT here Cons.prems(2) have "r = \<lparr>fr_list = i\<lparr>block_low := hi + 1\<rparr> # rest, fr_hint = Some 0,
              fr_deleted = False, fr_split = False, fr_freed = True\<rparr>" by (simp add: Let_def)
        with False lowT here wf out Cons.prems(2) show ?thesis by (auto simp: node_blocks_def blocklist_wf_Cons)
      qed
    next
      case lowF: False
      show ?thesis
      proof (cases "hi = block_high i")
        case True
        with lowF here Cons.prems(2) have "r = \<lparr>fr_list = i\<lparr>block_high := lo - 1\<rparr> # rest,
              fr_hint = (if rest = [] then None else Some 1),
              fr_deleted = False, fr_split = False, fr_freed = True\<rparr>" by (simp add: Let_def)
        with True lowF here wf out Cons.prems(2) show ?thesis by (auto simp: node_blocks_def blocklist_wf_Cons)
      next
        case False
        with lowF here Cons.prems(2,4) have r: "r = \<lparr>fr_list = i\<lparr>block_high := lo - 1\<rparr>
                   # \<lparr>block_low = hi + 1, block_high = block_high i\<rparr> # rest,
                 fr_hint = Some 1, fr_deleted = False, fr_split = True, fr_freed = True\<rparr>"
          by (auto simp add: Let_def split: if_splits)
        have lt: "block_low i < lo" "hi < block_high i" using False lowF here by auto
        have "node_blocks i - {lo..hi} = {block_low i..lo - 1} \<union> {hi + 1..block_high i}"
          using lt Cons.prems(2) by (auto simp: node_blocks_def)
        moreover have "{lo..hi} \<subseteq> node_blocks i" using lt by (auto simp: node_blocks_def)
        ultimately show ?thesis using r lt Cons.prems(2) wf out
          by (auto simp: blocklist_wf_Cons node_blocks_def)
      qed
    qed
  qed
qed


text \<open>A run inside one node is always found.\<close>

lemma free_scan_complete:
  assumes "blocklist_wf be is" "lo \<le> hi" "i \<in> set is" "{lo..hi} \<subseteq> node_blocks i"
  shows "\<exists>r. free_scan kmem lo hi is = Some r \<and> (kmem \<longrightarrow> fr_freed r)"
  using assms
proof (induction "is")
  case Nil
  then show ?case by simp
next
  case (Cons j rest)
  have lohi: "block_low i \<le> lo" "hi \<le> block_high i"
    using Cons.prems(2,4) by (auto simp: node_blocks_def)
  show ?case
  proof (cases "i \<in> set rest")
    case True
    with Cons.prems(1) have "block_high j < block_low i" by (auto simp: blocklist_wf_def)
    with lohi have skip: "lo > block_high j" by simp
    obtain r where "free_scan kmem lo hi rest = Some r" "kmem \<longrightarrow> fr_freed r"
      using Cons.IH True Cons.prems by (auto simp: blocklist_wf_Cons)
    with skip show ?thesis by (simp add: Let_def)
  next
    case False
    with Cons.prems have "i = j" by simp
    with lohi Cons.prems(2) show ?thesis by (auto simp: Let_def)
  qed
qed

lemma free_scan_miss:
  assumes "\<forall>b\<in>inuse is. b \<noteq> lo" "blocklist_wf be is"  "lo \<le> hi"
  shows "free_scan kmem lo hi is = None"
  using assms
proof (induction "is")
  case (Cons i rest)
  then have "\<not> (block_low i \<le> lo \<and> lo \<le> block_high i)"
    by (auto simp: node_blocks_def)
  with Cons show ?case by (auto simp: Let_def blocklist_wf_Cons)
qed simp

text \<open>Nodes below the block are skipped: this is what makes a hint harmless.\<close>

lemma free_scan_skip:
  assumes "\<forall>i\<in>set xs. block_high i < lo"
  shows "free_scan kmem lo hi (xs @ ys) =
    map_option (\<lambda>r. r\<lparr>fr_list := xs @ fr_list r, fr_hint := map_option ((+) (length xs)) (fr_hint r)\<rparr>)
      (free_scan kmem lo hi ys)"
  using assms
proof (induction xs)
  case Nil
  then show ?case by (cases "free_scan kmem lo hi ys") (auto simp: option.map_ident)
next
  case (Cons a xs)
  then show ?case by (cases "free_scan kmem lo hi ys") (auto simp: Let_def option.map_comp comp_def)
qed

section \<open>Allocation\<close>

text \<open>
  The step of the scan, with the cases that cannot arise left out: \<open>lo\<close> always lies beyond the
  node, so a run that fits is one of the four alignments.
\<close>

definition next_low :: "nat \<Rightarrow> pmfs_blocknode list \<Rightarrow> nat" where
  "next_low be is = (case is of [] \<Rightarrow> be | j # _ \<Rightarrow> block_low j)"

lemma next_low_simps [simp]: "next_low be [] = be" "next_low be (j # is) = block_low j"
  by (simp_all add: next_low_def)

lemma new_scan_step:
  assumes "0 < n" and lo: "lo = round_down n (block_high i + n)"
  shows "new_scan kmem be n (i # rest) =
    (if next_low be rest \<le> lo + n - 1 then map_option (nr_cons i) (new_scan kmem be n rest)
     else if lo = block_high i + 1 then
       (if lo + n = next_low be rest then
          (case rest of
             [] \<Rightarrow> Some \<lparr>nr_low = lo, nr_list = [i\<lparr>block_high := lo + n - 1\<rparr>], nr_added = False, nr_deleted = False\<rparr>
           | j # rs \<Rightarrow> Some \<lparr>nr_low = lo, nr_list = i\<lparr>block_high := block_high j\<rparr> # rs, nr_added = False, nr_deleted = True\<rparr>)
        else Some \<lparr>nr_low = lo, nr_list = i\<lparr>block_high := lo + n - 1\<rparr> # rest, nr_added = False, nr_deleted = False\<rparr>)
     else if lo + n = next_low be rest \<and> rest \<noteq> [] then
       Some \<lparr>nr_low = lo, nr_list = i # (hd rest)\<lparr>block_low := lo\<rparr> # tl rest, nr_added = False, nr_deleted = False\<rparr>
     else if kmem then
       Some \<lparr>nr_low = lo, nr_list = i # \<lparr>block_low = lo, block_high = lo + n - 1\<rparr> # rest, nr_added = True, nr_deleted = False\<rparr>
     else None)"
proof -
  have gt: "block_high i < lo" using round_up_gt [OF assms(1)] lo by simp
  have sc: "new_scan kmem be n (i # rest) = 
     (let nb = next_low be rest; hi = lo + n - 1;
          node = \<lparr>block_low = lo, block_high = hi\<rparr>
      in if hi \<ge> nb then map_option (nr_cons i) (new_scan kmem be n rest)
      else if lo = block_high i + 1 \<and> hi = nb - 1 then
        (case rest of
           j # rest' \<Rightarrow> Some \<lparr>nr_low = lo, nr_list = i\<lparr>block_high := block_high j\<rparr> # rest', nr_added = False, nr_deleted = True\<rparr>
         | [] \<Rightarrow> Some \<lparr>nr_low = lo, nr_list = [i\<lparr>block_high := hi\<rparr>], nr_added = False, nr_deleted = False\<rparr>)
      else if lo = block_high i + 1 \<and> hi < nb - 1 then
        Some \<lparr>nr_low = lo, nr_list = i\<lparr>block_high := hi\<rparr> # rest, nr_added = False, nr_deleted = False\<rparr>
      else if lo > block_high i + 1 \<and> hi = nb - 1 then
        (case rest of
           j # rest' \<Rightarrow> Some \<lparr>nr_low = lo, nr_list = i # j\<lparr>block_low := lo\<rparr> # rest', nr_added = False, nr_deleted = False\<rparr>
         | [] \<Rightarrow> if kmem then Some \<lparr>nr_low = lo, nr_list = [i, node], nr_added = True, nr_deleted = False\<rparr> else None)
      else if lo > block_high i + 1 \<and> hi < nb - 1 then
        (if kmem then Some \<lparr>nr_low = lo, nr_list = i # node # rest, nr_added = True, nr_deleted = False\<rparr> else None)
      else map_option (nr_cons i) (new_scan kmem be n rest))"
    by (simp only: new_scan.simps next_low_def lo Let_def)
  have l: "(lo + n - 1 = nb - 1) = (lo + n = nb)" "(lo + n - 1 < nb - 1) = (lo + n \<noteq> nb)" 
    if "lo + n - 1 < nb" for nb
    using that assms(1) by auto
  show ?thesis
  proof (cases "next_low be rest \<le> lo + n - 1")
    case True
    then show ?thesis unfolding sc Let_def by simp
  next
    case False
    then have lt: "lo + n - 1 < next_low be rest" by simp
    show ?thesis
      unfolding sc Let_def l [OF lt] using lt gt by (cases rest) simp_all
  qed
qed

declare new_scan.simps(2) [simp del]

lemma new_scan_hd:
  assumes "0 < n" "new_scan kmem be n (i # rest) = Some r"
  shows "nr_list r \<noteq> [] \<and> block_low (hd (nr_list r)) = block_low i"
  using assms(2) unfolding new_scan_step [OF assms(1) refl]
  by (auto simp: nr_cons_def split: if_splits list.splits)

lemma new_scan_sound:
  assumes "blocklist_wf be is" "0 < n" "new_scan kmem be n is = Some r"
  shows "blocklist_wf be (nr_list r) \<and> n dvd nr_low r \<and> nr_low r + n \<le> be
    \<and> (\<forall>i\<in>set (take 1 is). block_high i < nr_low r)
    \<and> {nr_low r..<nr_low r + n} \<inter> inuse is = {}
    \<and> inuse (nr_list r) = inuse is \<union> {nr_low r..<nr_low r + n}
    \<and> length (nr_list r) + (if nr_deleted r then 1 else 0) = length is + (if nr_added r then 1 else 0)"
  using assms
proof (induction "is" arbitrary: r)
  case Nil
  then show ?case by simp
next
  case (Cons i rest)
  define lo where "lo = round_down n (block_high i + n)"
  define nb where "nb = next_low be rest"
  note step = new_scan_step [OF Cons.prems(2) lo_def, of kmem be rest, folded nb_def]
  have lo: "block_high i < lo" "n dvd lo"
    using round_up_gt [OF Cons.prems(2)] by (auto simp: lo_def)
  have wf: "block_low i \<le> block_high i" "block_high i < be" "\<forall>b\<in>inuse rest. block_high i < b"
      "blocklist_wf be rest"
    using Cons.prems(1) by (auto simp: blocklist_wf_Cons)
  have nbu: "\<forall>b\<in>inuse rest. nb \<le> b"
  proof (cases rest)
    case (Cons j rs)
    with wf(4) have "\<forall>b\<in>inuse rs. block_low j \<le> b"
      by (meson blocklist_wf_Cons less_imp_le order.trans)
    with Cons show ?thesis by (auto simp: nb_def node_blocks_def)
  qed simp
  have nbe: "nb \<le> be" "block_high i < nb"
    using wf by (cases rest; force simp: nb_def blocklist_wf_Cons node_blocks_def)+
  show ?case
  proof (cases "lo + n - 1 \<ge> nb")
    case True
    with Cons.prems(3) step obtain q where q: "new_scan kmem be n rest = Some q" "r = nr_cons i q"
      by auto
    then have rest: "rest \<noteq> []" by auto
    from Cons.IH [OF wf(4) Cons.prems(2) q(1)] have IH:
      "blocklist_wf be (nr_list q)" "n dvd nr_low q" "nr_low q + n \<le> be"
      "\<forall>i\<in>set (take 1 rest). block_high i < nr_low q"
      "{nr_low q..<nr_low q + n} \<inter> inuse rest = {}"
      "inuse (nr_list q) = inuse rest \<union> {nr_low q..<nr_low q + n}"
      "length (nr_list q) + (if nr_deleted q then 1 else 0) = length rest + (if nr_added q then 1 else 0)"
      by auto
    from rest obtain j rs where j: "rest = j # rs" by (cases rest) auto
    then have "block_high i < block_low j" "block_low j \<le> block_high j"
      using wf(3,4) blocklist_wf_lows [OF wf(4), of j] by (auto simp: blocklist_wf_Cons)
    with j IH(4) have hi: "block_high i < nr_low q" by simp
    with IH wf show ?thesis unfolding q(2)
      by (auto simp: nr_cons_def blocklist_wf_Cons node_blocks_def)
  next
    case False
    let ?B = "{lo..<lo + n}"
    have fit: "lo + n - 1 < nb" using False by simp
    have B: "?B = {lo..lo + n - 1}" using Cons.prems(2) by auto
    have disj: "?B \<inter> node_blocks i = {}" "?B \<inter> inuse rest = {}"
      using lo fit nbu by (fastforce simp: node_blocks_def)+
    have ext: "node_blocks (i\<lparr>block_high := lo + n - 1\<rparr>) = node_blocks i \<union> ?B" if "lo = block_high i + 1"
      using that wf(1) Cons.prems(2) by (auto simp: node_blocks_def)
    have wfn: "blocklist_wf be (\<lparr>block_low = lo, block_high = lo + n - 1\<rparr> # rest)"
      using wf(4) nbu fit nbe Cons.prems(2) by (fastforce simp: blocklist_wf_Cons)
    have *: "nr_low r = lo \<and> blocklist_wf be (nr_list r) \<and> inuse (nr_list r) = inuse (i # rest) \<union> ?B \<and>
       length (nr_list r) + (if nr_deleted r then 1 else 0) = length (i # rest) + (if nr_added r then 1 else 0)"
    proof (cases "lo = block_high i + 1")
      case left: True
      show ?thesis
      proof (cases "lo + n - 1 = nb - 1")
        case True
        then have nb: "lo + n = nb" using fit Cons.prems(2) by simp
        show ?thesis
        proof (cases rest)
          case Nil
          then have "r = \<lparr>nr_low = lo, nr_list = [i\<lparr>block_high := lo + n - 1\<rparr>],
              nr_added = False, nr_deleted = False\<rparr>"
            using left fit nb Cons.prems(3) step by (auto simp: nb_def split: if_splits)
          with ext left wf fit nbe Nil show ?thesis by (auto simp: blocklist_wf_Cons)
        next
          case (Cons j rs)
          then have r: "r = \<lparr>nr_low = lo, nr_list = i\<lparr>block_high := block_high j\<rparr> # rs,
                   nr_added = False, nr_deleted = True\<rparr>"
            using left fit nb Cons.prems(3) step by (auto simp: nb_def split: if_splits)
          have j: "block_low j \<le> block_high j" "block_high j < be" "\<forall>b\<in>inuse rs. block_high j < b"
            "blocklist_wf be rs" "nb = block_low j"
            using wf(4) Cons by (auto simp: blocklist_wf_Cons nb_def)
          have "node_blocks (i\<lparr>block_high := block_high j\<rparr>) = node_blocks i \<union> ?B \<union> node_blocks j"
            using left True fit j wf(1) Cons.prems(2) by (auto simp: node_blocks_def)
          with r j Cons left wf nbe show ?thesis by (auto simp: blocklist_wf_Cons)
        qed
      next
        case False
        then have "r = \<lparr>nr_low = lo, nr_list = i\<lparr>block_high := lo + n - 1\<rparr> # rest,
              nr_added = False, nr_deleted = False\<rparr>"
          using left fit Cons.prems(2,3) step by (auto split: if_splits)
        with ext left wf nbu fit nbe show ?thesis by (auto simp: blocklist_wf_Cons)
      qed
    next
      case notleft: False
      with lo have gap: "lo > block_high i + 1" by simp
      show ?thesis
      proof (cases "lo + n = nb \<and> rest \<noteq> []")
        case True
        then obtain j rs where rest: "rest = j # rs" by (cases rest) auto
        then have r: "r = \<lparr>nr_low = lo, nr_list = i # j\<lparr>block_low := lo\<rparr> # rs,
                 nr_added = False, nr_deleted = False\<rparr>"
          using gap fit True Cons.prems(3) step by (auto split: if_splits)
        have j: "block_low j \<le> block_high j" "block_high j < be" "\<forall>b\<in>inuse rs. block_high j < b"
          "blocklist_wf be rs" "nb = block_low j"
          using wf(4) rest by (auto simp: blocklist_wf_Cons nb_def)
        have "node_blocks (j\<lparr>block_low := lo\<rparr>) = ?B \<union> node_blocks j"
          using gap True fit j Cons.prems(2) by (auto simp: node_blocks_def)
        with r j rest gap wf nbe fit show ?thesis
          by (auto simp: blocklist_wf_Cons node_blocks_def)
      next
        case False
        then have r: "r = \<lparr>nr_low = lo, nr_list = i # \<lparr>block_low = lo, block_high = lo + n - 1\<rparr> # rest,
              nr_added = True, nr_deleted = False\<rparr>"
          using gap fit Cons.prems(2,3) step by (auto split: if_splits)
        have "\<forall>b\<in>inuse (\<lparr>block_low = lo, block_high = lo + n - 1\<rparr> # rest). block_high i < b"
          using gap wf(3) by (auto simp: node_blocks_def)
        with wfn wf B r show ?thesis by (simp add: blocklist_wf_Cons [of _ i] node_blocks_def Un_ac)
      qed
    qed
    have "lo + n \<le> be" using fit nbe Cons.prems(2) by simp
    with * disj lo show ?thesis by auto
  qed
qed

text \<open>
  Completeness and first fit: with memory for nodes the scan fails only when no aligned run is
  free beyond the first node, and otherwise finds the lowest one.
\<close>

definition fits :: "nat \<Rightarrow> nat \<Rightarrow> pmfs_blocknode list \<Rightarrow> nat \<Rightarrow> bool" where
  "fits be n is y \<longleftrightarrow> n dvd y \<and> y + n \<le> be \<and> {y..<y + n} \<inter> inuse is = {}"

lemma new_scan_first_fit:
  assumes "blocklist_wf be (i # rest)" "0 < n" "fits be n (i # rest) y" "block_high i < y"
  shows "\<exists>r. new_scan True be n (i # rest) = Some r \<and> nr_low r \<le> y"
  using assms
proof (induction rest arbitrary: i)
  case Nil
  define lo where "lo = round_down n (block_high i + n)"
  have "lo \<le> y" using Nil.prems by (simp add: lo_def fits_def round_up_least)
  with Nil.prems have "\<not> be \<le> lo + n - 1" by (auto simp: fits_def)
  with \<open>lo \<le> y\<close> show ?case by (auto simp: new_scan_step [OF Nil.prems(2) lo_def])
next
  case (Cons j rs)
  define lo where "lo = round_down n (block_high i + n)"
  have lo: "lo \<le> y" using Cons.prems by (simp add: lo_def fits_def round_up_least)
  show ?case
  proof (cases "block_low j \<le> lo + n - 1")
    case True
    have j: "block_low j \<le> block_high j" using Cons.prems(1) by (simp add: blocklist_wf_Cons)
    have "block_high j < y"
    proof (rule ccontr)
      assume "\<not> block_high j < y"
      with j True lo have "max y (block_low j) \<in> {y..<y + n} \<inter> node_blocks j"
        using Cons.prems(2) by (auto simp: node_blocks_def)
      with Cons.prems(3) show False unfolding fits_def inuse_simps by blast
    qed
    with Cons.IH [of j] Cons.prems obtain r where
      "new_scan True be n (j # rs) = Some r" "nr_low r \<le> y"
      by (auto simp: blocklist_wf_Cons fits_def)
    with True show ?thesis by (auto simp: new_scan_step [OF Cons.prems(2) lo_def] nr_cons_def)
  next
    case False
    with lo show ?thesis by (auto simp: new_scan_step [OF Cons.prems(2) lo_def])
  qed
qed

section \<open>The allocator as a whole\<close>

text \<open>
  The blocks the allocator can hand out: those from \<^verbatim>\<open>block_start\<close> to \<^verbatim>\<open>block_end\<close> in no node.
  \<open>list_inv\<close> is the representation invariant: an ordered list whose first node starts the device,
  the free counter and the node counter exact.
\<close>

definition list_avail :: "wpmfs \<Rightarrow> nat set" where
  "list_avail s = {block_start s..<block_end s} - inuse (block_inuse_head s)"

definition list_inv :: "wpmfs \<Rightarrow> bool" where
  "list_inv s \<longleftrightarrow> block_inuse_head s \<noteq> [] \<and> blocklist_wf (block_end s) (block_inuse_head s)
     \<and> block_low (hd (block_inuse_head s)) = block_start s
     \<and> num_free_blocks s = card (list_avail s)
     \<and> num_blocknode_allocated s = length (block_inuse_head s)"

text \<open>A run the caller may free: it lies in one node and leaves the first block of the device.\<close>

definition list_may_free :: "wpmfs \<Rightarrow> nat \<Rightarrow> nat \<Rightarrow> bool" where
  "list_may_free s lo n \<longleftrightarrow> block_start s < lo \<and>
     (\<exists>i\<in>set (block_inuse_head s). {lo..<lo + n} \<subseteq> node_blocks i)"

lemma list_avail_finite [simp]: "finite (list_avail s)"
  by (simp add: list_avail_def)

lemma inuse_ge_low:
  "blocklist_wf be is \<Longrightarrow> is \<noteq> [] \<Longrightarrow> b \<in> inuse is \<Longrightarrow> block_low (hd is) \<le> b"
  by (cases "is") (auto simp: blocklist_wf_Cons node_blocks_def)

lemma pmfs_new_block_sound:
  assumes inv: "list_inv s" and new: "pmfs_new_block s btype zero = (Inr b, s')"
  shows "list_inv s' \<and> pmfs_get_numblocks btype dvd b
    \<and> {b..<b + pmfs_get_numblocks btype} \<subseteq> list_avail s
    \<and> list_avail s' = list_avail s - {b..<b + pmfs_get_numblocks btype}
    \<and> inuse (block_inuse_head s') = inuse (block_inuse_head s) \<union> {b..<b + pmfs_get_numblocks btype}
    \<and> block_start s' = block_start s \<and> block_end s' = block_end s"
proof -
  let ?n = "pmfs_get_numblocks btype"
  obtain i rest where l: "block_inuse_head s = i # rest"
    using inv by (cases "block_inuse_head s") (auto simp: list_inv_def)
  have wf: "blocklist_wf (block_end s) (i # rest)" using inv l by (simp add: list_inv_def)
  obtain r where r: "new_scan (kmem_ok s) (block_end s) ?n (i # rest) = Some r" "b = nr_low r"
    and s': "block_inuse_head s' = nr_list r" "block_start s' = block_start s" "block_end s' = block_end s"
      "num_free_blocks s' = num_free_blocks s - ?n"
      "num_blocknode_allocated s' = num_blocknode_allocated s + (if nr_added r then 1 else 0)
         - (if nr_deleted r then 1 else 0)"
    using new l by (auto simp: pmfs_new_block_def Let_def split: option.splits if_splits)
  note snd = new_scan_sound [OF wf pmfs_get_numblocks_pos r(1), folded r(2)]
  note hd = new_scan_hd [OF pmfs_get_numblocks_pos r(1)]
  have low: "block_start s = block_low i" using inv l by (simp add: list_inv_def)
  have sub: "{b..<b + ?n} \<subseteq> list_avail s"
    using snd low wf unfolding list_avail_def l by (auto simp: blocklist_wf_Cons)
  have av: "list_avail s' = list_avail s - {b..<b + ?n}"
    using snd s' unfolding list_avail_def l by auto
  have "card (list_avail s') = card (list_avail s) - ?n"
    unfolding av using sub by (simp add: card_Diff_subset)
  moreover have "num_blocknode_allocated s' = length (nr_list r)"
  proof -
    have "num_blocknode_allocated s = length (i # rest)" using inv l by (simp add: list_inv_def)
    with snd s'(5) show ?thesis by (auto split: if_splits)
  qed
  ultimately have "list_inv s'"
    using snd hd s' inv l by (auto simp: list_inv_def)
  with snd sub av s' l show ?thesis by simp
qed

lemma pmfs_new_block_err:
  "pmfs_new_block s btype zero = (Inl e, s') \<Longrightarrow> e = ENOSPC \<and> s' = s"
  by (auto simp: pmfs_new_block_def Let_def split: option.splits)

lemma fits_avail:
  assumes "list_inv s" "0 < n" "n dvd y" "{y..<y + n} \<subseteq> list_avail s"
  shows "fits (block_end s) n (block_inuse_head s) y \<and> block_high (hd (block_inuse_head s)) < y"
proof -
  from assms(1) obtain i rest where l: "block_inuse_head s = i # rest" and i: "block_low i = block_start s"
    by (cases "block_inuse_head s") (auto simp: list_inv_def)
  have "y \<in> {y..<y + n}" "y + n - 1 \<in> {y..<y + n}" using assms(2) by auto
  with assms(4) have y: "y \<in> list_avail s" "y + n - 1 \<in> list_avail s" by blast+
  with i l assms(2) have "y + n \<le> block_end s" "block_high i < y"
    by (auto simp: list_avail_def node_blocks_def)
  moreover have "{y..<y + n} \<inter> inuse (block_inuse_head s) = {}"
    using assms(4) unfolding list_avail_def by blast
  ultimately show ?thesis using assms(3) l by (simp add: fits_def)
qed

lemma pmfs_new_block_first_fit:
  assumes inv: "list_inv s" and km: "kmem_ok s"
    and y: "pmfs_get_numblocks btype dvd y" "{y..<y + pmfs_get_numblocks btype} \<subseteq> list_avail s"
  shows "\<exists>b s'. pmfs_new_block s btype zero = (Inr b, s') \<and> b \<le> y"
proof -
  obtain i rest where l: "block_inuse_head s = i # rest"
    using inv by (cases "block_inuse_head s") (auto simp: list_inv_def)
  have wf: "blocklist_wf (block_end s) (i # rest)" using inv l by (simp add: list_inv_def)
  obtain r where "new_scan True (block_end s) (pmfs_get_numblocks btype) (i # rest) = Some r" "nr_low r \<le> y"
    using new_scan_first_fit [OF wf pmfs_get_numblocks_pos, of btype y]
      fits_avail [OF inv pmfs_get_numblocks_pos y] l by auto
  with km l show ?thesis by (auto simp: pmfs_new_block_def Let_def)
qed

text \<open>Freeing, with any valid hint.\<close>

lemma free_locked_no_hint:
  "pmfs_free_block_locked s b btype None =
    (case free_scan (kmem_ok s) b (b + pmfs_get_numblocks btype - 1) (block_inuse_head s) of
       None \<Rightarrow> (s, None)
     | Some r \<Rightarrow> if \<not> fr_freed r then (s, None) else
         (s\<lparr>block_inuse_head := fr_list r,
            num_blocknode_allocated := num_blocknode_allocated s + (if fr_split r then 1 else 0)
              - (if fr_deleted r then 1 else 0),
            num_free_blocks := num_free_blocks s + pmfs_get_numblocks btype\<rparr>, None))"
  by (auto simp: pmfs_free_block_locked_def hint_start_def Let_def split: option.splits)

lemma hint_equiv:
  assumes wf: "blocklist_wf be (block_inuse_head s)" and k: "k < length (block_inuse_head s)"
  shows "fst (pmfs_free_block_locked s b btype (Some (Some k)))
    = fst (pmfs_free_block_locked s b btype None)"
proof (cases "b \<ge> block_low (block_inuse_head s ! k)")
  case False
  then show ?thesis
    by (auto simp: pmfs_free_block_locked_def hint_start_def Let_def split: option.splits)
next
  case True
  let ?xs = "take k (block_inuse_head s)" and ?ys = "drop k (block_inuse_head s)"
  let ?hi = "b + pmfs_get_numblocks btype - 1"
  have skip: "\<forall>i\<in>set ?xs. block_high i < b"
  proof
    fix i assume "i \<in> set ?xs"
    then obtain m where m: "m < k" "i = block_inuse_head s ! m"
      using k by (auto simp: in_set_conv_nth)
    with wf k have "block_high i < block_low (block_inuse_head s ! k)"
      by (auto simp: blocklist_wf_def sorted_wrt_iff_nth_less)
    with True show "block_high i < b" by simp
  qed
  have "free_scan (kmem_ok s) b ?hi (block_inuse_head s) =
     map_option (\<lambda>r. r\<lparr>fr_list := ?xs @ fr_list r, fr_hint := map_option ((+) (length ?xs)) (fr_hint r)\<rparr>)
      (free_scan (kmem_ok s) b ?hi ?ys)"
    using free_scan_skip [OF skip, of "kmem_ok s" ?hi ?ys] by simp
  with True k show ?thesis
    unfolding free_locked_no_hint
    by (auto simp: pmfs_free_block_locked_def hint_start_def Let_def split: option.splits)
qed

lemma pmfs_free_block_sound:
  assumes inv: "list_inv s" and may: "list_may_free s b (pmfs_get_numblocks btype)" and km: "kmem_ok s"
  shows "list_inv (pmfs_free_block s b btype)
    \<and> list_avail (pmfs_free_block s b btype) = list_avail s \<union> {b..<b + pmfs_get_numblocks btype}
    \<and> {b..<b + pmfs_get_numblocks btype} \<inter> list_avail s = {}
    \<and> block_start (pmfs_free_block s b btype) = block_start s
    \<and> inuse (block_inuse_head (pmfs_free_block s b btype)) =
        inuse (block_inuse_head s) - {b..<b + pmfs_get_numblocks btype}"
proof -
  let ?n = "pmfs_get_numblocks btype" and ?s = "pmfs_free_block s b btype"
  define hi where "hi = b + ?n - 1"
  obtain m where "?n = Suc m" using gr0_conv_Suc pmfs_get_numblocks_pos by blast
  then have B: "{b..<b + ?n} = {b..hi}" and bhi: "b \<le> hi" by (auto simp: hi_def)
  obtain i where i: "i \<in> set (block_inuse_head s)" "{b..hi} \<subseteq> node_blocks i" and b0: "block_start s < b"
    using may by (auto simp: list_may_free_def B)
  have wf: "blocklist_wf (block_end s) (block_inuse_head s)" using inv by (simp add: list_inv_def)
  obtain r where r: "free_scan (kmem_ok s) b hi (block_inuse_head s) = Some r" "fr_freed r"
    using free_scan_complete [OF wf bhi i, of "kmem_ok s"] km by auto
  have s': "?s = s\<lparr>block_inuse_head := fr_list r,
            num_blocknode_allocated := num_blocknode_allocated s + (if fr_split r then 1 else 0)
              - (if fr_deleted r then 1 else 0),
            num_free_blocks := num_free_blocks s + ?n\<rparr>"
    using r by (simp add: pmfs_free_block_def free_locked_no_hint hi_def)
  note snd = free_scan_sound [OF wf bhi r]
  have sub: "{b..hi} \<subseteq> {block_start s..<block_end s}"
    using snd b0 blocklist_wf_bound [OF wf] by fastforce
  have av: "list_avail ?s = list_avail s \<union> {b..hi}" "{b..hi} \<inter> list_avail s = {}"
    using snd sub by (auto simp: list_avail_def s')
  have "card (list_avail ?s) = card (list_avail s) + ?n"
    unfolding av(1) using av(2) by (subst card_Un_disjoint) (auto simp: hi_def)
  moreover have "fr_list r \<noteq> []" "block_low (hd (fr_list r)) = block_start s"
  proof -
    have st: "block_start s \<in> inuse (fr_list r)"
      using snd b0 inv blocklist_wf_lows [OF wf, of "hd (block_inuse_head s)"]
      by (auto simp: list_inv_def)
    then show ne: "fr_list r \<noteq> []" by auto
    have "block_low (hd (fr_list r)) \<in> inuse (block_inuse_head s)"
      using snd ne blocklist_wf_lows [of "block_end s" "fr_list r" "hd (fr_list r)"] by auto
    then have "block_start s \<le> block_low (hd (fr_list r))"
      using inuse_ge_low [OF wf] inv by (auto simp: list_inv_def)
    moreover have "block_low (hd (fr_list r)) \<le> block_start s"
      using inuse_ge_low [of "block_end s" "fr_list r"] snd st ne by auto
    ultimately show "block_low (hd (fr_list r)) = block_start s" by simp
  qed
  ultimately have "list_inv ?s"
    using snd inv by (auto simp: list_inv_def s' split: if_splits)
  with av snd B show ?thesis by (simp add: s')
qed

section \<open>The contract\<close>

text \<open>The 4K requests of the file system, as the allocator factory passes them on.\<close>

lemma list_may_free_1: "list_may_free s b (Suc 0) \<longleftrightarrow> block_start s < b \<and> b \<in> inuse (block_inuse_head s)"
  by (auto simp: list_may_free_def inuse_def)

lemma pmfs_new_block_kmem: "pmfs_new_block s btype zero = (r, s') \<Longrightarrow> kmem_ok s' = kmem_ok s"
  by (auto simp: pmfs_new_block_def Let_def split: option.splits if_splits)

lemma pmfs_free_block_kmem: "kmem_ok (pmfs_free_block s b btype) = kmem_ok s"
  by (auto simp: pmfs_free_block_def free_locked_no_hint split: option.splits)

lemma list_avail_above_start: "list_inv s \<Longrightarrow> b \<in> list_avail s \<Longrightarrow> block_start s < b"
  using blocklist_wf_lows [of "block_end s" "block_inuse_head s" "hd (block_inuse_head s)"]
  by (auto simp: list_inv_def list_avail_def le_less)

interpretation pmfs_alloc: recycling_allocator "\<lambda>s. list_inv s \<and> kmem_ok s" list_avail
  "\<lambda>s b. list_may_free s b 1" "\<lambda>s. pmfs_new_block s 0 zero" "\<lambda>s b. pmfs_free_block s b 0" for zero
proof unfold_locales
  fix s s' b c assume inv: "list_inv s \<and> kmem_ok s" and new: "pmfs_new_block s 0 zero = (Inr b, s')"
  note snd = pmfs_new_block_sound [of s 0 zero b s'] inv new pmfs_new_block_kmem [OF new]
  then show "(list_inv s' \<and> kmem_ok s') \<and> b \<in> list_avail s \<and> list_avail s' = list_avail s - {b}
      \<and> list_may_free s' b 1"
    using list_avail_above_start [of s b] by (simp add: list_may_free_1)
  show "list_may_free s c 1 \<Longrightarrow> list_may_free s' c 1"
    using snd by (simp add: list_may_free_1)
next
  fix s s' e assume "pmfs_new_block s 0 zero = (Inl e, s')"
  then show "s' = s" by (simp add: pmfs_new_block_err)
next
  fix s b c assume inv: "list_inv s \<and> kmem_ok s" and may: "list_may_free s b 1"
  then show "b \<notin> list_avail s" by (simp add: list_may_free_1 list_avail_def)
  note snd = pmfs_free_block_sound [of s b 0] inv may pmfs_free_block_kmem [of s b 0]
  then show fr: "(list_inv (pmfs_free_block s b 0) \<and> kmem_ok (pmfs_free_block s b 0)) \<and>
     list_avail s \<subseteq> list_avail (pmfs_free_block s b 0) \<and>
     list_avail (pmfs_free_block s b 0) \<subseteq> insert b (list_avail s)"
    by auto
  show "list_avail (pmfs_free_block s b 0) = insert b (list_avail s)" using snd by simp
  show "list_may_free s c 1 \<Longrightarrow> b \<noteq> c \<Longrightarrow> list_may_free (pmfs_free_block s b 0) c 1"
    using snd by (simp add: list_may_free_1)
qed

end
