(* ===== verification/BallocBins.thy ===== *)
theory BallocBins
  imports AllocInterface WriteTrack "HOL-Library.Multiset"
begin

text \<open>
  The wear-aware allocator of WPMFS (\<^verbatim>\<open>wpmfs_balloc.c\<close>, "SN: 0").  Blocks that were never used
  come first, from the range \<^verbatim>\<open>unused_block_low .. unused_block_high\<close>; freed blocks wait in bins
  ordered by the writes their page has seen, the least worn bin being served first, and within a bin
  the block freed first.  The last bin holds worn-out pages and is never searched.

  A bin is the list of its block numbers, head first: \<^verbatim>\<open>list_add\<close> inserts at the head,
  \<^verbatim>\<open>lcur->prev\<close> is the last element.  The list nodes live in the free pages themselves, whose bytes
  are not modelled while they are free; the tracked stores to those nodes (\<^verbatim>\<open>PM_TOUCH\<close>) are.
\<close>

section \<open>Definitions\<close>

text \<open>
  The bin of a block: its counter over the threshold as an \<^verbatim>\<open>int\<close>, cut at the last bin.  Block 0
  fails the assertion in \<^verbatim>\<open>wpmfs_get_blockoff\<close>: \<open>None\<close>.
\<close>

definition wpmfs_get_bin :: "wpmfs \<Rightarrow> nat \<Rightarrow> int option" where
  "wpmfs_get_bin s blocknr =
     (if blocknr = 0 then None
      else let target_bin = sint (ucast (wt_cnter_read_pfn s blocknr div get_int_thres_size s) :: 32 word)
           in Some (if target_bin < int (num_bins s) then target_bin else int (num_bins s) - 1))"

definition wpmfs_init_blockmap :: "wpmfs \<Rightarrow> nat \<Rightarrow> wpmfs" where
  "wpmfs_init_blockmap s init_used_size =
     (let num_used_block = (init_used_size + PAGE_SIZE - 1) div 2 ^ PAGE_SHIFT
      in s\<lparr>unused_block_low := block_start s + num_used_block,
           unused_block_high := block_end s,
           num_free_blocks := num_free_blocks s - num_used_block\<rparr>)"

text \<open>
  \<^verbatim>\<open>__wpmfs_free_block\<close>.  \<open>None\<close> is a failed assertion (a huge block, a start hint in use, block 0)
  or a negative bin index.  The block's list node is written first, then the old head's back pointer.
\<close>

definition wpmfs_free_block_locked :: "wpmfs \<Rightarrow> nat \<Rightarrow> nat \<Rightarrow> nat option option \<Rightarrow> wpmfs option" where
  "wpmfs_free_block_locked s blocknr btype start_hint =
     (let num_blocks = pmfs_get_numblocks btype
      in if num_blocks \<noteq> 1 then None
      else if \<not> (start_hint = None \<or> start_hint = Some None) then None
      else case wpmfs_get_bin s blocknr of
        None \<Rightarrow> None
      | Some target_bin \<Rightarrow>
          if target_bin < 0 then None
          else
            let pl = block_bins s ! nat target_bin;
                s1 = pm_touch s (pmfs_get_block_off blocknr) 16;
                s2 = (if pl \<noteq> [] then pm_touch s1 (pmfs_get_block_off (hd pl) + 8) 8 else s1);
                s3 = s2\<lparr>block_bins := (block_bins s2)[nat target_bin := blocknr # pl],
                        num_free_blocks := num_free_blocks s2 + num_blocks\<rparr>
            in Some (mark_page s3 blocknr WPMFS_PAGE_USING))"

definition wpmfs_free_block :: "wpmfs \<Rightarrow> nat \<Rightarrow> nat \<Rightarrow> wpmfs option" where
  "wpmfs_free_block s blocknr btype = wpmfs_free_block_locked s blocknr btype None"

text \<open>
  The search over the bins from \<open>cur_bin\<close> on: the bin and its last block.
\<close>

fun bin_search :: "nat \<Rightarrow> nat list list \<Rightarrow> (nat \<times> nat) option" where
  "bin_search cur_bin [] = None"
| "bin_search cur_bin (lcur # bins) =
     (if lcur = [] then bin_search (cur_bin + 1) bins else Some (cur_bin, last lcur))"

text \<open>
  \<^verbatim>\<open>__wpmfs_new_block\<close>.  \<open>None\<close> is the failed assertion on a huge block.
\<close>

definition wpmfs_new_suc :: "wpmfs \<Rightarrow> nat \<Rightarrow> bool \<Rightarrow> wpmfs" where
  "wpmfs_new_suc s blocknr zero =
     (let s1 = (if zero then s\<lparr>pm := mem_fill (pm s) (pmfs_get_block_off blocknr) 0 (2 ^ 12)\<rparr> else s);
          s2 = (if zero then pm_touch s1 (pmfs_get_block_off blocknr) (2 ^ 12) else s1);
          s3 = s2\<lparr>num_free_blocks := num_free_blocks s2 - 1\<rparr>
      in mark_page s3 blocknr WPMFS_PAGE_USING)"

definition wpmfs_new_block_locked :: "wpmfs \<Rightarrow> nat \<Rightarrow> bool \<Rightarrow> ((errno + nat) \<times> wpmfs) option" where
  "wpmfs_new_block_locked s btype zero =
     (let num_blocks = pmfs_get_numblocks btype;
          num_unused_blocks = unused_block_high s - unused_block_low s
      in if num_blocks \<noteq> 1 then None
      else if num_unused_blocks \<noteq> 0 then
        let blocknr = unused_block_low s;
            s1 = s\<lparr>unused_block_low := unused_block_low s + 1\<rparr>
        in Some (Inr blocknr, wpmfs_new_suc s1 blocknr zero)
      else
        case (if num_free_blocks s = 0 then None
              else bin_search 0 (take (num_bins s - 1) (block_bins s))) of
          None \<Rightarrow> Some (Inl ENOMEM, s)
        | Some (cur_bin, blocknr) \<Rightarrow>
            let lcur = butlast (block_bins s ! cur_bin);
                s1 = s\<lparr>block_bins := (block_bins s)[cur_bin := lcur]\<rparr>;
                s2 = (if lcur \<noteq> [] then pm_touch s1 (pmfs_get_block_off (last lcur)) 8 else s1)
            in Some (Inr blocknr, wpmfs_new_suc s2 blocknr zero))"

definition wpmfs_new_block :: "wpmfs \<Rightarrow> nat \<Rightarrow> bool \<Rightarrow> ((errno + nat) \<times> wpmfs) option" where
  "wpmfs_new_block s btype zero = wpmfs_new_block_locked s btype zero"

definition wpmfs_count_free_blocks :: "wpmfs \<Rightarrow> nat" where
  "wpmfs_count_free_blocks s = num_free_blocks s"

section \<open>Lists of bins\<close>

lemma mset_concat_update:
  "k < length xss \<Longrightarrow> mset (concat (xss[k := ys])) + mset (xss ! k) = mset (concat xss) + mset ys"
proof (induction xss arbitrary: k)
  case (Cons a xss)
  show ?case
  proof (cases k)
    case 0
    then show ?thesis by (simp add: ac_simps)
  next
    case (Suc n)
    with Cons.prems have "mset (concat (xss[n := ys])) + mset (xss ! n) = mset (concat xss) + mset ys"
      using Cons.IH [of n] by simp
    with Suc show ?thesis by (simp add: add.assoc)
  qed
qed simp

lemma bins_push:
  assumes "k < length xss"
  shows "mset (concat (xss[k := x # xss ! k])) = mset (x # concat xss)"
  using mset_concat_update [OF assms, of "x # xss ! k"] by simp

lemma bins_pop:
  assumes "k < length xss" "xss ! k \<noteq> []"
  shows "mset (concat xss) = mset (last (xss ! k) # concat (xss[k := butlast (xss ! k)]))"
proof -
  have "mset (xss ! k) = add_mset (last (xss ! k)) (mset (butlast (xss ! k)))"
    using assms(2) by (metis append_butlast_last_id mset.simps(2) mset_append union_mset_add_mset_right
        add.right_neutral mset.simps(1))
  with mset_concat_update [OF assms(1), of "butlast (xss ! k)"] show ?thesis by simp
qed

lemma bin_search_Some:
  "bin_search k xss = Some (j, b) \<Longrightarrow>
    k \<le> j \<and> j - k < length xss \<and> xss ! (j - k) \<noteq> [] \<and> b = last (xss ! (j - k))
    \<and> (\<forall>i<j - k. xss ! i = [])"
proof (induction k xss rule: bin_search.induct)
  case (2 k l xss)
  show ?case
  proof (cases "l = []")
    case True
    with 2 have IH: "k + 1 \<le> j" "j - (k + 1) < length xss" "xss ! (j - (k + 1)) \<noteq> []"
      "b = last (xss ! (j - (k + 1)))" "\<forall>i<j - (k + 1). xss ! i = []" by auto
    then obtain m where m: "j - k = Suc m" "j - (k + 1) = m" by (metis Suc_diff_le add.commute diff_Suc_Suc plus_1_eq_Suc)
    have "\<forall>i<Suc m. (l # xss) ! i = []"
      using IH(5) m True by (auto simp: nth_Cons split: nat.splits)
    with IH m show ?thesis by auto
  qed (use 2 in auto)
qed simp

lemma bin_search_None: "bin_search k xss = None \<longleftrightarrow> concat xss = []"
  by (induction k xss rule: bin_search.induct) auto

section \<open>Invariant and available blocks\<close>

definition bins_avail :: "wpmfs \<Rightarrow> nat set" where
  "bins_avail s = {unused_block_low s..<unused_block_high s} \<union> set (concat (take (num_bins s - 1) (block_bins s)))"

definition bins_inv :: "wpmfs \<Rightarrow> bool" where
  "bins_inv s \<longleftrightarrow> 0 < num_bins s \<and> length (block_bins s) = num_bins s
     \<and> distinct (concat (block_bins s)) \<and> (\<forall>b\<in>set (concat (block_bins s)). 0 < b \<and> b < unused_block_low s)
     \<and> 0 < unused_block_low s \<and> unused_block_low s \<le> unused_block_high s
     \<and> num_free_blocks s = (unused_block_high s - unused_block_low s) + length (concat (block_bins s))"

definition bins_may_free :: "wpmfs \<Rightarrow> nat \<Rightarrow> bool" where
  "bins_may_free s b \<longleftrightarrow> 0 < b \<and> b < unused_block_low s \<and> b \<notin> set (concat (block_bins s))"

lemma wpmfs_new_suc_fields [simp]:
  "block_bins (wpmfs_new_suc s b zero) = block_bins s" "num_bins (wpmfs_new_suc s b zero) = num_bins s"
  "unused_block_low (wpmfs_new_suc s b zero) = unused_block_low s"
  "unused_block_high (wpmfs_new_suc s b zero) = unused_block_high s"
  "num_free_blocks (wpmfs_new_suc s b zero) = num_free_blocks s - 1"
  "block_end (wpmfs_new_suc s b zero) = block_end s"
  "kmem_ok (wpmfs_new_suc s b zero) = kmem_ok s" "vmapi (wpmfs_new_suc s b zero) = vmapi s"
  by (simp_all add: wpmfs_new_suc_def Let_def mark_page_eq)

lemma set_take_concat: "set (concat (take n xss)) \<subseteq> set (concat xss)"
  using set_take_subset [of n xss] by (auto simp: set_concat)

lemma set_concat_butlast_bin:
  assumes "k < n" "n \<le> length xss" "xss ! k \<noteq> []" "distinct (concat xss)"
  shows "set (concat (take n (xss[k := butlast (xss ! k)]))) = set (concat (take n xss)) - {last (xss ! k)}
    \<and> last (xss ! k) \<in> set (concat (take n xss))"
proof -
  let ?t = "take n xss"
  have k: "k < length ?t" "?t ! k = xss ! k" using assms by auto
  have d: "distinct (concat ?t)"
    using assms(4) by (metis append_take_drop_id concat_append distinct_append)
  have ms: "mset (concat ?t) = mset (last (xss ! k) # concat (?t[k := butlast (xss ! k)]))"
    using bins_pop [of k ?t] k assms(3) by simp
  then have "distinct (last (xss ! k) # concat (?t[k := butlast (xss ! k)]))"
    using d mset_eq_imp_distinct_iff by blast
  with mset_eq_setD [OF ms] show ?thesis by (auto simp: take_update_swap)
qed

section \<open>Allocation\<close>

lemma bins_alloc_pop:
  assumes inv: "bins_inv s" and u: "unused_block_high s = unused_block_low s"
    and k: "k < num_bins s - 1" "block_bins s ! k \<noteq> []"
  defines "s1 \<equiv> s\<lparr>block_bins := (block_bins s)[k := butlast (block_bins s ! k)],
                  num_free_blocks := num_free_blocks s - 1\<rparr>"
  shows "bins_inv s1 \<and> last (block_bins s ! k) \<in> bins_avail s \<and>
    bins_avail s1 = bins_avail s - {last (block_bins s ! k)} \<and> bins_may_free s1 (last (block_bins s ! k))
    \<and> (\<forall>c. bins_may_free s c \<longrightarrow> bins_may_free s1 c)"
proof -
  let ?b = "last (block_bins s ! k)" and ?bins = "(block_bins s)[k := butlast (block_bins s ! k)]"
  have len: "k < length (block_bins s)" using inv k by (simp add: bins_inv_def)
  have ms: "mset (concat (block_bins s)) = mset (?b # concat ?bins)"
    using bins_pop [OF len k(2)] .
  have dist: "distinct (?b # concat ?bins)" and st: "set (concat (block_bins s)) = insert ?b (set (concat ?bins))"
    and ln: "length (concat (block_bins s)) = Suc (length (concat ?bins))"
    using inv mset_eq_imp_distinct_iff [OF ms] mset_eq_setD [OF ms] mset_eq_length [OF ms]
    by (auto simp: bins_inv_def)
  note take = set_concat_butlast_bin [of k "num_bins s - 1" "block_bins s"]
  have "bins_avail s1 = bins_avail s - {?b}" "?b \<in> bins_avail s"
    using take inv k u by (auto simp: bins_avail_def s1_def bins_inv_def)
  with inv dist st ln u show ?thesis
    unfolding bins_inv_def bins_may_free_def s1_def by (auto simp del: set_concat)
qed

lemma bins_inv_cong:
  assumes "block_bins s = block_bins t" "num_bins s = num_bins t" "unused_block_low s = unused_block_low t"
    "unused_block_high s = unused_block_high t" "num_free_blocks s = num_free_blocks t"
  shows "bins_inv s = bins_inv t" "bins_avail s = bins_avail t" "bins_may_free s = bins_may_free t"
  using assms by (auto simp: bins_inv_def bins_avail_def bins_may_free_def fun_eq_iff)

lemma wpmfs_new_block_sound:
  assumes inv: "bins_inv s" and new: "wpmfs_new_block s 0 zero = Some (Inr b, s')"
  shows "bins_inv s' \<and> b \<in> bins_avail s \<and> bins_avail s' = bins_avail s - {b} \<and> bins_may_free s' b
    \<and> (\<forall>c. bins_may_free s c \<longrightarrow> bins_may_free s' c)"
proof (cases "unused_block_high s - unused_block_low s = 0")
  case False
  with new have s': "b = unused_block_low s"
    "s' = wpmfs_new_suc (s\<lparr>unused_block_low := unused_block_low s + 1\<rparr>) b zero"
    by (auto simp: wpmfs_new_block_def wpmfs_new_block_locked_def Let_def)
  have "b \<notin> set (concat (block_bins s))" "b \<notin> set (concat (take (num_bins s - 1) (block_bins s)))"
    using inv s' set_take_concat by (fastforce simp: bins_inv_def)+
  with s' False inv show ?thesis
    by (auto simp: bins_inv_def bins_avail_def bins_may_free_def less_Suc_eq)
next
  case True
  with inv have u: "unused_block_high s = unused_block_low s" by (simp add: bins_inv_def)
  from new True obtain k where k: "bin_search 0 (take (num_bins s - 1) (block_bins s)) = Some (k, b)"
    and s': "s' = wpmfs_new_suc
      (let lcur = butlast (block_bins s ! k); s1 = s\<lparr>block_bins := (block_bins s)[k := lcur]\<rparr>
       in if lcur \<noteq> [] then pm_touch s1 (pmfs_get_block_off (last lcur)) 8 else s1) b zero"
    by (auto simp: wpmfs_new_block_def wpmfs_new_block_locked_def Let_def split: if_splits option.splits)
  from bin_search_Some [OF k] have kb: "k < num_bins s - 1" "block_bins s ! k \<noteq> []" "b = last (block_bins s ! k)"
    by auto
  let ?s1 = "s\<lparr>block_bins := (block_bins s)[k := butlast (block_bins s ! k)],
                  num_free_blocks := num_free_blocks s - 1\<rparr>"
  have eq: "bins_inv s' = bins_inv ?s1" "bins_avail s' = bins_avail ?s1" "bins_may_free s' = bins_may_free ?s1"
    by (rule bins_inv_cong; simp add: s' Let_def)+
  show ?thesis unfolding eq using bins_alloc_pop [OF inv u kb(1,2)] kb(3) by simp
qed

lemma wpmfs_new_block_err:
  assumes inv: "bins_inv s"
  shows "wpmfs_new_block s 0 zero = Some (Inl e, s') \<longleftrightarrow> bins_avail s = {} \<and> e = ENOMEM \<and> s' = s"
proof -
  have "concat (take (num_bins s - 1) (block_bins s)) = [] " if "num_free_blocks s = 0"
  proof -
    from that inv have "concat (block_bins s) = []" by (simp add: bins_inv_def)
    with set_take_concat [of "num_bins s - 1" "block_bins s"]
    have "set (concat (take (num_bins s - 1) (block_bins s))) = {}" by (metis empty_set subset_empty)
    then show ?thesis by (simp only: set_empty)
  qed
  moreover have "unused_block_high s - unused_block_low s = 0" if "num_free_blocks s = 0"
    using that inv by (simp add: bins_inv_def)
  moreover have "bins_avail s = {} \<longleftrightarrow> unused_block_high s - unused_block_low s = 0
      \<and> concat (take (num_bins s - 1) (block_bins s)) = []"
    unfolding bins_avail_def Un_empty set_empty by auto
  moreover have "bin_search 0 (take (num_bins s - 1) (block_bins s)) = None
      \<longleftrightarrow> concat (take (num_bins s - 1) (block_bins s)) = []"
    by (rule bin_search_None)
  ultimately show ?thesis
    by (cases "num_free_blocks s = 0"; cases "unused_block_high s - unused_block_low s = 0";
        cases "bin_search 0 (take (num_bins s - 1) (block_bins s))")
      (simp_all add: wpmfs_new_block_def wpmfs_new_block_locked_def Let_def split_beta, blast+)
qed

text \<open>Once the unused blocks are gone, the block comes from the least worn bin that holds one.\<close>

lemma wpmfs_new_block_least_worn:
  assumes "unused_block_high s - unused_block_low s = 0" "wpmfs_new_block s 0 zero = Some (Inr b, s')"
  shows "\<exists>k. k < num_bins s - 1 \<and> k < length (block_bins s) \<and> block_bins s ! k \<noteq> []
    \<and> b = last (block_bins s ! k) \<and> (\<forall>i<k. block_bins s ! i = [])"
proof -
  from assms obtain k where k: "bin_search 0 (take (num_bins s - 1) (block_bins s)) = Some (k, b)"
    by (auto simp: wpmfs_new_block_def wpmfs_new_block_locked_def Let_def split: if_splits option.splits)
  from bin_search_Some [OF k] show ?thesis by (intro exI [of _ k]) auto
qed

section \<open>Freeing\<close>

lemma wpmfs_get_bin_bound: "wpmfs_get_bin s b = Some t \<Longrightarrow> t < int (num_bins s) \<or> t = int (num_bins s) - 1"
  by (auto simp: wpmfs_get_bin_def Let_def split: if_splits)

lemma wpmfs_free_block_Some:
  assumes "wpmfs_free_block s b 0 = Some s'"
  obtains t where "wpmfs_get_bin s b = Some (int t)" "t < num_bins s"
    "block_bins s' = (block_bins s)[t := b # block_bins s ! t]" "num_free_blocks s' = num_free_blocks s + 1"
    "num_bins s' = num_bins s" "unused_block_low s' = unused_block_low s"
    "unused_block_high s' = unused_block_high s" "page_private s' = (page_private s)(b := WPMFS_PAGE_USING)"
proof -
  from assms obtain t where t: "wpmfs_get_bin s b = Some t" "0 \<le> t"
    by (auto simp: wpmfs_free_block_def wpmfs_free_block_locked_def Let_def split: option.splits if_splits)
  with wpmfs_get_bin_bound [OF t(1)] have lt: "nat t < num_bins s" by auto
  have bin: "wpmfs_get_bin s b = Some (int (nat t))" using t by simp
  show thesis
    by (rule that [OF bin lt])
      (use assms t in \<open>auto simp: wpmfs_free_block_def wpmfs_free_block_locked_def Let_def mark_page_eq
         split: if_splits\<close>)
qed

lemma wpmfs_free_block_sound:
  assumes inv: "bins_inv s" and may: "bins_may_free s b" and fr: "wpmfs_free_block s b 0 = Some s'"
  shows "bins_inv s' \<and> set (concat (block_bins s')) = insert b (set (concat (block_bins s)))
    \<and> unused_block_low s' = unused_block_low s
    \<and> bins_avail s' = (if wpmfs_get_bin s b = Some (int (num_bins s) - 1) then bins_avail s
                       else insert b (bins_avail s))"
proof -
  from fr obtain t where t: "wpmfs_get_bin s b = Some (int t)" "t < num_bins s"
    and s': "block_bins s' = (block_bins s)[t := b # block_bins s ! t]" "num_free_blocks s' = num_free_blocks s + 1"
      "num_bins s' = num_bins s" "unused_block_low s' = unused_block_low s"
      "unused_block_high s' = unused_block_high s"
    by (rule wpmfs_free_block_Some)
  have len: "t < length (block_bins s)" using inv t by (simp add: bins_inv_def)
  note ms = bins_push [OF len, of b]
  have inv': "bins_inv s'"
    using inv may mset_eq_imp_distinct_iff [OF ms] mset_eq_setD [OF ms] mset_eq_length [OF ms]
    by (auto simp: bins_inv_def bins_may_free_def s')
  have av: "set (concat (take (num_bins s - 1) (block_bins s')))
      = (if t = num_bins s - 1 then {} else {b}) \<union> set (concat (take (num_bins s - 1) (block_bins s)))"
  proof (cases "t = num_bins s - 1")
    case True
    then have "length (take (num_bins s - 1) (block_bins s)) \<le> t" by simp
    with True show ?thesis by (simp only: s' take_update_swap list_update_beyond simp_thms if_True Un_empty_left)
  next
    case False
    with t len have "t < length (take (num_bins s - 1) (block_bins s))" by simp
    from mset_eq_setD [OF bins_push [OF this, of b]] False t show ?thesis
      by (simp add: s' take_update_swap)
  qed
  have last: "wpmfs_get_bin s b = Some (int (num_bins s) - 1) \<longleftrightarrow> t = num_bins s - 1"
    using t by auto
  show ?thesis
    using inv' mset_eq_setD [OF ms] av unfolding last by (auto simp: s' bins_avail_def)
qed

section \<open>The contract of the allocator factory\<close>

text \<open>
  The operations as the client of the factory sees them; a failed assertion stops the caller and
  leaves the allocator as it was.
\<close>

definition wear_new :: "bool \<Rightarrow> wpmfs \<Rightarrow> (errno + nat) \<times> wpmfs" where
  "wear_new zero s = (case wpmfs_new_block s 0 zero of Some r \<Rightarrow> r | None \<Rightarrow> (Inl EIO, s))"

definition wear_free :: "wpmfs \<Rightarrow> nat \<Rightarrow> wpmfs" where
  "wear_free s b = (case wpmfs_free_block s b 0 of Some s' \<Rightarrow> s' | None \<Rightarrow> s)"

lemma wpmfs_new_block_total: "wpmfs_new_block s 0 zero \<noteq> None"
  by (auto simp: wpmfs_new_block_def wpmfs_new_block_locked_def Let_def split: option.splits)

lemma wear_new_eq: "wpmfs_new_block s 0 zero = Some (wear_new zero s)"
  using wpmfs_new_block_total [of s zero] by (auto simp: wear_new_def split: option.splits)

interpretation wear_alloc: block_allocator bins_inv bins_avail bins_may_free "wear_new zero" wear_free
  for zero
proof unfold_locales
  fix s s' b c assume inv: "bins_inv s" and new: "wear_new zero s = (Inr b, s')"
  note snd = wpmfs_new_block_sound [OF inv, of zero b s'] wear_new_eq [of s zero, unfolded new]
  then show "bins_inv s' \<and> b \<in> bins_avail s \<and> bins_avail s' = bins_avail s - {b} \<and> bins_may_free s' b"
    by simp
  show "bins_may_free s c \<Longrightarrow> bins_may_free s' c" using snd by blast
next
  fix s s' e assume "bins_inv s" "wear_new zero s = (Inl e, s')"
  then show "s' = s" using wpmfs_new_block_err [of s zero e s'] wear_new_eq [of s zero] by simp
next
  fix s b c assume inv: "bins_inv s" and may: "bins_may_free s b"
  have "b \<notin> set (concat (take (num_bins s - 1) (block_bins s)))"
    using may set_take_concat [of "num_bins s - 1" "block_bins s"] unfolding bins_may_free_def
    by (meson in_mono)
  with may show "b \<notin> bins_avail s"
    unfolding bins_may_free_def bins_avail_def by (simp del: set_concat)
  show "bins_inv (wear_free s b) \<and> bins_avail s \<subseteq> bins_avail (wear_free s b)
    \<and> bins_avail (wear_free s b) \<subseteq> insert b (bins_avail s)"
  proof (cases "wpmfs_free_block s b 0")
    case None
    with inv show ?thesis by (auto simp: wear_free_def)
  next
    case (Some s')
    with wpmfs_free_block_sound [OF inv may Some] show ?thesis by (simp add: wear_free_def subset_insertI)
  qed
  show "bins_may_free s c \<Longrightarrow> b \<noteq> c \<Longrightarrow> bins_may_free (wear_free s b) c"
  proof (cases "wpmfs_free_block s b 0")
    case (Some s')
    assume "bins_may_free s c" "b \<noteq> c"
    with wpmfs_free_block_sound [OF inv may Some] Some show ?thesis
      by (simp add: wear_free_def bins_may_free_def del: set_concat)
  qed (simp add: wear_free_def)
qed

end
