(* ===== verification/AllocFactory.thy ===== *)
theory AllocFactory
  imports VMap BallocList BallocBins
begin

text \<open>
  The allocator factory of \<^verbatim>\<open>wpmfs_balloc.c\<close> (\<^verbatim>\<open>struct allocator_factory\<close>, \<^verbatim>\<open>wpmfs_select_allocator\<close>)
  and what its clients add to the allocation contract: an allocation that does not zero the block and
  a release leave the memory, the windows and the marks of every other page alone.  The member
  \<^verbatim>\<open>pmfs_setup_blocknode_map\<close> is only called at mount and is not a field here.
\<close>

section \<open>The factory\<close>

text \<open>\<open>None\<close> is a failed assertion of the operation.\<close>

record allocator_factory =
  af_count_free_blocks :: "wpmfs \<Rightarrow> nat"
  af_new_block :: "wpmfs \<Rightarrow> nat \<Rightarrow> bool \<Rightarrow> ((errno + nat) \<times> wpmfs) option"
  af_free_block :: "wpmfs \<Rightarrow> nat \<Rightarrow> nat \<Rightarrow> wpmfs option"
  af_free_block_locked :: "wpmfs \<Rightarrow> nat \<Rightarrow> nat \<Rightarrow> nat option option \<Rightarrow> (wpmfs \<times> nat option option) option"
  af_init_blockmap :: "wpmfs \<Rightarrow> nat \<Rightarrow> wpmfs option"

definition wpmfs_allocator :: allocator_factory where
  "wpmfs_allocator =
    \<lparr>af_count_free_blocks = wpmfs_count_free_blocks,
     af_new_block = wpmfs_new_block,
     af_free_block = wpmfs_free_block,
     af_free_block_locked = (\<lambda>s b t h. map_option (\<lambda>s'. (s', h)) (wpmfs_free_block_locked s b t h)),
     af_init_blockmap = (\<lambda>s n. Some (wpmfs_init_blockmap s n))\<rparr>"

definition pmfs_allocator :: allocator_factory where
  "pmfs_allocator =
    \<lparr>af_count_free_blocks = pmfs_count_free_blocks,
     af_new_block = (\<lambda>s t z. Some (pmfs_new_block s t z)),
     af_free_block = (\<lambda>s b t. Some (pmfs_free_block s b t)),
     af_free_block_locked = (\<lambda>s b t h. Some (pmfs_free_block_locked s b t h)),
     af_init_blockmap = pmfs_init_blockmap\<rparr>"

definition wpmfs_select_allocator :: "nat \<Rightarrow> allocator_factory option" where
  "wpmfs_select_allocator alloc =
     (if alloc = 0 then Some wpmfs_allocator else if alloc = 1 then Some pmfs_allocator else None)"

section \<open>Frames\<close>

lemma wpmfs_new_block_frame:
  assumes "wpmfs_new_block s 0 False = Some (r, s')"
  shows "pm s' = pm s" "vmap_pt s' = vmap_pt s" "vmapi s' = vmapi s" "page_index s' = page_index s"
    "virt_addr s' = virt_addr s" "phys_addr s' = phys_addr s"
    "\<forall>c. r \<noteq> Inr c \<longrightarrow> page_private s' c = page_private s c"
  using assms
  by (auto simp: wpmfs_new_block_def wpmfs_new_block_locked_def wpmfs_new_suc_def Let_def mark_page_eq
      split: if_splits option.splits)

lemma wpmfs_free_block_frame:
  assumes "wpmfs_free_block s b 0 = Some s'"
  shows "pm s' = pm s" "vmap_pt s' = vmap_pt s" "vmapi s' = vmapi s" "page_index s' = page_index s"
    "virt_addr s' = virt_addr s" "phys_addr s' = phys_addr s"
    "c \<noteq> b \<Longrightarrow> page_private s' c = page_private s c"
  using assms
  by (auto simp: wpmfs_free_block_def wpmfs_free_block_locked_def Let_def mark_page_eq
      split: if_splits option.splits)

lemma pmfs_new_block_frame:
  assumes "pmfs_new_block s 0 False = (r, s')"
  shows "pm s' = pm s" "vmap_pt s' = vmap_pt s" "vmapi s' = vmapi s" "page_index s' = page_index s"
    "virt_addr s' = virt_addr s" "phys_addr s' = phys_addr s"
    "\<forall>c. r \<noteq> Inr c \<longrightarrow> page_private s' c = page_private s c"
  using assms by (auto simp: pmfs_new_block_def Let_def mark_page_eq split: if_splits option.splits)

lemma pmfs_free_block_frame:
  "pm (pmfs_free_block s b 0) = pm s" "vmap_pt (pmfs_free_block s b 0) = vmap_pt s"
  "vmapi (pmfs_free_block s b 0) = vmapi s" "page_index (pmfs_free_block s b 0) = page_index s"
  "virt_addr (pmfs_free_block s b 0) = virt_addr s" "phys_addr (pmfs_free_block s b 0) = phys_addr s"
  "page_private (pmfs_free_block s b 0) = page_private s"
  by (auto simp: pmfs_free_block_def free_locked_no_hint split: option.splits)

section \<open>The contract of the file system's allocator\<close>

definition same_memory :: "wpmfs \<Rightarrow> wpmfs \<Rightarrow> bool" where
  "same_memory s s' \<longleftrightarrow> pm s' = pm s \<and> vmap_pt s' = vmap_pt s \<and> vmapi s' = vmapi s
     \<and> page_index s' = page_index s \<and> virt_addr s' = virt_addr s \<and> phys_addr s' = phys_addr s"

locale fs_allocator = block_allocator invar avail may_free new_block free_block
  for A :: allocator_factory and invar :: "wpmfs \<Rightarrow> bool" and avail :: "wpmfs \<Rightarrow> nat set"
    and may_free :: "wpmfs \<Rightarrow> nat \<Rightarrow> bool" and new_block :: "wpmfs \<Rightarrow> (errno + nat) \<times> wpmfs"
    and free_block :: "wpmfs \<Rightarrow> nat \<Rightarrow> wpmfs" +
  assumes new_op: "af_new_block A s 0 False = Some (new_block s)"
    and free_op: "af_free_block A s b 0 = Some s' \<Longrightarrow> free_block s b = s'"
    and new_frame: "new_block s = (r, s') \<Longrightarrow>
      same_memory s s' \<and> (\<forall>c. r \<noteq> Inr c \<longrightarrow> page_private s' c = page_private s c)"
    and free_frame: "same_memory s (free_block s b) \<and>
      (\<forall>c. c \<noteq> b \<longrightarrow> page_private (free_block s b) c = page_private s c)"

interpretation pmfs_fs: fs_allocator pmfs_allocator "\<lambda>s. list_inv s \<and> kmem_ok s" list_avail
  "\<lambda>s b. list_may_free s b 1" "\<lambda>s. pmfs_new_block s 0 False" "\<lambda>s b. pmfs_free_block s b 0"
proof unfold_locales
  show "af_new_block pmfs_allocator s 0 False = Some (pmfs_new_block s 0 False)" for s
    by (simp add: pmfs_allocator_def)
  show "af_free_block pmfs_allocator s b 0 = Some s' \<Longrightarrow> pmfs_free_block s b 0 = s'" for s s' b
    by (simp add: pmfs_allocator_def)
  show "same_memory s s' \<and> (\<forall>c. r \<noteq> Inr c \<longrightarrow> page_private s' c = page_private s c)"
    if "pmfs_new_block s 0 False = (r, s')" for s s' r
    using pmfs_new_block_frame [OF that] by (simp add: same_memory_def)
  show "same_memory s (pmfs_free_block s b 0) \<and>
      (\<forall>c. c \<noteq> b \<longrightarrow> page_private (pmfs_free_block s b 0) c = page_private s c)" for s b
    by (simp add: same_memory_def pmfs_free_block_frame)
qed

interpretation wear_fs: fs_allocator wpmfs_allocator bins_inv bins_avail bins_may_free "wear_new False" wear_free
proof unfold_locales
  show "af_new_block wpmfs_allocator s 0 False = Some (wear_new False s)" for s
    by (simp add: wpmfs_allocator_def wear_new_eq)
  show "af_free_block wpmfs_allocator s b 0 = Some s' \<Longrightarrow> wear_free s b = s'" for s s' b
    by (simp add: wpmfs_allocator_def wear_free_def)
  show "same_memory s s' \<and> (\<forall>c. r \<noteq> Inr c \<longrightarrow> page_private s' c = page_private s c)"
    if "wear_new False s = (r, s')" for s s' r
    using wpmfs_new_block_frame [OF wear_new_eq [of s False, unfolded that]] by (simp add: same_memory_def)
  show "same_memory s (wear_free s b) \<and> (\<forall>c. c \<noteq> b \<longrightarrow> page_private (wear_free s b) c = page_private s c)" for s b
  proof (cases "wpmfs_free_block s b 0")
    case (Some s')
    from wpmfs_free_block_frame [OF Some] show ?thesis
      unfolding wear_free_def Some same_memory_def by simp
  qed (simp add: wear_free_def same_memory_def)
qed

section \<open>Copying a page\<close>

text \<open>
  The device offset a virtual address shows: through the page table in a window, else through the
  direct mapping.
\<close>

definition va_off :: "wpmfs \<Rightarrow> nat \<Rightarrow> nat" where
  "va_off s va = (case vmap_pt s (va div 4096) of
     Some (b, _) \<Rightarrow> b * 4096 + va mod 4096 | None \<Rightarrow> va - virt_addr s)"

text \<open>Addresses are given as device offsets; equal addresses are reported and nothing is copied.\<close>

definition memcpy_page :: "wpmfs \<Rightarrow> nat \<Rightarrow> nat \<Rightarrow> bool \<Rightarrow> wpmfs" where
  "memcpy_page s dst src signal_int =
     (if dst = src then s
      else if signal_int then PM_MEMCPY s dst src PAGE_SIZE
      else snd (PM_MEMCPY_NO_INT s dst src PAGE_SIZE))"

text \<open>
  \<^verbatim>\<open>wpmfs_replace_tired_page\<close> on the slot at device offset \<open>blk_index\<close>.  Only \<^verbatim>\<open>-ENOMEM\<close> is
  checked: after another error the block number is uninitialised (\<open>None\<close>).
\<close>

definition wpmfs_replace_tired_page :: "allocator_factory \<Rightarrow> wpmfs \<Rightarrow> nat \<Rightarrow> (64 word \<times> wpmfs) option" where
  "wpmfs_replace_tired_page A s blk_index =
     (case af_new_block A s 0 False of
        None \<Rightarrow> None
      | Some (Inl e, s1) \<Rightarrow> if e = ENOMEM then Some (0, s1) else None
      | Some (Inr blocknr, s1) \<Rightarrow>
          let old_blockoff = of_nat (le_load 8 (pm s1) blk_index);
              tmp_blockoff = of_nat (blocknr * 2 ^ PAGE_SHIFT)
          in (case (wpmfs_get_block s1 old_blockoff, wpmfs_get_block s1 tmp_blockoff) of
                (Some src, Some dst) \<Rightarrow>
                  let s2 = memcpy_page s1 (va_off s1 dst) (va_off s1 src) True
                  in Some (tmp_blockoff, PM_EQU 8 s2 blk_index (unat tmp_blockoff))
              | _ \<Rightarrow> None))"

section \<open>The allocator the tree relies on\<close>

text \<open>
  What the tree adds to the contract: a zeroed block is an allocated block whose bytes are zero, and
  the contract does not depend on memory, page marks and counters.
\<close>

definition alloc_same :: "wpmfs \<Rightarrow> wpmfs \<Rightarrow> bool" where
  "alloc_same s t \<longleftrightarrow> block_inuse_head t = block_inuse_head s \<and> block_start t = block_start s
     \<and> block_end t = block_end s \<and> num_free_blocks t = num_free_blocks s
     \<and> num_blocknode_allocated t = num_blocknode_allocated s \<and> kmem_ok t = kmem_ok s
     \<and> num_bins t = num_bins s \<and> block_bins t = block_bins s
     \<and> unused_block_low t = unused_block_low s \<and> unused_block_high t = unused_block_high s"

definition kernel_same :: "wpmfs \<Rightarrow> wpmfs \<Rightarrow> bool" where
  "kernel_same s t \<longleftrightarrow> vmap_pt t = vmap_pt s \<and> vmapi t = vmapi s \<and> virt_addr t = virt_addr s
     \<and> phys_addr t = phys_addr s"

lemma alloc_same_trans: "alloc_same s t \<Longrightarrow> alloc_same t u \<Longrightarrow> alloc_same s u"
  by (simp add: alloc_same_def)

lemma kernel_same_trans: "kernel_same s t \<Longrightarrow> kernel_same t u \<Longrightarrow> kernel_same s u"
  by (simp add: kernel_same_def)

lemma same_refl [simp]: "kernel_same s s" "alloc_same s s"
  by (simp_all add: kernel_same_def alloc_same_def)

lemma touch_same [simp]:
  "alloc_same s (pm_touch (s\<lparr>pm := m\<rparr>) off n)" "kernel_same s (pm_touch (s\<lparr>pm := m\<rparr>) off n)"
  "alloc_same s (s\<lparr>pm := m\<rparr>)" "kernel_same s (s\<lparr>pm := m\<rparr>)"
  by (simp_all add: alloc_same_def kernel_same_def)

lemma store_same [simp]:
  "alloc_same s (PM_EQU n s off v)" "kernel_same s (PM_EQU n s off v)"
  "alloc_same s (PM_STORE n c s off v)" "kernel_same s (PM_STORE n c s off v)"
  "alloc_same s (PM_OR_EQU n s off v)" "kernel_same s (PM_OR_EQU n s off v)"
  "alloc_same s (plain_store n s off v)" "kernel_same s (plain_store n s off v)"
  "alloc_same s (PM_MEMSET s off w k)" "kernel_same s (PM_MEMSET s off w k)"
  by (simp_all add: PM_EQU_def PM_STORE_def PM_OR_EQU_def plain_store_def PM_MEMSET_def)

lemma plain_store_pm [simp]: "pm (plain_store n s off v) = le_store n (pm s) off v"
  by (simp add: plain_store_def)

lemma PM_OR_EQU_pm [simp]:
  "pm (PM_OR_EQU n s off v) = le_store n (pm s) off (Bit_Operations.or (le_load n (pm s) off) v)"
  by (simp add: PM_OR_EQU_def)

locale tree_allocator = fs_allocator A invar avail may_free new_block free_block
  for A invar avail may_free new_block free_block +
  assumes new_zero: "new_block s = (r, s1) \<Longrightarrow> \<exists>t. af_new_block A s 0 True = Some (r, t) \<and> alloc_same s1 t \<and>
      kernel_same s1 t \<and> pm t = (case r of Inr b \<Rightarrow> mem_fill (pm s1) (b * 4096) 0 4096 | Inl _ \<Rightarrow> pm s1)"
    and contract_cong: "alloc_same s t \<Longrightarrow> invar t = invar s \<and> avail t = avail s \<and> may_free t b = may_free s b"

lemma wpmfs_new_suc_zero:
  "alloc_same (wpmfs_new_suc s b False) (wpmfs_new_suc s b True) \<and>
   kernel_same (wpmfs_new_suc s b False) (wpmfs_new_suc s b True) \<and>
   pm (wpmfs_new_suc s b True) = mem_fill (pm (wpmfs_new_suc s b False)) (b * 4096) 0 4096"
  by (simp add: wpmfs_new_suc_def alloc_same_def kernel_same_def mark_page_eq Let_def pmfs_get_block_off_def)

lemma wpmfs_new_block_zero:
  "wpmfs_new_block s 0 False = Some (r, s1) \<Longrightarrow> \<exists>t. wpmfs_new_block s 0 True = Some (r, t) \<and> alloc_same s1 t \<and>
      kernel_same s1 t \<and> pm t = (case r of Inr b \<Rightarrow> mem_fill (pm s1) (b * 4096) 0 4096 | Inl _ \<Rightarrow> pm s1)"
  unfolding wpmfs_new_block_def wpmfs_new_block_locked_def Let_def
  by (auto simp: wpmfs_new_suc_zero split: if_splits option.splits)

lemma pmfs_new_block_zero:
  "pmfs_new_block s 0 False = (r, s1) \<Longrightarrow> \<exists>t. pmfs_new_block s 0 True = (r, t) \<and> alloc_same s1 t \<and>
      kernel_same s1 t \<and> pm t = (case r of Inr b \<Rightarrow> mem_fill (pm s1) (b * 4096) 0 4096 | Inl _ \<Rightarrow> pm s1)"
  unfolding pmfs_new_block_def Let_def
  by (auto simp: alloc_same_def kernel_same_def pmfs_get_block_off_def split: option.splits)

interpretation pmfs_tree: tree_allocator pmfs_allocator "\<lambda>s. list_inv s \<and> kmem_ok s" list_avail
  "\<lambda>s b. list_may_free s b 1" "\<lambda>s. pmfs_new_block s 0 False" "\<lambda>s b. pmfs_free_block s b 0"
proof unfold_locales
  show "\<exists>t. af_new_block pmfs_allocator s 0 True = Some (r, t) \<and> alloc_same s1 t \<and> kernel_same s1 t \<and>
      pm t = (case r of Inr b \<Rightarrow> mem_fill (pm s1) (b * 4096) 0 4096 | Inl _ \<Rightarrow> pm s1)"
    if "pmfs_new_block s 0 False = (r, s1)" for s r s1
    using pmfs_new_block_zero [OF that] by (auto simp: pmfs_allocator_def)
  show "(list_inv t \<and> kmem_ok t) = (list_inv s \<and> kmem_ok s) \<and> list_avail t = list_avail s \<and>
      list_may_free t b 1 = list_may_free s b 1" if "alloc_same s t" for s t b
    using that by (simp add: alloc_same_def list_inv_def list_avail_def list_may_free_def)
qed

interpretation wear_tree: tree_allocator wpmfs_allocator bins_inv bins_avail bins_may_free "wear_new False" wear_free
proof unfold_locales
  show "\<exists>t. af_new_block wpmfs_allocator s 0 True = Some (r, t) \<and> alloc_same s1 t \<and> kernel_same s1 t \<and>
      pm t = (case r of Inr b \<Rightarrow> mem_fill (pm s1) (b * 4096) 0 4096 | Inl _ \<Rightarrow> pm s1)"
    if "wear_new False s = (r, s1)" for s r s1
    using wpmfs_new_block_zero [OF wear_new_eq [of s False, unfolded that]] by (simp add: wpmfs_allocator_def)
  show "bins_inv t = bins_inv s \<and> bins_avail t = bins_avail s \<and> bins_may_free t b = bins_may_free s b"
    if "alloc_same s t" for s t b
  proof -
    from that have e: "block_bins t = block_bins s" "num_bins t = num_bins s" "unused_block_low t = unused_block_low s"
      "unused_block_high t = unused_block_high s" "num_free_blocks t = num_free_blocks s"
      by (simp_all add: alloc_same_def)
    show ?thesis by (simp only: bins_inv_cong [OF e])
  qed
qed

context tree_allocator
begin

lemma new_any:
  assumes "invar s"
  obtains r t where "af_new_block A s 0 z = Some (r, t)" "invar t" "kernel_same s t"
    "\<And>e. r = Inl e \<Longrightarrow> avail t = avail s \<and> pm t = pm s"
    "\<And>b. r = Inr b \<Longrightarrow> b \<in> avail s \<and> avail t = avail s - {b} \<and> may_free t b \<and>
       pm t = (if z then mem_fill (pm s) (b * 4096) 0 4096 else pm s)"
    "\<And>c. may_free s c \<Longrightarrow> may_free t c"
proof -
  obtain r s1 where n: "new_block s = (r, s1)" by (cases "new_block s")
  have ks: "kernel_same s s1" "pm s1 = pm s"
    using new_frame [OF n] by (simp_all add: kernel_same_def same_memory_def)
  have inv1: "invar s1 \<and> (may_free s c \<longrightarrow> may_free s1 c)" for c
  proof (cases r)
    case (Inl e)
    with n have "s1 = s" using new_err [OF assms] by simp
    with assms show ?thesis by simp
  next
    case (Inr b)
    with n new_ok [OF assms] new_keeps [OF assms] show ?thesis by simp
  qed
  obtain t where t: "af_new_block A s 0 z = Some (r, t)" "alloc_same s1 t" "kernel_same s1 t"
    "pm t = (case r of Inr b \<Rightarrow> if z then mem_fill (pm s1) (b * 4096) 0 4096 else pm s1 | Inl _ \<Rightarrow> pm s1)"
  proof (cases z)
    case True
    with new_zero [OF n] that show thesis by (auto cong: sum.case_cong)
  next
    case False
    with new_op [of s] n that [of s1] show thesis by (simp split: sum.splits)
  qed
  note cong = contract_cong [OF t(2)]
  show thesis
  proof (rule that [OF t(1)])
    show "invar t" "kernel_same s t" using inv1 [of undefined] cong kernel_same_trans [OF ks(1) t(3)] by auto
    show "r = Inl e \<Longrightarrow> avail t = avail s \<and> pm t = pm s" for e
      using new_err [OF assms, of e s1] n cong t(4) ks(2) by auto
    show "r = Inr b \<Longrightarrow> b \<in> avail s \<and> avail t = avail s - {b} \<and> may_free t b \<and>
       pm t = (if z then mem_fill (pm s) (b * 4096) 0 4096 else pm s)" for b
      using new_ok [OF assms, of b s1] n cong t(4) ks(2) by auto
    show "may_free s c \<Longrightarrow> may_free t c" for c using inv1 [of c] cong by simp
  qed
qed

end

text \<open>
  What the truncation adds: the locked release with a hint is the plain release, and keeps the hint
  valid.  \<open>sure\<close> says that a release of a block somebody holds never fails an assertion; the wear-aware
  allocator does not promise it, for a worn counter may lead to a negative bin.
\<close>

locale tree_releaser = tree_allocator A invar avail may_free new_block free_block
  for A invar avail may_free new_block free_block +
  fixes hint_ok :: "wpmfs \<Rightarrow> nat option option \<Rightarrow> bool" and sure :: bool
  assumes hint_null: "hint_ok s (Some None)"
    and locked_op: "invar s \<Longrightarrow> may_free s b \<Longrightarrow> hint_ok s h \<Longrightarrow> af_free_block_locked A s b 0 h = Some (s', h') \<Longrightarrow>
      s' = free_block s b \<and> hint_ok s' h'"
    and free_total: "sure \<Longrightarrow> invar s \<Longrightarrow> may_free s b \<Longrightarrow> hint_ok s h \<Longrightarrow>
      af_free_block_locked A s b 0 h \<noteq> None \<and> af_free_block A s b 0 \<noteq> None"

definition list_hint_ok :: "wpmfs \<Rightarrow> nat option option \<Rightarrow> bool" where
  "list_hint_ok s h \<longleftrightarrow> (\<forall>k. h = Some (Some k) \<longrightarrow> k < length (block_inuse_head s))"

lemma free_locked_hint:
  assumes inv: "list_inv s" and h: "list_hint_ok s h"
    and fr: "pmfs_free_block_locked s b 0 h = (s', h')"
  shows "s' = pmfs_free_block s b 0 \<and> list_hint_ok s' h'"
proof -
  have wf: "blocklist_wf (block_end s) (block_inuse_head s)" using inv by (simp add: list_inv_def)
  have eq: "fst (pmfs_free_block_locked s b 0 h) = pmfs_free_block s b 0"
  proof (cases h)
    case (Some k)
    with h hint_equiv [OF wf, of _ b 0] show ?thesis
      by (cases k) (auto simp: pmfs_free_block_def list_hint_ok_def pmfs_free_block_locked_def hint_start_def Let_def
          split: option.splits)
  qed (simp add: pmfs_free_block_def)
  let ?k = "hint_start s b h" and ?xs = "block_inuse_head s"
  have k: "?k \<le> length ?xs" "\<forall>i\<in>set (take ?k ?xs). block_high i < b"
  proof -
    show "?k \<le> length ?xs" using h by (auto simp: hint_start_def list_hint_ok_def split: option.splits)
    show "\<forall>i\<in>set (take ?k ?xs). block_high i < b"
    proof
      fix i assume "i \<in> set (take ?k ?xs)"
      then obtain m where m: "m < ?k" "m < length ?xs" "i = ?xs ! m" by (auto simp: in_set_conv_nth)
      then have "?k \<noteq> 0" by simp
      then have "block_low (?xs ! ?k) \<le> b" "?k < length ?xs"
        using h by (auto simp: hint_start_def list_hint_ok_def split: option.splits if_splits)
      moreover have "block_high i < block_low (?xs ! ?k)"
        using wf m \<open>?k < length ?xs\<close> by (auto simp: blocklist_wf_def sorted_wrt_iff_nth_less)
      ultimately show "block_high i < b" by simp
    qed
  qed
  note skip = free_scan_skip [OF k(2), of "kmem_ok s" b "drop ?k ?xs", unfolded append_take_drop_id]
  have "list_hint_ok s' h'"
  proof (cases "free_scan (kmem_ok s) b b (drop ?k ?xs)")
    case None
    with fr h show ?thesis by (auto simp: pmfs_free_block_locked_def Let_def)
  next
    case (Some r)
    show ?thesis
    proof (cases "fr_freed r")
      case False
      with fr h Some show ?thesis by (auto simp: pmfs_free_block_locked_def Let_def)
    next
      case True
      let ?r = "r\<lparr>fr_list := take ?k ?xs @ fr_list r, fr_hint := map_option ((+) (length (take ?k ?xs))) (fr_hint r)\<rparr>"
      have "free_scan (kmem_ok s) b b ?xs = Some ?r" using skip Some by simp
      note snd = free_scan_sound [OF wf le_refl this]
      have "\<forall>m. fr_hint ?r = Some m \<longrightarrow> m < length (fr_list ?r)" using snd True by simp
      with True Some fr k(1) show ?thesis
        by (auto simp: pmfs_free_block_locked_def Let_def list_hint_ok_def min_absorb2)
    qed
  qed
  with eq fr show ?thesis by simp
qed

interpretation pmfs_release: tree_releaser pmfs_allocator "\<lambda>s. list_inv s \<and> kmem_ok s" list_avail
  "\<lambda>s b. list_may_free s b 1" "\<lambda>s. pmfs_new_block s 0 False" "\<lambda>s b. pmfs_free_block s b 0" list_hint_ok True
proof unfold_locales
  show "s' = pmfs_free_block s b 0 \<and> list_hint_ok s' h'"
    if "list_inv s \<and> kmem_ok s" "list_hint_ok s h" "af_free_block_locked pmfs_allocator s b 0 h = Some (s', h')"
    for s b h s' h'
  proof -
    have "pmfs_free_block_locked s b 0 h = (s', h')" using that(3) by (simp add: pmfs_allocator_def)
    from free_locked_hint [OF _ that(2) this] that(1) show ?thesis by blast
  qed
qed (auto simp: list_hint_ok_def pmfs_allocator_def)

interpretation wear_release: tree_releaser wpmfs_allocator bins_inv bins_avail bins_may_free "wear_new False" wear_free
  "\<lambda>s h. h = None \<or> h = Some None" False
proof unfold_locales
  show "s' = wear_free s b \<and> (h' = None \<or> h' = Some None)"
    if h: "h = None \<or> h = Some None" and f: "af_free_block_locked wpmfs_allocator s b 0 h = Some (s', h')" for s b h s' h'
  proof -
    from f have "wpmfs_free_block_locked s b 0 h = Some s'" "h' = h" by (auto simp: wpmfs_allocator_def)
    moreover from this(1) h have "wpmfs_free_block s b 0 = Some s'"
      by (auto simp: wpmfs_free_block_def wpmfs_free_block_locked_def Let_def)
    ultimately show ?thesis using h by (simp add: wear_free_def)
  qed
qed auto

end
