(* ===== verification/WearVmap.thy ===== *)
theory WearVmap
  imports AllocFactory
begin

text \<open>
  Wear levelling of the pages behind the vmalloc windows and of pages nobody maps
  (\<^verbatim>\<open>wpmfs_wl.c\<close>: \<^verbatim>\<open>_level_type_vmap\<close>, \<^verbatim>\<open>_level_type_stranded\<close> and their helpers).  The model runs
  the migration as one step: the window is write-protected while the page is copied, and the code
  runs with preemption disabled.
\<close>

section \<open>Definitions\<close>

definition check_vmap :: "wpmfs \<Rightarrow> nat \<Rightarrow> bool" where
  "check_vmap s page \<longleftrightarrow> wpmfs_page_marks s page AND WPMFS_PAGE_VMAP \<noteq> 0"

definition pfn_to_vaddr :: "wpmfs \<Rightarrow> nat \<Rightarrow> nat" where
  "pfn_to_vaddr s page =
     (if wpmfs_page_marks s page AND WPMFS_PAGE_VMAP_DYNAMIC \<noteq> 0
      then base_dynamic (vmapi s) + page_index s page * 2 ^ PAGE_SHIFT
      else base_static (vmapi s) + page_index s page * 2 ^ PAGE_SHIFT)"

text \<open>The walk of the page table; \<open>None\<close> when a level is not present.\<close>

definition get_vmalloc_pte :: "wpmfs \<Rightarrow> nat \<Rightarrow> (nat \<times> bool) option" where
  "get_vmalloc_pte s address = vmap_pt s (address div PAGE_SIZE)"

definition set_pte_atomic :: "wpmfs \<Rightarrow> nat \<Rightarrow> nat \<times> bool \<Rightarrow> wpmfs" where
  "set_pte_atomic s address pte = s\<lparr>vmap_pt := (vmap_pt s)(address div PAGE_SIZE \<mapsto> pte)\<rparr>"

text \<open>
  \<^verbatim>\<open>_level_type_vmap\<close> after the allocation: the new page takes over index, marks, content, slot
  and window page of the tired page, which is released.  \<open>None\<close> is a failed assertion.
\<close>

definition level_type_vmap_to :: "allocator_factory \<Rightarrow> wpmfs \<Rightarrow> nat \<Rightarrow> nat \<Rightarrow> nat \<Rightarrow> wpmfs option" where
  "level_type_vmap_to A s1 pfn src_direct blocknr =
     (case wpmfs_get_blockoff_direct blocknr of None \<Rightarrow> None | Some blockoff \<Rightarrow>
      let pfn0 = phys_addr s1 div 2 ^ PAGE_SHIFT;
          page = pfn - pfn0;
          dst_direct = pmfs_get_block s1 (unat blockoff);
          new_page = pmfs_get_pfn s1 (unat blockoff) - pfn0;
          s2 = s1\<lparr>page_index := (page_index s1)(new_page := page_index s1 page)\<rparr>;
          s3 = mark_page s2 new_page (wpmfs_page_marks s2 page);
          src_vmap = pfn_to_vaddr s3 page
      in case get_vmalloc_pte s3 src_vmap of
           None \<Rightarrow> af_free_block A s3 (wpmfs_get_blocknr s3 pfn) 0
         | Some pte \<Rightarrow>
             (case wpmfs_reget_mptable_slot s3 page of None \<Rightarrow> None | Some mptable_slot \<Rightarrow>
              let s4 = set_pte_atomic s3 src_vmap (fst pte, False);
                  s5 = memcpy_page s4 (dst_direct - virt_addr s4) (src_direct - virt_addr s4) False;
                  s6 = snd (PM_EQU_NO_INT 8 s5 mptable_slot blocknr);
                  s7 = set_pte_atomic s6 src_vmap (new_page, True)
              in af_free_block A s7 (wpmfs_get_blocknr s7 pfn) 0))"

text \<open>
  Only \<^verbatim>\<open>-ENOMEM\<close> is checked after the allocation; after another error \<^verbatim>\<open>blocknr\<close> still holds
  the tired block.
\<close>

definition level_type_vmap :: "allocator_factory \<Rightarrow> wpmfs \<Rightarrow> nat \<Rightarrow> wpmfs option" where
  "level_type_vmap A s pfn =
     (let old_blocknr = wpmfs_get_blocknr s pfn
      in case wpmfs_get_blockoff_direct old_blocknr of None \<Rightarrow> None | Some old_blockoff \<Rightarrow>
         let src_direct = pmfs_get_block s (unat old_blockoff)
         in case af_new_block A s 0 False of
              None \<Rightarrow> None
            | Some (Inr blocknr, s1) \<Rightarrow> level_type_vmap_to A s1 pfn src_direct blocknr
            | Some (Inl e, s1) \<Rightarrow>
                if e = ENOMEM then Some s1
                else level_type_vmap_to A s1 pfn src_direct old_blocknr)"

definition level_type_stranded :: "wpmfs \<Rightarrow> nat \<Rightarrow> wpmfs" where
  "level_type_stranded s page =
     (let page_marks = wpmfs_page_marks s page
      in if page_marks AND WPMFS_PAGE_USING = 0 then s
      else snd (wpmfs_mark_page s page page_marks (page_marks OR WPMFS_PAGE_TIRED)))"

section \<open>Migration of a window page\<close>

lemma set_pte_atomic_sel [simp]:
  "pm (set_pte_atomic s a p) = pm s" "page_private (set_pte_atomic s a p) = page_private s"
  "page_index (set_pte_atomic s a p) = page_index s" "vmapi (set_pte_atomic s a p) = vmapi s"
  "vmap_pt (set_pte_atomic s a p) = (vmap_pt s)(a div 4096 \<mapsto> p)"
  "virt_addr (set_pte_atomic s a p) = virt_addr s" "phys_addr (set_pte_atomic s a p) = phys_addr s"
  by (simp_all add: set_pte_atomic_def)

lemma wt_intless_base [simp]:
  "virt_addr (snd (wt_cnter_track_addr_intless f s a n)) = virt_addr s"
  "phys_addr (snd (wt_cnter_track_addr_intless f s a n)) = phys_addr s"
  using wt_track_intless_only [of f s a n] by auto

lemma memcpy_page_no_int_sel [simp]:
  "page_private (memcpy_page s d a False) = page_private s"
  "page_index (memcpy_page s d a False) = page_index s" "vmapi (memcpy_page s d a False) = vmapi s"
  "vmap_pt (memcpy_page s d a False) = vmap_pt s" "virt_addr (memcpy_page s d a False) = virt_addr s"
  "phys_addr (memcpy_page s d a False) = phys_addr s"
  by (simp_all add: memcpy_page_def PM_MEMCPY_NO_INT_def)

lemma PM_EQU_NO_INT_base [simp]:
  "virt_addr (snd (PM_EQU_NO_INT n s a v)) = virt_addr s" "phys_addr (snd (PM_EQU_NO_INT n s a v)) = phys_addr s"
  by (simp_all add: PM_EQU_NO_INT_def)

lemma memcpy_page_pm: "pm (memcpy_page s d a False) = (if d = a then pm s else mem_copy (pm s) d a 4096)"
  by (simp add: memcpy_page_def)

text \<open>The place of a block in the windows: its virtual page and its slot.\<close>

definition window_vpage :: "wpmfs \<Rightarrow> nat \<Rightarrow> nat" where
  "window_vpage s c = (if page_private s c AND WPMFS_PAGE_VMAP_DYNAMIC \<noteq> 0
     then base_dynamic (vmapi s) div 4096 + page_index s c else base_static (vmapi s) div 4096 + page_index s c)"

definition window_slot :: "wpmfs \<Rightarrow> nat \<Rightarrow> nat" where
  "window_slot s c = (if page_private s c AND WPMFS_PAGE_VMAP_DYNAMIC \<noteq> 0
     then head_blocknr s * 4096 + 8 * page_index s c else 24 + 8 * page_index s c)"

lemma pfn_to_vaddr_page:
  "windows_apart s \<Longrightarrow> pfn_to_vaddr s c div 4096 = window_vpage s c"
  by (simp add: pfn_to_vaddr_def window_vpage_def wpmfs_page_marks_def windows_apart_def)

lemma reget_slot_eq:
  "blocknr_ok (head_blocknr s) \<Longrightarrow> wpmfs_reget_mptable_slot s c = Some (window_slot s c)"
  using mptable_dynamic_eq [of s]
  by (simp add: wpmfs_reget_mptable_slot_def window_slot_def wpmfs_page_marks_def head_blocknr_def
      wpmfs_get_mptable_static_def)

text \<open>The state after a migration from block \<open>c\<close> to block \<open>b\<close>, up to the release of \<open>c\<close>.\<close>

definition migrated :: "wpmfs \<Rightarrow> nat \<Rightarrow> nat \<Rightarrow> wpmfs \<Rightarrow> bool" where
  "migrated s c b s' \<longleftrightarrow>
     pm s' = le_store 8 (mem_copy (pm s) (b * 4096) (c * 4096) 4096) (window_slot s c) b
     \<and> vmap_pt s' = (vmap_pt s)(window_vpage s c \<mapsto> (b, True)) \<and> vmapi s' = vmapi s
     \<and> (\<forall>x. x \<noteq> b \<and> x \<noteq> c \<longrightarrow> page_private s' x = page_private s x)
     \<and> page_private s' b = page_private s c \<and> page_index s' = (page_index s)(b := page_index s c)"

lemma get_blocknr_pfn: "4096 dvd phys_addr s \<Longrightarrow> wpmfs_get_blocknr s (phys_addr s div 4096 + c) = c"
  by (auto simp: wpmfs_get_blocknr_def algebra_simps elim!: dvdE)

lemma get_pfn_block: "4096 dvd phys_addr s \<Longrightarrow> pmfs_get_pfn s (b * 4096) = phys_addr s div 4096 + b"
  by (auto simp: pmfs_get_pfn_def elim!: dvdE)

context fs_allocator
begin

lemma level_type_vmap_migrates:
  assumes ok: "windows_apart s" "blocknr_ok (head_blocknr s)" "4096 dvd phys_addr s" "blocknr_ok c"
    and new: "new_block s = (Inr b, s1)" "blocknr_ok b" "b \<noteq> c"
    and pte: "vmap_pt s (window_vpage s c) = Some p"
    and lev: "level_type_vmap A s (phys_addr s div 4096 + c) = Some s'"
  shows "migrated s c b s'"
proof -
  have mem: "same_memory s s1" "\<forall>x. x \<noteq> b \<longrightarrow> page_private s1 x = page_private s x"
    using new_frame [OF new(1)] by auto
  note sm = mem(1) [unfolded same_memory_def]
  have c1: "page_private s1 c = page_private s c" using mem(2) new(3) by simp
  define s3 where "s3 = mark_page (s1\<lparr>page_index := (page_index s1)(b := page_index s1 c)\<rparr>) b (page_private s1 c)"
  have s3: "pm s3 = pm s" "vmap_pt s3 = vmap_pt s" "vmapi s3 = vmapi s" "virt_addr s3 = virt_addr s"
    "phys_addr s3 = phys_addr s" "page_index s3 = (page_index s)(b := page_index s c)"
    "page_private s3 = (page_private s1)(b := page_private s c)"
    using sm c1 by (simp_all add: s3_def mark_page_eq)
  have h3: "head_blocknr s3 = head_blocknr s" by (rule slots_cong) (simp add: s3)
  have vp: "window_vpage s3 c = window_vpage s c" "window_slot s3 c = window_slot s c"
    using new(3) c1 by (simp_all add: window_vpage_def window_slot_def s3 h3)
  have wa: "windows_apart s3" using ok(1) by (simp add: windows_apart_def s3)
  have slot: "wpmfs_reget_mptable_slot s3 c = Some (window_slot s c)"
    using reget_slot_eq [of s3 c] ok(2) by (simp add: h3 vp)
  define s7 where "s7 = set_pte_atomic (snd (PM_EQU_NO_INT 8 (memcpy_page
      (set_pte_atomic s3 (pfn_to_vaddr s3 c) (fst p, False)) (b * 4096) (c * 4096) False) (window_slot s c) b))
      (pfn_to_vaddr s3 c) (b, True)"
  have s7: "pm s7 = le_store 8 (mem_copy (pm s) (b * 4096) (c * 4096) 4096) (window_slot s c) b"
    "vmap_pt s7 = (vmap_pt s)(window_vpage s c \<mapsto> (b, True))" "vmapi s7 = vmapi s" "phys_addr s7 = phys_addr s"
    "page_index s7 = (page_index s)(b := page_index s c)"
    "page_private s7 = (page_private s1)(b := page_private s c)"
    using new(3) by (simp_all add: s7_def s3 memcpy_page_pm pfn_to_vaddr_page [OF wa] vp)
  have pte3: "get_vmalloc_pte s3 (pfn_to_vaddr s3 c) = Some p"
    using pte by (simp add: get_vmalloc_pte_def pfn_to_vaddr_page [OF wa] vp s3)
  have n1: "pmfs_get_pfn s1 (b * 4096) - phys_addr s1 div 4096 = b"
    using get_pfn_block [of s1 b] ok(3) sm by simp
  have n2: "unat (wb_make (b * 4096) 0) = b * 4096" "unat (wb_make (c * 4096) 0) = c * 4096"
    using ok(4) new(2) by (simp_all add: unat_wb_make_0)
  have n3: "phys_addr s div 4096 + c - phys_addr s1 div 4096 = c" using sm by simp
  have n4: "pmfs_get_block s1 (b * 4096) = virt_addr s + b * 4096" "pmfs_get_block s (c * 4096) = virt_addr s + c * 4096"
    using ok(4) new(2) sm by (simp_all add: pmfs_get_block_def)
  have nr: "wpmfs_get_blocknr s7 (phys_addr s div 4096 + c) = c"
    using get_blocknr_pfn [of s7 c] ok(3) s7(4) by simp
  have marks: "wpmfs_page_marks (s1\<lparr>page_index := f\<rparr>) c = page_private s1 c" for f
    by (simp add: wpmfs_page_marks_def)
  have "level_type_vmap A s (phys_addr s div 4096 + c) =
      level_type_vmap_to A s1 (phys_addr s div 4096 + c) (virt_addr s + c * 4096) b"
    using ok by (simp add: level_type_vmap_def new_op new blockoff_direct get_blocknr_pfn n2 n4)
  also have "\<dots> = af_free_block A s7 c 0"
    using new(2)
    by (simp add: level_type_vmap_to_def blockoff_direct n1 n2 n3 n4 Let_def marks s3_def [symmetric]
        pte3 slot s3(4) s7_def [symmetric] nr)
  finally have "level_type_vmap A s (phys_addr s div 4096 + c) = af_free_block A s7 c 0" .
  with lev have "free_block s7 c = s'" using free_op by simp
  with free_frame [of s7 c] s7 show ?thesis
    unfolding same_memory_def migrated_def using mem(2) new(3) by auto
qed

end

section \<open>A migration is invisible through the windows\<close>

lemma table_bytes:
  assumes wf: "vmap_wf s"
  shows "8 \<le> x \<Longrightarrow> x < 24 + 8 * static_pages s \<Longrightarrow> x div 4096 \<in> table_blocks s"
    "head_blocknr s * 4096 \<le> x \<Longrightarrow> x < head_blocknr s * 4096 + 8 * 5120 \<Longrightarrow> x div 4096 \<in> table_blocks s"
proof -
  assume "8 \<le> x" "x < 24 + 8 * static_pages s"
  then have "x div 4096 \<le> (23 + 8 * static_pages s) div 4096" by (intro div_le_mono) simp
  then show "x div 4096 \<in> table_blocks s" by (simp add: table_blocks_def)
next
  assume "head_blocknr s * 4096 \<le> x" "x < head_blocknr s * 4096 + 8 * 5120"
  then have "head_blocknr s \<le> x div 4096 \<and> x div 4096 < head_blocknr s + 10"
    by (simp add: less_eq_div_iff_mult_less_eq div_less_iff_less_mult algebra_simps)
  then show "x div 4096 \<in> table_blocks s" by (simp add: table_blocks_def)
qed

lemma copy_other_block: "x div 4096 \<noteq> b \<Longrightarrow> mem_copy m (b * 4096) a 4096 x = m x"
proof -
  assume ne: "x div 4096 \<noteq> b"
  have "x div 4096 = b" if "b * 4096 \<le> x" "x < b * 4096 + 4096"
    using that by (intro div_nat_eqI) auto
  with ne show ?thesis by (auto simp: mem_copy_def)
qed

lemma load_table:
  "b \<notin> table_blocks s \<Longrightarrow> (\<And>x. a \<le> x \<Longrightarrow> x < a + 8 \<Longrightarrow> x div 4096 \<in> table_blocks s) \<Longrightarrow>
    le_load 8 (mem_copy (pm s) (b * 4096) src 4096) a = le_load 8 (pm s) a"
  by (rule le_load_cong) (metis copy_other_block)

lemma window_slots_distinct:
  assumes wf: "vmap_wf s"
  shows "i < static_pages s \<Longrightarrow> j < static_pages s \<Longrightarrow> static_slot s i = static_slot s j \<longleftrightarrow> i = j"
    "i < dynamic_pages s \<Longrightarrow> j < dynamic_pages s \<Longrightarrow> dynamic_slot s i = dynamic_slot s j \<longleftrightarrow> i = j"
    "i < static_pages s \<Longrightarrow> j < dynamic_pages s \<Longrightarrow> static_slot s i \<noteq> dynamic_slot s j"
proof -
  have d: "distinct (map (static_slot s) [0..<static_pages s])" "distinct (map (dynamic_slot s) [0..<dynamic_pages s])"
    "set (map (static_slot s) [0..<static_pages s]) \<inter> set (map (dynamic_slot s) [0..<dynamic_pages s]) = {}"
    using wf unfolding vmap_wf_def window_blocks_def distinct_append by blast+
  show "i < static_pages s \<Longrightarrow> j < static_pages s \<Longrightarrow> static_slot s i = static_slot s j \<longleftrightarrow> i = j"
    using d(1) unfolding distinct_map inj_on_def by auto
  show "i < dynamic_pages s \<Longrightarrow> j < dynamic_pages s \<Longrightarrow> dynamic_slot s i = dynamic_slot s j \<longleftrightarrow> i = j"
    using d(2) unfolding distinct_map inj_on_def by auto
  show "i < static_pages s \<Longrightarrow> j < dynamic_pages s \<Longrightarrow> static_slot s i \<noteq> dynamic_slot s j"
    using d(3) by (fastforce simp: disjoint_iff)
qed

text \<open>Where a block of the windows stands.\<close>

lemma window_place:
  assumes wf: "vmap_wf s" and c: "c \<in> set (window_blocks s)"
  obtains (Static) i where "i < static_pages s" "c = static_slot s i" "window_slot s c = 24 + 8 * i"
      "window_vpage s c = base_static (vmapi s) div 4096 + i"
  | (Dynamic) i where "i < dynamic_pages s" "c = dynamic_slot s i" "window_slot s c = head_blocknr s * 4096 + 8 * i"
      "window_vpage s c = base_dynamic (vmapi s) div 4096 + i"
proof -
  from c consider i where "i < static_pages s" "c = static_slot s i"
    | i where "i < dynamic_pages s" "c = dynamic_slot s i"
    by (auto simp: window_blocks_def)
  then show thesis
  proof cases
    case (1 i)
    with wf have "page_marked s c i False" by (simp add: vmap_wf_def)
    with 1 Static show thesis by (simp add: page_marked_def window_slot_def window_vpage_def)
  next
    case (2 i)
    with wf have "page_marked s c i True" by (simp add: vmap_wf_def)
    with 2 Dynamic show thesis by (simp add: page_marked_def window_slot_def window_vpage_def)
  qed
qed

lemma window_slot_table:
  assumes wf: "vmap_wf s" and c: "c \<in> set (window_blocks s)" and x: "window_slot s c \<le> x" "x < window_slot s c + 8"
  shows "x div 4096 \<in> table_blocks s" "24 \<le> window_slot s c"
proof -
  have "x div 4096 \<in> table_blocks s \<and> 24 \<le> window_slot s c"
    using wf c
  proof (cases rule: window_place)
    case (Static i)
    with x table_bytes(1) [OF wf, of x] show ?thesis by simp
  next
    case (Dynamic i)
    moreover from wf this have "i < 5120" "0 < head_blocknr s" by (simp_all add: vmap_wf_def)
    ultimately show ?thesis using x table_bytes(2) [OF wf, of x] by simp
  qed
  then show "x div 4096 \<in> table_blocks s" "24 \<le> window_slot s c" by simp_all
qed

lemma migrated_slots:
  assumes wf: "vmap_wf s" and c: "c \<in> set (window_blocks s)" and b: "blocknr_ok b" "b \<notin> table_blocks s"
    and m: "migrated s c b s'"
  shows "head_blocknr s' = head_blocknr s"
    "i < static_pages s \<Longrightarrow> static_slot s' i = (if static_slot s i = c then b else static_slot s i)"
    "i < dynamic_pages s \<Longrightarrow> dynamic_slot s' i = (if dynamic_slot s i = c then b else dynamic_slot s i)"
proof -
  let ?cp = "mem_copy (pm s) (b * 4096) (c * 4096) 4096"
  have pm: "pm s' = le_store 8 ?cp (window_slot s c) b" using m by (simp add: migrated_def)
  have h: "(23 + 8 * static_pages s) div 4096 < head_blocknr s" using wf by (simp add: vmap_wf_def)
  then have hs: "24 + 8 * static_pages s \<le> head_blocknr s * 4096" by linarith
  have d5: "dynamic_pages s \<le> 5120" using wf by (simp add: vmap_wf_def)
  have inj: "distinct (window_blocks s)" using wf by (simp add: vmap_wf_def)
  have ld: "le_load 8 (pm s') a = le_load 8 (pm s) a"
    if "\<And>x. a \<le> x \<Longrightarrow> x < a + 8 \<Longrightarrow> x div 4096 \<in> table_blocks s"
      "a + 8 \<le> window_slot s c \<or> window_slot s c + 8 \<le> a" for a
    unfolding pm using that by (simp add: le_load_store_other load_table [OF b(2)])
  show hd: "head_blocknr s' = head_blocknr s"
    unfolding head_blocknr_def
    by (rule ld) (use table_bytes(1) [OF wf] window_slot_table(2) [OF wf c order_refl] in \<open>auto simp: table_blocks_def\<close>)
  { fix i assume i: "i < static_pages s"
    have t: "x div 4096 \<in> table_blocks s" if "24 + 8 * i \<le> x" "x < 24 + 8 * i + 8" for x
      using table_bytes(1) [OF wf, of x] that i by simp
    show "static_slot s' i = (if static_slot s i = c then b else static_slot s i)"
      using wf c
    proof (cases rule: window_place)
      case (Static j)
      have "static_slot s i = c \<longleftrightarrow> i = j"
        using window_slots_distinct(1) [OF wf i Static(1)] Static(2) by simp
      moreover have "le_load 8 (pm s') (24 + 8 * i) = le_load 8 (pm s) (24 + 8 * i)" if "i \<noteq> j"
        by (rule ld [OF t]) (use that Static(3) in \<open>auto simp: nat_neq_iff\<close>)
      ultimately show ?thesis using b(1) Static(3)
        by (cases "i = j") (simp_all add: static_slot_def pm)
    next
      case (Dynamic j)
      have "static_slot s i \<noteq> c" using window_slots_distinct(3) [OF wf i Dynamic(1)] Dynamic(2) by simp
      with Dynamic i hs ld [of "24 + 8 * i"] t show ?thesis by (simp add: static_slot_def)
    qed }
  { fix i assume i: "i < dynamic_pages s"
    let ?a = "head_blocknr s * 4096 + 8 * i"
    have t: "x div 4096 \<in> table_blocks s" if "?a \<le> x" "x < ?a + 8" for x
      using table_bytes(2) [OF wf, of x] that i d5 by simp
    show "dynamic_slot s' i = (if dynamic_slot s i = c then b else dynamic_slot s i)"
      using wf c
    proof (cases rule: window_place)
      case (Dynamic j)
      have "dynamic_slot s i = c \<longleftrightarrow> i = j"
        using window_slots_distinct(2) [OF wf i Dynamic(1)] Dynamic(2) by simp
      moreover have "le_load 8 (pm s') ?a = le_load 8 (pm s) ?a" if "i \<noteq> j"
        by (rule ld [OF t]) (use that Dynamic(3) in \<open>auto simp: nat_neq_iff\<close>)
      ultimately show ?thesis using b(1) Dynamic(3)
        by (cases "i = j") (simp_all add: dynamic_slot_def hd pm)
    next
      case (Static j)
      have "dynamic_slot s i \<noteq> c" using window_slots_distinct(3) [OF wf Static(1) i] Static(2) by simp
      with Static i hs ld [of ?a] t show ?thesis by (simp add: dynamic_slot_def hd)
    qed }
qed

lemma distinct_replace: "distinct xs \<Longrightarrow> b \<notin> set xs \<Longrightarrow> distinct (map (\<lambda>x. if x = c then b else x) xs)"
  by (induction xs) auto

text \<open>
  The windows after a migration: the new block stands where the tired one stood, everything else is in
  place, and a load through a window reads what it read before.
\<close>

lemma migrated_wf:
  assumes wf: "vmap_wf s" and c: "c \<in> set (window_blocks s)"
    and b: "blocknr_ok b" "b \<notin> table_blocks s" "b \<notin> set (window_blocks s)" and m: "migrated s c b s'"
  shows "vmap_wf s'" "window_blocks s' = map (\<lambda>x. if x = c then b else x) (window_blocks s)"
proof -
  let ?r = "\<lambda>x. if x = c then b else x"
  note sl = migrated_slots [OF wf c b(1,2) m]
  have vm: "vmapi s' = vmapi s" using m by (simp add: migrated_def)
  show wb: "window_blocks s' = map ?r (window_blocks s)"
    using sl(2,3) by (simp add: window_blocks_def vm)
  have tb: "table_blocks s' = table_blocks s" by (simp add: table_blocks_def vm sl(1))
  have bc: "b \<noteq> c" using b(3) c by auto
  have inj: "distinct (window_blocks s)" and wa: "windows_apart s" and d5: "dynamic_pages s \<le> 5120"
    using wf by (simp_all add: vmap_wf_def)
  have pt: "vmap_pt s' = (vmap_pt s)(window_vpage s c \<mapsto> (b, True))" using m by (simp add: migrated_def)
  have mk: "page_marked s' (?r x) i d = page_marked s x i d" if "x \<in> set (window_blocks s)" for x i d
    using m that b(3) by (auto simp: migrated_def page_marked_def)
  have st: "vmap_pt s' (base_static (vmapi s) div 4096 + i) = Some (?r (static_slot s i), True)"
    if i: "i < static_pages s" for i
    using wf c
  proof (cases rule: window_place)
    case (Static j)
    have "static_slot s i = c \<longleftrightarrow> i = j"
      using window_slots_distinct(1) [OF wf i Static(1)] Static(2) by simp
    with Static wf i show ?thesis by (auto simp: pt vmap_wf_def)
  next
    case (Dynamic j)
    have "static_slot s i \<noteq> c" using window_slots_distinct(3) [OF wf i Dynamic(1)] Dynamic(2) by simp
    moreover have "base_static (vmapi s) div 4096 + i \<noteq> base_dynamic (vmapi s) div 4096 + j"
      using windows_apart_pages [OF wa i, of j] Dynamic(1) d5 by simp
    ultimately show ?thesis using wf i Dynamic by (simp add: pt vmap_wf_def)
  qed
  have dy: "vmap_pt s' (base_dynamic (vmapi s) div 4096 + i) = Some (?r (dynamic_slot s i), True)"
    if i: "i < dynamic_pages s" for i
    using wf c
  proof (cases rule: window_place)
    case (Dynamic j)
    have "dynamic_slot s i = c \<longleftrightarrow> i = j"
      using window_slots_distinct(2) [OF wf i Dynamic(1)] Dynamic(2) by simp
    with Dynamic wf i show ?thesis by (auto simp: pt vmap_wf_def)
  next
    case (Static j)
    have "dynamic_slot s i \<noteq> c" using window_slots_distinct(3) [OF wf Static(1) i] Static(2) by simp
    moreover have "base_static (vmapi s) div 4096 + j \<noteq> base_dynamic (vmapi s) div 4096 + i"
      using windows_apart_pages [OF wa Static(1), of i] i d5 by simp
    ultimately show ?thesis using wf i Static by (auto simp: pt vmap_wf_def)
  qed
  have "windows_apart s'" using wa by (simp add: windows_apart_def vm)
  moreover have "distinct (map ?r (window_blocks s))" using distinct_replace [OF inj b(3)] .
  moreover have "\<forall>x\<in>set (map ?r (window_blocks s)). blocknr_ok x \<and> x \<notin> table_blocks s"
    using wf b by (auto simp: vmap_wf_def)
  moreover have "page_marked s' (?r (static_slot s i)) i False" if "i < static_pages s" for i
    using that wf mk [of "static_slot s i"] by (simp add: vmap_wf_def window_blocks_def)
  moreover have "page_marked s' (?r (dynamic_slot s i)) i True" if "i < dynamic_pages s" for i
    using that wf mk [of "dynamic_slot s i"] by (simp add: vmap_wf_def window_blocks_def)
  ultimately show "vmap_wf s'"
    unfolding vmap_wf_def wb tb vm sl(1)
    using wf st dy sl(2,3) by (simp add: vmap_wf_def)
qed

text \<open>The virtual pages of both windows.\<close>

definition window_pages :: "wpmfs \<Rightarrow> nat set" where
  "window_pages s = {base_static (vmapi s) div 4096..<base_static (vmapi s) div 4096 + static_pages s}
     \<union> {base_dynamic (vmapi s) div 4096..<base_dynamic (vmapi s) div 4096 + dynamic_pages s}"

lemma window_page_block:
  assumes wf: "vmap_wf s" and v: "v \<in> window_pages s"
  obtains w where "vmap_pt s v = Some (w, True)" "w \<in> set (window_blocks s)" "window_vpage s w = v"
proof -
  from v consider i where "i < static_pages s" "v = base_static (vmapi s) div 4096 + i"
    | i where "i < dynamic_pages s" "v = base_dynamic (vmapi s) div 4096 + i"
    unfolding window_pages_def by (auto dest!: le_Suc_ex)
  then show thesis
  proof cases
    case (1 i)
    with wf show thesis
      by (intro that [of "static_slot s i"])
        (auto simp: vmap_wf_def window_blocks_def page_marked_def window_vpage_def)
  next
    case (2 i)
    with wf show thesis
      by (intro that [of "dynamic_slot s i"])
        (auto simp: vmap_wf_def window_blocks_def page_marked_def window_vpage_def)
  qed
qed

lemma migrated_vread:
  assumes wf: "vmap_wf s" and c: "c \<in> set (window_blocks s)"
    and b: "blocknr_ok b" "b \<notin> table_blocks s" "b \<notin> set (window_blocks s)" and m: "migrated s c b s'"
    and va: "va div 4096 \<in> window_pages s"
  shows "vread s' va = vread s va"
proof -
  let ?v = "va div 4096" and ?o = "va mod 4096"
  have pt: "vmap_pt s' = (vmap_pt s)(window_vpage s c \<mapsto> (b, True))"
    and pm: "pm s' = le_store 8 (mem_copy (pm s) (b * 4096) (c * 4096) 4096) (window_slot s c) b"
    using m by (simp_all add: migrated_def)
  obtain w where w: "vmap_pt s ?v = Some (w, True)" "w \<in> set (window_blocks s)" "window_vpage s w = ?v"
    by (rule window_page_block [OF wf va])
  have out: "pm s' x = mem_copy (pm s) (b * 4096) (c * 4096) 4096 x" if "x div 4096 \<notin> table_blocks s" for x
    unfolding pm using window_slot_table(1) [OF wf c, of x] that by (intro le_store_out) linarith
  have wt: "w \<notin> table_blocks s" using wf w(2) by (simp add: vmap_wf_def)
  have dm: "(y * 4096 + ?o) div 4096 = y" for y by simp
  show ?thesis
  proof (cases "?v = window_vpage s c")
    case True
    obtain w' where w': "vmap_pt s ?v = Some (w', True)" "w' \<in> set (window_blocks s)" by (rule window_page_block [OF wf va])
    have cv: "window_vpage s c \<in> window_pages s \<and> vmap_pt s (window_vpage s c) = Some (c, True)"
      using window_place [OF wf c] wf by cases (auto simp: vmap_wf_def window_pages_def)
    with True w(1) have "w = c" by simp
    moreover have "pm s' (b * 4096 + ?o) = pm s (c * 4096 + ?o)"
      using out [of "b * 4096 + ?o"] b(2) mem_copy_in [of ?o 4096 "pm s" "b * 4096" "c * 4096"] by (simp add: dm)
    ultimately show ?thesis using True w(1) by (simp add: vread_def pt)
  next
    case False
    have "w \<noteq> b" using w(2) b(3) by auto
    then have "pm s' (w * 4096 + ?o) = pm s (w * 4096 + ?o)"
      using out [of "w * 4096 + ?o"] wt copy_other_block [of "w * 4096 + ?o" b] by (simp add: dm)
    with False w(1) show ?thesis by (simp add: vread_def pt)
  qed
qed

context fs_allocator
begin

text \<open>The wear levelling of a window page under either allocator.\<close>

theorem level_type_vmap_transparent:
  assumes wf: "vmap_wf s" and phys: "4096 dvd phys_addr s" and c: "c \<in> set (window_blocks s)"
    and inv: "invar s" and sep: "avail s \<inter> (set (window_blocks s) \<union> table_blocks s) = {}" and bound: "\<forall>x\<in>avail s. blocknr_ok x"
    and new: "new_block s = (Inr b, s1)" and lev: "level_type_vmap A s (phys_addr s div 4096 + c) = Some s'"
  shows "vmap_wf s'" "window_blocks s' = map (\<lambda>x. if x = c then b else x) (window_blocks s)"
    "va div 4096 \<in> window_pages s \<Longrightarrow> vread s' va = vread s va"
proof -
  have bav: "b \<in> avail s" using new_ok [OF inv new] by simp
  with sep bound have b: "blocknr_ok b" "b \<notin> table_blocks s" "b \<notin> set (window_blocks s)" by auto
  have "\<exists>p. vmap_pt s (window_vpage s c) = Some p"
    using window_place [OF wf c] wf by cases (auto simp: vmap_wf_def)
  then obtain p where p: "vmap_pt s (window_vpage s c) = Some p" ..
  have ok: "windows_apart s" "blocknr_ok (head_blocknr s)" "blocknr_ok c" and bc: "b \<noteq> c"
    using wf c b by (auto simp: vmap_wf_def)
  have m: "migrated s c b s'"
    by (rule level_type_vmap_migrates [OF ok(1,2) phys ok(3) new b(1) bc p lev])
  show "vmap_wf s'" "window_blocks s' = map (\<lambda>x. if x = c then b else x) (window_blocks s)"
    by (rule migrated_wf [OF wf c b m])+
  show "va div 4096 \<in> window_pages s \<Longrightarrow> vread s' va = vread s va"
    by (rule migrated_vread [OF wf c b m])
qed

end

section \<open>A full device under the first-fit allocator\<close>

lemma list_state_cong:
  assumes "block_inuse_head t = block_inuse_head s" "block_start t = block_start s" "block_end t = block_end s"
    "num_free_blocks t = num_free_blocks s" "num_blocknode_allocated t = num_blocknode_allocated s"
  shows "list_inv t = list_inv s" "list_avail t = list_avail s" "list_may_free t = list_may_free s"
  using assms by (simp_all add: list_inv_def list_avail_def list_may_free_def fun_eq_iff)

text \<open>
  \<^verbatim>\<open>pmfs_new_block\<close> reports a full device with \<^verbatim>\<open>-ENOSPC\<close>, which \<^verbatim>\<open>_level_type_vmap\<close> does not check:
  it goes on with the tired block as its own replacement and then releases it, while the window still
  shows it.
\<close>

lemma level_type_vmap_full:
  assumes wf: "vmap_wf s" and phys: "4096 dvd phys_addr s" and c: "c \<in> set (window_blocks s)"
    and inv: "list_inv s" "kmem_ok s" "list_may_free s c 1"
    and full: "pmfs_new_block s 0 False = (Inl ENOSPC, s)"
  shows "\<exists>s'. level_type_vmap pmfs_allocator s (phys_addr s div 4096 + c) = Some s' \<and> c \<in> list_avail s' \<and>
    vmap_pt s' (window_vpage s c) = Some (c, True)"
proof -
  have ok: "windows_apart s" "blocknr_ok (head_blocknr s)" "blocknr_ok c" using wf c by (auto simp: vmap_wf_def)
  have "\<exists>p. vmap_pt s (window_vpage s c) = Some p"
    using wf c by (cases rule: window_place) (use wf in \<open>auto simp: vmap_wf_def\<close>)
  then obtain p where p: "vmap_pt s (window_vpage s c) = Some p" ..
  have n1: "pmfs_get_pfn s (c * 4096) - phys_addr s div 4096 = c" using get_pfn_block [OF phys] by simp
  have n2: "unat (wb_make (c * 4096) 0) = c * 4096" using ok(3) by (simp add: unat_wb_make_0)
  have n4: "pmfs_get_block s (c * 4096) = virt_addr s + c * 4096" using ok(3) by (simp add: pmfs_get_block_def)
  have s3: "s\<lparr>page_index := page_index s\<rparr> = s" "mark_page s c (page_private s c) = s"
    by (simp_all add: mark_page_eq)
  have marks: "wpmfs_page_marks s c = page_private s c"
    by (simp add: wpmfs_page_marks_def)
  have pte: "get_vmalloc_pte s (pfn_to_vaddr s c) = Some p"
    using p by (simp add: get_vmalloc_pte_def pfn_to_vaddr_page [OF ok(1)])
  note slot = reget_slot_eq [OF ok(2), of c]
  define s7 where "s7 = set_pte_atomic (snd (PM_EQU_NO_INT 8 (memcpy_page
      (set_pte_atomic s (pfn_to_vaddr s c) (fst p, False)) (c * 4096) (c * 4096) False) (window_slot s c) c))
      (pfn_to_vaddr s c) (c, True)"
  obtain t where t: "snd (PM_EQU_NO_INT 8 (set_pte_atomic s (pfn_to_vaddr s c) (fst p, False)) (window_slot s c) c)
      = (set_pte_atomic s (pfn_to_vaddr s c) (fst p, False))
          \<lparr>pm := le_store 8 (pm s) (window_slot s c) c, wt_cnt := t\<rparr>"
    unfolding PM_EQU_NO_INT_def set_pte_atomic_sel using wt_track_intless_only by blast
  have sel: "block_inuse_head s7 = block_inuse_head s" "block_start s7 = block_start s" "block_end s7 = block_end s"
    "num_free_blocks s7 = num_free_blocks s" "num_blocknode_allocated s7 = num_blocknode_allocated s"
    "kmem_ok s7 = kmem_ok s" "phys_addr s7 = phys_addr s"
    "vmap_pt s7 (window_vpage s c) = Some (c, True)"
    by (simp_all add: s7_def memcpy_page_def t pfn_to_vaddr_page [OF ok(1)], simp_all add: set_pte_atomic_def)
  have nr: "wpmfs_get_blocknr s7 (phys_addr s div 4096 + c) = c"
    using get_blocknr_pfn [of s7 c] phys sel(7) by simp
  have "level_type_vmap pmfs_allocator s (phys_addr s div 4096 + c) =
      level_type_vmap_to pmfs_allocator s (phys_addr s div 4096 + c) (virt_addr s + c * 4096) c"
    using ok full phys by (simp add: level_type_vmap_def blockoff_direct get_blocknr_pfn n2 n4 pmfs_allocator_def)
  also have "\<dots> = af_free_block pmfs_allocator s7 c 0"
    using ok(3) by (simp add: level_type_vmap_to_def blockoff_direct n1 n2 n4 Let_def marks s3 pte slot
        s7_def [symmetric] nr)
  also have "\<dots> = Some (pmfs_free_block s7 c 0)" by (simp add: pmfs_allocator_def)
  finally have lev: "level_type_vmap pmfs_allocator s (phys_addr s div 4096 + c) = Some (pmfs_free_block s7 c 0)" .
  have "c \<in> list_avail (pmfs_free_block s7 c 0)"
    using pmfs_free_block_sound [of s7 c 0] inv list_state_cong [OF sel(1-5)] sel(6) by auto
  with lev sel(8) show ?thesis by (simp add: pmfs_free_block_frame)
qed

end
