(* ===== verification/Journal.thy ===== *)
theory Journal
  imports PmBytes
begin

text \<open>
  The journal (\<^verbatim>\<open>journal.c\<close>, \<^verbatim>\<open>journal.h\<close>).  A transaction reserves a run of 64-byte log entries
  at the journal's tail, logs the old bytes of a range before it is changed (undo mode, the mode
  \<^verbatim>\<open>pmfs_journal_hard_init\<close> selects) and ends with a commit or abort entry.  Recovery walks back from
  the tail and undoes the transactions without such an entry; in redo mode it walks forward and
  repeats the committed ones.

  State: the bytes the journal protects by virtual address (\<open>jmem\<close>), the log area by offset from
  \<^verbatim>\<open>journal_base_addr\<close> (\<open>jlog\<close>, an entry at each multiple of 64; an entry pointer is its offset), the
  persistent header and the volatile fields of \<^verbatim>\<open>pmfs_sb_info\<close>.  The three areas do not overlap.
  Stores take effect in program order, which is the order the flushes and fences of the code enforce
  between the entry, its \<^verbatim>\<open>gen_id\<close> and the data; the flushes themselves and the write counters
  (\<open>WriteTrack\<close>) are not part of this state.  \<^verbatim>\<open>addressing\<close> holds the translation between addresses and
  block offsets (\<^verbatim>\<open>wpmfs_get_block\<close>, \<^verbatim>\<open>wpmfs_reget_blockoff\<close>).
\<close>

section \<open>Data\<close>

abbreviation LOGENTRY_SIZE :: nat where "LOGENTRY_SIZE \<equiv> 64"
abbreviation MAX_DATA_PER_LENTRY :: nat where "MAX_DATA_PER_LENTRY \<equiv> 48"
abbreviation LE_DATA :: "8 word" where "LE_DATA \<equiv> 0"
abbreviation LE_START :: "8 word" where "LE_START \<equiv> 1"
abbreviation LE_COMMIT :: "8 word" where "LE_COMMIT \<equiv> 2"
abbreviation LE_ABORT :: "8 word" where "LE_ABORT \<equiv> 4"
abbreviation MAX_GEN_ID :: "16 word" where "MAX_GEN_ID \<equiv> - 1"

record pmfs_logentry =
  addr_offset :: "64 word"
  transaction_id :: "32 word"
  le_gen_id :: "16 word"
  le_type :: "8 word"
  le_size :: nat
  le_data :: "8 word list"

record pmfs_transaction =
  t_transaction_id :: "32 word"
  num_entries :: nat
  num_used :: nat
  t_gen_id :: "16 word"
  start_addr :: nat

record pmfs_journal =
  j_base :: nat
  j_size :: nat
  j_head :: nat
  j_tail :: nat
  j_gen_id :: "16 word"
  redo_logging :: "16 word"

record jstate =
  jmem :: "nat \<Rightarrow> 8 word"
  jlog :: "nat \<Rightarrow> pmfs_logentry"
  journal :: pmfs_journal
  jsize :: nat
  redo_log :: bool
  next_transaction_id :: "32 word"
  jkmem_ok :: bool

record addressing =
  get_block_of :: "64 word \<Rightarrow> nat"
  blockoff_of :: "nat \<Rightarrow> 64 word"

definition mem_read :: "(nat \<Rightarrow> 8 word) \<Rightarrow> nat \<Rightarrow> nat \<Rightarrow> 8 word list" where
  "mem_read m a n = map m [a..<a + n]"

definition mem_write :: "(nat \<Rightarrow> 8 word) \<Rightarrow> nat \<Rightarrow> 8 word list \<Rightarrow> (nat \<Rightarrow> 8 word)" where
  "mem_write m a bs = (\<lambda>x. if a \<le> x \<and> x < a + length bs then bs ! (x - a) else m x)"

definition set_entry :: "nat \<Rightarrow> (pmfs_logentry \<Rightarrow> pmfs_logentry) \<Rightarrow> jstate \<Rightarrow> jstate" where
  "set_entry le f s = s\<lparr>jlog := (jlog s)(le := f (jlog s le))\<rparr>"

section \<open>Stepping through the log\<close>

definition next_log_entry :: "nat \<Rightarrow> nat \<Rightarrow> nat" where
  "next_log_entry jsz le_off =
     (let le_off = le_off + LOGENTRY_SIZE in if le_off \<ge> jsz then 0 else le_off)"

definition prev_log_entry :: "nat \<Rightarrow> nat \<Rightarrow> nat" where
  "prev_log_entry jsz le_off =
     (let le_off = (if le_off = 0 then jsz else le_off) in le_off - LOGENTRY_SIZE)"

definition next_gen_id :: "16 word \<Rightarrow> 16 word" where
  "next_gen_id gen_id = (let gen_id = gen_id + 1 in if gen_id = 0 then gen_id + 1 else gen_id)"

definition prev_gen_id :: "16 word \<Rightarrow> 16 word" where
  "prev_gen_id gen_id = (let gen_id = gen_id - 1 in if gen_id = 0 then gen_id - 1 else gen_id)"

section \<open>Undo, flush, invalidate, redo\<close>

definition copy_entry_data :: "addressing \<Rightarrow> pmfs_logentry \<Rightarrow> jstate \<Rightarrow> jstate" where
  "copy_entry_data E le s =
     s\<lparr>jmem := mem_write (jmem s) (get_block_of E (addr_offset le)) (take (le_size le) (le_data le))\<rparr>"

definition pmfs_undo_logentry :: "addressing \<Rightarrow> nat \<Rightarrow> jstate \<Rightarrow> jstate" where
  "pmfs_undo_logentry E le s =
     (if le_size (jlog s le) > 0 then copy_entry_data E (jlog s le) s else s)"

definition pmfs_undo_transaction :: "addressing \<Rightarrow> pmfs_transaction \<Rightarrow> jstate \<Rightarrow> jstate" where
  "pmfs_undo_transaction E tx s =
     for_steps (\<lambda>i s. let le = start_addr tx + i * LOGENTRY_SIZE
        in if t_gen_id tx = le_gen_id (jlog s le) then pmfs_undo_logentry E le s else s)
       (rev [0..<num_used tx]) s"

definition pmfs_flush_transaction :: "addressing \<Rightarrow> pmfs_transaction \<Rightarrow> jstate \<Rightarrow> jstate" where
  "pmfs_flush_transaction E tx s =
     for_loop (\<lambda>i s. let le = start_addr tx + i * LOGENTRY_SIZE
        in if le_size (jlog s le) \<noteq> 0 \<and> redo_log s then copy_entry_data E (jlog s le) s else s)
       0 (num_used tx) s"

definition invalidate_gen_id :: "nat \<Rightarrow> jstate \<Rightarrow> jstate" where
  "invalidate_gen_id le s = set_entry le (\<lambda>e. e\<lparr>le_gen_id := 0\<rparr>) s"

definition pmfs_invalidate_logentries :: "pmfs_transaction \<Rightarrow> jstate \<Rightarrow> jstate" where
  "pmfs_invalidate_logentries tx s =
     for_loop (\<lambda>i. invalidate_gen_id (start_addr tx + i * LOGENTRY_SIZE)) 0 (num_entries tx) s"

definition pmfs_redo_transaction :: "addressing \<Rightarrow> pmfs_transaction \<Rightarrow> bool \<Rightarrow> jstate \<Rightarrow> jstate" where
  "pmfs_redo_transaction E tx recover s =
     for_loop (\<lambda>i s. let le = start_addr tx + i * LOGENTRY_SIZE
        in if t_gen_id tx = le_gen_id (jlog s le) \<and> le_size (jlog s le) > 0 \<and> recover
           then copy_entry_data E (jlog s le) s else s)
       0 (num_entries tx) s"

section \<open>Recovering one transaction (undo mode)\<close>

text \<open>
  The backward scan of \<^verbatim>\<open>pmfs_recover_transaction\<close>: the result is the transaction found, the two
  flags, the entry pointer and the tail reached.  \<open>None\<close> is the \<^verbatim>\<open>BUG_ON\<close>.
\<close>

record scan_result =
  sc_trans :: pmfs_transaction
  sc_cmt_or_abrt :: bool
  sc_start :: bool
  sc_le :: nat
  sc_tail :: nat

function recover_scan ::
    "jstate \<Rightarrow> nat \<Rightarrow> nat \<Rightarrow> nat \<Rightarrow> pmfs_transaction \<Rightarrow> bool \<Rightarrow> scan_result option" where
  "recover_scan s head tail le tx cmt_or_abrt_found =
     (let tx = tx\<lparr>num_entries := num_entries tx + 1, num_used := num_used tx + 1\<rparr>;
          gen_id = t_gen_id tx;
          valid = (gen_id = le_gen_id (jlog s le));
          cmt = (if valid \<and> (le_type (jlog s le) AND LE_COMMIT \<noteq> 0 \<or> le_type (jlog s le) AND LE_ABORT \<noteq> 0)
                 then True else cmt_or_abrt_found)
      in if valid \<and> le_type (jlog s le) AND LE_START \<noteq> 0 then
           Some \<lparr>sc_trans = tx\<lparr>start_addr := le\<rparr>, sc_cmt_or_abrt = cmt, sc_start = True, sc_le = le, sc_tail = tail\<rparr>
         else if tail = 0 \<or> tail = head then
           Some \<lparr>sc_trans = tx, sc_cmt_or_abrt = cmt, sc_start = False, sc_le = le, sc_tail = tail\<rparr>
         else
           let le' = le - LOGENTRY_SIZE
           in if gen_id = le_gen_id (jlog s le')
                 \<and> (le_type (jlog s le') AND LE_COMMIT \<noteq> 0 \<or> le_type (jlog s le') AND LE_ABORT \<noteq> 0) then
                (if t_transaction_id tx = transaction_id (jlog s le') then None
                 else Some \<lparr>sc_trans = tx, sc_cmt_or_abrt = cmt, sc_start = False, sc_le = le, sc_tail = tail\<rparr>)
              else recover_scan s head (prev_log_entry (jsize s) tail) le' tx cmt)"
  by pat_completeness auto
termination
  by (relation "measure (\<lambda>(s, head, tail, le, tx, c). tail)") (auto simp: prev_log_entry_def Let_def)

declare recover_scan.simps [simp del]

definition pmfs_recover_transaction :: "addressing \<Rightarrow> nat \<Rightarrow> nat \<Rightarrow> nat \<Rightarrow> jstate \<Rightarrow> (nat \<times> jstate) option" where
  "pmfs_recover_transaction E head tail le s =
     (let gen_id = le_gen_id (jlog s le);
          tx = \<lparr>t_transaction_id = transaction_id (jlog s le), num_entries = 0, num_used = 0,
                   t_gen_id = gen_id, start_addr = 0\<rparr>
      in case recover_scan s head tail le tx False of
           None \<Rightarrow> None
         | Some r \<Rightarrow>
             let s1 = (if sc_start r \<and> \<not> sc_cmt_or_abrt r then pmfs_undo_transaction E (sc_trans r) s else s);
                 tx1 = (if sc_start r then sc_trans r else (sc_trans r)\<lparr>start_addr := sc_le r\<rparr>);
                 s2 = (if gen_id = MAX_GEN_ID then pmfs_invalidate_logentries tx1 s1 else s1)
             in Some (sc_tail r, s2))"

section \<open>Processing one transaction (cleaner, redo recovery)\<close>

text \<open>
  The loop of \<^verbatim>\<open>pmfs_process_transaction\<close>, which advances \<open>new_head\<close> by one entry a round until the
  transaction's end, another start or the tail.  \<open>fuel\<close> bounds the rounds; \<open>None\<close> is its end.  The
  result is the head and the number of entries handled.
\<close>

primrec process_loop :: "nat \<Rightarrow> addressing \<Rightarrow> nat \<Rightarrow> bool \<Rightarrow> nat \<Rightarrow> nat \<Rightarrow> nat \<Rightarrow> pmfs_transaction \<Rightarrow> nat \<Rightarrow> jstate \<Rightarrow>
    (nat \<times> nat \<times> jstate) option" where
  "process_loop 0 E tail recover head new_head le tx handled s = None"
| "process_loop (Suc fuel) E tail recover head new_head le tx handled s =
     (let tx = tx\<lparr>num_entries := num_entries tx + 1, num_used := num_used tx + 1\<rparr>;
          new_head = next_log_entry (jsize s) new_head;
          handled = handled + 1;
          gen_id = t_gen_id tx
      in if gen_id = le_gen_id (jlog s le)
            \<and> (le_type (jlog s le) AND LE_COMMIT \<noteq> 0 \<or> le_type (jlog s le) AND LE_ABORT \<noteq> 0) then
           let s1 = (if le_type (jlog s le) AND LE_COMMIT \<noteq> 0 \<and> redo_log s
                     then pmfs_redo_transaction E tx recover s else s);
               s2 = (if gen_id = MAX_GEN_ID then pmfs_invalidate_logentries tx s1 else s1)
           in Some (new_head, handled, s2)
         else
           let le' = next_log_entry (jsize s) le
           in if new_head = tail \<or> (gen_id = le_gen_id (jlog s le') \<and> le_type (jlog s le') AND LE_START \<noteq> 0) then
                (if recover then
                   Some (new_head, handled,
                         if gen_id = MAX_GEN_ID then pmfs_invalidate_logentries tx s else s)
                 else Some (head, handled, s))
              else process_loop fuel E tail recover head new_head le' tx handled s)"

definition pmfs_process_transaction ::
    "addressing \<Rightarrow> nat \<Rightarrow> nat \<Rightarrow> nat \<Rightarrow> bool \<Rightarrow> jstate \<Rightarrow> (nat \<times> nat \<times> jstate) option" where
  "pmfs_process_transaction E head tail le recover s =
     (if le_type (jlog s le) AND LE_START = 0 then Some (next_log_entry (jsize s) head, 0, s)
      else process_loop (jsize s) E tail recover head head le
             \<lparr>t_transaction_id = transaction_id (jlog s le), num_entries = 0, num_used = 0,
              t_gen_id = le_gen_id (jlog s le), start_addr = le\<rparr> 0 s)"

section \<open>The log cleaner\<close>

text \<open>
  The loop over the live entries, shared in shape by the cleaner (\<open>recover = False\<close>, stops when a
  transaction is not finished and adds up the entries handled) and the redo recovery
  (\<open>recover = True\<close>).
\<close>

primrec clean_loop :: "nat \<Rightarrow> addressing \<Rightarrow> nat \<Rightarrow> nat \<Rightarrow> 16 word \<Rightarrow> nat \<Rightarrow> jstate \<Rightarrow> (nat \<times> nat \<times> jstate) option" where
  "clean_loop 0 E head tail gen_id cnt s = None"
| "clean_loop (Suc fuel) E head tail gen_id cnt s =
     (if head = tail then Some (head, cnt, s)
      else if gen_id = le_gen_id (jlog s head) then
        (case pmfs_process_transaction E head tail head False s of
           None \<Rightarrow> None
         | Some (new_head, processed, s1) \<Rightarrow>
             if new_head = head then Some (head, cnt + processed, s1)
             else clean_loop fuel E new_head tail (if new_head = 0 then next_gen_id gen_id else gen_id)
                    (cnt + processed) s1)
      else
        let s1 = (if gen_id = MAX_GEN_ID then invalidate_gen_id head s else s);
            head' = next_log_entry (jsize s) head
        in clean_loop fuel E head' tail (if head' = 0 then next_gen_id gen_id else gen_id) cnt s1)"

definition pmfs_clean_journal :: "addressing \<Rightarrow> jstate \<Rightarrow> (nat \<times> jstate) option" where
  "pmfs_clean_journal E s =
     (let head = j_head (journal s);
          tail = j_tail (journal s);
          gen_id = (if tail < head then prev_gen_id (j_gen_id (journal s)) else j_gen_id (journal s))
      in case clean_loop (Suc (jsize s)) E head tail gen_id 0 s of
           None \<Rightarrow> None
         | Some (head', cnt, s1) \<Rightarrow> Some (cnt, s1\<lparr>journal := (journal s1)\<lparr>j_head := head'\<rparr>\<rparr>))"

section \<open>Initialisation\<close>

definition pmfs_journal_soft_init :: "jstate \<Rightarrow> jstate" where
  "pmfs_journal_soft_init s =
     s\<lparr>next_transaction_id := 0, jsize := j_size (journal s), redo_log := (redo_logging (journal s) \<noteq> 0)\<rparr>"

definition pmfs_journal_hard_init :: "nat \<Rightarrow> nat \<Rightarrow> jstate \<Rightarrow> jstate" where
  "pmfs_journal_hard_init base sz s =
     pmfs_journal_soft_init
       (s\<lparr>journal := (journal s)\<lparr>j_base := base, j_size := sz, j_gen_id := 1, j_head := 0, j_tail := 0,
                                 redo_logging := 0\<rparr>,
          jlog := (\<lambda>off. if off < sz
                         then \<lparr>addr_offset = 0, transaction_id = 0, le_gen_id = 0, le_type = 0, le_size = 0,
                               le_data = replicate MAX_DATA_PER_LENTRY 0\<rparr>
                         else jlog s off)\<rparr>)"

section \<open>Starting a transaction\<close>

definition pmfs_free_logentries :: "addressing \<Rightarrow> jstate \<Rightarrow> (nat \<times> jstate) option" where
  "pmfs_free_logentries E s =
     (case pmfs_clean_journal E s of
        None \<Rightarrow> None | Some (freed_entries, s1) \<Rightarrow> Some (LOGENTRY_SIZE * freed_entries, s1))"

text \<open>The three tries of the cleaner; the sum of what it reports as freed.\<close>

primrec free_retry :: "nat \<Rightarrow> addressing \<Rightarrow> nat \<Rightarrow> nat \<Rightarrow> nat \<Rightarrow> jstate \<Rightarrow> (nat \<times> jstate) option" where
  "free_retry 0 E avail_size req_size freed_size s = Some (freed_size, s)"
| "free_retry (Suc tries) E avail_size req_size freed_size s =
     (case pmfs_free_logentries E s of
        None \<Rightarrow> None
      | Some (freed, s1) \<Rightarrow>
          if avail_size + (freed_size + freed) \<ge> req_size then Some (freed_size + freed, s1)
          else free_retry tries E avail_size req_size (freed_size + freed) s1)"

text \<open>
  From \<^verbatim>\<open>again\<close> on: \<open>head\<close> is the value read before, which the cleaner does not update.  \<open>fuel\<close>
  bounds the jumps back.  The result is \<^verbatim>\<open>-EAGAIN\<close> when the journal is full.
\<close>

primrec new_transaction_again :: "nat \<Rightarrow> addressing \<Rightarrow> nat \<Rightarrow> nat \<Rightarrow> nat \<Rightarrow> pmfs_transaction \<Rightarrow> jstate \<Rightarrow>
    ((errno + pmfs_transaction) \<times> jstate) option" where
  "new_transaction_again 0 E head tail req_size tx s = None"
| "new_transaction_again (Suc fuel) E head tail req_size tx s =
     (let tx = tx\<lparr>t_gen_id := j_gen_id (journal s)\<rparr>;
          avail_size = (if tail \<ge> head then jsize s - (tail - head) else head - tail) - LOGENTRY_SIZE
      in case (if avail_size < req_size then free_retry 3 E avail_size req_size 0 s else Some (0, s)) of
           None \<Rightarrow> None
         | Some (freed_size, s1) \<Rightarrow>
             if avail_size < req_size \<and> avail_size + freed_size < req_size then Some (Inl EAGAIN, s1)
             else
               let base = tail;
                   tail = tail + req_size
               in if tail \<ge> jsize s1 then
                    new_transaction_again fuel E head 0 req_size tx
                      (s1\<lparr>journal := (journal s1)\<lparr>j_tail := 0,
                                                 j_gen_id := next_gen_id (j_gen_id (journal s1))\<rparr>\<rparr>)
                  else Some (Inr (tx\<lparr>start_addr := base\<rparr>), s1\<lparr>journal := (journal s1)\<lparr>j_tail := tail\<rparr>\<rparr>))"

definition pmfs_new_transaction :: "addressing \<Rightarrow> nat \<Rightarrow> jstate \<Rightarrow> ((errno + pmfs_transaction) \<times> jstate) option" where
  "pmfs_new_transaction E max_log_entries s =
     (let max_log_entries = (if \<not> redo_log s then max_log_entries + 1 else max_log_entries)
      in if \<not> jkmem_ok s then Some (Inl ENOMEM, s)
      else
        let req_size = max_log_entries * LOGENTRY_SIZE;
            tx = \<lparr>t_transaction_id = next_transaction_id s, num_entries = max_log_entries, num_used = 0,
                  t_gen_id = 0, start_addr = 0\<rparr>;
            s1 = s\<lparr>next_transaction_id := next_transaction_id s + 1\<rparr>
        in new_transaction_again 3 E (j_head (journal s)) (j_tail (journal s)) req_size tx s1)"

section \<open>Logging\<close>

text \<open>
  The stores of one round of \<^verbatim>\<open>pmfs_add_logentry\<close>, in program order, up to the \<^verbatim>\<open>gen_id\<close> that makes
  the entry valid.  \<open>first\<close> is the test for the first entry of the transaction.
\<close>

definition entry_stores :: "pmfs_transaction \<Rightarrow> nat \<Rightarrow> 64 word \<Rightarrow> nat \<Rightarrow> nat \<Rightarrow> 8 word \<Rightarrow> bool \<Rightarrow> (jstate \<Rightarrow> jstate) list" where
  "entry_stores tx le le_start addr sz type first =
     [set_entry le (\<lambda>e. e\<lparr>addr_offset := le_start\<rparr>),
      set_entry le (\<lambda>e. e\<lparr>transaction_id := t_transaction_id tx\<rparr>),
      set_entry le (\<lambda>e. e\<lparr>le_size := sz\<rparr>),
      (\<lambda>s. if sz \<noteq> 0 then set_entry le (\<lambda>e. e\<lparr>le_data := mem_read (jmem s) addr sz @ drop sz (le_data e)\<rparr>) s else s),
      set_entry le (\<lambda>e. e\<lparr>le_type := type\<rparr>),
      (\<lambda>s. if first then set_entry le (\<lambda>e. e\<lparr>le_type := le_type e OR LE_START\<rparr>) s else s)]"

definition valid_store :: "pmfs_transaction \<Rightarrow> nat \<Rightarrow> jstate \<Rightarrow> jstate" where
  "valid_store tx le = set_entry le (\<lambda>e. e\<lparr>le_gen_id := t_gen_id tx\<rparr>)"

text \<open>\<^verbatim>\<open>pmfs_commit_logentry\<close>: in redo mode the data is written in place after the entry is valid.\<close>

definition commit_stores :: "addressing \<Rightarrow> pmfs_transaction \<Rightarrow> nat \<Rightarrow> bool \<Rightarrow> (jstate \<Rightarrow> jstate) list" where
  "commit_stores E tx le redo =
     (let mark = [set_entry le (\<lambda>e. e\<lparr>le_type := le_type e OR LE_COMMIT\<rparr>), valid_store tx le]
      in if redo then mark @ [pmfs_flush_transaction E tx] else [pmfs_flush_transaction E tx] @ mark)"

definition run_stores :: "(jstate \<Rightarrow> jstate) list \<Rightarrow> jstate \<Rightarrow> jstate" where
  "run_stores fs s = fold (\<lambda>f s. f s) fs s"

text \<open>All stores of a call, and the transaction afterwards.\<close>

function addlog_stores :: "addressing \<Rightarrow> bool \<Rightarrow> pmfs_transaction \<Rightarrow> 64 word \<Rightarrow> nat \<Rightarrow> nat \<Rightarrow> 8 word \<Rightarrow> nat \<Rightarrow> nat \<Rightarrow>
    (jstate \<Rightarrow> jstate) list \<times> pmfs_transaction" where
  "addlog_stores E redo tx le_start addr len type i num_les =
     (if i < num_les then
        let le = start_addr tx + num_used tx * LOGENTRY_SIZE;
            sz = (if i = num_les - 1 then len else MAX_DATA_PER_LENTRY);
            fs = entry_stores tx le le_start addr sz type (i = 0 \<and> num_used tx = 0);
            tx' = tx\<lparr>num_used := num_used tx + 1\<rparr>
        in if i = num_les - 1 \<and> type AND LE_COMMIT \<noteq> 0 then (fs @ commit_stores E tx' le redo, tx')
           else (case addlog_stores E redo tx' (le_start + of_nat sz) (addr + sz) (len - sz) type (i + 1) num_les of
                   (gs, tx'') \<Rightarrow> (fs @ [valid_store tx' le] @ gs, tx''))
      else ([], tx))"
  by pat_completeness auto
termination
  by (relation "measure (\<lambda>(E, redo, tx, ls, a, sz, t, i, n). n - i)") auto

declare addlog_stores.simps [simp del]

definition addlog_entries :: "nat \<Rightarrow> 8 word \<Rightarrow> nat" where
  "addlog_entries len type =
     (if len = 0 then (if type AND LE_COMMIT \<noteq> 0 \<or> type AND LE_ABORT \<noteq> 0 then 1 else 0)
      else (len + MAX_DATA_PER_LENTRY - 1) div MAX_DATA_PER_LENTRY)"

definition pmfs_add_logentry ::
    "addressing \<Rightarrow> pmfs_transaction \<Rightarrow> nat \<Rightarrow> nat \<Rightarrow> 8 word \<Rightarrow> jstate \<Rightarrow> (errno + pmfs_transaction) \<times> jstate" where
  "pmfs_add_logentry E tx addr len type s =
     (let le_start = (if len \<noteq> 0 then blockoff_of E addr else 0);
          num_les = addlog_entries len type
      in if num_used tx + num_les > num_entries tx then (Inl ENOMEM, s)
      else case addlog_stores E (redo_log s) tx le_start addr len type 0 num_les of
             (fs, tx') \<Rightarrow> (Inr tx', run_stores fs s))"

text \<open>Neither end of a transaction looks at the result of its log entry.\<close>

definition pmfs_commit_transaction :: "addressing \<Rightarrow> pmfs_transaction \<Rightarrow> jstate \<Rightarrow> jstate" where
  "pmfs_commit_transaction E tx s = snd (pmfs_add_logentry E tx 0 0 LE_COMMIT s)"

definition pmfs_abort_transaction :: "addressing \<Rightarrow> pmfs_transaction \<Rightarrow> jstate \<Rightarrow> jstate" where
  "pmfs_abort_transaction E tx s =
     (let s1 = (if \<not> redo_log s then pmfs_undo_transaction E tx s else s)
      in snd (pmfs_add_logentry E tx 0 0 LE_ABORT s1))"

section \<open>Recovery\<close>

function invalidate_remaining_journal :: "nat \<Rightarrow> nat \<Rightarrow> jstate \<Rightarrow> jstate" where
  "invalidate_remaining_journal jtail jsz s =
     (if jtail < jsz then invalidate_remaining_journal (jtail + LOGENTRY_SIZE) jsz (invalidate_gen_id jtail s)
      else s)"
  by pat_completeness auto
termination
  by (relation "measure (\<lambda>(t, n, s). n - t)") auto

declare invalidate_remaining_journal.simps [simp del]

definition pmfs_forward_journal :: "jstate \<Rightarrow> jstate" where
  "pmfs_forward_journal s =
     (let gen_id = j_gen_id (journal s);
          s1 = (if gen_id = MAX_GEN_ID then invalidate_remaining_journal (j_tail (journal s)) (jsize s) s else s);
          s2 = s1\<lparr>journal := (journal s1)\<lparr>j_gen_id := next_gen_id gen_id\<rparr>\<rparr>
      in s2\<lparr>journal := (journal s2)\<lparr>j_head := j_tail (journal s2)\<rparr>\<rparr>)"

text \<open>The loop of \<^verbatim>\<open>pmfs_recover_undo_journal\<close>; \<open>fuel\<close> bounds the rounds.\<close>

primrec undo_loop :: "nat \<Rightarrow> addressing \<Rightarrow> nat \<Rightarrow> nat \<Rightarrow> 16 word \<Rightarrow> jstate \<Rightarrow> jstate option" where
  "undo_loop 0 E head tail gen_id s = None"
| "undo_loop (Suc fuel) E head tail gen_id s =
     (if head = tail then Some s
      else
        let gen_id = (if tail = 0 then prev_gen_id gen_id else gen_id);
            tail = prev_log_entry (jsize s) tail
        in if gen_id = le_gen_id (jlog s tail) then
             (case pmfs_recover_transaction E head tail tail s of
                None \<Rightarrow> None | Some (tail', s1) \<Rightarrow> undo_loop fuel E head tail' gen_id s1)
           else undo_loop fuel E head tail gen_id
                  (if gen_id = MAX_GEN_ID then invalidate_gen_id tail s else s))"

definition pmfs_recover_undo_journal :: "addressing \<Rightarrow> jstate \<Rightarrow> jstate option" where
  "pmfs_recover_undo_journal E s =
     (case undo_loop (Suc (jsize s)) E (j_head (journal s)) (j_tail (journal s)) (j_gen_id (journal s)) s of
        None \<Rightarrow> None | Some s1 \<Rightarrow> Some (pmfs_forward_journal s1))"

primrec redo_loop :: "nat \<Rightarrow> addressing \<Rightarrow> nat \<Rightarrow> nat \<Rightarrow> 16 word \<Rightarrow> jstate \<Rightarrow> jstate option" where
  "redo_loop 0 E head tail gen_id s = None"
| "redo_loop (Suc fuel) E head tail gen_id s =
     (if head = tail then Some s
      else if gen_id = le_gen_id (jlog s head) then
        (case pmfs_process_transaction E head tail head True s of
           None \<Rightarrow> None
         | Some (head', _, s1) \<Rightarrow>
             redo_loop fuel E head' tail (if head' = 0 then next_gen_id gen_id else gen_id) s1)
      else
        let s1 = (if gen_id = MAX_GEN_ID then invalidate_gen_id head s else s);
            head' = next_log_entry (jsize s) head
        in redo_loop fuel E head' tail (if head' = 0 then next_gen_id gen_id else gen_id) s1)"

definition pmfs_recover_redo_journal :: "addressing \<Rightarrow> jstate \<Rightarrow> jstate option" where
  "pmfs_recover_redo_journal E s =
     (let gen_id = (if j_tail (journal s) < j_head (journal s) then prev_gen_id (j_gen_id (journal s))
                    else j_gen_id (journal s))
      in case redo_loop (Suc (jsize s)) E (j_head (journal s)) (j_tail (journal s)) gen_id s of
           None \<Rightarrow> None | Some s1 \<Rightarrow> Some (pmfs_forward_journal s1))"

definition pmfs_recover_journal :: "addressing \<Rightarrow> jstate \<Rightarrow> jstate option" where
  "pmfs_recover_journal E s =
     (if j_head (journal s) = j_tail (journal s) then Some s
      else if redo_log s then pmfs_recover_redo_journal E s else pmfs_recover_undo_journal E s)"

end
