(* ===== verification/JournalUndo.thy ===== *)
theory JournalUndo
  imports Journal
begin

text \<open>
  Undo-log recovery.  The log between head and tail is a sequence of segments, one per transaction:
  the entries it has written, then the reserved entries it has not (their generation differs).
  \<^verbatim>\<open>pmfs_recover_undo_journal\<close> is shown to undo exactly the segments without a commit or abort entry,
  the last reserved one first, across the wrap of the log.
\<close>

section \<open>Stepping: lemmas\<close>

lemma prev_next_log_entry:
  "64 dvd jsz \<Longrightarrow> 64 dvd off \<Longrightarrow> off < jsz \<Longrightarrow> prev_log_entry jsz (next_log_entry jsz off) = off"
  by (auto simp: prev_log_entry_def next_log_entry_def Let_def elim!: dvdE)

lemma next_prev_log_entry:
  "64 dvd jsz \<Longrightarrow> 64 dvd off \<Longrightarrow> off < jsz \<Longrightarrow> next_log_entry jsz (prev_log_entry jsz off) = off"
  by (auto simp: prev_log_entry_def next_log_entry_def Let_def elim!: dvdE)

lemma next_log_entry_bound: "0 < jsz \<Longrightarrow> next_log_entry jsz off < jsz"
  by (auto simp: next_log_entry_def Let_def)

lemma prev_log_entry_pos: "0 < tail \<Longrightarrow> prev_log_entry jsz tail = tail - 64"
  by (simp add: prev_log_entry_def Let_def)

lemma next_gen_id_nonzero: "next_gen_id g \<noteq> 0"
  by (simp add: next_gen_id_def Let_def)

lemma prev_next_gen_id: "g \<noteq> 0 \<Longrightarrow> prev_gen_id (next_gen_id g) = g"
  by (auto simp: next_gen_id_def prev_gen_id_def Let_def algebra_simps dest: minus_unique)

lemma next_prev_gen_id: "g \<noteq> 0 \<Longrightarrow> next_gen_id (prev_gen_id g) = g"
  by (auto simp: next_gen_id_def prev_gen_id_def Let_def)

section \<open>Undo as a function of the memory\<close>

lemma mem_write_in [simp]: "i < length bs \<Longrightarrow> mem_write m a bs (a + i) = bs ! i"
  by (simp add: mem_write_def)

lemma mem_write_out: "x < a \<or> a + length bs \<le> x \<Longrightarrow> mem_write m a bs x = m x"
  by (auto simp: mem_write_def)

lemma length_mem_read [simp]: "length (mem_read m a n) = n"
  by (simp add: mem_read_def)

lemma mem_write_read [simp]: "mem_write m a (mem_read m a n) = m"
  by (auto simp: mem_write_def mem_read_def fun_eq_iff)

definition undo_entry :: "addressing \<Rightarrow> pmfs_logentry \<Rightarrow> (nat \<Rightarrow> 8 word) \<Rightarrow> (nat \<Rightarrow> 8 word)" where
  "undo_entry E e m =
     (if le_size e > 0 then mem_write m (get_block_of E (addr_offset e)) (take (le_size e) (le_data e)) else m)"

text \<open>The entries of a transaction in log order; the last one is undone first.\<close>

primrec undo_mem :: "addressing \<Rightarrow> pmfs_logentry list \<Rightarrow> (nat \<Rightarrow> 8 word) \<Rightarrow> (nat \<Rightarrow> 8 word)" where
  "undo_mem E [] m = m"
| "undo_mem E (e # es) m = undo_entry E e (undo_mem E es m)"

lemma undo_mem_append: "undo_mem E (es @ fs) m = undo_mem E es (undo_mem E fs m)"
  by (induction es) auto

definition entry_range :: "addressing \<Rightarrow> pmfs_logentry \<Rightarrow> nat set" where
  "entry_range E e = {get_block_of E (addr_offset e)..<get_block_of E (addr_offset e) + length (take (le_size e) (le_data e))}"

definition covered :: "addressing \<Rightarrow> pmfs_logentry list \<Rightarrow> nat set" where
  "covered E es = (\<Union>e\<in>set es. entry_range E e)"

lemma covered_simps [simp]:
  "covered E [] = {}" "covered E (es @ fs) = covered E es \<union> covered E fs"
  "covered E (e # es) = entry_range E e \<union> covered E es"
  by (auto simp: covered_def)

lemma undo_entry_cong: "(x \<notin> entry_range E e \<Longrightarrow> m x = m' x) \<Longrightarrow> undo_entry E e m x = undo_entry E e m' x"
  by (auto simp: undo_entry_def entry_range_def mem_write_def)

text \<open>Bytes a transaction has logged may be written freely: the undo does not look at them.\<close>

lemma undo_mem_cong: "(\<And>x. x \<notin> covered E es \<Longrightarrow> m x = m' x) \<Longrightarrow> undo_mem E es m = undo_mem E es m'"
proof
  fix x assume eq: "\<And>x. x \<notin> covered E es \<Longrightarrow> m x = m' x"
  show "undo_mem E es m x = undo_mem E es m' x"
    using eq [of x]
  proof (induction es)
    case (Cons e es)
    show ?case
      unfolding undo_mem.simps
    proof (rule undo_entry_cong)
      assume "x \<notin> entry_range E e"
      with Cons show "undo_mem E es m x = undo_mem E es m' x" by auto
    qed
  qed simp
qed

definition tx_entries :: "pmfs_transaction \<Rightarrow> jstate \<Rightarrow> pmfs_logentry list" where
  "tx_entries tx s = map (\<lambda>i. jlog s (start_addr tx + i * 64)) [0..<num_used tx]"

lemma pmfs_undo_logentry_eq: "pmfs_undo_logentry E le s = s\<lparr>jmem := undo_entry E (jlog s le) (jmem s)\<rparr>"
  by (simp add: pmfs_undo_logentry_def copy_entry_data_def undo_entry_def)

lemma pmfs_undo_transaction_eq:
  assumes "\<forall>e\<in>set (tx_entries tx s). le_gen_id e = t_gen_id tx"
  shows "pmfs_undo_transaction E tx s = s\<lparr>jmem := undo_mem E (tx_entries tx s) (jmem s)\<rparr>"
proof -
  define f where "f = (\<lambda>i s. let le = start_addr tx + i * LOGENTRY_SIZE
        in if t_gen_id tx = le_gen_id (jlog s le) then pmfs_undo_logentry E le s else s)"
  have "for_steps f (rev [0..<k]) (s\<lparr>jmem := m\<rparr>) =
      s\<lparr>jmem := undo_mem E (map (\<lambda>i. jlog s (start_addr tx + i * 64)) [0..<k]) m\<rparr>"
    if "k \<le> num_used tx" for k m
    using that
  proof (induction k arbitrary: m)
    case (Suc k)
    have "le_gen_id (jlog s (start_addr tx + k * 64)) = t_gen_id tx"
      using assms Suc.prems by (auto simp: tx_entries_def)
    then have "f k (s\<lparr>jmem := m\<rparr>) = s\<lparr>jmem := undo_entry E (jlog s (start_addr tx + k * 64)) m\<rparr>"
      by (simp add: f_def Let_def pmfs_undo_logentry_eq)
    with Suc show ?case by (simp add: undo_mem_append)
  qed simp
  from this [of "num_used tx" "jmem s"] show ?thesis
    by (simp add: pmfs_undo_transaction_def f_def tx_entries_def)
qed

section \<open>Invalidation leaves the memory alone\<close>

lemma set_entry_sel [simp]:
  "jmem (set_entry le f s) = jmem s" "journal (set_entry le f s) = journal s" "jsize (set_entry le f s) = jsize s"
  "redo_log (set_entry le f s) = redo_log s" "jlog (set_entry le f s) = (jlog s)(le := f (jlog s le))"
  "next_transaction_id (set_entry le f s) = next_transaction_id s" "jkmem_ok (set_entry le f s) = jkmem_ok s"
  by (simp_all add: set_entry_def)

lemma set_entry_only: "\<exists>l. set_entry le f s = s\<lparr>jlog := l\<rparr> \<and> (\<forall>x. x \<noteq> le \<longrightarrow> l x = jlog s x)"
  by (auto simp: set_entry_def)

lemma invalidate_logentries_only:
  "\<exists>l. pmfs_invalidate_logentries tx s = s\<lparr>jlog := l\<rparr> \<and>
    (\<forall>x. x < start_addr tx \<or> start_addr tx + num_entries tx * 64 \<le> x \<longrightarrow> l x = jlog s x)"
proof -
  have "\<exists>l. for_loop (\<lambda>i. invalidate_gen_id (start_addr tx + i * 64)) 0 n s = s\<lparr>jlog := l\<rparr> \<and>
    (\<forall>x. x < start_addr tx \<or> start_addr tx + n * 64 \<le> x \<longrightarrow> l x = jlog s x)" for n
  proof (induction n)
    case (Suc n)
    then obtain l where l: "for_loop (\<lambda>i. invalidate_gen_id (start_addr tx + i * 64)) 0 n s = s\<lparr>jlog := l\<rparr>"
      "\<forall>x. x < start_addr tx \<or> start_addr tx + n * 64 \<le> x \<longrightarrow> l x = jlog s x" by blast
    let ?a = "start_addr tx + n * 64"
    have "invalidate_gen_id ?a (s\<lparr>jlog := l\<rparr>) = s\<lparr>jlog := l(?a := (l ?a)\<lparr>le_gen_id := 0\<rparr>)\<rparr>"
      by (simp add: invalidate_gen_id_def set_entry_def)
    moreover have "for_loop (\<lambda>i. invalidate_gen_id (start_addr tx + i * 64)) 0 (Suc n) s =
        invalidate_gen_id ?a (s\<lparr>jlog := l\<rparr>)" by (simp add: for_loop_Suc l(1))
    moreover have "\<forall>x. x < start_addr tx \<or> start_addr tx + Suc n * 64 \<le> x \<longrightarrow>
        (l(?a := (l ?a)\<lparr>le_gen_id := 0\<rparr>)) x = jlog s x" using l(2) by auto
    ultimately show ?case by metis
  qed (auto intro!: exI [of _ "jlog s"])
  then show ?thesis unfolding pmfs_invalidate_logentries_def by simp
qed

section \<open>Segments\<close>

definition le_final :: "pmfs_logentry \<Rightarrow> bool" where
  "le_final e \<longleftrightarrow> le_type e AND LE_COMMIT \<noteq> 0 \<or> le_type e AND LE_ABORT \<noteq> 0"

definition le_first :: "pmfs_logentry \<Rightarrow> bool" where
  "le_first e \<longleftrightarrow> le_type e AND LE_START \<noteq> 0"

text \<open>The entries of one transaction: the first, and only the first, is a start entry; only the last may be final.\<close>

definition tx_shape :: "16 word \<Rightarrow> pmfs_logentry list \<Rightarrow> bool" where
  "tx_shape g es \<longleftrightarrow> (\<forall>e\<in>set es. le_gen_id e = g) \<and>
     (\<forall>i<length es. le_first (es ! i) \<longleftrightarrow> i = 0) \<and> (\<forall>i. Suc i < length es \<longrightarrow> \<not> le_final (es ! i))"

definition finished :: "pmfs_logentry list \<Rightarrow> bool" where
  "finished es \<longleftrightarrow> es \<noteq> [] \<and> le_final (last es)"

definition seg_ok :: "jstate \<Rightarrow> 16 word \<Rightarrow> nat \<Rightarrow> nat \<Rightarrow> pmfs_logentry list \<Rightarrow> bool" where
  "seg_ok s g a n es \<longleftrightarrow> length es \<le> n \<and> tx_shape g es \<and> (\<forall>i<length es. jlog s (a + i * 64) = es ! i)
     \<and> (\<forall>i. length es \<le> i \<and> i < n \<longrightarrow> le_gen_id (jlog s (a + i * 64)) \<noteq> g)"

text \<open>The backward scan from the last entry of a segment finds its start.\<close>

lemma recover_scan_down:
  assumes ok: "seg_ok s g a n es" and head: "head \<le> a \<or> a + n * 64 < head"
  shows "k < length es \<Longrightarrow> t_gen_id tx = g \<Longrightarrow> recover_scan s head (a + k * 64) (a + k * 64) tx c =
     Some \<lparr>sc_trans = tx\<lparr>num_entries := num_entries tx + k + 1, num_used := num_used tx + k + 1, start_addr := a\<rparr>,
           sc_cmt_or_abrt = (c \<or> le_final (es ! k)), sc_start = True, sc_le = a, sc_tail = a\<rparr>"
proof (induction k arbitrary: tx c)
  case 0
  then have "jlog s a = es ! 0" "le_gen_id (es ! 0) = g" "le_first (es ! 0)"
    using ok by (auto simp: seg_ok_def tx_shape_def)
  with 0 show ?case
    by (subst recover_scan.simps) (auto simp: Let_def le_first_def le_final_def)
next
  case (Suc k)
  let ?x = "a + Suc k * 64"
  have e: "jlog s ?x = es ! Suc k" "le_gen_id (es ! Suc k) = g" "\<not> le_first (es ! Suc k)"
    "jlog s (a + k * 64) = es ! k" "\<not> le_final (es ! k)"
    using ok Suc.prems by (auto simp: seg_ok_def tx_shape_def simp del: mult_Suc)
  have "Suc k < n" using ok Suc.prems by (simp add: seg_ok_def)
  then have pv: "?x - 64 = a + k * 64" "prev_log_entry (jsize s) ?x = a + k * 64" "?x \<noteq> head" "?x \<noteq> 0"
    using head by (auto simp: prev_log_entry_pos)
  have "recover_scan s head ?x ?x tx c = recover_scan s head (a + k * 64) (a + k * 64)
      (tx\<lparr>num_entries := num_entries tx + 1, num_used := num_used tx + 1\<rparr>) (c \<or> le_final (es ! Suc k))"
    by (subst recover_scan.simps)
      (use Suc.prems e pv in \<open>auto simp: Let_def le_first_def le_final_def simp del: mult_Suc\<close>)
  also have "\<dots> = Some \<lparr>sc_trans = tx\<lparr>num_entries := num_entries tx + Suc k + 1,
           num_used := num_used tx + Suc k + 1, start_addr := a\<rparr>,
           sc_cmt_or_abrt = (c \<or> le_final (es ! Suc k)), sc_start = True, sc_le = a, sc_tail = a\<rparr>"
    using Suc.IH [of "tx\<lparr>num_entries := num_entries tx + 1, num_used := num_used tx + 1\<rparr>"] Suc.prems e(5)
    by simp
  finally show ?case .
qed

lemma recover_transaction_seg:
  assumes ok: "seg_ok s g a n es" and head: "head \<le> a \<or> a + n * 64 < head" and ne: "es \<noteq> []"
  defines "le \<equiv> a + (length es - 1) * 64"
  shows "\<exists>l. pmfs_recover_transaction E head le le s =
      Some (a, s\<lparr>jmem := (if finished es then jmem s else undo_mem E es (jmem s)), jlog := l\<rparr>) \<and>
    (\<forall>x. x < a \<or> a + n * 64 \<le> x \<longrightarrow> l x = jlog s x)"
proof -
  let ?tx = "\<lparr>t_transaction_id = transaction_id (jlog s le), num_entries = 0, num_used = 0,
              t_gen_id = g, start_addr = 0\<rparr>"
  let ?t = "\<lparr>t_transaction_id = transaction_id (jlog s le), num_entries = length es, num_used = length es,
              t_gen_id = g, start_addr = a\<rparr>"
  have k: "length es - 1 < length es" using ne by simp
  have le: "jlog s le = last es" "le_gen_id (last es) = g"
    using ok ne k by (auto simp: seg_ok_def tx_shape_def le_def last_conv_nth)
  then have gle: "le_gen_id (jlog s le) = g" by simp
  have scan: "recover_scan s head le le ?tx False =
     Some \<lparr>sc_trans = ?t, sc_cmt_or_abrt = finished es, sc_start = True, sc_le = a, sc_tail = a\<rparr>"
    using recover_scan_down [OF ok head k, of ?tx False] ne
    by (simp add: le_def finished_def last_conv_nth)
  have ents: "tx_entries ?t s = es"
    using ok by (auto simp: tx_entries_def seg_ok_def intro!: nth_equalityI)
  have und: "pmfs_undo_transaction E ?t s = s\<lparr>jmem := undo_mem E es (jmem s)\<rparr>"
    using pmfs_undo_transaction_eq [of ?t s E] ok unfolding ents by (auto simp: seg_ok_def tx_shape_def)
  let ?s1 = "s\<lparr>jmem := (if finished es then jmem s else undo_mem E es (jmem s))\<rparr>"
  obtain l where l: "pmfs_invalidate_logentries ?t ?s1 = ?s1\<lparr>jlog := l\<rparr>"
    "\<forall>x. x < a \<or> a + length es * 64 \<le> x \<longrightarrow> l x = jlog s x"
    using invalidate_logentries_only [of ?t ?s1] by auto
  have "pmfs_recover_transaction E head le le s =
      Some (a, if g = MAX_GEN_ID then pmfs_invalidate_logentries ?t ?s1 else ?s1)"
    unfolding pmfs_recover_transaction_def gle scan Let_def option.case scan_result.select_convs und
    by (cases "finished es") simp_all
  moreover have "\<forall>x. x < a \<or> a + n * 64 \<le> x \<longrightarrow> l x = jlog s x"
    using l(2) ok by (auto simp: seg_ok_def)
  ultimately show ?thesis using l(1)
    by (cases "g = MAX_GEN_ID") (simp_all, blast, auto intro!: exI [of _ "jlog s"])
qed

section \<open>The recovery loop over one segment\<close>

definition seg_mem :: "addressing \<Rightarrow> pmfs_logentry list \<Rightarrow> (nat \<Rightarrow> 8 word) \<Rightarrow> (nat \<Rightarrow> 8 word)" where
  "seg_mem E es m = (if es = [] \<or> finished es then m else undo_mem E es m)"

text \<open>Reserved entries that were not written are skipped.\<close>

lemma undo_loop_skip:
  assumes "\<forall>i. u \<le> i \<and> i < u + k \<longrightarrow> le_gen_id (jlog s (a + i * 64)) \<noteq> g" "head \<le> a + u * 64 \<or> a + (u + k) * 64 < head"
  shows "\<exists>l. undo_loop (fuel + k) E head (a + (u + k) * 64) g s = undo_loop fuel E head (a + u * 64) g (s\<lparr>jlog := l\<rparr>)
    \<and> (\<forall>x. x < a + u * 64 \<or> a + (u + k) * 64 \<le> x \<longrightarrow> l x = jlog s x)"
  using assms
proof (induction k arbitrary: s)
  case (Suc k)
  let ?x = "a + (u + k) * 64" and ?y = "a + (u + Suc k) * 64"
  let ?s1 = "if g = MAX_GEN_ID then invalidate_gen_id ?x s else s"
  have pv: "prev_log_entry (jsize s) ?y = ?x" "head \<noteq> ?y" "?y \<noteq> 0"
    using Suc.prems(2) by (auto simp: prev_log_entry_pos)
  have inv: "le_gen_id (jlog s ?x) \<noteq> g" using Suc.prems(1) [rule_format, of "u + k"] by simp
  have step: "undo_loop (fuel + Suc k) E head ?y g s = undo_loop (fuel + k) E head ?x g ?s1"
    using pv inv by (simp add: Let_def del: mult_Suc mult_Suc_right add_mult_distrib)
  obtain l0 where l0: "?s1 = s\<lparr>jlog := l0\<rparr>" "\<forall>x. x \<noteq> ?x \<longrightarrow> l0 x = jlog s x"
  proof (cases "g = MAX_GEN_ID")
    case True
    with set_entry_only [of ?x "\<lambda>e. e\<lparr>le_gen_id := 0\<rparr>" s] show ?thesis
      using that unfolding invalidate_gen_id_def by auto
  qed (auto intro!: that [of "jlog s"])
  have "\<forall>i. u \<le> i \<and> i < u + k \<longrightarrow> le_gen_id (jlog ?s1 (a + i * 64)) \<noteq> g"
    unfolding l0(1) using Suc.prems(1) l0(2) by auto
  moreover have "head \<le> a + u * 64 \<or> a + (u + k) * 64 < head" using Suc.prems(2) by auto
  ultimately obtain l where l:
    "undo_loop (fuel + k) E head ?x g ?s1 = undo_loop fuel E head (a + u * 64) g (?s1\<lparr>jlog := l\<rparr>)"
    "\<forall>x. x < a + u * 64 \<or> ?x \<le> x \<longrightarrow> l x = jlog ?s1 x" using Suc.IH by blast
  have "?s1\<lparr>jlog := l\<rparr> = s\<lparr>jlog := l\<rparr>" by (simp add: l0(1))
  moreover have "\<forall>x. x < a + u * 64 \<or> ?y \<le> x \<longrightarrow> l x = jlog s x"
    using l(2) l0 by auto
  ultimately show ?case using step l(1) by auto
next
  case 0
  then show ?case by (intro exI [of _ "jlog s"]) simp
qed

lemma undo_loop_seg:
  assumes ok: "seg_ok s g a n es" and head: "head \<le> a \<or> a + n * 64 < head"
  shows "\<exists>l fuel'. undo_loop (fuel + n) E head (a + n * 64) g s =
      undo_loop fuel' E head a g (s\<lparr>jmem := seg_mem E es (jmem s), jlog := l\<rparr>) \<and> fuel \<le> fuel' \<and>
    (\<forall>x. x < a \<or> a + n * 64 \<le> x \<longrightarrow> l x = jlog s x)"
proof -
  let ?u = "length es"
  obtain k where n: "n = ?u + k" using ok by (auto simp: seg_ok_def le_iff_add)
  obtain l0 where l0: "undo_loop (fuel + ?u + k) E head (a + (?u + k) * 64) g s =
      undo_loop (fuel + ?u) E head (a + ?u * 64) g (s\<lparr>jlog := l0\<rparr>)"
    "\<forall>x. x < a + ?u * 64 \<or> a + (?u + k) * 64 \<le> x \<longrightarrow> l0 x = jlog s x"
    using undo_loop_skip [of ?u k s a g head "fuel + ?u" E] ok head
    by (auto simp: seg_ok_def n simp del: undo_loop.simps)
  let ?s1 = "s\<lparr>jlog := l0\<rparr>"
  show ?thesis
  proof (cases "es = []")
    case True
    with l0 show ?thesis by (intro exI [of _ l0] exI [of _ fuel]) (auto simp: n seg_mem_def)
  next
    case False
    then obtain v where v: "?u = Suc v" by (cases es) auto
    have ok1: "seg_ok ?s1 g a ?u es" using ok l0(2) v by (auto simp: seg_ok_def)
    let ?le = "a + (?u - 1) * 64"
    have le: "prev_log_entry (jsize s) (a + ?u * 64) = ?le" "head \<noteq> a + ?u * 64" "a + ?u * 64 \<noteq> 0"
      using head v n by (auto simp: prev_log_entry_pos)
    have head1: "head \<le> a \<or> a + ?u * 64 < head" using head n by auto
    have gen: "le_gen_id (jlog ?s1 ?le) = g"
      using ok1 v by (auto simp: seg_ok_def tx_shape_def)
    obtain l where l: "pmfs_recover_transaction E head ?le ?le ?s1 =
        Some (a, ?s1\<lparr>jmem := (if finished es then jmem s else undo_mem E es (jmem s)), jlog := l\<rparr>)"
      "\<forall>x. x < a \<or> a + ?u * 64 \<le> x \<longrightarrow> l x = l0 x"
      using recover_transaction_seg [OF ok1 head1 False, of E] by (elim exE conjE) (rule that, simp_all)
    have fs: "fuel + ?u = Suc (fuel + v)" using v by simp
    have "undo_loop (fuel + ?u) E head (a + ?u * 64) g ?s1 =
        undo_loop (fuel + v) E head a g (s\<lparr>jmem := seg_mem E es (jmem s), jlog := l\<rparr>)"
      unfolding fs undo_loop.simps using le gen l(1) False by (simp add: Let_def seg_mem_def)
    moreover have "\<forall>x. x < a \<or> a + n * 64 \<le> x \<longrightarrow> l x = jlog s x"
      using l(2) l0(2) by (auto simp: n)
    ultimately show ?thesis using l0(1) n by (intro exI [of _ l] exI [of _ "fuel + v"]) (simp add: add.assoc)
  qed
qed

section \<open>Recovery of the whole log\<close>

text \<open>The segments of the log from \<open>a\<close> to \<open>b\<close>, in the order they were reserved.\<close>

record segment =
  sg_gen :: "16 word"
  sg_off :: nat
  sg_n :: nat
  sg_entries :: "pmfs_logentry list"

fun tiles :: "jstate \<Rightarrow> 16 word \<Rightarrow> nat \<Rightarrow> segment list \<Rightarrow> nat \<Rightarrow> bool" where
  "tiles s g a [] b \<longleftrightarrow> a = b"
| "tiles s g a (sg # segs) b \<longleftrightarrow> sg_gen sg = g \<and> sg_off sg = a \<and> seg_ok s g a (sg_n sg) (sg_entries sg)
     \<and> tiles s g (a + sg_n sg * 64) segs b"

text \<open>What recovery makes of the memory: the segments undone from the last to the first.\<close>

fun rec_mem :: "addressing \<Rightarrow> segment list \<Rightarrow> (nat \<Rightarrow> 8 word) \<Rightarrow> (nat \<Rightarrow> 8 word)" where
  "rec_mem E [] m = m"
| "rec_mem E (sg # segs) m = seg_mem E (sg_entries sg) (rec_mem E segs m)"

lemma rec_mem_append: "rec_mem E (xs @ ys) m = rec_mem E xs (rec_mem E ys m)"
  by (induction E xs m rule: rec_mem.induct) auto

lemma tiles_le: "tiles s g a segs b \<Longrightarrow> a \<le> b"
  by (induction s g a segs b rule: tiles.induct) auto

lemma seg_ok_cong:
  assumes "seg_ok s g a n es" "\<forall>x. a \<le> x \<and> x < a + n * 64 \<longrightarrow> jlog t x = jlog s x"
  shows "seg_ok t g a n es"
  using assms by (auto simp: seg_ok_def)

lemma tiles_cong:
  "tiles s g a segs b \<Longrightarrow> \<forall>x. a \<le> x \<and> x < b \<longrightarrow> jlog t x = jlog s x \<Longrightarrow> tiles t g a segs b"
proof (induction s g a segs b rule: tiles.induct)
  case (2 s g a sg segs b)
  from "2.prems"(1) have ok: "seg_ok s g a (sg_n sg) (sg_entries sg)" "tiles s g (a + sg_n sg * 64) segs b" by simp_all
  with tiles_le [OF ok(2)] have "seg_ok t g a (sg_n sg) (sg_entries sg)"
    by (intro seg_ok_cong [OF ok(1)]) (use "2.prems"(2) in auto)
  moreover have "tiles t g (a + sg_n sg * 64) segs b" using "2.IH" ok(2) "2.prems"(2) by auto
  ultimately show ?case using "2.prems"(1) by simp
qed simp

lemma undo_loop_tiles:
  "tiles s g a segs b \<Longrightarrow> head \<le> a \<or> b < head \<Longrightarrow>
   \<exists>l fuel'. undo_loop (fuel + (b - a)) E head b g s =
      undo_loop fuel' E head a g (s\<lparr>jmem := rec_mem E segs (jmem s), jlog := l\<rparr>) \<and> fuel \<le> fuel' \<and>
    (\<forall>x. x < a \<or> b \<le> x \<longrightarrow> l x = jlog s x)"
proof (induction s g a segs b arbitrary: fuel rule: tiles.induct)
  case (1 s g a b)
  then show ?case by (intro exI [of _ "jlog s"] exI [of _ fuel]) simp
next
  case (2 s g a sg segs b)
  let ?n = "sg_n sg" and ?es = "sg_entries sg"
  let ?a = "a + ?n * 64"
  from "2.prems"(1) have ok: "seg_ok s g a ?n ?es" and tl: "tiles s g ?a segs b" by simp_all
  note ab = tiles_le [OF tl]
  have f: "fuel + (b - a) = (fuel + ?n * 64) + (b - ?a)" using ab by simp
  have "head \<le> ?a \<or> b < head" using "2.prems"(2) by auto
  from "2.IH" [OF tl this, of "fuel + ?n * 64"] obtain l fuel' where l:
    "undo_loop (fuel + (b - a)) E head b g s =
      undo_loop fuel' E head ?a g (s\<lparr>jmem := rec_mem E segs (jmem s), jlog := l\<rparr>)" "fuel + ?n * 64 \<le> fuel'"
    "\<forall>x. x < ?a \<or> b \<le> x \<longrightarrow> l x = jlog s x"
    unfolding f by blast
  let ?s1 = "s\<lparr>jmem := rec_mem E segs (jmem s), jlog := l\<rparr>"
  have ok1: "seg_ok ?s1 g a ?n ?es" by (rule seg_ok_cong [OF ok]) (use l(3) in auto)
  have hd: "head \<le> a \<or> a + ?n * 64 < head" using "2.prems"(2) ab by auto
  from undo_loop_seg [OF ok1 hd, of "fuel' - ?n" E] l(2) obtain l' fuel'' where l':
    "undo_loop fuel' E head ?a g ?s1 = undo_loop fuel'' E head a g
       (?s1\<lparr>jmem := seg_mem E ?es (jmem ?s1), jlog := l'\<rparr>)" "fuel' - ?n \<le> fuel''"
    "\<forall>x. x < a \<or> ?a \<le> x \<longrightarrow> l' x = jlog ?s1 x" by auto
  have "\<forall>x. x < a \<or> b \<le> x \<longrightarrow> l' x = jlog s x" using l'(3) l(3) ab by auto
  with l(1,2) l'(1,2) show ?case
    by (intro exI [of _ l'] exI [of _ fuel'']) simp
qed

lemma undo_loop_done: "0 < fuel \<Longrightarrow> undo_loop fuel E head head g s = Some s"
  by (cases fuel) auto

lemma undo_loop_wrap:
  "head \<noteq> 0 \<Longrightarrow> head \<noteq> jsize s \<Longrightarrow> 0 < jsize s \<Longrightarrow> 0 < fuel \<Longrightarrow>
    undo_loop fuel E head 0 g s = undo_loop fuel E head (jsize s) (prev_gen_id g) s"
  by (cases fuel) (auto simp: prev_log_entry_def Let_def)

lemma invalidate_remaining_sel:
  "jmem (invalidate_remaining_journal t n s) = jmem s \<and> journal (invalidate_remaining_journal t n s) = journal s"
proof (induction t n s rule: invalidate_remaining_journal.induct)
  case (1 t n s)
  then show ?case
    by (subst (1 2) invalidate_remaining_journal.simps) (simp add: invalidate_gen_id_def)
qed

lemma forward_journal_sel:
  "jmem (pmfs_forward_journal s) = jmem s" "j_head (journal (pmfs_forward_journal s)) = j_tail (journal s)"
  "j_tail (journal (pmfs_forward_journal s)) = j_tail (journal s)"
  "j_gen_id (journal (pmfs_forward_journal s)) = next_gen_id (j_gen_id (journal s))"
  by (simp_all add: pmfs_forward_journal_def Let_def invalidate_remaining_sel)

text \<open>The live part of the log, which may wrap: before the wrap the entries carry the previous generation.\<close>

definition live_log :: "jstate \<Rightarrow> segment list \<Rightarrow> bool" where
  "live_log s segs \<longleftrightarrow>
     (let head = j_head (journal s); tail = j_tail (journal s); g = j_gen_id (journal s)
      in if head \<le> tail then tail \<le> jsize s \<and> tiles s g head segs tail
         else 0 < head \<and> head < jsize s \<and>
           (\<exists>segs1 segs2. segs = segs1 @ segs2 \<and> tiles s (prev_gen_id g) head segs1 (jsize s) \<and> tiles s g 0 segs2 tail))"

lemma rec_mem_empty: "tiles s g a segs b \<Longrightarrow> a = b \<Longrightarrow> rec_mem E segs m = m"
proof (induction s g a segs b rule: tiles.induct)
  case (2 s g a sg segs b)
  then have ok: "seg_ok s g a (sg_n sg) (sg_entries sg)" and tl: "tiles s g (a + sg_n sg * 64) segs b" by simp_all
  from tiles_le [OF tl] 2 have n0: "sg_n sg = 0" by simp
  with ok have "sg_entries sg = []" by (simp add: seg_ok_def)
  with 2 tl n0 show ?case by (simp add: seg_mem_def)
qed simp

theorem recover_undo_journal:
  assumes live: "live_log s segs" and undo: "\<not> redo_log s"
  shows "\<exists>s'. pmfs_recover_journal E s = Some s' \<and> jmem s' = rec_mem E segs (jmem s) \<and>
    j_head (journal s') = j_tail (journal s')"
proof (cases "j_head (journal s) = j_tail (journal s)")
  case True
  with live have "tiles s (j_gen_id (journal s)) (j_tail (journal s)) segs (j_tail (journal s))"
    by (simp add: live_log_def Let_def)
  with True rec_mem_empty show ?thesis by (auto simp: pmfs_recover_journal_def)
next
  case ne: False
  let ?h = "j_head (journal s)" and ?t = "j_tail (journal s)" and ?g = "j_gen_id (journal s)"
  have "\<exists>l. undo_loop (Suc (jsize s)) E ?h ?t ?g s = Some (s\<lparr>jmem := rec_mem E segs (jmem s), jlog := l\<rparr>)"
  proof (cases "?h \<le> ?t")
    case True
    with live have t: "?t \<le> jsize s" "tiles s ?g ?h segs ?t" by (simp_all add: live_log_def Let_def)
    then have e: "Suc (jsize s) = Suc (jsize s - (?t - ?h)) + (?t - ?h)" by simp
    have hd: "?h \<le> ?h \<or> ?t < ?h" by simp
    from undo_loop_tiles [OF t(2) hd, of "Suc (jsize s - (?t - ?h))" E] obtain l fuel' where
      "undo_loop (Suc (jsize s)) E ?h ?t ?g s =
        undo_loop fuel' E ?h ?h ?g (s\<lparr>jmem := rec_mem E segs (jmem s), jlog := l\<rparr>)" "Suc (jsize s - (?t - ?h)) \<le> fuel'"
      unfolding e [symmetric] by blast
    with undo_loop_done [of fuel'] show ?thesis by (metis Suc_le_eq gr_zeroI not_less_zero)
  next
    case False
    with live obtain segs1 segs2 where sg: "segs = segs1 @ segs2" "0 < ?h" "?h < jsize s"
      and t1: "tiles s (prev_gen_id ?g) ?h segs1 (jsize s)" and t2: "tiles s ?g 0 segs2 ?t"
      by (auto simp: live_log_def Let_def)
    have th: "?t < ?h" using False by simp
    have e: "Suc (jsize s) = (Suc (jsize s) - ?t) + (?t - 0)" using th sg by simp
    have hd2: "?h \<le> 0 \<or> ?t < ?h" using th by simp
    from undo_loop_tiles [OF t2 hd2, of "Suc (jsize s) - ?t" E] obtain l fuel' where l:
      "undo_loop (Suc (jsize s)) E ?h ?t ?g s =
        undo_loop fuel' E ?h 0 ?g (s\<lparr>jmem := rec_mem E segs2 (jmem s), jlog := l\<rparr>)" "Suc (jsize s) - ?t \<le> fuel'"
      "\<forall>x. x < 0 \<or> ?t \<le> x \<longrightarrow> l x = jlog s x" unfolding e [symmetric] by blast
    let ?s1 = "s\<lparr>jmem := rec_mem E segs2 (jmem s), jlog := l\<rparr>"
    have t1': "tiles ?s1 (prev_gen_id ?g) ?h segs1 (jsize s)"
      by (rule tiles_cong [OF t1]) (use l(3) th in auto)
    have f: "fuel' = (fuel' - (jsize s - ?h)) + (jsize s - ?h)" and f0: "0 < fuel' - (jsize s - ?h)"
      using l(2) th sg by auto
    have hd1: "?h \<le> ?h \<or> jsize s < ?h" by simp
    from undo_loop_tiles [OF t1' hd1, of "fuel' - (jsize s - ?h)" E] obtain l' fuel'' where l':
      "undo_loop fuel' E ?h (jsize s) (prev_gen_id ?g) ?s1 =
        undo_loop fuel'' E ?h ?h (prev_gen_id ?g) (?s1\<lparr>jmem := rec_mem E segs1 (jmem ?s1), jlog := l'\<rparr>)"
      "fuel' - (jsize s - ?h) \<le> fuel''" unfolding f [symmetric] by blast
    have f2: "0 < fuel''" using l'(2) f0 by simp
    have "undo_loop fuel' E ?h 0 ?g ?s1 = undo_loop fuel' E ?h (jsize s) (prev_gen_id ?g) ?s1"
      using undo_loop_wrap [of ?h ?s1 fuel' E ?g] sg l(2) th by simp
    with l(1) l'(1) undo_loop_done [OF f2] show ?thesis
      by (simp add: sg(1) rec_mem_append) blast
  qed
  then show ?thesis
    using ne undo by (auto simp: pmfs_recover_journal_def pmfs_recover_undo_journal_def forward_journal_sel)
qed

end
