(* ===== verification/JournalTx.thy ===== *)
theory JournalTx
  imports JournalUndo
begin

text \<open>
  Transactions in undo mode: what logging adds to the log, store by store, and the two guarantees of
  the undo log.  Aborting a transaction gives back the memory it started from; a crash at any point of
  it, between any two stores, does so after recovery.
\<close>

section \<open>The stores of a log call\<close>

lemma run_stores_simps [simp]:
  "run_stores [] s = s" "run_stores (f # fs) s = run_stores fs (f s)"
  "run_stores (fs @ gs) s = run_stores gs (run_stores fs s)"
  by (simp_all add: run_stores_def)

lemma flush_transaction_undo: "\<not> redo_log s \<Longrightarrow> pmfs_flush_transaction E tx s = s"
proof -
  assume undo: "\<not> redo_log s"
  have "for_steps (\<lambda>i s. let le = start_addr tx + i * LOGENTRY_SIZE
        in if le_size (jlog s le) \<noteq> 0 \<and> redo_log s then copy_entry_data E (jlog s le) s else s) xs s = s" for xs
    using undo by (induction xs) (auto simp: Let_def)
  then show ?thesis by (simp add: pmfs_flush_transaction_def for_loop_def)
qed

text \<open>The entry a round of \<^verbatim>\<open>pmfs_add_logentry\<close> builds, and the entry as it is after some of its stores.\<close>

definition new_entry :: "jstate \<Rightarrow> pmfs_transaction \<Rightarrow> nat \<Rightarrow> 64 word \<Rightarrow> nat \<Rightarrow> nat \<Rightarrow> 8 word \<Rightarrow> bool \<Rightarrow> pmfs_logentry" where
  "new_entry s tx le ls a sz type first =
     \<lparr>addr_offset = ls, transaction_id = t_transaction_id tx, le_gen_id = t_gen_id tx,
      le_type = (if first then type OR LE_START else type), le_size = sz,
      le_data = (if sz \<noteq> 0 then mem_read (jmem s) a sz @ drop sz (le_data (jlog s le)) else le_data (jlog s le))\<rparr>"

lemma set_entry_jlog [simp]: "set_entry le f (s\<lparr>jlog := l\<rparr>) = s\<lparr>jlog := l(le := f (l le))\<rparr>"
  by (simp add: set_entry_def)

definition builds :: "nat \<Rightarrow> (jstate \<Rightarrow> jstate) \<Rightarrow> bool" where
  "builds le f \<longleftrightarrow> (\<forall>s. \<exists>e. f s = s\<lparr>jlog := (jlog s)(le := e)\<rparr> \<and> le_gen_id e = le_gen_id (jlog s le))"

lemma buildsI:
  "(\<And>s. f s = s\<lparr>jlog := (jlog s)(le := g s)\<rparr>) \<Longrightarrow> (\<And>s. le_gen_id (g s) = le_gen_id (jlog s le)) \<Longrightarrow> builds le f"
  unfolding builds_def by blast

lemma builds_id: "builds le (\<lambda>s. s)"
  by (rule buildsI [where g = "\<lambda>s. jlog s le"]) simp_all

lemma builds_if: "builds le f \<Longrightarrow> builds le (\<lambda>s. if c then f s else s)"
  using builds_id by (cases c) auto

lemma builds_run: "\<forall>f\<in>set fs. builds le f \<Longrightarrow> builds le (run_stores fs)"
proof (induction fs)
  case Nil
  show ?case using builds_id [of le] by (simp add: run_stores_def)
next
  case (Cons f fs)
  show ?case
    unfolding builds_def
  proof
    fix s
    from Cons have b: "builds le f" "builds le (run_stores fs)" by simp_all
    from b(1) obtain e where e: "f s = s\<lparr>jlog := (jlog s)(le := e)\<rparr>" "le_gen_id e = le_gen_id (jlog s le)"
      unfolding builds_def by blast
    from b(2) obtain e' where "run_stores fs (f s) = (f s)\<lparr>jlog := (jlog (f s))(le := e')\<rparr>"
      "le_gen_id e' = le_gen_id (jlog (f s) le)" unfolding builds_def by blast
    with e show "\<exists>e. run_stores (f # fs) s = s\<lparr>jlog := (jlog s)(le := e)\<rparr> \<and> le_gen_id e = le_gen_id (jlog s le)"
      by (intro exI [of _ e']) simp
  qed
qed

lemma builds_set_entry: "(\<And>e. le_gen_id (f e) = le_gen_id e) \<Longrightarrow> builds le (set_entry le f)"
  by (rule buildsI [where g = "\<lambda>s. f (jlog s le)"]) (simp_all add: set_entry_def)

lemma entry_stores_prefix:
  "\<exists>e. run_stores (take k (entry_stores tx le ls a sz type first)) s = s\<lparr>jlog := (jlog s)(le := e)\<rparr>
     \<and> le_gen_id e = le_gen_id (jlog s le)"
proof -
  have "builds le (\<lambda>s. set_entry le (\<lambda>e. e\<lparr>le_data := mem_read (jmem s) a sz @ drop sz (le_data e)\<rparr>) s)"
    by (rule buildsI [where g = "\<lambda>s. (jlog s le)\<lparr>le_data := mem_read (jmem s) a sz @ drop sz (le_data (jlog s le))\<rparr>"])
      (simp_all add: set_entry_def)
  then have "\<forall>f\<in>set (entry_stores tx le ls a sz type first). builds le f"
    by (auto simp: entry_stores_def intro!: builds_set_entry builds_if simp del: neq0_conv)
  then have "builds le (run_stores (take k (entry_stores tx le ls a sz type first)))"
    by (intro builds_run) (meson in_set_takeD)
  then show ?thesis by (simp add: builds_def)
qed

lemma entry_stores_valid:
  "valid_store tx' le (run_stores (entry_stores tx le ls a sz type first) s) =
     s\<lparr>jlog := (jlog s)(le := (new_entry s tx le ls a sz type first)\<lparr>le_gen_id := t_gen_id tx'\<rparr>)\<rparr>"
  by (cases "jlog s le"; cases "sz = 0"; cases first)
    (simp_all add: entry_stores_def valid_store_def new_entry_def set_entry_def)

lemma length_entry_stores [simp]: "length (entry_stores tx le ls a sz type first) = 6"
  by (simp add: entry_stores_def)

section \<open>What a log call adds\<close>

abbreviation tx_pos :: "pmfs_transaction \<Rightarrow> nat \<Rightarrow> nat" where
  "tx_pos tx j \<equiv> start_addr tx + (num_used tx + j) * 64"

text \<open>
  From \<open>s\<close> to \<open>s'\<close> the entries \<open>es\<close> have become valid behind those of \<open>tx\<close>; of the \<open>d\<close> entries
  from there on the others may be half written but are not valid yet.
\<close>

definition logs :: "pmfs_transaction \<Rightarrow> nat \<Rightarrow> pmfs_logentry list \<Rightarrow> jstate \<Rightarrow> jstate \<Rightarrow> bool" where
  "logs tx d es s s' \<longleftrightarrow> (\<exists>l. s' = s\<lparr>jlog := l\<rparr> \<and> length es \<le> d \<and>
     (\<forall>j<length es. l (tx_pos tx j) = es ! j) \<and>
     (\<forall>j. length es \<le> j \<and> j < d \<longrightarrow> le_gen_id (l (tx_pos tx j)) = le_gen_id (jlog s (tx_pos tx j))) \<and>
     (\<forall>x. (\<forall>j<d. x \<noteq> tx_pos tx j) \<longrightarrow> l x = jlog s x))"

lemma logs_none:
  assumes "s' = s\<lparr>jlog := (jlog s)(tx_pos tx 0 := e)\<rparr>" "le_gen_id e = le_gen_id (jlog s (tx_pos tx 0))" "0 < d"
  shows "logs tx d [] s s'"
  unfolding logs_def using assms by (intro exI [of _ "(jlog s)(tx_pos tx 0 := e)"]) auto

lemma logs_Cons:
  assumes "logs (tx\<lparr>num_used := num_used tx + 1\<rparr>) d es (s\<lparr>jlog := (jlog s)(tx_pos tx 0 := e)\<rparr>) s'"
  shows "logs tx (Suc d) (e # es) s s'"
proof -
  let ?s1 = "s\<lparr>jlog := (jlog s)(tx_pos tx 0 := e)\<rparr>" and ?tx = "tx\<lparr>num_used := num_used tx + 1\<rparr>"
  have p: "tx_pos ?tx j = tx_pos tx (Suc j)" for j by simp
  obtain l where l: "s' = ?s1\<lparr>jlog := l\<rparr>" "length es \<le> d" "\<forall>j<length es. l (tx_pos tx (Suc j)) = es ! j"
    "\<forall>j. length es \<le> j \<and> j < d \<longrightarrow> le_gen_id (l (tx_pos tx (Suc j))) = le_gen_id (jlog ?s1 (tx_pos tx (Suc j)))"
    "\<forall>x. (\<forall>j<d. x \<noteq> tx_pos tx (Suc j)) \<longrightarrow> l x = jlog ?s1 x"
    using assms unfolding logs_def p by blast
  have ne: "tx_pos tx (Suc j) \<noteq> tx_pos tx 0" for j by simp
  have l0: "l (tx_pos tx 0) = e" using l(5) by simp
  have "\<forall>j<length (e # es). l (tx_pos tx j) = (e # es) ! j"
  proof (intro allI impI)
    fix j assume "j < length (e # es)"
    then show "l (tx_pos tx j) = (e # es) ! j" using l0 l(3) by (cases j) auto
  qed
  moreover have "\<forall>j. length (e # es) \<le> j \<and> j < Suc d \<longrightarrow> le_gen_id (l (tx_pos tx j)) = le_gen_id (jlog s (tx_pos tx j))"
  proof (intro allI impI)
    fix j assume j: "length (e # es) \<le> j \<and> j < Suc d"
    then obtain i where i: "j = Suc i" by (cases j) auto
    with j l(4) ne [of i] show "le_gen_id (l (tx_pos tx j)) = le_gen_id (jlog s (tx_pos tx j))" by simp
  qed
  moreover have "\<forall>x. (\<forall>j<Suc d. x \<noteq> tx_pos tx j) \<longrightarrow> l x = jlog s x"
  proof (intro allI impI)
    fix x assume x: "\<forall>j<Suc d. x \<noteq> tx_pos tx j"
    then have "\<forall>j<d. x \<noteq> tx_pos tx (Suc j)" "x \<noteq> tx_pos tx 0" by blast+
    with l(5) show "l x = jlog s x" by simp
  qed
  ultimately show ?thesis unfolding logs_def using l(1,2) by (intro exI [of _ l]) simp
qed

text \<open>The entries of a data record: never final, a start entry only at the front of the transaction.\<close>

definition data_entries :: "16 word \<Rightarrow> bool \<Rightarrow> pmfs_logentry list \<Rightarrow> bool" where
  "data_entries g first es \<longleftrightarrow> (\<forall>e\<in>set es. le_gen_id e = g \<and> \<not> le_final e) \<and>
     (\<forall>j<length es. le_first (es ! j) \<longleftrightarrow> first \<and> j = 0)"

definition addressable :: "addressing \<Rightarrow> 64 word \<Rightarrow> nat \<Rightarrow> nat \<Rightarrow> bool" where
  "addressable E ls a n \<longleftrightarrow> (\<forall>k<n. get_block_of E (ls + of_nat k) = a + k)"

lemma new_entry_data:
  "le_final (new_entry s tx le ls a sz LE_DATA first) = False"
  "le_first (new_entry s tx le ls a sz LE_DATA first) = first"
  "le_gen_id (new_entry s tx le ls a sz type first) = t_gen_id tx"
  by (auto simp: new_entry_def le_final_def le_first_def)

lemma new_entry_undo:
  assumes "get_block_of E ls = a"
  shows "undo_entry E (new_entry s tx le ls a sz type first) (jmem s) = jmem s"
    "entry_range E (new_entry s tx le ls a sz type first) = (if sz = 0 then {} else {a..<a + sz})"
  using assms by (auto simp: undo_entry_def new_entry_def entry_range_def)

lemma addlog_stores_data:
  assumes E: "addressable E ls a len" and len: "d * 48 < len + 48" "len \<le> d * 48"
  shows "\<exists>fs. addlog_stores E False tx ls a len LE_DATA i (i + d) = (fs, tx\<lparr>num_used := num_used tx + d\<rparr>) \<and>
    (\<exists>es. logs tx d es s (run_stores fs s) \<and> length es = d \<and> data_entries (t_gen_id tx) (i = 0 \<and> num_used tx = 0) es \<and>
      undo_mem E es (jmem s) = jmem s \<and> covered E es = {a..<a + len}) \<and>
    (\<forall>k. \<exists>es. logs tx d es s (run_stores (take k fs) s) \<and> data_entries (t_gen_id tx) (i = 0 \<and> num_used tx = 0) es \<and>
      undo_mem E es (jmem s) = jmem s)"
  using assms
proof (induction d arbitrary: tx ls a len i s)
  case 0
  have "logs tx 0 [] s s" unfolding logs_def by (intro exI [of _ "jlog s"]) simp
  with 0 show ?case
    by (subst addlog_stores.simps) (auto simp: data_entries_def intro!: exI [of _ "[]"])
next
  case (Suc d)
  let ?le = "tx_pos tx 0" and ?first = "i = 0 \<and> num_used tx = 0" and ?tx = "tx\<lparr>num_used := num_used tx + 1\<rparr>"
  define sz where "sz = (if d = 0 then len else 48)"
  define e where "e = new_entry s tx ?le ls a sz LE_DATA ?first"
  let ?s1 = "s\<lparr>jlog := (jlog s)(?le := e)\<rparr>"
  let ?head = "entry_stores tx ?le ls a sz LE_DATA ?first @ [valid_store ?tx ?le]"
  have sz: "0 < sz" "sz \<le> len" using Suc.prems by (auto simp: sz_def)
  have E1: "addressable E (ls + of_nat sz) (a + sz) (len - sz)"
    unfolding addressable_def
  proof (intro allI impI)
    fix k assume "k < len - sz"
    with Suc.prems(1) have "get_block_of E (ls + of_nat (sz + k)) = a + (sz + k)"
      unfolding addressable_def by (metis add.commute less_diff_conv)
    then show "get_block_of E (ls + of_nat sz + of_nat k) = a + sz + k" by (simp add: add.assoc)
  qed
  have len1: "d * 48 < len - sz + 48" "len - sz \<le> d * 48" using Suc.prems by (auto simp: sz_def)
  have a0: "get_block_of E ls = a" using Suc.prems(1) [unfolded addressable_def, rule_format, of 0] sz by simp
  have head: "run_stores ?head s = ?s1"
    using entry_stores_valid [of ?tx ?le tx ls a sz LE_DATA ?first s]
    by (simp add: e_def new_entry_def)
  obtain fs where fs: "addlog_stores E False ?tx (ls + of_nat sz) (a + sz) (len - sz) LE_DATA (i + 1) (i + 1 + d)
      = (fs, ?tx\<lparr>num_used := num_used ?tx + d\<rparr>)"
    and full: "\<exists>es. logs ?tx d es ?s1 (run_stores fs ?s1) \<and> length es = d \<and> data_entries (t_gen_id ?tx) (i + 1 = 0 \<and> num_used ?tx = 0) es \<and>
      undo_mem E es (jmem ?s1) = jmem ?s1 \<and> covered E es = {a + sz..<a + sz + (len - sz)}"
    and part: "\<forall>k. \<exists>es. logs ?tx d es ?s1 (run_stores (take k fs) ?s1) \<and> data_entries (t_gen_id ?tx) (i + 1 = 0 \<and> num_used ?tx = 0) es \<and>
      undo_mem E es (jmem ?s1) = jmem ?s1"
    using Suc.IH [OF E1 len1, of ?tx "i + 1" ?s1] by blast
  have call: "addlog_stores E False tx ls a len LE_DATA i (i + Suc d) = (?head @ fs, tx\<lparr>num_used := num_used tx + Suc d\<rparr>)"
    using fs by (subst addlog_stores.simps) (simp add: Let_def sz_def)
  have ext: "data_entries (t_gen_id tx) ?first (e # es) \<and> undo_mem E (e # es) (jmem s) = jmem s"
    if "data_entries (t_gen_id ?tx) (i + 1 = 0 \<and> num_used ?tx = 0) es" "undo_mem E es (jmem ?s1) = jmem ?s1" for es
    using that new_entry_undo(1) [OF a0, of s tx ?le sz LE_DATA ?first]
    by (auto simp: data_entries_def e_def new_entry_data nth_Cons split: nat.splits)
  have "\<exists>es. logs tx (Suc d) es s (run_stores (?head @ fs) s) \<and> length es = Suc d \<and> data_entries (t_gen_id tx) ?first es \<and>
      undo_mem E es (jmem s) = jmem s \<and> covered E es = {a..<a + len}"
  proof -
    from full obtain es where es: "logs ?tx d es ?s1 (run_stores fs ?s1)" "length es = d"
      "data_entries (t_gen_id ?tx) (i + 1 = 0 \<and> num_used ?tx = 0) es" "undo_mem E es (jmem ?s1) = jmem ?s1"
      "covered E es = {a + sz..<a + sz + (len - sz)}" by blast
    have "run_stores (?head @ fs) s = run_stores fs ?s1" unfolding run_stores_simps(3) [of ?head fs s]
      by (rule arg_cong [OF head])
    with logs_Cons [OF es(1)] have lg: "logs tx (Suc d) (e # es) s (run_stores (?head @ fs) s)" by simp
    have "covered E (e # es) = {a..<a + len}"
      using es(5) sz new_entry_undo(2) [OF a0, of s tx ?le sz LE_DATA ?first] by (auto simp: e_def)
    with lg es(2) ext [OF es(3,4)] show ?thesis by (intro exI [of _ "e # es"]) simp
  qed
  moreover have "\<exists>es. logs tx (Suc d) es s (run_stores (take k (?head @ fs)) s) \<and>
      data_entries (t_gen_id tx) ?first es \<and> undo_mem E es (jmem s) = jmem s" for k
  proof (cases "k \<le> 6")
    case True
    then have "take k (?head @ fs) = take k (entry_stores tx ?le ls a sz LE_DATA ?first)" by simp
    moreover obtain e0 where "run_stores (take k (entry_stores tx ?le ls a sz LE_DATA ?first)) s =
        s\<lparr>jlog := (jlog s)(?le := e0)\<rparr>" "le_gen_id e0 = le_gen_id (jlog s ?le)"
      using entry_stores_prefix by blast
    ultimately have "logs tx (Suc d) [] s (run_stores (take k (?head @ fs)) s)"
      using logs_none [of _ s tx e0 "Suc d"] by simp
    then show ?thesis by (intro exI [of _ "[]"]) (simp add: data_entries_def)
  next
    case False
    then have "k - 6 = Suc (k - 7)" by simp
    with False have "take k (?head @ fs) = ?head @ take (k - 7) fs" by simp
    then have run: "run_stores (take k (?head @ fs)) s = run_stores (take (k - 7) fs) ?s1"
      using run_stores_simps(3) [of ?head "take (k - 7) fs" s] head by metis
    from part obtain es where es: "logs ?tx d es ?s1 (run_stores (take (k - 7) fs) ?s1)"
      "data_entries (t_gen_id ?tx) (i + 1 = 0 \<and> num_used ?tx = 0) es" "undo_mem E es (jmem ?s1) = jmem ?s1" by blast
    show ?thesis unfolding run using logs_Cons [OF es(1)] ext [OF es(2,3)] by blast
  qed
  ultimately show ?case using call by blast
qed

section \<open>Running transactions\<close>

definition tx_inv :: "addressing \<Rightarrow> (nat \<Rightarrow> 8 word) \<Rightarrow> pmfs_transaction \<Rightarrow> jstate \<Rightarrow> bool" where
  "tx_inv E m0 tx s \<longleftrightarrow> \<not> redo_log s \<and>
     seg_ok s (t_gen_id tx) (start_addr tx) (num_entries tx) (tx_entries tx s) \<and>
     (\<forall>e\<in>set (tx_entries tx s). \<not> le_final e) \<and> undo_mem E (tx_entries tx s) (jmem s) = m0"

text \<open>Nothing but the transaction's own entries and the memory differs.\<close>

definition only_segment :: "pmfs_transaction \<Rightarrow> jstate \<Rightarrow> jstate \<Rightarrow> bool" where
  "only_segment tx s s' \<longleftrightarrow> journal s' = journal s \<and> jsize s' = jsize s \<and> redo_log s' = redo_log s \<and>
     (\<forall>x. x < start_addr tx \<or> start_addr tx + num_entries tx * 64 \<le> x \<longrightarrow> jlog s' x = jlog s x)"

lemma only_segment_refl [simp]: "only_segment tx s s"
  by (simp add: only_segment_def)

lemma only_segment_trans: "only_segment tx s t \<Longrightarrow> only_segment tx t u \<Longrightarrow> only_segment tx s u"
  by (simp add: only_segment_def)

lemma length_tx_entries [simp]: "length (tx_entries tx s) = num_used tx"
  by (simp add: tx_entries_def)

lemma nth_tx_entries: "i < num_used tx \<Longrightarrow> tx_entries tx s ! i = jlog s (start_addr tx + i * 64)"
  by (simp add: tx_entries_def)

text \<open>Entries that become valid behind the transaction extend its segment.\<close>

lemma logs_segment:
  assumes ok: "seg_ok s (t_gen_id tx) (start_addr tx) (num_entries tx) (tx_entries tx s)"
    and lg: "logs tx d es s s'" and room: "num_used tx + d \<le> num_entries tx"
    and nf: "\<forall>e\<in>set (tx_entries tx s). \<not> le_final e"
    and shape: "\<forall>e\<in>set es. le_gen_id e = t_gen_id tx" "\<forall>j<length es. le_first (es ! j) \<longleftrightarrow> num_used tx = 0 \<and> j = 0"
      "\<forall>j. Suc j < length es \<longrightarrow> \<not> le_final (es ! j)"
  defines "tx' \<equiv> tx\<lparr>num_used := num_used tx + length es\<rparr>"
  shows "seg_ok s' (t_gen_id tx) (start_addr tx) (num_entries tx) (tx_entries tx' s')"
    "tx_entries tx' s' = tx_entries tx s @ es" "only_segment tx s s'" "jmem s' = jmem s" "redo_log s' = redo_log s"
proof -
  obtain l where l: "s' = s\<lparr>jlog := l\<rparr>" "length es \<le> d" "\<forall>j<length es. l (tx_pos tx j) = es ! j"
    "\<forall>j. length es \<le> j \<and> j < d \<longrightarrow> le_gen_id (l (tx_pos tx j)) = le_gen_id (jlog s (tx_pos tx j))"
    "\<forall>x. (\<forall>j<d. x \<noteq> tx_pos tx j) \<longrightarrow> l x = jlog s x"
    using lg unfolding logs_def by blast
  have old: "l (start_addr tx + i * 64) = jlog s (start_addr tx + i * 64)" if "i < num_used tx \<or> num_used tx + d \<le> i" for i
  proof -
    have "\<forall>j<d. start_addr tx + i * 64 \<noteq> tx_pos tx j" using that by auto
    with l(5) show ?thesis by blast
  qed
  have new: "l (start_addr tx + i * 64) = es ! (i - num_used tx)" if "num_used tx \<le> i" "i < num_used tx + length es" for i
  proof -
    have j: "num_used tx + (i - num_used tx) = i" "i - num_used tx < length es" using that by simp_all
    with l(3) [rule_format, of "i - num_used tx"] show ?thesis by simp
  qed
  show ents: "tx_entries tx' s' = tx_entries tx s @ es"
    by (rule nth_equalityI) (auto simp: nth_tx_entries tx'_def l(1) nth_append old new not_less)
  show "only_segment tx s s'"
    unfolding only_segment_def
  proof (intro conjI allI impI)
    fix x assume "x < start_addr tx \<or> start_addr tx + num_entries tx * 64 \<le> x"
    then have "\<forall>j<d. x \<noteq> tx_pos tx j" using room by auto
    with l(5) show "jlog s' x = jlog s x" by (simp add: l(1))
  qed (simp_all add: l(1))
  show "jmem s' = jmem s" "redo_log s' = redo_log s" by (simp_all add: l(1))
  have stale: "le_gen_id (l (start_addr tx + i * 64)) \<noteq> t_gen_id tx"
    if "num_used tx + length es \<le> i" "i < num_entries tx" for i
  proof (cases "i < num_used tx + d")
    case True
    have j: "i = num_used tx + (i - num_used tx)" "length es \<le> i - num_used tx" using that by simp_all
    with True l(4) [rule_format, of "i - num_used tx"]
    have "le_gen_id (l (start_addr tx + i * 64)) = le_gen_id (jlog s (start_addr tx + i * 64))" by simp
    with ok that show ?thesis by (simp add: seg_ok_def)
  next
    case False
    with old [of i] ok that show ?thesis by (simp add: seg_ok_def)
  qed
  have valid: "l (start_addr tx + i * 64) = (tx_entries tx s @ es) ! i" if "i < num_used tx + length es" for i
    using that old [of i] new [of i] by (cases "i < num_used tx") (auto simp: nth_append nth_tx_entries)
  have "tx_shape (t_gen_id tx) (tx_entries tx s @ es)"
    unfolding tx_shape_def
  proof (intro conjI allI impI)
    show "\<forall>e\<in>set (tx_entries tx s @ es). le_gen_id e = t_gen_id tx"
      using ok shape(1) by (auto simp: seg_ok_def tx_shape_def)
    show "le_first ((tx_entries tx s @ es) ! i) = (i = 0)" if "i < length (tx_entries tx s @ es)" for i
      using that ok shape(2) by (auto simp: seg_ok_def tx_shape_def nth_append)
    show "\<not> le_final ((tx_entries tx s @ es) ! i)" if i: "Suc i < length (tx_entries tx s @ es)" for i
    proof (cases "i < num_used tx")
      case True
      then have "tx_entries tx s ! i \<in> set (tx_entries tx s)" by simp
      with True nf show ?thesis by (auto simp: nth_append)
    next
      case False
      with i shape(3) show ?thesis by (simp add: nth_append Suc_diff_le [symmetric])
    qed
  qed
  with room l(2) valid stale show "seg_ok s' (t_gen_id tx) (start_addr tx) (num_entries tx) (tx_entries tx' s')"
    unfolding ents seg_ok_def by (simp add: l(1))
qed

lemma tx_inv_logs:
  assumes inv: "tx_inv E m0 tx s" and lg: "logs tx d es s s'" and room: "num_used tx + d \<le> num_entries tx"
    and data: "data_entries (t_gen_id tx) (num_used tx = 0) es" and undo: "undo_mem E es (jmem s) = jmem s"
  defines "tx' \<equiv> tx\<lparr>num_used := num_used tx + length es\<rparr>"
  shows "tx_inv E m0 tx' s'" "tx_entries tx' s' = tx_entries tx s @ es" "only_segment tx s s'"
proof -
  have i: "seg_ok s (t_gen_id tx) (start_addr tx) (num_entries tx) (tx_entries tx s)"
    "\<forall>e\<in>set (tx_entries tx s). \<not> le_final e" "undo_mem E (tx_entries tx s) (jmem s) = m0" "\<not> redo_log s"
    using inv by (auto simp: tx_inv_def)
  have d: "\<forall>e\<in>set es. le_gen_id e = t_gen_id tx" "\<forall>j<length es. le_first (es ! j) \<longleftrightarrow> num_used tx = 0 \<and> j = 0"
    "\<forall>j. Suc j < length es \<longrightarrow> \<not> le_final (es ! j)" "\<forall>e\<in>set es. \<not> le_final e"
    using data by (auto simp: data_entries_def)
  note seg = logs_segment [OF i(1) lg room i(2) d(1-3), folded tx'_def]
  show "tx_entries tx' s' = tx_entries tx s @ es" "only_segment tx s s'" by (rule seg)+
  show "tx_inv E m0 tx' s'"
    using seg(1) i d(4) undo unfolding tx_inv_def seg(2,4,5)
    by (auto simp: tx'_def undo_mem_append)
qed

text \<open>The steps of a transaction: logging a range, and changing bytes that have been logged.\<close>

datatype tx_op = TxLog nat nat | TxStore nat "8 word list"

fun tx_step :: "addressing \<Rightarrow> tx_op \<Rightarrow> pmfs_transaction \<times> jstate \<Rightarrow> pmfs_transaction \<times> jstate" where
  "tx_step E (TxLog addr n) (tx, s) =
     (case pmfs_add_logentry E tx addr n LE_DATA s of (Inr tx', s') \<Rightarrow> (tx', s') | (Inl _, s') \<Rightarrow> (tx, s'))"
| "tx_step E (TxStore addr bs) (tx, s) = (tx, s\<lparr>jmem := mem_write (jmem s) addr bs\<rparr>)"

fun tx_op_ok :: "addressing \<Rightarrow> tx_op \<Rightarrow> pmfs_transaction \<times> jstate \<Rightarrow> bool" where
  "tx_op_ok E (TxLog addr n) (tx, s) \<longleftrightarrow> 0 < n \<and> addressable E (blockoff_of E addr) addr n"
| "tx_op_ok E (TxStore addr bs) (tx, s) \<longleftrightarrow> {addr..<addr + length bs} \<subseteq> covered E (tx_entries tx s)"

fun tx_run :: "addressing \<Rightarrow> tx_op list \<Rightarrow> pmfs_transaction \<times> jstate \<Rightarrow> pmfs_transaction \<times> jstate" where
  "tx_run E [] c = c"
| "tx_run E (op # ops) c = tx_run E ops (tx_step E op c)"

fun tx_run_ok :: "addressing \<Rightarrow> tx_op list \<Rightarrow> pmfs_transaction \<times> jstate \<Rightarrow> bool" where
  "tx_run_ok E [] c \<longleftrightarrow> True"
| "tx_run_ok E (op # ops) c \<longleftrightarrow> tx_op_ok E op c \<and> tx_run_ok E ops (tx_step E op c)"

lemma addlog_entries_bounds:
  "0 < n \<Longrightarrow> addlog_entries n LE_DATA * 48 < n + 48 \<and> n \<le> addlog_entries n LE_DATA * 48"
proof -
  assume "0 < n"
  then have e: "addlog_entries n LE_DATA = (n + 47) div 48" by (simp add: addlog_entries_def)
  have "(n + 47) div 48 * 48 \<le> n + 47" by simp
  moreover have "n + 47 < (n + 47) div 48 * 48 + 48" using dividend_less_div_times [of 48 "n + 47"] by simp
  ultimately show ?thesis unfolding e by linarith
qed

lemma tx_log_stores:
  assumes inv: "tx_inv E m0 tx s" and n: "0 < n" "addressable E (blockoff_of E a) a n"
    and room: "num_used tx + addlog_entries n LE_DATA \<le> num_entries tx"
  defines "fs \<equiv> fst (addlog_stores E False tx (blockoff_of E a) a n LE_DATA 0 (addlog_entries n LE_DATA))"
  shows "\<exists>tx'. tx_inv E m0 tx' (run_stores (take k fs) s) \<and> only_segment tx s (run_stores (take k fs) s) \<and>
      start_addr tx' = start_addr tx \<and> num_entries tx' = num_entries tx \<and> t_gen_id tx' = t_gen_id tx"
    "\<exists>tx' s'. pmfs_add_logentry E tx a n LE_DATA s = (Inr tx', s') \<and> tx_inv E m0 tx' s' \<and> only_segment tx s s' \<and>
      start_addr tx' = start_addr tx \<and> num_entries tx' = num_entries tx \<and> t_gen_id tx' = t_gen_id tx \<and>
      covered E (tx_entries tx' s') = covered E (tx_entries tx s) \<union> {a..<a + n}"
proof -
  let ?d = "addlog_entries n LE_DATA"
  obtain fs' where call: "addlog_stores E False tx (blockoff_of E a) a n LE_DATA 0 (0 + ?d) = (fs', tx\<lparr>num_used := num_used tx + ?d\<rparr>)"
    and full: "\<exists>es. logs tx ?d es s (run_stores fs' s) \<and> length es = ?d \<and> data_entries (t_gen_id tx) (0 = (0::nat) \<and> num_used tx = 0) es \<and>
      undo_mem E es (jmem s) = jmem s \<and> covered E es = {a..<a + n}"
    and part: "\<forall>k. \<exists>es. logs tx ?d es s (run_stores (take k fs') s) \<and> data_entries (t_gen_id tx) (0 = (0::nat) \<and> num_used tx = 0) es \<and>
      undo_mem E es (jmem s) = jmem s"
    using addlog_stores_data [OF n(2) conjunct1 conjunct2, OF addlog_entries_bounds addlog_entries_bounds, OF n(1) n(1), of tx 0 s] by blast
  have fs: "fs = fs'" using call by (simp add: fs_def)
  from part obtain es where es: "logs tx ?d es s (run_stores (take k fs) s)" "data_entries (t_gen_id tx) (num_used tx = 0) es"
    "undo_mem E es (jmem s) = jmem s" unfolding fs by auto
  from tx_inv_logs [OF inv es(1) room es(2,3)]
  show "\<exists>tx'. tx_inv E m0 tx' (run_stores (take k fs) s) \<and> only_segment tx s (run_stores (take k fs) s) \<and>
      start_addr tx' = start_addr tx \<and> num_entries tx' = num_entries tx \<and> t_gen_id tx' = t_gen_id tx"
    by (intro exI [of _ "tx\<lparr>num_used := num_used tx + length es\<rparr>"]) simp
  from full obtain es where es: "logs tx ?d es s (run_stores fs' s)" "length es = ?d" "data_entries (t_gen_id tx) (num_used tx = 0) es"
    "undo_mem E es (jmem s) = jmem s" "covered E es = {a..<a + n}" by auto
  note new = tx_inv_logs [OF inv es(1) room es(3,4), unfolded es(2)]
  have "\<not> redo_log s" using inv by (simp add: tx_inv_def)
  then have "pmfs_add_logentry E tx a n LE_DATA s = (Inr (tx\<lparr>num_used := num_used tx + ?d\<rparr>), run_stores fs' s)"
    using room call n(1) by (simp add: pmfs_add_logentry_def Let_def)
  with new es(5) show "\<exists>tx' s'. pmfs_add_logentry E tx a n LE_DATA s = (Inr tx', s') \<and> tx_inv E m0 tx' s' \<and> only_segment tx s s' \<and>
      start_addr tx' = start_addr tx \<and> num_entries tx' = num_entries tx \<and> t_gen_id tx' = t_gen_id tx \<and>
      covered E (tx_entries tx' s') = covered E (tx_entries tx s) \<union> {a..<a + n}"
    by simp
qed

section \<open>The invariant over a transaction's steps\<close>

lemma pmfs_add_logentry_err: "pmfs_add_logentry E tx a n t s = (Inl e, s') \<Longrightarrow> e = ENOMEM \<and> s' = s"
  by (auto simp: pmfs_add_logentry_def Let_def split: if_splits prod.splits)

definition same_tx :: "pmfs_transaction \<Rightarrow> pmfs_transaction \<Rightarrow> bool" where
  "same_tx tx tx' \<longleftrightarrow> start_addr tx' = start_addr tx \<and> num_entries tx' = num_entries tx \<and> t_gen_id tx' = t_gen_id tx"

lemma same_tx_only: "same_tx tx tx' \<Longrightarrow> only_segment tx' s s' \<longleftrightarrow> only_segment tx s s'"
  by (simp add: same_tx_def only_segment_def)

lemma tx_step_inv:
  assumes inv: "tx_inv E m0 tx s" and ok: "tx_op_ok E op (tx, s)" and st: "tx_step E op (tx, s) = (tx', s')"
  shows "tx_inv E m0 tx' s' \<and> only_segment tx s s' \<and> same_tx tx tx'"
proof (cases op)
  case (TxStore a bs)
  let ?m = "mem_write (jmem s) a bs"
  have s': "tx' = tx" "s' = s\<lparr>jmem := ?m\<rparr>" using st TxStore by simp_all
  have ents: "tx_entries tx s' = tx_entries tx s" by (simp add: tx_entries_def s')
  have "undo_mem E (tx_entries tx s) ?m = undo_mem E (tx_entries tx s) (jmem s)"
  proof (rule undo_mem_cong)
    fix x assume "x \<notin> covered E (tx_entries tx s)"
    with ok TxStore have "x \<notin> {a..<a + length bs}" by auto
    then show "?m x = jmem s x" by (intro mem_write_out) auto
  qed
  with inv ents show ?thesis
    by (auto simp: s' tx_inv_def seg_ok_def only_segment_def same_tx_def)
next
  case (TxLog a n)
  show ?thesis
  proof (cases "num_used tx + addlog_entries n LE_DATA \<le> num_entries tx")
    case True
    from ok TxLog have n: "0 < n" "addressable E (blockoff_of E a) a n" by simp_all
    from tx_log_stores(2) [OF inv n True] st TxLog show ?thesis by (auto simp: same_tx_def)
  next
    case False
    then have "pmfs_add_logentry E tx a n LE_DATA s = (Inl ENOMEM, s)"
      by (simp add: pmfs_add_logentry_def Let_def)
    with st TxLog inv show ?thesis by (simp add: same_tx_def)
  qed
qed

lemma tx_run_inv:
  "tx_inv E m0 tx s \<Longrightarrow> tx_run_ok E ops (tx, s) \<Longrightarrow> tx_run E ops (tx, s) = (tx', s') \<Longrightarrow>
    tx_inv E m0 tx' s' \<and> only_segment tx s s' \<and> same_tx tx tx'"
proof (induction ops arbitrary: tx s)
  case (Cons op ops)
  obtain tx1 s1 where st: "tx_step E op (tx, s) = (tx1, s1)" by (cases "tx_step E op (tx, s)")
  have 1: "tx_inv E m0 tx1 s1 \<and> only_segment tx s s1 \<and> same_tx tx tx1"
    by (rule tx_step_inv [OF Cons.prems(1) _ st]) (use Cons.prems(2) in simp)
  have "tx_inv E m0 tx' s' \<and> only_segment tx1 s1 s' \<and> same_tx tx1 tx'"
    by (rule Cons.IH) (use 1 Cons.prems st in simp_all)
  moreover from this 1 have "only_segment tx s1 s'" using same_tx_only by blast
  ultimately show ?case using 1 only_segment_trans [of tx s s1 s'] by (simp add: same_tx_def)
qed (auto simp: same_tx_def)

text \<open>A transaction that has reserved its entries and logged nothing.\<close>

lemma tx_inv_start:
  assumes "\<not> redo_log s" "num_used tx = 0"
    "\<forall>i<num_entries tx. le_gen_id (jlog s (start_addr tx + i * 64)) \<noteq> t_gen_id tx"
  shows "tx_inv E (jmem s) tx s"
  using assms by (auto simp: tx_inv_def seg_ok_def tx_shape_def tx_entries_def)

section \<open>The end of a transaction\<close>

lemma end_stores:
  assumes t: "t = LE_COMMIT \<or> t = LE_ABORT" and undo: "\<not> redo_log s"
  shows "\<exists>fs e. addlog_stores E False tx 0 0 0 t 0 1 = (fs, tx\<lparr>num_used := num_used tx + 1\<rparr>) \<and>
    run_stores fs s = s\<lparr>jlog := (jlog s)(tx_pos tx 0 := e)\<rparr> \<and> le_gen_id e = t_gen_id tx \<and> le_final e \<and>
    (le_first e \<longleftrightarrow> num_used tx = 0) \<and>
    (\<forall>k<length fs. \<exists>e. run_stores (take k fs) s = s\<lparr>jlog := (jlog s)(tx_pos tx 0 := e)\<rparr> \<and>
       le_gen_id e = le_gen_id (jlog s (tx_pos tx 0)))"
proof -
  define le where "le = tx_pos tx 0"
  have le: "start_addr tx + num_used tx * 64 = le" by (simp add: le_def)
  let ?tx = "tx\<lparr>num_used := num_used tx + 1\<rparr>" and ?first = "num_used tx = 0"
  let ?es = "entry_stores tx le 0 0 0 t ?first"
  let ?e = "new_entry s tx le 0 0 0 t ?first"
  let ?or = "set_entry le (\<lambda>e. e\<lparr>le_type := le_type e OR LE_COMMIT\<rparr>)"
  have stop: "addlog_stores E False tx0 ls 0 0 t 1 1 = ([], tx0)" for tx0 ls by (subst addlog_stores.simps) simp
  have final: "le_final ?e" "le_first ?e \<longleftrightarrow> ?first" using t by (auto simp: le_final_def le_first_def new_entry_def)
  have pre: "\<exists>e. run_stores (take k ?es) s = s\<lparr>jlog := (jlog s)(le := e)\<rparr> \<and> le_gen_id e = le_gen_id (jlog s le)" for k
    by (rule entry_stores_prefix)
  have val: "valid_store ?tx le (run_stores ?es s) = s\<lparr>jlog := (jlog s)(le := ?e)\<rparr>"
    using entry_stores_valid [of ?tx le tx 0 0 0 t ?first s] by (simp add: new_entry_def)
  from t show ?thesis
  proof
    assume t: "t = LE_ABORT"
    have call: "addlog_stores E False tx 0 0 0 t 0 1 = (?es @ [valid_store ?tx le], ?tx)"
      using t stop by (subst addlog_stores.simps) (simp add: Let_def le)
    have full: "run_stores (?es @ [valid_store ?tx le]) s = s\<lparr>jlog := (jlog s)(le := ?e)\<rparr>" using val by simp
    have part: "\<exists>e. run_stores (take k (?es @ [valid_store ?tx le])) s = s\<lparr>jlog := (jlog s)(le := e)\<rparr> \<and>
        le_gen_id e = le_gen_id (jlog s le)" if "k < length (?es @ [valid_store ?tx le])" for k
      using that pre [of k] by simp
    show ?thesis
      by (rule exI, rule exI, intro conjI, rule call, unfold le_def [symmetric], rule full)
        (use part final in \<open>simp_all add: new_entry_def\<close>)
  next
    assume t: "t = LE_COMMIT"
    let ?cs = "[pmfs_flush_transaction E ?tx, ?or, valid_store ?tx le]"
    have call: "addlog_stores E False tx 0 0 0 t 0 1 = (?es @ ?cs, ?tx)"
      using t by (subst addlog_stores.simps) (simp add: Let_def commit_stores_def le)
    obtain e6 where e6: "run_stores ?es s = s\<lparr>jlog := (jlog s)(le := e6)\<rparr>" "le_gen_id e6 = le_gen_id (jlog s le)"
      using pre [of 6] by auto
    have flush: "pmfs_flush_transaction E tx' (s\<lparr>jlog := l\<rparr>) = s\<lparr>jlog := l\<rparr>" for tx' l
      using flush_transaction_undo undo by simp
    then have fl: "pmfs_flush_transaction E ?tx (run_stores ?es s) = run_stores ?es s"
      using e6 by simp
    have or6: "?or (run_stores ?es s) = s\<lparr>jlog := (jlog s)(le := e6\<lparr>le_type := le_type e6 OR LE_COMMIT\<rparr>)\<rparr>"
      by (simp add: e6)
    have "s\<lparr>jlog := (jlog s)(le := e6\<lparr>le_gen_id := t_gen_id tx\<rparr>)\<rparr> = s\<lparr>jlog := (jlog s)(le := ?e)\<rparr>"
      using val by (simp add: e6 valid_store_def)
    then have "jlog (s\<lparr>jlog := (jlog s)(le := e6\<lparr>le_gen_id := t_gen_id tx\<rparr>)\<rparr>) le = ?e" by simp
    then have e6': "e6\<lparr>le_gen_id := t_gen_id tx\<rparr> = ?e" by simp
    have "le_type e6 OR LE_COMMIT = le_type e6"
      using arg_cong [OF e6', of le_type] t by (auto simp: new_entry_def)
    then have full: "run_stores (?es @ ?cs) s = s\<lparr>jlog := (jlog s)(le := ?e)\<rparr>"
      using e6' by (simp add: flush e6 valid_store_def)
    have part: "\<exists>e. run_stores (take k (?es @ ?cs)) s = s\<lparr>jlog := (jlog s)(le := e)\<rparr> \<and>
        le_gen_id e = le_gen_id (jlog s le)" if "k < length (?es @ ?cs)" for k
    proof -
      from that have "k < 9" by simp
      then consider "k \<le> 6" | "k = 7" | "k = 8" by linarith
      then show ?thesis
      proof cases
        case 1 then show ?thesis using pre [of k] by simp
      next
        case 2 then show ?thesis using e6 fl by auto
      next
        case 3
        then have "take k (?es @ ?cs) = ?es @ [pmfs_flush_transaction E ?tx, ?or]" by (simp add: numeral_eq_Suc)
        then have "run_stores (take k (?es @ ?cs)) s = ?or (run_stores ?es s)" using fl by simp
        with or6 e6(2) show ?thesis by auto
      qed
    qed
    show ?thesis
      by (rule exI, rule exI, intro conjI, rule call, unfold le_def [symmetric], rule full)
        (use part final in \<open>simp_all add: new_entry_def\<close>)
  qed
qed

lemma end_run:
  assumes t: "t = LE_COMMIT \<or> t = LE_ABORT"
    and inv: "tx_inv E m0 tx s" and room: "num_used tx < num_entries tx"
  defines "tx' \<equiv> tx\<lparr>num_used := num_used tx + 1\<rparr>"
  shows "\<exists>s'. pmfs_add_logentry E tx 0 0 t s = (Inr tx', s') \<and> jmem s' = jmem s \<and> only_segment tx s s' \<and>
    seg_ok s' (t_gen_id tx) (start_addr tx) (num_entries tx) (tx_entries tx' s') \<and> finished (tx_entries tx' s')"
proof -
  have i: "seg_ok s (t_gen_id tx) (start_addr tx) (num_entries tx) (tx_entries tx s)"
    "\<forall>e\<in>set (tx_entries tx s). \<not> le_final e" "\<not> redo_log s"
    using inv by (auto simp: tx_inv_def)
  obtain fs e where fs: "addlog_stores E False tx 0 0 0 t 0 1 = (fs, tx\<lparr>num_used := num_used tx + 1\<rparr>)"
    and e: "run_stores fs s = s\<lparr>jlog := (jlog s)(tx_pos tx 0 := e)\<rparr>" "le_gen_id e = t_gen_id tx" "le_final e"
      "le_first e \<longleftrightarrow> num_used tx = 0"
    using end_stores [OF t i(3), of E tx] by (elim exE conjE) (rule that)
  have one: "addlog_entries 0 t = 1" using t by (auto simp: addlog_entries_def)
  have call: "pmfs_add_logentry E tx 0 0 t s = (Inr (tx\<lparr>num_used := num_used tx + 1\<rparr>), run_stores fs s)"
    using room fs i(3) by (simp add: pmfs_add_logentry_def one)
  have lg: "logs tx 1 [e] s (run_stores fs s)"
    unfolding e(1) logs_def by (intro exI [of _ "(jlog s)(tx_pos tx 0 := e)"]) (simp add: le_Suc_eq)
  have sh: "\<forall>e'\<in>set [e]. le_gen_id e' = t_gen_id tx" "\<forall>j<length [e]. le_first ([e] ! j) \<longleftrightarrow> num_used tx = 0 \<and> j = 0"
    "\<forall>j. Suc j < length [e] \<longrightarrow> \<not> le_final ([e] ! j)" using e by auto
  have rm: "num_used tx + 1 \<le> num_entries tx" using room by simp
  have len: "length [e] = 1" by simp
  note seg = logs_segment [OF i(1) lg rm i(2) sh, unfolded len]
  have fin: "finished (tx_entries (tx\<lparr>num_used := num_used tx + 1\<rparr>) (run_stores fs s))"
    unfolding seg(2) finished_def using e(3) by simp
  show ?thesis
    unfolding tx'_def by (rule exI, intro conjI, rule call, rule seg(4), rule seg(3), rule seg(1), rule fin)
qed

text \<open>Aborting gives back the memory the transaction started from, whatever it did.\<close>

lemma abort_mem:
  assumes inv: "tx_inv E m0 tx s"
  shows "jmem (pmfs_abort_transaction E tx s) = m0"
proof -
  have i: "seg_ok s (t_gen_id tx) (start_addr tx) (num_entries tx) (tx_entries tx s)" "\<not> redo_log s"
    "undo_mem E (tx_entries tx s) (jmem s) = m0" using inv by (auto simp: tx_inv_def)
  then have un: "pmfs_undo_transaction E tx s = s\<lparr>jmem := m0\<rparr>"
    using pmfs_undo_transaction_eq [of tx s E] by (auto simp: seg_ok_def tx_shape_def)
  obtain fs e where fs: "addlog_stores E False tx 0 0 0 LE_ABORT 0 1 = (fs, tx\<lparr>num_used := num_used tx + 1\<rparr>)"
    and run: "run_stores fs (s\<lparr>jmem := m0\<rparr>) = (s\<lparr>jmem := m0\<rparr>)\<lparr>jlog := (jlog (s\<lparr>jmem := m0\<rparr>))(tx_pos tx 0 := e)\<rparr>"
    using end_stores [of LE_ABORT "s\<lparr>jmem := m0\<rparr>" E tx] i(2) by (simp, elim exE conjE) (rule that, simp_all)
  have "addlog_entries 0 LE_ABORT = 1" by (simp add: addlog_entries_def)
  with fs run i(2) show ?thesis
    by (simp add: pmfs_abort_transaction_def pmfs_add_logentry_def un Let_def)
qed

lemma commit_mem:
  assumes inv: "tx_inv E m0 tx s" and room: "num_used tx < num_entries tx"
  shows "jmem (pmfs_commit_transaction E tx s) = jmem s"
  using end_run [of LE_COMMIT, OF disjI1 [OF refl] inv room] by (auto simp: pmfs_commit_transaction_def)

section \<open>Recovery after a crash inside a transaction\<close>

definition seg_of :: "pmfs_transaction \<Rightarrow> jstate \<Rightarrow> segment" where
  "seg_of tx s = \<lparr>sg_gen = t_gen_id tx, sg_off = start_addr tx, sg_n = num_entries tx, sg_entries = tx_entries tx s\<rparr>"

lemma tiles_off: "tiles s g a (xs @ sg # ys) b \<Longrightarrow> a \<le> sg_off sg"
proof (induction xs arbitrary: a)
  case (Cons y xs)
  from Cons.prems have "tiles s g (a + sg_n y * 64) (xs @ sg # ys) b" by simp
  from Cons.IH [OF this] show ?case by simp
qed simp

lemma tiles_end: "tiles s g a (xs @ sg # ys) b \<Longrightarrow> sg_off sg + sg_n sg * 64 \<le> b"
proof (induction xs arbitrary: a)
  case Nil
  then show ?case using tiles_le by auto
qed auto

lemma tiles_update:
  "tiles s g a (xs @ sg # ys) b \<Longrightarrow> seg_ok s' (sg_gen sg) (sg_off sg) (sg_n sg) es \<Longrightarrow>
   \<forall>x. x < sg_off sg \<or> sg_off sg + sg_n sg * 64 \<le> x \<longrightarrow> jlog s' x = jlog s x \<Longrightarrow>
   tiles s' g a (xs @ sg\<lparr>sg_entries := es\<rparr> # ys) b"
proof (induction xs arbitrary: a)
  case Nil
  then have "tiles s' g (a + sg_n sg * 64) ys b" by (auto intro!: tiles_cong [of s])
  with Nil show ?case by simp
next
  case (Cons y xs)
  then have y: "seg_ok s g a (sg_n y) (sg_entries y)" "tiles s g (a + sg_n y * 64) (xs @ sg # ys) b" by simp_all
  have "a + sg_n y * 64 \<le> sg_off sg" by (rule tiles_off [OF y(2)])
  then have "seg_ok s' g a (sg_n y) (sg_entries y)"
    by (intro seg_ok_cong [OF y(1)]) (use Cons.prems(3) in auto)
  with Cons show ?case by simp
qed

lemma live_log_update:
  assumes live: "live_log s (xs @ sg # ys)" and hd: "journal s' = journal s" "jsize s' = jsize s"
    and seg: "seg_ok s' (sg_gen sg) (sg_off sg) (sg_n sg) es"
    and out: "\<forall>x. x < sg_off sg \<or> sg_off sg + sg_n sg * 64 \<le> x \<longrightarrow> jlog s' x = jlog s x"
  shows "live_log s' (xs @ sg\<lparr>sg_entries := es\<rparr> # ys)"
proof (cases "j_head (journal s) \<le> j_tail (journal s)")
  case True
  with live tiles_update [OF _ seg out] show ?thesis by (auto simp: live_log_def Let_def hd)
next
  case False
  let ?h = "j_head (journal s)" and ?t = "j_tail (journal s)" and ?g = "j_gen_id (journal s)"
  let ?sg = "sg\<lparr>sg_entries := es\<rparr>"
  from live False obtain s1 s2 where sp: "xs @ sg # ys = s1 @ s2" and b: "0 < ?h" "?h < jsize s"
    and t1: "tiles s (prev_gen_id ?g) ?h s1 (jsize s)" and t2: "tiles s ?g 0 s2 ?t"
    by (auto simp: live_log_def Let_def)
  have "\<exists>s1' s2'. xs @ ?sg # ys = s1' @ s2' \<and> tiles s' (prev_gen_id ?g) ?h s1' (jsize s) \<and> tiles s' ?g 0 s2' ?t"
  proof (cases "length xs < length s1")
    case True
    then obtain ys1 where s1: "s1 = xs @ sg # ys1" and ys: "ys = ys1 @ s2"
      using sp by (auto simp: append_eq_append_conv2 append_eq_Cons_conv Cons_eq_append_conv)
    have "?h \<le> sg_off sg" using t1 unfolding s1 by (rule tiles_off)
    then have "tiles s' ?g 0 s2 ?t"
      by (intro tiles_cong [OF t2]) (use out False in auto)
    with tiles_update [OF _ seg out] t1 show ?thesis
      by (intro exI [of _ "xs @ ?sg # ys1"] exI [of _ s2]) (simp add: s1 ys)
  next
    case False
    then obtain xs2 where s2: "s2 = xs2 @ sg # ys" and xs: "xs = s1 @ xs2"
      using sp by (auto simp: append_eq_append_conv2 append_eq_Cons_conv Cons_eq_append_conv)
    have "sg_off sg + sg_n sg * 64 \<le> ?t" using t2 unfolding s2 by (rule tiles_end)
    then have "tiles s' (prev_gen_id ?g) ?h s1 (jsize s)"
      by (intro tiles_cong [OF t1]) (use out \<open>\<not> ?h \<le> ?t\<close> in auto)
    with tiles_update [OF _ seg out] t2 show ?thesis
      by (intro exI [of _ s1] exI [of _ "xs2 @ ?sg # ys"]) (simp add: s2 xs)
  qed
  with False b show ?thesis by (simp add: live_log_def Let_def hd)
qed

definition quiet :: "segment \<Rightarrow> bool" where
  "quiet sg \<longleftrightarrow> sg_entries sg = [] \<or> finished (sg_entries sg)"

lemma rec_mem_quiet: "\<forall>sg\<in>set segs. quiet sg \<Longrightarrow> rec_mem E segs m = m"
  by (induction segs) (auto simp: seg_mem_def quiet_def)

lemma tiles_seg: "tiles s g a (xs @ sg # ys) b \<Longrightarrow> sg_gen sg = g \<and> seg_ok s g (sg_off sg) (sg_n sg) (sg_entries sg)"
  by (induction xs arbitrary: a) auto

lemma live_log_seg:
  assumes "live_log s (xs @ sg # ys)"
  shows "seg_ok s (sg_gen sg) (sg_off sg) (sg_n sg) (sg_entries sg)"
proof -
  have "\<exists>g a b us vs. tiles s g a (us @ sg # vs) b"
  proof (cases "j_head (journal s) \<le> j_tail (journal s)")
    case True
    with assms have "tiles s (j_gen_id (journal s)) (j_head (journal s)) (xs @ sg # ys) (j_tail (journal s))"
      by (simp add: live_log_def Let_def)
    then show ?thesis by blast
  next
    case False
    with assms obtain s1 s2 a b g1 g2 where sp: "xs @ sg # ys = s1 @ s2" "tiles s g1 a s1 b" "tiles s g2 0 s2 (j_tail (journal s))"
      by (auto simp: live_log_def Let_def)
    have "sg \<in> set (s1 @ s2)" unfolding sp(1) [symmetric] by simp
    then have "sg \<in> set s1 \<or> sg \<in> set s2" by simp
    then show ?thesis
      using sp(2,3) by (metis split_list)
  qed
  then show ?thesis using tiles_seg by metis
qed

lemma seg_of_same: "same_tx tx tx' \<Longrightarrow> (seg_of tx s)\<lparr>sg_entries := tx_entries tx' s'\<rparr> = seg_of tx' s'"
  by (simp add: seg_of_def same_tx_def)

lemma live_log_tx:
  assumes live: "live_log s (xs @ seg_of tx s # ys)" and only: "only_segment tx s s'" and same: "same_tx tx tx'"
    and seg: "seg_ok s' (t_gen_id tx) (start_addr tx) (num_entries tx) (tx_entries tx' s')"
  shows "live_log s' (xs @ seg_of tx' s' # ys)"
proof -
  have "live_log s' (xs @ (seg_of tx s)\<lparr>sg_entries := tx_entries tx' s'\<rparr> # ys)"
    by (rule live_log_update [OF live]) (use only seg in \<open>simp_all add: only_segment_def seg_of_def\<close>)
  then show ?thesis by (simp add: seg_of_same [OF same])
qed

lemma tx_inv_fresh:
  assumes "live_log s (xs @ seg_of tx s # ys)" "\<not> redo_log s" "num_used tx = 0"
  shows "tx_inv E (jmem s) tx s"
  using live_log_seg [OF assms(1)] assms(2,3)
  by (auto simp: tx_inv_def seg_of_def tx_entries_def)

text \<open>
  A crash between any two stores of a transaction, also in the middle of a log call, while the other
  transactions in the log are finished: recovery gives back the memory the transaction started from.
\<close>

theorem crash_in_transaction:
  assumes live: "live_log s (xs @ seg_of tx s # ys)" and q: "\<forall>sg\<in>set (xs @ ys). quiet sg"
    and new: "\<not> redo_log s" "num_used tx = 0"
    and run: "tx_run_ok E ops (tx, s)" "tx_run E ops (tx, s) = (tx', s')"
    and log: "0 < n" "addressable E (blockoff_of E a) a n" "num_used tx' + addlog_entries n LE_DATA \<le> num_entries tx'"
    and crash: "s'' = run_stores (take k (fst (addlog_stores E False tx' (blockoff_of E a) a n LE_DATA 0
                  (addlog_entries n LE_DATA)))) s'"
  shows "\<exists>r. pmfs_recover_journal E s'' = Some r \<and> jmem r = jmem s"
proof -
  have inv: "tx_inv E (jmem s) tx s" by (rule tx_inv_fresh [OF live new])
  have r1: "tx_inv E (jmem s) tx' s'" "only_segment tx s s'" "same_tx tx tx'"
    using tx_run_inv [OF inv run] by auto
  obtain tx2 where t2: "tx_inv E (jmem s) tx2 s''" "only_segment tx' s' s''" "same_tx tx' tx2"
    using tx_log_stores(1) [OF r1(1) log, of k] unfolding crash [symmetric] same_tx_def by blast
  have same: "same_tx tx tx2" using r1(3) t2(3) by (simp add: same_tx_def)
  have only: "only_segment tx s s''"
    using only_segment_trans [OF r1(2)] t2(2) same_tx_only [OF r1(3)] by blast
  have ok: "seg_ok s'' (t_gen_id tx) (start_addr tx) (num_entries tx) (tx_entries tx2 s'')" "\<not> redo_log s''"
    "undo_mem E (tx_entries tx2 s'') (jmem s'') = jmem s" "\<not> finished (tx_entries tx2 s'')"
    using t2(1) same by (auto simp: tx_inv_def same_tx_def finished_def)
  have live2: "live_log s'' (xs @ seg_of tx2 s'' # ys)" by (rule live_log_tx [OF live only same ok(1)])
  have "rec_mem E (xs @ seg_of tx2 s'' # ys) (jmem s'') = jmem s"
    using ok(3,4) q by (auto simp: rec_mem_append rec_mem_quiet seg_mem_def seg_of_def)
  with recover_undo_journal [OF live2 ok(2)] show ?thesis by metis
qed

text \<open>Once the commit entry is written, recovery keeps what the transaction wrote.\<close>

theorem commit_survives:
  assumes live: "live_log s (xs @ seg_of tx s # ys)" and q: "\<forall>sg\<in>set (xs @ ys). quiet sg"
    and new: "\<not> redo_log s" "num_used tx = 0"
    and run: "tx_run_ok E ops (tx, s)" "tx_run E ops (tx, s) = (tx', s')"
    and room: "num_used tx' < num_entries tx'"
  shows "\<exists>r. pmfs_recover_journal E (pmfs_commit_transaction E tx' s') = Some r \<and> jmem r = jmem s'"
proof -
  have inv: "tx_inv E (jmem s) tx s" by (rule tx_inv_fresh [OF live new])
  have r1: "tx_inv E (jmem s) tx' s'" "only_segment tx s s'" "same_tx tx tx'"
    using tx_run_inv [OF inv run] by auto
  let ?tx2 = "tx'\<lparr>num_used := num_used tx' + 1\<rparr>"
  obtain s2 where e: "pmfs_add_logentry E tx' 0 0 LE_COMMIT s' = (Inr ?tx2, s2)" "jmem s2 = jmem s'" "only_segment tx' s' s2"
    "seg_ok s2 (t_gen_id tx') (start_addr tx') (num_entries tx') (tx_entries ?tx2 s2)" "finished (tx_entries ?tx2 s2)"
    using end_run [of LE_COMMIT, OF disjI1 [OF refl] r1(1) room] by blast
  have same: "same_tx tx ?tx2" using r1(3) by (simp add: same_tx_def)
  have only: "only_segment tx s s2" using only_segment_trans [OF r1(2)] e(3) same_tx_only [OF r1(3)] by blast
  have live2: "live_log s2 (xs @ seg_of ?tx2 s2 # ys)"
    by (rule live_log_tx [OF live only same]) (use e(4) r1(3) in \<open>simp add: same_tx_def\<close>)
  have "\<not> redo_log s2" using only new by (simp add: only_segment_def)
  moreover have "rec_mem E (xs @ seg_of ?tx2 s2 # ys) (jmem s2) = jmem s2"
    by (rule rec_mem_quiet) (use q e(5) in \<open>auto simp: quiet_def seg_of_def\<close>)
  ultimately show ?thesis
    using recover_undo_journal [OF live2] e(1,2) by (simp add: pmfs_commit_transaction_def) metis
qed

section \<open>Reserving entries\<close>

lemma tiles_append: "tiles s g a xs b \<Longrightarrow> tiles s g b ys c \<Longrightarrow> tiles s g a (xs @ ys) c"
  by (induction s g a xs b rule: tiles.induct) auto

lemma tx_entries_none: "num_used tx = 0 \<Longrightarrow> tx_entries tx s = []"
  by (simp add: tx_entries_def)

lemma tiles_same_log: "jlog t = jlog s \<Longrightarrow> tiles s g a xs b \<Longrightarrow> tiles t g a xs b"
  by (rule tiles_cong) auto

definition avail_of :: "jstate \<Rightarrow> nat \<Rightarrow> nat \<Rightarrow> nat" where
  "avail_of s head tail = (if tail \<ge> head then jsize s - (tail - head) else head - tail) - 64"

lemma new_transaction_eq:
  assumes "\<not> redo_log s" "jkmem_ok s"
  shows "pmfs_new_transaction E n s =
    new_transaction_again (Suc (Suc (Suc 0))) E (j_head (journal s)) (j_tail (journal s)) ((n + 1) * 64)
      \<lparr>t_transaction_id = next_transaction_id s, num_entries = n + 1, num_used = 0, t_gen_id = 0, start_addr = 0\<rparr>
      (s\<lparr>next_transaction_id := next_transaction_id s + 1\<rparr>)"
  using assms unfolding pmfs_new_transaction_def numeral_3_eq_3 Let_def by simp

lemma again_fit:
  assumes "req \<le> avail_of s head tail" "tail + req < jsize s"
  shows "new_transaction_again (Suc f) E head tail req tx s =
    Some (Inr (tx\<lparr>t_gen_id := j_gen_id (journal s), start_addr := tail\<rparr>), s\<lparr>journal := (journal s)\<lparr>j_tail := tail + req\<rparr>\<rparr>)"
  using assms unfolding avail_of_def new_transaction_again.simps Let_def by (simp add: not_less not_le)

lemma again_wrap:
  assumes "req \<le> avail_of s head tail" "jsize s \<le> tail + req"
  shows "new_transaction_again (Suc f) E head tail req tx s =
    new_transaction_again f E head 0 req (tx\<lparr>t_gen_id := j_gen_id (journal s)\<rparr>)
      (s\<lparr>journal := (journal s)\<lparr>j_tail := 0, j_gen_id := next_gen_id (j_gen_id (journal s))\<rparr>\<rparr>)"
  using assms unfolding avail_of_def new_transaction_again.simps Let_def by (simp add: not_less not_le)

lemma again_wrap_cleaned:
  assumes "avail_of s head tail < req" "free_retry 3 E (avail_of s head tail) req 0 s = Some (freed, s1)"
    "req \<le> avail_of s head tail + freed" "jsize s1 \<le> tail + req"
  shows "new_transaction_again (Suc f) E head tail req tx s =
    new_transaction_again f E head 0 req (tx\<lparr>t_gen_id := j_gen_id (journal s)\<rparr>)
      (s1\<lparr>journal := (journal s1)\<lparr>j_tail := 0, j_gen_id := next_gen_id (j_gen_id (journal s1))\<rparr>\<rparr>)"
  using assms unfolding avail_of_def new_transaction_again.simps Let_def by (simp add: not_less)

text \<open>With room before the end of the log and before the head, the run at the tail is reserved.\<close>

lemma new_transaction_room:
  assumes live: "live_log s segs" and s: "\<not> redo_log s" "jkmem_ok s"
    and room: "j_head (journal s) \<le> j_tail (journal s) \<Longrightarrow>
        j_tail (journal s) - j_head (journal s) + 64 + (n + 1) * 64 \<le> jsize s \<and> j_tail (journal s) + (n + 1) * 64 < jsize s"
      "j_tail (journal s) < j_head (journal s) \<Longrightarrow> j_tail (journal s) + (n + 1) * 64 + 64 \<le> j_head (journal s)"
    and stale: "\<forall>i<n + 1. le_gen_id (jlog s (j_tail (journal s) + i * 64)) \<noteq> j_gen_id (journal s)"
  shows "\<exists>tx s'. pmfs_new_transaction E n s = Some (Inr tx, s') \<and> live_log s' (segs @ [seg_of tx s']) \<and>
    num_used tx = 0 \<and> num_entries tx = n + 1 \<and> start_addr tx = j_tail (journal s) \<and> jmem s' = jmem s \<and> \<not> redo_log s'"
proof -
  let ?h = "j_head (journal s)" and ?t = "j_tail (journal s)" and ?g = "j_gen_id (journal s)" and ?r = "(n + 1) * 64"
  define tx where "tx = \<lparr>t_transaction_id = next_transaction_id s, num_entries = n + 1, num_used = 0,
    t_gen_id = ?g, start_addr = ?t\<rparr>"
  define s' where "s' = s\<lparr>next_transaction_id := next_transaction_id s + 1, journal := (journal s)\<lparr>j_tail := ?t + ?r\<rparr>\<rparr>"
  let ?s1 = "s\<lparr>next_transaction_id := next_transaction_id s + 1\<rparr>"
  have av: "?r \<le> avail_of ?s1 ?h ?t" using room by (cases "?h \<le> ?t") (auto simp: avail_of_def)
  have hj: "?t < ?h \<Longrightarrow> ?h < jsize s" using live by (auto simp: live_log_def Let_def)
  have end_: "?t + ?r < jsize s" using room hj by (cases "?h \<le> ?t") auto
  have call: "pmfs_new_transaction E n s = Some (Inr tx, s')"
    unfolding new_transaction_eq [OF s] by (subst again_fit [OF av]) (use end_ in \<open>simp_all add: tx_def s'_def\<close>)
  have seg: "tiles s' ?g ?t [seg_of tx s'] (?t + ?r)"
    using stale by (simp add: seg_of_def seg_ok_def tx_def s'_def tx_entries_def tx_shape_def)
  have lg: "jlog s' = jlog s" by (simp add: s'_def)
  have "live_log s' (segs @ [seg_of tx s'])"
  proof (cases "?h \<le> ?t")
    case True
    then have "tiles s ?g ?h segs ?t" using live by (simp add: live_log_def Let_def)
    then have "tiles s' ?g ?h (segs @ [seg_of tx s']) (?t + ?r)"
      using tiles_append [OF tiles_same_log [OF lg] seg] by blast
    with True end_ show ?thesis by (simp add: live_log_def Let_def s'_def)
  next
    case False
    then obtain s1 s2 where sp: "segs = s1 @ s2" "0 < ?h" "?h < jsize s"
      "tiles s (prev_gen_id ?g) ?h s1 (jsize s)" "tiles s ?g 0 s2 ?t"
      using live by (auto simp: live_log_def Let_def)
    have "tiles s' ?g 0 (s2 @ [seg_of tx s']) (?t + ?r)" using tiles_append [OF tiles_same_log [OF lg sp(5)] seg] .
    moreover have "tiles s' (prev_gen_id ?g) ?h s1 (jsize s)" using tiles_same_log [OF lg sp(4)] .
    ultimately have "\<exists>a b. segs @ [seg_of tx s'] = a @ b \<and> tiles s' (prev_gen_id ?g) ?h a (jsize s) \<and> tiles s' ?g 0 b (?t + ?r)"
      using sp(1) by (intro exI [of _ s1] exI [of _ "s2 @ [seg_of tx s']"]) simp
    with False room sp(2,3) show ?thesis by (auto simp: live_log_def Let_def s'_def)
  qed
  with call show ?thesis
    by (intro exI [of _ tx] exI [of _ s']) (simp add: tx_def s'_def s)
qed

text \<open>
  Without room before the end of the log, the rest of the log is skipped and the run is reserved at
  the start, under the next generation.
\<close>

lemma new_transaction_wrap:
  assumes live: "live_log s segs" and s: "\<not> redo_log s" "jkmem_ok s"
    and order: "j_head (journal s) \<le> j_tail (journal s)" "64 dvd jsize s" "64 dvd j_tail (journal s)" "j_gen_id (journal s) \<noteq> 0"
    and room: "(n + 1) * 64 + 64 \<le> j_head (journal s)" "j_tail (journal s) + (n + 1) * 64 \<ge> jsize s"
      "j_tail (journal s) < jsize s"
    and stale: "\<forall>x. j_tail (journal s) \<le> x \<longrightarrow> le_gen_id (jlog s x) \<noteq> j_gen_id (journal s)"
      "\<forall>x<(n + 1) * 64. le_gen_id (jlog s x) \<noteq> next_gen_id (j_gen_id (journal s))"
  shows "\<exists>tx s' pad. pmfs_new_transaction E n s = Some (Inr tx, s') \<and> live_log s' (segs @ [pad, seg_of tx s']) \<and> quiet pad \<and>
    num_used tx = 0 \<and> num_entries tx = n + 1 \<and> start_addr tx = 0 \<and> jmem s' = jmem s \<and> \<not> redo_log s'"
proof -
  let ?h = "j_head (journal s)" and ?t = "j_tail (journal s)" and ?g = "j_gen_id (journal s)" and ?r = "(n + 1) * 64"
  let ?g' = "next_gen_id ?g"
  define tx where "tx = \<lparr>t_transaction_id = next_transaction_id s, num_entries = n + 1, num_used = 0,
    t_gen_id = ?g', start_addr = 0\<rparr>"
  define s' where "s' = s\<lparr>next_transaction_id := next_transaction_id s + 1,
    journal := (journal s)\<lparr>j_tail := ?r, j_gen_id := ?g'\<rparr>\<rparr>"
  have hj: "?h < jsize s" "?r < jsize s" "0 < ?h" "?r < ?h" using order room by auto
  let ?s1 = "s\<lparr>next_transaction_id := next_transaction_id s + 1\<rparr>"
  let ?s2 = "?s1\<lparr>journal := (journal ?s1)\<lparr>j_tail := 0, j_gen_id := ?g'\<rparr>\<rparr>"
  have av1: "?r \<le> avail_of ?s1 ?h ?t" and av2: "?r \<le> avail_of ?s2 ?h 0"
    using order room by (auto simp: avail_of_def)
  have call: "pmfs_new_transaction E n s = Some (Inr tx, s')"
    unfolding new_transaction_eq [OF s]
    by (subst again_wrap [OF av1], use room in simp, subst again_fit)
      (use av2 hj in \<open>simp_all add: tx_def s'_def\<close>)
  define pad where "pad = \<lparr>sg_gen = ?g, sg_off = ?t, sg_n = (jsize s - ?t) div 64, sg_entries = []\<rparr>"
  have lg: "jlog s' = jlog s" by (simp add: s'_def)
  have "64 dvd jsize s - ?t" using order by (simp add: dvd_diff_nat)
  then have "(jsize s - ?t) div 64 * 64 = jsize s - ?t" by simp
  then have "tiles s' ?g ?t [pad] (jsize s)"
    using stale(1) room by (simp add: pad_def seg_ok_def tx_shape_def lg)
  moreover have "tiles s ?g ?h segs ?t" using live order by (simp add: live_log_def Let_def)
  ultimately have t1: "tiles s' ?g ?h (segs @ [pad]) (jsize s)"
    using tiles_append [OF tiles_same_log [OF lg]] by blast
  have t2: "tiles s' ?g' 0 [seg_of tx s'] ?r"
    using stale(2) by (simp add: seg_of_def seg_ok_def tx_def s'_def tx_entries_def tx_shape_def)
  have fld: "j_head (journal s') = ?h" "j_tail (journal s') = ?r" "j_gen_id (journal s') = ?g'" "jsize s' = jsize s"
    by (simp_all add: s'_def)
  have "\<exists>a b. segs @ [pad, seg_of tx s'] = a @ b \<and> tiles s' ?g ?h a (jsize s) \<and> tiles s' ?g' 0 b ?r"
    by (rule exI [of _ "segs @ [pad]"], rule exI [of _ "[seg_of tx s']"]) (use t1 t2 in simp)
  then have "live_log s' (segs @ [pad, seg_of tx s'])"
    unfolding live_log_def Let_def fld prev_next_gen_id [OF order(4)] using hj by simp
  with call show ?thesis
    by (intro exI [of _ tx] exI [of _ s'] exI [of _ pad]) (simp add: tx_def s'_def s quiet_def pad_def)
qed

section \<open>A full log\<close>

text \<open>
  A log of 16 entries whose only transaction, of ten reserved entries, is still running: the cleaner
  counts the entries it looked at as freed, the head that was read before the cleaning is used again
  after the wrap, and the next transaction is given entries of the running one.
\<close>

definition full_journal :: jstate where
  "full_journal = \<lparr>jmem = (\<lambda>_. 0),
     jlog = (\<lambda>off. \<lparr>addr_offset = 0, transaction_id = 0, le_gen_id = (if off = 0 then 1 else 0),
               le_type = LE_START, le_size = 0, le_data = []\<rparr>),
     journal = \<lparr>j_base = 0, j_size = 1024, j_head = 0, j_tail = 640, j_gen_id = 1, redo_logging = 0\<rparr>,
     jsize = 1024, redo_log = False, next_transaction_id = 1, jkmem_ok = True\<rparr>"

lemma full_journal_clean:
  "pmfs_clean_journal E (full_journal\<lparr>next_transaction_id := i\<rparr>) = Some (10, full_journal\<lparr>next_transaction_id := i\<rparr>)"
  by (simp add: pmfs_clean_journal_def full_journal_def Let_def pmfs_process_transaction_def next_log_entry_def
      numeral_eq_Suc)

lemma full_journal_overlap:
  "\<exists>tx s'. pmfs_new_transaction E 8 full_journal = Some (Inr tx, s') \<and> start_addr tx = 0 \<and> num_entries tx = 9"
proof -
  let ?s = "full_journal\<lparr>next_transaction_id := 2\<rparr>"
  let ?s1 = "?s\<lparr>journal := (journal ?s)\<lparr>j_tail := 0, j_gen_id := 2\<rparr>\<rparr>"
  let ?s2 = "?s\<lparr>journal := (journal ?s)\<lparr>j_tail := 0, j_gen_id := next_gen_id (j_gen_id (journal ?s))\<rparr>\<rparr>"
  have av: "avail_of ?s 0 640 = 320" "avail_of ?s2 0 0 = 960" by (simp_all add: avail_of_def full_journal_def)
  have free: "free_retry 3 E 320 576 0 ?s = Some (640, ?s)"
    by (simp add: numeral_3_eq_3 pmfs_free_logentries_def full_journal_clean)
  have fields: "jsize full_journal = 1024" "j_head (journal full_journal) = 0" "j_tail (journal full_journal) = 640"
    "\<not> redo_log full_journal" "jkmem_ok full_journal" "next_transaction_id full_journal = 1"
    by (simp_all add: full_journal_def)
  show ?thesis
    by (simp add: new_transaction_eq fields again_wrap_cleaned [where freed = 640 and ?s1.0 = ?s] again_fit av free)
qed

end
