(* ===== verification/BlockTree.thy ===== *)
theory BlockTree
  imports AllocFactory Journal "HOL-Library.Monad_Syntax"
begin

text \<open>
  The block tree of an inode (first half of \<^verbatim>\<open>inode.c\<close>; the lookups are inline functions of
  \<^verbatim>\<open>pmfs.h\<close>).  An inode's data blocks hang in a radix tree of fan-out 512: a node is a block of 512
  little-endian block offsets, zero for a hole; the inode keeps root and height, and a tree of height 0
  is a single data block.

  Inodes and nodes are bytes of the persistent memory.  An inode is given by the device offset of its
  128 bytes, a node by the block offset stored in its parent; \<open>node_va\<close> and \<open>va_off\<close> lead from there to
  its bytes.  \<open>None\<close> is a failed assertion or the use of a null pointer.  Locks and flushes are left out.
\<close>

section \<open>Inodes in persistent memory\<close>

text \<open>The fields of \<^verbatim>\<open>struct pmfs_inode\<close> at their offsets.\<close>

definition pi_height :: "wpmfs \<Rightarrow> nat \<Rightarrow> nat" where "pi_height s pi = le_load 1 (pm s) (pi + 2)"
definition pi_blk_type :: "wpmfs \<Rightarrow> nat \<Rightarrow> nat" where "pi_blk_type s pi = le_load 1 (pm s) (pi + 3)"
definition pi_flags :: "wpmfs \<Rightarrow> nat \<Rightarrow> nat" where "pi_flags s pi = le_load 4 (pm s) (pi + 4)"
definition pi_root :: "wpmfs \<Rightarrow> nat \<Rightarrow> nat" where "pi_root s pi = le_load 8 (pm s) (pi + 8)"
definition pi_size :: "wpmfs \<Rightarrow> nat \<Rightarrow> nat" where "pi_size s pi = le_load 8 (pm s) (pi + 16)"
definition pi_blocks :: "wpmfs \<Rightarrow> nat \<Rightarrow> nat" where "pi_blocks s pi = le_load 8 (pm s) (pi + 40)"

abbreviation PMFS_INODE_SIZE :: nat where "PMFS_INODE_SIZE \<equiv> 128"
abbreviation PMFS_EOFBLOCKS_FL :: nat where "PMFS_EOFBLOCKS_FL \<equiv> 0x20000000"
abbreviation PMFS_MOUNT_MOUNTING :: "64 word" where "PMFS_MOUNT_MOUNTING \<equiv> 0x800"

definition blk_type_to_shift :: "nat \<Rightarrow> nat" where
  "blk_type_to_shift t = (if t = 0 then 12 else if t = 1 then 21 else 30)"

definition pmfs_inode_blk_shift :: "wpmfs \<Rightarrow> nat \<Rightarrow> nat" where
  "pmfs_inode_blk_shift s pi = blk_type_to_shift (pi_blk_type s pi)"

definition pmfs_inode_blk_size :: "wpmfs \<Rightarrow> nat \<Rightarrow> nat" where
  "pmfs_inode_blk_size s pi = 2 ^ pmfs_inode_blk_shift s pi"

text \<open>The fields of the kernel's inode the code works on.\<close>

record vinode =
  i_ino :: nat
  i_mode :: nat
  i_uid :: nat
  i_gid :: nat
  i_nlink :: nat
  i_size :: nat
  i_blocks :: nat
  i_atime :: nat
  i_mtime :: nat
  i_ctime :: nat
  i_generation :: nat
  i_flags :: nat
  i_rdev :: nat

section \<open>Lookup\<close>

text \<open>Fan-out of a node, \<^verbatim>\<open>1 << META_BLK_SHIFT\<close>.\<close>

definition FANOUT :: nat where "FANOUT = 2 ^ 9"

definition node_va :: "wpmfs \<Rightarrow> nat \<Rightarrow> nat option" where
  "node_va s bp =
     (case wpmfs_get_block s (of_nat bp) of None \<Rightarrow> None | Some va \<Rightarrow> if va = 0 then None else Some va)"

definition node_off :: "wpmfs \<Rightarrow> nat \<Rightarrow> nat option" where
  "node_off s bp = map_option (va_off s) (node_va s bp)"

text \<open>A tired page found on the way is replaced, and the tree is made to point at its replacement.\<close>

definition wpmfs_retrieve_datablk :: "allocator_factory \<Rightarrow> wpmfs \<Rightarrow> nat \<Rightarrow> (nat \<times> wpmfs) option" where
  "wpmfs_retrieve_datablk A s slot =
     (let bp = le_load 8 (pm s) slot
      in if bp = 0 then Some (0, s)
      else do {
        pfn \<leftarrow> wpmfs_get_pfn s (of_nat bp);
        if wpmfs_page_marks s (pfn - phys_addr s div 2 ^ PAGE_SHIFT) AND WPMFS_PAGE_TIRED \<noteq> 0
        then map_option (\<lambda>(bo, s'). (unat bo, s')) (wpmfs_replace_tired_page A s slot)
        else Some (bp, s)
      })"

primrec find_data_loop :: "allocator_factory \<Rightarrow> nat \<Rightarrow> nat \<Rightarrow> nat \<Rightarrow> wpmfs \<Rightarrow> (nat \<times> wpmfs) option" where
  "find_data_loop A 0 bp blocknr s = Some (bp, s)"
| "find_data_loop A (Suc h) bp blocknr s =
     do {
       level_ptr \<leftarrow> node_off s bp;
       (bp', s') \<leftarrow> wpmfs_retrieve_datablk A s (level_ptr + 8 * (blocknr div FANOUT ^ h));
       if bp' = 0 then Some (0, s') else find_data_loop A h bp' (blocknr mod FANOUT ^ h) s'
     }"

definition find_data_block_at :: "allocator_factory \<Rightarrow> wpmfs \<Rightarrow> nat \<Rightarrow> nat \<Rightarrow> (nat \<times> wpmfs) option" where
  "find_data_block_at A s pi blocknr = find_data_loop A (pi_height s pi) (pi_root s pi) blocknr s"

text \<open>\<^verbatim>\<open>__wpmfs_find_pdatablk\<close>: the slot that points at the data block, as a device offset.\<close>

primrec find_pdatablk_loop :: "nat \<Rightarrow> nat \<Rightarrow> nat \<Rightarrow> nat option \<Rightarrow> wpmfs \<Rightarrow> nat option option" where
  "find_pdatablk_loop 0 bp blocknr ret s = Some ret"
| "find_pdatablk_loop (Suc h) bp blocknr ret s =
     do {
       level_ptr \<leftarrow> node_off s bp;
       let slot = level_ptr + 8 * (blocknr div FANOUT ^ h);
       let bp' = le_load 8 (pm s) slot;
       if bp' = 0 then Some None else find_pdatablk_loop h bp' (blocknr mod FANOUT ^ h) (Some slot) s
     }"

definition wpmfs_find_pdatablk :: "wpmfs \<Rightarrow> nat \<Rightarrow> nat \<Rightarrow> nat option option" where
  "wpmfs_find_pdatablk s pi blocknr = find_pdatablk_loop (pi_height s pi) (pi_root s pi) blocknr None s"

text \<open>The super block is the start of the static window, or of the device without windows.\<close>

definition pmfs_get_super :: "wpmfs \<Rightarrow> nat" where
  "pmfs_get_super s = (if \<not> enabled (vmapi s) then virt_addr s else base_static (vmapi s))"

definition ps_inode_table_offset :: "wpmfs \<Rightarrow> nat" where
  "ps_inode_table_offset s = le_load 8 (pm s) (va_off s (pmfs_get_super s + 40))"

definition pmfs_get_inode_table :: "wpmfs \<Rightarrow> nat" where
  "pmfs_get_inode_table s = va_off s (pmfs_get_super s + ps_inode_table_offset s)"

text \<open>\<^verbatim>\<open>pmfs_get_inode\<close>: the device offset of an inode, \<open>None\<close> inside for the null pointer.\<close>

definition pmfs_get_inode :: "allocator_factory \<Rightarrow> wpmfs \<Rightarrow> nat \<Rightarrow> (nat option \<times> wpmfs) option" where
  "pmfs_get_inode A s ino =
     (if ino = 0 then Some (None, s)
      else do {
        let inode_table = pmfs_get_inode_table s;
        (bp, s1) \<leftarrow> find_data_block_at A s inode_table (ino div 2 ^ pmfs_inode_blk_shift s inode_table);
        if bp = 0 then Some (None, s1)
        else do {
          va \<leftarrow> node_va s1 bp;
          Some (Some (va_off s1 (va + ino mod pmfs_inode_blk_size s inode_table)), s1)
        }
      })"

definition inode_at :: "allocator_factory \<Rightarrow> wpmfs \<Rightarrow> nat \<Rightarrow> (nat \<times> wpmfs) option" where
  "inode_at A s ino = do { (p, s1) \<leftarrow> pmfs_get_inode A s ino; pi \<leftarrow> p; Some (pi, s1) }"

definition find_file_block :: "allocator_factory \<Rightarrow> wpmfs \<Rightarrow> nat \<Rightarrow> nat \<Rightarrow> (nat \<times> wpmfs) option" where
  "find_file_block A s pi file_blocknr =
     (let blk_shift = pmfs_inode_blk_shift s pi - 12;
          blk_offset = file_blocknr mod 2 ^ blk_shift;
          blocknr = file_blocknr div 2 ^ blk_shift
      in if blocknr \<ge> FANOUT ^ pi_height s pi then Some (0, s)
      else do {
        (bp, s1) \<leftarrow> find_data_block_at A s pi blocknr;
        Some (if bp = 0 then 0 else bp + blk_offset * 2 ^ 12, s1)
      })"

definition pmfs_find_data_block :: "allocator_factory \<Rightarrow> wpmfs \<Rightarrow> nat \<Rightarrow> nat \<Rightarrow> (nat \<times> wpmfs) option" where
  "pmfs_find_data_block A s ino file_blocknr =
     do { (pi, s1) \<leftarrow> inode_at A s ino; find_file_block A s1 pi file_blocknr }"

end
