(* ===== verification/TreeAlloc.thy ===== *)
theory TreeAlloc
  imports BlockTree
begin

text \<open>
  Growing the block tree (\<^verbatim>\<open>__pmfs_alloc_blocks\<close> and its helpers in \<^verbatim>\<open>inode.c\<close>).  The kernel's mapping
  services, the allocator and the address translation of the journal are parameters; a running
  transaction is the journal's transaction with its log, or none (a null \<^verbatim>\<open>trans\<close>).  The results of
  \<^verbatim>\<open>pmfs_add_logentry\<close> are ignored, as in the code.
\<close>

section \<open>Logging a node\<close>

type_synonym tx_ctx = "(pmfs_transaction \<times> jstate) option"

definition log_range :: "addressing \<Rightarrow> tx_ctx \<Rightarrow> wpmfs \<Rightarrow> nat \<Rightarrow> nat \<Rightarrow> tx_ctx" where
  "log_range E J s va len =
     (case J of None \<Rightarrow> None
      | Some (tx, j) \<Rightarrow>
          (case pmfs_add_logentry E tx (va_off s va) len LE_DATA (j\<lparr>jmem := pm s\<rparr>) of
             (Inl _, j') \<Rightarrow> Some (tx, j')
           | (Inr tx', j') \<Rightarrow> Some (tx', j')))"

section \<open>Loops that may fail\<close>

fun loop_res :: "(nat \<Rightarrow> 's \<Rightarrow> ((errno + unit) \<times> 's) option) \<Rightarrow> nat list \<Rightarrow> 's \<Rightarrow> ((errno + unit) \<times> 's) option" where
  "loop_res f [] s = Some (Inr (), s)"
| "loop_res f (i # is) s =
     (case f i s of None \<Rightarrow> None | Some (Inl e, s') \<Rightarrow> Some (Inl e, s') | Some (Inr _, s') \<Rightarrow> loop_res f is s')"

section \<open>Data blocks\<close>

definition pmfs_new_data_block :: "allocator_factory \<Rightarrow> wpmfs \<Rightarrow> nat \<Rightarrow> bool \<Rightarrow> ((errno + nat) \<times> wpmfs) option" where
  "pmfs_new_data_block A s pi zero =
     (let data_bits = pmfs_inode_blk_shift s pi
      in do {
        (r, s1) \<leftarrow> af_new_block A s (pi_blk_type s pi) zero;
        Some (r, case r of Inl e \<Rightarrow> s1 | Inr b \<Rightarrow> plain_store 8 s1 (pi + 40) (pi_blocks s1 pi + 2 ^ (data_bits - 12)))
      })"

section \<open>Height\<close>

text \<open>
  \<^verbatim>\<open>pmfs_increase_btree_height\<close>: new roots on top, each pointing at the previous one; after an
  allocation failure the tree keeps the height it has reached.
\<close>

primrec increase_loop :: "kernel_vm \<Rightarrow> allocator_factory \<Rightarrow> nat \<Rightarrow> nat \<Rightarrow> nat \<Rightarrow> nat \<Rightarrow> wpmfs \<Rightarrow>
    ((errno + unit) \<times> nat \<times> nat \<times> wpmfs) option" where
  "increase_loop K A vlocation 0 height prev_root s = Some (Inr (), height, prev_root, s)"
| "increase_loop K A vlocation (Suc k) height prev_root s =
     do {
       (r, s1) \<leftarrow> af_new_block A s 0 True;
       case r of
         Inl e \<Rightarrow> Some (Inl e, height, prev_root, s1)
       | Inr b \<Rightarrow> do {
           (bo, s2) \<leftarrow> wpmfs_get_blockoff K s1 b vlocation;
           root \<leftarrow> node_off s2 (unat bo);
           increase_loop K A vlocation k (height + 1) (unat bo) (PM_EQU 8 s2 root prev_root)
         }
     }"

definition pmfs_increase_btree_height :: "kernel_vm \<Rightarrow> allocator_factory \<Rightarrow> wpmfs \<Rightarrow> nat \<Rightarrow> nat \<Rightarrow> nat \<Rightarrow>
    ((errno + unit) \<times> wpmfs) option" where
  "pmfs_increase_btree_height K A s pi new_height vlocation =
     do {
       (r, height, root, s1) \<leftarrow> increase_loop K A vlocation (new_height - pi_height s pi) (pi_height s pi) (pi_root s pi) s;
       Some (r, PM_STORE 1 4 (PM_EQU 8 s1 (pi + 8) root) (pi + 2) height)
     }"

section \<open>Filling a range of the tree\<close>

text \<open>
  The state of the loop over a node's slots: the device, the log, and the two flags \<^verbatim>\<open>new_node\<close> and
  \<^verbatim>\<open>journal_saved\<close>.  \<open>set_slot\<close> stores the pointer, after logging the rest of the range unless the
  node is new.
\<close>

record alloc_state =
  as_fs :: wpmfs
  as_tx :: tx_ctx
  as_new_node :: bool
  as_saved :: bool

definition save_slots :: "addressing \<Rightarrow> nat \<Rightarrow> nat \<Rightarrow> nat \<Rightarrow> alloc_state \<Rightarrow> alloc_state" where
  "save_slots E va i last_index st =
     (if \<not> as_new_node st \<and> \<not> as_saved st
      then st\<lparr>as_tx := log_range E (as_tx st) (as_fs st) (va + 8 * i) ((last_index - i + 1) * 8), as_saved := True\<rparr>
      else st)"

text \<open>A data slot: only the pointer of a hole is filled, by an untracked store.\<close>

definition alloc_data_slot :: "kernel_vm \<Rightarrow> allocator_factory \<Rightarrow> addressing \<Rightarrow> nat \<Rightarrow> bool \<Rightarrow> nat \<Rightarrow> nat \<Rightarrow> nat \<Rightarrow> nat \<Rightarrow>
    alloc_state \<Rightarrow> ((errno + unit) \<times> alloc_state) option" where
  "alloc_data_slot K A E pi zero vlocation va last_index i st =
     (let slot = va_off (as_fs st) va + 8 * i
      in if le_load 8 (pm (as_fs st)) slot \<noteq> 0 then Some (Inr (), st)
      else do {
        (r, s1) \<leftarrow> pmfs_new_data_block A (as_fs st) pi zero;
        case r of
          Inl e \<Rightarrow> Some (Inl e, st\<lparr>as_fs := PM_OR_EQU 4 s1 (pi + 4) PMFS_EOFBLOCKS_FL\<rparr>)
        | Inr b \<Rightarrow> do {
            let st1 = save_slots E va i last_index (st\<lparr>as_fs := s1\<rparr>);
            (bo, s2) \<leftarrow> wpmfs_get_blockoff K (as_fs st1) b vlocation;
            Some (Inr (), st1\<lparr>as_fs := plain_store 8 s2 slot (unat bo)\<rparr>)
          }
      })"

text \<open>A meta slot: a hole gets a zeroed node, and the nodes below count as new from then on.\<close>

definition alloc_meta_slot :: "kernel_vm \<Rightarrow> allocator_factory \<Rightarrow> addressing \<Rightarrow> nat \<Rightarrow> nat \<Rightarrow> nat \<Rightarrow> nat \<Rightarrow>
    alloc_state \<Rightarrow> ((errno + unit) \<times> alloc_state) option" where
  "alloc_meta_slot K A E vlocation va last_index i st =
     (let slot = va_off (as_fs st) va + 8 * i
      in if le_load 8 (pm (as_fs st)) slot \<noteq> 0 then Some (Inr (), st)
      else do {
        (r, s1) \<leftarrow> af_new_block A (as_fs st) 0 True;
        case r of
          Inl e \<Rightarrow> Some (Inl e, st\<lparr>as_fs := s1\<rparr>)
        | Inr b \<Rightarrow> do {
            let st1 = save_slots E va i last_index (st\<lparr>as_fs := s1\<rparr>);
            (bo, s2) \<leftarrow> wpmfs_get_blockoff K (as_fs st1) b vlocation;
            Some (Inr (), st1\<lparr>as_fs := PM_EQU 8 s2 slot (unat bo), as_new_node := True\<rparr>)
          }
      })"

text \<open>The part of a range that lies below slot \<open>i\<close> of a node whose slots cover \<open>w\<close> blocks each.\<close>

definition sub_first :: "nat \<Rightarrow> nat \<Rightarrow> nat \<Rightarrow> nat" where
  "sub_first w first_blocknr i = (if i = first_blocknr div w then first_blocknr mod w else 0)"

definition sub_last :: "nat \<Rightarrow> nat \<Rightarrow> nat \<Rightarrow> nat" where
  "sub_last w last_blocknr i = (if i = last_blocknr div w then last_blocknr mod w else w - 1)"

text \<open>\<^verbatim>\<open>recursive_alloc_blocks\<close>; \<open>h\<close> is \<^verbatim>\<open>height - 1\<close>.\<close>

primrec recursive_alloc_blocks :: "kernel_vm \<Rightarrow> allocator_factory \<Rightarrow> addressing \<Rightarrow> nat \<Rightarrow> bool \<Rightarrow> nat \<Rightarrow> nat \<Rightarrow>
    nat \<Rightarrow> nat \<Rightarrow> nat \<Rightarrow> bool \<Rightarrow> wpmfs \<Rightarrow> tx_ctx \<Rightarrow> ((errno + unit) \<times> wpmfs \<times> tx_ctx) option" where
  "recursive_alloc_blocks K A E pi zero vlocation 0 block first_blocknr last_blocknr new_node s J =
     do {
       va \<leftarrow> node_va s block;
       (r, st) \<leftarrow> loop_res (alloc_data_slot K A E pi zero vlocation va last_blocknr) [first_blocknr..<last_blocknr + 1]
         \<lparr>as_fs = s, as_tx = J, as_new_node = new_node, as_saved = False\<rparr>;
       Some (r, as_fs st, as_tx st)
     }"
| "recursive_alloc_blocks K A E pi zero vlocation (Suc h) block first_blocknr last_blocknr new_node s J =
     do {
       let w = FANOUT ^ Suc h;
       va \<leftarrow> node_va s block;
       (r, st) \<leftarrow> loop_res (\<lambda>i st. do {
           (r1, st1) \<leftarrow> alloc_meta_slot K A E vlocation va (last_blocknr div w) i st;
           case r1 of Inl e \<Rightarrow> Some (Inl e, st1)
           | Inr _ \<Rightarrow> do {
               (r2, s2, J2) \<leftarrow> recursive_alloc_blocks K A E pi zero vlocation h
                 (le_load 8 (pm (as_fs st1)) (va_off (as_fs st1) va + 8 * i))
                 (sub_first w first_blocknr i) (sub_last w last_blocknr i) (as_new_node st1) (as_fs st1) (as_tx st1);
               Some (r2, st1\<lparr>as_fs := s2, as_tx := J2\<rparr>)
             }
         }) [first_blocknr div w..<last_blocknr div w + 1]
         \<lparr>as_fs = s, as_tx = J, as_new_node = new_node, as_saved = False\<rparr>;
       Some (r, as_fs st, as_tx st)
     }"

section \<open>Allocating blocks of a file\<close>

text \<open>The levels by which the tree must grow: \<open>total\<close> is what is left of the last block number.\<close>

function grow_height :: "nat \<Rightarrow> nat \<Rightarrow> nat" where
  "grow_height n height = (if n = 0 then height else grow_height (n div FANOUT) (height + 1))"
  by pat_completeness auto
termination
  by (relation "measure fst") (auto simp: FANOUT_def)

declare grow_height.simps [simp del]

definition wanted_height :: "nat \<Rightarrow> nat \<Rightarrow> nat" where
  "wanted_height height last_blocknr =
     (if last_blocknr > FANOUT ^ height - 1 then grow_height (last_blocknr div FANOUT ^ height) height else height)"

definition pmfs_alloc_blocks_at :: "kernel_vm \<Rightarrow> allocator_factory \<Rightarrow> addressing \<Rightarrow> wpmfs \<Rightarrow> tx_ctx \<Rightarrow> nat \<Rightarrow> nat \<Rightarrow> nat \<Rightarrow>
    bool \<Rightarrow> nat \<Rightarrow> ((errno + unit) \<times> wpmfs \<times> tx_ctx) option" where
  "pmfs_alloc_blocks_at K A E s J pi file_blocknr num zero vlocation =
     (let blk_shift = pmfs_inode_blk_shift s pi - 12;
          first_blocknr = file_blocknr div 2 ^ blk_shift;
          last_blocknr = ((file_blocknr + num + (2 ^ 64 - 1)) mod 2 ^ 64) div 2 ^ blk_shift;
          height = wanted_height (pi_height s pi) last_blocknr
      in if last_blocknr > FANOUT ^ pi_height s pi - 1 \<and> height > 3 then Some (Inl ENOSPC, s, J)
      else if pi_root s pi = 0 then
        if height = 0 then do {
          (r, s1) \<leftarrow> pmfs_new_data_block A s pi zero;
          case r of
            Inl e \<Rightarrow> Some (Inl e, s1, J)
          | Inr b \<Rightarrow> do {
              (bo, s2) \<leftarrow> wpmfs_get_blockoff K s1 b vlocation;
              Some (Inr (), PM_STORE 1 4 (PM_EQU 8 s2 (pi + 8) (unat bo)) (pi + 2) height, J)
            }
        }
        else do {
          (r, s1) \<leftarrow> pmfs_increase_btree_height K A s pi height vlocation;
          case r of
            Inl e \<Rightarrow> Some (Inl e, s1, J)
          | Inr _ \<Rightarrow> recursive_alloc_blocks K A E pi zero vlocation (pi_height s1 pi - 1) (pi_root s1 pi)
              first_blocknr last_blocknr True s1 J
        }
      else if height = 0 then Some (Inr (), s, J)
      else do {
        (r, s1) \<leftarrow> (if height > pi_height s pi then pmfs_increase_btree_height K A s pi height vlocation
                   else Some (Inr (), s));
        case r of
          Inl e \<Rightarrow> Some (Inl e, s1, J)
        | Inr _ \<Rightarrow> recursive_alloc_blocks K A E pi zero vlocation (height - 1) (pi_root s1 pi)
            first_blocknr last_blocknr False s1 J
      })"

definition pmfs_alloc_blocks :: "kernel_vm \<Rightarrow> allocator_factory \<Rightarrow> addressing \<Rightarrow> wpmfs \<Rightarrow> tx_ctx \<Rightarrow> vinode \<Rightarrow> nat \<Rightarrow> nat \<Rightarrow>
    bool \<Rightarrow> nat \<Rightarrow> ((errno + unit) \<times> vinode \<times> wpmfs \<times> tx_ctx) option" where
  "pmfs_alloc_blocks K A E s J inode file_blocknr num zero vlocation =
     do {
       (pi, s1) \<leftarrow> inode_at A s (i_ino inode);
       (r, s2, J2) \<leftarrow> pmfs_alloc_blocks_at K A E s1 J pi file_blocknr num zero vlocation;
       Some (r, inode\<lparr>i_blocks := pi_blocks s2 pi\<rparr>, s2, J2)
     }"

end
