(* ===== verification/TreeTrunc.thy ===== *)
theory TreeTrunc
  imports TreeAlloc
begin

text \<open>
  Shrinking and searching the block tree (\<^verbatim>\<open>recursive_truncate_blocks\<close>, \<^verbatim>\<open>__pmfs_truncate_blocks\<close>,
  \<^verbatim>\<open>pmfs_free_inode_subtree\<close> and \<^verbatim>\<open>pmfs_find_region\<close> of \<^verbatim>\<open>inode.c\<close>).  As before \<open>None\<close> is a failed
  assertion or a null pointer, and the parameter \<open>h\<close> of a recursion is \<^verbatim>\<open>height - 1\<close>.
\<close>

section \<open>Freeing a range of the tree\<close>

primrec loop_opt :: "(nat \<Rightarrow> 's \<Rightarrow> 's option) \<Rightarrow> nat list \<Rightarrow> 's \<Rightarrow> 's option" where
  "loop_opt f [] s = Some s"
| "loop_opt f (i # is) s = (case f i s of None \<Rightarrow> None | Some s' \<Rightarrow> loop_opt f is s')"

definition node_at :: "wpmfs \<Rightarrow> nat \<Rightarrow> nat \<Rightarrow> nat" where
  "node_at s va i = le_load 8 (pm s) (va_off s va + 8 * i)"

definition is_empty_meta_block :: "wpmfs \<Rightarrow> nat \<Rightarrow> nat \<Rightarrow> nat \<Rightarrow> bool" where
  "is_empty_meta_block s va start_idx end_idx =
     (list_all (\<lambda>i. node_at s va i = 0) [0..<start_idx] \<and> list_all (\<lambda>i. node_at s va i = 0) [end_idx + 1..<FANOUT])"

text \<open>
  The state of the loops: the device, the hint of the locked release, the number of blocks freed, the
  part \<^verbatim>\<open>start..end\<close> of the node that will be zeroed, and \<^verbatim>\<open>all_range_freed\<close>.
\<close>

record trunc_state =
  ts_fs :: wpmfs
  ts_hint :: "nat option option"
  ts_freed :: nat
  ts_start :: nat
  ts_end :: nat
  ts_all :: bool

definition truncate_data_slot :: "allocator_factory \<Rightarrow> nat \<Rightarrow> nat \<Rightarrow> nat \<Rightarrow> trunc_state \<Rightarrow> trunc_state option" where
  "truncate_data_slot A btype va i st =
     (let bp = node_at (ts_fs st) va i
      in if bp = 0 then Some st
      else do {
        blocknr \<leftarrow> wpmfs_reget_blocknr (ts_fs st) (of_nat bp);
        (s1, hint) \<leftarrow> af_free_block_locked A (ts_fs st) blocknr btype (ts_hint st);
        Some (st\<lparr>ts_fs := s1, ts_hint := hint, ts_freed := ts_freed st + 1\<rparr>)
      })"

definition truncate_finish :: "nat \<Rightarrow> nat \<Rightarrow> nat \<Rightarrow> trunc_state \<Rightarrow> nat \<times> bool \<times> wpmfs" where
  "truncate_finish va first_index last_index st =
     (if ts_all st \<and> is_empty_meta_block (ts_fs st) va first_index last_index then (ts_freed st, True, ts_fs st)
      else (ts_freed st, False,
        if ts_start st \<le> ts_end st
        then PM_MEMSET (ts_fs st) (va_off (ts_fs st) va + 8 * ts_start st) 0 ((ts_end st - ts_start st + 1) * 8)
        else ts_fs st))"

text \<open>The slot of a child whose truncation returned \<open>(freed, mpty, s)\<close>.\<close>

definition truncate_meta_slot :: "allocator_factory \<Rightarrow> nat \<Rightarrow> nat \<Rightarrow> nat \<Rightarrow> nat \<Rightarrow> nat \<times> bool \<times> wpmfs \<Rightarrow>
    trunc_state \<Rightarrow> trunc_state option" where
  "truncate_meta_slot A va first_index last_index i = (\<lambda>(freed, mpty, s) st.
     if mpty then do {
       blocknr \<leftarrow> wpmfs_reget_blocknr s (of_nat (node_at s va i));
       s1 \<leftarrow> af_free_block A s blocknr 0;
       Some (st\<lparr>ts_fs := s1, ts_freed := ts_freed st + freed\<rparr>)
     }
     else Some (st\<lparr>ts_fs := s, ts_freed := ts_freed st + freed,
       ts_start := (if i = first_index then ts_start st + 1 else ts_start st),
       ts_end := (if i \<noteq> first_index \<and> i = last_index then ts_end st - 1 else ts_end st),
       ts_all := False\<rparr>))"

primrec recursive_truncate_blocks :: "allocator_factory \<Rightarrow> nat \<Rightarrow> nat \<Rightarrow> nat \<Rightarrow> nat \<Rightarrow> nat \<Rightarrow> wpmfs \<Rightarrow>
    (nat \<times> bool \<times> wpmfs) option" where
  "recursive_truncate_blocks A btype 0 block first_blocknr last_blocknr s =
     do {
       va \<leftarrow> node_va s block;
       st \<leftarrow> loop_opt (truncate_data_slot A btype va) [first_blocknr..<last_blocknr + 1]
         \<lparr>ts_fs = s, ts_hint = Some None, ts_freed = 0, ts_start = first_blocknr, ts_end = last_blocknr, ts_all = True\<rparr>;
       Some (truncate_finish va first_blocknr last_blocknr st)
     }"
| "recursive_truncate_blocks A btype (Suc h) block first_blocknr last_blocknr s =
     do {
       let w = FANOUT ^ Suc h;
       let first_index = first_blocknr div w;
       let last_index = last_blocknr div w;
       va \<leftarrow> node_va s block;
       st \<leftarrow> loop_opt (\<lambda>i st.
           if node_at (ts_fs st) va i = 0 then Some st
           else do {
             r \<leftarrow> recursive_truncate_blocks A btype h (node_at (ts_fs st) va i)
               (sub_first w first_blocknr i) (sub_last w last_blocknr i) (ts_fs st);
             truncate_meta_slot A va first_index last_index i r st
           }) [first_index..<last_index + 1]
         \<lparr>ts_fs = s, ts_hint = Some None, ts_freed = 0, ts_start = first_index, ts_end = last_index, ts_all = True\<rparr>;
       Some (truncate_finish va first_index last_index st)
     }"

text \<open>\<^verbatim>\<open>pmfs_free_inode_subtree\<close>: the whole tree of an inode that goes away.\<close>

definition free_pointer :: "allocator_factory \<Rightarrow> wpmfs \<Rightarrow> nat \<Rightarrow> nat \<Rightarrow> wpmfs option" where
  "free_pointer A s bp btype = do { blocknr \<leftarrow> wpmfs_reget_blocknr s (of_nat bp); af_free_block A s blocknr btype }"

definition pmfs_free_inode_subtree :: "allocator_factory \<Rightarrow> wpmfs \<Rightarrow> nat \<Rightarrow> nat \<Rightarrow> nat \<Rightarrow> nat \<Rightarrow> (nat \<times> wpmfs) option" where
  "pmfs_free_inode_subtree A s root height btype last_blocknr =
     (if root = 0 then Some (0, s)
      else if height = 0 then do { s1 \<leftarrow> free_pointer A s root btype; Some (1, s1) }
      else do {
        (freed, mpty, s1) \<leftarrow> recursive_truncate_blocks A btype (height - 1) root 0 last_blocknr s;
        if \<not> mpty then None else do { s2 \<leftarrow> free_pointer A s1 root 0; Some (freed, s2) }
      })"

section \<open>Lowering the tree\<close>

primrec decrease_loop :: "allocator_factory \<Rightarrow> nat \<Rightarrow> nat \<Rightarrow> wpmfs \<Rightarrow> (nat \<times> wpmfs) option" where
  "decrease_loop A 0 newroot s = Some (newroot, s)"
| "decrease_loop A (Suc k) newroot s =
     do {
       va \<leftarrow> node_va s newroot;
       s1 \<leftarrow> free_pointer A s newroot 0;
       decrease_loop A k (node_at s va 0) s1
     }"

text \<open>Root and height change in one untracked 16-byte compare-and-exchange on the start of the inode.\<close>

definition update_root_height :: "wpmfs \<Rightarrow> nat \<Rightarrow> nat \<Rightarrow> nat \<Rightarrow> wpmfs" where
  "update_root_height s pi height root = plain_store 8 (plain_store 1 s (pi + 2) height) (pi + 8) root"

definition pmfs_decrease_btree_height :: "allocator_factory \<Rightarrow> wpmfs \<Rightarrow> nat \<Rightarrow> nat \<Rightarrow> nat \<Rightarrow> wpmfs option" where
  "pmfs_decrease_btree_height A s pi newsize newroot =
     (if pi_blocks s pi = 0 \<or> newsize = 0 then
        if newroot \<noteq> 0 then None else Some (update_root_height s pi 0 newroot)
      else
        let last_blocknr = (newsize + pmfs_inode_blk_size s pi - 1) div 2 ^ pmfs_inode_blk_shift s pi - 1;
            new_height = grow_height last_blocknr 0
        in if pi_height s pi = new_height then Some s
        else do {
          (root, s1) \<leftarrow> decrease_loop A (pi_height s pi - new_height) newroot s;
          Some (update_root_height s1 pi new_height root)
        })"

section \<open>Counting the blocks of an inode\<close>

primrec count_iblocks_recursive :: "wpmfs \<Rightarrow> nat \<Rightarrow> nat \<Rightarrow> nat option" where
  "count_iblocks_recursive s 0 block = Some 1"
| "count_iblocks_recursive s (Suc h) block =
     do {
       va \<leftarrow> node_va s block;
       loop_opt (\<lambda>i n. if node_at s va i = 0 then Some n
           else do { c \<leftarrow> count_iblocks_recursive s h (node_at s va i); Some (n + c) }) [0..<FANOUT] 0
     }"

definition pmfs_inode_count_iblocks :: "wpmfs \<Rightarrow> nat \<Rightarrow> nat \<Rightarrow> nat option" where
  "pmfs_inode_count_iblocks s pi root =
     (if root = 0 then Some 0
      else map_option (\<lambda>n. n * 2 ^ (pmfs_inode_blk_shift s pi - 12)) (count_iblocks_recursive s (pi_height s pi) root))"

section \<open>Truncating an inode\<close>

definition pmfs_sparse_last_blocknr :: "nat \<Rightarrow> nat \<Rightarrow> nat" where
  "pmfs_sparse_last_blocknr height last_blocknr =
     (if last_blocknr \<ge> FANOUT ^ height then FANOUT ^ height - 1 else last_blocknr)"

definition check_eof_blocks :: "wpmfs \<Rightarrow> nat \<Rightarrow> nat \<Rightarrow> wpmfs" where
  "check_eof_blocks s pi sz =
     (if and (pi_flags s pi) PMFS_EOFBLOCKS_FL \<noteq> 0 \<and> sz + 4096 > pi_blocks s pi * 4096 mod 2 ^ 64
      then plain_store 4 s (pi + 4) (pi_flags s pi - PMFS_EOFBLOCKS_FL) else s)"

definition store_times :: "wpmfs \<Rightarrow> nat \<Rightarrow> nat \<Rightarrow> wpmfs" where
  "store_times s pi now = PM_STORE 4 4 (PM_STORE 4 4 s (pi + 28) now) (pi + 24) now"

text \<open>The blocks to be freed, \<open>None\<close> inside when there are none (\<^verbatim>\<open>end_truncate_blocks\<close>).\<close>

definition truncate_range :: "wpmfs \<Rightarrow> nat \<Rightarrow> nat \<Rightarrow> nat \<Rightarrow> (nat \<times> nat) option" where
  "truncate_range s pi start end' =
     (let data_bits = pmfs_inode_blk_shift s pi;
          first_blocknr = (start + 2 ^ data_bits - 1) div 2 ^ data_bits;
          eof = and (pi_flags s pi) PMFS_EOFBLOCKS_FL \<noteq> 0;
          last_blocknr = (if eof then FANOUT ^ pi_height s pi - 1
                          else pmfs_sparse_last_blocknr (pi_height s pi) ((end' - 1) div 2 ^ data_bits))
      in if pi_root s pi = 0 \<or> (\<not> eof \<and> end' = 0) \<or> first_blocknr > last_blocknr then None
      else Some (first_blocknr, last_blocknr))"

definition pmfs_truncate_at :: "allocator_factory \<Rightarrow> wpmfs \<Rightarrow> vinode \<Rightarrow> nat \<Rightarrow> nat \<Rightarrow> nat \<Rightarrow> nat \<Rightarrow>
    (vinode \<times> wpmfs) option" where
  "pmfs_truncate_at A s inode pi start end' now =
     (let inode = inode\<lparr>i_mtime := now, i_ctime := now\<rparr>;
          data_bits = pmfs_inode_blk_shift s pi;
          root = pi_root s pi
      in case truncate_range s pi start end' of
        None \<Rightarrow> Some (inode, store_times s pi now)
      | Some (first_blocknr, last_blocknr) \<Rightarrow> do {
          (freed, root', s1) \<leftarrow>
            (if pi_height s pi = 0 then do { s1 \<leftarrow> free_pointer A s root (pi_blk_type s pi); Some (1, 0, s1) }
             else do {
               (freed, mpty, s1) \<leftarrow> recursive_truncate_blocks A (pi_blk_type s pi) (pi_height s pi - 1) root
                 first_blocknr last_blocknr s;
               if mpty then do { s2 \<leftarrow> free_pointer A s1 root 0; Some (freed, 0, s2) }
               else Some (freed, root, s1)
             });
          blocks \<leftarrow> (if s_mount_opt s AND PMFS_MOUNT_MOUNTING \<noteq> 0 then pmfs_inode_count_iblocks s1 pi root'
             else Some ((i_blocks inode + 2 ^ 64 - freed * 2 ^ (data_bits - 12)) mod 2 ^ 64));
          let inode = inode\<lparr>i_blocks := blocks\<rparr>;
          let s2 = store_times (PM_EQU 8 s1 (pi + 40) blocks) pi now;
          s3 \<leftarrow> pmfs_decrease_btree_height A s2 pi start root';
          Some (inode, check_eof_blocks s3 pi (i_size inode))
        })"

text \<open>\<^verbatim>\<open>__pmfs_truncate_blocks\<close>\<close>

definition pmfs_truncate_blocks :: "allocator_factory \<Rightarrow> wpmfs \<Rightarrow> vinode \<Rightarrow> nat \<Rightarrow> nat \<Rightarrow> nat \<Rightarrow> (vinode \<times> wpmfs) option" where
  "pmfs_truncate_blocks A s inode start end' now =
     do { (pi, s1) \<leftarrow> inode_at A s (i_ino inode); pmfs_truncate_at A s1 inode pi start end' now }"

section \<open>Holes and data\<close>

text \<open>
  \<^verbatim>\<open>recursive_find_region\<close>.  The result carries \<^verbatim>\<open>blocks\<close>, \<^verbatim>\<open>data_found\<close>, \<^verbatim>\<open>hole_found\<close>; \<open>stop\<close> is
  the jump to \<^verbatim>\<open>done\<close>.
\<close>

record region =
  rg_blocks :: nat
  rg_data :: bool
  rg_hole :: bool
  rg_stop :: bool

definition region_slot :: "bool \<Rightarrow> nat \<Rightarrow> nat \<Rightarrow> region \<Rightarrow> region" where
  "region_slot hole w bp st =
     (let st1 = (if bp \<noteq> 0 then st\<lparr>rg_data := True\<rparr> else st\<lparr>rg_hole := True\<rparr>)
      in if bp \<noteq> 0 \<and> \<not> hole then st1\<lparr>rg_stop := True\<rparr>
      else if \<not> rg_hole st1 \<or> \<not> hole then st1\<lparr>rg_blocks := rg_blocks st1 + w\<rparr> else st1)"

primrec recursive_find_region :: "wpmfs \<Rightarrow> bool \<Rightarrow> nat \<Rightarrow> nat \<Rightarrow> nat \<Rightarrow> nat \<Rightarrow> bool \<Rightarrow> bool \<Rightarrow> region option" where
  "recursive_find_region s hole 0 block first_blocknr last_blocknr data_found hole_found =
     do {
       va \<leftarrow> node_va s block;
       loop_opt (\<lambda>i st. if rg_stop st then Some st else Some (region_slot hole 1 (node_at s va i) st))
         [first_blocknr..<last_blocknr + 1]
         \<lparr>rg_blocks = 0, rg_data = data_found, rg_hole = hole_found, rg_stop = False\<rparr>
     }"
| "recursive_find_region s hole (Suc h) block first_blocknr last_blocknr data_found hole_found =
     do {
       let w = FANOUT ^ Suc h;
       va \<leftarrow> node_va s block;
       loop_opt (\<lambda>i st.
           if rg_stop st then Some st
           else if node_at s va i = 0 then Some (region_slot hole w 0 st)
           else do {
             r \<leftarrow> recursive_find_region s hole h (node_at s va i) (sub_first w first_blocknr i)
               (sub_last w last_blocknr i) (rg_data st) (rg_hole st);
             Some \<lparr>rg_blocks = rg_blocks st + rg_blocks r, rg_data = rg_data r, rg_hole = rg_hole r,
                   rg_stop = (\<not> hole \<and> rg_data r)\<rparr>
           })
         [first_blocknr div w..<last_blocknr div w + 1]
         \<lparr>rg_blocks = 0, rg_data = data_found, rg_hole = hole_found, rg_stop = False\<rparr>
     }"

text \<open>
  \<^verbatim>\<open>pmfs_find_region\<close>: the value returned with the new offset.  A hole search that finds no block
  returns the size itself.
\<close>

definition find_region_result :: "nat \<Rightarrow> nat \<Rightarrow> bool \<Rightarrow> nat \<Rightarrow> bool \<Rightarrow> bool \<Rightarrow> nat \<Rightarrow> (errno + nat) \<times> nat" where
  "find_region_result data_bits offset hole blocks data_found hole_found sz =
     (let offset_in_block = offset mod 2 ^ data_bits
      in if \<not> hole \<and> \<not> data_found \<and> hole_found then (Inl ENXIO, offset)
      else if data_found \<and> \<not> hole_found then (Inr 0, if hole then sz else offset)
      else if hole \<and> hole_found \<and> blocks = 0 then (Inr 0, if \<not> data_found then sz else offset)
      else if offset_in_block \<noteq> 0
        then (Inr 0, (offset + (blocks + 2 ^ 64 - 1) * 2 ^ data_bits + (2 ^ data_bits - offset_in_block)) mod 2 ^ 64)
      else (Inr 0, (offset + blocks * 2 ^ data_bits) mod 2 ^ 64))"

definition find_region_at :: "wpmfs \<Rightarrow> vinode \<Rightarrow> nat \<Rightarrow> nat \<Rightarrow> bool \<Rightarrow> ((errno + nat) \<times> nat) option" where
  "find_region_at s inode pi offset hole =
     (let data_bits = pmfs_inode_blk_shift s pi
      in if offset \<ge> i_size inode then Some (Inl ENXIO, offset)
      else if i_blocks inode = 0 \<or> pi_root s pi = 0 then Some (if hole then Inr (i_size inode) else Inl ENXIO, offset)
      else if pi_height s pi = 0 then Some (find_region_result data_bits offset hole 0 True False (i_size inode))
      else do {
        r \<leftarrow> recursive_find_region s hole (pi_height s pi - 1) (pi_root s pi) (offset div 2 ^ data_bits)
          (i_size inode div 2 ^ data_bits) False False;
        Some (find_region_result data_bits offset hole (rg_blocks r) (rg_data r) (rg_hole r) (i_size inode))
      })"

definition pmfs_find_region :: "allocator_factory \<Rightarrow> wpmfs \<Rightarrow> vinode \<Rightarrow> nat \<Rightarrow> bool \<Rightarrow>
    (((errno + nat) \<times> nat) \<times> wpmfs) option" where
  "pmfs_find_region A s inode offset hole =
     do { (pi, s1) \<leftarrow> inode_at A s (i_ino inode); r \<leftarrow> find_region_at s1 inode pi offset hole; Some (r, s1) }"

end
