(* ===== verification/MountScan.thy ===== *)
theory MountScan
  imports TreeTrunc
begin

text \<open>
  Rebuilding the allocator's state at mount (\<^verbatim>\<open>wpmfs_bbuild.c\<close>).  After a failure both allocators scan
  the inode table: every block an inode reaches is marked in a bitmap, and the map of used blocks (the
  bins of free blocks, for the wear-aware allocator) is built from the bitmap.  A bit beyond the bitmap
  is a write behind the allocation: \<open>None\<close>, like a null pointer.  The save of the map at unmount and the
  mount that can skip the scan are here too; timing statistics and locks are left out.
\<close>

section \<open>The bitmaps\<close>

record scan_bitmap =
  bitmap_4k_size :: nat
  bitmap_2M_size :: nat
  bitmap_1G_size :: nat
  bitmap_4k :: "nat set"
  bitmap_2M :: "nat set"
  bitmap_1G :: "nat set"

definition set_bit_4k :: "nat \<Rightarrow> scan_bitmap \<Rightarrow> scan_bitmap option" where
  "set_bit_4k n bm = (if n < bitmap_4k_size bm * 8 then Some (bm\<lparr>bitmap_4k := insert n (bitmap_4k bm)\<rparr>) else None)"

definition set_bit_2M :: "nat \<Rightarrow> scan_bitmap \<Rightarrow> scan_bitmap option" where
  "set_bit_2M n bm = (if n < bitmap_2M_size bm * 8 then Some (bm\<lparr>bitmap_2M := insert n (bitmap_2M bm)\<rparr>) else None)"

definition set_bit_1G :: "nat \<Rightarrow> scan_bitmap \<Rightarrow> scan_bitmap option" where
  "set_bit_1G n bm = (if n < bitmap_1G_size bm * 8 then Some (bm\<lparr>bitmap_1G := insert n (bitmap_1G bm)\<rparr>) else None)"

text \<open>\<^verbatim>\<open>find_next_bit\<close> and \<^verbatim>\<open>find_next_zero_bit\<close>: the next bit from \<open>next\<close> on, \<open>bsize\<close> if there is none.\<close>

function find_next :: "(nat \<Rightarrow> bool) \<Rightarrow> nat \<Rightarrow> nat \<Rightarrow> nat" where
  "find_next P bsize next = (if next < bsize then if P next then next else find_next P bsize (next + 1) else bsize)"
  by pat_completeness auto
termination
  by (relation "measure (\<lambda>(P, bsize, next). bsize - next)") auto

declare find_next.simps [simp del]

lemma find_next_spec:
  "next \<le> bsize \<Longrightarrow> next \<le> find_next P bsize next \<and> find_next P bsize next \<le> bsize \<and>
    (\<forall>i. next \<le> i \<longrightarrow> i < find_next P bsize next \<longrightarrow> \<not> P i) \<and>
    (find_next P bsize next < bsize \<longrightarrow> P (find_next P bsize next))"
proof (induction P bsize "next" rule: find_next.induct)
  case (1 P bsize n)
  show ?case
  proof (cases "n < bsize \<and> \<not> P n")
    case True
    then have e: "find_next P bsize n = find_next P bsize (n + 1)" by (simp add: find_next.simps [of _ _ n])
    have IH: "n + 1 \<le> find_next P bsize (n + 1) \<and> find_next P bsize (n + 1) \<le> bsize \<and>
        (\<forall>i. n + 1 \<le> i \<longrightarrow> i < find_next P bsize (n + 1) \<longrightarrow> \<not> P i) \<and>
        (find_next P bsize (n + 1) < bsize \<longrightarrow> P (find_next P bsize (n + 1)))"
      using 1 True by simp
    have "\<not> P i" if "n \<le> i" "i < find_next P bsize (n + 1)" for i
      using that IH True by (cases "i = n") auto
    with IH show ?thesis unfolding e by auto
  next
    case False
    with 1(2) show ?thesis by (auto simp: find_next.simps [of _ _ n])
  qed
qed

definition find_next_bit :: "nat set \<Rightarrow> nat \<Rightarrow> nat \<Rightarrow> nat" where
  "find_next_bit bits bsize next = find_next (\<lambda>i. i \<in> bits) bsize next"

definition find_next_zero_bit :: "nat set \<Rightarrow> nat \<Rightarrow> nat \<Rightarrow> nat" where
  "find_next_zero_bit bits bsize next = find_next (\<lambda>i. i \<notin> bits) bsize next"

lemma find_next_less:
  assumes "find_next P bsize next < bsize"
  shows "next \<le> find_next P bsize next" "P (find_next P bsize next)"
    "\<And>i. next \<le> i \<Longrightarrow> i < find_next P bsize next \<Longrightarrow> \<not> P i"
proof -
  have "next \<le> bsize"
  proof (rule ccontr)
    assume "\<not> next \<le> bsize"
    then have "find_next P bsize next = bsize" by (subst find_next.simps) simp
    with assms show False by simp
  qed
  note spec = find_next_spec [OF this, of P]
  show "next \<le> find_next P bsize next" "P (find_next P bsize next)" using spec assms by blast+
  show "\<not> P i" if "next \<le> i" "i < find_next P bsize next" for i using spec that by blast
qed

lemma next_zero_spec:
  "find_next_zero_bit bits bsize next < bsize \<Longrightarrow>
    next \<le> find_next_zero_bit bits bsize next \<and> find_next_zero_bit bits bsize next \<notin> bits"
  using find_next_less unfolding find_next_zero_bit_def by blast

lemma next_bit_spec:
  "find_next_bit bits bsize next < bsize \<Longrightarrow>
    next \<le> find_next_bit bits bsize next \<and> find_next_bit bits bsize next \<in> bits"
  using find_next_less unfolding find_next_bit_def by blast

section \<open>The fields of an inode the scan looks at\<close>

definition pi_dtime :: "wpmfs \<Rightarrow> nat \<Rightarrow> nat" where "pi_dtime s pi = le_load 4 (pm s) (pi + 32)"
definition pi_mode :: "wpmfs \<Rightarrow> nat \<Rightarrow> nat" where "pi_mode s pi = le_load 2 (pm s) (pi + 36)"
definition pi_links_count :: "wpmfs \<Rightarrow> nat \<Rightarrow> nat" where "pi_links_count s pi = le_load 2 (pm s) (pi + 38)"

definition empty_inode :: "wpmfs \<Rightarrow> nat \<Rightarrow> bool" where
  "empty_inode s pi \<longleftrightarrow> pi_links_count s pi = 0 \<and> (pi_mode s pi = 0 \<or> pi_dtime s pi \<noteq> 0)"

definition INODES_PER_BLOCK :: "nat \<Rightarrow> nat" where
  "INODES_PER_BLOCK btype = 2 ^ (blk_type_to_shift btype - 7)"

section \<open>The scan of the wear-aware allocator\<close>

definition mark_block :: "wpmfs \<Rightarrow> nat \<Rightarrow> scan_bitmap \<Rightarrow> scan_bitmap option" where
  "mark_block s blockoff bm =
     do { pfn \<leftarrow> wpmfs_get_pfn s (of_nat blockoff); set_bit_4k (pfn - phys_addr s div 2 ^ PAGE_SHIFT) bm }"

primrec wpmfs_inode_crawl_recursive :: "wpmfs \<Rightarrow> nat \<Rightarrow> nat \<Rightarrow> scan_bitmap \<Rightarrow> scan_bitmap option" where
  "wpmfs_inode_crawl_recursive s 0 blockoff bm = mark_block s blockoff bm"
| "wpmfs_inode_crawl_recursive s (Suc h) blockoff bm =
     do {
       bm1 \<leftarrow> mark_block s blockoff bm;
       va \<leftarrow> node_va s blockoff;
       loop_opt (\<lambda>i bm. if node_at s va i = 0 then Some bm
                 else wpmfs_inode_crawl_recursive s h (node_at s va i) bm) [0..<FANOUT] bm1
     }"

definition wpmfs_inode_crawl :: "wpmfs \<Rightarrow> nat \<Rightarrow> scan_bitmap \<Rightarrow> scan_bitmap option" where
  "wpmfs_inode_crawl s pi bm =
     (if pi_root s pi = 0 then Some bm else wpmfs_inode_crawl_recursive s (pi_height s pi) (pi_root s pi) bm)"

text \<open>The inodes of a block of the inode table; \<open>crawl\<close> is the scan of one inode.\<close>

definition crawl_inodes :: "(wpmfs \<Rightarrow> nat \<Rightarrow> scan_bitmap \<Rightarrow> scan_bitmap option) \<Rightarrow> nat \<Rightarrow> nat \<Rightarrow> wpmfs \<times> scan_bitmap \<Rightarrow>
    (wpmfs \<times> scan_bitmap) option" where
  "crawl_inodes crawl node btype = (\<lambda>(s, bm).
     let inodes_per_block = INODES_PER_BLOCK btype;
         s1 = s\<lparr>s_inodes_count := (s_inodes_count s + inodes_per_block) mod 2 ^ 32\<rparr>
     in loop_opt (\<lambda>i (s, bm).
            let pi = va_off s (node + PMFS_INODE_SIZE * i)
            in if empty_inode s pi then Some (s, bm)
               else let s' = s\<lparr>s_inodes_used_count := (s_inodes_used_count s + 1) mod 2 ^ 32\<rparr>
                    in map_option (\<lambda>bm'. (s', bm')) (crawl s' pi bm))
          [0..<inodes_per_block] (s1, bm))"

primrec wpmfs_inode_table_crawl_recursive :: "nat \<Rightarrow> nat \<Rightarrow> nat \<Rightarrow> wpmfs \<times> scan_bitmap \<Rightarrow> (wpmfs \<times> scan_bitmap) option" where
  "wpmfs_inode_table_crawl_recursive btype 0 blockoff st =
     do {
       bm \<leftarrow> mark_block (fst st) blockoff (snd st);
       node \<leftarrow> node_va (fst st) blockoff;
       crawl_inodes wpmfs_inode_crawl node btype (fst st, bm)
     }"
| "wpmfs_inode_table_crawl_recursive btype (Suc h) blockoff st =
     do {
       bm \<leftarrow> mark_block (fst st) blockoff (snd st);
       node \<leftarrow> node_va (fst st) blockoff;
       loop_opt (\<lambda>i st. if node_at (fst st) node i = 0 then Some st
                 else wpmfs_inode_table_crawl_recursive btype h (node_at (fst st) node i) st) [0..<FANOUT] (fst st, bm)
     }"

text \<open>Free the unmarked blocks of \<open>[low, high)\<close> whose page is not in use.\<close>

function wpmfs_try_free_blocks :: "wpmfs \<Rightarrow> nat \<Rightarrow> nat \<Rightarrow> wpmfs option" where
  "wpmfs_try_free_blocks s low high =
     (if low < high then
        (if wpmfs_page_marks s low AND WPMFS_PAGE_USING = 0
         then case wpmfs_free_block_locked s low 0 None of
                None \<Rightarrow> None | Some s1 \<Rightarrow> wpmfs_try_free_blocks s1 (low + 1) high
         else wpmfs_try_free_blocks s (low + 1) high)
      else Some s)"
  by pat_completeness auto
termination
  by (relation "measure (\<lambda>(s, low, high). high - low)") auto

declare wpmfs_try_free_blocks.simps [simp del]

text \<open>
  \<^verbatim>\<open>__wpmfs_build_blocknode_map\<close>: the runs of zero bits.  The result carries the last \<open>low\<close>, which
  decides the last release.
\<close>

function build_free_loop :: "nat set \<Rightarrow> nat \<Rightarrow> nat \<Rightarrow> nat \<Rightarrow> wpmfs \<Rightarrow> (nat \<times> nat \<times> wpmfs) option" where
  "build_free_loop bits bsize next low s =
     (let n1 = find_next_zero_bit bits bsize next
      in if bsize \<le> n1 then Some (low, n1, s)
      else
        let n2 = find_next_bit bits bsize n1
        in case wpmfs_try_free_blocks s n1 n2 of
             None \<Rightarrow> None
           | Some s1 \<Rightarrow> if bsize \<le> n2 then Some (n1, n2, s1) else build_free_loop bits bsize n2 n1 s1)"
  by pat_completeness auto
termination
proof (relation "measure (\<lambda>(bits, bsize, nxt, low, s). bsize - nxt)")
  fix bits :: "nat set" and bsize nxt low s x xa s1
  assume x: "x = find_next_zero_bit bits bsize nxt" "\<not> bsize \<le> x" "xa = find_next_bit bits bsize x" "\<not> bsize \<le> xa"
  have a: "nxt \<le> x \<and> x \<notin> bits" using next_zero_spec [of bits bsize nxt, folded x(1)] x(2) by (metis not_le)
  have b: "x \<le> xa \<and> xa \<in> bits" using next_bit_spec [of bits bsize x, folded x(3)] x(4) by (metis not_le)
  have "x \<noteq> xa" using a b by auto
  then have "nxt < xa" using a b by linarith
  with x(4) show "((bits, bsize, xa, x, s1), bits, bsize, nxt, low, s) \<in> measure (\<lambda>(bits, bsize, nxt, low, s). bsize - nxt)"
    by simp
qed simp

declare build_free_loop.simps [simp del]

definition wpmfs_build_blocknode_map :: "nat set \<Rightarrow> nat \<Rightarrow> wpmfs \<Rightarrow> wpmfs option" where
  "wpmfs_build_blocknode_map bits bsize s =
     (case build_free_loop bits bsize 1 0 s of
        None \<Rightarrow> None
      | Some (low, nxt, s1) \<Rightarrow> if low = 0 then wpmfs_try_free_blocks s1 low nxt else Some s1)"

text \<open>The size in the super block, the device's range and the counts after the scan.\<close>

definition fs_size :: "wpmfs \<Rightarrow> nat" where
  "fs_size s = le_load 8 (pm s) (va_off s (pmfs_get_super s + 8))"

definition set_geometry :: "wpmfs \<Rightarrow> wpmfs" where
  "set_geometry s = s\<lparr>block_start := 0, block_end := fs_size s div 2 ^ PAGE_SHIFT\<rparr>"

definition empty_bitmap :: "nat \<Rightarrow> scan_bitmap" where
  "empty_bitmap sz =
     \<lparr>bitmap_4k_size = sz div 2 ^ 15 + 1, bitmap_2M_size = sz div 2 ^ 24 + 1,
      bitmap_1G_size = sz div 2 ^ 33 + 1, bitmap_4k = {}, bitmap_2M = {}, bitmap_1G = {}\<rparr>"

definition set_inode_counts :: "wpmfs \<Rightarrow> wpmfs" where
  "set_inode_counts s = s\<lparr>
     s_free_inodes_count := (s_inodes_count s + 2 ^ 32 - (s_inodes_used_count s + 2) mod 2 ^ 32) mod 2 ^ 32,
     s_free_inode_hint := 3\<rparr>"

text \<open>
  \<^verbatim>\<open>wpmfs_setup_blocknode_map\<close>; \<open>mem\<close> says whether the bitmap could be allocated.  Without it the mount
  goes on with an allocator that has no blocks.  Only the bitmap of small blocks is used.
\<close>

definition wpmfs_setup_blocknode_map :: "bool \<Rightarrow> wpmfs \<Rightarrow> wpmfs option" where
  "wpmfs_setup_blocknode_map mem s =
     (let pi = pmfs_get_inode_table s;
          initsize = fs_size s;
          s1 = set_geometry s
      in if \<not> mem then Some s1
      else do {
        (s2, bm) \<leftarrow> wpmfs_inode_table_crawl_recursive (pi_blk_type s1 pi) (pi_height s1 pi) (pi_root s1 pi)
          (s1, empty_bitmap initsize);
        let s3 = set_inode_counts s2;
        let s4 = s3\<lparr>num_free_blocks := num_free_blocks s3 + initsize div 2 ^ PAGE_SHIFT\<rparr>;
        wpmfs_build_blocknode_map (bitmap_4k bm) (bitmap_4k_size bm * 8) (wpmfs_init_blockmap s4 initsize)
      })"

end
