(* ===== verification/TreeShape.thy ===== *)
theory TreeShape
  imports BlockTree
begin

text \<open>
  The block tree as a map.  The tree below a direct-mapped block is read off the byte memory: what a
  block number leads to (\<open>tree_lookup\<close>), the blocks that hold nodes and those that hold data, and when
  the tree is well-formed: every block is used once.  Block pointers are device offsets here, which is
  what \<^verbatim>\<open>wpmfs_get_block\<close> makes of a pointer with \<^verbatim>\<open>vlocation\<close> 0.
\<close>

section \<open>Definitions\<close>

type_synonym memory = "nat \<Rightarrow> 8 word"

definition slot :: "memory \<Rightarrow> nat \<Rightarrow> nat \<Rightarrow> nat" where
  "slot m p i = le_load 8 m (p + 8 * i)"

definition live :: "memory \<Rightarrow> nat \<Rightarrow> nat set" where
  "live m p = {i. i < FANOUT \<and> slot m p i \<noteq> 0}"

primrec tree_lookup :: "nat \<Rightarrow> memory \<Rightarrow> nat \<Rightarrow> nat \<Rightarrow> nat" where
  "tree_lookup 0 m p n = p"
| "tree_lookup (Suc h) m p n =
     (let q = slot m p (n div FANOUT ^ h) in if q = 0 then 0 else tree_lookup h m q (n mod FANOUT ^ h))"

primrec tree_nodes :: "nat \<Rightarrow> memory \<Rightarrow> nat \<Rightarrow> nat set" where
  "tree_nodes 0 m p = {}"
| "tree_nodes (Suc h) m p = insert p (\<Union>i\<in>live m p. tree_nodes h m (slot m p i))"

primrec tree_data :: "nat \<Rightarrow> memory \<Rightarrow> nat \<Rightarrow> nat set" where
  "tree_data 0 m p = {p}"
| "tree_data (Suc h) m p = (\<Union>i\<in>live m p. tree_data h m (slot m p i))"

definition tree_blocks :: "nat \<Rightarrow> memory \<Rightarrow> nat \<Rightarrow> nat set" where
  "tree_blocks h m p = tree_nodes h m p \<union> tree_data h m p"

text \<open>Block numbers and offsets of a device of at most 16 TiB, which the kernel's direct mapping shows.\<close>

abbreviation direct_block :: "nat \<Rightarrow> bool" where
  "direct_block b \<equiv> 0 < b \<and> b < 2 ^ 32"

definition block_ptr :: "nat \<Rightarrow> bool" where
  "block_ptr p \<longleftrightarrow> 4096 dvd p \<and> 0 < p \<and> p < 2 ^ 44"

primrec tree_wf :: "nat \<Rightarrow> memory \<Rightarrow> nat \<Rightarrow> bool" where
  "tree_wf 0 m p = block_ptr p"
| "tree_wf (Suc h) m p = (block_ptr p
     \<and> (\<forall>i\<in>live m p. tree_wf h m (slot m p i) \<and> p \<notin> tree_blocks h m (slot m p i))
     \<and> (\<forall>i\<in>live m p. \<forall>j\<in>live m p. i \<noteq> j \<longrightarrow> tree_blocks h m (slot m p i) \<inter> tree_blocks h m (slot m p j) = {}))"

text \<open>The block a byte lies in, as a pointer.\<close>

definition page_of :: "nat \<Rightarrow> nat" where
  "page_of x = x div 4096 * 4096"

section \<open>Pages\<close>

lemma FANOUT_pos [simp]: "0 < FANOUT" "FANOUT \<noteq> 0" "FANOUT ^ h \<noteq> 0" "0 < FANOUT ^ h"
  by (simp_all add: FANOUT_def)

lemma page_of_in: "4096 dvd p \<Longrightarrow> p \<le> x \<Longrightarrow> x < p + 4096 \<Longrightarrow> page_of x = p"
  by (auto simp: page_of_def elim!: dvdE)

lemma page_of_bounds: "page_of x = p \<Longrightarrow> p \<le> x \<and> x < p + 4096"
  by (auto simp: page_of_def)

lemma page_of_slot: "block_ptr p \<Longrightarrow> i < FANOUT \<Longrightarrow> k < 8 \<Longrightarrow> page_of (p + 8 * i + k) = p"
  by (rule page_of_in) (auto simp: block_ptr_def FANOUT_def)

lemma slot_cong:
  assumes "block_ptr p" "i < FANOUT" "\<And>x. page_of x = p \<Longrightarrow> m' x = m x"
  shows "slot m' p i = slot m p i"
  unfolding slot_def
proof (rule le_load_cong)
  fix x assume "p + 8 * i \<le> x" "x < p + 8 * i + 8"
  then obtain k where "x = p + 8 * i + k" "k < 8" by (metis le_Suc_ex nat_add_left_cancel_less)
  with page_of_slot [OF assms(1,2)] assms(3) show "m' x = m x" by simp
qed

lemma live_cong: "block_ptr p \<Longrightarrow> (\<And>x. page_of x = p \<Longrightarrow> m' x = m x) \<Longrightarrow> live m' p = live m p"
  using slot_cong [of p _ m' m] by (auto simp: live_def)

lemma live_less: "i \<in> live m p \<Longrightarrow> i < FANOUT \<and> slot m p i \<noteq> 0"
  by (simp add: live_def)

lemma tree_wf_ptr: "tree_wf h m p \<Longrightarrow> block_ptr p"
  by (cases h) auto

lemma tree_blocks_simps [simp]:
  "tree_blocks 0 m p = {p}"
  "tree_blocks (Suc h) m p = insert p (\<Union>i\<in>live m p. tree_blocks h m (slot m p i))"
  by (auto simp: tree_blocks_def)

lemma tree_root_block: "p \<in> tree_blocks h m p"
  by (cases h) auto

lemma tree_blocks_ptr: "tree_wf h m p \<Longrightarrow> q \<in> tree_blocks h m p \<Longrightarrow> block_ptr q"
  by (induction h arbitrary: p) auto

lemma finite_live [simp]: "finite (live m p)"
  by (simp add: live_def)

lemma finite_tree_blocks [simp]: "finite (tree_blocks h m p)"
  by (induction h arbitrary: p) auto

lemma tree_nodes_sub: "tree_nodes h m p \<subseteq> tree_blocks h m p" "tree_data h m p \<subseteq> tree_blocks h m p"
  by (auto simp: tree_blocks_def)

text \<open>The tree depends on the bytes of its nodes only.\<close>

lemma tree_cong_all:
  assumes "tree_wf h m p" "\<And>x. page_of x \<in> tree_nodes h m p \<Longrightarrow> m' x = m x"
  shows "tree_wf h m' p \<and> tree_nodes h m' p = tree_nodes h m p \<and> tree_data h m' p = tree_data h m p \<and>
    (\<forall>n < FANOUT ^ h. tree_lookup h m' p n = tree_lookup h m p n)"
  using assms
proof (induction h arbitrary: p)
  case (Suc h)
  have ptr: "block_ptr p" using Suc.prems by simp
  have sl: "live m' p = live m p" "i < FANOUT \<Longrightarrow> slot m' p i = slot m p i" for i
    using Suc.prems by (auto intro!: live_cong [OF ptr] slot_cong [OF ptr])
  have IH: "tree_wf h m' (slot m p i) \<and> tree_nodes h m' (slot m p i) = tree_nodes h m (slot m p i) \<and>
      tree_data h m' (slot m p i) = tree_data h m (slot m p i) \<and>
      (\<forall>n < FANOUT ^ h. tree_lookup h m' (slot m p i) n = tree_lookup h m (slot m p i) n)"
    if "i \<in> live m p" for i
    using Suc.prems that by (intro Suc.IH) auto
  have bl: "tree_blocks h m' (slot m p i) = tree_blocks h m (slot m p i)" if "i \<in> live m p" for i
    using IH [OF that] by (simp add: tree_blocks_def)
  have sl': "i \<in> live m p \<Longrightarrow> slot m' p i = slot m p i" for i using sl(2) live_less by blast
  have "tree_lookup (Suc h) m' p n = tree_lookup (Suc h) m p n" if "n < FANOUT ^ Suc h" for n
  proof -
    have i: "n div FANOUT ^ h < FANOUT" using that by (simp add: less_mult_imp_div_less mult.commute)
    show ?thesis
      using sl(2) [OF i] IH [of "n div FANOUT ^ h"] i by (auto simp: Let_def live_def)
  qed
  moreover have "tree_nodes (Suc h) m' p = tree_nodes (Suc h) m p" "tree_data (Suc h) m' p = tree_data (Suc h) m p"
    using sl(1) sl' IH by auto
  moreover have "tree_wf (Suc h) m' p"
    using Suc.prems(1) sl(1) sl' IH bl by (auto simp del: tree_blocks_simps)
  ultimately show ?case by blast
qed auto

lemma tree_cong:
  assumes "tree_wf h m p" "\<And>x. page_of x \<in> tree_nodes h m p \<Longrightarrow> m' x = m x"
  shows "tree_wf h m' p" "tree_nodes h m' p = tree_nodes h m p" "tree_data h m' p = tree_data h m p"
    "tree_blocks h m' p = tree_blocks h m p"
    "n < FANOUT ^ h \<Longrightarrow> tree_lookup h m' p n = tree_lookup h m p n"
  using tree_cong_all [of h m p m', OF assms] by (auto simp: tree_blocks_def)

text \<open>Lookups lead to data blocks, different block numbers to different ones.\<close>

lemma tree_lookup_data:
  "tree_wf h m p \<Longrightarrow> n < FANOUT ^ h \<Longrightarrow> tree_lookup h m p n \<noteq> 0 \<Longrightarrow> tree_lookup h m p n \<in> tree_data h m p"
proof (induction h arbitrary: p n)
  case (Suc h)
  have "n div FANOUT ^ h < FANOUT" using Suc.prems(2) by (simp add: less_mult_imp_div_less mult.commute)
  with Suc show ?case by (auto simp: Let_def live_def split: if_splits)
qed simp

lemma tree_lookup_inj:
  "tree_wf h m p \<Longrightarrow> n < FANOUT ^ h \<Longrightarrow> k < FANOUT ^ h \<Longrightarrow> tree_lookup h m p n \<noteq> 0 \<Longrightarrow>
    tree_lookup h m p n = tree_lookup h m p k \<Longrightarrow> n = k"
proof (induction h arbitrary: p n k)
  case (Suc h)
  let ?i = "n div FANOUT ^ h" and ?j = "k div FANOUT ^ h"
  have i: "?i < FANOUT" "?j < FANOUT" using Suc.prems(2,3) by (simp_all add: less_mult_imp_div_less mult.commute)
  have l: "?i \<in> live m p" "?j \<in> live m p" using Suc.prems(4,5) i by (auto simp: Let_def live_def split: if_splits)
  have eq: "tree_lookup h m (slot m p ?i) (n mod FANOUT ^ h) = tree_lookup h m (slot m p ?j) (k mod FANOUT ^ h)"
    "tree_lookup h m (slot m p ?i) (n mod FANOUT ^ h) \<noteq> 0"
    using Suc.prems(4,5) l by (auto simp: Let_def live_def)
  have d: "tree_lookup h m (slot m p ?i) (n mod FANOUT ^ h) \<in> tree_blocks h m (slot m p ?i)"
    "tree_lookup h m (slot m p ?j) (k mod FANOUT ^ h) \<in> tree_blocks h m (slot m p ?j)"
    using tree_lookup_data [of h m "slot m p ?i" "n mod FANOUT ^ h"] tree_lookup_data [of h m "slot m p ?j" "k mod FANOUT ^ h"]
      Suc.prems(1) l eq by (auto simp: tree_blocks_def)
  have ij: "?i = ?j"
    using Suc.prems(1) l d eq(1) by auto
  have "n mod FANOUT ^ h = k mod FANOUT ^ h"
    using Suc.IH [of "slot m p ?i" "n mod FANOUT ^ h" "k mod FANOUT ^ h"] Suc.prems(1) l eq ij by auto
  with ij show ?case by (metis div_mult_mod_eq)
qed simp

end
