(* ===== verification/TreeExt.thy ===== *)
theory TreeExt
  imports TreeShape TreeAlloc
begin

text \<open>
  What an allocation may do to a block tree (\<open>tree_ext\<close>), the states it starts from (\<open>tree_ok\<close>), and how
  extensions compose: one after the other, from a child to its parent, and by filling a hole.
\<close>

section \<open>Extending a tree\<close>

text \<open>
  What an allocation below \<open>p\<close> may do: fill holes inside \<open>N\<close> with blocks that were available, and write
  only to nodes, to those blocks and to the flags and block count of the inode.
\<close>

definition got :: "(wpmfs \<Rightarrow> nat set) \<Rightarrow> wpmfs \<Rightarrow> wpmfs \<Rightarrow> nat set" where
  "got avail s t = (\<lambda>b. b * 4096) ` (avail s - avail t)"

definition inode_counts :: "nat \<Rightarrow> nat set" where
  "inode_counts pi = {pi + 4..<pi + 8} \<union> {pi + 40..<pi + 48}"

definition tree_ext :: "(wpmfs \<Rightarrow> nat set) \<Rightarrow> nat \<Rightarrow> nat \<Rightarrow> nat \<Rightarrow> nat set \<Rightarrow> wpmfs \<Rightarrow> wpmfs \<Rightarrow> bool" where
  "tree_ext avail pi h p N s t \<longleftrightarrow> kernel_same s t \<and> avail t \<subseteq> avail s \<and> tree_wf h (pm t) p
     \<and> tree_nodes h (pm t) p \<subseteq> tree_nodes h (pm s) p \<union> got avail s t
     \<and> tree_blocks h (pm t) p \<subseteq> tree_blocks h (pm s) p \<union> got avail s t
     \<and> (\<forall>n < FANOUT ^ h. tree_lookup h (pm s) p n \<noteq> 0 \<or> n \<notin> N \<longrightarrow>
          tree_lookup h (pm t) p n = tree_lookup h (pm s) p n)
     \<and> (\<forall>x. page_of x \<notin> tree_nodes h (pm s) p \<union> got avail s t \<longrightarrow> x \<notin> inode_counts pi \<longrightarrow> pm t x = pm s x)"

text \<open>Addresses of the direct mapping are not shown by the page table of the windows.\<close>

definition direct_ok :: "wpmfs \<Rightarrow> bool" where
  "direct_ok s \<longleftrightarrow> 0 < virt_addr s \<and> (\<forall>x < 2 ^ 44. vmap_pt s ((virt_addr s + x) div 4096) = None)"

definition tree_ok :: "(wpmfs \<Rightarrow> nat set) \<Rightarrow> nat \<Rightarrow> nat \<Rightarrow> nat \<Rightarrow> wpmfs \<Rightarrow> bool" where
  "tree_ok avail pi h p s \<longleftrightarrow> direct_ok s \<and> tree_wf h (pm s) p
     \<and> tree_blocks h (pm s) p \<inter> (\<lambda>b. b * 4096) ` avail s = {}
     \<and> page_of pi \<notin> tree_blocks h (pm s) p \<and> page_of pi \<notin> (\<lambda>b. b * 4096) ` avail s
     \<and> (\<forall>b\<in>avail s. direct_block b) \<and> pi mod 4096 + 128 \<le> 4096 \<and> pi_blk_type s pi = 0"

lemma tree_okD:
  assumes "tree_ok avail pi h p s"
  shows "direct_ok s" "tree_wf h (pm s) p" "tree_blocks h (pm s) p \<inter> (\<lambda>b. b * 4096) ` avail s = {}"
    "page_of pi \<notin> tree_blocks h (pm s) p" "page_of pi \<notin> (\<lambda>b. b * 4096) ` avail s"
    "b \<in> avail s \<Longrightarrow> direct_block b" "pi mod 4096 + 128 \<le> 4096" "pi_blk_type s pi = 0"
  using assms unfolding tree_ok_def by (elim conjE; simp)+

lemma page_of_inode: "pi mod 4096 + 128 \<le> 4096 \<Longrightarrow> pi \<le> x \<Longrightarrow> x < pi + 128 \<Longrightarrow> page_of x = page_of pi"
proof -
  assume "pi mod 4096 + 128 \<le> 4096" "pi \<le> x" "x < pi + 128"
  moreover have "pi = page_of pi + pi mod 4096" by (simp add: page_of_def)
  ultimately have "page_of pi \<le> x" "x < page_of pi + 4096" by linarith+
  then show ?thesis by (intro page_of_in) (simp_all add: page_of_def)
qed

lemma inode_counts_page: "pi mod 4096 + 128 \<le> 4096 \<Longrightarrow> x \<in> inode_counts pi \<Longrightarrow> page_of x = page_of pi"
  by (rule page_of_inode) (auto simp: inode_counts_def)

lemma got_sub: "avail u \<subseteq> avail t \<Longrightarrow> avail t \<subseteq> avail s \<Longrightarrow> got avail s u = got avail s t \<union> got avail t u"
  by (auto simp: got_def)

lemma got_avail: "got avail s t \<subseteq> (\<lambda>b. b * 4096) ` avail s"
  by (auto simp: got_def)

lemma tree_ext_frame:
  "tree_ext avail pi h p N s t \<Longrightarrow> page_of x \<notin> tree_nodes h (pm s) p \<Longrightarrow> page_of x \<notin> got avail s t \<Longrightarrow>
    x \<notin> inode_counts pi \<Longrightarrow> pm t x = pm s x"
  unfolding tree_ext_def by blast

lemma tree_ext_lookup:
  "tree_ext avail pi h p N s t \<Longrightarrow> n < FANOUT ^ h \<Longrightarrow> tree_lookup h (pm s) p n \<noteq> 0 \<or> n \<notin> N \<Longrightarrow>
    tree_lookup h (pm t) p n = tree_lookup h (pm s) p n"
  unfolding tree_ext_def by blast

lemma tree_ext_refl: "tree_ok avail pi h p s \<Longrightarrow> tree_ext avail pi h p N s s"
  by (simp add: tree_ext_def tree_ok_def)

lemma tree_ext_mono: "tree_ext avail pi h p N s t \<Longrightarrow> N \<subseteq> M \<Longrightarrow> tree_ext avail pi h p M s t"
  unfolding tree_ext_def by blast

lemma tree_ext_ok:
  assumes ok: "tree_ok avail pi h p s" and e: "tree_ext avail pi h p N s t"
  shows "tree_ok avail pi h p t"
proof -
  have bl: "tree_blocks h (pm t) p \<subseteq> tree_blocks h (pm s) p \<union> got avail s t" and av: "avail t \<subseteq> avail s"
    using e by (auto simp: tree_ext_def)
  have got: "got avail s t \<inter> (\<lambda>b. b * 4096) ` avail t = {}" by (auto simp: got_def)
  have pi: "page_of pi \<notin> got avail s t" "page_of pi \<notin> tree_nodes h (pm s) p"
    using ok got_avail [of avail s t] tree_nodes_sub(1) [of h "pm s" p] unfolding tree_ok_def by blast+
  have "pi_blk_type t pi = pi_blk_type s pi"
    unfolding pi_blk_type_def
  proof (rule le_load_cong)
    fix x assume x: "pi + 3 \<le> x" "x < pi + 3 + 1"
    have "page_of x = page_of pi" using ok x by (intro page_of_inode) (auto simp: tree_ok_def)
    with pi x show "pm t x = pm s x" by (intro tree_ext_frame [OF e]) (auto simp: inode_counts_def)
  qed
  moreover have "direct_ok t" using ok e by (simp add: tree_ok_def tree_ext_def direct_ok_def kernel_same_def)
  moreover have "tree_blocks h (pm t) p \<inter> (\<lambda>b. b * 4096) ` avail t = {}"
    using bl av got ok unfolding tree_ok_def by blast
  moreover have "page_of pi \<notin> tree_blocks h (pm t) p" "page_of pi \<notin> (\<lambda>b. b * 4096) ` avail t"
    using bl av pi ok unfolding tree_ok_def by blast+
  moreover have "tree_wf h (pm t) p" using e by (simp add: tree_ext_def)
  ultimately show ?thesis using ok av unfolding tree_ok_def by auto
qed

lemma tree_ext_trans:
  assumes e: "tree_ext avail pi h p N s t" and f: "tree_ext avail pi h p N t u"
  shows "tree_ext avail pi h p N s u"
proof -
  have av: "avail t \<subseteq> avail s" "avail u \<subseteq> avail t" using e f by (auto simp: tree_ext_def)
  note got = got_sub [of avail, OF av(2,1)]
  have "kernel_same s u" using e f kernel_same_trans by (auto simp: tree_ext_def)
  moreover have "tree_lookup h (pm u) p n = tree_lookup h (pm s) p n"
    if "n < FANOUT ^ h" "tree_lookup h (pm s) p n \<noteq> 0 \<or> n \<notin> N" for n
    using tree_ext_lookup [OF e that] tree_ext_lookup [OF f that(1)] that(2) by auto
  moreover have nodes: "tree_nodes h (pm t) p \<subseteq> tree_nodes h (pm s) p \<union> got avail s t"
    "tree_nodes h (pm u) p \<subseteq> tree_nodes h (pm t) p \<union> got avail t u"
    "tree_blocks h (pm t) p \<subseteq> tree_blocks h (pm s) p \<union> got avail s t"
    "tree_blocks h (pm u) p \<subseteq> tree_blocks h (pm t) p \<union> got avail t u" "tree_wf h (pm u) p"
    using e f by (auto simp: tree_ext_def)
  moreover have "pm u x = pm s x" if "page_of x \<notin> tree_nodes h (pm s) p \<union> got avail s u" "x \<notin> inode_counts pi" for x
    using tree_ext_frame [OF e, of x] tree_ext_frame [OF f, of x] nodes(1) that unfolding got by auto
  ultimately show ?thesis using av unfolding tree_ext_def got by auto
qed

lemma lookup_Suc_live:
  "n < FANOUT ^ Suc h \<Longrightarrow> tree_lookup (Suc h) m p n =
    (if n div FANOUT ^ h \<in> live m p then tree_lookup h m (slot m p (n div FANOUT ^ h)) (n mod FANOUT ^ h) else 0)"
  by (simp add: live_def Let_def less_mult_imp_div_less mult.commute)

lemma tree_ok_child:
  assumes "tree_ok avail pi (Suc h) p s" "i \<in> live (pm s) p"
  shows "tree_ok avail pi h (slot (pm s) p i) s"
  using assms by (auto simp: tree_ok_def)

text \<open>An extension of a child extends the tree.\<close>

lemma tree_ext_child:
  assumes ok: "tree_ok avail pi (Suc h) p s" and i: "i \<in> live (pm s) p"
    and e: "tree_ext avail pi h (slot (pm s) p i) M s t"
  shows "tree_ext avail pi (Suc h) p {n. n div FANOUT ^ h = i \<and> n mod FANOUT ^ h \<in> M} s t"
    "slot (pm t) p i = slot (pm s) p i" "live (pm t) p = live (pm s) p"
proof -
  let ?m = "pm s" and ?m' = "pm t" and ?q = "slot (pm s) p i"
  have wf: "tree_wf (Suc h) ?m p" and pi: "page_of pi \<notin> tree_blocks (Suc h) ?m p" "pi mod 4096 + 128 \<le> 4096"
    using ok unfolding tree_ok_def by blast+
  have gb: "got avail s t \<inter> tree_blocks (Suc h) ?m p = {}"
    using got_avail [of avail s t] tree_okD(3) [OF ok] by blast
  have keep: "?m' x = ?m x" if "page_of x \<in> tree_blocks (Suc h) ?m p" "page_of x \<notin> tree_nodes h ?m ?q" for x
  proof (rule tree_ext_frame [OF e that(2)])
    show "page_of x \<notin> got avail s t" using that(1) gb by blast
    show "x \<notin> inode_counts pi" using that(1) pi inode_counts_page [OF pi(2), of x] by metis
  qed
  have ptr: "block_ptr p" using wf by simp
  have top: "?m' x = ?m x" if "page_of x = p" for x
  proof (rule keep)
    have "p \<notin> tree_blocks h ?m ?q" using wf i by simp
    then show "page_of x \<notin> tree_nodes h ?m ?q" using that tree_nodes_sub(1) [of h ?m ?q] by blast
    show "page_of x \<in> tree_blocks (Suc h) ?m p" by (simp add: that)
  qed
  have sl: "j < FANOUT \<Longrightarrow> slot ?m' p j = slot ?m p j" for j by (rule slot_cong [OF ptr _ top])
  have lv: "live ?m' p = live ?m p" by (rule live_cong [OF ptr top])
  show "slot ?m' p i = slot ?m p i" "live ?m' p = live ?m p" using sl i live_less lv by blast+
  have sib: "tree_wf h ?m' (slot ?m p j) \<and> tree_nodes h ?m' (slot ?m p j) = tree_nodes h ?m (slot ?m p j) \<and>
      tree_blocks h ?m' (slot ?m p j) = tree_blocks h ?m (slot ?m p j) \<and>
      (\<forall>n < FANOUT ^ h. tree_lookup h ?m' (slot ?m p j) n = tree_lookup h ?m (slot ?m p j) n)"
    if j: "j \<in> live ?m p" "j \<noteq> i" for j
  proof -
    have "?m' x = ?m x" if "page_of x \<in> tree_nodes h ?m (slot ?m p j)" for x
    proof (rule keep)
      have x: "page_of x \<in> tree_blocks h ?m (slot ?m p j)" using that tree_nodes_sub(1) [of h ?m "slot ?m p j"] by blast
      then show "page_of x \<in> tree_blocks (Suc h) ?m p" using j by auto
      have "tree_blocks h ?m (slot ?m p j) \<inter> tree_blocks h ?m ?q = {}" using wf i j by simp
      then show "page_of x \<notin> tree_nodes h ?m ?q" using x tree_nodes_sub(1) [of h ?m ?q] by blast
    qed
    with tree_cong [of h ?m "slot ?m p j" ?m'] wf j show ?thesis by auto
  qed
  have slj: "j \<in> live ?m p \<Longrightarrow> slot ?m' p j = slot ?m p j" for j using sl live_less by blast
  have ci: "tree_wf h ?m' ?q" "tree_nodes h ?m' ?q \<subseteq> tree_nodes h ?m ?q \<union> got avail s t"
    "tree_blocks h ?m' ?q \<subseteq> tree_blocks h ?m ?q \<union> got avail s t"
    using e by (auto simp: tree_ext_def)
  have cj: "tree_wf h ?m' (slot ?m p j)" "tree_nodes h ?m' (slot ?m p j) \<subseteq> tree_nodes h ?m (slot ?m p j) \<union> got avail s t"
    "tree_blocks h ?m' (slot ?m p j) \<subseteq> tree_blocks h ?m (slot ?m p j) \<union> got avail s t"
    if "j \<in> live ?m p" for j
    using ci sib [OF that] by (cases "j = i"; auto)+
  have "tree_wf (Suc h) ?m' p"
  proof -
    have "p \<notin> tree_blocks h ?m' (slot ?m p j)" if "j \<in> live ?m p" for j
      using cj(3) [OF that] gb wf that by auto
    moreover have "tree_blocks h ?m' (slot ?m p j) \<inter> tree_blocks h ?m' (slot ?m p k) = {}"
      if "j \<in> live ?m p" "k \<in> live ?m p" "j \<noteq> k" for j k
    proof -
      have d: "tree_blocks h ?m (slot ?m p j) \<inter> tree_blocks h ?m (slot ?m p k) = {}" using wf that by simp
      have g: "got avail s t \<inter> tree_blocks h ?m (slot ?m p l) = {}" if "l \<in> live ?m p" for l using gb that by auto
      show ?thesis
        using d g [OF that(1)] g [OF that(2)] sib [of j] sib [of k] ci(3) that by (cases "j = i"; cases "k = i") auto
    qed
    ultimately show ?thesis using ptr cj(1) slj by (simp add: lv del: tree_blocks_simps)
  qed
  moreover have "tree_nodes (Suc h) ?m' p \<subseteq> tree_nodes (Suc h) ?m p \<union> got avail s t"
    "tree_blocks (Suc h) ?m' p \<subseteq> tree_blocks (Suc h) ?m p \<union> got avail s t"
    using cj(2,3) slj by (simp_all add: lv) blast+
  moreover have "tree_lookup (Suc h) ?m' p n = tree_lookup (Suc h) ?m p n"
    if n: "n < FANOUT ^ Suc h" and "tree_lookup (Suc h) ?m p n \<noteq> 0 \<or> \<not> (n div FANOUT ^ h = i \<and> n mod FANOUT ^ h \<in> M)" for n
  proof (cases "n div FANOUT ^ h = i")
    case True
    with that i show ?thesis
      using tree_ext_lookup [OF e, of "n mod FANOUT ^ h"] by (simp add: lookup_Suc_live [OF n] lv slj del: tree_lookup.simps)
  next
    case False
    then show ?thesis using sib [of "n div FANOUT ^ h"] slj by (simp add: lookup_Suc_live [OF n] lv del: tree_lookup.simps)
  qed
  moreover have "pm t x = pm s x" if "page_of x \<notin> tree_nodes (Suc h) ?m p \<union> got avail s t" "x \<notin> inode_counts pi" for x
    using that i by (intro tree_ext_frame [OF e]) auto
  ultimately show "tree_ext avail pi (Suc h) p {n. n div FANOUT ^ h = i \<and> n mod FANOUT ^ h \<in> M} s t"
    using e unfolding tree_ext_def by auto
qed

section \<open>Filling a hole\<close>

lemma empty_node:
  assumes "block_ptr q" "h = 0 \<or> live m q = {}"
  shows "tree_wf h m q" "tree_blocks h m q = {q}" "tree_nodes h m q \<subseteq> {q}"
    "0 < h \<Longrightarrow> n < FANOUT ^ h \<Longrightarrow> tree_lookup h m q n = 0"
  using assms by (cases h; simp add: lookup_Suc_live del: tree_lookup.simps)+

lemma tree_ext_fill:
  assumes ok: "tree_ok avail pi (Suc h) p s" and i: "i < FANOUT" "slot (pm s) p i = 0"
    and b: "b \<in> avail s" "avail t = avail s - {b}" and k: "kernel_same s t"
    and sl: "\<And>j. j < FANOUT \<Longrightarrow> slot (pm t) p j = (if j = i then b * 4096 else slot (pm s) p j)"
    and empty: "0 < h \<Longrightarrow> live (pm t) (b * 4096) = {}"
    and frame: "\<And>x. page_of x \<noteq> p \<Longrightarrow> page_of x \<noteq> b * 4096 \<Longrightarrow> x \<notin> inode_counts pi \<Longrightarrow> pm t x = pm s x"
  shows "tree_ext avail pi (Suc h) p (if h = 0 then {i} else {}) s t"
proof -
  let ?m = "pm s" and ?m' = "pm t" and ?q = "b * 4096"
  have wf: "tree_wf (Suc h) ?m p" and pi: "page_of pi \<notin> tree_blocks (Suc h) ?m p" "pi mod 4096 + 128 \<le> 4096"
    using tree_okD [OF ok] by blast+
  have got: "got avail s t = {?q}" using b by (auto simp: got_def)
  have qb: "?q \<notin> tree_blocks (Suc h) ?m p" using tree_okD(3) [OF ok] b(1) by blast
  have q: "block_ptr ?q" "?q \<noteq> 0" using tree_okD(6) [OF ok b(1)] by (auto simp: block_ptr_def)
  have lv: "live ?m' p = insert i (live ?m p)" "i \<notin> live ?m p"
    using i sl q(2) by (auto simp: live_def)
  have slj: "slot ?m' p j = slot ?m p j" if "j \<in> live ?m p" for j
    using that lv(2) sl live_less by (metis (full_types))
  have sli: "slot ?m' p i = ?q" using sl i by simp
  have sib: "tree_wf h ?m' (slot ?m p j) \<and> tree_nodes h ?m' (slot ?m p j) = tree_nodes h ?m (slot ?m p j) \<and>
      tree_blocks h ?m' (slot ?m p j) = tree_blocks h ?m (slot ?m p j) \<and>
      (\<forall>n < FANOUT ^ h. tree_lookup h ?m' (slot ?m p j) n = tree_lookup h ?m (slot ?m p j) n)"
    if j: "j \<in> live ?m p" for j
  proof -
    have "?m' x = ?m x" if "page_of x \<in> tree_nodes h ?m (slot ?m p j)" for x
    proof (rule frame)
      have x: "page_of x \<in> tree_blocks h ?m (slot ?m p j)" using that tree_nodes_sub(1) [of h ?m "slot ?m p j"] by blast
      then have xp: "page_of x \<in> tree_blocks (Suc h) ?m p" using j by auto
      with qb show "page_of x \<noteq> ?q" by metis
      have "p \<notin> tree_blocks h ?m (slot ?m p j)" using wf j by simp
      with x show "page_of x \<noteq> p" by metis
      show "x \<notin> inode_counts pi" using xp pi inode_counts_page [OF pi(2), of x] by metis
    qed
    moreover have "tree_wf h ?m (slot ?m p j)" using wf j by simp
    ultimately show ?thesis using tree_cong [of h ?m "slot ?m p j" ?m'] by blast
  qed
  have e: "h = 0 \<or> live ?m' ?q = {}" using empty by blast
  note new = empty_node [OF q(1) e]
  have qj: "?q \<notin> tree_blocks h ?m (slot ?m p j)" if "j \<in> live ?m p" for j using qb that by auto
  have pq: "p \<noteq> ?q" using qb tree_root_block [of p "Suc h" ?m] by metis
  have pj: "p \<notin> tree_blocks h ?m (slot ?m p j)" if "j \<in> live ?m p" for j using wf that by simp
  have dj: "tree_blocks h ?m (slot ?m p j) \<inter> tree_blocks h ?m (slot ?m p l) = {}"
    if "j \<in> live ?m p" "l \<in> live ?m p" "j \<noteq> l" for j l using wf that by simp
  have "tree_wf (Suc h) ?m' p"
    using wf new(1,2) sib slj sli lv pq pj qj dj by (simp add: del: tree_blocks_simps)
  moreover have "tree_nodes (Suc h) ?m' p \<subseteq> tree_nodes (Suc h) ?m p \<union> got avail s t"
    using new(3) sib slj sli by (auto simp: lv got)
  moreover have "tree_blocks (Suc h) ?m' p \<subseteq> tree_blocks (Suc h) ?m p \<union> got avail s t"
    using new(2) sib slj sli by (auto simp: lv got)
  moreover have "tree_lookup (Suc h) ?m' p n = tree_lookup (Suc h) ?m p n"
    if n: "n < FANOUT ^ Suc h" and c: "tree_lookup (Suc h) ?m p n \<noteq> 0 \<or> n \<notin> (if h = 0 then {i} else {})" for n
  proof (cases "n div FANOUT ^ h = i")
    case True
    have "tree_lookup (Suc h) ?m p n = 0" unfolding lookup_Suc_live [OF n] using True lv(2) by simp
    with c have "0 < h" using True by (auto split: if_splits)
    with new(4) True lv(2) show ?thesis unfolding lookup_Suc_live [OF n] by (simp add: lv(1) sli)
  next
    case False
    have "n mod FANOUT ^ h < FANOUT ^ h" by simp
    with False show ?thesis using sib [of "n div FANOUT ^ h"] slj unfolding lookup_Suc_live [OF n] by (auto simp: lv(1))
  qed
  moreover have "pm t x = pm s x" if "page_of x \<notin> tree_nodes (Suc h) ?m p \<union> got avail s t" "x \<notin> inode_counts pi" for x
    using that frame [of x] by (simp add: got)
  ultimately show ?thesis using k b unfolding tree_ext_def by auto
qed

section \<open>Addresses of direct-mapped nodes\<close>

lemma node_va_direct:
  assumes "direct_ok s" "block_ptr p"
  shows "node_va s p = Some (virt_addr s + p)" "va_off s (virt_addr s + p) = p" "node_off s p = Some p"
proof -
  have p: "0 < p" "p < 2 ^ 44" using assms(2) by (auto simp: block_ptr_def)
  have w: "wb_make p 0 = of_nat p"
    by (rule word_unat_eq_iff [THEN iffD2]) (use p in \<open>simp add: unat_wb_make_0 unat_of_nat\<close>)
  show va: "node_va s p = Some (virt_addr s + p)"
    using p get_block_direct [of p s] by (simp add: node_va_def w)
  show off: "va_off s (virt_addr s + p) = p"
    using assms(1) p by (simp add: va_off_def direct_ok_def)
  show "node_off s p = Some p" by (simp add: node_off_def va off)
qed

lemma direct_ok_same: "kernel_same s t \<Longrightarrow> direct_ok s \<Longrightarrow> direct_ok t"
  by (simp add: kernel_same_def direct_ok_def)

lemma va_off_same: "kernel_same s t \<Longrightarrow> va_off t a = va_off s a"
  by (auto simp: kernel_same_def va_off_def split: option.split)

lemma get_blockoff_0:
  "direct_block b \<Longrightarrow> wpmfs_get_blockoff K s b 0 = Some (wb_make (b * 4096) 0, s) \<and> unat (wb_make (b * 4096) 0) = b * 4096"
  by (simp add: wpmfs_get_blockoff_def blockoff_direct unat_wb_make_0)

section \<open>Storing a pointer\<close>

lemma slot_store: "v < 2 ^ 64 \<Longrightarrow> slot (le_store 8 m (p + 8 * i) v) p j = (if j = i then v else slot m p j)"
  by (auto simp: slot_def intro!: le_load_store_other)

lemma slot_other_page:
  "block_ptr q \<Longrightarrow> j < FANOUT \<Longrightarrow> (\<And>x. page_of x = q \<Longrightarrow> m' x = m x) \<Longrightarrow> slot m' q j = slot m q j"
  by (rule slot_cong)

lemma slot_fill_zero: "j < FANOUT \<Longrightarrow> slot (mem_fill m q 0 4096) q j = 0"
  by (simp add: slot_def FANOUT_def)

lemma store_out: "block_ptr p \<Longrightarrow> i < FANOUT \<Longrightarrow> page_of x \<noteq> p \<Longrightarrow> le_store 8 m (p + 8 * i) v x = m x"
proof (rule le_store_out)
  assume a: "block_ptr p" "i < FANOUT" "page_of x \<noteq> p"
  show "x < p + 8 * i \<or> p + 8 * i + 8 \<le> x"
  proof (rule ccontr)
    assume "\<not> (x < p + 8 * i \<or> p + 8 * i + 8 \<le> x)"
    then obtain k where "x = p + 8 * i + k" "k < 8" by (metis le_Suc_ex nat_add_left_cancel_less not_less)
    with page_of_slot [OF a(1,2)] a(3) show False by simp
  qed
qed

lemma fill_out: "block_ptr q \<Longrightarrow> page_of x \<noteq> q \<Longrightarrow> mem_fill m q 0 4096 x = m x"
  using page_of_in [of q x] by (force simp: block_ptr_def mem_fill_def)

lemma loop_res_ind:
  assumes start: "P D s"
    and step: "\<And>i D t. i \<in> set is \<Longrightarrow> P D t \<Longrightarrow> \<exists>r t'. f i t = Some (r, t') \<and>
      (case r of Inl e \<Rightarrow> Q t' | Inr _ \<Rightarrow> P (insert i D) t')"
  shows "\<exists>r t'. loop_res f is s = Some (r, t') \<and> (case r of Inl e \<Rightarrow> Q t' | Inr _ \<Rightarrow> P (D \<union> set is) t')"
  using assms
proof (induction "is" arbitrary: D s)
  case (Cons i "is")
  obtain r t where t: "f i s = Some (r, t)" "case r of Inl e \<Rightarrow> Q t | Inr _ \<Rightarrow> P (insert i D) t"
    using Cons.prems(2) [of i D s] Cons.prems(1) by auto
  show ?case
  proof (cases r)
    case (Inl e)
    with t show ?thesis by simp
  next
    case (Inr u)
    have eq: "insert i D \<union> set is = D \<union> set (i # is)" by auto
    have "\<exists>r t'. loop_res f is t = Some (r, t') \<and> (case r of Inl e \<Rightarrow> Q t' | Inr _ \<Rightarrow> P (insert i D \<union> set is) t')"
      by (rule Cons.IH) (use t Inr Cons.prems(2) in auto)
    with t Inr show ?thesis unfolding eq by simp
  qed
qed simp

end
