(* ===== verification/TreeGrow.thy ===== *)
theory TreeGrow
  imports TreeExt
begin

text \<open>
  \<^verbatim>\<open>recursive_alloc_blocks\<close> only extends the tree, whatever allocator serves it, and after success
  every block of the range is there.
\<close>

context tree_allocator
begin

definition grown :: "nat \<Rightarrow> nat \<Rightarrow> nat \<Rightarrow> nat set \<Rightarrow> wpmfs \<Rightarrow> wpmfs \<Rightarrow> bool" where
  "grown pi h p N s t \<longleftrightarrow> invar t \<and> tree_ext avail pi h p N s t"

lemma save_slots_fs [simp]: "as_fs (save_slots E va i l st) = as_fs st"
  by (simp add: save_slots_def)

lemma alloc_meta_slot_grown:
  assumes ok: "tree_ok avail pi (Suc (Suc h)) p (as_fs st)" and inv: "invar (as_fs st)" and i: "i < FANOUT"
  shows "\<exists>r st'. alloc_meta_slot K A E 0 (virt_addr (as_fs st) + p) l i st = Some (r, st') \<and>
    grown pi (Suc (Suc h)) p {} (as_fs st) (as_fs st') \<and>
    (case r of Inl e \<Rightarrow> True | Inr _ \<Rightarrow> i \<in> live (pm (as_fs st')) p)"
proof -
  let ?s = "as_fs st"
  have ptr: "block_ptr p" and dir: "direct_ok ?s" using tree_okD(1,2) [OF ok] by auto
  note va = node_va_direct(2) [OF dir ptr]
  show ?thesis
  proof (cases "slot (pm ?s) p i = 0")
    case False
    with i ok inv show ?thesis
      by (auto simp: alloc_meta_slot_def va slot_def live_def grown_def intro: tree_ext_refl)
  next
    case True
    obtain r t where t: "af_new_block A ?s 0 True = Some (r, t)" "invar t" "kernel_same ?s t"
      and el: "\<And>e. r = Inl e \<Longrightarrow> avail t = avail ?s \<and> pm t = pm ?s"
      and er: "\<And>b. r = Inr b \<Longrightarrow> b \<in> avail ?s \<and> avail t = avail ?s - {b} \<and> may_free t b \<and>
         pm t = (if True then mem_fill (pm ?s) (b * 4096) 0 4096 else pm ?s)"
      by (rule new_any [OF inv, of True]) blast
    show ?thesis
    proof (cases r)
      case (Inl e)
      have "tree_ext avail pi (Suc (Suc h)) p {} ?s t"
        using tree_ext_refl [OF ok, of "{}"] el [OF Inl] t(3) by (simp add: tree_ext_def got_def)
      with Inl t(1,2) True show ?thesis
        by (simp add: alloc_meta_slot_def va slot_def grown_def)
    next
      case (Inr b)
      note b = er [OF Inr]
      have bo: "direct_block b" using tree_okD(6) [OF ok] b by blast
      then have q: "block_ptr (b * 4096)" "b * 4096 < 2 ^ 64" by (auto simp: block_ptr_def)
      note bk = get_blockoff_0 [OF bo, of K]
      define u where "u = PM_EQU 8 t (p + 8 * i) (b * 4096)"
      have u: "pm u = le_store 8 (mem_fill (pm ?s) (b * 4096) 0 4096) (p + 8 * i) (b * 4096)" "kernel_same ?s u"
        "alloc_same t u" using b t(3) kernel_same_trans by (auto simp: u_def)
      note cc = contract_cong [OF u(3)]
      have pq: "p \<noteq> b * 4096" using tree_okD(3) [OF ok] b tree_root_block [of p "Suc (Suc h)" "pm ?s"] by blast
      have "tree_ext avail pi (Suc (Suc h)) p (if Suc h = 0 then {i} else {}) ?s u"
      proof (rule tree_ext_fill [OF ok i True])
        show "b \<in> avail ?s" "avail u = avail ?s - {b}" "kernel_same ?s u" using b cc u by auto
        show "slot (pm u) p j = (if j = i then b * 4096 else slot (pm ?s) p j)" if j: "j < FANOUT" for j
          using slot_other_page [OF ptr j, of "mem_fill (pm ?s) (b * 4096) 0 4096" "pm ?s"] fill_out [OF q(1)] pq
          by (simp add: u(1) slot_store [OF q(2)])
        show "live (pm u) (b * 4096) = {}"
        proof -
          have "slot (pm u) (b * 4096) j = 0" if j: "j < FANOUT" for j
            using slot_other_page [OF q(1) j, of "pm u" "mem_fill (pm ?s) (b * 4096) 0 4096"]
              store_out [OF ptr i] pq slot_fill_zero [OF j] by (simp add: u(1))
          then show ?thesis by (simp add: live_def)
        qed
        show "pm u x = pm ?s x" if "page_of x \<noteq> p" "page_of x \<noteq> b * 4096" for x
          using that store_out [OF ptr i] fill_out [OF q(1)] by (simp add: u(1))
      qed
      moreover have "i \<in> live (pm u) p" using i q by (simp add: live_def u(1) slot_store [OF q(2)] block_ptr_def)
      ultimately show ?thesis
        using t(1,2) Inr True bk cc by (simp add: alloc_meta_slot_def va slot_def grown_def u_def)
    qed
  qed
qed

end

lemma tree_ext_counts:
  assumes ok: "tree_ok avail pi h p s" and a: "avail t = avail s" "kernel_same s t"
    and m: "\<And>x. x \<notin> inode_counts pi \<Longrightarrow> pm t x = pm s x"
  shows "tree_ext avail pi h p N s t"
proof -
  note tree_okD [OF ok]
  have "pm t x = pm s x" if "page_of x \<in> tree_nodes h (pm s) p" for x
  proof (rule m)
    show "x \<notin> inode_counts pi"
      using that tree_okD(4,7) [OF ok] inode_counts_page [of pi x] tree_nodes_sub(1) [of h "pm s" p] by (metis subsetD)
  qed
  with tree_cong [OF tree_okD(2) [OF ok], of "pm t"] a m show ?thesis
    unfolding tree_ext_def got_def by auto
qed

lemma count_out: "x \<notin> inode_counts pi \<Longrightarrow> le_store 8 m (pi + 40) v x = m x"
  "x \<notin> inode_counts pi \<Longrightarrow> le_store 4 m (pi + 4) v x = m x"
  by (auto simp: inode_counts_def intro!: le_store_out)

context tree_allocator
begin

lemma grown_trans:
  "grown pi h p N s t \<Longrightarrow> grown pi h p N t u \<Longrightarrow> grown pi h p N s u"
  unfolding grown_def by (blast intro: tree_ext_trans)

lemma grown_ok: "tree_ok avail pi h p s \<Longrightarrow> grown pi h p N s t \<Longrightarrow> tree_ok avail pi h p t \<and> invar t \<and> kernel_same s t"
  unfolding grown_def using tree_ext_ok tree_ext_def by blast

lemma new_data_block_ok:
  assumes inv: "invar s" and ty: "pi_blk_type s pi = 0"
  obtains r t where "pmfs_new_data_block A s pi z = Some (r, t)" "invar t" "kernel_same s t"
    "\<And>e. r = Inl e \<Longrightarrow> avail t = avail s \<and> pm t = pm s"
    "\<And>b. r = Inr b \<Longrightarrow> b \<in> avail s \<and> avail t = avail s - {b} \<and> (\<exists>v. pm t =
       le_store 8 (if z then mem_fill (pm s) (b * 4096) 0 4096 else pm s) (pi + 40) v)"
proof -
  obtain r t where t: "af_new_block A s 0 z = Some (r, t)" "invar t" "kernel_same s t"
    and el: "\<And>e. r = Inl e \<Longrightarrow> avail t = avail s \<and> pm t = pm s"
    and er: "\<And>b. r = Inr b \<Longrightarrow> b \<in> avail s \<and> avail t = avail s - {b} \<and> may_free t b \<and>
       pm t = (if z then mem_fill (pm s) (b * 4096) 0 4096 else pm s)"
    by (rule new_any [OF inv, of z]) blast
  show thesis
  proof (cases r)
    case (Inl e)
    with t el [OF Inl] show thesis
      by (intro that [of r t]) (auto simp: pmfs_new_data_block_def ty)
  next
    case (Inr b)
    let ?u = "plain_store 8 t (pi + 40) (pi_blocks t pi + 2 ^ (pmfs_inode_blk_shift s pi - 12))"
    have "alloc_same t ?u" "kernel_same t ?u" by simp_all
    note cc = contract_cong [OF this(1)] kernel_same_trans [OF t(3) this(2)]
    show thesis
      by (rule that [of r ?u]) (use t er [OF Inr] cc Inr in \<open>auto simp: pmfs_new_data_block_def ty\<close>)
  qed
qed

lemma alloc_data_slot_grown:
  assumes ok: "tree_ok avail pi (Suc 0) p (as_fs st)" and inv: "invar (as_fs st)" and i: "i < FANOUT"
  shows "\<exists>r st'. alloc_data_slot K A E pi z 0 (virt_addr (as_fs st) + p) l i st = Some (r, st') \<and>
    grown pi (Suc 0) p {i} (as_fs st) (as_fs st') \<and>
    (case r of Inl e \<Rightarrow> True | Inr _ \<Rightarrow> i \<in> live (pm (as_fs st')) p)"
proof -
  let ?s = "as_fs st"
  have ptr: "block_ptr p" and dir: "direct_ok ?s" using tree_okD(1,2) [OF ok] by auto
  note va = node_va_direct(2) [OF dir ptr]
  show ?thesis
  proof (cases "slot (pm ?s) p i = 0")
    case False
    with i ok inv show ?thesis
      by (auto simp: alloc_data_slot_def va slot_def live_def grown_def intro: tree_ext_refl)
  next
    case True
    obtain r t where t: "pmfs_new_data_block A ?s pi z = Some (r, t)" "invar t" "kernel_same ?s t"
      and el: "\<And>e. r = Inl e \<Longrightarrow> avail t = avail ?s \<and> pm t = pm ?s"
      and er: "\<And>b. r = Inr b \<Longrightarrow> b \<in> avail ?s \<and> avail t = avail ?s - {b} \<and> (\<exists>v. pm t =
         le_store 8 (if z then mem_fill (pm ?s) (b * 4096) 0 4096 else pm ?s) (pi + 40) v)"
      by (rule new_data_block_ok [OF inv tree_okD(8) [OF ok], of z]) blast
    show ?thesis
    proof (cases r)
      case (Inl e)
      let ?u = "PM_OR_EQU 4 t (pi + 4) PMFS_EOFBLOCKS_FL"
      have same: "alloc_same t ?u" "kernel_same t ?u" by simp_all
      note cc = contract_cong [OF same(1)] kernel_same_trans [OF t(3) same(2)]
      have "tree_ext avail pi (Suc 0) p {i} ?s ?u"
        by (rule tree_ext_counts [OF ok]) (use cc el [OF Inl] in \<open>auto simp: count_out\<close>)
      with Inl t(1,2) True cc show ?thesis
        by (simp add: alloc_data_slot_def va slot_def grown_def)
    next
      case (Inr b)
      let ?m = "if z then mem_fill (pm ?s) (b * 4096) 0 4096 else pm ?s"
      obtain v where v: "pm t = le_store 8 ?m (pi + 40) v" and b: "b \<in> avail ?s" "avail t = avail ?s - {b}"
        using er [OF Inr] by blast
      have bo: "direct_block b" by (rule tree_okD(6) [OF ok b(1)])
      then have q: "block_ptr (b * 4096)" "b * 4096 < 2 ^ 64" by (auto simp: block_ptr_def)
      note bk = get_blockoff_0 [OF bo, of K]
      define u where "u = plain_store 8 t (p + 8 * i) (b * 4096)"
      have u: "pm u = le_store 8 (le_store 8 ?m (pi + 40) v) (p + 8 * i) (b * 4096)" "kernel_same ?s u" "alloc_same t u"
        using v t(3) kernel_same_trans by (auto simp: u_def)
      note cc = contract_cong [OF u(3)]
      have pq: "p \<noteq> b * 4096" using tree_okD(3) [OF ok] b tree_root_block [of p "Suc 0" "pm ?s"] by blast
      have pp: "page_of pi \<noteq> p" using tree_okD(4) [OF ok] tree_root_block [of p "Suc 0" "pm ?s"] by metis
      have m: "?m x = pm ?s x" if "page_of x \<noteq> b * 4096" for x using fill_out [OF q(1) that] by simp
      have cnt: "le_store 8 ?m (pi + 40) v x = ?m x" if "page_of x = p" for x
        using that pp inode_counts_page [OF tree_okD(7) [OF ok], of x] by (intro count_out) auto
      have "tree_ext avail pi (Suc 0) p (if (0::nat) = 0 then {i} else {}) ?s u"
      proof (rule tree_ext_fill [OF ok i True])
        show "b \<in> avail ?s" "avail u = avail ?s - {b}" "kernel_same ?s u" using b cc u by auto
        show "slot (pm u) p j = (if j = i then b * 4096 else slot (pm ?s) p j)" if j: "j < FANOUT" for j
        proof -
          have "slot (le_store 8 ?m (pi + 40) v) p j = slot (pm ?s) p j"
            by (rule slot_other_page [OF ptr j]) (metis cnt m pq)
          then show ?thesis by (simp only: u(1) slot_store [OF q(2)])
        qed
        show "pm u x = pm ?s x" if "page_of x \<noteq> p" "page_of x \<noteq> b * 4096" "x \<notin> inode_counts pi" for x
          using that store_out [OF ptr i that(1)] count_out(1) [OF that(3)] m by (simp only: u(1))
      qed simp
      moreover have "i \<in> live (pm u) p" using i q by (simp add: live_def u(1) slot_store [OF q(2)] block_ptr_def)
      ultimately show ?thesis
        using t(1,2) Inr True bk cc by (simp add: alloc_data_slot_def va slot_def grown_def u_def)
    qed
  qed
qed

lemma lookup_data_slot: "n < FANOUT \<Longrightarrow> tree_lookup (Suc 0) m p n \<noteq> 0 \<longleftrightarrow> n \<in> live m p"
  by (simp add: live_def Let_def)

lemma alloc_data_range:
  assumes ok: "tree_ok avail pi (Suc 0) p s" and inv: "invar s" and hi: "hi < FANOUT"
  shows "\<exists>r s' J'. recursive_alloc_blocks K A E pi z 0 0 p lo hi nn s J = Some (r, s', J') \<and>
    grown pi (Suc 0) p {lo..hi} s s' \<and>
    (case r of Inl _ \<Rightarrow> True | Inr _ \<Rightarrow> \<forall>n\<in>{lo..hi}. tree_lookup (Suc 0) (pm s') p n \<noteq> 0)"
proof -
  have ptr: "block_ptr p" and dir: "direct_ok s" using tree_okD(1,2) [OF ok] by auto
  let ?st = "\<lparr>as_fs = s, as_tx = J, as_new_node = nn, as_saved = False\<rparr>"
  let ?P = "\<lambda>D (st :: alloc_state). grown pi (Suc 0) p {lo..hi} s (as_fs st) \<and> (\<forall>n\<in>D. tree_lookup (Suc 0) (pm (as_fs st)) p n \<noteq> 0)
     \<and> D \<subseteq> {lo..hi}"
  let ?f = "alloc_data_slot K A E pi z 0 (virt_addr s + p) hi"
  have "\<exists>r st'. loop_res ?f [lo..<hi + 1] ?st = Some (r, st') \<and>
    (case r of Inl _ \<Rightarrow> grown pi (Suc 0) p {lo..hi} s (as_fs st') | Inr _ \<Rightarrow> ?P ({} \<union> set [lo..<hi + 1]) st')"
  proof (rule loop_res_ind [where P = ?P and D = "{}" and Q = "\<lambda>st :: alloc_state. grown pi (Suc 0) p {lo..hi} s (as_fs st)"])
    show "?P {} ?st" using ok inv by (simp add: grown_def tree_ext_refl)
    fix i D and st :: alloc_state assume i: "i \<in> set [lo..<hi + 1]" and P: "?P D st"
    then have il: "i < FANOUT" "{i} \<subseteq> {lo..hi}" using hi by auto
    from P grown_ok [OF ok] have st: "tree_ok avail pi (Suc 0) p (as_fs st)" "invar (as_fs st)" "kernel_same s (as_fs st)"
      by blast+
    have vs: "virt_addr (as_fs st) = virt_addr s" using st(3) by (simp add: kernel_same_def)
    obtain r st' where r: "?f i st = Some (r, st')" "grown pi (Suc 0) p {i} (as_fs st) (as_fs st')"
      "case r of Inl e \<Rightarrow> True | Inr _ \<Rightarrow> i \<in> live (pm (as_fs st')) p"
      using alloc_data_slot_grown [OF st(1,2) il(1), of K E z hi] unfolding vs by blast
    have ext: "tree_ext avail pi (Suc 0) p {lo..hi} (as_fs st) (as_fs st')"
      using r(2) tree_ext_mono [OF _ il(2)] by (simp add: grown_def)
    then have g: "grown pi (Suc 0) p {lo..hi} s (as_fs st')"
      using P r(2) grown_trans by (auto simp: grown_def intro: tree_ext_trans)
    have keep: "tree_lookup (Suc 0) (pm (as_fs st')) p n \<noteq> 0" if "n \<in> D" for n
      using tree_ext_lookup [OF ext, of n] P that hi by auto
    have "case r of Inl e \<Rightarrow> grown pi (Suc 0) p {lo..hi} s (as_fs st') | Inr _ \<Rightarrow> ?P (insert i D) st'"
    proof (cases r)
      case (Inr u)
      with r(3) have "tree_lookup (Suc 0) (pm (as_fs st')) p i \<noteq> 0"
        by (simp only: lookup_data_slot [OF il(1)] sum.case)
      with Inr g keep P il show ?thesis by (simp del: tree_lookup.simps)
    qed (simp add: g)
    with r(1) show "\<exists>r st'. ?f i st = Some (r, st') \<and>
        (case r of Inl e \<Rightarrow> grown pi (Suc 0) p {lo..hi} s (as_fs st') | Inr _ \<Rightarrow> ?P (insert i D) st')" by blast
  qed
  then obtain r st' where l: "loop_res ?f [lo..<hi + 1] ?st = Some (r, st')"
    "case r of Inl _ \<Rightarrow> grown pi (Suc 0) p {lo..hi} s (as_fs st') | Inr _ \<Rightarrow> ?P ({} \<union> set [lo..<hi + 1]) st'" by blast
  have set: "set [lo..<hi + 1] = {lo..hi}" by auto
  have "recursive_alloc_blocks K A E pi z 0 0 p lo hi nn s J = Some (r, as_fs st', as_tx st')"
    using l(1) by (simp add: node_va_direct(1) [OF dir ptr] del: upt_Suc)
  with l(2) show ?thesis unfolding set by (cases r) (auto simp del: tree_lookup.simps)
qed

end

lemma sub_range:
  assumes "0 < w" "lo div w \<le> i" "i \<le> hi div w"
  shows "{n. n div w = i \<and> n mod w \<in> {sub_first w lo i..sub_last w hi i}} = {n \<in> {lo..hi}. n div w = i}"
proof -
  have "n mod w \<ge> sub_first w lo i \<longleftrightarrow> lo \<le> n" if "n div w = i" for n
  proof (cases "i = lo div w")
    case True
    have "n = i * w + n mod w" "lo = i * w + lo mod w" using that True by (metis div_mult_mod_eq)+
    then have "lo mod w \<le> n mod w \<longleftrightarrow> lo \<le> n" by linarith
    then show ?thesis using True by (simp add: sub_first_def)
  next
    case False
    then have "lo div w < n div w" using assms(2) that by simp
    then have "lo < n" by (metis div_le_mono not_le)
    with False show ?thesis by (simp add: sub_first_def)
  qed
  moreover have "n mod w \<le> sub_last w hi i \<longleftrightarrow> n \<le> hi" if "n div w = i" for n
  proof (cases "i = hi div w")
    case True
    have "n = i * w + n mod w" "hi = i * w + hi mod w" using that True by (metis div_mult_mod_eq)+
    then have "n mod w \<le> hi mod w \<longleftrightarrow> n \<le> hi" by linarith
    then show ?thesis using True by (simp add: sub_last_def)
  next
    case False
    then have "n div w < hi div w" using assms(3) that by simp
    then have "n < hi" by (metis div_le_mono not_le)
    moreover have "n mod w \<le> w - 1" using assms(1) by (metis One_nat_def Suc_pred less_Suc_eq_le mod_less_divisor)
    ultimately show ?thesis using False by (simp add: sub_last_def)
  qed
  ultimately show ?thesis by auto
qed

lemma sub_last_less: "0 < w \<Longrightarrow> sub_last w hi i < w"
  by (simp add: sub_last_def)

context tree_allocator
begin

lemma grown_mono: "grown pi h p N s t \<Longrightarrow> N \<subseteq> M \<Longrightarrow> grown pi h p M s t"
  unfolding grown_def using tree_ext_mono by blast

lemma grown_child:
  assumes ok: "tree_ok avail pi (Suc h) p s" and i: "i \<in> live (pm s) p"
    and g: "grown pi h (slot (pm s) p i) {sub_first (FANOUT ^ h) lo i..sub_last (FANOUT ^ h) hi i} s t"
    and r: "lo div FANOUT ^ h \<le> i" "i \<le> hi div FANOUT ^ h"
  shows "grown pi (Suc h) p {n \<in> {lo..hi}. n div FANOUT ^ h = i} s t"
    "slot (pm t) p i = slot (pm s) p i" "live (pm t) p = live (pm s) p"
proof -
  have e: "tree_ext avail pi h (slot (pm s) p i) {sub_first (FANOUT ^ h) lo i..sub_last (FANOUT ^ h) hi i} s t"
    using g by (simp add: grown_def)
  show "grown pi (Suc h) p {n \<in> {lo..hi}. n div FANOUT ^ h = i} s t"
    using tree_ext_child(1) [OF ok i e] g unfolding sub_range [OF FANOUT_pos(4) r] by (simp add: grown_def)
  show "slot (pm t) p i = slot (pm s) p i" "live (pm t) p = live (pm s) p"
    using tree_ext_child(2,3) [OF ok i e] by simp_all
qed

lemma alloc_rec:
  "tree_ok avail pi (Suc h) p s \<Longrightarrow> invar s \<Longrightarrow> hi < FANOUT ^ Suc h \<Longrightarrow>
   \<exists>r s' J'. recursive_alloc_blocks K A E pi z 0 h p lo hi nn s J = Some (r, s', J') \<and>
    grown pi (Suc h) p {lo..hi} s s' \<and>
    (case r of Inl _ \<Rightarrow> True | Inr _ \<Rightarrow> \<forall>n\<in>{lo..hi}. tree_lookup (Suc h) (pm s') p n \<noteq> 0)"
proof (induction h arbitrary: p s lo hi nn J)
  case 0
  then show ?case by (intro alloc_data_range) simp_all
next
  case (Suc h)
  note ok = Suc.prems(1)
  have ptr: "block_ptr p" and dir: "direct_ok s" using tree_okD(1,2) [OF ok] by auto
  let ?w = "FANOUT ^ Suc h"
  let ?st = "\<lparr>as_fs = s, as_tx = J, as_new_node = nn, as_saved = False\<rparr>"
  let ?H = "Suc (Suc h)"
  let ?G = "\<lambda>st :: alloc_state. grown pi ?H p {lo..hi} s (as_fs st)"
  let ?P = "\<lambda>D (st :: alloc_state). ?G st \<and>
    (\<forall>n\<in>{lo..hi}. n div ?w \<in> D \<longrightarrow> tree_lookup ?H (pm (as_fs st)) p n \<noteq> 0)"
  let ?f = "\<lambda>i st. do {
           (r1, st1) \<leftarrow> alloc_meta_slot K A E 0 (virt_addr s + p) (hi div ?w) i st;
           case r1 of Inl e \<Rightarrow> Some (Inl e, st1)
           | Inr _ \<Rightarrow> do {
               (r2, s2, J2) \<leftarrow> recursive_alloc_blocks K A E pi z 0 h
                 (le_load 8 (pm (as_fs st1)) (va_off (as_fs st1) (virt_addr s + p) + 8 * i))
                 (sub_first ?w lo i) (sub_last ?w hi i) (as_new_node st1) (as_fs st1) (as_tx st1);
               Some (r2, st1\<lparr>as_fs := s2, as_tx := J2\<rparr>)
             }
         }"
  have "\<exists>r st'. loop_res ?f [lo div ?w..<hi div ?w + 1] ?st = Some (r, st') \<and>
    (case r of Inl _ \<Rightarrow> ?G st' | Inr _ \<Rightarrow> ?P ({} \<union> set [lo div ?w..<hi div ?w + 1]) st')"
  proof (rule loop_res_ind [where P = ?P and D = "{}" and Q = ?G])
    show "?P {} ?st" using ok Suc.prems(2) by (simp add: grown_def tree_ext_refl)
    fix i D and st :: alloc_state assume i: "i \<in> set [lo div ?w..<hi div ?w + 1]" and P: "?P D st"
    have hw: "hi div ?w < FANOUT" using Suc.prems(3) by (simp add: less_mult_imp_div_less mult.commute)
    have il: "lo div ?w \<le> i" "i \<le> hi div ?w" "i < FANOUT" using i hw by auto
    from P grown_ok [OF ok] have st: "tree_ok avail pi ?H p (as_fs st)" "invar (as_fs st)" "kernel_same s (as_fs st)"
      by blast+
    have vs: "virt_addr (as_fs st) = virt_addr s" using st(3) by (simp add: kernel_same_def)
    obtain r1 st1 where r1: "alloc_meta_slot K A E 0 (virt_addr s + p) (hi div ?w) i st = Some (r1, st1)"
        "grown pi ?H p {} (as_fs st) (as_fs st1)"
        "case r1 of Inl e \<Rightarrow> True | Inr _ \<Rightarrow> i \<in> live (pm (as_fs st1)) p"
      using alloc_meta_slot_grown [OF st(1,2) il(3), of K E "hi div ?w"] unfolding vs by blast
    have g1: "grown pi ?H p {lo..hi} (as_fs st) (as_fs st1)" by (rule grown_mono [OF r1(2)]) simp
    have ok1: "tree_ok avail pi ?H p (as_fs st1)" "invar (as_fs st1)" "kernel_same s (as_fs st1)"
      using grown_ok [OF st(1) g1] st(3) kernel_same_trans by blast+
    show "\<exists>r st'. ?f i st = Some (r, st') \<and> (case r of Inl e \<Rightarrow> ?G st' | Inr _ \<Rightarrow> ?P (insert i D) st')"
    proof (cases r1)
      case (Inl e)
      with r1(1) g1 P show ?thesis using grown_trans by auto
    next
      case (Inr u)
      with r1(3) have iv: "i \<in> live (pm (as_fs st1)) p" by simp
      let ?q = "slot (pm (as_fs st1)) p i"
      have q: "le_load 8 (pm (as_fs st1)) (va_off (as_fs st1) (virt_addr s + p) + 8 * i) = ?q"
        using node_va_direct(2) [OF dir ptr] va_off_same [OF ok1(3)] by (simp add: slot_def)
      have okc: "tree_ok avail pi (Suc h) ?q (as_fs st1)" by (rule tree_ok_child [OF ok1(1) iv])
      have sl: "sub_last ?w hi i < FANOUT ^ Suc h" by (rule sub_last_less) (rule FANOUT_pos)
      obtain r2 s2 J2 where r2: "recursive_alloc_blocks K A E pi z 0 h ?q (sub_first ?w lo i) (sub_last ?w hi i)
            (as_new_node st1) (as_fs st1) (as_tx st1) = Some (r2, s2, J2)"
          "grown pi (Suc h) ?q {sub_first ?w lo i..sub_last ?w hi i} (as_fs st1) s2"
          "case r2 of Inl _ \<Rightarrow> True | Inr _ \<Rightarrow>
            \<forall>n\<in>{sub_first ?w lo i..sub_last ?w hi i}. tree_lookup (Suc h) (pm s2) ?q n \<noteq> 0"
        using Suc.IH [OF okc ok1(2) sl, of "sub_first ?w lo i" "as_new_node st1" "as_tx st1"] by blast
      note gc = grown_child [OF ok1(1) iv r2(2) il(1,2)]
      have g2: "grown pi ?H p {lo..hi} (as_fs st1) s2" by (rule grown_mono [OF gc(1)]) blast
      have gt: "grown pi ?H p {lo..hi} (as_fs st) s2" by (rule grown_trans [OF g1 g2])
      have G: "grown pi ?H p {lo..hi} s s2" using P grown_trans [OF _ gt] by blast
      let ?st' = "st1\<lparr>as_fs := s2, as_tx := J2\<rparr>"
      have f: "?f i st = Some (r2, ?st')" using r1(1) Inr r2(1) by (simp only: q bind.bind_lunit prod.case sum.case)
      have "case r2 of Inl e \<Rightarrow> ?G ?st' | Inr _ \<Rightarrow> ?P (insert i D) ?st'"
      proof (cases r2)
        case (Inr v)
        have "tree_lookup ?H (pm s2) p n \<noteq> 0" if n: "n \<in> {lo..hi}" "n div ?w \<in> insert i D" for n
        proof (cases "n div ?w = i")
          case True
          have nf: "n < FANOUT ^ ?H" using n(1) Suc.prems(3) by simp
          have "n mod ?w \<in> {sub_first ?w lo i..sub_last ?w hi i}"
            using sub_range [OF FANOUT_pos(4) il(1,2)] n(1) True by blast
          then have "tree_lookup (Suc h) (pm s2) ?q (n mod ?w) \<noteq> 0" using r2(3) Inr by simp
          then show ?thesis unfolding lookup_Suc_live [OF nf] True gc(2,3) using iv by (simp del: tree_lookup.simps)
        next
          case False
          with n(2) have "n div ?w \<in> D" by blast
          with P n(1) have ne: "tree_lookup ?H (pm (as_fs st)) p n \<noteq> 0" by blast
          have nf: "n < FANOUT ^ ?H" using n(1) Suc.prems(3) by simp
          have "tree_ext avail pi ?H p {lo..hi} (as_fs st) s2" using gt by (simp add: grown_def)
          with ne show ?thesis using tree_ext_lookup [OF _ nf] by metis
        qed
        with Inr G show ?thesis by (simp del: tree_lookup.simps)
      qed (simp add: G)
      with f show ?thesis by blast
    qed
  qed
  then obtain r st' where l: "loop_res ?f [lo div ?w..<hi div ?w + 1] ?st = Some (r, st')"
    "case r of Inl _ \<Rightarrow> ?G st' | Inr _ \<Rightarrow> ?P ({} \<union> set [lo div ?w..<hi div ?w + 1]) st'" by blast
  have in_set: "n div ?w \<in> {} \<union> set [lo div ?w..<hi div ?w + 1]" if "n \<in> {lo..hi}" for n
  proof -
    have "lo div ?w \<le> n div ?w" "n div ?w \<le> hi div ?w" using that by (simp_all add: div_le_mono del: power_Suc)
    then show ?thesis by (simp only: Un_empty_left set_upt atLeastLessThan_iff Suc_eq_plus1 [symmetric] less_Suc_eq_le simp_thms)
  qed
  have "recursive_alloc_blocks K A E pi z 0 (Suc h) p lo hi nn s J = Some (r, as_fs st', as_tx st')"
    unfolding recursive_alloc_blocks.simps(2) Let_def node_va_direct(1) [OF dir ptr] bind.bind_lunit l(1) by simp
  with l(2) in_set show ?case by (cases r) (auto simp del: tree_lookup.simps)
qed

end

end
