(* ===== verification/TreeCut.thy ===== *)
theory TreeCut
  imports TreeGrow TreeTrunc
begin

text \<open>
  \<^verbatim>\<open>recursive_truncate_blocks\<close> cuts a range of block numbers out of the tree: what it gives back, what is
  left, and when the node itself has become empty.  Releases go through the allocator's contract
  (locale \<open>tree_releaser\<close>); \<open>returns\<close> holds of a result, and of none only when the allocator may stop.
\<close>

section \<open>Loops that may stop at an assertion\<close>

definition returns :: "bool \<Rightarrow> ('a \<Rightarrow> bool) \<Rightarrow> 'a option \<Rightarrow> bool" where
  "returns sure P r = (case r of None \<Rightarrow> \<not> sure | Some x \<Rightarrow> P x)"

lemma returns_Some [simp]: "returns sure P (Some x) = P x"
  by (simp add: returns_def)

lemma returns_mono: "returns sure P r \<Longrightarrow> (\<And>x. P x \<Longrightarrow> Q x) \<Longrightarrow> returns sure Q r"
  by (auto simp: returns_def split: option.splits)

lemma returns_bind: "returns sure P r \<Longrightarrow> (\<And>x. P x \<Longrightarrow> returns sure Q (f x)) \<Longrightarrow> returns sure Q (Option.bind r f)"
  by (cases r) (auto simp: returns_def)

lemma loop_opt_ind:
  assumes "P D s" and "\<And>i D t. i \<in> set is \<Longrightarrow> i \<notin> D \<Longrightarrow> P D t \<Longrightarrow> returns sure (P (insert i D)) (f i t)"
    and "distinct is" "D \<inter> set is = {}"
  shows "returns sure (P (D \<union> set is)) (loop_opt f is s)"
  using assms
proof (induction "is" arbitrary: D s)
  case (Cons i "is")
  have st: "returns sure (P (insert i D)) (f i s)" using Cons.prems by simp
  have eq: "insert i D \<union> set is = D \<union> set (i # is)" by auto
  show ?case
  proof (cases "f i s")
    case (Some t)
    have "returns sure (P (insert i D \<union> set is)) (loop_opt f is t)"
    proof (rule Cons.IH)
      show "P (insert i D) t" using st Some by simp
      show "insert i D \<inter> set is = {}" using Cons.prems by auto
      show "distinct is" using Cons.prems by simp
      show "returns sure (P (insert k E)) (f k u)" if "k \<in> set is" "k \<notin> E" "P E u" for k E u
        using that Cons.prems(2) [of k E u] by simp
    qed
    with Some show ?thesis unfolding eq by simp
  qed (use st in \<open>simp add: returns_def\<close>)
qed simp

section \<open>Blocks given back\<close>

lemma block_ptr_div: "block_ptr q \<Longrightarrow> q div 4096 * 4096 = q"
  by (simp add: block_ptr_def)

lemma reget_block_ptr: "block_ptr q \<Longrightarrow> wpmfs_reget_blocknr s (of_nat q) = Some (q div 4096)"
proof -
  assume "block_ptr q"
  then have q: "q < 2 ^ 44" by (simp add: block_ptr_def)
  have w: "of_nat q = wb_make q 0"
    by (rule word_unat_eq_iff [THEN iffD2]) (use q in \<open>simp add: unat_wb_make_0 unat_of_nat\<close>)
  show ?thesis using q by (simp add: wpmfs_reget_blocknr_def w wb_vlocation_make unat_wb_make_0)
qed

context tree_releaser
begin

definition released :: "nat set \<Rightarrow> wpmfs \<Rightarrow> wpmfs \<Rightarrow> bool" where
  "released R s t \<longleftrightarrow> kernel_same s t \<and> invar t \<and> avail s \<subseteq> avail t
     \<and> (\<forall>b\<in>avail t. b \<in> avail s \<or> b * 4096 \<in> R)
     \<and> (\<forall>b. may_free s b \<longrightarrow> b * 4096 \<notin> R \<longrightarrow> may_free t b)"

lemma released_refl: "invar s \<Longrightarrow> released {} s s"
  by (simp add: released_def)

lemma released_trans: "released R s t \<Longrightarrow> released S t u \<Longrightarrow> released (R \<union> S) s u"
  unfolding released_def using kernel_same_trans by blast

lemma released_same: "released R s t \<Longrightarrow> alloc_same t u \<Longrightarrow> kernel_same t u \<Longrightarrow> released R s u"
  using contract_cong [of t u] kernel_same_trans [of s t u] unfolding released_def by auto

lemma released_one:
  assumes inv: "invar s" and q: "block_ptr q" "may_free s (q div 4096)"
  shows "released {q} s (free_block s (q div 4096))" "pm (free_block s (q div 4096)) = pm s"
proof -
  let ?b = "q div 4096"
  have "same_memory s (free_block s ?b)" using free_frame by blast
  then show pm: "pm (free_block s ?b) = pm s" and "released {q} s (free_block s ?b)"
    using free_ok [OF inv q(2)] free_keeps [OF inv q(2)] block_ptr_div [OF q(1)]
    by (auto simp: released_def same_memory_def kernel_same_def)
qed

lemma free_pointer_ok:
  assumes inv: "invar s" and q: "block_ptr q" "may_free s (q div 4096)"
  shows "returns sure (\<lambda>t. released {q} s t \<and> pm t = pm s) (free_pointer A s q 0)"
proof (cases "af_free_block A s (q div 4096) 0")
  case None
  with free_total [OF _ inv q(2) hint_null] show ?thesis
    by (auto simp: free_pointer_def reget_block_ptr [OF q(1)] returns_def)
next
  case (Some t)
  with free_op [OF Some] released_one [OF assms] show ?thesis
    by (simp add: free_pointer_def reget_block_ptr [OF q(1)])
qed

end

section \<open>Zeroing a part of a node\<close>

lemma le_load_fill_out: "b + k \<le> a \<or> a + n \<le> b \<Longrightarrow> le_load k (mem_fill m a 0 n) b = le_load k m b"
  by (rule le_load_cong) (auto simp: mem_fill_def)

lemma slot_zero_range:
  "slot (mem_fill m (p + 8 * a) 0 ((b - a + 1) * 8)) p j = (if a \<le> j \<and> j < a + (b - a + 1) then 0 else slot m p j)"
proof (cases "a \<le> j \<and> j < a + (b - a + 1)")
  case True
  have "p + 8 * a \<le> p + 8 * j \<and> p + 8 * j + 8 \<le> p + 8 * a + (b - a + 1) * 8" using True by auto
  then have "le_load 8 (mem_fill m (p + 8 * a) 0 ((b - a + 1) * 8)) (p + 8 * j) = 0" by (intro le_load_fill) auto
  with True show ?thesis by (simp add: slot_def)
next
  case False
  then have "p + 8 * j + 8 \<le> p + 8 * a \<or> p + 8 * a + (b - a + 1) * 8 \<le> p + 8 * j" by (cases "j < a") auto
  with False show ?thesis unfolding slot_def by (subst le_load_fill_out) auto
qed

lemma page_zero_range:
  assumes "block_ptr p" "b < FANOUT" "a \<le> b" "page_of x \<noteq> p"
  shows "mem_fill m (p + 8 * a) v ((b - a + 1) * 8) x = m x"
proof -
  have "\<not> (p + 8 * a \<le> x \<and> x < p + 8 * a + (b - a + 1) * 8)"
  proof
    assume "p + 8 * a \<le> x \<and> x < p + 8 * a + (b - a + 1) * 8"
    then have "p \<le> x" "x < p + 4096" using assms(2,3) by (auto simp: FANOUT_def)
    with page_of_in [of p x] assms(1,4) show False by (simp add: block_ptr_def)
  qed
  then show ?thesis by (auto simp: mem_fill_def)
qed

text \<open>
  The end of a call on the node \<open>p\<close>: \<open>kept\<close> are the slots of the range whose child still has blocks.
\<close>

definition bounds_ok :: "nat \<Rightarrow> nat \<Rightarrow> nat set \<Rightarrow> trunc_state \<Rightarrow> bool" where
  "bounds_ok f l kept st \<longleftrightarrow> kept \<subseteq> {f, l} \<and> ts_all st = (kept = {})
     \<and> ts_start st = (if f \<in> kept then f + 1 else f) \<and> ts_end st = (if l \<in> kept \<and> l \<noteq> f then l - 1 else l)"

lemma bounds_range:
  assumes b: "bounds_ok f l kept st" and fl: "f \<le> l"
  shows "(ts_start st \<le> ts_end st \<and> ts_start st \<le> j \<and> j < ts_start st + (ts_end st - ts_start st + 1)) \<longleftrightarrow>
    j \<in> {f..l} - kept"
proof -
  have kj: "j \<in> kept \<longleftrightarrow> j = f \<and> f \<in> kept \<or> j = l \<and> l \<in> kept"
    and se: "ts_start st = (if f \<in> kept then f + 1 else f)" "ts_end st = (if l \<in> kept \<and> l \<noteq> f then l - 1 else l)"
    using b by (auto simp: bounds_ok_def)
  have "(a \<le> c \<and> a \<le> j \<and> j < a + (c - a + 1)) \<longleftrightarrow> a \<le> j \<and> j \<le> c" for a c :: nat by auto
  then show ?thesis
    unfolding Diff_iff kj se atLeastAtMost_iff using fl
    by (cases "f \<in> kept"; cases "l \<in> kept"; cases "l = f"; simp; linarith)
qed

lemma finish_cases:
  assumes dir: "direct_ok (ts_fs st)" and ptr: "block_ptr p" and fl: "f \<le> l" "l < FANOUT" and b: "bounds_ok f l kept st"
    and fin: "truncate_finish (virt_addr (ts_fs st) + p) f l st = (fr, e, t)"
  shows "fr = ts_freed st" "e \<longleftrightarrow> kept = {} \<and> live (pm (ts_fs st)) p \<subseteq> {f..l}" "e \<Longrightarrow> t = ts_fs st"
    "alloc_same (ts_fs st) t" "kernel_same (ts_fs st) t" "page_of x \<noteq> p \<Longrightarrow> pm t x = pm (ts_fs st) x"
    "\<not> e \<Longrightarrow> j < FANOUT \<Longrightarrow> slot (pm t) p j = (if j \<in> {f..l} - kept then 0 else slot (pm (ts_fs st)) p j)"
proof -
  let ?s = "ts_fs st"
  note va = node_va_direct(2) [OF dir ptr]
  have na: "node_at ?s (virt_addr ?s + p) i = slot (pm ?s) p i" for i by (simp add: node_at_def va slot_def)
  have emp: "is_empty_meta_block ?s (virt_addr ?s + p) f l \<longleftrightarrow> live (pm ?s) p \<subseteq> {f..l}"
  proof
    assume "is_empty_meta_block ?s (virt_addr ?s + p) f l"
    then have z: "slot (pm ?s) p i = 0" if "i < f \<or> l + 1 \<le> i \<and> i < FANOUT" for i
      using that by (auto simp: is_empty_meta_block_def na list_all_iff)
    have out: "\<not> (i < f \<or> l + 1 \<le> i)" if "i \<in> live (pm ?s) p" for i
      using live_less [OF that] z [of i] by auto
    show "live (pm ?s) p \<subseteq> {f..l}"
    proof
      fix i assume "i \<in> live (pm ?s) p"
      from out [OF this] show "i \<in> {f..l}" by simp
    qed
  next
    assume sub: "live (pm ?s) p \<subseteq> {f..l}"
    have "slot (pm ?s) p i = 0" if "i < FANOUT" "i \<notin> {f..l}" for i using sub that by (auto simp: live_def)
    then show "is_empty_meta_block ?s (virt_addr ?s + p) f l"
      using fl by (simp add: is_empty_meta_block_def na list_all_iff)
  qed
  show "fr = ts_freed st" using fin by (auto simp: truncate_finish_def split: if_splits)
  show e: "e \<longleftrightarrow> kept = {} \<and> live (pm ?s) p \<subseteq> {f..l}"
    using fin b by (auto simp: truncate_finish_def emp bounds_ok_def split: if_splits)
  show "e \<Longrightarrow> t = ?s" using fin by (auto simp: truncate_finish_def split: if_splits)
  show "alloc_same ?s t" "kernel_same ?s t" using fin by (auto simp: truncate_finish_def split: if_splits)
  have se: "ts_start st \<le> ts_end st \<Longrightarrow> ts_end st < FANOUT" using b fl by (auto simp: bounds_ok_def)
  show "pm t x = pm ?s x" if "page_of x \<noteq> p"
    using fin page_zero_range [OF ptr se _ that] by (auto simp: truncate_finish_def va split: if_splits)
  show "slot (pm t) p j = (if j \<in> {f..l} - kept then 0 else slot (pm ?s) p j)" if "\<not> e" "j < FANOUT"
  proof -
    have t: "pm t = (if ts_start st \<le> ts_end st then mem_fill (pm ?s) (p + 8 * ts_start st) 0 ((ts_end st - ts_start st + 1) * 8)
        else pm ?s)"
      using fin that(1) by (auto simp: truncate_finish_def va split: if_splits)
    show ?thesis
      unfolding t bounds_range [OF b fl(1), of j, symmetric]
      by (cases "ts_start st \<le> ts_end st") (simp_all only: slot_zero_range if_True if_False simp_thms)
  qed
qed

section \<open>Cutting a range out of a tree\<close>

text \<open>
  A lean tree has no node without data below it; a failed allocation can leave one behind.  Something
  of the tree lies \<open>outside\<close> a range when a block number beyond the range has a block.
\<close>

primrec tree_lean :: "nat \<Rightarrow> memory \<Rightarrow> nat \<Rightarrow> bool" where
  "tree_lean 0 m p = True"
| "tree_lean (Suc h) m p = (live m p \<noteq> {} \<and> (\<forall>i\<in>live m p. tree_lean h m (slot m p i)))"

lemma lean_cong:
  "tree_wf h m p \<Longrightarrow> (\<And>x. page_of x \<in> tree_nodes h m p \<Longrightarrow> m' x = m x) \<Longrightarrow> tree_lean h m' p = tree_lean h m p"
proof (induction h arbitrary: p)
  case (Suc h)
  have ptr: "block_ptr p" using Suc.prems by simp
  have lv: "live m' p = live m p" using Suc.prems(2) by (auto intro!: live_cong [OF ptr])
  have sl: "slot m' p i = slot m p i" if "i \<in> live m p" for i
    using live_less [OF that] Suc.prems(2) by (auto intro!: slot_cong [OF ptr])
  have "tree_lean h m' (slot m p i) = tree_lean h m (slot m p i)" if "i \<in> live m p" for i
    using that Suc.prems by (intro Suc.IH) auto
  with sl show ?case by (simp add: lv)
qed simp

definition outside :: "nat \<Rightarrow> memory \<Rightarrow> nat \<Rightarrow> nat set \<Rightarrow> bool" where
  "outside h m p N \<longleftrightarrow> (\<exists>n < FANOUT ^ h. n \<notin> N \<and> tree_lookup h m p n \<noteq> 0)"

lemma outside_child:
  assumes i: "i \<in> live m p" and o: "outside h m (slot m p i) M" and M: "\<And>n. n div FANOUT ^ h = i \<Longrightarrow> n \<in> N \<Longrightarrow> n mod FANOUT ^ h \<in> M"
  shows "outside (Suc h) m p N"
proof -
  obtain k where k: "k < FANOUT ^ h" "k \<notin> M" "tree_lookup h m (slot m p i) k \<noteq> 0" using o by (auto simp: outside_def)
  let ?n = "i * FANOUT ^ h + k"
  have n: "?n div FANOUT ^ h = i" "?n mod FANOUT ^ h = k" using k(1) by auto
  have "?n < FANOUT ^ Suc h"
  proof -
    have "?n < Suc i * FANOUT ^ h" using k(1) by simp
    also have "\<dots> \<le> FANOUT * FANOUT ^ h" using live_less [OF i] by (intro mult_le_mono1) simp
    finally show ?thesis by simp
  qed
  moreover have "tree_lookup (Suc h) m p ?n \<noteq> 0"
    unfolding lookup_Suc_live [OF \<open>?n < FANOUT ^ Suc h\<close>] n using i k(3) by simp
  moreover have "?n \<notin> N" using M [OF n(1)] n(2) k(2) by (metis)
  ultimately show ?thesis unfolding outside_def by blast
qed

lemma lean_outside: "tree_wf h m p \<Longrightarrow> tree_lean h m p \<Longrightarrow> outside h m p {}"
proof (induction h arbitrary: p)
  case 0
  then show ?case by (auto simp: outside_def block_ptr_def)
next
  case (Suc h)
  then obtain i where i: "i \<in> live m p" "tree_wf h m (slot m p i)" "tree_lean h m (slot m p i)" by auto
  from outside_child [OF i(1) Suc.IH [OF i(2,3)], of "{}"] show ?case by simp
qed

context tree_releaser
begin

definition cut :: "nat \<Rightarrow> nat \<Rightarrow> nat set \<Rightarrow> wpmfs \<Rightarrow> nat \<times> bool \<times> wpmfs \<Rightarrow> bool" where
  "cut h p N s = (\<lambda>(fr, e, t). \<exists>R. released R s t \<and> R \<subseteq> tree_blocks h (pm s) p - {p}
     \<and> (\<forall>x. page_of x \<notin> tree_nodes h (pm s) p \<longrightarrow> pm t x = pm s x)
     \<and> fr = card {n \<in> N. tree_lookup h (pm s) p n \<noteq> 0}
     \<and> (if e then R = tree_blocks h (pm s) p - {p} \<and> (\<forall>n < FANOUT ^ h. n \<notin> N \<longrightarrow> tree_lookup h (pm s) p n = 0)
        else tree_wf h (pm t) p \<and> tree_blocks h (pm t) p = tree_blocks h (pm s) p - R
          \<and> tree_nodes h (pm t) p \<subseteq> tree_nodes h (pm s) p
          \<and> (\<forall>n < FANOUT ^ h. tree_lookup h (pm t) p n = (if n \<in> N then 0 else tree_lookup h (pm s) p n))
          \<and> (tree_lean h (pm s) p \<longrightarrow> tree_lean h (pm t) p)))"

lemma cut_emptied:
  assumes "released R s t" "R = tree_blocks h (pm s) p - {p}"
    "\<And>x. page_of x \<notin> tree_nodes h (pm s) p \<Longrightarrow> pm t x = pm s x"
    "fr = card {n \<in> N. tree_lookup h (pm s) p n \<noteq> 0}" "\<forall>n < FANOUT ^ h. n \<notin> N \<longrightarrow> tree_lookup h (pm s) p n = 0"
  shows "cut h p N s (fr, True, t)"
  unfolding cut_def prod.case using assms by (intro exI [of _ R]) simp

lemma cut_kept:
  assumes "released R s t" "R \<subseteq> tree_blocks h (pm s) p - {p}"
    "\<And>x. page_of x \<notin> tree_nodes h (pm s) p \<Longrightarrow> pm t x = pm s x"
    "fr = card {n \<in> N. tree_lookup h (pm s) p n \<noteq> 0}"
    "tree_wf h (pm t) p" "tree_blocks h (pm t) p = tree_blocks h (pm s) p - R"
    "tree_nodes h (pm t) p \<subseteq> tree_nodes h (pm s) p"
    "\<forall>n < FANOUT ^ h. tree_lookup h (pm t) p n = (if n \<in> N then 0 else tree_lookup h (pm s) p n)"
    "tree_lean h (pm s) p \<Longrightarrow> tree_lean h (pm t) p"
  shows "cut h p N s (fr, False, t)"
  unfolding cut_def prod.case using assms by (intro exI [of _ R]) simp

definition cut_ok :: "nat \<Rightarrow> nat \<Rightarrow> wpmfs \<Rightarrow> bool" where
  "cut_ok h p s \<longleftrightarrow> invar s \<and> direct_ok s \<and> tree_wf h (pm s) p \<and> (\<forall>q\<in>tree_blocks h (pm s) p. may_free s (q div 4096))"

lemma cut_okD:
  assumes "cut_ok h p s"
  shows "invar s" "direct_ok s" "tree_wf h (pm s) p" "block_ptr p" "q \<in> tree_blocks h (pm s) p \<Longrightarrow> may_free s (q div 4096)"
  using assms tree_wf_ptr unfolding cut_ok_def by auto

lemma cut_ok_child:
  "cut_ok (Suc h) p s \<Longrightarrow> i \<in> live (pm s) p \<Longrightarrow> cut_ok h (slot (pm s) p i) s"
  unfolding cut_ok_def by auto

lemma block_ptr_inj: "block_ptr q \<Longrightarrow> block_ptr r \<Longrightarrow> q div 4096 = r div 4096 \<Longrightarrow> q = r"
  using block_ptr_div by metis

lemma released_may: "released R s t \<Longrightarrow> block_ptr q \<Longrightarrow> q \<notin> R \<Longrightarrow> may_free s (q div 4096) \<Longrightarrow> may_free t (q div 4096)"
  by (simp add: released_def block_ptr_div)

text \<open>A node of data pointers.\<close>

lemma slot_free_ok:
  assumes inv: "invar s" and q: "block_ptr q" "may_free s (q div 4096)" and h: "hint_ok s hint"
  shows "returns sure (\<lambda>(t, hint'). released {q} s t \<and> pm t = pm s \<and> hint_ok t hint')
    (af_free_block_locked A s (q div 4096) 0 hint)"
proof (cases "af_free_block_locked A s (q div 4096) 0 hint")
  case None
  with free_total [OF _ inv q(2) h] show ?thesis by (auto simp: returns_def)
next
  case (Some r)
  obtain t hint' where r: "r = (t, hint')" by (cases r)
  with locked_op [OF inv q(2) h] Some released_one [OF inv q] show ?thesis by auto
qed

lemma truncate_data_cut:
  assumes ok: "cut_ok (Suc 0) p s" and lh: "lo \<le> hi" "hi < FANOUT"
  shows "returns sure (\<lambda>r. cut (Suc 0) p {lo..hi} s r \<and> (lo = 0 \<and> hi = FANOUT - 1 \<longrightarrow> fst (snd r)) \<and>
      (fst (snd r) \<or> outside (Suc 0) (pm s) p {lo..hi}))
    (recursive_truncate_blocks A 0 0 p lo hi s)"
proof -
  note okD = cut_okD [OF ok]
  let ?m = "pm s" and ?va = "virt_addr s + p"
  note va = node_va_direct [OF okD(2,4)]
  have ptr: "block_ptr (slot ?m p i)" "may_free s (slot ?m p i div 4096)" "slot ?m p i \<noteq> p" if "i \<in> live ?m p" for i
    using okD(3,5) that by auto
  have inj: "i = j" if "i \<in> live ?m p" "j \<in> live ?m p" "slot ?m p i = slot ?m p j" for i j
    using okD(3) that by (metis Int_iff empty_iff tree_root_block tree_wf.simps(2))
  let ?Q = "\<lambda>D. slot ?m p ` (D \<inter> live ?m p)"
  let ?P = "\<lambda>D st. released (?Q D) s (ts_fs st) \<and> pm (ts_fs st) = ?m \<and> hint_ok (ts_fs st) (ts_hint st)
     \<and> ts_freed st = card (D \<inter> live ?m p) \<and> bounds_ok lo hi {} st"
  let ?st = "\<lparr>ts_fs = s, ts_hint = Some None, ts_freed = 0, ts_start = lo, ts_end = hi, ts_all = True\<rparr>"
  have "returns sure (?P ({} \<union> set [lo..<hi + 1])) (loop_opt (truncate_data_slot A 0 ?va) [lo..<hi + 1] ?st)"
  proof (rule loop_opt_ind [where P = ?P])
    show "?P {} ?st" using released_refl [OF okD(1)] hint_null by (simp add: bounds_ok_def)
    fix i D and st :: trunc_state assume i: "i \<in> set [lo..<hi + 1]" "i \<notin> D" and P: "?P D st"
    have na: "node_at (ts_fs st) ?va i = slot ?m p i"
      using P va_off_same [of s "ts_fs st"] va(2) by (simp add: node_at_def slot_def released_def)
    have il: "i < FANOUT" using i lh by auto
    show "returns sure (?P (insert i D)) (truncate_data_slot A 0 ?va i st)"
    proof (cases "slot ?m p i = 0")
      case True
      then have "insert i D \<inter> live ?m p = D \<inter> live ?m p" by (auto simp: live_def)
      with True na P show ?thesis by (simp add: truncate_data_slot_def)
    next
      case False
      let ?q = "slot ?m p i"
      have iv: "i \<in> live ?m p" using False il by (simp add: live_def)
      have ni: "?q \<notin> ?Q D" using i(2) iv inj by blast
      have ms: "may_free (ts_fs st) (?q div 4096)" using P released_may [OF _ ptr(1) [OF iv] ni ptr(2) [OF iv]] by blast
      have "invar (ts_fs st)" "hint_ok (ts_fs st) (ts_hint st)" using P by (auto simp: released_def)
      note fr = slot_free_ok [OF this(1) ptr(1) [OF iv] ms this(2)]
      have Q: "?Q (insert i D) = ?Q D \<union> {?q}" and C: "card (insert i D \<inter> live ?m p) = Suc (card (D \<inter> live ?m p))"
        using iv i(2) by (auto simp: insert_absorb)
      have step: "?P (insert i D) (st\<lparr>ts_fs := t, ts_hint := hint, ts_freed := ts_freed st + 1\<rparr>)"
        if "released {?q} (ts_fs st) t \<and> pm t = pm (ts_fs st) \<and> hint_ok t hint" for t hint
        using that P released_trans [of "?Q D" s "ts_fs st" "{?q}" t] unfolding Q C by (simp add: bounds_ok_def)
      have eq: "truncate_data_slot A 0 ?va i st = Option.bind (af_free_block_locked A (ts_fs st) (?q div 4096) 0 (ts_hint st))
          (\<lambda>(s1, hint). Some (st\<lparr>ts_fs := s1, ts_hint := hint, ts_freed := ts_freed st + 1\<rparr>))"
        using False na reget_block_ptr [OF ptr(1) [OF iv]] by (simp add: truncate_data_slot_def)
      show ?thesis
        unfolding eq
      proof (rule returns_bind [OF fr])
        fix x assume "case x of (t, hint') \<Rightarrow> released {?q} (ts_fs st) t \<and> pm t = pm (ts_fs st) \<and> hint_ok t hint'"
        then show "returns sure (?P (insert i D))
            (case x of (s1, hint) \<Rightarrow> Some (st\<lparr>ts_fs := s1, ts_hint := hint, ts_freed := ts_freed st + 1\<rparr>))"
          using step [of "fst x" "snd x"] by (cases x) (simp only: prod.case returns_Some fst_conv snd_conv)
      qed
    qed
  qed simp_all
  moreover have "cut (Suc 0) p {lo..hi} s (truncate_finish ?va lo hi st) \<and>
      (lo = 0 \<and> hi = FANOUT - 1 \<longrightarrow> fst (snd (truncate_finish ?va lo hi st))) \<and>
      (fst (snd (truncate_finish ?va lo hi st)) \<or> outside (Suc 0) ?m p {lo..hi})"
    if P: "?P ({} \<union> set [lo..<hi + 1]) st" for st
  proof -
    obtain fr e t where fin: "truncate_finish ?va lo hi st = (fr, e, t)" by (cases "truncate_finish ?va lo hi st") auto
    have set: "{} \<union> set [lo..<hi + 1] = {lo..hi}" by auto
    have rel: "released (?Q {lo..hi}) s (ts_fs st)" and pm: "pm (ts_fs st) = ?m" and fc: "ts_freed st = card ({lo..hi} \<inter> live ?m p)"
      and b: "bounds_ok lo hi {} st" using P unfolding set by auto
    have k: "kernel_same s (ts_fs st)" using rel by (simp add: released_def)
    have dir: "direct_ok (ts_fs st)" by (rule direct_ok_same [OF k okD(2)])
    have vs: "virt_addr (ts_fs st) = virt_addr s" using k by (simp add: kernel_same_def)
    note fc' = finish_cases [OF dir okD(4) lh b fin [folded vs]]
    have lk: "tree_lookup (Suc 0) m p n \<noteq> 0 \<longleftrightarrow> n \<in> live m p" if "n < FANOUT" for m n
      using that by (simp add: live_def Let_def)
    have lk0: "tree_lookup (Suc 0) m p n = 0" if "n < FANOUT" "n \<notin> live m p" for m n using lk that by blast
    have cnt: "{n \<in> {lo..hi}. tree_lookup (Suc 0) ?m p n \<noteq> 0} = {lo..hi} \<inter> live ?m p"
      using lk [of _ ?m] lh by (auto simp del: tree_lookup.simps)
    have bl: "tree_blocks (Suc 0) ?m p - {p} = slot ?m p ` live ?m p"
      using ptr(3) by auto
    have rel_t: "released (?Q {lo..hi}) s t" by (rule released_same [OF rel fc'(4,5)])
    have frame: "pm t x = pm s x" if "page_of x \<notin> tree_nodes (Suc 0) ?m p" for x
      using that fc'(6) [of x] pm by simp
    have full: "lo = 0 \<and> hi = FANOUT - 1 \<longrightarrow> e" using fc'(2) live_less [of _ ?m p] pm by fastforce
    show ?thesis
    proof (cases e)
      case True
      then have sub: "live ?m p \<subseteq> {lo..hi}" using fc'(2) pm by simp
      have "?Q {lo..hi} = tree_blocks (Suc 0) ?m p - {p}" using sub bl by (simp add: inf_absorb2)
      moreover have "\<forall>n < FANOUT ^ Suc 0. n \<notin> {lo..hi} \<longrightarrow> tree_lookup (Suc 0) ?m p n = 0"
        using lk0 [of _ ?m] sub by (metis power_one_right subsetD One_nat_def)
      ultimately have "cut (Suc 0) p {lo..hi} s (fr, True, t)"
        using rel_t frame fc'(1) fc by (intro cut_emptied) (simp_all only: cnt)
      with True show ?thesis unfolding fin by simp
    next
      case False
      have sl: "j < FANOUT \<Longrightarrow> slot (pm t) p j = (if j \<in> {lo..hi} then 0 else slot ?m p j)" for j
        using fc'(7) [OF False] pm by simp
      have lv: "live (pm t) p = live ?m p - {lo..hi}" using sl by (auto simp: live_def split: if_splits)
      have "tree_wf (Suc 0) (pm t) p"
        using okD(3) sl lv live_less [of _ ?m p] by auto
      moreover have "tree_blocks (Suc 0) (pm t) p = tree_blocks (Suc 0) ?m p - ?Q {lo..hi}"
      proof -
        have "tree_blocks (Suc 0) (pm t) p = insert p (slot (pm t) p ` (live ?m p - {lo..hi}))" by (auto simp: lv)
        also have "slot (pm t) p ` (live ?m p - {lo..hi}) = slot ?m p ` (live ?m p - {lo..hi} \<inter> live ?m p)"
          using sl live_less [of _ ?m p] by (intro image_cong) auto
        also have "\<dots> = slot ?m p ` live ?m p - ?Q {lo..hi}"
          by (rule inj_on_image_set_diff [where C = "live ?m p"]) (auto intro: inj_onI inj)
        finally have "tree_blocks (Suc 0) (pm t) p = insert p (slot ?m p ` live ?m p - ?Q {lo..hi})" .
        moreover have "p \<notin> ?Q {lo..hi}" using ptr(3) by (metis IntD2 imageE)
        moreover have "tree_blocks (Suc 0) ?m p = insert p (slot ?m p ` live ?m p)" by auto
        ultimately show ?thesis by (simp only: insert_Diff_if if_False)
      qed
      moreover have "tree_nodes (Suc 0) (pm t) p \<subseteq> tree_nodes (Suc 0) ?m p" by simp
      moreover have "\<forall>n < FANOUT ^ Suc 0. tree_lookup (Suc 0) (pm t) p n = (if n \<in> {lo..hi} then 0 else tree_lookup (Suc 0) ?m p n)"
        using sl by (simp add: Let_def)
      moreover have "?Q {lo..hi} \<subseteq> tree_blocks (Suc 0) ?m p - {p}" unfolding bl by blast
      moreover have "tree_lean (Suc 0) (pm t) p"
      proof -
        have "\<not> live ?m p \<subseteq> {lo..hi}" using fc'(2) False pm by simp
        then show ?thesis by (auto simp: lv)
      qed
      ultimately have "cut (Suc 0) p {lo..hi} s (fr, False, t)"
        using rel_t frame fc'(1) fc by (intro cut_kept) (simp_all only: cnt)
      moreover have "outside (Suc 0) ?m p {lo..hi}"
      proof -
        have "\<not> live ?m p \<subseteq> {lo..hi}" using fc'(2) False pm by simp
        then obtain i where i: "i \<in> live ?m p" "i \<notin> {lo..hi}" by blast
        have "tree_lookup (Suc 0) ?m p i \<noteq> 0" "i < FANOUT ^ Suc 0" using lk [of i ?m] i(1) live_less [OF i(1)] by auto
        with i(2) show ?thesis unfolding outside_def by blast
      qed
      ultimately show ?thesis using False full unfolding fin by simp
    qed
  qed
  ultimately show ?thesis
    unfolding recursive_truncate_blocks.simps(1) va(1) bind.bind_lunit
    by (elim returns_bind) (unfold returns_Some, blast)
qed

end

section \<open>A node of children\<close>

lemma child_blocks_disjoint:
  "tree_wf (Suc h) m p \<Longrightarrow> i \<in> live m p \<Longrightarrow> j \<in> live m p \<Longrightarrow> i \<noteq> j \<Longrightarrow>
    tree_blocks h m (slot m p i) \<inter> tree_blocks h m (slot m p j) = {}"
  by simp

lemma child_nodes_sub:
  "i \<in> live m p \<Longrightarrow> tree_nodes h m (slot m p i) \<subseteq> tree_blocks (Suc h) m p"
  using tree_nodes_sub(1) [of h m "slot m p i"] by auto

lemma card_child:
  assumes i: "i \<in> live m p" and r: "lo div FANOUT ^ h \<le> i" "i \<le> hi div FANOUT ^ h" and hi: "hi < FANOUT ^ Suc h"
  shows "card {n \<in> {lo..hi}. n div FANOUT ^ h = i \<and> tree_lookup (Suc h) m p n \<noteq> 0} =
    card {k \<in> {sub_first (FANOUT ^ h) lo i..sub_last (FANOUT ^ h) hi i}. tree_lookup h m (slot m p i) k \<noteq> 0}"
    (is "card ?A = card ?B")
proof (rule bij_betw_same_card [of "\<lambda>n. n mod FANOUT ^ h"])
  let ?w = "FANOUT ^ h"
  have lk: "tree_lookup (Suc h) m p n = tree_lookup h m (slot m p i) (n mod ?w)" if "n \<le> hi" "n div ?w = i" for n
    using lookup_Suc_live [of n h m p] that hi i by (simp del: tree_lookup.simps)
  note sr = sub_range [OF FANOUT_pos(4) r]
  show "bij_betw (\<lambda>n. n mod ?w) ?A ?B"
  proof (rule bij_betw_byWitness [where f' = "\<lambda>k. i * ?w + k"])
    show "\<forall>n\<in>?A. i * ?w + n mod ?w = n" by (auto simp: div_mult_mod_eq)
    have kl: "k < ?w" if "k \<in> ?B" for k using that sub_last_less [of ?w hi i] by auto
    show "\<forall>k\<in>?B. (i * ?w + k) mod ?w = k" using kl by simp
    show "(\<lambda>n. n mod ?w) ` ?A \<subseteq> ?B" using sr lk by (auto simp del: tree_lookup.simps)
    show "(\<lambda>k. i * ?w + k) ` ?B \<subseteq> ?A"
    proof
      fix n assume "n \<in> (\<lambda>k. i * ?w + k) ` ?B"
      then obtain k where k: "k \<in> ?B" "n = i * ?w + k" by blast
      then have n: "n div ?w = i" "n mod ?w = k" using kl by auto
      have "n \<in> {n. n div ?w = i \<and> n mod ?w \<in> {sub_first ?w lo i..sub_last ?w hi i}}" using n k(1) by simp
      then have "n \<in> {lo..hi}" unfolding sr by simp
      have "tree_lookup (Suc h) m p n = tree_lookup h m (slot m p i) k" using lk [of n] n \<open>n \<in> {lo..hi}\<close> by simp
      with \<open>n \<in> {lo..hi}\<close> n(1) k(1) show "n \<in> ?A" by (simp del: tree_lookup.simps)
    qed
  qed
qed

lemma sub_full: "i \<noteq> lo div w \<Longrightarrow> i \<noteq> hi div w \<Longrightarrow> sub_first w lo i = 0 \<and> sub_last w hi i = w - 1"
  by (simp add: sub_first_def sub_last_def)

lemma sub_le: "0 < w \<Longrightarrow> lo \<le> hi \<Longrightarrow> sub_first w lo i \<le> sub_last w hi i"
proof -
  assume w: "0 < w" and l: "lo \<le> hi"
  have "lo mod w \<le> hi mod w" if "lo div w = hi div w"
    using l that by (metis add_le_cancel_left div_mult_mod_eq)
  moreover have "lo mod w \<le> w - 1" using w by (metis Suc_pred' less_Suc_eq_le mod_less_divisor)
  ultimately show ?thesis by (auto simp: sub_first_def sub_last_def)
qed

text \<open>What the children look like from another memory.\<close>

lemma child_cong:
  assumes wf: "tree_wf (Suc h) m p" and i: "i \<in> live m p" and D: "i \<notin> D"
    and m: "\<And>x. page_of x \<notin> (\<Union>j\<in>D \<inter> live m p. tree_nodes h m (slot m p j)) \<Longrightarrow> m' x = m x"
  shows "tree_wf h m' (slot m p i)" "tree_nodes h m' (slot m p i) = tree_nodes h m (slot m p i)"
    "tree_blocks h m' (slot m p i) = tree_blocks h m (slot m p i)"
    "n < FANOUT ^ h \<Longrightarrow> tree_lookup h m' (slot m p i) n = tree_lookup h m (slot m p i) n"
proof -
  have wfi: "tree_wf h m (slot m p i)" using wf i by simp
  have "m' x = m x" if x: "page_of x \<in> tree_nodes h m (slot m p i)" for x
  proof (rule m, rule notI)
    assume "page_of x \<in> (\<Union>j\<in>D \<inter> live m p. tree_nodes h m (slot m p j))"
    then obtain j where j: "j \<in> D" "j \<in> live m p" "page_of x \<in> tree_nodes h m (slot m p j)" by blast
    then have "i \<noteq> j" using D by blast
    from child_blocks_disjoint [OF wf i j(2) this] x j(3) tree_nodes_sub(1) show False by blast
  qed
  note tc = tree_cong [OF wfi this]
  show "tree_wf h m' (slot m p i)" by (rule tc(1))
  show "tree_nodes h m' (slot m p i) = tree_nodes h m (slot m p i)" by (rule tc(2))
  show "tree_blocks h m' (slot m p i) = tree_blocks h m (slot m p i)" by (rule tc(4))
  show "n < FANOUT ^ h \<Longrightarrow> tree_lookup h m' (slot m p i) n = tree_lookup h m (slot m p i) n" by (rule tc(5))
qed

lemma child_outside_cong:
  assumes wf: "tree_wf (Suc h) m p" and i: "i \<in> live m p" and D: "i \<notin> D"
    and m: "\<And>x. page_of x \<notin> (\<Union>j\<in>D \<inter> live m p. tree_nodes h m (slot m p j)) \<Longrightarrow> m' x = m x"
  shows "tree_lean h m' (slot m p i) = tree_lean h m (slot m p i)"
    "outside h m' (slot m p i) N = outside h m (slot m p i) N"
proof -
  have "m' x = m x" if x: "page_of x \<in> tree_nodes h m (slot m p i)" for x
  proof (rule m, rule notI)
    assume "page_of x \<in> (\<Union>j\<in>D \<inter> live m p. tree_nodes h m (slot m p j))"
    then obtain j where j: "j \<in> D" "j \<in> live m p" "page_of x \<in> tree_nodes h m (slot m p j)" by blast
    then have "i \<noteq> j" using D by blast
    from child_blocks_disjoint [OF wf i j(2) this] x j(3) tree_nodes_sub(1) show False by blast
  qed
  moreover have "tree_wf h m (slot m p i)" using wf i by simp
  ultimately show "tree_lean h m' (slot m p i) = tree_lean h m (slot m p i)" by (intro lean_cong)
  show "outside h m' (slot m p i) N = outside h m (slot m p i) N"
    using child_cong(4) [OF wf i D m] by (auto simp: outside_def)
qed

text \<open>
  The loop over the children: \<open>D\<close> are the slots done, \<open>R\<close> the blocks given back so far, \<open>K\<close> the slots
  whose child is kept.
\<close>

definition child_inv :: "nat \<Rightarrow> nat \<Rightarrow> nat set \<Rightarrow> nat set \<Rightarrow> bool \<Rightarrow> memory \<Rightarrow> memory \<Rightarrow> bool" where
  "child_inv h q N R kept m m' \<longleftrightarrow>
     (if kept then tree_wf h m' q \<and> tree_blocks h m' q = tree_blocks h m q - R \<and> tree_nodes h m' q \<subseteq> tree_nodes h m q
        \<and> (\<forall>n < FANOUT ^ h. tree_lookup h m' q n = (if n \<in> N then 0 else tree_lookup h m q n))
        \<and> (tree_lean h m q \<longrightarrow> tree_lean h m' q)
      else tree_blocks h m q \<subseteq> R \<and> (\<forall>n < FANOUT ^ h. n \<notin> N \<longrightarrow> tree_lookup h m q n = 0))"

context tree_releaser
begin

definition meta_inv :: "nat \<Rightarrow> nat \<Rightarrow> nat \<Rightarrow> nat \<Rightarrow> wpmfs \<Rightarrow> nat set \<Rightarrow> nat set \<Rightarrow> nat set \<Rightarrow> trunc_state \<Rightarrow> bool" where
  "meta_inv h p lo hi s D R K st \<longleftrightarrow> released R s (ts_fs st)
     \<and> R \<subseteq> (\<Union>i\<in>D \<inter> live (pm s) p. tree_blocks h (pm s) (slot (pm s) p i))
     \<and> (\<forall>x. page_of x \<notin> (\<Union>i\<in>D \<inter> live (pm s) p. tree_nodes h (pm s) (slot (pm s) p i)) \<longrightarrow> pm (ts_fs st) x = pm s x)
     \<and> ts_freed st = card {n \<in> {lo..hi}. n div FANOUT ^ h \<in> D \<and> tree_lookup (Suc h) (pm s) p n \<noteq> 0}
     \<and> bounds_ok (lo div FANOUT ^ h) (hi div FANOUT ^ h) K st \<and> K \<subseteq> D \<inter> live (pm s) p
     \<and> (\<forall>i\<in>D \<inter> live (pm s) p. child_inv h (slot (pm s) p i)
          {sub_first (FANOUT ^ h) lo i..sub_last (FANOUT ^ h) hi i} R (i \<in> K) (pm s) (pm (ts_fs st)))"

lemma meta_invD:
  assumes "meta_inv h p lo hi s D R K st"
  shows "released R s (ts_fs st)" "R \<subseteq> (\<Union>i\<in>D \<inter> live (pm s) p. tree_blocks h (pm s) (slot (pm s) p i))"
    "page_of x \<notin> (\<Union>i\<in>D \<inter> live (pm s) p. tree_nodes h (pm s) (slot (pm s) p i)) \<Longrightarrow> pm (ts_fs st) x = pm s x"
    "ts_freed st = card {n \<in> {lo..hi}. n div FANOUT ^ h \<in> D \<and> tree_lookup (Suc h) (pm s) p n \<noteq> 0}"
    "bounds_ok (lo div FANOUT ^ h) (hi div FANOUT ^ h) K st" "K \<subseteq> D \<inter> live (pm s) p"
    "i \<in> D \<Longrightarrow> i \<in> live (pm s) p \<Longrightarrow> child_inv h (slot (pm s) p i)
          {sub_first (FANOUT ^ h) lo i..sub_last (FANOUT ^ h) hi i} R (i \<in> K) (pm s) (pm (ts_fs st))"
  using assms unfolding meta_inv_def by (elim conjE; simp)+

lemma meta_inv_null:
  assumes P: "meta_inv h p lo hi s D R K st" and i: "i \<notin> live (pm s) p" and hi: "hi < FANOUT ^ Suc h"
  shows "meta_inv h p lo hi s (insert i D) R K st"
proof -
  have e: "insert i D \<inter> live (pm s) p = D \<inter> live (pm s) p" using i by blast
  have c: "{n \<in> {lo..hi}. n div FANOUT ^ h \<in> insert i D \<and> tree_lookup (Suc h) (pm s) p n \<noteq> 0} =
      {n \<in> {lo..hi}. n div FANOUT ^ h \<in> D \<and> tree_lookup (Suc h) (pm s) p n \<noteq> 0}"
    using lookup_Suc_live [of _ h "pm s" p] i hi by (auto simp del: tree_lookup.simps)
  show ?thesis using P unfolding meta_inv_def e c by blast
qed

lemma meta_inv_child_ok:
  assumes ok: "cut_ok (Suc h) p s" and P: "meta_inv h p lo hi s D R K st" and i: "i \<in> live (pm s) p" "i \<notin> D"
  shows "cut_ok h (slot (pm s) p i) (ts_fs st)" "R \<inter> tree_blocks h (pm s) (slot (pm s) p i) = {}"
proof -
  note okD = cut_okD [OF ok] and PD = meta_invD [OF P]
  show R: "R \<inter> tree_blocks h (pm s) (slot (pm s) p i) = {}"
    using PD(2) i child_blocks_disjoint [OF okD(3) i(1)] by blast
  note cc = child_cong [OF okD(3) i PD(3)]
  have "may_free (ts_fs st) (q div 4096)" if "q \<in> tree_blocks h (pm s) (slot (pm s) p i)" for q
  proof (rule released_may [OF PD(1)])
    have "q \<in> tree_blocks (Suc h) (pm s) p" using that i by auto
    then show "block_ptr q" "may_free s (q div 4096)" using tree_blocks_ptr [OF okD(3)] okD(5) by blast+
    show "q \<notin> R" using R that by blast
  qed
  then show "cut_ok h (slot (pm s) p i) (ts_fs st)"
    using cc(1,3) PD(1) direct_ok_same [of s "ts_fs st"] okD(2) unfolding cut_ok_def released_def by auto
qed

end

lemma child_inv_frame:
  assumes c: "child_inv h q N R kept m m'" and R: "R \<subseteq> R'" "(R' - R) \<inter> tree_blocks h m q = {}"
    and f: "\<And>x. page_of x \<in> tree_nodes h m q \<Longrightarrow> m'' x = m' x"
  shows "child_inv h q N R' kept m m''"
proof (cases kept)
  case True
  then have k: "tree_wf h m' q" "tree_blocks h m' q = tree_blocks h m q - R" "tree_nodes h m' q \<subseteq> tree_nodes h m q"
    "\<forall>n < FANOUT ^ h. tree_lookup h m' q n = (if n \<in> N then 0 else tree_lookup h m q n)"
    "tree_lean h m q \<longrightarrow> tree_lean h m' q"
    using c by (auto simp: child_inv_def)
  have f': "m'' x = m' x" if "page_of x \<in> tree_nodes h m' q" for x using f that k(3) by blast
  note tc = tree_cong [OF k(1) f'] and lc = lean_cong [OF k(1) f']
  have "tree_blocks h m q - R = tree_blocks h m q - R'" using R by blast
  then show ?thesis using True k tc lc by (simp add: child_inv_def)
next
  case False
  with c R(1) show ?thesis by (auto simp: child_inv_def)
qed

context tree_releaser
begin

text \<open>The slot of a child that has been cut.\<close>

lemma meta_inv_step:
  assumes ok: "cut_ok (Suc h) p s" and P: "meta_inv h p lo hi s D R K st" and i: "i \<in> live (pm s) p" "i \<notin> D"
    and r: "lo div FANOUT ^ h \<le> i" "i \<le> hi div FANOUT ^ h" and hi: "hi < FANOUT ^ Suc h"
    and cut: "cut h (slot (pm s) p i) {sub_first (FANOUT ^ h) lo i..sub_last (FANOUT ^ h) hi i} (ts_fs st) (fr, e, t)"
    and full: "\<not> e \<Longrightarrow> i = lo div FANOUT ^ h \<or> i = hi div FANOUT ^ h"
  shows "returns sure (\<lambda>st'. \<exists>R. meta_inv h p lo hi s (insert i D) R (if e then K else insert i K) st')
    (truncate_meta_slot A (virt_addr s + p) (lo div FANOUT ^ h) (hi div FANOUT ^ h) i (fr, e, t) st)"
proof -
  let ?w = "FANOUT ^ h" and ?m = "pm s" and ?u = "ts_fs st"
  let ?c = "\<lambda>j. slot ?m p j" and ?N = "\<lambda>j. {sub_first (FANOUT ^ h) lo j..sub_last (FANOUT ^ h) hi j}"
  note okD = cut_okD [OF ok] and PD = meta_invD [OF P]
  note cc = child_cong [OF okD(3) i PD(3)] child_outside_cong(1) [OF okD(3) i PD(3)] and ch = meta_inv_child_ok [OF ok P i]
  obtain Ri where Ri: "released Ri ?u t" "Ri \<subseteq> tree_blocks h ?m (?c i) - {?c i}"
      "\<And>x. page_of x \<notin> tree_nodes h ?m (?c i) \<Longrightarrow> pm t x = pm ?u x"
      "fr = card {n \<in> ?N i. tree_lookup h ?m (?c i) n \<noteq> 0}"
      "e \<Longrightarrow> Ri = tree_blocks h ?m (?c i) - {?c i} \<and> (\<forall>n < ?w. n \<notin> ?N i \<longrightarrow> tree_lookup h ?m (?c i) n = 0)"
      "\<not> e \<Longrightarrow> child_inv h (?c i) (?N i) Ri True ?m (pm t)"
  proof -
    from cut obtain Ri where a: "released Ri ?u t" "Ri \<subseteq> tree_blocks h (pm ?u) (?c i) - {?c i}"
      "\<forall>x. page_of x \<notin> tree_nodes h (pm ?u) (?c i) \<longrightarrow> pm t x = pm ?u x"
      "fr = card {n \<in> ?N i. tree_lookup h (pm ?u) (?c i) n \<noteq> 0}"
      "if e then Ri = tree_blocks h (pm ?u) (?c i) - {?c i} \<and> (\<forall>n < ?w. n \<notin> ?N i \<longrightarrow> tree_lookup h (pm ?u) (?c i) n = 0)
        else tree_wf h (pm t) (?c i) \<and> tree_blocks h (pm t) (?c i) = tree_blocks h (pm ?u) (?c i) - Ri
          \<and> tree_nodes h (pm t) (?c i) \<subseteq> tree_nodes h (pm ?u) (?c i)
          \<and> (\<forall>n < ?w. tree_lookup h (pm t) (?c i) n = (if n \<in> ?N i then 0 else tree_lookup h (pm ?u) (?c i) n))
          \<and> (tree_lean h (pm ?u) (?c i) \<longrightarrow> tree_lean h (pm t) (?c i))"
      unfolding cut_def prod.case by blast
    have "{n \<in> ?N i. tree_lookup h (pm ?u) (?c i) n \<noteq> 0} = {n \<in> ?N i. tree_lookup h ?m (?c i) n \<noteq> 0}"
      using cc(4) sub_last_less [of ?w hi i] by auto
    then show thesis
      using a cc by (intro that [of Ri]) (auto simp: child_inv_def split: if_splits)
  qed
  have live_c: "?c i \<in> tree_blocks h ?m (?c i)" by (rule tree_root_block)
  have nodes_i: "tree_nodes h ?m (?c i) \<subseteq> tree_blocks h ?m (?c i)" by (rule tree_nodes_sub)
  have dj: "tree_blocks h ?m (?c i) \<inter> tree_blocks h ?m (?c j) = {}" if "j \<in> D" "j \<in> live ?m p" for j
    using child_blocks_disjoint [OF okD(3) i(1) that(2)] that(1) i(2) by blast
  have sp: "insert i D \<inter> live ?m p = insert i (D \<inter> live ?m p)" using i(1) by blast
  have cnt: "card {n \<in> {lo..hi}. n div ?w \<in> insert i D \<and> tree_lookup (Suc h) ?m p n \<noteq> 0} = ts_freed st + fr"
  proof -
    have "{n \<in> {lo..hi}. n div ?w \<in> insert i D \<and> tree_lookup (Suc h) ?m p n \<noteq> 0} =
        {n \<in> {lo..hi}. n div ?w \<in> D \<and> tree_lookup (Suc h) ?m p n \<noteq> 0} \<union>
        {n \<in> {lo..hi}. n div ?w = i \<and> tree_lookup (Suc h) ?m p n \<noteq> 0}" by blast
    moreover have "{n \<in> {lo..hi}. n div ?w \<in> D \<and> tree_lookup (Suc h) ?m p n \<noteq> 0} \<inter>
        {n \<in> {lo..hi}. n div ?w = i \<and> tree_lookup (Suc h) ?m p n \<noteq> 0} = {}" using i(2) by blast
    ultimately show ?thesis
      using PD(4) Ri(4) card_child [OF i(1) r hi] by (simp add: card_Un_disjoint del: tree_lookup.simps)
  qed
  have others: "child_inv h (?c j) (?N j) R' (j \<in> K) ?m (pm v)"
    if "j \<in> D" "j \<in> live ?m p" "R \<subseteq> R'" "R' - R \<subseteq> tree_blocks h ?m (?c i)" "pm v = pm t" for j R' v
  proof (rule child_inv_frame [OF PD(7) [OF that(1,2)] that(3)])
    show "(R' - R) \<inter> tree_blocks h ?m (?c j) = {}" using that(4) dj [OF that(1,2)] by blast
    show "pm v x = pm ?u x" if "page_of x \<in> tree_nodes h ?m (?c j)" for x
      using that dj [OF \<open>j \<in> D\<close> \<open>j \<in> live ?m p\<close>] nodes_i tree_nodes_sub(1) [of h ?m "?c j"] \<open>pm v = pm t\<close>
      by (auto intro!: Ri(3))
  qed
  have frame: "pm t x = ?m x" if "page_of x \<notin> (\<Union>j\<in>insert i D \<inter> live ?m p. tree_nodes h ?m (?c j))" for x
    using that Ri(3) [of x] PD(3) [of x] unfolding sp by simp
  show ?thesis
  proof (cases e)
    case False
    let ?st = "st\<lparr>ts_fs := t, ts_freed := ts_freed st + fr,
       ts_start := (if i = lo div ?w then ts_start st + 1 else ts_start st),
       ts_end := (if i \<noteq> lo div ?w \<and> i = hi div ?w then ts_end st - 1 else ts_end st), ts_all := False\<rparr>"
    have b: "bounds_ok (lo div ?w) (hi div ?w) (insert i K) ?st"
      using PD(5,6) i(2) full [OF False] r by (auto simp: bounds_ok_def)
    have rel: "released (R \<union> Ri) s t" by (rule released_trans [OF PD(1) Ri(1)])
    have ci: "child_inv h (?c i) (?N i) (R \<union> Ri) True ?m (pm t)"
      by (rule child_inv_frame [OF Ri(6) [OF False]]) (use ch(2) in auto)
    have sub: "R \<union> Ri \<subseteq> (\<Union>j\<in>insert i D \<inter> live ?m p. tree_blocks h ?m (?c j))"
      using PD(2) Ri(2) unfolding sp by blast
    have "meta_inv h p lo hi s (insert i D) (R \<union> Ri) (insert i K) ?st"
      unfolding meta_inv_def
    proof (intro conjI ballI)
      fix j assume j: "j \<in> insert i D \<inter> live ?m p"
      show "child_inv h (?c j) (?N j) (R \<union> Ri) (j \<in> insert i K) ?m (pm (ts_fs ?st))"
      proof (cases "j = i")
        case True
        with ci show ?thesis by simp
      next
        case False
        with j others [of j "R \<union> Ri" t] Ri(2) show ?thesis by auto
      qed
    qed (use rel sub frame cnt b PD(6) sp in auto)
    moreover have "truncate_meta_slot A (virt_addr s + p) (lo div ?w) (hi div ?w) i (fr, e, t) st = Some ?st"
      using False by (simp add: truncate_meta_slot_def)
    ultimately show ?thesis using False by (simp only: returns_Some if_False) blast
  next
    case True
    have mt: "may_free t (?c i div 4096)" "block_ptr (?c i)"
    proof -
      have cp: "?c i \<in> tree_blocks (Suc h) ?m p" using live_c i(1) by auto
      then show bp: "block_ptr (?c i)" using tree_blocks_ptr [OF okD(3)] by blast
      have "may_free ?u (?c i div 4096)" using ch(1) cc(3) live_c by (auto simp: cut_ok_def)
      then show "may_free t (?c i div 4096)" using released_may [OF Ri(1) bp] Ri(2) by blast
    qed
    have it: "invar t" using Ri(1) by (simp add: released_def)
    have k: "kernel_same s t" using PD(1) Ri(1) kernel_same_trans by (auto simp: released_def)
    have "slot (pm t) p i = ?c i"
    proof (rule slot_cong [OF okD(4)])
      show "i < FANOUT" using live_less [OF i(1)] by simp
      show "pm t x = ?m x" if px: "page_of x = p" for x
      proof (rule frame, rule notI)
        assume "page_of x \<in> (\<Union>j\<in>insert i D \<inter> live ?m p. tree_nodes h ?m (?c j))"
        then obtain j where "j \<in> live ?m p" "p \<in> tree_nodes h ?m (?c j)" using px by blast
        with okD(3) tree_nodes_sub(1) [of h ?m "?c j"] show False by auto
      qed
    qed
    then have na: "node_at t (virt_addr s + p) i = ?c i"
      using node_va_direct(2) [OF okD(2,4)] va_off_same [OF k] by (simp add: node_at_def slot_def)
    have eq: "truncate_meta_slot A (virt_addr s + p) (lo div ?w) (hi div ?w) i (fr, e, t) st =
       Option.bind (free_pointer A t (?c i) 0) (\<lambda>s1. Some (st\<lparr>ts_fs := s1, ts_freed := ts_freed st + fr\<rparr>))"
      using True na by (simp add: truncate_meta_slot_def free_pointer_def bind_assoc)
    show ?thesis
      unfolding eq
    proof (rule returns_bind [OF free_pointer_ok [OF it mt(2,1)]])
      fix v assume v: "released {?c i} t v \<and> pm v = pm t"
      let ?R = "R \<union> Ri \<union> {?c i}" and ?st = "st\<lparr>ts_fs := v, ts_freed := ts_freed st + fr\<rparr>"
      have rel: "released ?R s v" using released_trans [OF released_trans [OF PD(1) Ri(1)]] v by blast
      have iK: "i \<notin> K" using PD(6) i(2) by blast
      have ci: "child_inv h (?c i) (?N i) ?R False ?m (pm v)" using Ri(5) [OF True] by (auto simp: child_inv_def)
      have b: "bounds_ok (lo div ?w) (hi div ?w) K ?st" using PD(5) by (simp add: bounds_ok_def)
      have sub: "?R \<subseteq> (\<Union>j\<in>insert i D \<inter> live ?m p. tree_blocks h ?m (?c j))"
        using PD(2) Ri(2) live_c unfolding sp by blast
      have "meta_inv h p lo hi s (insert i D) ?R K ?st"
        unfolding meta_inv_def
      proof (intro conjI ballI)
        fix j assume j: "j \<in> insert i D \<inter> live ?m p"
        show "child_inv h (?c j) (?N j) ?R (j \<in> K) ?m (pm (ts_fs ?st))"
        proof (cases "j = i")
          case True
          with ci iK show ?thesis by simp
        next
          case False
          have "R \<subseteq> ?R" "?R - R \<subseteq> tree_blocks h ?m (?c i)" using Ri(2) live_c by blast+
          with False j others [of j ?R v] v show ?thesis by simp
        qed
      qed (use rel sub frame v cnt b PD(6) sp in auto)
      then show "returns sure (\<lambda>st'. \<exists>R. meta_inv h p lo hi s (insert i D) R (if e then K else insert i K) st') (Some ?st)"
        using True by (simp only: returns_Some if_True) blast
    qed
  qed
qed

end

context tree_releaser
begin

text \<open>The end of the loop.\<close>

lemma meta_inv_finish:
  assumes ok: "cut_ok (Suc h) p s" and P: "meta_inv h p lo hi s {lo div FANOUT ^ h..hi div FANOUT ^ h} R K st"
    and lh: "lo \<le> hi" "hi < FANOUT ^ Suc h"
  shows "cut (Suc h) p {lo..hi} s (truncate_finish (virt_addr s + p) (lo div FANOUT ^ h) (hi div FANOUT ^ h) st) \<and>
    (lo = 0 \<and> hi = FANOUT ^ Suc h - 1 \<and> K = {} \<longrightarrow>
      fst (snd (truncate_finish (virt_addr s + p) (lo div FANOUT ^ h) (hi div FANOUT ^ h) st))) \<and>
    (tree_lean (Suc h) (pm s) p \<and> (\<forall>i\<in>K. outside h (pm s) (slot (pm s) p i)
        {sub_first (FANOUT ^ h) lo i..sub_last (FANOUT ^ h) hi i}) \<longrightarrow>
      fst (snd (truncate_finish (virt_addr s + p) (lo div FANOUT ^ h) (hi div FANOUT ^ h) st)) \<or>
      outside (Suc h) (pm s) p {lo..hi})"
proof -
  let ?w = "FANOUT ^ h" and ?m = "pm s" and ?u = "ts_fs st"
  let ?f = "lo div ?w" and ?l = "hi div ?w"
  let ?c = "\<lambda>j. slot ?m p j" and ?N = "\<lambda>j. {sub_first (FANOUT ^ h) lo j..sub_last (FANOUT ^ h) hi j}"
  note okD = cut_okD [OF ok] and PD = meta_invD [OF P]
  obtain fr e t where fin: "truncate_finish (virt_addr s + p) ?f ?l st = (fr, e, t)"
    by (cases "truncate_finish (virt_addr s + p) ?f ?l st") auto
  have k: "kernel_same s ?u" using PD(1) by (simp add: released_def)
  have dir: "direct_ok ?u" by (rule direct_ok_same [OF k okD(2)])
  have vs: "virt_addr ?u = virt_addr s" using k by (simp add: kernel_same_def)
  have fl: "?f \<le> ?l" "?l < FANOUT"
    using lh by (simp_all add: div_le_mono less_mult_imp_div_less mult.commute)
  note fc = finish_cases [OF dir okD(4) fl PD(5) fin [folded vs]]
  have pn: "page_of x \<notin> (\<Union>i\<in>{?f..?l} \<inter> live ?m p. tree_nodes h ?m (?c i))" if "page_of x = p" for x
    using okD(3) that tree_nodes_sub(1) [of h ?m] by auto
  have np: "page_of x \<noteq> p" if "page_of x \<in> tree_nodes h ?m (?c j)" "j \<in> live ?m p" for x j
    using pn [of x] okD(3) that tree_nodes_sub(1) [of h ?m "?c j"] by (metis subsetD tree_wf.simps(2))
  have sl_u: "slot (pm ?u) p j = ?c j" if "j < FANOUT" for j
    using slot_cong [OF okD(4) that, of "pm ?u" ?m] PD(3) pn by blast
  then have lv_u: "live (pm ?u) p = live ?m p" by (auto simp: live_def)
  have rel: "released R s t" by (rule released_same [OF PD(1) fc(4,5)])
  have cnt: "fr = card {n \<in> {lo..hi}. tree_lookup (Suc h) ?m p n \<noteq> 0}"
  proof -
    have "n div ?w \<in> {?f..?l}" if "n \<in> {lo..hi}" for n using that by (simp add: div_le_mono)
    then have "{n \<in> {lo..hi}. n div ?w \<in> {?f..?l} \<and> tree_lookup (Suc h) ?m p n \<noteq> 0} =
        {n \<in> {lo..hi}. tree_lookup (Suc h) ?m p n \<noteq> 0}" by blast
    then show ?thesis using fc(1) PD(4) by simp
  qed
  have frame: "pm t x = ?m x" if "page_of x \<notin> tree_nodes (Suc h) ?m p" for x
    using that fc(6) [of x] PD(3) [of x] by auto
  have in_N: "n mod ?w \<in> ?N (n div ?w) \<longleftrightarrow> n \<in> {lo..hi}" if "n div ?w \<in> {?f..?l}" for n
    using sub_range [OF FANOUT_pos(4), of lo h "n div ?w" hi] that by auto
  have Rsub: "R \<subseteq> tree_blocks (Suc h) ?m p - {p}" using PD(2) okD(3) by auto
  have "cut (Suc h) p {lo..hi} s (fr, e, t)"
  proof (cases e)
    case True
    then have e: "K = {}" "live ?m p \<subseteq> {?f..?l}" using fc(2) lv_u by auto
    then have ci: "tree_blocks h ?m (?c i) \<subseteq> R" "\<And>n. n < ?w \<Longrightarrow> n \<notin> ?N i \<Longrightarrow> tree_lookup h ?m (?c i) n = 0"
      if "i \<in> live ?m p" for i
    proof -
      have "i \<in> {?f..?l}" using that e(2) by blast
      from PD(7) [OF this that] show "tree_blocks h ?m (?c i) \<subseteq> R"
        "\<And>n. n < ?w \<Longrightarrow> n \<notin> ?N i \<Longrightarrow> tree_lookup h ?m (?c i) n = 0" by (simp_all add: child_inv_def e(1))
    qed
    have R: "R = tree_blocks (Suc h) ?m p - {p}" using Rsub ci(1) by auto
    have "tree_lookup (Suc h) ?m p n = 0" if n: "n < FANOUT ^ Suc h" "n \<notin> {lo..hi}" for n
    proof (cases "n div ?w \<in> live ?m p")
      case True
      then have "n mod ?w \<notin> ?N (n div ?w)" using in_N e(2) n(2) by blast
      with True ci(2) [OF True, of "n mod ?w"] show ?thesis unfolding lookup_Suc_live [OF n(1)] by simp
    qed (simp add: lookup_Suc_live [OF n(1)] del: tree_lookup.simps)
    then show ?thesis using cut_emptied [OF rel R frame cnt] True by simp
  next
    case False
    have sl: "slot (pm t) p j = (if j \<in> {?f..?l} - K then 0 else ?c j)" if "j < FANOUT" for j
      using fc(7) [OF False that] sl_u [OF that] by simp
    have lv: "live (pm t) p = live ?m p - ({?f..?l} - K)" using sl by (auto simp: live_def split: if_splits)
    have slj: "slot (pm t) p j = ?c j" if "j \<in> live (pm t) p" for j
      using that sl [of j] live_less [OF that] unfolding lv by auto
    have ch: "child_inv h (?c j) (if j \<in> K then ?N j else {}) R True ?m (pm t)" if j: "j \<in> live (pm t) p" for j
    proof (cases "j \<in> K")
      case True
      then have jD: "j \<in> {?f..?l}" "j \<in> live ?m p" using PD(6) by blast+
      from PD(7) [OF this] True have "child_inv h (?c j) (?N j) R True ?m (pm ?u)" by simp
      then have "child_inv h (?c j) (?N j) R True ?m (pm t)"
      proof (rule child_inv_frame)
        show "pm t x = pm ?u x" if "page_of x \<in> tree_nodes h ?m (?c j)" for x
          by (rule fc(6) [OF np [OF that]]) (use j in \<open>simp add: lv\<close>)
      qed auto
      with True show ?thesis by simp
    next
      case False
      then have jl: "j \<in> live ?m p" "j \<notin> {?f..?l}" using j unfolding lv by auto
      have "R \<inter> tree_blocks h ?m (?c j) = {}"
        using meta_inv_child_ok(2) [OF ok P jl] .
      moreover have "tree_wf h (pm t) (?c j) \<and> tree_nodes h (pm t) (?c j) = tree_nodes h ?m (?c j) \<and>
          tree_blocks h (pm t) (?c j) = tree_blocks h ?m (?c j) \<and>
          (\<forall>n < ?w. tree_lookup h (pm t) (?c j) n = tree_lookup h ?m (?c j) n) \<and>
          tree_lean h (pm t) (?c j) = tree_lean h ?m (?c j)"
      proof -
        note cc = child_cong [OF okD(3) jl PD(3)] and lc = child_outside_cong(1) [OF okD(3) jl PD(3)]
        have m: "pm t x = pm ?u x" if "page_of x \<in> tree_nodes h (pm ?u) (?c j)" for x
        proof -
          have "page_of x \<in> tree_nodes h ?m (?c j)" using that cc(2) by simp
          then show ?thesis by (rule fc(6) [OF np [OF _ jl(1)]])
        qed
        note tc = tree_cong [OF cc(1) m]
        show ?thesis using cc tc lc lean_cong [OF cc(1) m] by simp
      qed
      ultimately show ?thesis using False by (auto simp: child_inv_def)
    qed
    have sub: "tree_blocks h (pm t) (?c j) = tree_blocks h ?m (?c j) - R" "tree_wf h (pm t) (?c j)"
      "tree_nodes h (pm t) (?c j) \<subseteq> tree_nodes h ?m (?c j)"
      "n < ?w \<Longrightarrow> tree_lookup h (pm t) (?c j) n = (if j \<in> K \<and> n \<in> ?N j then 0 else tree_lookup h ?m (?c j) n)"
      if "j \<in> live (pm t) p" for j n
      using ch [OF that] by (auto simp: child_inv_def)
    have lsub: "live (pm t) p \<subseteq> live ?m p" using lv by blast
    have wf: "tree_wf (Suc h) (pm t) p"
    proof -
      have "p \<notin> tree_blocks h (pm t) (?c j)" "tree_wf h (pm t) (?c j)" if "j \<in> live (pm t) p" for j
        using sub(1,2) [OF that] okD(3) lsub that by auto
      moreover have "tree_blocks h (pm t) (?c i) \<inter> tree_blocks h (pm t) (?c j) = {}"
        if "i \<in> live (pm t) p" "j \<in> live (pm t) p" "i \<noteq> j" for i j
        using sub(1) [OF that(1)] sub(1) [OF that(2)] child_blocks_disjoint [OF okD(3), of i j] lsub that by blast
      ultimately show ?thesis using okD(4) slj by simp
    qed
    have nodes: "tree_nodes (Suc h) (pm t) p \<subseteq> tree_nodes (Suc h) ?m p"
    proof -
      have "tree_nodes (Suc h) (pm t) p = insert p (\<Union>j\<in>live (pm t) p. tree_nodes h (pm t) (?c j))" using slj by simp
      also have "\<dots> \<subseteq> insert p (\<Union>j\<in>live ?m p. tree_nodes h ?m (?c j))"
        by (intro insert_mono UN_mono lsub sub(3))
      finally show ?thesis by simp
    qed
    have gone: "tree_blocks h ?m (?c j) \<subseteq> R" if "j \<in> live ?m p - live (pm t) p" for j
      using PD(7) [of j] that unfolding lv by (auto simp: child_inv_def)
    have blocks: "tree_blocks (Suc h) (pm t) p = tree_blocks (Suc h) ?m p - R"
    proof -
      have "tree_blocks (Suc h) (pm t) p = insert p (\<Union>j\<in>live (pm t) p. tree_blocks h ?m (?c j) - R)"
        using slj sub(1) by simp
      moreover have "p \<notin> R" using Rsub by blast
      ultimately show ?thesis using gone lsub by auto
    qed
    have "tree_lookup (Suc h) (pm t) p n = (if n \<in> {lo..hi} then 0 else tree_lookup (Suc h) ?m p n)"
      if n: "n < FANOUT ^ Suc h" for n
    proof -
      let ?i = "n div ?w"
      have mw: "n mod ?w < ?w" by simp
      show ?thesis
      proof (cases "?i \<in> live (pm t) p")
        case True
        have "?i \<in> {?f..?l} \<longleftrightarrow> ?i \<in> K" using True PD(6) unfolding lv by blast
        moreover have "n \<in> {lo..hi} \<Longrightarrow> ?i \<in> {?f..?l}" by (simp add: div_le_mono)
        ultimately show ?thesis
          using True sub(4) [OF True mw] slj [OF True] in_N [of n] lsub unfolding lookup_Suc_live [OF n] by auto
      next
        case False
        show ?thesis
        proof (cases "?i \<in> live ?m p")
          case True
          with False have i: "?i \<in> {?f..?l}" "?i \<notin> K" unfolding lv by auto
          with PD(7) [OF i(1) True] mw in_N [OF i(1)] show ?thesis
            using False True unfolding lookup_Suc_live [OF n] by (auto simp: child_inv_def)
        qed (use False in \<open>simp add: lookup_Suc_live [OF n] del: tree_lookup.simps\<close>)
      qed
    qed
    moreover have "tree_lean (Suc h) (pm t) p" if "tree_lean (Suc h) ?m p"
    proof -
      have "live (pm t) p \<noteq> {}"
        using fc(2) False PD(6) unfolding lv lv_u by blast
      moreover have "tree_lean h (pm t) (?c j)" if "j \<in> live (pm t) p" for j
        using ch [OF that] \<open>tree_lean (Suc h) ?m p\<close> lsub that by (auto simp: child_inv_def)
      ultimately show ?thesis using slj by simp
    qed
    ultimately show ?thesis using cut_kept [OF rel Rsub frame cnt wf blocks nodes] False by simp
  qed
  moreover have "e" if "lo = 0" "hi = FANOUT ^ Suc h - 1" "K = {}"
  proof -
    have "?l = FANOUT - 1"
    proof -
      have "hi = (FANOUT - 1) * ?w + (?w - 1)" 
      proof -
        have "?w \<le> FANOUT * ?w" "0 < ?w" by (simp_all add: Suc_leI)
        moreover have "hi = FANOUT * ?w - 1" using that(2) by simp
        ultimately show ?thesis unfolding diff_mult_distrib by linarith
      qed
      then show ?thesis by (simp add: div_add1_eq)
    qed
    then show ?thesis using that fc(2) live_less [of _ "pm ?u" p] by fastforce
  qed
  moreover have "outside (Suc h) ?m p {lo..hi}"
    if lean: "tree_lean (Suc h) ?m p" and o: "\<forall>i\<in>K. outside h ?m (?c i) (?N i)" and ne: "\<not> e"
  proof (cases "K = {}")
    case True
    with ne fc(2) lv_u have "\<not> live ?m p \<subseteq> {?f..?l}" by simp
    then obtain i where i: "i \<in> live ?m p" "i \<notin> {?f..?l}" by blast
    have o: "outside h ?m (?c i) {}" using okD(3) lean i(1) by (intro lean_outside) simp_all
    have "n \<notin> {lo..hi}" if "n div ?w = i" for n using i(2) that div_le_mono by auto
    then show ?thesis using outside_child [OF i(1) o, of "{lo..hi}"] by blast
  next
    case False
    then obtain i where i: "i \<in> K" by blast
    then have "i \<in> {?f..?l}" "i \<in> live ?m p" using PD(6) by blast+
    with in_N o i show ?thesis by (intro outside_child [of i ?m p h "?N i"]) auto
  qed
  ultimately show ?thesis unfolding fin snd_conv fst_conv by blast
qed

end

context tree_releaser
begin

lemma truncate_cut:
  "cut_ok (Suc h) p s \<Longrightarrow> lo \<le> hi \<Longrightarrow> hi < FANOUT ^ Suc h \<Longrightarrow>
    returns sure (\<lambda>r. cut (Suc h) p {lo..hi} s r \<and> (lo = 0 \<and> hi = FANOUT ^ Suc h - 1 \<longrightarrow> fst (snd r)) \<and>
        (tree_lean (Suc h) (pm s) p \<longrightarrow> fst (snd r) \<or> outside (Suc h) (pm s) p {lo..hi}))
      (recursive_truncate_blocks A 0 h p lo hi s)"
proof (induction h arbitrary: p lo hi s)
  case 0
  then have "returns sure (\<lambda>r. cut (Suc 0) p {lo..hi} s r \<and> (lo = 0 \<and> hi = FANOUT - 1 \<longrightarrow> fst (snd r)) \<and>
      (fst (snd r) \<or> outside (Suc 0) (pm s) p {lo..hi})) (recursive_truncate_blocks A 0 0 p lo hi s)"
    using truncate_data_cut [of p s lo hi] by simp
  then show ?case by (rule returns_mono) simp
next
  case (Suc h)
  note ok = Suc.prems(1) and lh = Suc.prems(2,3)
  note okD = cut_okD [OF ok]
  let ?w = "FANOUT ^ Suc h" and ?m = "pm s"
  let ?f = "lo div ?w" and ?l = "hi div ?w" and ?full = "lo = 0 \<and> hi = FANOUT ^ Suc (Suc h) - 1"
  let ?c = "\<lambda>j. slot ?m p j" and ?N = "\<lambda>j. {sub_first ?w lo j..sub_last ?w hi j}"
  let ?lean = "tree_lean (Suc (Suc h)) ?m p" and ?out = "\<lambda>K. \<forall>i\<in>K. outside (Suc h) ?m (?c i) (?N i)"
  let ?st = "\<lparr>ts_fs = s, ts_hint = Some None, ts_freed = 0, ts_start = ?f, ts_end = ?l, ts_all = True\<rparr>"
  let ?P = "\<lambda>D st. \<exists>R K. meta_inv (Suc h) p lo hi s D R K st \<and> (?full \<longrightarrow> K = {}) \<and> (?lean \<longrightarrow> ?out K)"
  let ?g = "\<lambda>i st.
           if node_at (ts_fs st) (virt_addr s + p) i = 0 then Some st
           else do {
             r \<leftarrow> recursive_truncate_blocks A 0 h (node_at (ts_fs st) (virt_addr s + p) i)
               (sub_first ?w lo i) (sub_last ?w hi i) (ts_fs st);
             truncate_meta_slot A (virt_addr s + p) ?f ?l i r st
           }"
  have "returns sure (?P ({} \<union> set [?f..<?l + 1])) (loop_opt ?g [?f..<?l + 1] ?st)"
  proof (rule loop_opt_ind [where P = ?P])
    have "meta_inv (Suc h) p lo hi s {} {} {} ?st"
      unfolding meta_inv_def using released_refl [OF okD(1)] by (auto simp: bounds_ok_def)
    then show "?P {} ?st" by blast
    fix i D and st :: trunc_state assume i: "i \<in> set [?f..<?l + 1]" "i \<notin> D" and P: "?P D st"
    obtain R K where mi: "meta_inv (Suc h) p lo hi s D R K st" and K: "?full \<longrightarrow> K = {}" "?lean \<longrightarrow> ?out K"
      using P by blast
    note PD = meta_invD [OF mi]
    have r: "?f \<le> i" "i \<le> ?l" using i(1) by (simp_all only: set_upt atLeastLessThan_iff Suc_eq_plus1 [symmetric] less_Suc_eq_le)
    have iF: "i < FANOUT" using r lh(2) by (metis less_mult_imp_div_less mult.commute order_le_less_trans power_Suc)
    have k: "kernel_same s (ts_fs st)" using PD(1) by (simp add: released_def)
    have "slot (pm (ts_fs st)) p i = ?c i"
    proof (rule slot_cong [OF okD(4) iF])
      show "pm (ts_fs st) x = ?m x" if px: "page_of x = p" for x
      proof (rule PD(3), rule notI)
        assume "page_of x \<in> (\<Union>j\<in>D \<inter> live ?m p. tree_nodes (Suc h) ?m (?c j))"
        then obtain j where j: "j \<in> live ?m p" "p \<in> tree_nodes (Suc h) ?m (?c j)" using px by blast
        have "p \<notin> tree_blocks (Suc h) ?m (?c j)" using okD(3) j(1) tree_wf.simps(2) [of "Suc h" ?m p] by blast
        with j(2) tree_nodes_sub(1) show False by blast
      qed
    qed
    then have na: "node_at (ts_fs st) (virt_addr s + p) i = ?c i"
      using node_va_direct(2) [OF okD(2,4)] va_off_same [OF k] by (simp add: node_at_def slot_def)
    show "returns sure (?P (insert i D)) (?g i st)"
    proof (cases "?c i = 0")
      case True
      then have "i \<notin> live ?m p" by (simp add: live_def)
      from meta_inv_null [OF mi this lh(2)] True na K show ?thesis by auto
    next
      case False
      then have iv: "i \<in> live ?m p" using iF by (simp add: live_def)
      note ch = meta_inv_child_ok [OF ok mi iv i(2)]
      have sl: "sub_last ?w hi i < ?w" by (rule sub_last_less) (rule FANOUT_pos)
      have le: "sub_first ?w lo i \<le> sub_last ?w hi i" by (rule sub_le) (use lh in simp_all)
      have g: "?g i st = Option.bind (recursive_truncate_blocks A 0 h (?c i) (sub_first ?w lo i) (sub_last ?w hi i) (ts_fs st))
          (\<lambda>r. truncate_meta_slot A (virt_addr s + p) ?f ?l i r st)"
        using na False by simp
      show ?thesis
        unfolding g
      proof (rule returns_bind [OF Suc.IH [OF ch(1) le sl]])
        fix r assume c: "cut (Suc h) (?c i) {sub_first ?w lo i..sub_last ?w hi i} (ts_fs st) r \<and>
          (sub_first ?w lo i = 0 \<and> sub_last ?w hi i = ?w - 1 \<longrightarrow> fst (snd r)) \<and>
          (tree_lean (Suc h) (pm (ts_fs st)) (?c i) \<longrightarrow>
            fst (snd r) \<or> outside (Suc h) (pm (ts_fs st)) (?c i) (?N i))"
        obtain fr e t where re: "r = (fr, e, t)" by (cases r) auto
        have full: "i = ?f \<or> i = ?l" if "\<not> e" 
        proof (rule ccontr)
          assume "\<not> (i = ?f \<or> i = ?l)"
          then have "sub_first ?w lo i = 0 \<and> sub_last ?w hi i = ?w - 1" using sub_full [of i lo ?w hi] by blast
          with c have "fst (snd r)" by blast
          with re that show False by simp
        qed
        have oi: "outside (Suc h) ?m (?c i) (?N i)" if ?lean "\<not> e"
        proof -
          have "tree_lean (Suc h) ?m (?c i)" using that(1) iv by simp
          note lc = child_outside_cong(1) [OF okD(3) iv i(2) PD(3)] child_outside_cong(2) [OF okD(3) iv i(2) PD(3), of "?N i"]
          with c re that show ?thesis using \<open>tree_lean (Suc h) ?m (?c i)\<close> by auto
        qed
        have fe: "e" if ?full
        proof -
          have "sub_first ?w lo i = 0" using that by (simp add: sub_first_def)
          moreover have "hi mod ?w = ?w - 1"
          proof -
            have "?w \<le> FANOUT * ?w" "0 < ?w" by (simp_all add: Suc_leI del: power_Suc)
            moreover have "hi = FANOUT * ?w - 1" using that by simp
            ultimately have "hi = (FANOUT - 1) * ?w + (?w - 1)" unfolding diff_mult_distrib by linarith
            moreover have "?w - 1 < ?w" using \<open>0 < ?w\<close> by simp
            ultimately show ?thesis by (metis mod_less mod_mult_self3)
          qed
          then have "sub_last ?w hi i = ?w - 1" by (simp add: sub_last_def del: power_Suc)
          ultimately show ?thesis using c re by simp
        qed
        have "returns sure (\<lambda>st'. \<exists>R. meta_inv (Suc h) p lo hi s (insert i D) R (if e then K else insert i K) st')
            (truncate_meta_slot A (virt_addr s + p) ?f ?l i (fr, e, t) st)"
          by (rule meta_inv_step [OF ok mi iv i(2) r lh(2)]) (use c re full in auto)
        then show "returns sure (?P (insert i D)) (truncate_meta_slot A (virt_addr s + p) ?f ?l i r st)"
          unfolding re
        proof (rule returns_mono)
          fix st' assume "\<exists>R. meta_inv (Suc h) p lo hi s (insert i D) R (if e then K else insert i K) st'"
          then obtain R' where "meta_inv (Suc h) p lo hi s (insert i D) R' (if e then K else insert i K) st'" by blast
          moreover have "?full \<longrightarrow> (if e then K else insert i K) = {}" using fe K(1) by simp
          moreover have "?lean \<longrightarrow> ?out (if e then K else insert i K)" using K(2) oi by simp
          ultimately show "?P (insert i D) st'" by blast
        qed
      qed
    qed
  qed simp_all
  moreover have "{} \<union> set [?f..<?l + 1] = {?f..?l}" by auto
  ultimately have loop: "returns sure (?P {?f..?l}) (loop_opt ?g [?f..<?l + 1] ?st)" by (simp only:)
  show ?case
    unfolding recursive_truncate_blocks.simps(2) Let_def node_va_direct(1) [OF okD(2,4)] bind.bind_lunit
  proof (rule returns_bind [OF loop])
    fix st assume "?P {?f..?l} st"
    then obtain R K where mi: "meta_inv (Suc h) p lo hi s {?f..?l} R K st"
      and K: "?full \<longrightarrow> K = {}" "?lean \<longrightarrow> ?out K" by blast
    from meta_inv_finish [OF ok mi lh] K
    show "returns sure (\<lambda>r. cut (Suc (Suc h)) p {lo..hi} s r \<and> (lo = 0 \<and> hi = FANOUT ^ Suc (Suc h) - 1 \<longrightarrow> fst (snd r)) \<and>
        (?lean \<longrightarrow> fst (snd r) \<or> outside (Suc (Suc h)) ?m p {lo..hi}))
      (Some (truncate_finish (virt_addr s + p) ?f ?l st))"
      unfolding returns_Some by blast
  qed
qed

end

end
