(* ===== verification/TreeFile.thy ===== *)
theory TreeFile
  imports TreeGrow
begin

text \<open>
  \<^verbatim>\<open>__pmfs_alloc_blocks\<close> on a whole inode: a root that may be missing, a height that grows, and the
  map from file block numbers to blocks that results.
\<close>

section \<open>Trees with a root that may be missing\<close>

definition vlookup :: "nat \<Rightarrow> memory \<Rightarrow> nat \<Rightarrow> nat \<Rightarrow> nat" where
  "vlookup h m r n = (if r = 0 \<or> FANOUT ^ h \<le> n then 0 else tree_lookup h m r n)"

definition rnodes :: "nat \<Rightarrow> memory \<Rightarrow> nat \<Rightarrow> nat set" where
  "rnodes h m r = (if r = 0 then {} else tree_nodes h m r)"

definition rblocks :: "nat \<Rightarrow> memory \<Rightarrow> nat \<Rightarrow> nat set" where
  "rblocks h m r = (if r = 0 then {} else tree_blocks h m r)"

definition root_ok :: "(wpmfs \<Rightarrow> nat set) \<Rightarrow> nat \<Rightarrow> nat \<Rightarrow> nat \<Rightarrow> wpmfs \<Rightarrow> bool" where
  "root_ok avail pi h r s \<longleftrightarrow> direct_ok s \<and> (if r = 0 then h = 0 else tree_wf h (pm s) r)
     \<and> rblocks h (pm s) r \<inter> (\<lambda>b. b * 4096) ` avail s = {}
     \<and> page_of pi \<notin> rblocks h (pm s) r \<and> page_of pi \<notin> (\<lambda>b. b * 4096) ` avail s
     \<and> (\<forall>b\<in>avail s. direct_block b) \<and> pi mod 4096 + 128 \<le> 4096 \<and> pi_blk_type s pi = 0"

lemma root_ok_tree: "r \<noteq> 0 \<Longrightarrow> root_ok avail pi h r s = tree_ok avail pi h r s"
  by (simp add: root_ok_def tree_ok_def rblocks_def)

lemma root_okD:
  assumes "root_ok avail pi h r s"
  shows "direct_ok s" "r \<noteq> 0 \<Longrightarrow> tree_wf h (pm s) r" "r = 0 \<Longrightarrow> h = 0"
    "rblocks h (pm s) r \<inter> (\<lambda>b. b * 4096) ` avail s = {}"
    "page_of pi \<notin> rblocks h (pm s) r" "page_of pi \<notin> (\<lambda>b. b * 4096) ` avail s"
    "b \<in> avail s \<Longrightarrow> direct_block b" "pi mod 4096 + 128 \<le> 4096" "pi_blk_type s pi = 0"
  using assms unfolding root_ok_def by (elim conjE; simp)+

definition root_ext :: "(wpmfs \<Rightarrow> nat set) \<Rightarrow> nat \<Rightarrow> nat \<Rightarrow> nat \<Rightarrow> nat set \<Rightarrow> wpmfs \<Rightarrow> nat \<Rightarrow> nat \<Rightarrow> wpmfs \<Rightarrow> bool" where
  "root_ext avail pi h r N s h' r' t \<longleftrightarrow> kernel_same s t \<and> avail t \<subseteq> avail s
     \<and> rnodes h' (pm t) r' \<subseteq> rnodes h (pm s) r \<union> got avail s t
     \<and> rblocks h' (pm t) r' \<subseteq> rblocks h (pm s) r \<union> got avail s t
     \<and> (\<forall>n. vlookup h (pm s) r n \<noteq> 0 \<or> n \<notin> N \<longrightarrow> vlookup h' (pm t) r' n = vlookup h (pm s) r n)
     \<and> (\<forall>x. page_of x \<notin> rnodes h (pm s) r \<union> got avail s t \<longrightarrow> x \<notin> {pi..<pi + 128} \<longrightarrow> pm t x = pm s x)"

lemma root_ext_refl: "root_ext avail pi h r N s h r s"
  by (simp add: root_ext_def)

lemma root_ext_mono: "root_ext avail pi h r N s h' r' t \<Longrightarrow> N \<subseteq> M \<Longrightarrow> root_ext avail pi h r M s h' r' t"
  unfolding root_ext_def by blast

lemma root_ext_trans:
  assumes e: "root_ext avail pi h r N s h1 r1 t" and f: "root_ext avail pi h1 r1 N t h2 r2 u"
  shows "root_ext avail pi h r N s h2 r2 u"
proof -
  have av: "avail t \<subseteq> avail s" "avail u \<subseteq> avail t" using e f by (auto simp: root_ext_def)
  note got = got_sub [of avail, OF av(2,1)]
  have "kernel_same s u" using e f kernel_same_trans by (auto simp: root_ext_def)
  moreover have "vlookup h2 (pm u) r2 n = vlookup h (pm s) r n" if "vlookup h (pm s) r n \<noteq> 0 \<or> n \<notin> N" for n
  proof -
    have "vlookup h1 (pm t) r1 n = vlookup h (pm s) r n" using e that unfolding root_ext_def by blast
    with f that show ?thesis unfolding root_ext_def by metis
  qed
  moreover have nodes: "rnodes h1 (pm t) r1 \<subseteq> rnodes h (pm s) r \<union> got avail s t"
    "rnodes h2 (pm u) r2 \<subseteq> rnodes h1 (pm t) r1 \<union> got avail t u"
    "rblocks h1 (pm t) r1 \<subseteq> rblocks h (pm s) r \<union> got avail s t"
    "rblocks h2 (pm u) r2 \<subseteq> rblocks h1 (pm t) r1 \<union> got avail t u"
    using e f by (auto simp: root_ext_def)
  moreover have "pm u x = pm s x" if x: "page_of x \<notin> rnodes h (pm s) r \<union> got avail s u" "x \<notin> {pi..<pi + 128}" for x
  proof -
    have "page_of x \<notin> rnodes h1 (pm t) r1 \<union> got avail t u" using nodes(1) x(1) unfolding got by blast
    then have "pm u x = pm t x" using f x(2) unfolding root_ext_def by blast
    moreover have "page_of x \<notin> rnodes h (pm s) r \<union> got avail s t" using x(1) unfolding got by blast
    then have "pm t x = pm s x" using e x(2) unfolding root_ext_def by blast
    ultimately show ?thesis by simp
  qed
  ultimately show ?thesis using av unfolding root_ext_def got by auto
qed

lemma inode_counts_sub: "inode_counts pi \<subseteq> {pi..<pi + 128}"
  by (auto simp: inode_counts_def)

lemma tree_root_ext:
  assumes e: "tree_ext avail pi h p N s t" and p: "p \<noteq> 0"
  shows "root_ext avail pi h p N s h p t"
  using e p inode_counts_sub [of pi] unfolding root_ext_def tree_ext_def vlookup_def rnodes_def rblocks_def
  by (auto simp del: tree_blocks_simps simp: not_le)

text \<open>A new root above the old one.\<close>

lemma new_root_lookup:
  assumes q: "block_ptr q" and sl: "\<And>j. j < FANOUT \<Longrightarrow> slot m q j = (if j = 0 then r else 0)"
    and wf: "if r = 0 then h = 0 else tree_wf h m r" and qb: "q \<notin> rblocks h m r"
  shows "tree_wf (Suc h) m q" "rnodes (Suc h) m q = insert q (rnodes h m r)"
    "rblocks (Suc h) m q = insert q (rblocks h m r)" "vlookup (Suc h) m q n = vlookup h m r n"
proof -
  have q0: "q \<noteq> 0" using q by (auto simp: block_ptr_def)
  have lv: "live m q = (if r = 0 then {} else {0})" using sl by (auto simp: live_def split: if_splits)
  have s0: "slot m q 0 = r" using sl [of 0] by simp
  show "tree_wf (Suc h) m q" using q wf qb by (auto simp: lv s0 rblocks_def simp del: tree_blocks_simps)
  show "rnodes (Suc h) m q = insert q (rnodes h m r)" "rblocks (Suc h) m q = insert q (rblocks h m r)"
    using q0 by (auto simp: rnodes_def rblocks_def lv s0)
  show "vlookup (Suc h) m q n = vlookup h m r n"
  proof (cases "FANOUT ^ h \<le> n")
    case True
    show ?thesis
    proof (cases "n < FANOUT ^ Suc h")
      case n: True
      have "n div FANOUT ^ h \<noteq> 0" using True by (simp add: div_eq_0_iff)
      then have "n div FANOUT ^ h \<notin> live m q" by (simp add: lv)
      with True show ?thesis unfolding vlookup_def lookup_Suc_live [OF n] by simp
    qed (use True in \<open>simp add: vlookup_def not_less\<close>)
  next
    case False
    then have n: "n < FANOUT ^ Suc h" "n div FANOUT ^ h = 0" "n mod FANOUT ^ h = n"
      by (auto simp: FANOUT_def)
    have "\<not> FANOUT ^ Suc h \<le> n" using n(1) by (simp del: power_Suc)
    then show ?thesis using False n(2,3) q0 unfolding vlookup_def lookup_Suc_live [OF n(1)] by (auto simp: lv s0)
  qed
qed

lemma root_ext_above:
  assumes ok: "root_ok avail pi h r s" and b: "b \<in> avail s" "avail t = avail s - {b}" and k: "kernel_same s t"
    and m: "pm t = le_store 8 (mem_fill (pm s) (b * 4096) 0 4096) (b * 4096) r"
  shows "root_ok avail pi (Suc h) (b * 4096) t \<and> root_ext avail pi h r {} s (Suc h) (b * 4096) t"
proof -
  let ?q = "b * 4096"
  note okD = root_okD [OF ok]
  have q: "block_ptr ?q" "?q \<noteq> 0" using okD(7) [OF b(1)] by (auto simp: block_ptr_def)
  have qb: "?q \<notin> rblocks h (pm s) r" using okD(4) b(1) by blast
  have out: "pm t x = pm s x" if "page_of x \<noteq> ?q" for x
    using store_out [OF q(1), of 0 x] fill_out [OF q(1) that] that by (simp add: m)
  have r64: "r < 2 ^ 64" using okD(2) tree_wf_ptr [of h "pm s" r] by (cases "r = 0") (auto simp: block_ptr_def)
  have sl: "slot (pm t) ?q j = (if j = 0 then r else 0)" if "j < FANOUT" for j
    using slot_store [OF r64, of "mem_fill (pm s) ?q 0 4096" ?q 0 j] slot_fill_zero [OF that] by (simp add: m)
  have same: "(if r = 0 then h = 0 else tree_wf h (pm t) r) \<and> rnodes h (pm t) r = rnodes h (pm s) r \<and>
      rblocks h (pm t) r = rblocks h (pm s) r \<and> vlookup h (pm t) r n = vlookup h (pm s) r n" for n
  proof (cases "r = 0")
    case False
    have "pm t x = pm s x" if "page_of x \<in> tree_nodes h (pm s) r" for x
    proof (rule out)
      show "page_of x \<noteq> ?q" using that qb False tree_nodes_sub(1) [of h "pm s" r] by (metis rblocks_def subsetD)
    qed
    with tree_cong [OF okD(2) [OF False], of "pm t"] False show ?thesis
      by (auto simp: rnodes_def rblocks_def vlookup_def)
  qed (use okD(3) in \<open>simp add: rnodes_def rblocks_def vlookup_def\<close>)
  note nr = new_root_lookup [OF q(1), of "pm t" r h, OF sl]
  have new: "tree_wf (Suc h) (pm t) ?q" "rnodes (Suc h) (pm t) ?q = insert ?q (rnodes h (pm s) r)"
    "rblocks (Suc h) (pm t) ?q = insert ?q (rblocks h (pm s) r)" "vlookup (Suc h) (pm t) ?q n = vlookup h (pm s) r n" for n
    using nr same qb by auto
  have got: "got avail s t = {?q}" using b by (auto simp: got_def)
  have "pi_blk_type t pi = pi_blk_type s pi"
    unfolding pi_blk_type_def
  proof (rule le_load_cong)
    fix x assume x: "pi + 3 \<le> x" "x < pi + 3 + 1"
    have "page_of x = page_of pi" using okD(8) x by (intro page_of_inode) auto
    then show "pm t x = pm s x" using okD(6) b(1) by (intro out) auto
  qed
  moreover have "page_of pi \<noteq> ?q" using okD(6) b(1) by blast
  ultimately have "root_ok avail pi (Suc h) ?q t"
    using okD b k q new(1,3) direct_ok_same [OF k] unfolding root_ok_def by auto
  moreover have "root_ext avail pi h r {} s (Suc h) ?q t"
    using k b out by (auto simp: root_ext_def new got)
  ultimately show ?thesis ..
qed

context tree_allocator
begin

lemma increase_loop_ok:
  "root_ok avail pi h r s \<Longrightarrow> invar s \<Longrightarrow> \<exists>res h' r' t. increase_loop K A 0 k h r s = Some (res, h', r', t) \<and>
     root_ok avail pi h' r' t \<and> invar t \<and> root_ext avail pi h r {} s h' r' t \<and> h \<le> h' \<and> h' \<le> h + k \<and>
     (case res of Inl _ \<Rightarrow> True | Inr _ \<Rightarrow> h' = h + k \<and> (0 < k \<longrightarrow> r' \<noteq> 0))"
proof (induction k arbitrary: h r s)
  case 0
  then show ?case by (simp add: root_ext_refl)
next
  case (Suc k)
  note ok = Suc.prems(1)
  obtain res t where t: "af_new_block A s 0 True = Some (res, t)" "invar t" "kernel_same s t"
    and el: "\<And>e. res = Inl e \<Longrightarrow> avail t = avail s \<and> pm t = pm s"
    and er: "\<And>b. res = Inr b \<Longrightarrow> b \<in> avail s \<and> avail t = avail s - {b} \<and> may_free t b \<and>
       pm t = (if True then mem_fill (pm s) (b * 4096) 0 4096 else pm s)"
    by (rule new_any [OF Suc.prems(2), of True]) blast
  show ?case
  proof (cases res)
    case (Inl e)
    have "root_ok avail pi h r t"
      using ok el [OF Inl] direct_ok_same [OF t(3)] by (simp add: root_ok_def pi_blk_type_def)
    moreover have "root_ext avail pi h r {} s h r t" using el [OF Inl] t(3) by (simp add: root_ext_def)
    ultimately show ?thesis using t Inl by simp
  next
    case (Inr b)
    note b = er [OF Inr]
    have bo: "direct_block b" using root_okD(7) [OF ok] b by blast
    then have q: "block_ptr (b * 4096)" by (auto simp: block_ptr_def)
    note bk = get_blockoff_0 [OF bo, of K]
    let ?u = "PM_EQU 8 t (b * 4096) r"
    have same: "alloc_same t ?u" "kernel_same t ?u" by simp_all
    note cc = contract_cong [OF same(1)] and ks = kernel_same_trans [OF t(3) same(2)]
    have dir: "direct_ok t" using direct_ok_same [OF t(3)] root_okD(1) [OF ok] by blast
    note off = node_va_direct(3) [OF dir q]
    have above: "root_ok avail pi (Suc h) (b * 4096) ?u \<and> root_ext avail pi h r {} s (Suc h) (b * 4096) ?u"
      using b cc ks by (intro root_ext_above [OF ok]) simp_all
    obtain res' h' r' t' where l: "increase_loop K A 0 k (Suc h) (b * 4096) ?u = Some (res', h', r', t')"
      "root_ok avail pi h' r' t'" "invar t'" "root_ext avail pi (Suc h) (b * 4096) {} ?u h' r' t'" "Suc h \<le> h'" "h' \<le> Suc h + k"
      "case res' of Inl _ \<Rightarrow> True | Inr _ \<Rightarrow> h' = Suc h + k \<and> (0 < k \<longrightarrow> r' \<noteq> 0)"
      using Suc.IH [of "Suc h" "b * 4096" ?u] above cc t(2) by blast
    have "increase_loop K A 0 (Suc k) h r s = Some (res', h', r', t')"
      using t(1) Inr bk off l(1) by simp
    moreover have "r' \<noteq> 0" using root_okD(3) [OF l(2)] l(5) by auto
    moreover have "root_ext avail pi h r {} s h' r' t'" using above l(4) root_ext_trans by blast
    ultimately show ?thesis using l by (auto split: sum.splits)
  qed
qed

end

section \<open>The blocks of an inode\<close>

definition file_block :: "wpmfs \<Rightarrow> nat \<Rightarrow> nat \<Rightarrow> nat" where
  "file_block s pi n = vlookup (pi_height s pi) (pm s) (pi_root s pi) n"

definition file_ok :: "(wpmfs \<Rightarrow> nat set) \<Rightarrow> nat \<Rightarrow> wpmfs \<Rightarrow> bool" where
  "file_ok avail pi s = root_ok avail pi (pi_height s pi) (pi_root s pi) s"

definition file_ext :: "(wpmfs \<Rightarrow> nat set) \<Rightarrow> nat \<Rightarrow> nat set \<Rightarrow> wpmfs \<Rightarrow> wpmfs \<Rightarrow> bool" where
  "file_ext avail pi N s t =
     root_ext avail pi (pi_height s pi) (pi_root s pi) N s (pi_height t pi) (pi_root t pi) t"

lemma file_ext_trans: "file_ext avail pi N s t \<Longrightarrow> file_ext avail pi N t u \<Longrightarrow> file_ext avail pi N s u"
  unfolding file_ext_def by (rule root_ext_trans)

lemma file_ext_mono: "file_ext avail pi N s t \<Longrightarrow> N \<subseteq> M \<Longrightarrow> file_ext avail pi M s t"
  unfolding file_ext_def by (rule root_ext_mono)

lemma file_ext_block:
  "file_ext avail pi N s t \<Longrightarrow> file_block s pi n \<noteq> 0 \<or> n \<notin> N \<Longrightarrow> file_block t pi n = file_block s pi n"
  unfolding file_ext_def root_ext_def file_block_def by blast

text \<open>Bytes of the inode outside the tree.\<close>

lemma rnodes_sub: "rnodes h m r \<subseteq> rblocks h m r"
  using tree_nodes_sub(1) [of h m r] by (simp add: rnodes_def rblocks_def)

lemma root_ok_cong:
  assumes ok: "root_ok avail pi h r t" and av: "avail u = avail t" and k: "kernel_same t u"
    and m: "\<And>x. x \<notin> {pi..<pi + 128} \<Longrightarrow> pm u x = pm t x" and ty: "pi_blk_type u pi = pi_blk_type t pi"
  shows "root_ok avail pi h r u \<and> rnodes h (pm u) r = rnodes h (pm t) r \<and> rblocks h (pm u) r = rblocks h (pm t) r
    \<and> (\<forall>n. vlookup h (pm u) r n = vlookup h (pm t) r n)"
proof -
  note okD = root_okD [OF ok]
  have "pm u x = pm t x" if "page_of x \<in> rnodes h (pm t) r" for x
  proof (rule m)
    show "x \<notin> {pi..<pi + 128}"
      using that okD(5,8) rnodes_sub [of h "pm t" r] page_of_inode [of pi x] by fastforce
  qed
  then have "pm u x = pm t x" if "r \<noteq> 0" "page_of x \<in> tree_nodes h (pm t) r" for x
    using that by (simp add: rnodes_def)
  note c = tree_cong [OF okD(2), of "pm u", OF _ this]
  have "(if r = 0 then h = 0 else tree_wf h (pm u) r) \<and> rnodes h (pm u) r = rnodes h (pm t) r \<and>
    rblocks h (pm u) r = rblocks h (pm t) r \<and> vlookup h (pm u) r n = vlookup h (pm t) r n" for n
    using c okD(3) by (cases "r = 0") (auto simp: rnodes_def rblocks_def vlookup_def)
  then show ?thesis using okD av ty direct_ok_same [OF k] unfolding root_ok_def by auto
qed

lemma pi_height_less: "pi_height s pi < 256"
  using le_load_bound [of 1 "pm s" "pi + 2"] by (simp add: pi_height_def)

lemma root_less: "root_ok avail pi h r t \<Longrightarrow> r < 2 ^ 64"
  using root_okD(2) [of avail pi h r t] tree_wf_ptr [of h "pm t" r] by (cases "r = 0") (auto simp: block_ptr_def)

text \<open>Root and height of an inode are stored together.\<close>

lemma set_root:
  assumes ok: "root_ok avail pi h r t" and k: "kernel_same t u" and av: "avail u = avail t"
    and m: "pm u = le_store 1 (le_store 8 (pm t) (pi + 8) r) (pi + 2) h" and h: "h < 256"
  shows "file_ok avail pi u" "pi_height u pi = h" "pi_root u pi = r" "file_block u pi n = vlookup h (pm t) r n"
    "root_ext avail pi h0 r0 N s h r t \<Longrightarrow> root_ext avail pi h0 r0 N s h r u"
proof -
  have out: "pm u x = pm t x" if "x \<notin> {pi..<pi + 128}" for x
    using that unfolding m by (subst le_store_out, force, subst le_store_out) auto
  show f: "pi_height u pi = h" "pi_root u pi = r"
    unfolding pi_height_def pi_root_def m using h root_less [OF ok] by (simp_all add: le_load_store_other)
  have "pi_blk_type u pi = pi_blk_type t pi"
    unfolding pi_blk_type_def m by (simp add: le_load_store_other)
  note c = root_ok_cong [OF ok av k out this]
  show "file_ok avail pi u" "file_block u pi n = vlookup h (pm t) r n"
    using c by (auto simp: file_ok_def file_block_def f)
  show "root_ext avail pi h0 r0 N s h r u" if e: "root_ext avail pi h0 r0 N s h r t"
  proof -
    have "root_ext avail pi h r N t h r u" using c k av out by (simp add: root_ext_def)
    with e show ?thesis by (rule root_ext_trans)
  qed
qed

section \<open>The height that is wanted\<close>

lemma grow_height_enough: "h \<le> grow_height n h \<and> n < FANOUT ^ (grow_height n h - h)"
proof (induction n h rule: grow_height.induct)
  case (1 n h)
  show ?case
  proof (cases "n = 0")
    case False
    let ?g = "grow_height (n div FANOUT) (h + 1)"
    have IH: "h + 1 \<le> ?g" "n div FANOUT < FANOUT ^ (?g - (h + 1))" using 1 False by auto
    then have "n < FANOUT ^ (?g - (h + 1)) * FANOUT" using div_less_iff_less_mult FANOUT_pos(1) by blast
    moreover have "?g - h = Suc (?g - (h + 1))" using IH(1) by linarith
    ultimately have "n < FANOUT ^ (?g - h)" by (simp only: power_Suc mult.commute)
    with IH(1) False show ?thesis by (simp add: grow_height.simps [of n])
  qed (simp add: grow_height.simps)
qed

lemma wanted_height_enough:
  "h \<le> wanted_height h n \<and> n < FANOUT ^ wanted_height h n" "\<not> n > FANOUT ^ h - 1 \<Longrightarrow> wanted_height h n = h"
proof -
  show "h \<le> wanted_height h n \<and> n < FANOUT ^ wanted_height h n"
  proof (cases "n > FANOUT ^ h - 1")
    case True
    let ?g = "grow_height (n div FANOUT ^ h) h"
    have g: "h \<le> ?g" "n div FANOUT ^ h < FANOUT ^ (?g - h)" using grow_height_enough by auto
    then have "n < FANOUT ^ (?g - h) * FANOUT ^ h" using div_less_iff_less_mult FANOUT_pos(4) by blast
    also have "\<dots> = FANOUT ^ ?g" using g(1) by (simp only: power_add [symmetric] le_add_diff_inverse2)
    finally show ?thesis using True g(1) by (simp add: wanted_height_def)
  next
    case False
    have "0 < FANOUT ^ h" by simp
    with False have "n < FANOUT ^ h" by linarith
    with False show ?thesis by (simp add: wanted_height_def)
  qed
qed (simp add: wanted_height_def)

lemma root_stores_same:
  "alloc_same t (PM_STORE n c (PM_EQU k t a v) b w)" "kernel_same t (PM_STORE n c (PM_EQU k t a v) b w)"
  by (rule alloc_same_trans [OF store_same(1) store_same(3)], rule kernel_same_trans [OF store_same(2) store_same(4)])

context tree_allocator
begin

definition file_grown :: "nat \<Rightarrow> nat set \<Rightarrow> wpmfs \<Rightarrow> wpmfs \<Rightarrow> bool" where
  "file_grown pi N s t \<longleftrightarrow> invar t \<and> file_ok avail pi t \<and> file_ext avail pi N s t"

lemma file_grown_trans: "file_grown pi N s t \<Longrightarrow> file_grown pi N t u \<Longrightarrow> file_grown pi N s u"
  unfolding file_grown_def using file_ext_trans by blast

lemma file_grown_mono: "file_grown pi N s t \<Longrightarrow> N \<subseteq> M \<Longrightarrow> file_grown pi M s t"
  unfolding file_grown_def using file_ext_mono by blast

lemma increase_ok:
  assumes ok: "file_ok avail pi s" and inv: "invar s" and nh: "pi_height s pi \<le> nh" "nh < 256"
  shows "\<exists>res t. pmfs_increase_btree_height K A s pi nh 0 = Some (res, t) \<and> file_grown pi {} s t \<and>
    (case res of Inl _ \<Rightarrow> True | Inr _ \<Rightarrow> pi_height t pi = nh \<and> (pi_height s pi < nh \<longrightarrow> pi_root t pi \<noteq> 0))"
proof -
  let ?h = "pi_height s pi"
  obtain res h' r' t where l: "increase_loop K A 0 (nh - ?h) ?h (pi_root s pi) s = Some (res, h', r', t)"
    "root_ok avail pi h' r' t" "invar t" "root_ext avail pi ?h (pi_root s pi) {} s h' r' t" "h' \<le> ?h + (nh - ?h)"
    "case res of Inl _ \<Rightarrow> True | Inr _ \<Rightarrow> h' = ?h + (nh - ?h) \<and> (0 < nh - ?h \<longrightarrow> r' \<noteq> 0)"
    using increase_loop_ok [OF ok [unfolded file_ok_def] inv, of K "nh - ?h"] by blast
  let ?u = "PM_STORE 1 4 (PM_EQU 8 t (pi + 8) r') (pi + 2) h'"
  have h': "h' < 256" using l(5) nh by simp
  have same: "alloc_same t ?u" "kernel_same t ?u" by (rule root_stores_same)+
  note cc = contract_cong [OF same(1)]
  have av: "avail ?u = avail t" using cc by blast
  have m: "pm ?u = le_store 1 (le_store 8 (pm t) (pi + 8) r') (pi + 2) h'" by simp
  note sr = set_root [OF l(2) same(2) av m h']
  have "file_grown pi {} s ?u" using sr(1,2,3) sr(5) [OF l(4)] cc l(3) by (simp add: file_grown_def file_ext_def)
  with l(1,6) nh(1) sr(2,3) show ?thesis by (auto simp: pmfs_increase_btree_height_def split: sum.splits)
qed

lemma alloc_rec_file:
  assumes ok: "file_ok avail pi s" and inv: "invar s" and h: "pi_height s pi = Suc h" "pi_root s pi \<noteq> 0"
    and hi: "hi < FANOUT ^ Suc h"
  shows "\<exists>r t J'. recursive_alloc_blocks K A E pi z 0 h (pi_root s pi) lo hi nn s J = Some (r, t, J') \<and>
    file_grown pi {lo..hi} s t \<and> (case r of Inl _ \<Rightarrow> True | Inr _ \<Rightarrow> \<forall>n\<in>{lo..hi}. file_block t pi n \<noteq> 0)"
proof -
  let ?r = "pi_root s pi"
  have tok: "tree_ok avail pi (Suc h) ?r s" using ok h by (simp add: file_ok_def root_ok_tree)
  obtain r t J' where t: "recursive_alloc_blocks K A E pi z 0 h ?r lo hi nn s J = Some (r, t, J')"
    "grown pi (Suc h) ?r {lo..hi} s t"
    "case r of Inl _ \<Rightarrow> True | Inr _ \<Rightarrow> \<forall>n\<in>{lo..hi}. tree_lookup (Suc h) (pm t) ?r n \<noteq> 0"
    using alloc_rec [OF tok inv hi] by blast
  have e: "tree_ext avail pi (Suc h) ?r {lo..hi} s t" and it: "invar t" using t(2) by (simp_all add: grown_def)
  have page: "page_of x \<notin> tree_nodes (Suc h) (pm s) ?r" "page_of x \<notin> got avail s t" if "x \<in> {pi..<pi + 128}" for x
    using that page_of_inode [of pi x] tree_okD(4,5,7) [OF tok] tree_nodes_sub(1) [of "Suc h" "pm s" ?r]
      got_avail [of avail s t] by (simp_all del: tree_blocks_simps tree_nodes.simps) (metis subsetD)+
  have keep: "pm t x = pm s x" if "x \<in> {pi + 2} \<union> {pi + 8..<pi + 16}" for x
    by (rule tree_ext_frame [OF e]) (use that page in \<open>auto simp: inode_counts_def simp del: tree_nodes.simps\<close>)
  have f: "pi_height t pi = Suc h" "pi_root t pi = ?r"
  proof -
    have "pi_height t pi = pi_height s pi" unfolding pi_height_def by (rule le_load_cong) (auto intro: keep)
    then show "pi_height t pi = Suc h" using h by simp
    show "pi_root t pi = ?r" unfolding pi_root_def by (rule le_load_cong) (auto intro: keep)
  qed
  have ok': "file_ok avail pi t" using tree_ext_ok [OF tok e] h(2) by (simp add: file_ok_def f root_ok_tree)
  have "file_grown pi {lo..hi} s t"
    using it ok' tree_root_ext [OF e h(2)] by (simp add: file_grown_def file_ext_def f h)
  moreover have "file_block t pi n \<noteq> 0" if "r = Inr v" "n \<in> {lo..hi}" for n v
    using that t(3) hi h(2) by (simp add: file_block_def vlookup_def f not_le del: tree_lookup.simps power_Suc)
  ultimately show ?thesis using t(1) by (auto split: sum.splits)
qed

lemma new_data_root:
  assumes ok: "file_ok avail pi s" and inv: "invar s" and r: "pi_root s pi = 0"
  shows "\<exists>res t. pmfs_new_data_block A s pi z = Some (res, t) \<and>
    (case res of Inl e \<Rightarrow> file_grown pi {0} s t
     | Inr b \<Rightarrow> wpmfs_get_blockoff K t b 0 = Some (wb_make (b * 4096) 0, t) \<and>
         (let u = PM_STORE 1 4 (PM_EQU 8 t (pi + 8) (unat (wb_make (b * 4096) 0))) (pi + 2) 0 in
            file_grown pi {0} s u \<and> file_block u pi 0 \<noteq> 0))"
proof -
  have rok: "root_ok avail pi 0 0 s" and h0: "pi_height s pi = 0"
    using ok root_okD(3) [OF ok [unfolded file_ok_def] r] r by (simp_all add: file_ok_def)
  note okD = root_okD [OF rok]
  obtain res t where t: "pmfs_new_data_block A s pi z = Some (res, t)" "invar t" "kernel_same s t"
    and el: "\<And>e. res = Inl e \<Longrightarrow> avail t = avail s \<and> pm t = pm s"
    and er: "\<And>b. res = Inr b \<Longrightarrow> b \<in> avail s \<and> avail t = avail s - {b} \<and> (\<exists>v. pm t =
       le_store 8 (if z then mem_fill (pm s) (b * 4096) 0 4096 else pm s) (pi + 40) v)"
    by (rule new_data_block_ok [OF inv okD(9), of z]) blast
  show ?thesis
  proof (cases res)
    case (Inl e)
    have f: "pi_height t pi = 0" "pi_root t pi = 0" "pi_blk_type t pi = pi_blk_type s pi"
      using el [OF Inl] r h0 by (simp_all add: pi_root_def pi_height_def pi_blk_type_def)
    have "root_ok avail pi 0 0 t" using rok el [OF Inl] direct_ok_same [OF t(3)] f by (simp add: root_ok_def)
    moreover have "root_ext avail pi 0 0 {0} s 0 0 t" using el [OF Inl] t(3) by (simp add: root_ext_def)
    ultimately have "file_grown pi {0} s t" using t(2) by (simp add: file_grown_def file_ok_def file_ext_def f r h0)
    with t(1) Inl show ?thesis by simp
  next
    case (Inr b)
    let ?m = "if z then mem_fill (pm s) (b * 4096) 0 4096 else pm s"
    obtain v where v: "pm t = le_store 8 ?m (pi + 40) v" and b: "b \<in> avail s" "avail t = avail s - {b}"
      using er [OF Inr] by blast
    have bo: "direct_block b" by (rule okD(7) [OF b(1)])
    then have q: "block_ptr (b * 4096)" "b * 4096 \<noteq> 0" "b * 4096 < 2 ^ 64" by (auto simp: block_ptr_def)
    note bk = get_blockoff_0 [OF bo, of K t]
    have got: "got avail s t = {b * 4096}" using b by (auto simp: got_def)
    have pb: "page_of pi \<noteq> b * 4096" using okD(6) b(1) by blast
    have mout: "?m x = pm s x" if "page_of x \<noteq> b * 4096" for x using fill_out [OF q(1) that] by simp
    have out: "pm t x = pm s x" if "page_of x \<noteq> b * 4096" "x \<notin> inode_counts pi" for x
      using count_out(1) [OF that(2)] mout [OF that(1)] by (simp only: v)
    have "pi_blk_type t pi = pi_blk_type s pi"
      unfolding pi_blk_type_def
    proof (rule le_load_cong)
      fix x assume x: "pi + 3 \<le> x" "x < pi + 3 + 1"
      have "page_of x = page_of pi" using okD(8) x by (intro page_of_inode) auto
      then show "pm t x = pm s x" using pb x by (intro out) (auto simp: inode_counts_def)
    qed
    then have "root_ok avail pi 0 (b * 4096) t"
      using okD b q pb direct_ok_same [OF t(3)] unfolding root_ok_def by (auto simp: rblocks_def)
    moreover have out': "pm t x = pm s x" if "page_of x \<noteq> b * 4096" "x \<notin> {pi..<pi + 128}" for x
      using out [OF that(1)] that(2) inode_counts_sub [of pi] by blast
    have "root_ext avail pi 0 0 {0} s 0 (b * 4096) t"
      using out' b t(3) by (auto simp: root_ext_def rnodes_def rblocks_def vlookup_def got)
    moreover define u where "u = PM_STORE 1 4 (PM_EQU 8 t (pi + 8) (b * 4096)) (pi + 2) 0"
    have same: "alloc_same t u" "kernel_same t u" unfolding u_def by (rule root_stores_same)+
    note cc = contract_cong [OF same(1)]
    have um: "pm u = le_store 1 (le_store 8 (pm t) (pi + 8) (b * 4096)) (pi + 2) 0" by (simp add: u_def)
    ultimately have "file_grown pi {0} s u" "file_block u pi 0 \<noteq> 0"
      using set_root [of avail pi 0 "b * 4096" t u] same cc t(2) um q(2) h0 r
      by (auto simp: file_grown_def file_ext_def vlookup_def)
    with t(1) Inr bk show ?thesis by (simp add: u_def)
  qed
qed

theorem alloc_blocks_at:
  assumes ok: "file_ok avail pi s" and inv: "invar s" and num: "0 < num" "fb + num < 2 ^ 64"
  shows "\<exists>r t J'. pmfs_alloc_blocks_at K A E s J pi fb num z 0 = Some (r, t, J') \<and> file_grown pi {fb..<fb + num} s t \<and>
    (case r of Inl _ \<Rightarrow> True | Inr _ \<Rightarrow> \<forall>n\<in>{fb..<fb + num}. file_block t pi n \<noteq> 0)"
proof -
  let ?l = "fb + num - 1" and ?h = "pi_height s pi" and ?r = "pi_root s pi"
  let ?H = "wanted_height ?h ?l"
  have sh: "pmfs_inode_blk_shift s pi - 12 = 0"
    using root_okD(9) [OF ok [unfolded file_ok_def]] by (simp add: pmfs_inode_blk_shift_def blk_type_to_shift_def)
  have last: "(fb + num + (2 ^ 64 - 1)) mod 2 ^ 64 = ?l"
  proof -
    have "fb + num + (2 ^ 64 - 1) = ?l + 2 ^ 64" using num(1) by simp
    with num(2) show ?thesis by (simp only: mod_add_self2 mod_less)
  qed
  have range: "{fb..<fb + num} = {fb..?l}" using num(1) by auto
  note wh = wanted_height_enough [of ?h ?l]
  have refl: "file_grown pi {fb..<fb + num} s s" using ok inv by (simp add: file_grown_def file_ext_def root_ext_refl)
  note unf = pmfs_alloc_blocks_at_def [of K A E s J pi fb num z 0, unfolded sh last Let_def power_0 div_by_1]
  show ?thesis
  proof (cases "?l > FANOUT ^ ?h - 1 \<and> ?H > 3")
    case True
    with refl show ?thesis by (simp add: unf)
  next
    case False
    then have H: "?H < 256" using wh(2) pi_height_less [of s pi] by fastforce
    have rest: "\<exists>r t' J'. recursive_alloc_blocks K A E pi z 0 (?H - 1) (pi_root t pi) fb ?l nn t J = Some (r, t', J') \<and>
        file_grown pi {fb..<fb + num} s t' \<and>
        (case r of Inl _ \<Rightarrow> True | Inr _ \<Rightarrow> \<forall>n\<in>{fb..<fb + num}. file_block t' pi n \<noteq> 0)"
      if g: "file_grown pi {} s t" "pi_height t pi = ?H" "pi_root t pi \<noteq> 0" "0 < ?H" for t nn
    proof -
      obtain k where k: "?H = Suc k" using g(4) gr0_conv_Suc by blast
      have "invar t" "file_ok avail pi t" using g(1) by (auto simp: file_grown_def)
      from alloc_rec_file [OF this(2,1) g(2) [unfolded k] g(3), of ?l K E z fb nn J] wh(1) k
      obtain r t' J' where t': "recursive_alloc_blocks K A E pi z 0 (?H - 1) (pi_root t pi) fb ?l nn t J = Some (r, t', J')"
        "file_grown pi {fb..?l} t t'" "case r of Inl _ \<Rightarrow> True | Inr _ \<Rightarrow> \<forall>n\<in>{fb..?l}. file_block t' pi n \<noteq> 0"
        by auto
      with file_grown_trans [OF file_grown_mono [OF g(1)]] show ?thesis unfolding range by blast
    qed
    show ?thesis
    proof (cases "?r = 0")
      case r0: True
      then have h0: "?h = 0" using root_okD(3) [OF ok [unfolded file_ok_def]] by blast
      show ?thesis
      proof (cases "?H = 0")
        case True
        then have "?l = 0" using wh(1) by simp
        then have rg: "{fb..<fb + num} = {0}" using num(1) by auto
        obtain res t where t: "pmfs_new_data_block A s pi z = Some (res, t)"
          and c: "case res of Inl e \<Rightarrow> file_grown pi {0} s t
             | Inr b \<Rightarrow> wpmfs_get_blockoff K t b 0 = Some (wb_make (b * 4096) 0, t) \<and>
               (let u = PM_STORE 1 4 (PM_EQU 8 t (pi + 8) (unat (wb_make (b * 4096) 0))) (pi + 2) 0 in
                  file_grown pi {0} s u \<and> file_block u pi 0 \<noteq> 0)"
          using new_data_root [OF ok inv r0, of z K] by blast
        show ?thesis
        proof (cases res)
          case (Inl e)
          have "pmfs_alloc_blocks_at K A E s J pi fb num z 0 = Some (Inl e, t, J)"
            using False True r0 t Inl by (simp add: unf)
          with c Inl show ?thesis unfolding rg by simp
        next
          case (Inr b)
          have "pmfs_alloc_blocks_at K A E s J pi fb num z 0 =
              Some (Inr (), PM_STORE 1 4 (PM_EQU 8 t (pi + 8) (unat (wb_make (b * 4096) 0))) (pi + 2) 0, J)"
            using False True r0 t c Inr by (simp add: unf)
          with c Inr show ?thesis unfolding rg by (simp add: Let_def)
        qed
      next
        case H0: False
        obtain res t where t: "pmfs_increase_btree_height K A s pi ?H 0 = Some (res, t)" "file_grown pi {} s t"
          "case res of Inl _ \<Rightarrow> True | Inr _ \<Rightarrow> pi_height t pi = ?H \<and> (pi_height s pi < ?H \<longrightarrow> pi_root t pi \<noteq> 0)"
          using increase_ok [OF ok inv _ H, of K] wh(1) by blast
        show ?thesis
        proof (cases res)
          case (Inl e)
          with t False r0 H0 file_grown_mono [OF t(2), of "{fb..<fb + num}"] refl show ?thesis by (simp add: unf)
        next
          case (Inr v)
          then have "pi_height t pi = ?H" "pi_root t pi \<noteq> 0" using t(3) h0 H0 by auto
          with rest [OF t(2) this] H0 t(1) Inr False r0 show ?thesis by (auto simp: unf)
        qed
      qed
    next
      case r: False
      show ?thesis
      proof (cases "?H = 0")
        case True
        then have l0: "?l = 0" "?h = 0" using wh(1) by simp_all
        then have rg: "{fb..<fb + num} = {0}" using num(1) by auto
        have "file_block s pi 0 \<noteq> 0" using r l0(2) by (simp add: file_block_def vlookup_def)
        with refl True r False show ?thesis unfolding unf rg by simp
      next
        case H0: False
        show ?thesis
        proof (cases "?H > ?h")
          case g: True
          obtain res t where t: "pmfs_increase_btree_height K A s pi ?H 0 = Some (res, t)" "file_grown pi {} s t"
            "case res of Inl _ \<Rightarrow> True | Inr _ \<Rightarrow> pi_height t pi = ?H \<and> (pi_height s pi < ?H \<longrightarrow> pi_root t pi \<noteq> 0)"
            using increase_ok [OF ok inv _ H, of K] wh(1) by blast
          show ?thesis
          proof (cases res)
            case (Inl e)
            with t False r H0 g file_grown_mono [OF t(2), of "{fb..<fb + num}"] refl show ?thesis by (simp add: unf)
          next
            case (Inr v)
            then have "pi_height t pi = ?H" "pi_root t pi \<noteq> 0" using t(3) g by auto
            with rest [OF t(2) this] H0 t(1) Inr False r g show ?thesis by (auto simp: unf)
          qed
        next
          case g: False
          then have "?H = ?h" using wh(1) by simp
          moreover have "file_grown pi {} s s" using ok inv by (simp add: file_grown_def file_ext_def root_ext_refl)
          ultimately show ?thesis using rest [of s False] H0 r False g by (auto simp: unf)
        qed
      qed
    qed
  qed
qed

end

end
