(* ===== verification/TreeFileCut.thy ===== *)
theory TreeFileCut
  imports TreeCut TreeFile
begin

text \<open>
  \<^verbatim>\<open>__pmfs_truncate_blocks\<close> and \<^verbatim>\<open>pmfs_free_inode_subtree\<close> on a whole inode: the cut, the lowered tree
  and the fields of the inode.
\<close>

section \<open>Lowering the tree\<close>

lemma lean_only_first:
  assumes wf: "tree_wf (Suc h) m p" and lean: "tree_lean (Suc h) m p"
    and z: "\<And>n. n < FANOUT ^ Suc h \<Longrightarrow> FANOUT ^ h \<le> n \<Longrightarrow> tree_lookup (Suc h) m p n = 0"
  shows "live m p = {0}"
proof -
  have "i = 0" if i: "i \<in> live m p" for i
  proof (rule ccontr)
    assume "i \<noteq> 0"
    have o: "outside h m (slot m p i) {}" using wf lean i by (intro lean_outside) simp_all
    have "outside (Suc h) m p {k. k < FANOUT ^ h}"
      by (rule outside_child [OF i o]) (use \<open>i \<noteq> 0\<close> in auto)
    then obtain n where "n < FANOUT ^ Suc h" "\<not> n < FANOUT ^ h" "tree_lookup (Suc h) m p n \<noteq> 0"
      unfolding outside_def by blast
    with z [of n] show False by simp
  qed
  with lean show ?thesis by auto
qed

lemma grow_height_least: "n < FANOUT ^ k \<Longrightarrow> grow_height n h \<le> h + k"
proof (induction n h arbitrary: k rule: grow_height.induct)
  case (1 n h)
  show ?case
  proof (cases "n = 0")
    case False
    with 1(2) obtain j where j: "k = Suc j" by (cases k) auto
    have "n div FANOUT < FANOUT ^ j" using 1(2) j by (simp add: less_mult_imp_div_less mult.commute)
    with 1(1) [OF False] False j show ?thesis by (simp add: grow_height.simps [of n])
  qed (simp add: grow_height.simps)
qed

lemma block_ptr_direct: "block_ptr (b * 4096) \<Longrightarrow> direct_block b"
  by (auto simp: block_ptr_def)

context tree_releaser
begin

lemma decrease_ok:
  "cut_ok (nh + k) r s \<Longrightarrow> tree_lean (nh + k) (pm s) r \<Longrightarrow>
    (\<And>n. n < FANOUT ^ (nh + k) \<Longrightarrow> FANOUT ^ nh \<le> n \<Longrightarrow> tree_lookup (nh + k) (pm s) r n = 0) \<Longrightarrow>
    returns sure (\<lambda>(r', t). released (tree_blocks (nh + k) (pm s) r - tree_blocks nh (pm s) r') s t \<and> pm t = pm s
      \<and> tree_wf nh (pm s) r' \<and> tree_blocks nh (pm s) r' \<subseteq> tree_blocks (nh + k) (pm s) r \<and> tree_lean nh (pm s) r'
      \<and> tree_nodes nh (pm s) r' \<subseteq> tree_nodes (nh + k) (pm s) r
      \<and> (\<forall>n < FANOUT ^ nh. tree_lookup nh (pm s) r' n = tree_lookup (nh + k) (pm s) r n))
    (decrease_loop A k r s)"
proof (induction k arbitrary: r s)
  case 0
  then show ?case using cut_okD [OF 0(1)] released_refl by simp
next
  case (Suc k)
  let ?H = "nh + k" and ?m = "pm s"
  have ok: "cut_ok (Suc ?H) r s" and lean: "tree_lean (Suc ?H) ?m r" using Suc.prems(1,2) by simp_all
  have z: "tree_lookup (Suc ?H) ?m r n = 0" if "n < FANOUT ^ Suc ?H" "FANOUT ^ nh \<le> n" for n
    using Suc.prems(3) [of n] that by (simp only: add_Suc_right)
  note okD = cut_okD [OF ok]
  have mono: "FANOUT ^ nh \<le> FANOUT ^ ?H" by (rule power_increasing) (simp_all add: Suc_leI)
  have lv: "live ?m r = {0}"
    by (rule lean_only_first [OF okD(3) lean]) (use z mono in \<open>meson order_trans\<close>)
  let ?q = "slot ?m r 0"
  have q0: "0 \<in> live ?m r" by (simp add: lv)
  have cq: "cut_ok ?H ?q s" by (rule cut_ok_child [OF ok q0])
  have rr: "r \<in> tree_blocks (Suc ?H) ?m r" by (rule tree_root_block)
  note va = node_va_direct [OF okD(2,4)]
  have na: "node_at s (virt_addr s + r) 0 = ?q" by (simp add: node_at_def va(2) slot_def)
  have look: "tree_lookup (Suc ?H) ?m r n = tree_lookup ?H ?m ?q n" if "n < FANOUT ^ ?H" for n
  proof -
    have n: "n < FANOUT ^ Suc ?H" using that by (rule less_le_trans) (simp add: Suc_leI)
    show ?thesis unfolding lookup_Suc_live [OF n] using that by (simp add: lv)
  qed
  have rq: "r \<notin> tree_blocks ?H ?m ?q" using okD(3) q0 by simp
  have bl: "tree_blocks (Suc ?H) ?m r = insert r (tree_blocks ?H ?m ?q)"
    and nd: "tree_nodes (Suc ?H) ?m r = insert r (tree_nodes ?H ?m ?q)" using lv by auto
  have fp: "returns sure (\<lambda>t. released {r} s t \<and> pm t = pm s) (free_pointer A s r 0)"
    by (rule free_pointer_ok [OF okD(1,4) okD(5) [OF rr]])
  show ?case
    unfolding decrease_loop.simps va(1) bind.bind_lunit na
  proof (rule returns_bind [OF fp])
    fix t assume t: "released {r} s t \<and> pm t = pm s"
    have k: "kernel_same s t" and inv: "invar t" using t by (auto simp: released_def)
    have ct: "cut_ok ?H ?q t"
    proof -
      have "may_free t (x div 4096)" if x: "x \<in> tree_blocks ?H ?m ?q" for x
      proof (rule released_may)
        show "released {r} s t" using t by blast
        show "block_ptr x" "may_free s (x div 4096)" using x cut_okD(5) [OF cq] tree_blocks_ptr cut_okD(3) [OF cq] by blast+
        show "x \<notin> {r}" using x rq by blast
      qed
      then show ?thesis using cq t inv direct_ok_same [OF k] by (simp add: cut_ok_def)
    qed
    have IH: "returns sure (\<lambda>(r', u). released (tree_blocks ?H ?m ?q - tree_blocks nh ?m r') t u \<and> pm u = pm t
      \<and> tree_wf nh ?m r' \<and> tree_blocks nh ?m r' \<subseteq> tree_blocks ?H ?m ?q \<and> tree_lean nh ?m r'
      \<and> tree_nodes nh ?m r' \<subseteq> tree_nodes ?H ?m ?q
      \<and> (\<forall>n < FANOUT ^ nh. tree_lookup nh ?m r' n = tree_lookup ?H ?m ?q n)) (decrease_loop A k ?q t)"
    proof -
      have "tree_lookup ?H ?m ?q n = 0" if "n < FANOUT ^ ?H" "FANOUT ^ nh \<le> n" for n
      proof -
        have "n < FANOUT ^ Suc ?H" using that(1) by (rule less_le_trans) (simp add: Suc_leI)
        with z [OF this that(2)] look [OF that(1)] show ?thesis by simp
      qed
      moreover have "tree_lean ?H ?m ?q" using lean lv by simp
      ultimately show ?thesis using Suc.IH [OF ct] t by (simp only: simp_thms)
    qed
    show "returns sure (\<lambda>(r', u). released (tree_blocks (nh + Suc k) ?m r - tree_blocks nh ?m r') s u \<and> pm u = pm s
      \<and> tree_wf nh ?m r' \<and> tree_blocks nh ?m r' \<subseteq> tree_blocks (nh + Suc k) ?m r \<and> tree_lean nh ?m r'
      \<and> tree_nodes nh ?m r' \<subseteq> tree_nodes (nh + Suc k) ?m r
      \<and> (\<forall>n < FANOUT ^ nh. tree_lookup nh ?m r' n = tree_lookup (nh + Suc k) ?m r n)) (decrease_loop A k ?q t)"
      unfolding add_Suc_right
    proof (rule returns_mono [OF IH], clarify)
      fix r' u
      assume u: "released (tree_blocks ?H ?m ?q - tree_blocks nh ?m r') t u" "pm u = pm t" "tree_wf nh ?m r'"
        "tree_blocks nh ?m r' \<subseteq> tree_blocks ?H ?m ?q" "tree_lean nh ?m r'" "tree_nodes nh ?m r' \<subseteq> tree_nodes ?H ?m ?q"
        "\<forall>n < FANOUT ^ nh. tree_lookup nh ?m r' n = tree_lookup ?H ?m ?q n"
      have "{r} \<union> (tree_blocks ?H ?m ?q - tree_blocks nh ?m r') = tree_blocks (Suc ?H) ?m r - tree_blocks nh ?m r'"
        using u(4) rq unfolding bl by blast
      with released_trans [OF conjunct1 [OF t] u(1)]
      have "released (tree_blocks (Suc ?H) ?m r - tree_blocks nh ?m r') s u" by simp
      moreover have "tree_lookup nh ?m r' n = tree_lookup (Suc ?H) ?m r n" if "n < FANOUT ^ nh" for n
        using u(7) that look [of n] mono by (simp del: tree_lookup.simps)
      ultimately show "released (tree_blocks (Suc ?H) ?m r - tree_blocks nh ?m r') s u \<and> pm u = pm s \<and> tree_wf nh ?m r'
          \<and> tree_blocks nh ?m r' \<subseteq> tree_blocks (Suc ?H) ?m r \<and> tree_lean nh ?m r' \<and> tree_nodes nh ?m r' \<subseteq> tree_nodes (Suc ?H) ?m r
          \<and> (\<forall>n < FANOUT ^ nh. tree_lookup nh ?m r' n = tree_lookup (Suc ?H) ?m r n)"
        using u(2-6) t unfolding bl nd by (intro conjI allI impI) (simp_all add: subset_insertI2 del: tree_lookup.simps)
    qed
  qed
qed

end

section \<open>Truncating an inode\<close>

definition file_blocks :: "wpmfs \<Rightarrow> nat \<Rightarrow> nat set" where
  "file_blocks s pi = rblocks (pi_height s pi) (pm s) (pi_root s pi)"

lemma file_block_tree:
  "pi_root s pi \<noteq> 0 \<Longrightarrow> n < FANOUT ^ pi_height s pi \<Longrightarrow>
    file_block s pi n = tree_lookup (pi_height s pi) (pm s) (pi_root s pi) n"
  by (simp add: file_block_def vlookup_def)

lemma file_block_beyond: "FANOUT ^ pi_height s pi \<le> n \<Longrightarrow> file_block s pi n = 0"
  by (simp add: file_block_def vlookup_def)

lemma finite_file_block: "finite {n. file_block s pi n \<noteq> 0}"
proof (rule finite_subset [of _ "{n. n < FANOUT ^ pi_height s pi}"])
  show "{n. file_block s pi n \<noteq> 0} \<subseteq> {n. n < FANOUT ^ pi_height s pi}"
    using file_block_beyond [of s pi] by (metis (mono_tags, lifting) mem_Collect_eq not_less subsetI)
qed simp

lemma file_blk_shift: "file_ok avail pi s \<Longrightarrow> pmfs_inode_blk_shift s pi = 12"
  using root_okD(9) by (auto simp: file_ok_def pmfs_inode_blk_shift_def blk_type_to_shift_def)

lemma truncate_rangeD:
  assumes r: "truncate_range s pi start end' = Some (first, la)" and sh: "pmfs_inode_blk_shift s pi = 12"
  shows "pi_root s pi \<noteq> 0" "first \<le> la" "la < FANOUT ^ pi_height s pi" "first = (start + 4095) div 4096"
proof -
  from r sh have e: "pi_root s pi \<noteq> 0" "first = (start + 4096 - 1) div 4096" "\<not> first > la"
    "la = (if and (pi_flags s pi) PMFS_EOFBLOCKS_FL \<noteq> 0 then FANOUT ^ pi_height s pi - 1
      else pmfs_sparse_last_blocknr (pi_height s pi) ((end' - 1) div 4096))"
    by (auto simp: truncate_range_def Let_def split: if_splits)
  show "pi_root s pi \<noteq> 0" "first \<le> la" "first = (start + 4095) div 4096" using e by (simp_all add: add.commute)
  have "0 < FANOUT ^ pi_height s pi" by simp
  then show "la < FANOUT ^ pi_height s pi" unfolding e(4) pmfs_sparse_last_blocknr_def by auto
qed

lemma first_block: "(start + 4095) div 4096 \<le> n \<longleftrightarrow> start \<le> n * (4096::nat)"
  by linarith

context tree_releaser
begin

lemma root_ok_released:
  assumes ok: "root_ok avail pi h r s" and rel: "released R s t" "R \<subseteq> rblocks h (pm s) r"
    and sub: "rblocks h' (pm t) r' \<subseteq> rblocks h (pm s) r - R"
    and wf: "if r' = 0 then h' = 0 else tree_wf h' (pm t) r'" and ty: "pi_blk_type t pi = pi_blk_type s pi"
  shows "root_ok avail pi h' r' t"
proof -
  note okD = root_okD [OF ok]
  have av: "b \<in> avail s \<or> b * 4096 \<in> R" if "b \<in> avail t" for b using rel(1) that by (auto simp: released_def)
  have k: "kernel_same s t" using rel(1) by (simp add: released_def)
  have ptr: "block_ptr q" if "q \<in> rblocks h (pm s) r" for q
    using that okD(2) tree_blocks_ptr by (auto simp: rblocks_def split: if_splits)
  have "rblocks h' (pm t) r' \<inter> (\<lambda>b. b * 4096) ` avail t = {}" 
  proof -
    have "b * 4096 \<notin> rblocks h' (pm t) r'" if "b \<in> avail t" for b using av [OF that] sub okD(4) by blast
    then show ?thesis by blast
  qed
  moreover have "page_of pi \<notin> rblocks h' (pm t) r'" using sub okD(5) by blast
  moreover have "page_of pi \<noteq> b * 4096" if "b \<in> avail t" for b
    using av [OF that] okD(5,6) rel(2) by auto
  then have "page_of pi \<notin> (\<lambda>b. b * 4096) ` avail t" by blast
  moreover have "direct_block b" if "b \<in> avail t" for b
    using av [OF that] okD(7) [of b] ptr [of "b * 4096"] rel(2) block_ptr_direct by blast
  ultimately show ?thesis using okD(8,9) direct_ok_same [OF k okD(1)] wf ty unfolding root_ok_def by simp
qed

text \<open>The recursive part, with the root given back when it became empty.\<close>

definition cut_root :: "nat \<Rightarrow> nat \<Rightarrow> nat \<Rightarrow> nat set \<Rightarrow> wpmfs \<Rightarrow> nat \<times> nat \<times> wpmfs \<Rightarrow> bool" where
  "cut_root h r pi N s = (\<lambda>(fr, r', t). \<exists>R. released R s t \<and> R \<subseteq> tree_blocks h (pm s) r
     \<and> (\<forall>x. page_of x \<notin> tree_nodes h (pm s) r \<longrightarrow> pm t x = pm s x)
     \<and> fr = card {n \<in> N. tree_lookup h (pm s) r n \<noteq> 0}
     \<and> (if r' = 0 then R = tree_blocks h (pm s) r \<and> \<not> outside h (pm s) r N
        else r' = r \<and> 0 < h \<and> tree_wf h (pm t) r \<and> tree_blocks h (pm t) r = tree_blocks h (pm s) r - R
          \<and> tree_nodes h (pm t) r \<subseteq> tree_nodes h (pm s) r
          \<and> (\<forall>n < FANOUT ^ h. tree_lookup h (pm t) r n = (if n \<in> N then 0 else tree_lookup h (pm s) r n))
          \<and> tree_lean h (pm t) r \<and> outside h (pm s) r N))"

lemma cut_root_ok:
  assumes ok: "cut_ok h r s" and lean: "tree_lean h (pm s) r" and l: "first \<le> la" "la < FANOUT ^ h"
  shows "returns sure (cut_root h r pi {first..la} s)
    (if h = 0 then do { s1 \<leftarrow> free_pointer A s r 0; Some (1, 0, s1) }
             else do {
               (freed, mpty, s1) \<leftarrow> recursive_truncate_blocks A 0 (h - 1) r first la s;
               if mpty then do { s2 \<leftarrow> free_pointer A s1 r 0; Some (freed, 0, s2) }
               else Some (freed, r, s1)
             })"
proof -
  note okD = cut_okD [OF ok]
  have rr: "r \<in> tree_blocks h (pm s) r" by (rule tree_root_block)
  have r0: "r \<noteq> 0" using okD(4) by (auto simp: block_ptr_def)
  show ?thesis
  proof (cases h)
    case 0
    have N: "{first..la} = {0}" using l 0 by auto
    have "returns sure (\<lambda>t. released {r} s t \<and> pm t = pm s) (free_pointer A s r 0)"
      by (rule free_pointer_ok [OF okD(1,4) okD(5) [OF rr]])
    then have "returns sure (cut_root h r pi {first..la} s) (Option.bind (free_pointer A s r 0) (\<lambda>s1. Some (1, 0, s1)))"
    proof (rule returns_bind)
      fix t assume t: "released {r} s t \<and> pm t = pm s"
      have c: "{n. n = 0 \<and> 0 < r} = {0::nat}" using r0 by auto
      show "returns sure (cut_root h r pi {first..la} s) (Some (1, 0, t))"
        unfolding cut_root_def returns_Some prod.case N using t r0 0
        by (intro exI [of _ "{r}"]) (auto simp: outside_def c)
    qed
    with 0 show ?thesis by simp
  next
    case (Suc k)
    note tc = truncate_cut [OF ok [unfolded Suc] l(1) l(2) [unfolded Suc]]
    have "returns sure (cut_root h r pi {first..la} s) (do {
               (freed, mpty, s1) \<leftarrow> recursive_truncate_blocks A 0 k r first la s;
               if mpty then do { s2 \<leftarrow> free_pointer A s1 r 0; Some (freed, 0, s2) }
               else Some (freed, r, s1)
             })"
    proof (rule returns_bind [OF tc], clarify)
      fix fr e t
      assume c: "cut (Suc k) r {first..la} s (fr, e, t)"
        and o: "tree_lean (Suc k) (pm s) r \<longrightarrow> fst (snd (fr, e, t)) \<or> outside (Suc k) (pm s) r {first..la}"
      obtain R where R: "released R s t" "R \<subseteq> tree_blocks h (pm s) r - {r}"
        "\<forall>x. page_of x \<notin> tree_nodes h (pm s) r \<longrightarrow> pm t x = pm s x"
        "fr = card {n \<in> {first..la}. tree_lookup h (pm s) r n \<noteq> 0}"
        "if e then R = tree_blocks h (pm s) r - {r} \<and> (\<forall>n < FANOUT ^ h. n \<notin> {first..la} \<longrightarrow> tree_lookup h (pm s) r n = 0)
        else tree_wf h (pm t) r \<and> tree_blocks h (pm t) r = tree_blocks h (pm s) r - R
          \<and> tree_nodes h (pm t) r \<subseteq> tree_nodes h (pm s) r
          \<and> (\<forall>n < FANOUT ^ h. tree_lookup h (pm t) r n = (if n \<in> {first..la} then 0 else tree_lookup h (pm s) r n))
          \<and> (tree_lean h (pm s) r \<longrightarrow> tree_lean h (pm t) r)"
        using c unfolding cut_def prod.case Suc [symmetric] by blast
      have out: "\<not> e \<longrightarrow> outside h (pm s) r {first..la}" using o lean unfolding Suc [symmetric] by auto
      show "returns sure (cut_root h r pi {first..la} s)
          (if e then Option.bind (free_pointer A t r 0) (\<lambda>s2. Some (fr, 0, s2)) else Some (fr, r, t))"
      proof (cases e)
        case False
        have "cut_root h r pi {first..la} s (fr, r, t)"
          unfolding cut_root_def prod.case using R False out lean r0 Suc by (intro exI [of _ R]) (simp del: tree_lookup.simps tree_wf.simps tree_blocks_simps tree_nodes.simps tree_lean.simps, blast)
        with False show ?thesis by simp
      next
        case True
        have inv: "invar t" using R(1) by (simp add: released_def)
        have mf: "may_free t (r div 4096)" using released_may [OF R(1) okD(4)] R(2) okD(5) [OF rr] by blast
        have no: "\<not> outside h (pm s) r {first..la}" using R(5) True by (auto simp: outside_def)
        have "returns sure (cut_root h r pi {first..la} s) (Option.bind (free_pointer A t r 0) (\<lambda>s2. Some (fr, 0, s2)))"
        proof (rule returns_bind [OF free_pointer_ok [OF inv okD(4) mf]])
          fix u assume u: "released {r} t u \<and> pm u = pm t"
          have eq: "R \<union> {r} = tree_blocks h (pm s) r" using R(5) True rr by auto
          have "released (tree_blocks h (pm s) r) s u" using released_trans [OF R(1)] u unfolding eq [symmetric] by blast
          then have "cut_root h r pi {first..la} s (fr, 0, u)"
            unfolding cut_root_def prod.case using R(3,4) u no by (intro exI [of _ "tree_blocks h (pm s) r"]) simp
          then show "returns sure (cut_root h r pi {first..la} s) (Some (fr, 0, u))" by simp
        qed
        with True show ?thesis by simp
      qed
    qed
    with Suc show ?thesis by simp
  qed
qed

text \<open>\<^verbatim>\<open>pmfs_free_inode_subtree\<close> gives back every block of the tree.\<close>

lemma free_subtree_ok:
  assumes ok: "cut_ok h r s" and l: "la < FANOUT ^ h"
    and all: "h = 0 \<or> la = FANOUT ^ h - 1 \<or> tree_lean h (pm s) r \<and> \<not> outside h (pm s) r {0..la}"
  shows "returns sure (\<lambda>(fr, t). released (tree_blocks h (pm s) r) s t \<and>
      fr = card {n. n \<le> la \<and> tree_lookup h (pm s) r n \<noteq> 0}) (pmfs_free_inode_subtree A s r h 0 la)"
proof -
  note okD = cut_okD [OF ok]
  have rr: "r \<in> tree_blocks h (pm s) r" by (rule tree_root_block)
  have r0: "r \<noteq> 0" using okD(4) by (auto simp: block_ptr_def)
  show ?thesis
  proof (cases h)
    case 0
    have c: "{n. n = 0 \<and> 0 < r} = {0::nat}" using r0 by auto
    have "returns sure (\<lambda>t. released {r} s t \<and> pm t = pm s) (free_pointer A s r 0)"
      by (rule free_pointer_ok [OF okD(1,4) okD(5) [OF rr]])
    then have "returns sure (\<lambda>(fr, t). released (tree_blocks h (pm s) r) s t \<and>
        fr = card {n. n \<le> la \<and> tree_lookup h (pm s) r n \<noteq> 0}) (Option.bind (free_pointer A s r 0) (\<lambda>s1. Some (1, s1)))"
      by (rule returns_bind) (use 0 l in \<open>simp add: c\<close>)
    with 0 r0 show ?thesis by (simp add: pmfs_free_inode_subtree_def)
  next
    case (Suc k)
    note tc = truncate_cut [OF ok [unfolded Suc] le0 l [unfolded Suc]]
    have "returns sure (\<lambda>(fr, t). released (tree_blocks h (pm s) r) s t \<and>
        fr = card {n. n \<le> la \<and> tree_lookup h (pm s) r n \<noteq> 0}) (do {
        (freed, mpty, s1) \<leftarrow> recursive_truncate_blocks A 0 k r 0 la s;
        if \<not> mpty then None else do { s2 \<leftarrow> free_pointer A s1 r 0; Some (freed, s2) }
      })"
    proof (rule returns_bind [OF tc], clarify)
      fix fr e t
      assume c: "cut (Suc k) r {0..la} s (fr, e, t)"
        and o: "0 = (0::nat) \<and> la = FANOUT ^ Suc k - 1 \<longrightarrow> fst (snd (fr, e, t))"
          "tree_lean (Suc k) (pm s) r \<longrightarrow> fst (snd (fr, e, t)) \<or> outside (Suc k) (pm s) r {0..la}"
      have e: e using all o unfolding Suc [symmetric] by (auto simp: Suc)
      obtain R where R: "released R s t" "fr = card {n \<in> {0..la}. tree_lookup h (pm s) r n \<noteq> 0}"
        "R = tree_blocks h (pm s) r - {r}"
        using c e unfolding cut_def prod.case Suc [symmetric] by auto
      have inv: "invar t" using R(1) by (simp add: released_def)
      have mf: "may_free t (r div 4096)" using released_may [OF R(1) okD(4)] R(3) okD(5) [OF rr] by blast
      have "returns sure (\<lambda>(fr, t). released (tree_blocks h (pm s) r) s t \<and>
          fr = card {n. n \<le> la \<and> tree_lookup h (pm s) r n \<noteq> 0}) (Option.bind (free_pointer A t r 0) (\<lambda>s2. Some (fr, s2)))"
      proof (rule returns_bind [OF free_pointer_ok [OF inv okD(4) mf]])
        fix u assume u: "released {r} t u \<and> pm u = pm t"
        have "R \<union> {r} = tree_blocks h (pm s) r" using R(3) rr by auto
        with released_trans [OF R(1), of "{r}" u] u have "released (tree_blocks h (pm s) r) s u" by simp
        with R(2) show "returns sure (\<lambda>(fr, t). released (tree_blocks h (pm s) r) s t \<and>
          fr = card {n. n \<le> la \<and> tree_lookup h (pm s) r n \<noteq> 0}) (Some (fr, u))" by simp
      qed
      with e show "returns sure (\<lambda>(fr, t). released (tree_blocks h (pm s) r) s t \<and>
          fr = card {n. n \<le> la \<and> tree_lookup h (pm s) r n \<noteq> 0})
          (if \<not> e then None else Option.bind (free_pointer A t r 0) (\<lambda>s2. Some (fr, s2)))" by simp
    qed
    with Suc r0 show ?thesis by (simp add: pmfs_free_inode_subtree_def)
  qed
qed

end

lemma store_times_simps [simp]:
  "alloc_same s (store_times s pi now)" "kernel_same s (store_times s pi now)"
  "x \<notin> {pi..<pi + 128} \<Longrightarrow> pm (store_times s pi now) x = pm s x"
  "x \<notin> {pi + 24..<pi + 32} \<Longrightarrow> pm (store_times s pi now) x = pm s x"
proof -
  show "alloc_same s (store_times s pi now)" unfolding store_times_def by (rule alloc_same_trans [OF store_same(3) store_same(3)])
  show "kernel_same s (store_times s pi now)" unfolding store_times_def by (rule kernel_same_trans [OF store_same(4) store_same(4)])
  show "pm (store_times s pi now) x = pm s x" if "x \<notin> {pi + 24..<pi + 32}"
    using that unfolding store_times_def PM_STORE_sel by (subst le_store_out, force, subst le_store_out) auto
  then show "pm (store_times s pi now) x = pm s x" if "x \<notin> {pi..<pi + 128}" using that by auto
qed

text \<open>Only bytes of the inode differ.\<close>

definition inode_only :: "nat \<Rightarrow> wpmfs \<Rightarrow> wpmfs \<Rightarrow> bool" where
  "inode_only pi s t \<longleftrightarrow> alloc_same s t \<and> kernel_same s t \<and> (\<forall>x. x \<notin> {pi..<pi + 128} \<longrightarrow> pm t x = pm s x)
     \<and> pi_blk_type t pi = pi_blk_type s pi"

lemma inode_only_refl [simp]: "inode_only pi s s"
  by (simp add: inode_only_def)

lemma inode_only_trans: "inode_only pi s t \<Longrightarrow> inode_only pi t u \<Longrightarrow> inode_only pi s u"
  unfolding inode_only_def using alloc_same_trans kernel_same_trans by metis

lemma inode_onlyI:
  "alloc_same s t \<Longrightarrow> kernel_same s t \<Longrightarrow> (\<And>x. x \<notin> {pi..<pi + 128} \<Longrightarrow> pm t x = pm s x) \<Longrightarrow>
    pi_blk_type t pi = pi_blk_type s pi \<Longrightarrow> inode_only pi s t"
  by (simp add: inode_only_def)

lemma inode_only_blocks: "inode_only pi s (PM_EQU 8 s (pi + 40) v)"
proof (rule inode_onlyI)
  show "pi_blk_type (PM_EQU 8 s (pi + 40) v) pi = pi_blk_type s pi"
    unfolding pi_blk_type_def by (simp add: le_load_store_other)
  show "pm (PM_EQU 8 s (pi + 40) v) x = pm s x" if "x \<notin> {pi..<pi + 128}" for x
    using that unfolding PM_EQU_sel by (intro le_store_out) auto
qed simp_all

lemma inode_only_times: "inode_only pi s (store_times s pi now)"
proof (rule inode_onlyI)
  show "pi_blk_type (store_times s pi now) pi = pi_blk_type s pi"
    unfolding pi_blk_type_def by (rule le_load_cong) simp
qed simp_all

lemma inode_only_root: "inode_only pi s (update_root_height s pi h r)"
proof (rule inode_onlyI)
  show "alloc_same s (update_root_height s pi h r)"
    unfolding update_root_height_def by (rule alloc_same_trans [OF store_same(7) store_same(7)])
  show "kernel_same s (update_root_height s pi h r)"
    unfolding update_root_height_def by (rule kernel_same_trans [OF store_same(8) store_same(8)])
  show "pm (update_root_height s pi h r) x = pm s x" if "x \<notin> {pi..<pi + 128}" for x
    using that unfolding update_root_height_def plain_store_pm by (subst le_store_out, force, subst le_store_out) auto
  show "pi_blk_type (update_root_height s pi h r) pi = pi_blk_type s pi"
    unfolding pi_blk_type_def update_root_height_def by (simp add: le_load_store_other)
qed

lemma inode_only_eof: "inode_only pi s (check_eof_blocks s pi sz)"
proof (rule inode_onlyI)
  show "alloc_same s (check_eof_blocks s pi sz)" "kernel_same s (check_eof_blocks s pi sz)"
    by (simp_all add: check_eof_blocks_def)
  show "pm (check_eof_blocks s pi sz) x = pm s x" if "x \<notin> {pi..<pi + 128}" for x
  proof -
    have "le_store 4 (pm s) (pi + 4) v x = pm s x" for v using that by (intro le_store_out) auto
    then show ?thesis by (simp add: check_eof_blocks_def)
  qed
  show "pi_blk_type (check_eof_blocks s pi sz) pi = pi_blk_type s pi"
    unfolding pi_blk_type_def check_eof_blocks_def by (simp add: le_load_store_other)
qed

lemma eof_keeps: "pi_height (check_eof_blocks s pi sz) pi = pi_height s pi" "pi_root (check_eof_blocks s pi sz) pi = pi_root s pi"
  "pi_blocks (check_eof_blocks s pi sz) pi = pi_blocks s pi"
  by (simp_all add: pi_height_def pi_root_def pi_blocks_def check_eof_blocks_def le_load_store_other)

lemma update_root_sel: "h < 256 \<Longrightarrow> r < 2 ^ 64 \<Longrightarrow> pi_height (update_root_height s pi h r) pi = h \<and>
    pi_root (update_root_height s pi h r) pi = r \<and> pi_blocks (update_root_height s pi h r) pi = pi_blocks s pi"
proof -
  assume h: "h < 256" and r: "r < 2 ^ 64"
  have "le_load 1 (le_store 8 m (pi + 8) r) (pi + 2) = le_load 1 m (pi + 2)" for m by (rule le_load_store_other) simp
  with h r show ?thesis
    unfolding pi_height_def pi_root_def pi_blocks_def update_root_height_def plain_store_pm le_load_store
    by (simp only: le_load_store) (simp add: le_load_store_other)
qed

context tree_releaser
begin

lemma inode_only_tree:
  assumes ok: "root_ok avail pi h0 r0 s" and m: "\<forall>x. x \<notin> {pi..<pi + 128} \<longrightarrow> m' x = m x"
    and wf: "tree_wf h m r" and sub: "tree_nodes h m r \<subseteq> rblocks h0 (pm s) r0"
  shows "tree_wf h m' r" "tree_blocks h m' r = tree_blocks h m r" "tree_nodes h m' r = tree_nodes h m r"
    "tree_lean h m' r = tree_lean h m r" "n < FANOUT ^ h \<Longrightarrow> tree_lookup h m' r n = tree_lookup h m r n"
proof -
  have e: "m' x = m x" if x: "page_of x \<in> tree_nodes h m r" for x
  proof (rule m [rule_format], rule notI)
    assume "x \<in> {pi..<pi + 128}"
    then have "page_of x = page_of pi" using root_okD(8) [OF ok] by (intro page_of_inode) auto
    with x sub root_okD(5) [OF ok] show False by auto
  qed
  note tc = tree_cong [OF wf e] and lc = lean_cong [OF wf e]
  show "tree_wf h m' r" "tree_blocks h m' r = tree_blocks h m r" "tree_nodes h m' r = tree_nodes h m r"
    "tree_lean h m' r = tree_lean h m r" using tc lc by blast+
  show "n < FANOUT ^ h \<Longrightarrow> tree_lookup h m' r n = tree_lookup h m r n" using tc(5) by blast
qed

text \<open>What remains of the tree is hung under the inode with its new height.\<close>

definition file_cut :: "nat \<Rightarrow> nat \<Rightarrow> wpmfs \<Rightarrow> wpmfs \<Rightarrow> bool" where
  "file_cut pi first s t \<longleftrightarrow> file_ok avail pi t \<and> released (file_blocks s pi - file_blocks t pi) s t
     \<and> file_blocks t pi \<subseteq> file_blocks s pi
     \<and> (\<forall>n. file_block t pi n = (if first \<le> n then 0 else file_block s pi n))
     \<and> (pi_root t pi \<noteq> 0 \<longrightarrow> tree_lean (pi_height t pi) (pm t) (pi_root t pi))"

lemma file_cut_hung:
  assumes ok: "file_ok avail pi s" and rel: "released R s t"
    and h: "pi_height t pi = h'" "pi_root t pi = r'" and ty: "pi_blk_type t pi = pi_blk_type s pi"
    and wf: "if r' = 0 then h' = 0 else tree_wf h' (pm t) r' \<and> tree_lean h' (pm t) r'"
    and R: "R = file_blocks s pi - rblocks h' (pm t) r'" "rblocks h' (pm t) r' \<subseteq> file_blocks s pi"
    and look: "\<And>n. vlookup h' (pm t) r' n = (if first \<le> n then 0 else file_block s pi n)"
  shows "file_cut pi first s t"
proof -
  have "root_ok avail pi h' r' t"
    by (rule root_ok_released [OF ok [unfolded file_ok_def] rel]) (use R wf ty in \<open>auto simp: file_blocks_def\<close>)
  then show ?thesis
    using rel R wf look by (simp add: file_cut_def file_ok_def h file_blocks_def file_block_def)
qed

end

context tree_releaser
begin

text \<open>Lowering what the cut has left.\<close>

lemma decrease_file:
  assumes ok: "file_ok avail pi s" and rel: "released R s v" and ty: "pi_blk_type v pi = pi_blk_type s pi"
    and own: "\<forall>q\<in>file_blocks s pi. may_free s (q div 4096)"
    and v: "pi_height v pi = h" "pi_root v pi = r" and hr: "pi_height s pi = h" "pi_root s pi = r" "r \<noteq> 0"
    and wf: "tree_wf h (pm v) r" "tree_lean h (pm v) r" "tree_blocks h (pm v) r = tree_blocks h (pm s) r - R"
      "tree_nodes h (pm v) r \<subseteq> tree_nodes h (pm s) r"
    and R: "R \<subseteq> tree_blocks h (pm s) r"
    and look: "\<And>n. vlookup h (pm v) r n = (if first \<le> n then 0 else file_block s pi n)"
    and b: "pi_blocks v pi \<noteq> 0" and first: "first = (start + 4095) div 4096" "0 < start" "first \<le> FANOUT ^ h"
  shows "returns sure (\<lambda>t. file_cut pi first s t \<and> pi_blocks t pi = pi_blocks v pi) (pmfs_decrease_btree_height A v pi start r)"
proof -
  note rok = ok [unfolded file_ok_def]
  have bs: "pmfs_inode_blk_shift v pi = 12" "pmfs_inode_blk_size v pi = 4096"
    using root_okD(9) [OF rok] ty by (simp_all add: pmfs_inode_blk_shift_def pmfs_inode_blk_size_def blk_type_to_shift_def)
  have f1: "0 < first" using first(1,2) by simp
  let ?nh = "grow_height (first - 1) 0"
  have last: "(start + pmfs_inode_blk_size v pi - 1) div 2 ^ pmfs_inode_blk_shift v pi - 1 = first - 1"
    by (simp add: bs first(1) add.commute)
  have nh: "first - 1 < FANOUT ^ ?nh" "?nh \<le> h"
    using grow_height_enough [of 0 "first - 1"] grow_height_least [of "first - 1" h 0] f1 first(3) by auto
  have h256: "h < 256" using pi_height_less [of s pi] hr(1) by simp
  have fbs: "file_blocks s pi = tree_blocks h (pm s) r" by (simp add: file_blocks_def hr rblocks_def)
  have unf: "pmfs_decrease_btree_height A v pi start r = (if h = ?nh then Some v else
      do { (root, s1) \<leftarrow> decrease_loop A (h - ?nh) r v; Some (update_root_height s1 pi ?nh root) })"
    using b first(2) unfolding pmfs_decrease_btree_height_def Let_def last v by simp
  show ?thesis
  proof (cases "h = ?nh")
    case True
    have "file_cut pi first s v"
    proof (rule file_cut_hung [OF ok rel v ty])
      show "if r = 0 then h = 0 else tree_wf h (pm v) r \<and> tree_lean h (pm v) r" using hr(3) wf by simp
      show "R = file_blocks s pi - rblocks h (pm v) r" "rblocks h (pm v) r \<subseteq> file_blocks s pi"
        using R wf(3) hr(3) unfolding fbs rblocks_def by auto
    qed (rule look)
    then show ?thesis unfolding unf using True by simp
  next
    case False
    obtain k where k: "h = ?nh + k" using nh(2) le_iff_add by blast
    have cv: "cut_ok (?nh + k) r v"
    proof -
      have "may_free v (q div 4096)" if "q \<in> tree_blocks h (pm v) r" for q
        using that tree_blocks_ptr [OF wf(1)] own unfolding fbs wf(3) by (intro released_may [OF rel]) auto
      moreover have "invar v" "kernel_same s v" using rel by (auto simp: released_def)
      ultimately show ?thesis
        using wf(1) direct_ok_same [of s v] root_okD(1) [OF rok] unfolding k [symmetric] cut_ok_def by blast
    qed
    have z: "tree_lookup (?nh + k) (pm v) r n = 0" if "n < FANOUT ^ (?nh + k)" "FANOUT ^ ?nh \<le> n" for n
    proof -
      have "first \<le> n" using nh(1) that(2) by simp
      then have "vlookup h (pm v) r n = 0" using look by simp
      with that(1) hr(3) show ?thesis unfolding k [symmetric] by (simp add: vlookup_def not_le)
    qed
    have lean: "tree_lean (?nh + k) (pm v) r" using wf(2) k by metis
    have "returns sure (\<lambda>t. file_cut pi first s t \<and> pi_blocks t pi = pi_blocks v pi)
        (Option.bind (decrease_loop A k r v) (\<lambda>(root, s1). Some (update_root_height s1 pi ?nh root)))"
    proof (rule returns_bind [OF decrease_ok [OF cv lean z]], assumption, assumption, clarify)
      fix r' w
      assume w: "released (tree_blocks (?nh + k) (pm v) r - tree_blocks ?nh (pm v) r') v w" "pm w = pm v"
        "tree_wf ?nh (pm v) r'" "tree_blocks ?nh (pm v) r' \<subseteq> tree_blocks (?nh + k) (pm v) r"
        "tree_lean ?nh (pm v) r'" "tree_nodes ?nh (pm v) r' \<subseteq> tree_nodes (?nh + k) (pm v) r"
        "\<forall>n < FANOUT ^ ?nh. tree_lookup ?nh (pm v) r' n = tree_lookup (?nh + k) (pm v) r n"
      let ?u = "update_root_height w pi ?nh r'"
      have io: "inode_only pi w ?u" by (rule inode_only_root)
      have r': "r' \<noteq> 0" "r' < 2 ^ 64" using tree_wf_ptr [OF w(3)] by (auto simp: block_ptr_def)
      have sel: "pi_height ?u pi = ?nh" "pi_root ?u pi = r'" "pi_blocks ?u pi = pi_blocks v pi"
        using update_root_sel [of ?nh r' w pi] nh(2) h256 r'(2) w(2) by (simp_all add: pi_blocks_def)
      have relu: "released (R \<union> (tree_blocks h (pm v) r - tree_blocks ?nh (pm v) r')) s ?u"
        using released_trans [OF rel w(1)] io released_same unfolding inode_only_def k [symmetric] by blast
      have nsub: "tree_nodes ?nh (pm v) r' \<subseteq> rblocks (pi_height s pi) (pm s) (pi_root s pi)"
        using w(6) wf(4) tree_nodes_sub(1) [of h "pm s" r] hr unfolding k [symmetric] rblocks_def by auto
      have mem: "\<forall>x. x \<notin> {pi..<pi + 128} \<longrightarrow> pm ?u x = pm v x"
        using io w(2) unfolding inode_only_def by simp
      note it = inode_only_tree [OF rok mem w(3) nsub]
      have "file_cut pi first s ?u"
      proof (rule file_cut_hung [OF ok relu sel(1,2)])
        show "pi_blk_type ?u pi = pi_blk_type s pi"
          using io ty w(2) by (simp add: inode_only_def pi_blk_type_def)
        show "if r' = 0 then ?nh = 0 else tree_wf ?nh (pm ?u) r' \<and> tree_lean ?nh (pm ?u) r'"
          using r'(1) it(1,4) w(5) by simp
        have rb: "rblocks ?nh (pm ?u) r' = tree_blocks ?nh (pm v) r'" using r'(1) it(2) by (simp add: rblocks_def)
        have ws: "tree_blocks ?nh (pm v) r' \<subseteq> tree_blocks h (pm s) r - R" using w(4) wf(3) unfolding k [symmetric] by simp
        show "R \<union> (tree_blocks h (pm v) r - tree_blocks ?nh (pm v) r') = file_blocks s pi - rblocks ?nh (pm ?u) r'"
          using R wf(3) ws unfolding rb fbs by blast
        show "rblocks ?nh (pm ?u) r' \<subseteq> file_blocks s pi" using ws unfolding rb fbs by blast
        show "vlookup ?nh (pm ?u) r' n = (if first \<le> n then 0 else file_block s pi n)" for n
        proof (cases "n < FANOUT ^ ?nh")
          case True
          then have "n < FANOUT ^ h" using power_increasing [OF nh(2), of FANOUT] by (simp add: Suc_leI)
          then have "vlookup ?nh (pm ?u) r' n = vlookup h (pm v) r n"
            using True it(5) [OF True] w(7) r'(1) hr(3) unfolding k [symmetric] by (simp add: vlookup_def)
          then show ?thesis using look by simp
        next
          case False
          then have "first \<le> n" using nh(1) by simp
          with False show ?thesis by (simp add: vlookup_def)
        qed
      qed
      with sel(3) show "returns sure (\<lambda>t. file_cut pi first s t \<and> pi_blocks t pi = pi_blocks v pi) (Some ?u)" by simp
    qed
    moreover have "h - ?nh = k" using k by simp
    ultimately show ?thesis unfolding unf using False by simp
  qed
qed

end

lemma decrease_empty: "pi_blocks v pi = 0 \<Longrightarrow> pmfs_decrease_btree_height A v pi start 0 = Some (update_root_height v pi 0 0)"
  by (simp add: pmfs_decrease_btree_height_def)

context tree_releaser
begin

theorem truncate_at_ok:
  assumes ok: "file_ok avail pi s" and inv: "invar s" and own: "\<forall>q\<in>file_blocks s pi. may_free s (q div 4096)"
    and lean: "tree_lean (pi_height s pi) (pm s) (pi_root s pi)"
    and range: "truncate_range s pi start end' = Some (first, la)" and tail: "\<And>n. la < n \<Longrightarrow> file_block s pi n = 0"
    and blocks: "i_blocks ino = card {n. file_block s pi n \<noteq> 0}" "i_blocks ino < 2 ^ 64"
    and mount: "s_mount_opt s AND PMFS_MOUNT_MOUNTING = 0"
  shows "returns sure (\<lambda>(ino', t). file_cut pi first s t \<and> i_blocks ino' = card {n. file_block t pi n \<noteq> 0}
      \<and> pi_blocks t pi = i_blocks ino') (pmfs_truncate_at A s ino pi start end' now)"
proof -
  note rok = ok [unfolded file_ok_def] and bs = file_blk_shift [OF ok]
  note tr = truncate_rangeD [OF range bs]
  let ?h = "pi_height s pi" and ?r = "pi_root s pi" and ?B = "{n. file_block s pi n \<noteq> 0}"
  have ty: "pi_blk_type s pi = 0" by (rule root_okD(9) [OF rok])
  have wf: "tree_wf ?h (pm s) ?r" by (rule root_okD(2) [OF rok tr(1)])
  have fbs: "file_blocks s pi = tree_blocks ?h (pm s) ?r" using tr(1) by (simp add: file_blocks_def rblocks_def)
  have cok: "cut_ok ?h ?r s"
    using inv root_okD(1) [OF rok] wf own unfolding cut_ok_def fbs by blast
  have look: "tree_lookup ?h (pm s) ?r n = file_block s pi n" if "n < FANOUT ^ ?h" for n
    using file_block_tree [OF tr(1) that] by simp
  have frB: "card {n \<in> {first..la}. tree_lookup ?h (pm s) ?r n \<noteq> 0} = card (?B \<inter> {first..la})"
  proof -
    have "{n \<in> {first..la}. tree_lookup ?h (pm s) ?r n \<noteq> 0} = ?B \<inter> {first..la}" using look tr(3) by auto
    then show ?thesis by simp
  qed
  have B': "?B - {first..la} = {n \<in> ?B. n < first}"
    using tr(2) tail by (auto simp: not_le)
  have cardB: "i_blocks ino - card (?B \<inter> {first..la}) = card {n \<in> ?B. n < first}"
    unfolding blocks(1) B' [symmetric] by (simp add: card_Diff_subset_Int finite_file_block)
  let ?Q = "\<lambda>(ino', t). file_cut pi first s t \<and> i_blocks ino' = card {n. file_block t pi n \<noteq> 0} \<and> pi_blocks t pi = i_blocks ino'"
  let ?now = "ino\<lparr>i_mtime := now, i_ctime := now\<rparr>"
  let ?b = "\<lambda>fr. (i_blocks ino + 2 ^ 64 - fr * 2 ^ (12 - 12)) mod 2 ^ 64"
  let ?rest = "\<lambda>(freed, root', s1). do {
          let s2 = store_times (PM_EQU 8 s1 (pi + 40) (?b freed)) pi now;
          s3 \<leftarrow> pmfs_decrease_btree_height A s2 pi start root';
          Some (?now\<lparr>i_blocks := ?b freed\<rparr>, check_eof_blocks s3 pi (i_size ino))
        }"
  have unf: "pmfs_truncate_at A s ino pi start end' now = Option.bind
      (if ?h = 0 then do { s1 \<leftarrow> free_pointer A s ?r 0; Some (1, 0, s1) }
             else do {
               (freed, mpty, s1) \<leftarrow> recursive_truncate_blocks A 0 (?h - 1) ?r first la s;
               if mpty then do { s2 \<leftarrow> free_pointer A s1 ?r 0; Some (freed, 0, s2) }
               else Some (freed, ?r, s1)
             }) ?rest"
    unfolding pmfs_truncate_at_def range ty bs Let_def mount by (simp split: prod.split)
  show ?thesis
    unfolding unf
  proof (rule returns_bind [OF cut_root_ok [OF cok lean tr(2,3)]])
    fix res assume c: "cut_root ?h ?r pi {first..la} s res"
    obtain fr r' s1 where res: "res = (fr, r', s1)" by (cases res) auto
    from c obtain R where R: "released R s s1" "R \<subseteq> tree_blocks ?h (pm s) ?r"
      "\<forall>x. page_of x \<notin> tree_nodes ?h (pm s) ?r \<longrightarrow> pm s1 x = pm s x"
      "fr = card {n \<in> {first..la}. tree_lookup ?h (pm s) ?r n \<noteq> 0}"
      and rest: "if r' = 0 then R = tree_blocks ?h (pm s) ?r \<and> \<not> outside ?h (pm s) ?r {first..la}
        else r' = ?r \<and> 0 < ?h \<and> tree_wf ?h (pm s1) ?r \<and> tree_blocks ?h (pm s1) ?r = tree_blocks ?h (pm s) ?r - R
          \<and> tree_nodes ?h (pm s1) ?r \<subseteq> tree_nodes ?h (pm s) ?r
          \<and> (\<forall>n < FANOUT ^ ?h. tree_lookup ?h (pm s1) ?r n = (if n \<in> {first..la} then 0 else tree_lookup ?h (pm s) ?r n))
          \<and> tree_lean ?h (pm s1) ?r \<and> outside ?h (pm s) ?r {first..la}"
      unfolding res cut_root_def prod.case by blast
    let ?n = "card {n \<in> ?B. n < first}"
    have fr: "fr = card (?B \<inter> {first..la})" using R(4) frB by simp
    have le: "fr \<le> i_blocks ino" unfolding fr blocks(1) by (rule card_mono [OF finite_file_block]) blast
    have bn: "?b fr = ?n"
    proof -
      have "i_blocks ino + 2 ^ 64 - fr = (i_blocks ino - fr) + 2 ^ 64" using le by simp
      moreover have "i_blocks ino - fr < 2 ^ 64" using blocks(2) by simp
      ultimately have "?b fr = i_blocks ino - fr"
        by (simp only: diff_self_eq_0 power_0 mult_1_right mod_add_self2 mod_less)
      then show ?thesis unfolding cardB [symmetric] fr .
    qed
    define v where "v = store_times (PM_EQU 8 s1 (pi + 40) ?n) pi now"
    have io: "inode_only pi s1 v" unfolding v_def by (rule inode_only_trans [OF inode_only_blocks inode_only_times])
    have relv: "released R s v" using released_same [OF R(1)] io by (auto simp: inode_only_def)
    have inode: "pm s1 x = pm s x" if "x \<in> {pi..<pi + 128}" for x
    proof (rule R(3) [rule_format])
      have "page_of x = page_of pi" using that root_okD(8) [OF rok] by (intro page_of_inode) auto
      with root_okD(5) [OF rok] tr(1) tree_nodes_sub(1) [of ?h "pm s" ?r]
      show "page_of x \<notin> tree_nodes ?h (pm s) ?r" by (auto simp: rblocks_def)
    qed
    have out: "pm v x = pm s x" if "x \<in> {pi + 2} \<union> {pi + 8..<pi + 16}" for x
    proof -
      have "pm v x = pm s1 x" using that unfolding v_def by (subst store_times_simps(4)) auto
      then show ?thesis using inode [of x] that by auto
    qed
    have sel: "pi_height v pi = ?h" "pi_root v pi = ?r" "pi_blk_type v pi = pi_blk_type s pi"
    proof -
      show "pi_height v pi = ?h" unfolding pi_height_def by (rule le_load_cong) (auto intro: out)
      show "pi_root v pi = ?r" unfolding pi_root_def by (rule le_load_cong) (auto intro: out)
      have "pi_blk_type s1 pi = pi_blk_type s pi" unfolding pi_blk_type_def by (rule le_load_cong) (auto intro: inode)
      with io show "pi_blk_type v pi = pi_blk_type s pi" by (simp add: inode_only_def)
    qed
    have vb: "pi_blocks v pi = ?n"
    proof -
      have "?n \<le> i_blocks ino" unfolding blocks(1) by (rule card_mono [OF finite_file_block]) blast
      then have "?n < 2 ^ 64" using blocks(2) by simp
      moreover have "pi_blocks v pi = le_load 8 (le_store 8 (pm s1) (pi + 40) ?n) (pi + 40)"
        unfolding pi_blocks_def v_def by (rule le_load_cong) simp
      ultimately show ?thesis by simp
    qed
    have fin: "returns sure ?Q (Option.bind d (\<lambda>s3. Some (?now\<lparr>i_blocks := ?n\<rparr>, check_eof_blocks s3 pi (i_size ino))))"
      if d: "returns sure (\<lambda>t. file_cut pi first s t \<and> pi_blocks t pi = pi_blocks v pi) d" for d
    proof (rule returns_bind [OF d])
      fix t assume t: "file_cut pi first s t \<and> pi_blocks t pi = pi_blocks v pi"
      let ?z = "check_eof_blocks t pi (i_size ino)"
      have io: "inode_only pi t ?z" by (rule inode_only_eof)
      have tok: "root_ok avail pi (pi_height t pi) (pi_root t pi) t" using t by (simp add: file_cut_def file_ok_def)
      have cz: "avail ?z = avail t" using contract_cong [of t ?z] io by (simp add: inode_only_def)
      have k: "kernel_same t ?z" "\<forall>x. x \<notin> {pi..<pi + 128} \<longrightarrow> pm ?z x = pm t x" "pi_blk_type ?z pi = pi_blk_type t pi"
        using io by (auto simp: inode_only_def)
      note rc = root_ok_cong [OF tok cz k(1) k(2) [rule_format] k(3)]
      have fb: "file_block ?z pi n = file_block t pi n" for n using rc by (simp add: file_block_def eof_keeps)
      have fbl: "file_blocks ?z pi = file_blocks t pi" using rc by (simp add: file_blocks_def eof_keeps)
      have leanz: "tree_lean (pi_height t pi) (pm ?z) (pi_root t pi)" if r: "pi_root t pi \<noteq> 0"
      proof -
        have "tree_nodes (pi_height t pi) (pm t) (pi_root t pi) \<subseteq> rblocks (pi_height t pi) (pm t) (pi_root t pi)"
          using tree_nodes_sub(1) r by (simp add: rblocks_def)
        from inode_only_tree(4) [OF tok k(2) root_okD(2) [OF tok r] this] t r show ?thesis by (simp add: file_cut_def)
      qed
      have "file_cut pi first s ?z"
        using t rc leanz released_same [of _ s t ?z] io
        by (simp add: file_cut_def fb fbl file_ok_def eof_keeps inode_only_def)
      moreover have "{n. file_block ?z pi n \<noteq> 0} = {n \<in> ?B. n < first}"
        using t by (auto simp: fb file_cut_def not_less)
      ultimately show "returns sure ?Q (Some (?now\<lparr>i_blocks := ?n\<rparr>, ?z))" using t vb by (simp add: eof_keeps)
    qed
    show "returns sure ?Q (?rest res)"
    proof (cases "r' = 0")
      case True
      note e = rest [unfolded if_P [OF True]]
      have n0: "file_block s pi n = 0" if "n < first" for n
      proof (cases "n < FANOUT ^ ?h")
        case n: True
        with e that look [OF n] show ?thesis by (auto simp: outside_def)
      qed (simp add: file_block_beyond)
      then have "{n \<in> ?B. n < first} = {}" by auto
      then have b0: "?n = 0" by (simp only: card.empty)
      let ?u = "update_root_height v pi 0 0"
      have iu: "inode_only pi v ?u" by (rule inode_only_root)
      have "file_cut pi first s ?u"
      proof (rule file_cut_hung [OF ok])
        show "released R s ?u" using released_same [OF relv] iu by (auto simp: inode_only_def)
        show "pi_height ?u pi = 0" "pi_root ?u pi = 0" using update_root_sel [of 0 0 v pi] by simp_all
        show "pi_blk_type ?u pi = pi_blk_type s pi" using iu sel(3) by (simp add: inode_only_def)
        show "R = file_blocks s pi - rblocks 0 (pm ?u) 0" using e by (simp add: fbs rblocks_def)
        show "vlookup 0 (pm ?u) 0 n = (if first \<le> n then 0 else file_block s pi n)" for n
          using n0 by (simp add: vlookup_def)
      qed (simp_all add: rblocks_def)
      moreover have "pi_blocks ?u pi = pi_blocks v pi" using update_root_sel [of 0 0 v pi] by simp
      ultimately have "returns sure (\<lambda>t. file_cut pi first s t \<and> pi_blocks t pi = pi_blocks v pi)
          (pmfs_decrease_btree_height A v pi start r')"
        using decrease_empty [of v pi A start] vb b0 True by simp
      from fin [OF this] show ?thesis unfolding res prod.case bn v_def Let_def .
    next
      case False
      note c = rest [unfolded if_not_P [OF False]]
      obtain m where m: "m < FANOUT ^ ?h" "m \<notin> {first..la}" "tree_lookup ?h (pm s) ?r m \<noteq> 0"
        using c unfolding outside_def by blast
      have mB: "m \<in> {n \<in> ?B. n < first}"
      proof -
        have "m \<in> ?B" using m(3) look [OF m(1)] by simp
        with m(2) show ?thesis unfolding B' [symmetric] by blast
      qed
      have b: "pi_blocks v pi \<noteq> 0"
      proof -
        have "finite {n \<in> ?B. n < first}" by simp
        with mB have "?n \<noteq> 0" by (metis card_0_eq empty_iff)
        then show ?thesis unfolding vb .
      qed
      have st: "0 < start"
      proof -
        have "m < first" using mB by simp
        then show ?thesis unfolding tr(4) by (cases start) simp_all
      qed
      have fF: "first \<le> FANOUT ^ ?h" using tr(2,3) by simp
      have nsub: "tree_nodes ?h (pm s1) ?r \<subseteq> rblocks ?h (pm s) ?r"
        using c tree_nodes_sub(1) [of ?h "pm s" ?r] tr(1) by (auto simp: rblocks_def)
      have mem: "\<forall>x. x \<notin> {pi..<pi + 128} \<longrightarrow> pm v x = pm s1 x" using io by (simp add: inode_only_def)
      have wfs1: "tree_wf ?h (pm s1) ?r" using c by blast
      note it = inode_only_tree [OF rok mem wfs1 nsub]
      have "returns sure (\<lambda>t. file_cut pi first s t \<and> pi_blocks t pi = pi_blocks v pi)
          (pmfs_decrease_btree_height A v pi start ?r)"
      proof (rule decrease_file [OF ok relv sel(3) own sel(1,2) refl refl tr(1)])
        show "tree_wf ?h (pm v) ?r" "tree_lean ?h (pm v) ?r" "tree_blocks ?h (pm v) ?r = tree_blocks ?h (pm s) ?r - R"
          "tree_nodes ?h (pm v) ?r \<subseteq> tree_nodes ?h (pm s) ?r" using c it by simp_all
        show "vlookup ?h (pm v) ?r n = (if first \<le> n then 0 else file_block s pi n)" for n
        proof (cases "n < FANOUT ^ ?h")
          case True
          then have "vlookup ?h (pm v) ?r n = (if n \<in> {first..la} then 0 else file_block s pi n)"
            using c it(5) [OF True] look [OF True] tr(1) by (simp add: vlookup_def)
          then show ?thesis using tail [of n] by (auto simp: not_le)
        qed (simp add: vlookup_def file_block_beyond)
      qed (use R(2) b tr(4) st fF in auto)
      from fin [OF this] c show ?thesis unfolding res prod.case bn v_def Let_def by simp
    qed
  qed
qed

end

end
