(* ===== verification/TreeLookup.thy ===== *)
theory TreeLookup
  imports TreeFileCut
begin

text \<open>
  Lookups in a tree with tired pages.  \<^verbatim>\<open>__pmfs_find_data_block\<close> replaces every tired page on its way
  (the stranded case of the wear levelling): the lemmas show that no lookup, whatever it replaces,
  changes what any block of the file holds.
\<close>

section \<open>Replacing a child\<close>

text \<open>A tree below \<open>p\<close>, without the inode it belongs to.\<close>

definition plain_ok :: "(wpmfs \<Rightarrow> nat set) \<Rightarrow> nat \<Rightarrow> nat \<Rightarrow> wpmfs \<Rightarrow> bool" where
  "plain_ok avail h p s \<longleftrightarrow> direct_ok s \<and> tree_wf h (pm s) p
     \<and> tree_blocks h (pm s) p \<inter> (\<lambda>b. b * 4096) ` avail s = {} \<and> (\<forall>b\<in>avail s. direct_block b)"

text \<open>Two places hold the same page; a hole is a hole on both sides.\<close>

definition same_page :: "memory \<Rightarrow> nat \<Rightarrow> memory \<Rightarrow> nat \<Rightarrow> bool" where
  "same_page m a m' b \<longleftrightarrow> (a = 0 \<longleftrightarrow> b = 0) \<and> (a \<noteq> 0 \<longrightarrow> (\<forall>x < 4096. m' (b + x) = m (a + x)))"

text \<open>The tree below \<open>q\<close> has become the tree below \<open>q'\<close>, with the same contents.\<close>

definition moved :: "(wpmfs \<Rightarrow> nat set) \<Rightarrow> nat \<Rightarrow> nat \<Rightarrow> wpmfs \<Rightarrow> nat \<Rightarrow> wpmfs \<Rightarrow> bool" where
  "moved avail h q s q' t \<longleftrightarrow> kernel_same s t \<and> avail t \<subseteq> avail s \<and> tree_wf h (pm t) q'
     \<and> tree_nodes h (pm t) q' \<subseteq> tree_nodes h (pm s) q \<union> got avail s t
     \<and> tree_blocks h (pm t) q' \<subseteq> tree_blocks h (pm s) q \<union> got avail s t
     \<and> (\<forall>n < FANOUT ^ h. same_page (pm s) (tree_lookup h (pm s) q n) (pm t) (tree_lookup h (pm t) q' n))"

definition wrote :: "(wpmfs \<Rightarrow> nat set) \<Rightarrow> nat set \<Rightarrow> wpmfs \<Rightarrow> wpmfs \<Rightarrow> bool" where
  "wrote avail N s t \<longleftrightarrow> (\<forall>x. page_of x \<notin> N \<longrightarrow> page_of x \<notin> got avail s t \<longrightarrow> pm t x = pm s x)"

lemma same_page_refl [simp]: "same_page m a m a" "same_page m 0 m' 0"
  by (simp_all add: same_page_def)

lemma same_page_trans: "same_page m a m' b \<Longrightarrow> same_page m' b m'' c \<Longrightarrow> same_page m a m'' c"
  unfolding same_page_def by (metis (no_types, lifting))

lemma same_page_keep: "block_ptr a \<Longrightarrow> (\<And>x. page_of x = a \<Longrightarrow> m' x = m x) \<Longrightarrow> same_page m a m' a"
  by (auto simp: same_page_def block_ptr_def page_of_in)

lemma moved_refl: "plain_ok avail h p s \<Longrightarrow> moved avail h p s p s"
  by (simp add: moved_def plain_ok_def)

lemma moved_ok:
  assumes "plain_ok avail h q s" "moved avail h q s q' t"
  shows "plain_ok avail h q' t"
proof -
  have "tree_blocks h (pm t) q' \<inter> (\<lambda>b. b * 4096) ` avail t = {}"
  proof -
    have "tree_blocks h (pm t) q' \<subseteq> tree_blocks h (pm s) q \<union> got avail s t" "avail t \<subseteq> avail s"
      "tree_blocks h (pm s) q \<inter> (\<lambda>b. b * 4096) ` avail s = {}"
      using assms by (simp_all add: plain_ok_def moved_def)
    moreover have "got avail s t \<inter> (\<lambda>b. b * 4096) ` avail t = {}" by (auto simp: got_def)
    ultimately show ?thesis by blast
  qed
  with assms show ?thesis using direct_ok_same [of s t] by (auto simp: plain_ok_def moved_def)
qed

lemma moved_trans:
  assumes "moved avail h q s q' t" "moved avail h q' t q'' u"
  shows "moved avail h q s q'' u"
proof -
  have av: "avail t \<subseteq> avail s" "avail u \<subseteq> avail t" using assms by (auto simp: moved_def)
  note got = got_sub [of avail, OF av(2,1)]
  have "same_page (pm s) (tree_lookup h (pm s) q n) (pm u) (tree_lookup h (pm u) q'' n)" if "n < FANOUT ^ h" for n
    using assms that same_page_trans unfolding moved_def by blast
  with assms av show ?thesis unfolding moved_def got using kernel_same_trans by auto
qed

lemma wrote_trans:
  assumes "wrote avail N s t" "wrote avail M t u" "M \<subseteq> N \<union> got avail s t" "avail t \<subseteq> avail s" "avail u \<subseteq> avail t"
  shows "wrote avail N s u"
proof -
  note got = got_sub [of avail, OF assms(5,4)]
  show ?thesis unfolding wrote_def got
  proof (intro allI impI)
    fix x assume x: "page_of x \<notin> N" "page_of x \<notin> got avail s t \<union> got avail t u"
    then have "page_of x \<notin> M" using assms(3) by auto
    with x assms(1,2) show "pm u x = pm s x" unfolding wrote_def by simp
  qed
qed

lemma moved_child:
  assumes ok: "plain_ok avail (Suc h) p s" and i: "i \<in> live (pm s) p"
    and mv: "moved avail h (slot (pm s) p i) s q' t"
    and sl: "\<And>j. j < FANOUT \<Longrightarrow> slot (pm t) p j = (if j = i then q' else slot (pm s) p j)"
    and wr: "wrote avail (insert p (tree_nodes h (pm s) (slot (pm s) p i))) s t"
  shows "moved avail (Suc h) p s p t"
proof -
  let ?m = "pm s" and ?m' = "pm t" and ?q = "slot (pm s) p i" and ?G = "got avail s t"
  have wf: "tree_wf (Suc h) ?m p" using ok by (simp add: plain_ok_def)
  have gb: "?G \<inter> tree_blocks (Suc h) ?m p = {}"
    using got_avail [of avail s t] ok unfolding plain_ok_def by blast
  have mvs: "tree_wf h ?m' q'" "tree_nodes h ?m' q' \<subseteq> tree_nodes h ?m ?q \<union> ?G"
    "tree_blocks h ?m' q' \<subseteq> tree_blocks h ?m ?q \<union> ?G" "kernel_same s t" "avail t \<subseteq> avail s"
    using mv by (auto simp: moved_def)
  have q0: "q' \<noteq> 0" using tree_wf_ptr [OF mvs(1)] by (simp add: block_ptr_def)
  have lv: "live ?m' p = live ?m p" using sl i q0 by (auto simp: live_def split: if_splits)
  have sli: "slot ?m' p i = q'" "j \<in> live ?m p \<Longrightarrow> j \<noteq> i \<Longrightarrow> slot ?m' p j = slot ?m p j" for j
    using sl live_less i by auto
  have sibx: "?m' x = ?m x" if j: "j \<in> live ?m p" "j \<noteq> i" and x: "page_of x \<in> tree_blocks h ?m (slot ?m p j)" for j x
  proof -
    have "page_of x \<noteq> p" using wf j(1) x by auto
    moreover have "tree_blocks h ?m ?q \<inter> tree_blocks h ?m (slot ?m p j) = {}" using wf i j by simp
    then have "page_of x \<notin> tree_nodes h ?m ?q" using x tree_nodes_sub(1) [of h ?m ?q] by blast
    moreover have "page_of x \<notin> ?G" using gb j(1) x by auto
    ultimately show ?thesis using wr by (simp add: wrote_def)
  qed
  have sib: "tree_wf h ?m' (slot ?m p j)" "tree_nodes h ?m' (slot ?m p j) = tree_nodes h ?m (slot ?m p j)"
      "tree_blocks h ?m' (slot ?m p j) = tree_blocks h ?m (slot ?m p j)"
      "n < FANOUT ^ h \<Longrightarrow> tree_lookup h ?m' (slot ?m p j) n = tree_lookup h ?m (slot ?m p j) n"
    if j: "j \<in> live ?m p" "j \<noteq> i" for j n
  proof -
    have w: "tree_wf h ?m (slot ?m p j)" using wf j by simp
    have e: "?m' x = ?m x" if "page_of x \<in> tree_nodes h ?m (slot ?m p j)" for x
      using sibx [OF j] that tree_nodes_sub(1) [of h ?m "slot ?m p j"] by blast
    show "tree_wf h ?m' (slot ?m p j)" "tree_nodes h ?m' (slot ?m p j) = tree_nodes h ?m (slot ?m p j)"
      "tree_blocks h ?m' (slot ?m p j) = tree_blocks h ?m (slot ?m p j)"
      "n < FANOUT ^ h \<Longrightarrow> tree_lookup h ?m' (slot ?m p j) n = tree_lookup h ?m (slot ?m p j) n"
      using tree_cong [OF w e] by auto
  qed
  have cj: "tree_wf h ?m' (slot ?m' p j)" "tree_nodes h ?m' (slot ?m' p j) \<subseteq> tree_nodes h ?m (slot ?m p j) \<union> ?G"
    "tree_blocks h ?m' (slot ?m' p j) \<subseteq> tree_blocks h ?m (slot ?m p j) \<union> ?G"
    if "j \<in> live ?m p" for j
    using mvs sib [OF that] sli that by (cases "j = i"; simp)+
  have "tree_wf (Suc h) ?m' p"
  proof -
    have "p \<notin> tree_blocks h ?m' (slot ?m' p j)" if "j \<in> live ?m p" for j
      using cj(3) [OF that] gb wf that by auto
    moreover have "tree_blocks h ?m' (slot ?m' p j) \<inter> tree_blocks h ?m' (slot ?m' p k) = {}"
      if "j \<in> live ?m p" "k \<in> live ?m p" "j \<noteq> k" for j k
    proof -
      have d: "tree_blocks h ?m (slot ?m p j) \<inter> tree_blocks h ?m (slot ?m p k) = {}" using wf that by simp
      have g: "?G \<inter> tree_blocks h ?m (slot ?m p l) = {}" if "l \<in> live ?m p" for l using gb that by auto
      show ?thesis
      proof (cases "j = i")
        case True
        with that have "k \<noteq> i" by simp
        with True show ?thesis using d g [OF that(2)] sib(3) [OF that(2)] sli(2) [OF that(2)] mvs(3) sli(1) by auto
      next
        case False
        with that show ?thesis using d g [OF that(1)] sib(3) [OF that(1)] sli(2) [OF that(1)] cj(3) [OF that(2)] by auto
      qed
    qed
    ultimately show ?thesis using wf cj(1) by (simp add: lv del: tree_blocks_simps)
  qed
  moreover have "tree_nodes (Suc h) ?m' p \<subseteq> tree_nodes (Suc h) ?m p \<union> ?G"
    "tree_blocks (Suc h) ?m' p \<subseteq> tree_blocks (Suc h) ?m p \<union> ?G"
    using cj(2,3) by (simp_all add: lv) blast+
  moreover have "same_page ?m (tree_lookup (Suc h) ?m p n) ?m' (tree_lookup (Suc h) ?m' p n)" if n: "n < FANOUT ^ Suc h" for n
  proof -
    let ?j = "n div FANOUT ^ h" and ?k = "n mod FANOUT ^ h"
    have k: "?k < FANOUT ^ h" by simp
    consider "?j = i" | "?j \<in> live ?m p" "?j \<noteq> i" | "?j \<notin> live ?m p" by blast
    then show ?thesis
    proof cases
      case 1
      with mv k i sli(1) show ?thesis unfolding lookup_Suc_live [OF n] lv by (simp add: moved_def)
    next
      case 2
      have eq: "tree_lookup h ?m' (slot ?m' p ?j) ?k = tree_lookup h ?m (slot ?m p ?j) ?k"
        using sib(4) [OF 2 k] sli(2) [OF 2] by simp
      have "same_page ?m a ?m' a" if a: "a = tree_lookup h ?m (slot ?m p ?j) ?k" for a
      proof (cases "a = 0")
        case False
        have w: "tree_wf h ?m (slot ?m p ?j)" using wf 2 by simp
        have b: "a \<in> tree_blocks h ?m (slot ?m p ?j)"
          using tree_lookup_data [OF w k] False a tree_nodes_sub(2) by blast
        show ?thesis
          by (rule same_page_keep [OF tree_blocks_ptr [OF w b]], rule sibx [OF 2]) (simp only: b)
      qed (simp add: same_page_def)
      then show ?thesis using 2 eq unfolding lookup_Suc_live [OF n] lv by simp
    next
      case 3
      then show ?thesis unfolding lookup_Suc_live [OF n] lv by simp
    qed
  qed
  ultimately show ?thesis using mvs(4,5) unfolding moved_def by blast
qed

section \<open>A copied page\<close>

lemma copy_out: "block_ptr d \<Longrightarrow> page_of x \<noteq> d \<Longrightarrow> mem_copy m d a 4096 x = m x"
  using page_of_in [of d x] by (force simp: block_ptr_def mem_copy_def)

text \<open>A block that was copied to a new one, with every other page of the tree unchanged.\<close>

lemma moved_copy:
  assumes ok: "plain_ok avail h q s" and b: "b \<in> avail s" "avail t = avail s - {b}" and k: "kernel_same s t"
    and cp: "\<And>x. x < 4096 \<Longrightarrow> pm t (b * 4096 + x) = pm s (q + x)"
    and keep: "\<And>x. page_of x \<in> tree_blocks h (pm s) q \<Longrightarrow> page_of x \<noteq> q \<Longrightarrow> pm t x = pm s x"
  shows "moved avail h q s (b * 4096) t"
proof -
  let ?b = "b * 4096"
  have got: "got avail s t = {?b}" using b by (auto simp: got_def)
  have wf: "tree_wf h (pm s) q" using ok by (simp add: plain_ok_def)
  have nb: "?b \<notin> tree_blocks h (pm s) q" and ptr: "block_ptr ?b"
    using ok b(1) by (auto simp: plain_ok_def block_ptr_def)
  have b0: "?b \<noteq> 0" using ptr by (simp add: block_ptr_def)
  show ?thesis
  proof (cases h)
    case 0
    have "q \<noteq> 0" using wf 0 by (simp add: block_ptr_def)
    then have "same_page (pm s) q (pm t) ?b" using b0 cp by (simp add: same_page_def)
    then show ?thesis using 0 ptr k b got by (auto simp: moved_def)
  next
    case (Suc g)
    have wq: "tree_wf (Suc g) (pm s) q" using wf Suc by simp
    have sl: "slot (pm t) ?b j = slot (pm s) q j" if j: "j < FANOUT" for j
      unfolding slot_def
    proof -
      have "pm t (?b + (8 * j + k)) = pm s (q + (8 * j + k))" if "k < 8" for k
        using j that by (intro cp) (simp add: FANOUT_def)
      then have "le_load n (pm t) (?b + (8 * j + k)) = le_load n (pm s) (q + (8 * j + k))" if "k + n = 8" for n k
        using that
      proof (induction n arbitrary: k)
        case (Suc n)
        from Suc.IH [OF Suc.prems(1), of "Suc k"] Suc.prems show ?case by simp
      qed simp
      from this [of 0 8] show "le_load 8 (pm t) (?b + 8 * j) = le_load 8 (pm s) (q + 8 * j)" by simp
    qed
    have lv: "live (pm t) ?b = live (pm s) q" using sl by (auto simp: live_def)
    have slj: "j \<in> live (pm s) q \<Longrightarrow> slot (pm t) ?b j = slot (pm s) q j" for j using sl live_less by blast
    have ch: "pm t x = pm s x" if j: "j \<in> live (pm s) q" and x: "page_of x \<in> tree_blocks g (pm s) (slot (pm s) q j)" for j x
    proof (rule keep)
      show "page_of x \<in> tree_blocks h (pm s) q" using j x Suc by auto
      show "page_of x \<noteq> q" using wq j x by auto
    qed
    have cc: "tree_wf g (pm t) (slot (pm s) q j)" "tree_nodes g (pm t) (slot (pm s) q j) = tree_nodes g (pm s) (slot (pm s) q j)"
      "tree_blocks g (pm t) (slot (pm s) q j) = tree_blocks g (pm s) (slot (pm s) q j)"
      "n < FANOUT ^ g \<Longrightarrow> tree_lookup g (pm t) (slot (pm s) q j) n = tree_lookup g (pm s) (slot (pm s) q j) n"
      if j: "j \<in> live (pm s) q" for j n
    proof -
      have w: "tree_wf g (pm s) (slot (pm s) q j)" using wq j by simp
      have e: "pm t x = pm s x" if "page_of x \<in> tree_nodes g (pm s) (slot (pm s) q j)" for x
        using ch [OF j] that tree_nodes_sub(1) [of g "pm s" "slot (pm s) q j"] by blast
      show "tree_wf g (pm t) (slot (pm s) q j)" "tree_nodes g (pm t) (slot (pm s) q j) = tree_nodes g (pm s) (slot (pm s) q j)"
        "tree_blocks g (pm t) (slot (pm s) q j) = tree_blocks g (pm s) (slot (pm s) q j)"
        "n < FANOUT ^ g \<Longrightarrow> tree_lookup g (pm t) (slot (pm s) q j) n = tree_lookup g (pm s) (slot (pm s) q j) n"
        using tree_cong [OF w e] by auto
    qed
    have bj: "?b \<notin> tree_blocks g (pm s) (slot (pm s) q j)" if "j \<in> live (pm s) q" for j using nb that Suc by auto
    have "tree_wf (Suc g) (pm t) ?b"
      using wq ptr cc bj slj by (simp add: lv del: tree_blocks_simps)
    moreover have "tree_nodes (Suc g) (pm t) ?b \<subseteq> tree_nodes (Suc g) (pm s) q \<union> {?b}"
      "tree_blocks (Suc g) (pm t) ?b \<subseteq> tree_blocks (Suc g) (pm s) q \<union> {?b}"
      using cc(2,3) slj by (auto simp: lv)
    moreover have "same_page (pm s) (tree_lookup (Suc g) (pm s) q n) (pm t) (tree_lookup (Suc g) (pm t) ?b n)"
      if n: "n < FANOUT ^ Suc g" for n
    proof (cases "n div FANOUT ^ g \<in> live (pm s) q")
      case True
      let ?a = "tree_lookup g (pm s) (slot (pm s) q (n div FANOUT ^ g)) (n mod FANOUT ^ g)"
      have w: "tree_wf g (pm s) (slot (pm s) q (n div FANOUT ^ g))" using wq True by simp
      have "same_page (pm s) ?a (pm t) ?a"
      proof (cases "?a = 0")
        case False
        then have d: "?a \<in> tree_blocks g (pm s) (slot (pm s) q (n div FANOUT ^ g))"
          using tree_lookup_data [OF w, of "n mod FANOUT ^ g"] tree_nodes_sub(2) by fastforce
        show ?thesis
          by (rule same_page_keep [OF tree_blocks_ptr [OF w d]], rule ch [OF True]) (simp only: d)
      qed (simp add: same_page_def)
      with True cc(4) [OF True] slj [OF True] show ?thesis unfolding lookup_Suc_live [OF n] lv by simp
    next
      case False
      then show ?thesis unfolding lookup_Suc_live [OF n] lv by simp
    qed
    ultimately show ?thesis using k b got Suc unfolding moved_def by auto
  qed
qed


section \<open>The lookup\<close>

lemma copy_same [simp]:
  "alloc_same s (memcpy_page s d a True)" "kernel_same s (memcpy_page s d a True)"
  "pm (memcpy_page s d a True) = (if d = a then pm s else mem_copy (pm s) d a 4096)"
  by (simp_all add: memcpy_page_def PM_MEMCPY_def)

lemma block_ptr_word:
  assumes "block_ptr q"
  shows "unat (of_nat q :: 64 word) = q" "wpmfs_get_block s (of_nat q) = Some (virt_addr s + q)"
    "wpmfs_get_pfn s (of_nat q) = Some (phys_addr s div 4096 + q div 4096)"
proof -
  have q: "0 < q" "q < 2 ^ 44" and d: "q div 4096 * 4096 = q" using assms by (auto simp: block_ptr_def)
  then show u: "unat (of_nat q :: 64 word) = q" by (simp add: unat_of_nat)
  have w: "of_nat q = wb_make q 0"
    by (rule word_unat_eq_iff [THEN iffD2]) (use q u in \<open>simp add: unat_wb_make_0\<close>)
  show "wpmfs_get_block s (of_nat q) = Some (virt_addr s + q)" using q get_block_direct [of q s] by (simp add: w)
  have "q div 4096 < 2 ^ 45" using q by simp
  from get_pfn_direct [OF this, of s] show "wpmfs_get_pfn s (of_nat q) = Some (phys_addr s div 4096 + q div 4096)"
    unfolding d w .
qed

definition tired :: "wpmfs \<Rightarrow> nat \<Rightarrow> bool" where
  "tired s q \<longleftrightarrow> wpmfs_page_marks s (q div 4096) AND WPMFS_PAGE_TIRED \<noteq> 0"

lemma retrieve_cases:
  assumes "le_load 8 (pm s) sl = 0 \<or> block_ptr (le_load 8 (pm s) sl)"
  shows "wpmfs_retrieve_datablk A s sl =
    (let q = le_load 8 (pm s) sl
     in if q = 0 then Some (0, s) else if \<not> tired s q then Some (q, s)
     else map_option (\<lambda>(bo, s'). (unat bo, s')) (wpmfs_replace_tired_page A s sl))"
  using assms by (auto simp: wpmfs_retrieve_datablk_def Let_def block_ptr_word tired_def)

context tree_allocator
begin

text \<open>
  One step: the slot is a hole, or its page is kept, or it is copied to a block that was free.  With
  the allocator exhausted the lookup reports a hole or stops.
\<close>

lemma replace_tired_ok:
  assumes ok: "plain_ok avail (Suc h) p s" and inv: "invar s" and i: "i \<in> live (pm s) p"
    and r: "wpmfs_replace_tired_page A s (p + 8 * i) = Some (bo, t)" and bo: "bo \<noteq> 0"
  shows "invar t \<and> moved avail h (slot (pm s) p i) s (unat bo) t \<and> wrote avail {p} s t \<and>
    (\<forall>j < FANOUT. slot (pm t) p j = (if j = i then unat bo else slot (pm s) p j))"
proof -
  let ?q = "slot (pm s) p i"
  obtain x s1 where n: "af_new_block A s 0 False = Some (x, s1)" "invar s1" "kernel_same s s1"
    "\<And>e. x = Inl e \<Longrightarrow> avail s1 = avail s \<and> pm s1 = pm s"
    "\<And>b. x = Inr b \<Longrightarrow> b \<in> avail s \<and> avail s1 = avail s - {b} \<and> may_free s1 b \<and> pm s1 = pm s"
    by (rule new_any [OF inv, of False]) auto
  from r bo n(1) obtain b where x: "x = Inr b" by (auto simp: wpmfs_replace_tired_page_def split: sum.splits if_splits)
  note b = n(5) [OF x]
  have db: "direct_block b" using ok b by (simp add: plain_ok_def)
  then have bp: "block_ptr (b * 4096)" by (auto simp: block_ptr_def)
  have wf: "tree_wf (Suc h) (pm s) p" using ok by (simp add: plain_ok_def)
  then have qp: "block_ptr ?q" and pp: "block_ptr p" using i tree_wf_ptr [of h "pm s" ?q] by auto
  have dir: "direct_ok s1" using direct_ok_same [OF n(3)] ok by (simp add: plain_ok_def)
  note off = node_va_direct(2) [OF dir]
  have nb: "b * 4096 \<notin> tree_blocks (Suc h) (pm s) p" using ok b by (auto simp: plain_ok_def)
  have pq: "p \<noteq> ?q" "p \<noteq> b * 4096" "?q \<noteq> b * 4096"
    using wf nb i tree_root_block [of ?q h "pm s"] by auto
  let ?u = "memcpy_page s1 (b * 4096) ?q True"
  have ld: "le_load 8 (pm s1) (p + 8 * i) = ?q" using b by (simp add: slot_def)
  have t: "bo = of_nat (b * 4096)" "t = PM_EQU 8 ?u (p + 8 * i) (b * 4096)"
    using r n(1) block_ptr_word(2) [OF qp, of s1] block_ptr_word(2) [OF bp, of s1] block_ptr_word(1) [OF bp] off [OF qp] off [OF bp] ld
    by (auto simp: wpmfs_replace_tired_page_def x Let_def)
  have ub: "unat bo = b * 4096" unfolding t(1) by (rule block_ptr_word(1) [OF bp])
  have mem: "pm t = le_store 8 (mem_copy (pm s) (b * 4096) ?q 4096) (p + 8 * i) (b * 4096)"
    unfolding t(2) using b pq(3) by simp
  have i': "i < FANOUT" using i live_less by blast
  have lt: "b * 4096 < 2 ^ 64" using db by simp
  have same: "alloc_same s1 t" "kernel_same s1 t"
    unfolding t(2) using alloc_same_trans [OF copy_same(1)] kernel_same_trans [OF copy_same(2)] store_same by blast+
  note cc = contract_cong [OF same(1)] and ks = kernel_same_trans [OF n(3) same(2)]
  have out: "pm t y = pm s y" if "page_of y \<noteq> p" "page_of y \<noteq> b * 4096" for y
    unfolding mem using that store_out [OF pp i'] copy_out [OF bp] by simp
  have got: "got avail s t = {b * 4096}" using b cc by (auto simp: got_def)
  have sl: "slot (pm t) p j = (if j = i then b * 4096 else slot (pm s) p j)" if j: "j < FANOUT" for j
    using slot_other_page [OF pp j, of "mem_copy (pm s) (b * 4096) ?q 4096" "pm s"] copy_out [OF bp] pq(2)
    by (simp add: mem slot_store [OF lt])
  have "moved avail h ?q s (b * 4096) t"
  proof (rule moved_copy)
    show "plain_ok avail h ?q s" using ok i by (auto simp: plain_ok_def)
    show "b \<in> avail s" "avail t = avail s - {b}" "kernel_same s t" using b cc ks by auto
    show "pm t (b * 4096 + y) = pm s (?q + y)" if y: "y < 4096" for y
    proof -
      have "page_of (b * 4096 + y) = b * 4096" by (rule page_of_in) (use y in auto)
      then show ?thesis unfolding mem using store_out [OF pp i'] pq(2) y by simp
    qed
    show "pm t y = pm s y" if "page_of y \<in> tree_blocks h (pm s) ?q" "page_of y \<noteq> ?q" for y
    proof (rule out)
      show "page_of y \<noteq> p" using wf i that(1) by auto
      show "page_of y \<noteq> b * 4096" using nb i that(1) by auto
    qed
  qed
  moreover have "wrote avail {p} s t" using out got by (simp add: wrote_def)
  ultimately show ?thesis using n(2) cc sl ub by simp
qed

lemma replace_tired_fails:
  assumes inv: "invar s" and r: "wpmfs_replace_tired_page A s sl = Some (0, t)" and sl: "block_ptr (le_load 8 (pm s) sl)"
    and dir: "\<forall>b\<in>avail s. direct_block b"
  shows "invar t \<and> kernel_same s t \<and> avail t = avail s \<and> pm t = pm s"
proof -
  obtain x s1 where n: "af_new_block A s 0 False = Some (x, s1)" "invar s1" "kernel_same s s1"
    "\<And>e. x = Inl e \<Longrightarrow> avail s1 = avail s \<and> pm s1 = pm s"
    "\<And>b. x = Inr b \<Longrightarrow> b \<in> avail s \<and> avail s1 = avail s - {b} \<and> may_free s1 b \<and> pm s1 = pm s"
    by (rule new_any [OF inv, of False]) auto
  show ?thesis
  proof (cases x)
    case (Inl e)
    with r n show ?thesis by (auto simp: wpmfs_replace_tired_page_def split: if_splits)
  next
    case (Inr b)
    with n(5) dir have bp: "block_ptr (b * 4096)" by (auto simp: block_ptr_def)
    have "of_nat (b * 4096) \<noteq> (0 :: 64 word)" using block_ptr_word(1) [OF bp] bp by (auto simp: block_ptr_def)
    with r n(1) Inr block_ptr_word(2) [OF bp, of s1] show ?thesis
      by (auto simp: wpmfs_replace_tired_page_def Let_def split: option.splits)
  qed
qed

lemma find_data_loop_ok:
  "plain_ok avail h p s \<Longrightarrow> invar s \<Longrightarrow> n < FANOUT ^ h \<Longrightarrow> find_data_loop A h p n s = Some (bp, t) \<Longrightarrow>
    invar t \<and> moved avail h p s p t \<and> wrote avail (tree_nodes h (pm s) p) s t \<and>
    (bp = tree_lookup h (pm t) p n \<or> bp = 0)"
proof (induction h arbitrary: p n s bp t)
  case 0
  then show ?case using moved_refl [OF 0(1)] by (simp add: wrote_def)
next
  case (Suc h)
  note ok = Suc.prems(1) and inv = Suc.prems(2)
  have wf: "tree_wf (Suc h) (pm s) p" and dir: "direct_ok s" using ok by (auto simp: plain_ok_def)
  have pp: "block_ptr p" using tree_wf_ptr [OF wf] .
  let ?i = "n div FANOUT ^ h" and ?k = "n mod FANOUT ^ h"
  have i: "?i < FANOUT" and k: "?k < FANOUT ^ h" using Suc.prems(3) by (simp_all add: less_mult_imp_div_less mult.commute)
  let ?q = "slot (pm s) p ?i"
  have sl: "le_load 8 (pm s) (p + 8 * ?i) = ?q" by (simp add: slot_def)
  have qc: "?q = 0 \<or> block_ptr ?q" using wf i tree_wf_ptr [of h "pm s" ?q] by (auto simp: live_def)
  note ret = retrieve_cases [where sl = "p + 8 * ?i" and s = s and A = A, unfolded sl, OF qc]
  have run: "find_data_loop A (Suc h) p n s = (case wpmfs_retrieve_datablk A s (p + 8 * ?i) of None \<Rightarrow> None
      | Some (bp', s') \<Rightarrow> if bp' = 0 then Some (0, s') else find_data_loop A h bp' ?k s')"
    using node_va_direct(3) [OF dir pp] by (auto split: option.split)
  show ?case
  proof (cases "?q = 0")
    case True
    then have "bp = 0" "t = s" using Suc.prems(4) unfolding run ret by (auto simp: Let_def)
    then show ?thesis using inv moved_refl [OF ok] by (simp add: wrote_def)
  next
    case False
    then have il: "?i \<in> live (pm s) p" using i by (simp add: live_def)
    obtain bp' s' where r: "wpmfs_retrieve_datablk A s (p + 8 * ?i) = Some (bp', s')"
      using Suc.prems(4) unfolding run by (auto split: option.splits)
    have step: "invar s' \<and> moved avail h ?q s bp' s' \<and> wrote avail {p} s s' \<and>
        (\<forall>j < FANOUT. slot (pm s') p j = (if j = ?i then bp' else slot (pm s) p j))" if "bp' \<noteq> 0"
    proof (cases "tired s ?q")
      case True
      with r False obtain bo where bo: "wpmfs_replace_tired_page A s (p + 8 * ?i) = Some (bo, s')" "bp' = unat bo"
        unfolding ret by (auto simp: Let_def)
      with that have "bo \<noteq> 0" by auto
      from replace_tired_ok [OF ok inv il bo(1) this] bo(2) show ?thesis by simp
    next
      case False
      with r \<open>?q \<noteq> 0\<close> have e: "bp' = ?q" "s' = s" unfolding ret by (auto simp: Let_def)
      have "plain_ok avail h ?q s" using ok il by (auto simp: plain_ok_def)
      from moved_refl [OF this] inv show ?thesis unfolding e by (simp add: wrote_def)
    qed
    have child: "plain_ok avail h ?q s" using ok il by (auto simp: plain_ok_def)
    show ?thesis
    proof (cases "bp' = 0")
      case True
      then have e: "bp = 0" "t = s'" using Suc.prems(4) unfolding run r by auto
      have "wpmfs_replace_tired_page A s (p + 8 * ?i) = Some (0, s')"
        using r True False qc unfolding ret by (auto simp: Let_def split: if_splits) (metis unat_eq_zero)
      then have f: "invar s' \<and> kernel_same s s' \<and> avail s' = avail s \<and> pm s' = pm s"
        using replace_tired_fails [OF inv] False qc ok by (simp add: sl plain_ok_def)
      then have "moved avail (Suc h) p s p s'" using wf by (auto simp: moved_def simp del: tree_nodes.simps tree_blocks_simps tree_lookup.simps)
      with f e show ?thesis by (simp add: wrote_def)
    next
      case False
      note st = step [OF False]
      then have ok': "plain_ok avail h bp' s'" using moved_ok [OF child] by blast
      have go: "find_data_loop A h bp' ?k s' = Some (bp, t)" using Suc.prems(4) False unfolding run r by simp
      note IH = Suc.IH [OF ok' _ k go]
      then have rec: "invar t" "moved avail h bp' s' bp' t" "wrote avail (tree_nodes h (pm s') bp') s' t"
        "bp = tree_lookup h (pm t) bp' ?k \<or> bp = 0" using st by auto
      have av: "avail s' \<subseteq> avail s" "avail t \<subseteq> avail s'"
        and nd: "tree_nodes h (pm s') bp' \<subseteq> tree_nodes h (pm s) ?q \<union> got avail s s'"
        using st rec(2) by (auto simp: moved_def)
      have wr: "wrote avail (insert p (tree_nodes h (pm s) ?q)) s t"
        by (rule wrote_trans [OF _ rec(3) _ av]) (use st nd in \<open>auto simp: wrote_def\<close>)
      have mv: "moved avail h ?q s bp' t" using st rec(2) moved_trans by blast
      have top: "pm t x = pm s' x" if "page_of x = p" for x
      proof -
        have g: "p \<notin> got avail s t"
          using ok got_avail [of avail s t] tree_root_block [of p "Suc h" "pm s"] by (auto simp: plain_ok_def)
        have "p \<notin> tree_nodes h (pm s') bp'"
          using nd g got_sub [of avail, OF av(2,1)] wf il tree_nodes_sub(1) [of h "pm s" ?q] by auto
        with g rec(3) that got_sub [of avail, OF av(2,1)] show ?thesis by (simp add: wrote_def)
      qed
      have slt: "slot (pm t) p j = (if j = ?i then bp' else slot (pm s) p j)" if "j < FANOUT" for j
        using slot_cong [OF pp that top] st that by simp
      have res: "moved avail (Suc h) p s p t" by (rule moved_child [OF ok il mv slt wr])
      have "wrote avail (tree_nodes (Suc h) (pm s) p) s t" using wr il by (auto simp: wrote_def)
      moreover have "?i \<in> live (pm t) p" using slt [OF i] i False by (simp add: live_def)
      then have "tree_lookup (Suc h) (pm t) p n = tree_lookup h (pm t) bp' ?k"
        unfolding lookup_Suc_live [OF Suc.prems(3)] using slt [OF i] by simp
      ultimately show ?thesis using rec(1,4) res by metis
    qed
  qed
qed

end

section \<open>Lookups that always succeed\<close>

text \<open>An allocator that serves a block while it has one, which both allocators do for single pages.\<close>

locale steady_allocator = tree_allocator +
  assumes new_steady: "invar s \<Longrightarrow> avail s \<noteq> {} \<Longrightarrow> \<exists>b s'. new_block s = (Inr b, s')"

interpretation pmfs_steady: steady_allocator pmfs_allocator "\<lambda>s. list_inv s \<and> kmem_ok s" list_avail
  "\<lambda>s b. list_may_free s b 1" "\<lambda>s. pmfs_new_block s 0 False" "\<lambda>s b. pmfs_free_block s b 0"
proof unfold_locales
  show "\<exists>b s'. pmfs_new_block s 0 False = (Inr b, s')" if "list_inv s \<and> kmem_ok s" "list_avail s \<noteq> {}" for s
  proof -
    from that obtain y where "y \<in> list_avail s" by blast
    with that pmfs_new_block_first_fit [of s 0 y False] show ?thesis by auto
  qed
qed

interpretation wear_steady: steady_allocator wpmfs_allocator bins_inv bins_avail bins_may_free "wear_new False" wear_free
proof unfold_locales
  show "\<exists>b s'. wear_new False s = (Inr b, s')" if "bins_inv s" "bins_avail s \<noteq> {}" for s
    using that wpmfs_new_block_err [OF that(1), of False] wear_new_eq [of s False]
    by (cases "wear_new False s"; cases "fst (wear_new False s)") auto
qed

lemma plain_loop:
  assumes "plain_ok avail h p s" "n < FANOUT ^ h"
    and "\<And>q. q \<in> tree_blocks h (pm s) p \<Longrightarrow> \<not> tired s q"
  shows "find_data_loop A h p n s = Some (tree_lookup h (pm s) p n, s)"
  using assms
proof (induction h arbitrary: p n)
  case (Suc h)
  let ?i = "n div FANOUT ^ h" and ?q = "slot (pm s) p (n div FANOUT ^ h)"
  have i: "?i < FANOUT" using Suc.prems(2) by (simp add: less_mult_imp_div_less mult.commute)
  have wf: "tree_wf (Suc h) (pm s) p" and dir: "direct_ok s" using Suc.prems(1) by (auto simp: plain_ok_def)
  have sl: "le_load 8 (pm s) (p + 8 * ?i) = ?q" by (simp add: slot_def)
  have qc: "?q = 0 \<or> block_ptr ?q" using wf i tree_wf_ptr [of h "pm s" ?q] by (auto simp: live_def)
  note ret = retrieve_cases [where sl = "p + 8 * ?i" and s = s and A = A, unfolded sl, OF qc]
  have nt: "\<not> tired s ?q" if "?q \<noteq> 0"
    using Suc.prems(3) [of ?q] i that tree_root_block [of ?q h "pm s"] by (auto simp: live_def)
  have "find_data_loop A h ?q (n mod FANOUT ^ h) s = Some (tree_lookup h (pm s) ?q (n mod FANOUT ^ h), s)" if "?q \<noteq> 0"
  proof (rule Suc.IH)
    have "?i \<in> live (pm s) p" using i that by (simp add: live_def)
    then show "plain_ok avail h ?q s" using Suc.prems(1) by (auto simp: plain_ok_def)
    show "q \<in> tree_blocks h (pm s) ?q \<Longrightarrow> \<not> tired s q" for q
      using Suc.prems(3) [of q] i that by (auto simp: live_def)
  qed simp
  with nt show ?case
    using node_va_direct(3) [OF dir tree_wf_ptr [OF wf]] by (simp add: ret Let_def)
qed simp

context steady_allocator
begin

lemma replace_tired_some:
  assumes ok: "plain_ok avail (Suc h) p s" and inv: "invar s" and i: "i \<in> live (pm s) p" and av: "avail s \<noteq> {}"
  shows "\<exists>bo t. wpmfs_replace_tired_page A s (p + 8 * i) = Some (bo, t) \<and> bo \<noteq> 0 \<and> (\<exists>b\<in>avail s. avail t = avail s - {b})"
proof -
  obtain b s1 where n: "new_block s = (Inr b, s1)" using new_steady [OF inv av] by blast
  then have f: "af_new_block A s 0 False = Some (Inr b, s1)" "b \<in> avail s" "avail s1 = avail s - {b}" "pm s1 = pm s"
    using new_op [of s] new_ok [OF inv n] new_frame [OF n] by (auto simp: same_memory_def)
  have bp: "block_ptr (b * 4096)" and qp: "block_ptr (slot (pm s) p i)"
    using ok i f(2) tree_wf_ptr [of h "pm s" "slot (pm s) p i"] by (auto simp: plain_ok_def block_ptr_def)
  have b0: "of_nat (b * 4096) \<noteq> (0 :: 64 word)" using block_ptr_word(1) [OF bp] bp by (auto simp: block_ptr_def)
  let ?t = "PM_EQU 8 (memcpy_page s1 (va_off s1 (virt_addr s1 + b * 4096)) (va_off s1 (virt_addr s1 + slot (pm s) p i)) True)
      (p + 8 * i) (b * 4096)"
  have r: "wpmfs_replace_tired_page A s (p + 8 * i) = Some (of_nat (b * 4096), ?t)"
    using f(1,4) block_ptr_word(1,2) [OF bp] block_ptr_word(2) [OF qp, of s1]
    by (simp add: wpmfs_replace_tired_page_def Let_def slot_def del: of_nat_mult)
  have "alloc_same s1 ?t" by (rule alloc_same_trans [OF copy_same(1) store_same(1)])
  then have "avail ?t = avail s - {b}" using contract_cong f(3) by simp
  with r b0 f(2) show ?thesis by blast
qed

lemma find_data_loop_total:
  "plain_ok avail h p s \<Longrightarrow> invar s \<Longrightarrow> n < FANOUT ^ h \<Longrightarrow> h \<le> card (avail s) \<Longrightarrow>
    \<exists>t. find_data_loop A h p n s = Some (tree_lookup h (pm t) p n, t)"
proof (induction h arbitrary: p n s)
  case (Suc h)
  note ok = Suc.prems(1) and inv = Suc.prems(2)
  have wf: "tree_wf (Suc h) (pm s) p" and dir: "direct_ok s" using ok by (auto simp: plain_ok_def)
  have pp: "block_ptr p" using tree_wf_ptr [OF wf] .
  let ?i = "n div FANOUT ^ h" and ?k = "n mod FANOUT ^ h"
  have i: "?i < FANOUT" and k: "?k < FANOUT ^ h" using Suc.prems(3) by (simp_all add: less_mult_imp_div_less mult.commute)
  let ?q = "slot (pm s) p ?i"
  have sl: "le_load 8 (pm s) (p + 8 * ?i) = ?q" by (simp add: slot_def)
  have qc: "?q = 0 \<or> block_ptr ?q" using wf i tree_wf_ptr [of h "pm s" ?q] by (auto simp: live_def)
  note ret = retrieve_cases [where sl = "p + 8 * ?i" and s = s and A = A, unfolded sl, OF qc]
  have run: "find_data_loop A (Suc h) p n s = (case wpmfs_retrieve_datablk A s (p + 8 * ?i) of None \<Rightarrow> None
      | Some (bp', s') \<Rightarrow> if bp' = 0 then Some (0, s') else find_data_loop A h bp' ?k s')"
    using node_va_direct(3) [OF dir pp] by (auto split: option.split)
  show ?case
  proof (cases "?q = 0")
    case True
    then show ?thesis unfolding run ret by (simp add: Let_def)
  next
    case False
    then have il: "?i \<in> live (pm s) p" using i by (simp add: live_def)
    have child: "plain_ok avail h ?q s" using ok il by (auto simp: plain_ok_def)
    obtain bp' s' where r: "wpmfs_retrieve_datablk A s (p + 8 * ?i) = Some (bp', s')" "bp' \<noteq> 0"
      and st: "invar s'" "moved avail h ?q s bp' s'" "h \<le> card (avail s')"
    proof (cases "tired s ?q")
      case True
      have "avail s \<noteq> {}" using Suc.prems(4) by auto
      from replace_tired_some [OF ok inv il this] obtain bo t b where t: "wpmfs_replace_tired_page A s (p + 8 * ?i) = Some (bo, t)"
        "bo \<noteq> 0" "b \<in> avail s" "avail t = avail s - {b}" by blast
      have "moved avail h ?q s (unat bo) t" "invar t"
        using replace_tired_ok [OF ok inv il t(1,2)] by blast+
      moreover have "h \<le> card (avail t)" using Suc.prems(4) t(3,4) by (simp add: card_Diff_singleton_if)
      moreover have "wpmfs_retrieve_datablk A s (p + 8 * ?i) = Some (unat bo, t)"
        using True False t(1) unfolding ret by (simp add: Let_def)
      ultimately show ?thesis using t(2) that [of "unat bo" t] by (simp add: unat_eq_zero)
    next
      case nt: False
      with False have "wpmfs_retrieve_datablk A s (p + 8 * ?i) = Some (?q, s)" unfolding ret by (simp add: Let_def)
      with that False moved_refl [OF child] inv Suc.prems(4) show ?thesis by simp
    qed
    note ok' = moved_ok [OF child st(2)]
    obtain t where go: "find_data_loop A h bp' ?k s' = Some (tree_lookup h (pm t) bp' ?k, t)"
      using Suc.IH [OF ok' st(1) k st(3)] by blast
    then have fin: "find_data_loop A (Suc h) p n s = Some (tree_lookup h (pm t) bp' ?k, t)"
      unfolding run r by (simp add: r(2))
    show ?thesis
    proof (cases "tree_lookup h (pm t) bp' ?k = 0")
      case True
      note loop = find_data_loop_ok [OF ok inv Suc.prems(3) fin]
      have z: "tree_lookup h (pm s) ?q ?k = 0 \<longleftrightarrow> tree_lookup h (pm t) bp' ?k = 0"
        using st(2) find_data_loop_ok [OF ok' st(1) k go] k unfolding moved_def same_page_def by metis
      have "tree_lookup (Suc h) (pm s) p n = 0" using True z by (simp add: lookup_Suc_live [OF Suc.prems(3)] del: tree_lookup.simps)
      then have "tree_lookup (Suc h) (pm t) p n = 0" using loop Suc.prems(3) unfolding moved_def same_page_def by metis
      with fin True show ?thesis by simp
    next
      case False
      with find_data_loop_ok [OF ok inv Suc.prems(3) fin] fin show ?thesis by auto
    qed
  qed
qed simp

end

section \<open>Lookups in a file\<close>

lemma file_plain: "file_ok avail pi s \<Longrightarrow> pi_root s pi \<noteq> 0 \<Longrightarrow> plain_ok avail (pi_height s pi) (pi_root s pi) s"
  unfolding file_ok_def root_ok_def plain_ok_def rblocks_def by auto

lemma find_file_4k:
  "file_ok avail pi s \<Longrightarrow> find_file_block A s pi n =
    (if FANOUT ^ pi_height s pi \<le> n then Some (0, s) else find_data_loop A (pi_height s pi) (pi_root s pi) n s)"
  using file_blk_shift [of avail pi s]
  by (cases "find_data_loop A (pi_height s pi) (pi_root s pi) n s")
    (auto simp: find_file_block_def find_data_block_at_def Let_def)

text \<open>What a lookup may do to a file: its pages move, and nothing else.\<close>

definition file_moved :: "(wpmfs \<Rightarrow> nat set) \<Rightarrow> nat \<Rightarrow> wpmfs \<Rightarrow> wpmfs \<Rightarrow> bool" where
  "file_moved avail pi s t \<longleftrightarrow> file_ok avail pi t \<and> wrote avail (file_blocks s pi) s t
     \<and> (\<forall>k. same_page (pm s) (file_block s pi k) (pm t) (file_block t pi k))"

lemma file_moved_refl: "file_ok avail pi s \<Longrightarrow> file_moved avail pi s s"
  by (simp add: file_moved_def wrote_def)

lemma file_moved_tree:
  assumes ok: "file_ok avail pi s" and r: "pi_root s pi \<noteq> 0"
    and mv: "moved avail (pi_height s pi) (pi_root s pi) s (pi_root s pi) t"
    and wr: "wrote avail (tree_nodes (pi_height s pi) (pm s) (pi_root s pi)) s t"
  shows "file_moved avail pi s t \<and> pi_height t pi = pi_height s pi \<and> pi_root t pi = pi_root s pi"
proof -
  let ?h = "pi_height s pi" and ?r = "pi_root s pi"
  note D = root_okD [OF ok [unfolded file_ok_def]]
  have rb: "rblocks ?h m ?r = tree_blocks ?h m ?r" for m using r by (simp add: rblocks_def)
  have mvs: "kernel_same s t" "avail t \<subseteq> avail s" "tree_wf ?h (pm t) ?r"
    "tree_blocks ?h (pm t) ?r \<subseteq> tree_blocks ?h (pm s) ?r \<union> got avail s t"
    using mv by (auto simp: moved_def)
  have pg: "page_of pi \<notin> tree_blocks ?h (pm s) ?r" "page_of pi \<notin> got avail s t"
    using D(5) D(6) got_avail [of avail s t] unfolding rb by blast+
  have ino: "pm t x = pm s x" if "x \<in> {pi..<pi + 128}" for x
  proof -
    have "page_of x = page_of pi" by (rule page_of_inode [OF D(8)]) (use that in auto)
    then show ?thesis using wr pg tree_nodes_sub(1) [of ?h "pm s" ?r] unfolding wrote_def by (metis subsetD)
  qed
  have f: "pi_height t pi = ?h" "pi_root t pi = ?r" "pi_blk_type t pi = pi_blk_type s pi"
    unfolding pi_height_def pi_root_def pi_blk_type_def by (rule le_load_cong, rule ino, simp)+
  have "tree_blocks ?h (pm t) ?r \<inter> (\<lambda>b. b * 4096) ` avail t = {}"
    using moved_ok [OF file_plain [OF ok r] mv] by (simp add: plain_ok_def)
  moreover have "page_of pi \<notin> tree_blocks ?h (pm t) ?r" "page_of pi \<notin> (\<lambda>b. b * 4096) ` avail t"
    using mvs(2,4) pg D(6) by auto
  ultimately have "file_ok avail pi t"
    using D(7,8,9) r mvs(2,3) direct_ok_same [OF mvs(1) D(1)] unfolding file_ok_def root_ok_def f rb by auto
  moreover have "wrote avail (file_blocks s pi) s t"
    using wr tree_nodes_sub(1) [of ?h "pm s" ?r] unfolding file_blocks_def rb wrote_def by auto
  moreover have "same_page (pm s) (file_block s pi k) (pm t) (file_block t pi k)" for k
    using mv r unfolding file_block_def vlookup_def f by (auto simp: moved_def)
  ultimately show ?thesis using f by (simp add: file_moved_def)
qed

context tree_allocator
begin

theorem find_file_ok:
  assumes ok: "file_ok avail pi s" and inv: "invar s" and f: "find_file_block A s pi n = Some (bp, t)"
  shows "invar t \<and> file_moved avail pi s t \<and> (bp = file_block t pi n \<or> bp = 0)"
proof (cases "FANOUT ^ pi_height s pi \<le> n \<or> pi_root s pi = 0")
  case True
  moreover have "pi_root s pi = 0 \<Longrightarrow> pi_height s pi = 0" using root_okD(3) ok by (simp add: file_ok_def)
  ultimately have "bp = 0" "t = s" using f unfolding find_file_4k [OF ok] by (auto split: if_splits)
  then show ?thesis using inv file_moved_refl [OF ok] by simp
next
  case False
  then have n: "n < FANOUT ^ pi_height s pi" and r: "pi_root s pi \<noteq> 0" by auto
  have "find_data_loop A (pi_height s pi) (pi_root s pi) n s = Some (bp, t)"
    using f False unfolding find_file_4k [OF ok] by simp
  note l = find_data_loop_ok [OF file_plain [OF ok r] inv n this]
  with file_moved_tree [OF ok r] have m: "file_moved avail pi s t" "pi_height t pi = pi_height s pi" "pi_root t pi = pi_root s pi"
    by blast+
  with l r n show ?thesis by (simp add: file_block_def vlookup_def)
qed

end

context steady_allocator
begin

theorem find_file_total:
  assumes ok: "file_ok avail pi s" and inv: "invar s" and av: "pi_height s pi \<le> card (avail s)"
  shows "\<exists>t. find_file_block A s pi n = Some (file_block t pi n, t) \<and> invar t \<and> file_moved avail pi s t"
proof (cases "FANOUT ^ pi_height s pi \<le> n \<or> pi_root s pi = 0")
  case True
  moreover have "pi_root s pi = 0 \<Longrightarrow> pi_height s pi = 0" using root_okD(3) ok by (simp add: file_ok_def)
  ultimately have "find_file_block A s pi n = Some (0, s)" unfolding find_file_4k [OF ok] by auto
  moreover have "file_block s pi n = 0" using True by (auto simp: file_block_def vlookup_def)
  ultimately show ?thesis using inv file_moved_refl [OF ok] by auto
next
  case False
  then have n: "n < FANOUT ^ pi_height s pi" and r: "pi_root s pi \<noteq> 0" by auto
  obtain t where t: "find_data_loop A (pi_height s pi) (pi_root s pi) n s =
      Some (tree_lookup (pi_height s pi) (pm t) (pi_root s pi) n, t)"
    using find_data_loop_total [OF file_plain [OF ok r] inv n av] by blast
  note l = find_data_loop_ok [OF file_plain [OF ok r] inv n t]
  with file_moved_tree [OF ok r] have m: "file_moved avail pi s t" "pi_height t pi = pi_height s pi" "pi_root t pi = pi_root s pi"
    by blast+
  then have "file_block t pi n = tree_lookup (pi_height s pi) (pm t) (pi_root s pi) n"
    using r n by (simp add: file_block_def vlookup_def)
  with t l m(1) False find_file_4k [OF ok] show ?thesis by (intro exI [of _ t]) simp
qed

end

end
