(* ===== verification/MountBins.thy ===== *)
theory MountBins
  imports MountScan TreeLookup
begin

text \<open>
  What the scan of the wear-aware allocator marks, and which blocks the rebuilt bins hold.
\<close>

section \<open>Marking\<close>

definition blocks_of :: "nat set \<Rightarrow> nat set" where
  "blocks_of Q = (\<lambda>q. q div 4096) ` Q"

definition mark_all :: "nat set \<Rightarrow> scan_bitmap \<Rightarrow> scan_bitmap" where
  "mark_all B bm = bm\<lparr>bitmap_4k := bitmap_4k bm \<union> B\<rparr>"

lemma mark_all_simps [simp]:
  "bitmap_4k_size (mark_all B bm) = bitmap_4k_size bm" "mark_all {} bm = bm"
  "mark_all B (mark_all C bm) = mark_all (B \<union> C) bm" "bitmap_4k (mark_all B bm) = bitmap_4k bm \<union> B"
  by (auto simp: mark_all_def Un_ac)

lemma blocks_of_simps [simp]:
  "blocks_of {} = {}" "blocks_of (insert q Q) = insert (q div 4096) (blocks_of Q)"
  "blocks_of (P \<union> Q) = blocks_of P \<union> blocks_of Q" "blocks_of (\<Union>i\<in>I. f i) = (\<Union>i\<in>I. blocks_of (f i))"
  by (auto simp: blocks_of_def)

lemma mark_block_ok:
  "block_ptr q \<Longrightarrow> q div 4096 < bitmap_4k_size bm * 8 \<Longrightarrow> mark_block s q bm = Some (mark_all {q div 4096} bm)"
  by (simp add: mark_block_def block_ptr_word set_bit_4k_def mark_all_def)

text \<open>A loop whose steps each mark a set and keep everything else.\<close>

lemma loop_mark:
  assumes "\<And>i st. i \<in> set is \<Longrightarrow> P st \<Longrightarrow> \<exists>st'. f i st = Some st' \<and> P st' \<and> bits st' = bits st \<union> M i"
  shows "P st \<Longrightarrow> \<exists>st'. loop_opt f is st = Some st' \<and> P st' \<and> bits st' = bits st \<union> (\<Union>i\<in>set is. M i)"
  using assms
proof (induction "is" arbitrary: st)
  case (Cons i "is")
  obtain st1 where 1: "f i st = Some st1" "P st1" "bits st1 = bits st \<union> M i"
    using Cons.prems(2) [of i st] Cons.prems(1) by auto
  obtain st2 where "loop_opt f is st1 = Some st2" "P st2" "bits st2 = bits st1 \<union> (\<Union>i\<in>set is. M i)"
    using Cons.IH [OF 1(2)] Cons.prems(2) by auto
  with 1 show ?case by (auto simp: Un_ac)
qed auto

lemma node_at_direct: "direct_ok s \<Longrightarrow> block_ptr p \<Longrightarrow> node_at s (virt_addr s + p) i = slot (pm s) p i"
  using node_va_direct(2) [of s p] by (simp add: node_at_def slot_def)

lemma crawl_marks:
  "direct_ok s \<Longrightarrow> tree_wf h (pm s) p \<Longrightarrow> \<forall>q\<in>tree_blocks h (pm s) p. q div 4096 < bitmap_4k_size bm * 8 \<Longrightarrow>
    wpmfs_inode_crawl_recursive s h p bm = Some (mark_all (blocks_of (tree_blocks h (pm s) p)) bm)"
proof (induction h arbitrary: p bm)
  case 0
  then show ?case by (simp add: mark_block_ok)
next
  case (Suc h)
  let ?m = "pm s"
  have pp: "block_ptr p" and wf: "\<forall>i\<in>live ?m p. tree_wf h ?m (slot ?m p i)" using Suc.prems(2) by auto
  note va = node_va_direct(1) [OF Suc.prems(1) pp] and nd = node_at_direct [OF Suc.prems(1) pp]
  let ?f = "\<lambda>i bm. if slot ?m p i = 0 then Some bm else wpmfs_inode_crawl_recursive s h (slot ?m p i) bm"
  let ?P = "\<lambda>b. \<exists>B. b = mark_all B bm"
  let ?M = "\<lambda>i. if slot ?m p i = 0 then {} else blocks_of (tree_blocks h ?m (slot ?m p i))"
  have "\<exists>b'. loop_opt ?f [0..<FANOUT] (mark_all {p div 4096} bm) = Some b' \<and> ?P b' \<and>
      bitmap_4k b' = bitmap_4k (mark_all {p div 4096} bm) \<union> (\<Union>i\<in>set [0..<FANOUT]. ?M i)"
  proof (rule loop_mark)
    show "\<exists>b'. ?f i b = Some b' \<and> ?P b' \<and> bitmap_4k b' = bitmap_4k b \<union> ?M i" if "i \<in> set [0..<FANOUT]" "?P b" for i b
    proof (cases "slot ?m p i = 0")
      case False
      with that have i: "i \<in> live ?m p" by (simp add: live_def)
      from that(2) obtain B where b: "b = mark_all B bm" by blast
      have "?f i b = Some (mark_all (blocks_of (tree_blocks h ?m (slot ?m p i))) b)"
        using Suc.IH [OF Suc.prems(1), of "slot ?m p i" b] wf i Suc.prems(3) False by (auto simp: b)
      with False show ?thesis by (auto simp: b)
    qed (use that in simp)
  qed blast
  then obtain B where B: "loop_opt ?f [0..<FANOUT] (mark_all {p div 4096} bm) = Some (mark_all B bm)"
    "bitmap_4k bm \<union> B = bitmap_4k bm \<union> ({p div 4096} \<union> (\<Union>i\<in>{0..<FANOUT}. ?M i))" by auto
  have "(\<Union>i\<in>{0..<FANOUT}. ?M i) = blocks_of (\<Union>i\<in>live ?m p. tree_blocks h ?m (slot ?m p i))"
    by (fastforce simp: live_def blocks_of_def split: if_splits)
  then have "mark_all B bm = mark_all (blocks_of (tree_blocks (Suc h) ?m p)) bm"
    using B(2) by (simp add: mark_all_def)
  with B(1) show ?case
    using mark_block_ok [OF pp, of bm s] Suc.prems(3) by (simp add: va nd cong: if_cong)
qed

definition inode_marks :: "wpmfs \<Rightarrow> nat \<Rightarrow> nat set" where
  "inode_marks s pi = (if pi_root s pi = 0 then {} else blocks_of (tree_blocks (pi_height s pi) (pm s) (pi_root s pi)))"

text \<open>The inodes in the data blocks of the inode table that are not empty.\<close>

definition used_inodes :: "wpmfs \<Rightarrow> nat \<Rightarrow> nat \<Rightarrow> nat set" where
  "used_inodes s h p = {pi. \<not> empty_inode s pi \<and> (\<exists>q\<in>tree_data h (pm s) p. \<exists>i < INODES_PER_BLOCK 0. pi = q + PMFS_INODE_SIZE * i)}"

text \<open>Every tree the scan follows is well-formed and inside the bitmap.\<close>

definition scan_ok :: "wpmfs \<Rightarrow> nat \<Rightarrow> nat \<Rightarrow> nat \<Rightarrow> bool" where
  "scan_ok s n h p \<longleftrightarrow> direct_ok s \<and> tree_wf h (pm s) p \<and> (\<forall>b\<in>blocks_of (tree_blocks h (pm s) p). b < n) \<and>
     (\<forall>pi\<in>used_inodes s h p. (pi_root s pi \<noteq> 0 \<longrightarrow> tree_wf (pi_height s pi) (pm s) (pi_root s pi)) \<and>
        (\<forall>b\<in>inode_marks s pi. b < n))"

definition counts_only :: "wpmfs \<Rightarrow> wpmfs \<Rightarrow> bool" where
  "counts_only s t \<longleftrightarrow> (\<exists>a b. t = s\<lparr>s_inodes_count := a, s_inodes_used_count := b\<rparr>)"

lemma counts_only_refl [simp]: "counts_only s s"
  unfolding counts_only_def by (rule exI [of _ "s_inodes_count s"], rule exI [of _ "s_inodes_used_count s"]) simp

lemma counts_only_trans: "counts_only s t \<Longrightarrow> counts_only t u \<Longrightarrow> counts_only s u"
  unfolding counts_only_def by (elim exE, intro exI) simp

lemma counts_only_upd:
  assumes "counts_only s t"
  shows "counts_only s (t\<lparr>s_inodes_count := a\<rparr>)" "counts_only s (t\<lparr>s_inodes_used_count := a\<rparr>)"
proof -
  obtain x y where t: "t = s\<lparr>s_inodes_count := x, s_inodes_used_count := y\<rparr>" using assms by (auto simp: counts_only_def)
  show "counts_only s (t\<lparr>s_inodes_count := a\<rparr>)" unfolding counts_only_def t
    by (rule exI [of _ a], rule exI [of _ y]) simp
  show "counts_only s (t\<lparr>s_inodes_used_count := a\<rparr>)" unfolding counts_only_def t
    by (rule exI [of _ x], rule exI [of _ a]) simp
qed

lemma counts_only_sel:
  assumes "counts_only s t"
  shows "pm t = pm s" "kernel_same s t" "alloc_same s t" "page_private t = page_private s" "wt_cnt t = wt_cnt s"
    "int_thres_power t = int_thres_power s"
  using assms by (auto simp: counts_only_def kernel_same_def alloc_same_def)

lemma counts_only_inode:
  assumes "counts_only s t"
  shows "pi_root t = pi_root s" "pi_height t = pi_height s" "empty_inode t = empty_inode s" "inode_marks t = inode_marks s"
    "used_inodes t = used_inodes s" "direct_ok t = direct_ok s" "va_off t = va_off s" "node_va t = node_va s"
    "node_at t = node_at s" "virt_addr t = virt_addr s"
  using assms
  by (auto simp: counts_only_def pi_root_def pi_height_def empty_inode_def pi_links_count_def pi_mode_def pi_dtime_def
      inode_marks_def used_inodes_def direct_ok_def va_off_def node_va_def node_at_def wpmfs_get_block_def fun_eq_iff Let_def wpmfs_get_mptable_dynamic_def
      split: option.split)

lemma inode_crawl_marks:
  assumes "direct_ok s" "pi_root s pi \<noteq> 0 \<longrightarrow> tree_wf (pi_height s pi) (pm s) (pi_root s pi)"
    "\<forall>b\<in>inode_marks s pi. b < bitmap_4k_size bm * 8"
  shows "wpmfs_inode_crawl s pi bm = Some (mark_all (inode_marks s pi) bm)"
  using assms crawl_marks [of s "pi_height s pi" "pi_root s pi" bm]
  by (auto simp: wpmfs_inode_crawl_def inode_marks_def blocks_of_def)

text \<open>The state of the scan: counts have changed, and the bitmap.\<close>

definition scan_state :: "wpmfs \<Rightarrow> nat \<Rightarrow> wpmfs \<times> scan_bitmap \<Rightarrow> bool" where
  "scan_state s n st \<longleftrightarrow> counts_only s (fst st) \<and> bitmap_4k_size (snd st) * 8 = n"

lemma crawl_inodes_marks:
  assumes ok: "scan_ok s n h p" and q: "q \<in> tree_data h (pm s) p" and st: "scan_state s n st"
  shows "\<exists>st'. crawl_inodes wpmfs_inode_crawl (virt_addr s + q) 0 st = Some st' \<and> scan_state s n st' \<and>
    bitmap_4k (snd st') = bitmap_4k (snd st) \<union> (\<Union>pi\<in>{pi. \<not> empty_inode s pi \<and>
      (\<exists>i < INODES_PER_BLOCK 0. pi = q + PMFS_INODE_SIZE * i)}. inode_marks s pi)"
proof -
  have dir: "direct_ok s" and wf: "tree_wf h (pm s) p" using ok by (auto simp: scan_ok_def)
  have qp: "block_ptr q" using tree_blocks_ptr [OF wf] q tree_nodes_sub(2) by blast
  have n32: "INODES_PER_BLOCK 0 = 32" by (simp add: INODES_PER_BLOCK_def blk_type_to_shift_def)
  have off: "va_off s (virt_addr s + q + PMFS_INODE_SIZE * i) = q + PMFS_INODE_SIZE * i" if "i < 32" for i
  proof -
    have "q + 4096 \<le> 2 ^ 44" using qp by (auto simp: block_ptr_def elim!: dvdE)
    then have "q + PMFS_INODE_SIZE * i < 2 ^ 44" using that by simp
    then show ?thesis using dir by (simp add: va_off_def direct_ok_def add.assoc)
  qed
  let ?pi = "\<lambda>i. q + PMFS_INODE_SIZE * i"
  let ?M = "\<lambda>i. if empty_inode s (?pi i) then {} else inode_marks s (?pi i)"
  let ?s1 = "\<lambda>s. s\<lparr>s_inodes_count := (s_inodes_count s + 32) mod 2 ^ 32\<rparr>"
  have s1: "scan_state s n (?s1 (fst st), snd st)"
    using st by (simp add: scan_state_def counts_only_upd)
  define bump where "bump = (\<lambda>s'. s'\<lparr>s_inodes_used_count := (s_inodes_used_count s' + 1) mod 2 ^ 32\<rparr> :: wpmfs)"
  define f where "f = (\<lambda>i (s', bm). let pi = va_off s' (virt_addr s + q + PMFS_INODE_SIZE * i)
      in if empty_inode s' pi then Some (s', bm)
         else let s'' = bump s'
              in map_option (\<lambda>bm'. (s'', bm')) (wpmfs_inode_crawl s'' pi bm))"
  have "\<exists>st'. loop_opt f [0..<32] (?s1 (fst st), snd st) = Some st' \<and> scan_state s n st' \<and>
      bitmap_4k (snd st') = bitmap_4k (snd (?s1 (fst st), snd st)) \<union> (\<Union>i\<in>set [0..<32]. ?M i)"
  proof (rule loop_mark [where bits = "\<lambda>st. bitmap_4k (snd st)" and P = "scan_state s n", OF _ s1])
    fix i st' assume i: "i \<in> set [0..<32]" and st': "scan_state s n st'"
    obtain s' bm where s': "st' = (s', bm)" by (cases st')
    then have co: "counts_only s s'" and sz: "bitmap_4k_size bm * 8 = n" using st' by (auto simp: scan_state_def)
    have co': "counts_only s (bump s')" unfolding bump_def using co by (rule counts_only_upd)
    note E = counts_only_inode [OF co] and E' = counts_only_inode [OF co'] counts_only_sel(1) [OF co']
    have off': "va_off s (virt_addr s + q + PMFS_INODE_SIZE * i) = ?pi i" using off [of i] i by simp
    show "\<exists>st''. f i st' = Some st'' \<and> scan_state s n st'' \<and> bitmap_4k (snd st'') = bitmap_4k (snd st') \<union> ?M i"
    proof (cases "empty_inode s (?pi i)")
      case True
      then show ?thesis using st' by (simp add: f_def s' off' E Let_def)
    next
      case False
      then have u: "?pi i \<in> used_inodes s h p" using i q n32 by (auto simp: used_inodes_def)
      have "wpmfs_inode_crawl (bump s') (?pi i) bm = Some (mark_all (inode_marks (bump s') (?pi i)) bm)"
        by (rule inode_crawl_marks) (use ok u sz in \<open>auto simp: scan_ok_def E'\<close>)
      with False co' sz show ?thesis by (simp add: f_def s' off' E E' scan_state_def Let_def)
    qed
  qed
  then obtain st' where st': "loop_opt f [0..<32] (?s1 (fst st), snd st) = Some st'" "scan_state s n st'"
    "bitmap_4k (snd st') = bitmap_4k (snd st) \<union> (\<Union>i\<in>{0..<32}. ?M i)" by auto
  have "(\<Union>i\<in>{0..<32}. ?M i) = (\<Union>pi\<in>{pi. \<not> empty_inode s pi \<and> (\<exists>i < INODES_PER_BLOCK 0. pi = ?pi i)}. inode_marks s pi)"
    unfolding n32 by (auto split: if_splits)
  moreover have "crawl_inodes wpmfs_inode_crawl (virt_addr s + q) 0 st = loop_opt f [0..<32] (?s1 (fst st), snd st)"
    by (cases st) (simp add: crawl_inodes_def n32 f_def bump_def Let_def cong: if_cong)
  ultimately show ?thesis using st' by metis
qed

lemma table_crawl_marks:
  "scan_ok s n h p \<Longrightarrow> scan_state s n st \<Longrightarrow>
    \<exists>st'. wpmfs_inode_table_crawl_recursive 0 h p st = Some st' \<and> scan_state s n st' \<and>
      bitmap_4k (snd st') = bitmap_4k (snd st) \<union> (blocks_of (tree_blocks h (pm s) p) \<union> (\<Union>pi\<in>used_inodes s h p. inode_marks s pi))"
proof (induction h arbitrary: p st)
  case 0
  let ?m = "pm s"
  have dir: "direct_ok s" and pp: "block_ptr p" and lt: "p div 4096 < n" using 0(1) by (auto simp: scan_ok_def)
  have co: "counts_only s (fst st)" and sz: "bitmap_4k_size (snd st) * 8 = n" using 0(2) by (auto simp: scan_state_def)
  note E = counts_only_inode [OF co]
  have mb: "mark_block (fst st) p (snd st) = Some (mark_all {p div 4096} (snd st))"
    using mark_block_ok [OF pp, of "snd st" "fst st"] lt sz by simp
  have st1: "scan_state s n (fst st, mark_all {p div 4096} (snd st))" using 0(2) by (simp add: scan_state_def)
  obtain st' where st': "crawl_inodes wpmfs_inode_crawl (virt_addr s + p) 0 (fst st, mark_all {p div 4096} (snd st)) = Some st'"
    "scan_state s n st'" "bitmap_4k (snd st') = bitmap_4k (mark_all {p div 4096} (snd st)) \<union> (\<Union>pi\<in>{pi. \<not> empty_inode s pi \<and>
      (\<exists>i < INODES_PER_BLOCK 0. pi = p + PMFS_INODE_SIZE * i)}. inode_marks s pi)"
    using crawl_inodes_marks [OF 0(1) _ st1, of p] by auto
  have "used_inodes s 0 p = {pi. \<not> empty_inode s pi \<and> (\<exists>i < INODES_PER_BLOCK 0. pi = p + PMFS_INODE_SIZE * i)}"
    by (simp add: used_inodes_def)
  with st' node_va_direct(1) [OF dir pp] show ?case by (simp add: mb E Un_ac)
next
  case (Suc h)
  let ?m = "pm s"
  have dir: "direct_ok s" and pp: "block_ptr p" and lt: "p div 4096 < n" using Suc.prems(1) by (auto simp: scan_ok_def)
  have co: "counts_only s (fst st)" and sz: "bitmap_4k_size (snd st) * 8 = n" using Suc.prems(2) by (auto simp: scan_state_def)
  note E = counts_only_inode [OF co]
  have mb: "mark_block (fst st) p (snd st) = Some (mark_all {p div 4096} (snd st))"
    using mark_block_ok [OF pp, of "snd st" "fst st"] lt sz by simp
  have st1: "scan_state s n (fst st, mark_all {p div 4096} (snd st))" using Suc.prems(2) by (simp add: scan_state_def)
  have ui: "used_inodes s h (slot ?m p i) \<subseteq> used_inodes s (Suc h) p" if "i \<in> live ?m p" for i
    using that by (auto simp: used_inodes_def)
  have child: "scan_ok s n h (slot ?m p i)" if i: "i \<in> live ?m p" for i
    using Suc.prems(1) ui [OF i] i unfolding scan_ok_def by (auto simp: subset_iff)
  define f where "f = (\<lambda>i st. if node_at (fst st) (virt_addr s + p) i = 0 then Some st
      else wpmfs_inode_table_crawl_recursive 0 h (node_at (fst st) (virt_addr s + p) i) st)"
  let ?M = "\<lambda>i. if slot ?m p i = 0 then {} else blocks_of (tree_blocks h ?m (slot ?m p i)) \<union>
      (\<Union>pi\<in>used_inodes s h (slot ?m p i). inode_marks s pi)"
  have "\<exists>st'. loop_opt f [0..<FANOUT] (fst st, mark_all {p div 4096} (snd st)) = Some st' \<and> scan_state s n st' \<and>
      bitmap_4k (snd st') = bitmap_4k (snd (fst st, mark_all {p div 4096} (snd st))) \<union> (\<Union>i\<in>set [0..<FANOUT]. ?M i)"
  proof (rule loop_mark [where bits = "\<lambda>st. bitmap_4k (snd st)" and P = "scan_state s n", OF _ st1])
    fix i st' assume i: "i \<in> set [0..<FANOUT]" and st': "scan_state s n st'"
    then have E': "node_at (fst st') = node_at s" using counts_only_inode(9) by (simp add: scan_state_def)
    show "\<exists>st''. f i st' = Some st'' \<and> scan_state s n st'' \<and> bitmap_4k (snd st'') = bitmap_4k (snd st') \<union> ?M i"
    proof (cases "slot ?m p i = 0")
      case True
      then show ?thesis using st' node_at_direct [OF dir pp, of i] by (simp add: f_def E')
    next
      case False
      with i have "i \<in> live ?m p" by (simp add: live_def)
      from Suc.IH [OF child [OF this] st'] False node_at_direct [OF dir pp, of i] show ?thesis by (simp add: f_def E')
    qed
  qed
  then obtain st' where st': "loop_opt f [0..<FANOUT] (fst st, mark_all {p div 4096} (snd st)) = Some st'" "scan_state s n st'"
    "bitmap_4k (snd st') = bitmap_4k (snd st) \<union> {p div 4096} \<union> (\<Union>i\<in>{0..<FANOUT}. ?M i)" by auto
  have "(\<Union>i\<in>{0..<FANOUT}. ?M i) = (\<Union>i\<in>live ?m p. blocks_of (tree_blocks h ?m (slot ?m p i))) \<union>
      (\<Union>i\<in>live ?m p. \<Union>pi\<in>used_inodes s h (slot ?m p i). inode_marks s pi)"
    by (auto simp: live_def split: if_splits)
  moreover have "used_inodes s (Suc h) p = (\<Union>i\<in>live ?m p. used_inodes s h (slot ?m p i))"
    by (auto simp: used_inodes_def)
  ultimately have "bitmap_4k (snd st') = bitmap_4k (snd st) \<union> (blocks_of (tree_blocks (Suc h) ?m p) \<union>
      (\<Union>pi\<in>used_inodes s (Suc h) p. inode_marks s pi))"
    using st'(3) by auto
  moreover have "wpmfs_inode_table_crawl_recursive 0 (Suc h) p st = Some st'"
    using st'(1) node_va_direct(1) [OF dir pp] by (simp add: mb E f_def)
  ultimately show ?case using st'(2) by blast
qed

section \<open>The bins\<close>

definition in_use :: "wpmfs \<Rightarrow> nat \<Rightarrow> bool" where
  "in_use s b \<longleftrightarrow> wpmfs_page_marks s b AND WPMFS_PAGE_USING \<noteq> 0"

definition bin_blocks :: "wpmfs \<Rightarrow> nat set" where
  "bin_blocks s = set (concat (block_bins s))"

lemma may_free_bins: "bins_may_free s b \<longleftrightarrow> 0 < b \<and> b < unused_block_low s \<and> b \<notin> bin_blocks s"
  by (simp add: bins_may_free_def bin_blocks_def)

text \<open>What the releases of the build leave alone.\<close>

definition build_same :: "wpmfs \<Rightarrow> wpmfs \<Rightarrow> bool" where
  "build_same s t \<longleftrightarrow> kernel_same s t \<and> pm t = pm s \<and> num_bins t = num_bins s \<and> unused_block_low t = unused_block_low s \<and>
     unused_block_high t = unused_block_high s \<and> length (block_bins t) = length (block_bins s)"

lemma build_same_refl [simp]: "build_same s s"
  by (simp add: build_same_def)

lemma build_same_trans: "build_same s t \<Longrightarrow> build_same t u \<Longrightarrow> build_same s u"
  using kernel_same_trans by (auto simp: build_same_def)

lemma free_one:
  assumes "wpmfs_free_block_locked s b 0 None = Some t" "length (block_bins s) = num_bins s"
  shows "build_same s t" "bin_blocks t = insert b (bin_blocks s)" "page_private t = (page_private s)(b := WPMFS_PAGE_USING)"
    "bins_inv s \<Longrightarrow> bins_may_free s b \<Longrightarrow> bins_inv t"
proof -
  have fr: "wpmfs_free_block s b 0 = Some t" using assms(1) by (simp add: wpmfs_free_block_def)
  obtain k where k: "k < num_bins s" "block_bins t = (block_bins s)[k := b # block_bins s ! k]" "num_bins t = num_bins s"
    "unused_block_low t = unused_block_low s" "unused_block_high t = unused_block_high s"
    "page_private t = (page_private s)(b := WPMFS_PAGE_USING)"
    by (rule wpmfs_free_block_Some [OF fr]) blast
  show "build_same s t" using k wpmfs_free_block_frame [OF fr] by (simp add: build_same_def kernel_same_def)
  have "k < length (block_bins s)" using k(1) assms(2) by simp
  from mset_eq_setD [OF bins_push [OF this, of b]] show "bin_blocks t = insert b (bin_blocks s)"
    by (simp add: bin_blocks_def k(2))
  show "page_private t = (page_private s)(b := WPMFS_PAGE_USING)" by (rule k(6))
  show "bins_inv s \<Longrightarrow> bins_may_free s b \<Longrightarrow> bins_inv t" using wpmfs_free_block_sound fr by blast
qed

lemma try_free_ok:
  assumes "length (block_bins s) = num_bins s" "wpmfs_try_free_blocks s low high = Some t"
  shows "build_same s t \<and> bin_blocks t = bin_blocks s \<union> {b. low \<le> b \<and> b < high \<and> \<not> in_use s b} \<and>
    (\<forall>b. b < low \<or> high \<le> b \<longrightarrow> page_private t b = page_private s b) \<and>
    (bins_inv s \<longrightarrow> (\<forall>b. low \<le> b \<longrightarrow> b < high \<longrightarrow> \<not> in_use s b \<longrightarrow> bins_may_free s b) \<longrightarrow> bins_inv t)"
  using assms
proof (induction s low high rule: wpmfs_try_free_blocks.induct)
  case (1 s low high)
  show ?case
  proof (cases "low < high")
    case False
    with 1(4) show ?thesis by (auto simp: wpmfs_try_free_blocks.simps [of s])
  next
    case lt: True
    show ?thesis
    proof (cases "in_use s low")
      case True
      with lt have e: "wpmfs_try_free_blocks s low high = wpmfs_try_free_blocks s (low + 1) high"
        by (simp add: wpmfs_try_free_blocks.simps [of s low] in_use_def)
      have "{b. low \<le> b \<and> b < high \<and> \<not> in_use s b} = {b. low + 1 \<le> b \<and> b < high \<and> \<not> in_use s b}"
        using True by (auto simp: Suc_le_eq order_le_less)
      with 1(2) [OF lt _ 1(3)] True 1(4) show ?thesis unfolding e by (auto simp: in_use_def)
    next
      case False
      then have nu: "wpmfs_page_marks s low AND WPMFS_PAGE_USING = 0" by (simp add: in_use_def)
      obtain s1 where f: "wpmfs_free_block_locked s low 0 None = Some s1" "wpmfs_try_free_blocks s1 (low + 1) high = Some t"
        using 1(4) lt nu by (auto simp: wpmfs_try_free_blocks.simps [of s low] split: option.splits)
      note fo = free_one [OF f(1) 1(3)]
      have len: "length (block_bins s1) = num_bins s1" using fo(1) 1(3) by (simp add: build_same_def)
      have use: "in_use s1 b = in_use s b" if "b \<noteq> low" for b
        using that by (simp add: in_use_def wpmfs_page_marks_def fo(3))
      have set: "{b. low \<le> b \<and> b < high \<and> \<not> in_use s b} = insert low {b. low + 1 \<le> b \<and> b < high \<and> \<not> in_use s1 b}"
        using lt False use by (auto simp: Suc_le_eq order_le_less)
      note IH = 1(1) [OF lt nu f(1) len f(2)]
      have "bins_inv t" if inv: "bins_inv s" and may: "\<forall>b. low \<le> b \<longrightarrow> b < high \<longrightarrow> \<not> in_use s b \<longrightarrow> bins_may_free s b"
      proof -
        have "bins_may_free s low" using may lt False by blast
        then have i1: "bins_inv s1" by (rule fo(4) [OF inv])
        have "bins_may_free s1 b" if b: "low + 1 \<le> b" "b < high" "\<not> in_use s1 b" for b
        proof -
          have "bins_may_free s b" using may b use by auto
          then show ?thesis using fo(1,2) b by (simp add: may_free_bins build_same_def)
        qed
        then show ?thesis using IH i1 by blast
      qed
      moreover have "bin_blocks t = bin_blocks s \<union> {b. low \<le> b \<and> b < high \<and> \<not> in_use s b}"
        unfolding set using IH fo(2) by auto
      moreover have "\<forall>b. b < low \<or> high \<le> b \<longrightarrow> page_private t b = page_private s b"
        using IH fo(3) lt by auto
      moreover have "build_same s t" using IH build_same_trans [OF fo(1)] by blast
      ultimately show ?thesis by blast
    qed
  qed
qed

lemma run_split:
  assumes z: "find_next_zero_bit bits bsize nxt < bsize" and n: "n2 = find_next_bit bits bsize (find_next_zero_bit bits bsize nxt)"
  shows "{b. nxt \<le> b \<and> b < bsize \<and> b \<notin> bits} = {b. find_next_zero_bit bits bsize nxt \<le> b \<and> b < n2} \<union>
      {b. n2 \<le> b \<and> b < bsize \<and> b \<notin> bits}"
    "nxt \<le> find_next_zero_bit bits bsize nxt" "find_next_zero_bit bits bsize nxt < n2" "n2 \<le> bsize"
proof -
  let ?n1 = "find_next_zero_bit bits bsize nxt"
  have a: "nxt \<le> ?n1" "?n1 \<notin> bits" "\<And>i. nxt \<le> i \<Longrightarrow> i < ?n1 \<Longrightarrow> i \<in> bits"
    using find_next_less [OF z [unfolded find_next_zero_bit_def]] by (auto simp: find_next_zero_bit_def)
  have b: "?n1 \<le> n2" "n2 \<le> bsize" "\<And>i. ?n1 \<le> i \<Longrightarrow> i < n2 \<Longrightarrow> i \<notin> bits" "n2 < bsize \<Longrightarrow> n2 \<in> bits"
    using find_next_spec [of ?n1 bsize "\<lambda>i. i \<in> bits"] z unfolding n find_next_bit_def by auto
  show "nxt \<le> ?n1" "n2 \<le> bsize" by (fact a b)+
  show "?n1 < n2" using a(2) b z by (metis le_neq_implies_less)
  show "{b. nxt \<le> b \<and> b < bsize \<and> b \<notin> bits} = {b. ?n1 \<le> b \<and> b < n2} \<union> {b. n2 \<le> b \<and> b < bsize \<and> b \<notin> bits}"
    (is "?L = ?R")
  proof (rule set_eqI)
    fix x
    consider "x < ?n1" | "?n1 \<le> x" "x < n2" | "n2 \<le> x" by linarith
    then show "x \<in> ?L \<longleftrightarrow> x \<in> ?R"
    proof cases
      case 1
      then show ?thesis using a(3) [of x] b(1) by auto
    next
      case 2
      then show ?thesis using a(1) b(2) b(3) [of x] by auto
    next
      case 3
      then show ?thesis using a(1) b(1) by auto
    qed
  qed
qed

lemma build_free_ok:
  assumes "length (block_bins s) = num_bins s" "build_free_loop bits bsize nxt low s = Some (l, n, t)" "0 < nxt" "nxt \<le> bsize"
  shows "build_same s t \<and> bin_blocks t = bin_blocks s \<union> {b. nxt \<le> b \<and> b < bsize \<and> b \<notin> bits \<and> \<not> in_use s b} \<and>
    (l = 0 \<longrightarrow> low = 0 \<and> {nxt..<bsize} \<subseteq> bits) \<and>
    (bins_inv s \<longrightarrow> (\<forall>b. nxt \<le> b \<longrightarrow> b < bsize \<longrightarrow> b \<notin> bits \<longrightarrow> \<not> in_use s b \<longrightarrow> bins_may_free s b) \<longrightarrow> bins_inv t)"
  using assms
proof (induction bits bsize nxt low s rule: build_free_loop.induct)
  case (1 bits bsize nxt low s)
  let ?n1 = "find_next_zero_bit bits bsize nxt"
  let ?n2 = "find_next_bit bits bsize ?n1"
  show ?case
  proof (cases "bsize \<le> ?n1")
    case True
    then have "l = low" "t = s" using 1(3) by (auto simp: build_free_loop.simps [of bits bsize nxt low s] Let_def)
    moreover have "?n1 = bsize" using True find_next_spec [OF 1(5), of "\<lambda>i. i \<notin> bits"] by (simp add: find_next_zero_bit_def)
    then have "\<forall>b. nxt \<le> b \<longrightarrow> b < bsize \<longrightarrow> b \<in> bits"
      using find_next_spec [OF 1(5), of "\<lambda>i. i \<notin> bits"] by (auto simp: find_next_zero_bit_def)
    ultimately show ?thesis by auto
  next
    case z: False
    then have z': "?n1 < bsize" by simp
    note R = run_split [OF z' refl]
    obtain s1 where s1: "wpmfs_try_free_blocks s ?n1 ?n2 = Some s1"
      using 1(3) z by (auto simp: build_free_loop.simps [of bits bsize nxt low s] Let_def split: option.splits)
    note T = try_free_ok [OF 1(2) s1]
    have len: "length (block_bins s1) = num_bins s1" using T 1(2) by (simp add: build_same_def)
    have use: "in_use s1 b = in_use s b" if "?n2 \<le> b" for b
      using T that by (simp add: in_use_def wpmfs_page_marks_def)
    have may: "bins_may_free s1 b"
      if "bins_may_free s b" "?n2 \<le> b" for b
      using T that by (auto simp: may_free_bins build_same_def)
    have split: "{b. nxt \<le> b \<and> b < bsize \<and> b \<notin> bits \<and> \<not> in_use s b} =
        {b. ?n1 \<le> b \<and> b < ?n2 \<and> \<not> in_use s b} \<union> {b. ?n2 \<le> b \<and> b < bsize \<and> b \<notin> bits \<and> \<not> in_use s1 b}"
      using R(1) use by blast
    have n1: "nxt \<le> b \<and> b < bsize \<and> b \<notin> bits" if "?n1 \<le> b" "b < ?n2" for b
      using R(1) that by blast
    have inv1: "bins_inv s1" if "bins_inv s" "\<forall>b. nxt \<le> b \<longrightarrow> b < bsize \<longrightarrow> b \<notin> bits \<longrightarrow> \<not> in_use s b \<longrightarrow> bins_may_free s b"
      using T that n1 by blast
    show ?thesis
    proof (cases "bsize \<le> ?n2")
      case True
      then have e: "l = ?n1" "t = s1" using 1(3) z s1 by (auto simp: build_free_loop.simps [of bits bsize nxt low s] Let_def)
      have "{b. ?n2 \<le> b \<and> b < bsize \<and> b \<notin> bits \<and> \<not> in_use s1 b} = {}" using True by auto
      with T split inv1 R(2) 1(4) show ?thesis unfolding e by auto
    next
      case False
      have g: "build_free_loop bits bsize ?n2 ?n1 s1 = Some (l, n, t)"
        using 1(3) z s1 False by (simp add: build_free_loop.simps [of bits bsize nxt low s] Let_def)
      have n2: "0 < ?n2" using R(3) by linarith
      note IH = 1(1) [OF refl z refl s1 False len g n2 R(4)]
      have "bins_inv t" if inv: "bins_inv s" and m: "\<forall>b. nxt \<le> b \<longrightarrow> b < bsize \<longrightarrow> b \<notin> bits \<longrightarrow> \<not> in_use s b \<longrightarrow> bins_may_free s b"
      proof -
        have "bins_may_free s1 b" if b: "?n2 \<le> b" "b < bsize" "b \<notin> bits" "\<not> in_use s1 b" for b
        proof (rule may [OF _ b(1)])
          have "nxt \<le> b" using b(1) R(2,3) by linarith
          then show "bins_may_free s b" using m b use [OF b(1)] by blast
        qed
        then show ?thesis using IH inv1 [OF inv m] by blast
      qed
      moreover have "l \<noteq> 0" using IH R(2) 1(4) by linarith
      moreover have "build_same s t" using IH T build_same_trans [of s s1 t] by simp
      moreover have "bin_blocks t = bin_blocks s \<union> {b. nxt \<le> b \<and> b < bsize \<and> b \<notin> bits \<and> \<not> in_use s b}"
        unfolding split using IH [THEN conjunct2, THEN conjunct1] T [THEN conjunct2, THEN conjunct1] by (simp only: Un_assoc)
      ultimately show ?thesis by simp
    qed
  qed
qed

section \<open>The mount\<close>

definition bitmap_bits :: "wpmfs \<Rightarrow> nat" where
  "bitmap_bits s = (fs_size s div 2 ^ 15 + 1) * 8"

text \<open>The blocks the inode table and the files of its inodes consist of.\<close>

definition live_blocks :: "wpmfs \<Rightarrow> nat set" where
  "live_blocks s = (let pi = pmfs_get_inode_table s in
     blocks_of (tree_blocks (pi_height s pi) (pm s) (pi_root s pi)) \<union>
     (\<Union>i\<in>used_inodes s (pi_height s pi) (pi_root s pi). inode_marks s i))"

text \<open>
  A device at mount: the table and all files are well-formed trees inside the device, and the
  allocator has no blocks yet.
\<close>

definition mountable :: "wpmfs \<Rightarrow> bool" where
  "mountable s \<longleftrightarrow> 4096 dvd fs_size s \<and> 4096 \<le> fs_size s \<and> pi_blk_type s (pmfs_get_inode_table s) = 0 \<and>
     scan_ok s (fs_size s div 4096) (pi_height s (pmfs_get_inode_table s)) (pi_root s (pmfs_get_inode_table s)) \<and>
     0 < num_bins s \<and> block_bins s = replicate (num_bins s) [] \<and> num_free_blocks s = 0"

lemma scan_ok_cong:
  assumes "pm t = pm s" "virt_addr t = virt_addr s" "vmap_pt t = vmap_pt s"
  shows "scan_ok t = scan_ok s" "inode_marks t = inode_marks s" "used_inodes t = used_inodes s"
    "pi_height t = pi_height s" "pi_root t = pi_root s" "pi_blk_type t = pi_blk_type s"
proof -
  show a: "inode_marks t = inode_marks s" "used_inodes t = used_inodes s" "pi_height t = pi_height s" "pi_root t = pi_root s"
    "pi_blk_type t = pi_blk_type s"
    by (intro ext, simp add: inode_marks_def used_inodes_def empty_inode_def pi_links_count_def pi_mode_def pi_dtime_def
        pi_root_def pi_height_def pi_blk_type_def assms)+
  show "scan_ok t = scan_ok s"
    by (intro ext, simp add: scan_ok_def direct_ok_def a assms)
qed

lemma scan_ok_mono: "scan_ok s n h p \<Longrightarrow> n \<le> k \<Longrightarrow> scan_ok s k h p"
  unfolding scan_ok_def by (meson order_less_le_trans)

text \<open>The scan marks the live blocks and leaves an allocator with no blocks to the build.\<close>

lemma setup_to_build:
  assumes m: "mountable s"
  obtains s3 where "wpmfs_setup_blocknode_map True s = wpmfs_build_blocknode_map (live_blocks s) (bitmap_bits s) s3"
    "block_bins s3 = replicate (num_bins s) []" "num_bins s3 = num_bins s" "num_free_blocks s3 = 0"
    "unused_block_low s3 = fs_size s div 4096" "unused_block_high s3 = fs_size s div 4096" "pm s3 = pm s"
    "page_private s3 = page_private s" "kernel_same s s3" "wt_cnt s3 = wt_cnt s" "int_thres_power s3 = int_thres_power s"
proof -
  let ?pi = "pmfs_get_inode_table s" and ?n = "fs_size s div 4096" and ?bs = "bitmap_bits s"
  define s1 where "s1 = set_geometry s"
  have s1: "pm s1 = pm s" "virt_addr s1 = virt_addr s" "vmap_pt s1 = vmap_pt s" "kernel_same s s1"
    by (simp_all add: s1_def set_geometry_def kernel_same_def)
  note C = scan_ok_cong [OF s1(1-3)]
  have nb: "?n < ?bs" using m by (auto simp: bitmap_bits_def mountable_def elim!: dvdE)
  have sc: "scan_ok s1 ?bs (pi_height s ?pi) (pi_root s ?pi)"
    unfolding C using m nb by (auto simp: mountable_def intro: scan_ok_mono)
  have st: "scan_state s1 ?bs (s1, empty_bitmap (fs_size s))" by (simp add: scan_state_def empty_bitmap_def bitmap_bits_def)
  obtain s2 bm2 where cr: "wpmfs_inode_table_crawl_recursive 0 (pi_height s ?pi) (pi_root s ?pi) (s1, empty_bitmap (fs_size s)) = Some (s2, bm2)"
    "scan_state s1 ?bs (s2, bm2)" "bitmap_4k bm2 = live_blocks s"
    using table_crawl_marks [OF sc st] by (auto simp: live_blocks_def C s1 empty_bitmap_def Let_def)
  have co: "counts_only s1 s2" and sz: "bitmap_4k_size bm2 * 8 = ?bs" using cr(2) by (auto simp: scan_state_def)
  define s3 where "s3 = wpmfs_init_blockmap ((set_inode_counts s2)\<lparr>num_free_blocks :=
      num_free_blocks (set_inode_counts s2) + fs_size s div 2 ^ PAGE_SHIFT\<rparr>) (fs_size s)"
  have fs: "(fs_size s + 4095) div 4096 = ?n" using m by (auto simp: mountable_def elim!: dvdE)
  have b12: "block_bins s2 = block_bins s" "num_bins s2 = num_bins s" "num_free_blocks s2 = num_free_blocks s"
    "block_start s2 = 0" "block_end s2 = ?n" "page_private s2 = page_private s" "pm s2 = pm s" "kernel_same s s2"
    "wt_cnt s2 = wt_cnt s" "int_thres_power s2 = int_thres_power s"
    using co kernel_same_trans [OF s1(4) counts_only_sel(2) [OF co]] by (auto simp: counts_only_def s1_def set_geometry_def)
  have go: "wpmfs_setup_blocknode_map True s = wpmfs_build_blocknode_map (live_blocks s) ?bs s3"
    using m cr(1,3) sz unfolding wpmfs_setup_blocknode_map_def Let_def s1_def [symmetric] C
    by (simp add: mountable_def s3_def)
  show ?thesis
    by (rule that [OF go])
      (use b12 m in \<open>auto simp: s3_def set_inode_counts_def wpmfs_init_blockmap_def fs mountable_def kernel_same_def\<close>)
qed

lemma beyond_live: "mountable s \<Longrightarrow> fs_size s div 4096 \<in> {1..<bitmap_bits s} - live_blocks s"
  by (auto simp: bitmap_bits_def live_blocks_def mountable_def scan_ok_def Let_def elim!: dvdE)

theorem rebuild_bins:
  assumes m: "mountable s" and r: "wpmfs_setup_blocknode_map True s = Some t"
  shows "bin_blocks t = {b. 0 < b \<and> b < bitmap_bits s \<and> b \<notin> live_blocks s \<and> \<not> in_use s b}"
    "unused_block_low t = fs_size s div 4096" "unused_block_high t = fs_size s div 4096" "pm t = pm s" "kernel_same s t"
    "(\<forall>b. fs_size s div 4096 \<le> b \<longrightarrow> b < bitmap_bits s \<longrightarrow> in_use s b) \<Longrightarrow> bins_inv t"
proof -
  let ?n = "fs_size s div 4096" and ?bs = "bitmap_bits s"
  from m obtain s3 where S: "wpmfs_setup_blocknode_map True s = wpmfs_build_blocknode_map (live_blocks s) ?bs s3"
    "block_bins s3 = replicate (num_bins s) []" "num_bins s3 = num_bins s" "num_free_blocks s3 = 0"
    "unused_block_low s3 = ?n" "unused_block_high s3 = ?n" "pm s3 = pm s"
    "page_private s3 = page_private s" "kernel_same s s3" by (rule setup_to_build)
  have len: "length (block_bins s3) = num_bins s3" and emp: "bin_blocks s3 = {}" by (simp_all add: S bin_blocks_def)
  have use: "in_use s3 b = in_use s b" for b by (simp add: in_use_def wpmfs_page_marks_def S)
  have go: "wpmfs_build_blocknode_map (live_blocks s) ?bs s3 = Some t" using r S(1) by simp
  obtain l nx u where bl: "build_free_loop (live_blocks s) ?bs 1 0 s3 = Some (l, nx, u)"
    using go by (auto simp: wpmfs_build_blocknode_map_def split: option.splits)
  note B = build_free_ok [OF len bl zero_less_one]
  have one: "1 \<le> ?bs" by (simp add: bitmap_bits_def)
  have "l \<noteq> 0" using B [OF one] beyond_live [OF m] by blast
  then have u: "t = u" using go bl by (simp add: wpmfs_build_blocknode_map_def)
  have B1: "build_same s3 t" "bin_blocks t = {b. 1 \<le> b \<and> b < ?bs \<and> b \<notin> live_blocks s \<and> \<not> in_use s b}"
    using B [OF one] u emp use by auto
  show "bin_blocks t = {b. 0 < b \<and> b < ?bs \<and> b \<notin> live_blocks s \<and> \<not> in_use s b}" using B1(2) by (auto simp: Suc_le_eq)
  show "unused_block_low t = ?n" "unused_block_high t = ?n" "pm t = pm s" "kernel_same s t"
    using B1(1) S kernel_same_trans [of s s3 t] by (auto simp: build_same_def)
  show "bins_inv t" if be: "\<forall>b. ?n \<le> b \<longrightarrow> b < ?bs \<longrightarrow> in_use s b"
  proof -
    have "0 < ?n" using m by (auto simp: mountable_def elim!: dvdE)
    then have "bins_inv s3" using m by (simp add: bins_inv_def S mountable_def)
    moreover have "bins_may_free s3 b" if "1 \<le> b" "b < ?bs" "\<not> in_use s3 b" for b
    proof -
      have "b < ?n" using be that use by (metis not_le)
      with that show ?thesis by (simp add: may_free_bins S emp)
    qed
    ultimately show ?thesis using B [OF one] u by blast
  qed
qed

text \<open>The rebuilt allocator leaves every file alone.\<close>

lemma bins_avail_bins: "unused_block_low t = unused_block_high t \<Longrightarrow> bins_avail t \<subseteq> bin_blocks t"
  by (auto simp: bins_avail_def bin_blocks_def dest!: in_set_takeD)

theorem rebuild_file_ok:
  assumes m: "mountable s" and r: "wpmfs_setup_blocknode_map True s = Some t" and sz: "fs_size s < 2 ^ 43"
    and pi: "pi \<in> used_inodes s (pi_height s (pmfs_get_inode_table s)) (pi_root s (pmfs_get_inode_table s))"
    and ty: "pi_blk_type s pi = 0" "pi_root s pi = 0 \<longrightarrow> pi_height s pi = 0"
    and own: "page_of pi \<notin> rblocks (pi_height s pi) (pm s) (pi_root s pi)"
  shows "file_ok bins_avail pi t \<and> (\<forall>n. file_block t pi n = file_block s pi n)"
proof -
  let ?T = "pmfs_get_inode_table s"
  let ?h = "pi_height s ?T" and ?p = "pi_root s ?T"
  note R = rebuild_bins [OF m r]
  have sc: "scan_ok s (fs_size s div 4096) ?h ?p" using m by (simp add: mountable_def)
  have dir: "direct_ok s" and wt: "tree_wf ?h (pm s) ?p" using sc by (auto simp: scan_ok_def)
  have wf: "pi_root s pi \<noteq> 0 \<Longrightarrow> tree_wf (pi_height s pi) (pm s) (pi_root s pi)" using sc pi by (simp add: scan_ok_def)
  have f: "pi_height t pi = pi_height s pi" "pi_root t pi = pi_root s pi" "pi_blk_type t pi = pi_blk_type s pi"
    by (simp_all add: pi_height_def pi_root_def pi_blk_type_def R(4))
  have av: "b \<notin> live_blocks s \<and> 0 < b \<and> b < bitmap_bits s" if "b \<in> bins_avail t" for b
    using bins_avail_bins [of t] that R(1-3) by auto
  obtain q i where q: "q \<in> tree_data ?h (pm s) ?p" "i < INODES_PER_BLOCK 0" "pi = q + 128 * i"
    using pi by (auto simp: used_inodes_def)
  have i: "i < 32" using q(2) by (simp add: INODES_PER_BLOCK_def blk_type_to_shift_def)
  have qb: "q \<in> tree_blocks ?h (pm s) ?p" using q(1) tree_nodes_sub(2) by blast
  then have qp: "block_ptr q" using tree_blocks_ptr [OF wt] by blast
  have page: "page_of pi = q" unfolding q(3) by (rule page_of_in) (use qp i in \<open>auto simp: block_ptr_def\<close>)
  have "q div 4096 \<in> live_blocks s" using qb by (auto simp: live_blocks_def blocks_of_def Let_def)
  then have pa: "q \<notin> (\<lambda>b. b * 4096) ` bins_avail t" using av by auto
  have disj: "rblocks (pi_height s pi) (pm s) (pi_root s pi) \<inter> (\<lambda>b. b * 4096) ` bins_avail t = {}"
  proof -
    have "b \<in> live_blocks s" if "b * 4096 \<in> rblocks (pi_height s pi) (pm s) (pi_root s pi)" for b
    proof -
      have "b * 4096 div 4096 \<in> inode_marks s pi"
        using that unfolding inode_marks_def rblocks_def blocks_of_def
        by (cases "pi_root s pi = 0") (simp, simp only: if_False, rule imageI)
      then show ?thesis using pi by (auto simp: live_blocks_def Let_def)
    qed
    then show ?thesis using av by blast
  qed
  have "bitmap_bits s \<le> 2 ^ 32" using sz by (simp add: bitmap_bits_def) 
  then have db: "\<forall>b\<in>bins_avail t. direct_block b" using av by fastforce
  have "pi mod 4096 + 128 \<le> 4096"
    using qp i unfolding q(3) by (auto simp: block_ptr_def elim!: dvdE)
  then have "file_ok bins_avail pi t"
    unfolding file_ok_def root_ok_def f R(4) page using direct_ok_same [OF R(5) dir] wf ty disj own page pa db by simp
  moreover have "file_block t pi n = file_block s pi n" for n by (simp add: file_block_def f R(4))
  ultimately show ?thesis by blast
qed

end
