(* ===== verification/MountTotal.thy ===== *)
theory MountTotal
  imports MountBins
begin

text \<open>
  The mount with a scan returns on every device whose free blocks have a bin.
\<close>

section \<open>The rebuild returns\<close>

text \<open>
  A release stops only at a negative bin.  The releases of the build charge blocks that have been
  released already, so the bins are those of the counters at mount.
\<close>

definition bin_ok :: "wpmfs \<Rightarrow> nat \<Rightarrow> bool" where
  "bin_ok s b \<longleftrightarrow> (\<exists>k. wpmfs_get_bin s b = Some (int k))"

definition worn_same :: "nat set \<Rightarrow> wpmfs \<Rightarrow> wpmfs \<Rightarrow> bool" where
  "worn_same F s t \<longleftrightarrow> int_thres_power t = int_thres_power s \<and> num_bins t = num_bins s \<and> (\<forall>c. c \<notin> F \<longrightarrow> wt_cnt t c = wt_cnt s c)"

lemma worn_same_trans: "worn_same F s t \<Longrightarrow> worn_same G t u \<Longrightarrow> worn_same (F \<union> G) s u"
  by (simp add: worn_same_def)

lemma worn_same_mono: "worn_same F s t \<Longrightarrow> F \<subseteq> G \<Longrightarrow> worn_same G s t"
  by (auto simp: worn_same_def)

lemma worn_same_bin: "worn_same F s t \<Longrightarrow> c \<notin> F \<Longrightarrow> bin_ok t c = bin_ok s c"
  by (simp add: worn_same_def bin_ok_def wpmfs_get_bin_def wt_cnter_read_pfn_def get_int_thres_size_def Let_def)

lemma touch_page: "k + n \<le> 4096 \<Longrightarrow> wt_cnt (pm_touch s (b * 4096 + k) n) = (wt_cnt s)(b := wt_cnt s b + of_nat n)" if "k < 4096"
proof -
  assume k: "k + n \<le> 4096"
  have "(b * 4096 + k) mod 4096 = k" "(b * 4096 + k) div 4096 = b" using that by auto
  with k show ?thesis by (simp add: pm_touch_def wt_cnter_track_addr_def wt_track_addr1_def)
qed

lemma touch_sel: "int_thres_power (pm_touch s off n) = int_thres_power s" "num_bins (pm_touch s off n) = num_bins s"
  "block_bins (pm_touch s off n) = block_bins s"
  using pm_touch_frame [of s off n] by simp_all

lemma free_total:
  assumes "bin_ok s b" "length (block_bins s) = num_bins s" "0 < num_bins s"
  shows "\<exists>t. wpmfs_free_block_locked s b 0 None = Some t \<and> worn_same (insert b (bin_blocks s)) s t"
proof -
  obtain k where k: "wpmfs_get_bin s b = Some (int k)" using assms(1) by (auto simp: bin_ok_def)
  have "k < num_bins s" using wpmfs_get_bin_bound [OF k] assms(3) by auto
  then have hd: "block_bins s ! k \<noteq> [] \<Longrightarrow> hd (block_bins s ! k) \<in> bin_blocks s"
    using assms(2) by (auto simp: bin_blocks_def intro!: bexI [of _ "block_bins s ! k"])
  have t0: "pm_touch s (b * 4096) 16 = pm_touch s (b * 4096 + 0) 16" by simp
  show ?thesis
    using hd touch_page [of 0 16 s b] touch_page [of 8 8 "pm_touch s (b * 4096) 16" "hd (block_bins s ! k)"]
    by (auto simp: wpmfs_free_block_locked_def k Let_def pmfs_get_block_off_def worn_same_def mark_page_eq touch_sel)
qed

lemma try_free_total:
  assumes "\<forall>c. low \<le> c \<longrightarrow> c < high \<longrightarrow> \<not> in_use s c \<longrightarrow> bin_ok s c" "{low..<high} \<inter> bin_blocks s = {}"
    and "length (block_bins s) = num_bins s" "0 < num_bins s"
  shows "\<exists>t. wpmfs_try_free_blocks s low high = Some t \<and> worn_same (bin_blocks s \<union> {low..<high}) s t"
  using assms
proof (induction s low high rule: wpmfs_try_free_blocks.induct)
  case (1 s low high)
  note unf = wpmfs_try_free_blocks.simps [of s low high]
  show ?case
  proof (cases "low < high")
    case False
    then show ?thesis by (simp add: unf worn_same_def)
  next
    case lt: True
    have d0: "{low + 1..<high} \<inter> bin_blocks s = {}"
    proof -
      have "{low + 1..<high} \<subseteq> {low..<high}" by auto
      with 1(4) show ?thesis by blast
    qed
    show ?thesis
    proof (cases "in_use s low")
      case True
      have "\<exists>t. wpmfs_try_free_blocks s (low + 1) high = Some t \<and> worn_same (bin_blocks s \<union> {low + 1..<high}) s t"
        by (rule 1(2) [OF lt]) (use True d0 1(3,5,6) in \<open>simp_all add: in_use_def\<close>)
      moreover have "bin_blocks s \<union> {low + 1..<high} \<subseteq> bin_blocks s \<union> {low..<high}" by auto
      ultimately show ?thesis using lt True worn_same_mono by (auto simp: unf in_use_def)
    next
      case False
      then have nu: "wpmfs_page_marks s low AND WPMFS_PAGE_USING = 0" by (simp add: in_use_def)
      have "bin_ok s low" using 1(3) lt False by simp
      from free_total [OF this 1(5,6)] obtain s1 where s1: "wpmfs_free_block_locked s low 0 None = Some s1"
        "worn_same (insert low (bin_blocks s)) s s1" by blast
      note fo = free_one [OF s1(1) 1(5)]
      have len: "length (block_bins s1) = num_bins s1" "0 < num_bins s1" using fo(1) 1(5,6) by (simp_all add: build_same_def)
      have sub: "{low + 1..<high} \<subseteq> {low..<high}" "low \<notin> {low + 1..<high}" by auto
      have d0: "{low + 1..<high} \<inter> bin_blocks s = {}" using 1(4) sub(1) by blast
      have d: "{low + 1..<high} \<inter> bin_blocks s1 = {}" unfolding fo(2) using d0 sub(2) by simp
      have ok: "bin_ok s1 c" if "low + 1 \<le> c" "c < high" "\<not> in_use s1 c" for c
      proof -
        have "c \<in> {low + 1..<high}" using that by simp
        with d0 sub(2) have "c \<notin> insert low (bin_blocks s)" by blast
        moreover have "in_use s1 c = in_use s c" using that by (simp add: in_use_def wpmfs_page_marks_def fo(3))
        ultimately show ?thesis using that 1(3) worn_same_bin [OF s1(2)] by simp
      qed
      have "\<exists>t. wpmfs_try_free_blocks s1 (low + 1) high = Some t \<and> worn_same (bin_blocks s1 \<union> {low + 1..<high}) s1 t"
        using 1(1) [OF lt nu s1(1) _ d len] ok by blast
      then obtain t where t: "wpmfs_try_free_blocks s1 (low + 1) high = Some t" "worn_same (bin_blocks s1 \<union> {low + 1..<high}) s1 t"
        by blast
      have "insert low (bin_blocks s) \<union> (bin_blocks s1 \<union> {low + 1..<high}) \<subseteq> bin_blocks s \<union> {low..<high}"
        using fo(2) lt by auto
      with worn_same_mono [OF worn_same_trans [OF s1(2) t(2)]] t(1) show ?thesis
        using lt nu s1(1) by (simp add: unf)
    qed
  qed
qed

lemma build_free_total:
  assumes "\<forall>c. nxt \<le> c \<longrightarrow> c < bsize \<longrightarrow> c \<notin> bits \<longrightarrow> \<not> in_use s c \<longrightarrow> bin_ok s c" "{nxt..<bsize} \<inter> bin_blocks s = {}"
    and "length (block_bins s) = num_bins s" "0 < num_bins s"
  shows "\<exists>r. build_free_loop bits bsize nxt low s = Some r"
  using assms
proof (induction bits bsize nxt low s rule: build_free_loop.induct)
  case (1 bits bsize nxt low s)
  let ?n1 = "find_next_zero_bit bits bsize nxt"
  let ?n2 = "find_next_bit bits bsize ?n1"
  note unf = build_free_loop.simps [of bits bsize nxt low s]
  show ?case
  proof (cases "bsize \<le> ?n1")
    case True
    then show ?thesis by (simp add: unf Let_def)
  next
    case z: False
    then have "?n1 < bsize" by simp
    note R = run_split [OF this refl]
    have n1: "nxt \<le> b \<and> b < bsize \<and> b \<notin> bits" if "?n1 \<le> b" "b < ?n2" for b using R(1) that by blast
    have "{?n1..<?n2} \<subseteq> {nxt..<bsize}"
    proof
      fix b assume "b \<in> {?n1..<?n2}"
      then show "b \<in> {nxt..<bsize}" using n1 [of b] by simp
    qed
    with 1(3) have d1: "{?n1..<?n2} \<inter> bin_blocks s = {}" by blast
    have "\<forall>c. ?n1 \<le> c \<longrightarrow> c < ?n2 \<longrightarrow> \<not> in_use s c \<longrightarrow> bin_ok s c" using 1(2) n1 by blast
    from try_free_total [OF this d1 1(4,5)]
    have "\<exists>s1. wpmfs_try_free_blocks s ?n1 ?n2 = Some s1 \<and> worn_same (bin_blocks s \<union> {?n1..<?n2}) s s1" .
    then obtain s1 where s1: "wpmfs_try_free_blocks s ?n1 ?n2 = Some s1" "worn_same (bin_blocks s \<union> {?n1..<?n2}) s s1" by blast
    note T = try_free_ok [OF 1(4) s1(1)]
    show ?thesis
    proof (cases "bsize \<le> ?n2")
      case True
      then show ?thesis using z s1(1) by (simp add: unf Let_def)
    next
      case False
      have "\<exists>r. build_free_loop bits bsize ?n2 ?n1 s1 = Some r"
      proof (rule 1(1) [OF refl z refl s1(1) False])
        show "\<forall>c. ?n2 \<le> c \<longrightarrow> c < bsize \<longrightarrow> c \<notin> bits \<longrightarrow> \<not> in_use s1 c \<longrightarrow> bin_ok s1 c"
        proof (intro allI impI)
          fix c assume c: "?n2 \<le> c" "c < bsize" "c \<notin> bits" "\<not> in_use s1 c"
          have nc: "nxt \<le> c" using c(1) R(2,3) by linarith
          have "in_use s1 c = in_use s c" using T c(1) by (simp add: in_use_def wpmfs_page_marks_def)
          then have "bin_ok s c" using 1(2) nc c by blast
          moreover have "c \<notin> bin_blocks s \<union> {?n1..<?n2}" using 1(3) nc c(1,2) by auto
          ultimately show "bin_ok s1 c" using worn_same_bin [OF s1(2)] by blast
        qed
        show "{?n2..<bsize} \<inter> bin_blocks s1 = {}"
        proof -
          have "{?n2..<bsize} \<subseteq> {nxt..<bsize}" using R(2,3) by auto
          moreover have "?n1 < ?n2" "{?n2..<bsize} \<inter> {b. ?n1 \<le> b \<and> b < ?n2 \<and> \<not> in_use s b} = {}" using R(3) by auto
          moreover have "bin_blocks s1 = bin_blocks s \<union> {b. ?n1 \<le> b \<and> b < ?n2 \<and> \<not> in_use s b}" using T by blast
          ultimately show ?thesis using 1(3) by blast
        qed
        show "length (block_bins s1) = num_bins s1" "0 < num_bins s1" using T 1(4,5) by (auto simp: build_same_def)
      qed
      then show ?thesis using z s1(1) False by (simp add: unf Let_def)
    qed
  qed
qed

text \<open>The counters of all blocks a mount may release are below the threshold of the last bin.\<close>

theorem rebuild_total:
  assumes m: "mountable s" and ok: "\<forall>b. 0 < b \<longrightarrow> b < bitmap_bits s \<longrightarrow> b \<notin> live_blocks s \<longrightarrow> \<not> in_use s b \<longrightarrow> bin_ok s b"
  shows "\<exists>t. wpmfs_setup_blocknode_map True s = Some t"
proof -
  let ?bs = "bitmap_bits s"
  from m obtain s3 where S: "wpmfs_setup_blocknode_map True s = wpmfs_build_blocknode_map (live_blocks s) ?bs s3"
    "block_bins s3 = replicate (num_bins s) []" "num_bins s3 = num_bins s"
    "page_private s3 = page_private s" "wt_cnt s3 = wt_cnt s" "int_thres_power s3 = int_thres_power s" by (rule setup_to_build)
  have bin: "bin_ok s3 b = bin_ok s b" for b
    by (simp add: bin_ok_def wpmfs_get_bin_def wt_cnter_read_pfn_def get_int_thres_size_def Let_def S)
  have use: "in_use s3 b = in_use s b" for b by (simp add: in_use_def wpmfs_page_marks_def S)
  have len: "length (block_bins s3) = num_bins s3" by (simp add: S)
  have "\<exists>r. build_free_loop (live_blocks s) ?bs 1 0 s3 = Some r"
  proof (rule build_free_total [OF _ _ len])
    show "\<forall>c. 1 \<le> c \<longrightarrow> c < ?bs \<longrightarrow> c \<notin> live_blocks s \<longrightarrow> \<not> in_use s3 c \<longrightarrow> bin_ok s3 c"
      using ok by (simp add: bin use Suc_le_eq)
    show "{1..<?bs} \<inter> bin_blocks s3 = {}" by (simp add: S bin_blocks_def)
    show "0 < num_bins s3" using m by (simp add: S mountable_def)
  qed
  then obtain l nx u where bl: "build_free_loop (live_blocks s) ?bs 1 0 s3 = Some (l, nx, u)" by force
  have one: "1 \<le> ?bs" by (simp add: bitmap_bits_def)
  have "l \<noteq> 0" using build_free_ok [OF len bl zero_less_one one] beyond_live [OF m] by blast
  then show ?thesis using bl by (simp add: S(1) wpmfs_build_blocknode_map_def)
qed

end
