(* ===== verification/MountScanPmfs.thy ===== *)
theory MountScanPmfs
  imports MountScan
begin

text \<open>
  The mount-time rebuild for the first-fit allocator, and the fast mount that reads the map back from
  the inode it was saved in (second half of \<^verbatim>\<open>wpmfs_bbuild.c\<close>).  Here blocks are addressed through the
  direct mapping only.  The log of a transaction is the journal's state; \<open>E\<close> is its addressing.
\<close>

section \<open>The saved map\<close>

text \<open>A transaction works on the memory of the device.\<close>

definition tx_start :: "addressing \<Rightarrow> nat \<Rightarrow> wpmfs \<Rightarrow> jstate \<Rightarrow> ((errno + pmfs_transaction) \<times> jstate) option" where
  "tx_start E n s j = pmfs_new_transaction E n (j\<lparr>jmem := pm s\<rparr>)"

definition tx_log :: "addressing \<Rightarrow> wpmfs \<Rightarrow> nat \<Rightarrow> nat \<Rightarrow> pmfs_transaction \<times> jstate \<Rightarrow> pmfs_transaction \<times> jstate" where
  "tx_log E s off len = (\<lambda>(tx, j).
     case pmfs_add_logentry E tx off len LE_DATA (j\<lparr>jmem := pm s\<rparr>) of
       (Inl _, j') \<Rightarrow> (tx, j') | (Inr tx', j') \<Rightarrow> (tx', j'))"

definition tx_commit :: "addressing \<Rightarrow> wpmfs \<Rightarrow> pmfs_transaction \<times> jstate \<Rightarrow> wpmfs \<times> jstate" where
  "tx_commit E s = (\<lambda>(tx, j).
     let j' = pmfs_commit_transaction E tx (j\<lparr>jmem := pm s\<rparr>) in (s\<lparr>pm := jmem j'\<rparr>, j'))"

definition tx_abort :: "addressing \<Rightarrow> wpmfs \<Rightarrow> pmfs_transaction \<times> jstate \<Rightarrow> wpmfs \<times> jstate" where
  "tx_abort E s = (\<lambda>(tx, j).
     let j' = pmfs_abort_transaction E tx (j\<lparr>jmem := pm s\<rparr>) in (s\<lparr>pm := jmem j'\<rparr>, j'))"

abbreviation PMFS_BLOCKNODE_IN0 :: nat where "PMFS_BLOCKNODE_IN0 \<equiv> 256"
definition MAX_INODE_LENTRIES :: nat where "MAX_INODE_LENTRIES = 2"
definition MAX_SB_LENTRIES :: nat where "MAX_SB_LENTRIES = 2"

text \<open>The super block's field at byte \<open>f\<close>, as a device offset.\<close>

definition super_field :: "wpmfs \<Rightarrow> nat \<Rightarrow> nat" where
  "super_field s f = va_off s (pmfs_get_super s + f)"

definition pmfs_clear_datablock_inode :: "allocator_factory \<Rightarrow> addressing \<Rightarrow> wpmfs \<Rightarrow> jstate \<Rightarrow> (wpmfs \<times> jstate) option" where
  "pmfs_clear_datablock_inode A E s j =
     do {
       (pi, s1) \<leftarrow> inode_at A s PMFS_BLOCKNODE_IN0;
       (r, j1) \<leftarrow> tx_start E MAX_INODE_LENTRIES s1 j;
       case r of
         Inl _ \<Rightarrow> Some (s1, j1)
       | Inr tx \<Rightarrow>
           let J = tx_log E s1 pi MAX_DATA_PER_LENTRY (tx, j1)
           in Some (tx_commit E (PM_MEMSET s1 pi 0 MAX_DATA_PER_LENTRY) J)
     }"

text \<open>
  The nodes are read back from the blocks of the inode, 256 of 16 bytes in each.  A null page, reported
  by a warning only, is then followed: \<open>None\<close>, as is a node the slab allocator does not deliver.
\<close>

definition init_blockmap_node :: "allocator_factory \<Rightarrow> nat \<Rightarrow> nat \<Rightarrow> nat \<times> wpmfs \<Rightarrow> (nat \<times> wpmfs) option" where
  "init_blockmap_node A pi i = (\<lambda>(p, s).
     do {
       let index = i mod 256;
       (p1, s1) \<leftarrow> (if index = 0 then do { (bp, s1) \<leftarrow> find_data_block_at A s pi (i div 256); Some (pmfs_get_block s1 bp, s1) }
                    else Some (p, s));
       let (ok, s2) = pmfs_alloc_blocknode s1;
       if p1 = 0 \<or> \<not> ok then None
       else Some (p1, s2\<lparr>block_inuse_head := block_inuse_head s2 @
              [\<lparr>block_low = le_load 8 (pm s2) (va_off s2 p1 + 16 * index),
                block_high = le_load 8 (pm s2) (va_off s2 p1 + 16 * index + 8)\<rparr>]\<rparr>)
     })"

definition pmfs_init_blockmap_from_inode :: "allocator_factory \<Rightarrow> wpmfs \<Rightarrow> wpmfs option" where
  "pmfs_init_blockmap_from_inode A s =
     do {
       (pi, s1) \<leftarrow> inode_at A s PMFS_BLOCKNODE_IN0;
       let num_blocknode = num_blocknode_allocated s1;
       (p, s2) \<leftarrow> loop_opt (init_blockmap_node A pi) [0..<num_blocknode] (0, s1\<lparr>num_blocknode_allocated := 0\<rparr>);
       Some s2
     }"

definition load_super_counts :: "wpmfs \<Rightarrow> wpmfs" where
  "load_super_counts s = s\<lparr>
     num_blocknode_allocated := le_load 8 (pm s) (super_field s 64),
     num_free_blocks := le_load 8 (pm s) (super_field s 72),
     s_inodes_count := le_load 4 (pm s) (super_field s 80),
     s_free_inodes_count := le_load 4 (pm s) (super_field s 84),
     s_inodes_used_count := le_load 4 (pm s) (super_field s 88),
     s_free_inode_hint := le_load 4 (pm s) (super_field s 92)\<rparr>"

definition pmfs_can_skip_full_scan :: "allocator_factory \<Rightarrow> addressing \<Rightarrow> wpmfs \<Rightarrow> jstate \<Rightarrow> (bool \<times> wpmfs \<times> jstate) option" where
  "pmfs_can_skip_full_scan A E s j =
     do {
       (pi, s1) \<leftarrow> inode_at A s PMFS_BLOCKNODE_IN0;
       if pi_root s1 pi = 0 then Some (False, s1, j)
       else do {
         s2 \<leftarrow> pmfs_init_blockmap_from_inode A (load_super_counts s1);
         let root = pi_root s2 pi;
         let height = pi_height s2 pi;
         let btype = pi_blk_type s2 pi;
         let last_blocknr = (pi_size s2 pi + (2 ^ 64 - 1)) mod 2 ^ 64 div 2 ^ pmfs_inode_blk_shift s2 pi;
         (s3, j1) \<leftarrow> pmfs_clear_datablock_inode A E s2 j;
         (freed, s4) \<leftarrow> pmfs_free_inode_subtree A s3 root height btype last_blocknr;
         Some (True, s4, j1)
       }
     }"

definition pmfs_allocate_datablock_block_inode :: "kernel_vm \<Rightarrow> allocator_factory \<Rightarrow> addressing \<Rightarrow> wpmfs \<Rightarrow> tx_ctx \<Rightarrow>
    nat \<Rightarrow> nat \<Rightarrow> ((errno + unit) \<times> wpmfs \<times> tx_ctx) option" where
  "pmfs_allocate_datablock_block_inode K A E s J pi num_blocks =
     (let s1 = PM_STORE 2 4 s (pi + 36) 0;
          s2 = PM_EQU 2 s1 (pi + 38) 1;
          s3 = PM_STORE 1 4 s2 (pi + 3) 0;
          s4 = PM_STORE 4 4 s3 (pi + 4) 0;
          s5 = PM_STORE 1 4 s4 (pi + 2) 0;
          s6 = PM_STORE 4 4 s5 (pi + 32) 0;
          s7 = PM_EQU 8 s6 (pi + 16) (num_blocks * 2 ^ 12)
      in pmfs_alloc_blocks_at K A E s7 J pi 0 num_blocks False 0)"

definition save_blocknode :: "allocator_factory \<Rightarrow> nat \<Rightarrow> pmfs_blocknode list \<Rightarrow> nat \<Rightarrow> nat \<times> wpmfs \<Rightarrow> (nat \<times> wpmfs) option" where
  "save_blocknode A pi nodes k = (\<lambda>(p, s).
     do {
       let j = k mod 256;
       (p1, s1) \<leftarrow> (if j = 0 then do { (bp, s1) \<leftarrow> find_data_block_at A s pi (k div 256); Some (pmfs_get_block s1 bp, s1) }
                    else Some (p, s));
       if p1 = 0 then None
       else Some (p1, PM_EQU 8 (PM_EQU 8 s1 (va_off s1 p1 + 16 * j) (block_low (nodes ! k)))
                    (va_off s1 p1 + 16 * j + 8) (block_high (nodes ! k)))
     })"

text \<open>The counts in the super block; \<open>now\<close> is \<^verbatim>\<open>get_seconds()\<close>.\<close>

definition store_super_counts :: "wpmfs \<Rightarrow> nat \<Rightarrow> wpmfs" where
  "store_super_counts s now =
     (let f = super_field s;
          s1 = PM_STORE 4 4 s (f 60) now;
          s2 = PM_EQU 8 s1 (f 64) (num_blocknode_allocated s);
          s3 = PM_EQU 8 s2 (f 72) (num_free_blocks s);
          s4 = PM_STORE 4 4 s3 (f 80) (s_inodes_count s);
          s5 = PM_STORE 4 4 s4 (f 84) (s_free_inodes_count s);
          s6 = PM_STORE 4 4 s5 (f 88) (s_inodes_used_count s)
      in PM_STORE 4 4 s6 (f 92) (s_free_inode_hint s))"

definition pmfs_save_blocknode_mappings :: "kernel_vm \<Rightarrow> allocator_factory \<Rightarrow> addressing \<Rightarrow> nat \<Rightarrow> wpmfs \<Rightarrow> jstate \<Rightarrow>
    (wpmfs \<times> jstate) option" where
  "pmfs_save_blocknode_mappings K A E now s j =
     do {
       (pi, s1) \<leftarrow> inode_at A s PMFS_BLOCKNODE_IN0;
       let num_blocks = (num_blocknode_allocated s1 * 16 - 1) div 2 ^ 12 + 1;
       (r, j1) \<leftarrow> tx_start E (MAX_INODE_LENTRIES + MAX_SB_LENTRIES) s1 j;
       case r of
         Inl _ \<Rightarrow> Some (s1, j1)
       | Inr tx \<Rightarrow> do {
           (r2, s2, J2) \<leftarrow> pmfs_allocate_datablock_block_inode K A E s1 (Some (tx_log E s1 pi MAX_DATA_PER_LENTRY (tx, j1))) pi num_blocks;
           J \<leftarrow> J2;
           case r2 of
             Inl _ \<Rightarrow> Some (tx_abort E s2 J)
           | Inr _ \<Rightarrow> do {
               (p, s3) \<leftarrow> loop_opt (save_blocknode A pi (block_inuse_head s2)) [0..<length (block_inuse_head s2)] (0, s2);
               let J3 = tx_log E s3 (super_field s3 60) 36 J;
               Some (tx_commit E (store_super_counts s3 now) J3)
             }
         }
     }"

section \<open>The scan\<close>

definition mark_data :: "nat \<Rightarrow> nat \<Rightarrow> scan_bitmap \<Rightarrow> scan_bitmap option" where
  "mark_data btype block bm =
     (if btype = 0 then set_bit_4k (block div 2 ^ 12) bm
      else if btype = 1 then set_bit_2M (block div 2 ^ 21) bm
      else set_bit_1G (block div 2 ^ 30) bm)"

definition direct_node :: "wpmfs \<Rightarrow> nat \<Rightarrow> nat option" where
  "direct_node s block = (let va = pmfs_get_block s block in if va = 0 then None else Some va)"

primrec pmfs_inode_crawl_recursive :: "wpmfs \<Rightarrow> nat \<Rightarrow> nat \<Rightarrow> nat \<Rightarrow> scan_bitmap \<Rightarrow> scan_bitmap option" where
  "pmfs_inode_crawl_recursive s btype 0 block bm = mark_data btype block bm"
| "pmfs_inode_crawl_recursive s btype (Suc h) block bm =
     do {
       va \<leftarrow> direct_node s block;
       bm1 \<leftarrow> set_bit_4k (block div 2 ^ 12) bm;
       loop_opt (\<lambda>i bm. if node_at s va i = 0 then Some bm
                 else pmfs_inode_crawl_recursive s btype h (node_at s va i) bm) [0..<FANOUT] bm1
     }"

definition pmfs_inode_crawl :: "wpmfs \<Rightarrow> nat \<Rightarrow> scan_bitmap \<Rightarrow> scan_bitmap option" where
  "pmfs_inode_crawl s pi bm =
     (if pi_root s pi = 0 then Some bm
      else pmfs_inode_crawl_recursive s (pi_blk_type s pi) (pi_height s pi) (pi_root s pi) bm)"

primrec pmfs_inode_table_crawl_recursive :: "nat \<Rightarrow> nat \<Rightarrow> nat \<Rightarrow> wpmfs \<times> scan_bitmap \<Rightarrow> (wpmfs \<times> scan_bitmap) option" where
  "pmfs_inode_table_crawl_recursive btype 0 block st =
     do {
       node \<leftarrow> direct_node (fst st) block;
       bm \<leftarrow> (if btype = 1 then set_bit_2M (block div 2 ^ 21) (snd st) else set_bit_4k (block div 2 ^ 12) (snd st));
       crawl_inodes pmfs_inode_crawl node btype (fst st, bm)
     }"
| "pmfs_inode_table_crawl_recursive btype (Suc h) block st =
     do {
       node \<leftarrow> direct_node (fst st) block;
       bm \<leftarrow> set_bit_4k (block div 2 ^ 12) (snd st);
       loop_opt (\<lambda>i st. if node_at (fst st) node i = 0 then Some st
                 else pmfs_inode_table_crawl_recursive btype h (node_at (fst st) node i) st) [0..<FANOUT] (fst st, bm)
     }"

section \<open>Building the map\<close>

text \<open>
  The scan of \<^verbatim>\<open>pmfs_alloc_insert_blocknode_map\<close>: the branches of \<open>new_scan\<close> for a run that is given.
  \<open>None\<close> is running off the list and finding no memory alike.
\<close>

fun insert_scan :: "bool \<Rightarrow> nat \<Rightarrow> nat \<Rightarrow> nat \<Rightarrow> pmfs_blocknode list \<Rightarrow> new_result option" where
  "insert_scan kmem be lo hi [] = None"
| "insert_scan kmem be lo hi (i # rest) =
     (let next_block_low = (case rest of [] \<Rightarrow> be | j # _ \<Rightarrow> block_low j);
          node = \<lparr>block_low = lo, block_high = hi\<rparr>
      in if hi \<ge> next_block_low then map_option (nr_cons i) (insert_scan kmem be lo hi rest)
      else if lo = block_high i + 1 \<and> hi = next_block_low - 1 then
        (case rest of
           j # rest' \<Rightarrow>
             Some \<lparr>nr_low = lo, nr_list = i\<lparr>block_high := block_high j\<rparr> # rest', nr_added = False, nr_deleted = True\<rparr>
         | [] \<Rightarrow> Some \<lparr>nr_low = lo, nr_list = [i\<lparr>block_high := hi\<rparr>], nr_added = False, nr_deleted = False\<rparr>)
      else if lo = block_high i + 1 \<and> hi < next_block_low - 1 then
        Some \<lparr>nr_low = lo, nr_list = i\<lparr>block_high := hi\<rparr> # rest, nr_added = False, nr_deleted = False\<rparr>
      else if lo > block_high i + 1 \<and> hi = next_block_low - 1 then
        (case rest of
           j # rest' \<Rightarrow>
             Some \<lparr>nr_low = lo, nr_list = i # j\<lparr>block_low := lo\<rparr> # rest', nr_added = False, nr_deleted = False\<rparr>
         | [] \<Rightarrow> if kmem then Some \<lparr>nr_low = lo, nr_list = [i, node], nr_added = True, nr_deleted = False\<rparr> else None)
      else if lo > block_high i + 1 \<and> hi < next_block_low - 1 then
        (if kmem then Some \<lparr>nr_low = lo, nr_list = i # node # rest, nr_added = True, nr_deleted = False\<rparr> else None)
      else map_option (nr_cons i) (insert_scan kmem be lo hi rest))"

definition pmfs_alloc_insert_blocknode_map :: "wpmfs \<Rightarrow> nat \<Rightarrow> nat \<Rightarrow> (errno + unit) \<times> wpmfs" where
  "pmfs_alloc_insert_blocknode_map s low high =
     (case insert_scan (kmem_ok s) (block_end s) low high (block_inuse_head s) of
        None \<Rightarrow> (Inl ENOSPC, s)
      | Some r \<Rightarrow> (Inr (), s\<lparr>block_inuse_head := nr_list r,
          num_blocknode_allocated := num_blocknode_allocated s + (if nr_added r then 1 else 0) - (if nr_deleted r then 1 else 0),
          num_free_blocks := num_free_blocks s - (high - low + 1)\<rparr>))"

text \<open>The runs of set bits; a run that cannot be inserted is reported and skipped.\<close>

function build_used_loop :: "nat set \<Rightarrow> nat \<Rightarrow> nat \<Rightarrow> nat \<Rightarrow> wpmfs \<Rightarrow> wpmfs" where
  "build_used_loop bits bsize scale next s =
     (let low = find_next_bit bits bsize next
      in if bsize \<le> low then s
      else
        let n2 = find_next_zero_bit bits bsize low;
            s1 = snd (pmfs_alloc_insert_blocknode_map s (low * 2 ^ scale) (n2 * 2 ^ scale - 1))
        in if bsize \<le> n2 then s1 else build_used_loop bits bsize scale n2 s1)"
  by pat_completeness auto
termination
proof (relation "measure (\<lambda>(bits, bsize, scale, nxt, s). bsize - nxt)")
  fix bits :: "nat set" and bsize scale nxt s x xa s1
  assume x: "x = find_next_bit bits bsize nxt" "\<not> bsize \<le> x" "xa = find_next_zero_bit bits bsize x"
    "s1 = snd (pmfs_alloc_insert_blocknode_map s (x * 2 ^ scale) (xa * 2 ^ scale - 1))" "\<not> bsize \<le> xa"
  have a: "nxt \<le> x \<and> x \<in> bits" using next_bit_spec [of bits bsize nxt, folded x(1)] x(2) by (metis not_le)
  have b: "x \<le> xa \<and> xa \<notin> bits" using next_zero_spec [of bits bsize x, folded x(3)] x(5) by (metis not_le)
  have "x \<noteq> xa" using a b by auto
  then have "nxt < xa" using a b by linarith
  with x(5) show "((bits, bsize, scale, xa, s1), bits, bsize, scale, nxt, s) \<in>
      measure (\<lambda>(bits, bsize, scale, nxt, s). bsize - nxt)"
    by simp
qed simp

declare build_used_loop.simps [simp del]

definition pmfs_build_blocknode_map :: "scan_bitmap \<Rightarrow> wpmfs \<Rightarrow> wpmfs" where
  "pmfs_build_blocknode_map bm s =
     build_used_loop (bitmap_1G bm) (bitmap_1G_size bm * 8) 18 1
       (build_used_loop (bitmap_2M bm) (bitmap_2M_size bm * 8) 9 1
         (build_used_loop (bitmap_4k bm) (bitmap_4k_size bm * 8) 0 1 s))"

text \<open>\<open>jbase\<close> is the journal's \<^verbatim>\<open>base\<close>, a block offset.\<close>

definition pmfs_setup_blocknode_map :: "bool \<Rightarrow> allocator_factory \<Rightarrow> addressing \<Rightarrow> 64 word \<Rightarrow> wpmfs \<Rightarrow> jstate \<Rightarrow>
    (wpmfs \<times> jstate) option" where
  "pmfs_setup_blocknode_map mem A E jbase s j =
     (let pi = pmfs_get_inode_table s;
          initsize = fs_size s
      in do {
        (skip, s2, j1) \<leftarrow> pmfs_can_skip_full_scan A E (set_geometry s) j;
        if skip \<or> \<not> mem then Some (s2, j1)
        else do {
          (s3, j2) \<leftarrow> pmfs_clear_datablock_inode A E s2 j1;
          (s4, bm) \<leftarrow> pmfs_inode_table_crawl_recursive (pi_blk_type s3 pi) (pi_height s3 pi) (pi_root s3 pi)
            (s3, empty_bitmap initsize);
          s5 \<leftarrow> pmfs_init_blockmap ((set_inode_counts s4)\<lparr>num_free_blocks := initsize div 2 ^ PAGE_SHIFT\<rparr>)
            (wb_val jbase + jsize j2);
          Some (pmfs_build_blocknode_map bm s5, j2)
        }
      })"

end
