(* ===== verification/MountMap.thy ===== *)
theory MountMap
  imports MountScanPmfs MountBins
begin

text \<open>
  The map the scan of the first-fit allocator builds: a run of marked blocks that is free is entered
  whole, and the loop over the bitmap enters exactly the marked blocks.
\<close>

section \<open>Entering a run\<close>

declare insert_scan.simps [simp del]

lemma insert_scan_step:
  assumes "block_high i < lo" "lo \<le> hi"
  shows "insert_scan kmem be lo hi (i # rest) =
    (if next_low be rest \<le> hi then map_option (nr_cons i) (insert_scan kmem be lo hi rest)
     else if lo = block_high i + 1 then
       (if hi + 1 = next_low be rest then
          (case rest of
             [] \<Rightarrow> Some \<lparr>nr_low = lo, nr_list = [i\<lparr>block_high := hi\<rparr>], nr_added = False, nr_deleted = False\<rparr>
           | j # rs \<Rightarrow> Some \<lparr>nr_low = lo, nr_list = i\<lparr>block_high := block_high j\<rparr> # rs, nr_added = False, nr_deleted = True\<rparr>)
        else Some \<lparr>nr_low = lo, nr_list = i\<lparr>block_high := hi\<rparr> # rest, nr_added = False, nr_deleted = False\<rparr>)
     else if hi + 1 = next_low be rest \<and> rest \<noteq> [] then
       Some \<lparr>nr_low = lo, nr_list = i # (hd rest)\<lparr>block_low := lo\<rparr> # tl rest, nr_added = False, nr_deleted = False\<rparr>
     else if kmem then
       Some \<lparr>nr_low = lo, nr_list = i # \<lparr>block_low = lo, block_high = hi\<rparr> # rest, nr_added = True, nr_deleted = False\<rparr>
     else None)"
proof -
  have sc: "insert_scan kmem be lo hi (i # rest) =
     (let nb = next_low be rest; node = \<lparr>block_low = lo, block_high = hi\<rparr>
      in if hi \<ge> nb then map_option (nr_cons i) (insert_scan kmem be lo hi rest)
      else if lo = block_high i + 1 \<and> hi = nb - 1 then
        (case rest of
           j # rest' \<Rightarrow> Some \<lparr>nr_low = lo, nr_list = i\<lparr>block_high := block_high j\<rparr> # rest', nr_added = False, nr_deleted = True\<rparr>
         | [] \<Rightarrow> Some \<lparr>nr_low = lo, nr_list = [i\<lparr>block_high := hi\<rparr>], nr_added = False, nr_deleted = False\<rparr>)
      else if lo = block_high i + 1 \<and> hi < nb - 1 then
        Some \<lparr>nr_low = lo, nr_list = i\<lparr>block_high := hi\<rparr> # rest, nr_added = False, nr_deleted = False\<rparr>
      else if lo > block_high i + 1 \<and> hi = nb - 1 then
        (case rest of
           j # rest' \<Rightarrow> Some \<lparr>nr_low = lo, nr_list = i # j\<lparr>block_low := lo\<rparr> # rest', nr_added = False, nr_deleted = False\<rparr>
         | [] \<Rightarrow> if kmem then Some \<lparr>nr_low = lo, nr_list = [i, node], nr_added = True, nr_deleted = False\<rparr> else None)
      else if lo > block_high i + 1 \<and> hi < nb - 1 then
        (if kmem then Some \<lparr>nr_low = lo, nr_list = i # node # rest, nr_added = True, nr_deleted = False\<rparr> else None)
      else map_option (nr_cons i) (insert_scan kmem be lo hi rest))"
    by (simp only: insert_scan.simps next_low_def Let_def)
  have l: "(hi = nb - 1) = (hi + 1 = nb)" "(hi < nb - 1) = (hi + 1 \<noteq> nb)" if "hi < nb" for nb
    using that by auto
  show ?thesis
  proof (cases "next_low be rest \<le> hi")
    case True
    then show ?thesis unfolding sc Let_def by simp
  next
    case False
    then have lt: "hi < next_low be rest" by simp
    show ?thesis
      unfolding sc Let_def l [OF lt] using lt assms by (cases rest) simp_all
  qed
qed

text \<open>A run put into the gap behind the first node.\<close>

lemma gap_insert:
  assumes wf: "blocklist_wf be (i # rest)" and gap: "block_high i < lo" "lo \<le> hi" "hi < next_low be rest" and hb: "hi < be"
  shows "insert_scan True be lo hi (i # rest) = Some r \<Longrightarrow> blocklist_wf be (nr_list r) \<and>
    inuse (nr_list r) = inuse (i # rest) \<union> {lo..hi} \<and>
    nr_list r \<noteq> [] \<and> block_low (hd (nr_list r)) = block_low i \<and>
    length (nr_list r) + (if nr_deleted r then 1 else 0) = length (i # rest) + (if nr_added r then 1 else 0)"
proof -
  assume r: "insert_scan True be lo hi (i # rest) = Some r"
  have W: "block_low i \<le> block_high i" "block_high i < be" "\<forall>b\<in>inuse rest. block_high i < b" "blocklist_wf be rest"
    using wf by (auto simp: blocklist_wf_Cons)
  have nbu: "\<forall>b\<in>inuse rest. next_low be rest \<le> b"
  proof (cases rest)
    case (Cons j rs)
    with W(4) have "\<forall>b\<in>inuse rs. block_low j \<le> b" by (meson blocklist_wf_Cons less_imp_le order.trans)
    with Cons show ?thesis by (auto simp: node_blocks_def)
  qed simp
  note step = insert_scan_step [OF gap(1,2), of True be rest]
  consider (fill) j rs where "lo = block_high i + 1" "hi + 1 = block_low j" "rest = j # rs"
    | (last) "lo = block_high i + 1" "rest = []"
    | (left) "lo = block_high i + 1" "hi + 1 \<noteq> next_low be rest" "rest \<noteq> []"
    | (right) j rs where "lo \<noteq> block_high i + 1" "hi + 1 = block_low j" "rest = j # rs"
    | (mid) "lo \<noteq> block_high i + 1" "hi + 1 \<noteq> next_low be rest \<or> rest = []"
    by (cases rest) auto
  then show ?thesis
  proof cases
    case fill
    with r step gap(3) have "r = \<lparr>nr_low = lo, nr_list = i\<lparr>block_high := block_high j\<rparr> # rs, nr_added = False, nr_deleted = True\<rparr>"
      by simp
    moreover have "{block_low i..block_high j} = {block_low i..block_high i} \<union> {lo..hi} \<union> {block_low j..block_high j}"
      using fill W gap by (auto simp: blocklist_wf_Cons)
    ultimately show ?thesis using W fill by (auto simp: blocklist_wf_Cons node_blocks_def)
  next
    case last
    with r step gap(3) have "r = \<lparr>nr_low = lo, nr_list = [i\<lparr>block_high := hi\<rparr>], nr_added = False, nr_deleted = False\<rparr>"
      by (auto split: if_splits)
    moreover have "{block_low i..hi} = {block_low i..block_high i} \<union> {lo..hi}" using last W gap by auto
    ultimately show ?thesis using W last hb gap by (auto simp: blocklist_wf_Cons node_blocks_def)
  next
    case left
    with r step gap(3) have "r = \<lparr>nr_low = lo, nr_list = i\<lparr>block_high := hi\<rparr> # rest, nr_added = False, nr_deleted = False\<rparr>"
      by simp
    moreover have "{block_low i..hi} = {block_low i..block_high i} \<union> {lo..hi}" using left W gap by auto
    ultimately show ?thesis using W hb gap nbu by (auto simp: blocklist_wf_Cons node_blocks_def)
  next
    case right
    with r step gap(3) have "r = \<lparr>nr_low = lo, nr_list = i # j\<lparr>block_low := lo\<rparr> # rs, nr_added = False, nr_deleted = False\<rparr>"
      by simp
    moreover have "{lo..block_high j} = {lo..hi} \<union> {block_low j..block_high j}" using right W gap by (auto simp: blocklist_wf_Cons)
    ultimately show ?thesis using W right gap by (auto simp: blocklist_wf_Cons node_blocks_def)
  next
    case mid
    with r step gap(3) have "r = \<lparr>nr_low = lo, nr_list = i # \<lparr>block_low = lo, block_high = hi\<rparr> # rest, nr_added = True, nr_deleted = False\<rparr>"
      by (auto split: if_splits)
    then show ?thesis using W hb gap nbu by (fastforce simp: blocklist_wf_Cons node_blocks_def)
  qed
qed

lemma insert_scan_ok:
  "blocklist_wf be is \<Longrightarrow> is \<noteq> [] \<Longrightarrow> block_high (hd is) < lo \<Longrightarrow> lo \<le> hi \<Longrightarrow> hi < be \<Longrightarrow> {lo..hi} \<inter> inuse is = {} \<Longrightarrow>
    \<exists>r. insert_scan True be lo hi is = Some r \<and> blocklist_wf be (nr_list r) \<and> inuse (nr_list r) = inuse is \<union> {lo..hi} \<and>
      nr_list r \<noteq> [] \<and> block_low (hd (nr_list r)) = block_low (hd is) \<and>
      length (nr_list r) + (if nr_deleted r then 1 else 0) = length is + (if nr_added r then 1 else 0)"
proof (induction "is")
  case (Cons i rest)
  have gap: "block_high i < lo" using Cons.prems(3) by simp
  note step = insert_scan_step [OF gap Cons.prems(4), of True be rest]
  show ?case
  proof (cases "next_low be rest \<le> hi")
    case True
    then obtain j rs where j: "rest = j # rs" using Cons.prems(5) by (cases rest) auto
    have jj: "block_low j \<le> block_high j" "blocklist_wf be rest" "block_high i < block_low j"
      using Cons.prems(1) j by (auto simp: blocklist_wf_Cons node_blocks_def)
    have nj: "node_blocks j \<inter> {lo..hi} = {}" using Cons.prems(6) j by auto
    have "block_low j < lo"
    proof (rule ccontr)
      assume "\<not> block_low j < lo"
      then have "block_low j \<in> node_blocks j \<inter> {lo..hi}" using True j jj(1) by (simp add: node_blocks_def)
      with nj show False by simp
    qed
    have "block_high j < lo"
    proof (rule ccontr)
      assume "\<not> block_high j < lo"
      then have "lo \<in> node_blocks j \<inter> {lo..hi}" using \<open>block_low j < lo\<close> Cons.prems(4) by (simp add: node_blocks_def)
      with nj show False by simp
    qed
    with Cons.IH Cons.prems j jj(2) obtain q where q: "insert_scan True be lo hi rest = Some q"
      "blocklist_wf be (nr_list q)" "inuse (nr_list q) = inuse rest \<union> {lo..hi}"
      "length (nr_list q) + (if nr_deleted q then 1 else 0) = length rest + (if nr_added q then 1 else 0)" by auto
    show ?thesis
      using True q Cons.prems(1) gap by (auto simp: step nr_cons_def blocklist_wf_Cons)
  next
    case False
    then have "insert_scan True be lo hi (i # rest) \<noteq> None" using step by (auto split: list.split)
    then obtain r where "insert_scan True be lo hi (i # rest) = Some r" by blast
    with gap_insert [OF Cons.prems(1) gap Cons.prems(4) _ Cons.prems(5)] False show ?thesis by auto
  qed
qed simp

text \<open>The map while it is being built: node count and free count agree with it.\<close>

definition map_ok :: "wpmfs \<Rightarrow> bool" where
  "map_ok s \<longleftrightarrow> list_inv s \<and> kmem_ok s"

lemma insert_map_ok:
  assumes ok: "map_ok s" and r: "block_start s \<le> lo" "lo \<le> hi" "hi < block_end s" "{lo..hi} \<inter> inuse (block_inuse_head s) = {}"
    and t: "pmfs_alloc_insert_blocknode_map s lo hi = (e, t)"
  shows "e = Inr () \<and> map_ok t \<and> inuse (block_inuse_head t) = inuse (block_inuse_head s) \<union> {lo..hi} \<and>
    block_start t = block_start s \<and> block_end t = block_end s \<and> pm t = pm s \<and> kernel_same s t"
proof -
  have inv: "block_inuse_head s \<noteq> []" "blocklist_wf (block_end s) (block_inuse_head s)"
    "block_low (hd (block_inuse_head s)) = block_start s" "num_free_blocks s = card (list_avail s)"
    "num_blocknode_allocated s = length (block_inuse_head s)" "kmem_ok s"
    using ok by (auto simp: map_ok_def list_inv_def)
  have "block_high (hd (block_inuse_head s)) < lo"
  proof (rule ccontr)
    assume "\<not> block_high (hd (block_inuse_head s)) < lo"
    then have "lo \<in> node_blocks (hd (block_inuse_head s))" using r(1) inv(3) by (simp add: node_blocks_def)
    then have "lo \<in> inuse (block_inuse_head s)" using inv(1) by (cases "block_inuse_head s") auto
    with r(2,4) show False by auto
  qed
  from insert_scan_ok [OF inv(2,1) this r(2,3,4)] obtain q where q: "insert_scan True (block_end s) lo hi (block_inuse_head s) = Some q"
    "blocklist_wf (block_end s) (nr_list q)" "inuse (nr_list q) = inuse (block_inuse_head s) \<union> {lo..hi}"
    "nr_list q \<noteq> []" "block_low (hd (nr_list q)) = block_start s"
    "length (nr_list q) + (if nr_deleted q then 1 else 0) = length (block_inuse_head s) + (if nr_added q then 1 else 0)"
    using inv(3) by auto
  have te: "e = Inr ()" "t = s\<lparr>block_inuse_head := nr_list q,
      num_blocknode_allocated := num_blocknode_allocated s + (if nr_added q then 1 else 0) - (if nr_deleted q then 1 else 0),
      num_free_blocks := num_free_blocks s - (hi - lo + 1)\<rparr>"
    using t q(1) inv(6) by (auto simp: pmfs_alloc_insert_blocknode_map_def)
  have av: "list_avail t = list_avail s - {lo..hi}" using q(3) by (auto simp: list_avail_def te)
  have sub: "{lo..hi} \<subseteq> list_avail s" using r by (auto simp: list_avail_def)
  have "card (list_avail t) = card (list_avail s) - (hi - lo + 1)"
    unfolding av using card_Diff_subset [OF _ sub] r(2) by (simp add: Suc_diff_le)
  then have "map_ok t" using q inv by (auto simp: map_ok_def list_inv_def te)
  then show ?thesis using te q(3) by (simp add: kernel_same_def)
qed

section \<open>The loop over the bitmap\<close>

lemma set_run:
  assumes z: "find_next_bit bits bsize nxt < bsize" and n: "n2 = find_next_zero_bit bits bsize (find_next_bit bits bsize nxt)"
  shows "{b. nxt \<le> b \<and> b < bsize \<and> b \<in> bits} = {b. find_next_bit bits bsize nxt \<le> b \<and> b < n2} \<union>
      {b. n2 \<le> b \<and> b < bsize \<and> b \<in> bits}"
    "nxt \<le> find_next_bit bits bsize nxt" "find_next_bit bits bsize nxt < n2" "n2 \<le> bsize"
proof -
  have e: "find_next_bit bits = find_next_zero_bit (- bits)" "find_next_zero_bit bits = find_next_bit (- bits)"
    by (auto simp: find_next_bit_def find_next_zero_bit_def fun_eq_iff)
  show "{b. nxt \<le> b \<and> b < bsize \<and> b \<in> bits} = {b. find_next_bit bits bsize nxt \<le> b \<and> b < n2} \<union>
      {b. n2 \<le> b \<and> b < bsize \<and> b \<in> bits}"
    "nxt \<le> find_next_bit bits bsize nxt" "find_next_bit bits bsize nxt < n2" "n2 \<le> bsize"
    using run_split [of "- bits" bsize nxt n2] z n unfolding e by simp_all
qed

text \<open>The blocks a set of bits stands for, at \<open>2 ^ scale\<close> blocks a bit.\<close>

definition scaled :: "nat \<Rightarrow> nat set \<Rightarrow> nat set" where
  "scaled scale B = {x. x div 2 ^ scale \<in> B}"

lemma scaled_simps [simp]:
  "scaled sc (A \<union> B) = scaled sc A \<union> scaled sc B" "scaled sc {} = {}" "scaled 0 B = B"
  by (auto simp: scaled_def)

lemma scaled_run: "lo < n2 \<Longrightarrow> scaled sc {b. lo \<le> b \<and> b < n2} = {lo * 2 ^ sc..n2 * 2 ^ sc - 1}"
proof -
  assume l: "lo < n2"
  have d: "lo \<le> x div 2 ^ sc \<longleftrightarrow> lo * 2 ^ sc \<le> x" "x div 2 ^ sc < n2 \<longleftrightarrow> x < n2 * 2 ^ sc" for x
    by (simp_all add: less_eq_div_iff_mult_less_eq div_less_iff_less_mult)
  have "0 < n2 * 2 ^ sc" using l by simp
  then have "x < n2 * 2 ^ sc \<longleftrightarrow> x \<le> n2 * 2 ^ sc - 1" for x by linarith
  then show ?thesis unfolding scaled_def mem_Collect_eq d atLeastAtMost_def atLeast_def atMost_def by blast
qed

lemma build_used_ok:
  assumes "map_ok s" "block_start s = 0" "nxt \<le> bsize"
    and "scaled sc {b. nxt \<le> b \<and> b < bsize \<and> b \<in> bits} \<subseteq> list_avail s"
  shows "map_ok (build_used_loop bits bsize sc nxt s) \<and>
    inuse (block_inuse_head (build_used_loop bits bsize sc nxt s)) =
      inuse (block_inuse_head s) \<union> scaled sc {b. nxt \<le> b \<and> b < bsize \<and> b \<in> bits} \<and>
    block_start (build_used_loop bits bsize sc nxt s) = 0 \<and>
    block_end (build_used_loop bits bsize sc nxt s) = block_end s \<and>
    pm (build_used_loop bits bsize sc nxt s) = pm s \<and> kernel_same s (build_used_loop bits bsize sc nxt s)"
  using assms
proof (induction bits bsize sc nxt s rule: build_used_loop.induct)
  case (1 bits bsize sc nxt s)
  let ?lo = "find_next_bit bits bsize nxt"
  let ?n2 = "find_next_zero_bit bits bsize ?lo"
  note unf = build_used_loop.simps [of bits bsize sc nxt s]
  show ?case
  proof (cases "bsize \<le> ?lo")
    case True
    have "?lo = bsize" using True find_next_spec [OF 1(4), of "\<lambda>i. i \<in> bits"] by (simp add: find_next_bit_def)
    then have "{b. nxt \<le> b \<and> b < bsize \<and> b \<in> bits} = {}"
      using find_next_spec [OF 1(4), of "\<lambda>i. i \<in> bits"] by (auto simp: find_next_bit_def)
    then have "scaled sc {b. nxt \<le> b \<and> b < bsize \<and> b \<in> bits} = {}" by (simp only: scaled_simps)
    moreover have "build_used_loop bits bsize sc nxt s = s" using True by (simp add: unf)
    ultimately show ?thesis using 1(2,3) by (simp only: kernel_same_def simp_thms Un_empty_right)
  next
    case z: False
    then have "?lo < bsize" by simp
    note R = set_run [OF this refl]
    note run = scaled_run [OF R(3), of sc]
    have sub: "{?lo * 2 ^ sc..?n2 * 2 ^ sc - 1} \<subseteq> list_avail s"
      using 1(5) unfolding R(1) run [symmetric] by simp
    define t where "t = snd (pmfs_alloc_insert_blocknode_map s (?lo * 2 ^ sc) (?n2 * 2 ^ sc - 1))"
    have t: "pmfs_alloc_insert_blocknode_map s (?lo * 2 ^ sc) (?n2 * 2 ^ sc - 1) =
        (fst (pmfs_alloc_insert_blocknode_map s (?lo * 2 ^ sc) (?n2 * 2 ^ sc - 1)), t)" by (simp only: t_def prod.collapse)
    have le: "?lo * 2 ^ sc \<le> ?n2 * 2 ^ sc - 1"
    proof -
      have "?lo * 2 ^ sc + 2 ^ sc \<le> ?n2 * 2 ^ sc" using mult_le_mono1 [of "Suc ?lo" ?n2 "2 ^ sc"] R(3) by simp
      moreover have "(1::nat) \<le> 2 ^ sc" by simp
      ultimately show ?thesis by linarith
    qed
    have top: "?n2 * 2 ^ sc - 1 \<in> list_avail s" using sub le by auto
    have T: "map_ok t \<and> inuse (block_inuse_head t) = inuse (block_inuse_head s) \<union> {?lo * 2 ^ sc..?n2 * 2 ^ sc - 1} \<and>
        block_start t = 0 \<and> block_end t = block_end s \<and> pm t = pm s \<and> kernel_same s t"
      using insert_map_ok [OF 1(2) _ le _ _ t] 1(3) top sub by (auto simp: list_avail_def)
    show ?thesis
    proof (cases "bsize \<le> ?n2")
      case True
      then have "{b. ?n2 \<le> b \<and> b < bsize \<and> b \<in> bits} = {}" by auto
      moreover have "build_used_loop bits bsize sc nxt s = t"
        unfolding unf Let_def t_def [symmetric] using z True by (simp only: if_False if_True)
      ultimately show ?thesis using T unfolding R(1) by (simp only: run scaled_simps Un_empty_right simp_thms)
    next
      case False
      have split: "scaled sc {b. nxt \<le> b \<and> b < bsize \<and> b \<in> bits} =
          {?lo * 2 ^ sc..?n2 * 2 ^ sc - 1} \<union> scaled sc {b. ?n2 \<le> b \<and> b < bsize \<and> b \<in> bits}"
        unfolding R(1) by (simp add: run)
      have "{b. ?lo \<le> b \<and> b < ?n2} \<inter> {b. ?n2 \<le> b \<and> b < bsize \<and> b \<in> bits} = {}" by auto
      then have "{?lo * 2 ^ sc..?n2 * 2 ^ sc - 1} \<inter> scaled sc {b. ?n2 \<le> b \<and> b < bsize \<and> b \<in> bits} = {}"
        unfolding run [symmetric] by (auto simp: scaled_def)
      then have sub': "scaled sc {b. ?n2 \<le> b \<and> b < bsize \<and> b \<in> bits} \<subseteq> list_avail t"
        using 1(3,5) T split by (auto simp: list_avail_def)
      have g: "build_used_loop bits bsize sc nxt s = build_used_loop bits bsize sc ?n2 t"
        unfolding unf Let_def t_def [symmetric] using z False by (simp only: if_False)
      have IH: "map_ok (build_used_loop bits bsize sc ?n2 t) \<and>
          inuse (block_inuse_head (build_used_loop bits bsize sc ?n2 t)) =
            inuse (block_inuse_head t) \<union> scaled sc {b. ?n2 \<le> b \<and> b < bsize \<and> b \<in> bits} \<and>
          block_start (build_used_loop bits bsize sc ?n2 t) = 0 \<and>
          block_end (build_used_loop bits bsize sc ?n2 t) = block_end t \<and>
          pm (build_used_loop bits bsize sc ?n2 t) = pm t \<and> kernel_same t (build_used_loop bits bsize sc ?n2 t)"
        by (rule 1(1) [OF refl z refl t_def False]) (use T R(4) sub' in blast)+
      show ?thesis unfolding g split using IH T kernel_same_trans [of s t] by (simp add: Un_assoc)
    qed
  qed
qed

text \<open>All three bitmaps.\<close>

lemma build_map_ok:
  assumes ok: "map_ok s" "block_start s = 0"
    and sz: "1 \<le> bitmap_4k_size bm * 8" "1 \<le> bitmap_2M_size bm * 8" "1 \<le> bitmap_1G_size bm * 8"
    and in4: "bitmap_4k bm \<subseteq> {1..<bitmap_4k_size bm * 8}" and in2: "bitmap_2M bm \<subseteq> {1..<bitmap_2M_size bm * 8}"
    and in1: "bitmap_1G bm \<subseteq> {1..<bitmap_1G_size bm * 8}"
    and free: "bitmap_4k bm \<union> scaled 9 (bitmap_2M bm) \<union> scaled 18 (bitmap_1G bm) \<subseteq> list_avail s"
    and disj: "bitmap_4k bm \<inter> scaled 9 (bitmap_2M bm) = {}" "bitmap_4k bm \<inter> scaled 18 (bitmap_1G bm) = {}"
      "scaled 9 (bitmap_2M bm) \<inter> scaled 18 (bitmap_1G bm) = {}"
  shows "map_ok (pmfs_build_blocknode_map bm s) \<and>
    list_avail (pmfs_build_blocknode_map bm s) =
      list_avail s - (bitmap_4k bm \<union> scaled 9 (bitmap_2M bm) \<union> scaled 18 (bitmap_1G bm))"
proof -
  have e: "{b. 1 \<le> b \<and> b < n \<and> b \<in> B} = B" if "B \<subseteq> {1..<n}" for n and B :: "nat set" using that by auto
  define s1 where "s1 = build_used_loop (bitmap_4k bm) (bitmap_4k_size bm * 8) 0 1 s"
  define s2 where "s2 = build_used_loop (bitmap_2M bm) (bitmap_2M_size bm * 8) 9 1 s1"
  define s3 where "s3 = build_used_loop (bitmap_1G bm) (bitmap_1G_size bm * 8) 18 1 s2"
  have 1: "map_ok s1" "inuse (block_inuse_head s1) = inuse (block_inuse_head s) \<union> bitmap_4k bm" "block_start s1 = 0"
    "block_end s1 = block_end s"
    using build_used_ok [OF ok sz(1), of 0 "bitmap_4k bm"] free unfolding e [OF in4] s1_def [symmetric] by simp_all
  have a1: "list_avail s1 = list_avail s - bitmap_4k bm" using 1 ok(2) by (auto simp: list_avail_def)
  have "scaled 9 (bitmap_2M bm) \<subseteq> list_avail s1" using free disj(1) unfolding a1 by blast
  then have 2: "map_ok s2" "inuse (block_inuse_head s2) = inuse (block_inuse_head s1) \<union> scaled 9 (bitmap_2M bm)"
    "block_start s2 = 0" "block_end s2 = block_end s1"
    using build_used_ok [OF 1(1,3) sz(2), of 9 "bitmap_2M bm"] unfolding e [OF in2] s2_def [symmetric] by blast+
  have a2: "list_avail s2 = list_avail s1 - scaled 9 (bitmap_2M bm)" using 1 2 by (auto simp: list_avail_def)
  have "scaled 18 (bitmap_1G bm) \<subseteq> list_avail s2" using free disj(2,3) unfolding a2 a1 by blast
  then have 3: "map_ok s3" "inuse (block_inuse_head s3) = inuse (block_inuse_head s2) \<union> scaled 18 (bitmap_1G bm)"
    "block_start s3 = 0" "block_end s3 = block_end s2"
    using build_used_ok [OF 2(1,3) sz(3), of 18 "bitmap_1G bm"] unfolding e [OF in1] s3_def [symmetric] by blast+
  have "list_avail s3 = list_avail s2 - scaled 18 (bitmap_1G bm)" using 2 3 by (auto simp: list_avail_def)
  then have "list_avail s3 = list_avail s - (bitmap_4k bm \<union> scaled 9 (bitmap_2M bm) \<union> scaled 18 (bitmap_1G bm))"
    unfolding a2 a1 by blast
  with 3(1) show ?thesis by (simp add: pmfs_build_blocknode_map_def s1_def s2_def s3_def)
qed

section \<open>The two scans\<close>

text \<open>On a file of small blocks the direct-mapped scan is that of the wear-aware allocator.\<close>

lemma loop_opt_cong: "(\<And>i st. i \<in> set is \<Longrightarrow> f i st = g i st) \<Longrightarrow> loop_opt f is st = loop_opt g is st"
  by (induction "is" arbitrary: st) (auto split: option.split)

lemma crawl_direct:
  "direct_ok s \<Longrightarrow> tree_wf h (pm s) p \<Longrightarrow> pmfs_inode_crawl_recursive s 0 h p bm = wpmfs_inode_crawl_recursive s h p bm"
proof (induction h arbitrary: p bm)
  case 0
  then show ?case by (simp add: mark_data_def mark_block_def block_ptr_word)
next
  case (Suc h)
  have pp: "block_ptr p" using Suc.prems(2) by simp
  have dn: "direct_node s p = Some (virt_addr s + p)" using pp by (simp add: direct_node_def pmfs_get_block_def block_ptr_def)
  have mb: "mark_block s p bm = set_bit_4k (p div 2 ^ 12) bm" by (simp add: mark_block_def block_ptr_word [OF pp])
  have "loop_opt (\<lambda>i bm. if node_at s (virt_addr s + p) i = 0 then Some bm
      else pmfs_inode_crawl_recursive s 0 h (node_at s (virt_addr s + p) i) bm) [0..<FANOUT] b =
    loop_opt (\<lambda>i bm. if node_at s (virt_addr s + p) i = 0 then Some bm
      else wpmfs_inode_crawl_recursive s h (node_at s (virt_addr s + p) i) bm) [0..<FANOUT] b" for b
  proof (rule loop_opt_cong)
    fix i st assume i: "i \<in> set [0..<FANOUT]"
    have "pmfs_inode_crawl_recursive s 0 h (slot (pm s) p i) st = wpmfs_inode_crawl_recursive s h (slot (pm s) p i) st"
      if "slot (pm s) p i \<noteq> 0"
      using Suc i that by (simp add: live_def)
    then show "(if node_at s (virt_addr s + p) i = 0 then Some st
        else pmfs_inode_crawl_recursive s 0 h (node_at s (virt_addr s + p) i) st) =
      (if node_at s (virt_addr s + p) i = 0 then Some st
        else wpmfs_inode_crawl_recursive s h (node_at s (virt_addr s + p) i) st)"
      by (simp add: node_at_direct [OF Suc.prems(1) pp])
  qed
  then show ?case
    using node_va_direct(1) [OF Suc.prems(1) pp] by (cases "set_bit_4k (p div 4096) bm") (simp_all add: dn mb)
qed

text \<open>The whole table, when all files have small blocks.\<close>

lemma loop_opt_cong_inv:
  assumes "\<And>i st. i \<in> set is \<Longrightarrow> P st \<Longrightarrow> f i st = g i st \<and> (\<forall>st'. g i st = Some st' \<longrightarrow> P st')"
  shows "P st \<Longrightarrow> loop_opt f is st = loop_opt g is st \<and> (\<forall>st'. loop_opt g is st = Some st' \<longrightarrow> P st')"
  using assms
proof (induction "is" arbitrary: st)
  case (Cons i "is")
  have i: "f i st = g i st" "\<And>st'. g i st = Some st' \<Longrightarrow> P st'" using Cons.prems(2) [of i st] Cons.prems(1) by auto
  have "loop_opt f is st1 = loop_opt g is st1 \<and> (\<forall>st'. loop_opt g is st1 = Some st' \<longrightarrow> P st')" if "P st1" for st1
    by (rule Cons.IH [OF that], rule Cons.prems(2)) simp_all
  with i show ?case by (auto split: option.split)
qed simp

definition small_files :: "wpmfs \<Rightarrow> nat \<Rightarrow> nat \<Rightarrow> bool" where
  "small_files s h p \<longleftrightarrow> (\<forall>pi\<in>used_inodes s h p. pi_blk_type s pi = 0 \<and> (pi_root s pi \<noteq> 0 \<longrightarrow> tree_wf (pi_height s pi) (pm s) (pi_root s pi)))"

lemma small_files_child: "small_files s (Suc h) p \<Longrightarrow> i \<in> live (pm s) p \<Longrightarrow> small_files s h (slot (pm s) p i)"
  by (auto simp: small_files_def used_inodes_def)

lemma inode_scans_agree:
  assumes "direct_ok s" "pi_blk_type s pi = 0" "pi_root s pi \<noteq> 0 \<longrightarrow> tree_wf (pi_height s pi) (pm s) (pi_root s pi)"
  shows "pmfs_inode_crawl s pi bm = wpmfs_inode_crawl s pi bm"
  using assms crawl_direct [of s "pi_height s pi" "pi_root s pi" bm] by (simp add: pmfs_inode_crawl_def wpmfs_inode_crawl_def)

lemma crawl_inodes_agree:
  assumes dir: "direct_ok s" and p: "block_ptr p" and small: "small_files s 0 p" and st: "counts_only s (fst st)"
  shows "crawl_inodes pmfs_inode_crawl (virt_addr s + p) 0 st = crawl_inodes wpmfs_inode_crawl (virt_addr s + p) 0 st \<and>
    (\<forall>st'. crawl_inodes wpmfs_inode_crawl (virt_addr s + p) 0 st = Some st' \<longrightarrow> counts_only s (fst st'))"
proof -
  define bump where "bump = (\<lambda>s'. s'\<lparr>s_inodes_used_count := (s_inodes_used_count s' + 1) mod 2 ^ 32\<rparr> :: wpmfs)"
  define F where "F = (\<lambda>crawl i (s', bm :: scan_bitmap). let pi = va_off s' (virt_addr s + p + PMFS_INODE_SIZE * i)
      in if empty_inode s' pi then Some (s', bm)
         else let s'' = bump s' in map_option (\<lambda>bm'. (s'', bm')) (crawl s'' pi bm))"
  let ?s1 = "(fst st)\<lparr>s_inodes_count := (s_inodes_count (fst st) + INODES_PER_BLOCK 0) mod 2 ^ 32\<rparr>"
  have unf: "crawl_inodes crawl (virt_addr s + p) 0 st = loop_opt (F crawl) [0..<INODES_PER_BLOCK 0] (?s1, snd st)" for crawl
    by (cases st) (simp add: crawl_inodes_def F_def bump_def Let_def cong: if_cong)
  have "F pmfs_inode_crawl i x = F wpmfs_inode_crawl i x \<and> (\<forall>y. F wpmfs_inode_crawl i x = Some y \<longrightarrow> counts_only s (fst y))"
    if i: "i \<in> set [0..<INODES_PER_BLOCK 0]" and P: "counts_only s (fst x)" for i x
  proof -
    obtain v b where v: "x = (v, b)" by (cases x)
    have co: "counts_only s v" using P by (simp add: v)
    have co': "counts_only s (bump v)" unfolding bump_def using co by (rule counts_only_upd)
    note C = counts_only_inode [OF co] and C' = counts_only_inode [OF co'] counts_only_sel(1) [OF co']
    have i32: "i < 32" using i by (simp add: INODES_PER_BLOCK_def blk_type_to_shift_def)
    have "p + 4096 \<le> 2 ^ 44" using p by (auto simp: block_ptr_def elim!: dvdE)
    then have "p + PMFS_INODE_SIZE * i < 2 ^ 44" using i32 by simp
    then have off: "va_off s (virt_addr s + p + PMFS_INODE_SIZE * i) = p + PMFS_INODE_SIZE * i"
      using dir by (simp add: va_off_def direct_ok_def add.assoc)
    have "pmfs_inode_crawl (bump v) (p + PMFS_INODE_SIZE * i) b = wpmfs_inode_crawl (bump v) (p + PMFS_INODE_SIZE * i) b"
      if "\<not> empty_inode s (p + PMFS_INODE_SIZE * i)"
    proof (rule inode_scans_agree)
      have "p + PMFS_INODE_SIZE * i \<in> used_inodes s 0 p" using that i by (auto simp: used_inodes_def)
      then show "pi_blk_type (bump v) (p + PMFS_INODE_SIZE * i) = 0"
        "pi_root (bump v) (p + PMFS_INODE_SIZE * i) \<noteq> 0 \<longrightarrow>
          tree_wf (pi_height (bump v) (p + PMFS_INODE_SIZE * i)) (pm (bump v)) (pi_root (bump v) (p + PMFS_INODE_SIZE * i))"
        using small C' by (simp_all add: small_files_def pi_blk_type_def)
    qed (use dir C' in simp)
    then show ?thesis using co co' by (auto simp: F_def v off C Let_def)
  qed
  moreover have "counts_only s (fst (?s1, snd st))" using counts_only_upd(1) [OF st] by simp
  ultimately show ?thesis unfolding unf by (rule loop_opt_cong_inv [where P = "\<lambda>st. counts_only s (fst st)"])
qed

lemma table_scans_agree:
  "direct_ok s \<Longrightarrow> tree_wf h (pm s) p \<Longrightarrow> small_files s h p \<Longrightarrow> counts_only s (fst st) \<Longrightarrow>
    pmfs_inode_table_crawl_recursive 0 h p st = wpmfs_inode_table_crawl_recursive 0 h p st \<and>
    (\<forall>st'. wpmfs_inode_table_crawl_recursive 0 h p st = Some st' \<longrightarrow> counts_only s (fst st'))"
proof (induction h arbitrary: p st)
  case 0
  have pp: "block_ptr p" using 0 by simp
  note C = counts_only_inode [OF 0(4)]
  have dn: "direct_node (fst st) p = Some (virt_addr s + p)" "node_va (fst st) p = Some (virt_addr s + p)"
    using pp node_va_direct(1) [OF 0(1) pp] by (simp_all add: direct_node_def pmfs_get_block_def block_ptr_def C)
  have mb: "mark_block (fst st) p bm = set_bit_4k (p div 4096) bm" for bm by (simp add: mark_block_def block_ptr_word [OF pp])
  have "counts_only s (fst (fst st, bm))" for bm :: scan_bitmap using 0(4) by simp
  from crawl_inodes_agree [OF 0(1) pp 0(3) this]
  show ?case by (cases "set_bit_4k (p div 4096) (snd st)") (simp_all add: dn mb)
next
  case (Suc h)
  have pp: "block_ptr p" using Suc.prems(2) by simp
  note C = counts_only_inode [OF Suc.prems(4)]
  have dn: "direct_node (fst st) p = Some (virt_addr s + p)" "node_va (fst st) p = Some (virt_addr s + p)"
    using pp node_va_direct(1) [OF Suc.prems(1) pp] by (simp_all add: direct_node_def pmfs_get_block_def block_ptr_def C)
  have mb: "mark_block (fst st) p bm = set_bit_4k (p div 4096) bm" for bm by (simp add: mark_block_def block_ptr_word [OF pp])
  define F where "F = (\<lambda>crawl i st. if node_at (fst st) (virt_addr s + p) i = 0 then Some st
      else crawl (node_at (fst st) (virt_addr s + p) i) st :: (wpmfs \<times> scan_bitmap) option)"
  have "loop_opt (F (pmfs_inode_table_crawl_recursive 0 h)) [0..<FANOUT] (fst st, bm) =
      loop_opt (F (wpmfs_inode_table_crawl_recursive 0 h)) [0..<FANOUT] (fst st, bm) \<and>
      (\<forall>st'. loop_opt (F (wpmfs_inode_table_crawl_recursive 0 h)) [0..<FANOUT] (fst st, bm) = Some st' \<longrightarrow> counts_only s (fst st'))" for bm
  proof (rule loop_opt_cong_inv [where P = "\<lambda>st. counts_only s (fst st)"])
    fix i and x :: "wpmfs \<times> scan_bitmap" assume i: "i \<in> set [0..<FANOUT]" and x: "counts_only s (fst x)"
    have na: "node_at (fst x) (virt_addr s + p) i = slot (pm s) p i"
      using node_at_direct [OF Suc.prems(1) pp] counts_only_inode(9) [OF x] by simp
    have "slot (pm s) p i \<noteq> 0 \<Longrightarrow> i \<in> live (pm s) p" using i by (simp add: live_def)
    then show "F (pmfs_inode_table_crawl_recursive 0 h) i x = F (wpmfs_inode_table_crawl_recursive 0 h) i x \<and>
        (\<forall>y. F (wpmfs_inode_table_crawl_recursive 0 h) i x = Some y \<longrightarrow> counts_only s (fst y))"
      using Suc.IH [OF Suc.prems(1) _ small_files_child [OF Suc.prems(3)] x, of i] Suc.prems(2) x
      by (auto simp: F_def na)
  qed (use Suc.prems(4) in simp)
  then show ?case unfolding F_def
    by (cases "set_bit_4k (p div 4096) (snd st)") (simp_all add: dn mb)
qed

end
