(* ===== verification/Inodes.thy ===== *)
theory Inodes
  imports MountScanPmfs
begin

text \<open>
  Inodes (second half of \<^verbatim>\<open>inode.c\<close>, \<^verbatim>\<open>pmfs_set_blocksize_hint\<close> of \<^verbatim>\<open>file.c\<close>): the kernel's inode and the
  128 bytes on the device, their allocation and release, size changes and the truncate list.  An inode on
  the device is given by its offset, as in \<^theory_text>\<open>BlockTree\<close>; \<open>now\<close> is the time in seconds.  Locks and flushes
  are left out, \<open>None\<close> is a failed assertion or a null pointer followed.
\<close>

section \<open>Stores\<close>

lemma pm_touch_mem [simp]: "pm (pm_touch s off n) = pm s"
  using pm_touch_frame [of s off n] by simp

lemma pm_equ [simp]: "pm (PM_EQU n s off y) = le_store n (pm s) off y" "pm (PM_STORE n k s off y) = le_store n (pm s) off y"
  by (simp_all add: PM_EQU_def PM_STORE_def)

section \<open>Mode and flags\<close>

definition S_ISREG :: "nat \<Rightarrow> bool" where "S_ISREG mode \<longleftrightarrow> and mode 0xF000 = 0x8000"
definition S_ISDIR :: "nat \<Rightarrow> bool" where "S_ISDIR mode \<longleftrightarrow> and mode 0xF000 = 0x4000"
definition S_ISLNK :: "nat \<Rightarrow> bool" where "S_ISLNK mode \<longleftrightarrow> and mode 0xF000 = 0xA000"
definition S_ISCHR :: "nat \<Rightarrow> bool" where "S_ISCHR mode \<longleftrightarrow> and mode 0xF000 = 0x2000"
definition S_ISBLK :: "nat \<Rightarrow> bool" where "S_ISBLK mode \<longleftrightarrow> and mode 0xF000 = 0x6000"

text \<open>The kernel's \<^verbatim>\<open>S_SYNC\<close> and so on, and the flags stored for them.\<close>

abbreviation S_SYNC :: nat where "S_SYNC \<equiv> 1"
abbreviation S_NOATIME :: nat where "S_NOATIME \<equiv> 2"
abbreviation S_APPEND :: nat where "S_APPEND \<equiv> 4"
abbreviation S_IMMUTABLE :: nat where "S_IMMUTABLE \<equiv> 8"
abbreviation S_DIRSYNC :: nat where "S_DIRSYNC \<equiv> 64"
abbreviation S_DAX :: nat where "S_DAX \<equiv> 8192"
abbreviation FS_SYNC_FL :: nat where "FS_SYNC_FL \<equiv> 0x8"
abbreviation FS_IMMUTABLE_FL :: nat where "FS_IMMUTABLE_FL \<equiv> 0x10"
abbreviation FS_APPEND_FL :: nat where "FS_APPEND_FL \<equiv> 0x20"
abbreviation FS_NOATIME_FL :: nat where "FS_NOATIME_FL \<equiv> 0x80"
abbreviation FS_DIRSYNC_FL :: nat where "FS_DIRSYNC_FL \<equiv> 0x10000"

definition clear_bits :: "nat \<Rightarrow> nat \<Rightarrow> nat" where "clear_bits x bits = x - and x bits"

definition copy_flag :: "nat \<Rightarrow> nat \<Rightarrow> nat \<Rightarrow> nat \<Rightarrow> nat" where
  "copy_flag src from to x = (if and src from \<noteq> 0 then or x to else x)"

definition pmfs_set_inode_flags :: "wpmfs \<Rightarrow> nat \<Rightarrow> vinode \<Rightarrow> vinode" where
  "pmfs_set_inode_flags s pi inode =
     (let flags = pi_flags s pi;
          f0 = clear_bits (i_flags inode) (S_SYNC + S_APPEND + S_IMMUTABLE + S_NOATIME + S_DIRSYNC);
          f1 = copy_flag flags FS_SYNC_FL S_SYNC f0;
          f2 = copy_flag flags FS_APPEND_FL S_APPEND f1;
          f3 = copy_flag flags FS_IMMUTABLE_FL S_IMMUTABLE f2;
          f4 = copy_flag flags FS_NOATIME_FL S_NOATIME f3;
          f5 = copy_flag flags FS_DIRSYNC_FL S_DIRSYNC f4
      in inode\<lparr>i_flags := or f5 S_DAX\<rparr>)"

definition stored_flags :: "nat \<Rightarrow> nat \<Rightarrow> nat" where
  "stored_flags flags pmfs_flags =
     (let p0 = clear_bits pmfs_flags (FS_SYNC_FL + FS_APPEND_FL + FS_IMMUTABLE_FL + FS_NOATIME_FL + FS_DIRSYNC_FL);
          p1 = copy_flag flags S_SYNC FS_SYNC_FL p0;
          p2 = copy_flag flags S_APPEND FS_APPEND_FL p1;
          p3 = copy_flag flags S_IMMUTABLE FS_IMMUTABLE_FL p2;
          p4 = copy_flag flags S_NOATIME FS_NOATIME_FL p3
      in copy_flag flags S_DIRSYNC FS_DIRSYNC_FL p4)"

definition pmfs_get_inode_flags :: "wpmfs \<Rightarrow> nat \<Rightarrow> vinode \<Rightarrow> wpmfs" where
  "pmfs_get_inode_flags s pi inode = PM_EQU 4 s (pi + 4) (stored_flags (i_flags inode) (pi_flags s pi))"

text \<open>The flags a new inode inherits.\<close>

abbreviation PMFS_FL_INHERITED :: nat where
  "PMFS_FL_INHERITED \<equiv> 0x1 + 0x2 + 0x4 + 0x8 + 0x40 + 0x80 + 0x200 + 0x400 + 0x4000 + 0x8000 + 0x10000"
abbreviation FS_TOPDIR_FL :: nat where "FS_TOPDIR_FL \<equiv> 0x20000"
abbreviation PMFS_OTHER_FLMASK :: nat where "PMFS_OTHER_FLMASK \<equiv> 0x40 + 0x80"

definition pmfs_mask_flags :: "nat \<Rightarrow> nat \<Rightarrow> nat" where
  "pmfs_mask_flags mode flags =
     (let flags = and flags PMFS_FL_INHERITED
      in if S_ISDIR mode then flags
      else if S_ISREG mode then clear_bits flags (FS_DIRSYNC_FL + FS_TOPDIR_FL)
      else and flags PMFS_OTHER_FLMASK)"

section \<open>Reading and writing an inode\<close>

definition pi_ctime :: "wpmfs \<Rightarrow> nat \<Rightarrow> nat" where "pi_ctime s pi = le_load 4 (pm s) (pi + 24)"
definition pi_mtime :: "wpmfs \<Rightarrow> nat \<Rightarrow> nat" where "pi_mtime s pi = le_load 4 (pm s) (pi + 28)"
definition pi_uid :: "wpmfs \<Rightarrow> nat \<Rightarrow> nat" where "pi_uid s pi = le_load 4 (pm s) (pi + 56)"
definition pi_gid :: "wpmfs \<Rightarrow> nat \<Rightarrow> nat" where "pi_gid s pi = le_load 4 (pm s) (pi + 60)"
definition pi_generation :: "wpmfs \<Rightarrow> nat \<Rightarrow> nat" where "pi_generation s pi = le_load 4 (pm s) (pi + 64)"
definition pi_atime :: "wpmfs \<Rightarrow> nat \<Rightarrow> nat" where "pi_atime s pi = le_load 4 (pm s) (pi + 68)"
definition pi_rdev :: "wpmfs \<Rightarrow> nat \<Rightarrow> nat" where "pi_rdev s pi = le_load 4 (pm s) (pi + 72)"

text \<open>
  \<^verbatim>\<open>pmfs_read_inode\<close>; \<^verbatim>\<open>init_special_inode\<close> of the kernel keeps the device number of a character or
  block device.
\<close>

definition pmfs_read_inode :: "wpmfs \<Rightarrow> nat \<Rightarrow> vinode \<Rightarrow> errno + vinode" where
  "pmfs_read_inode s pi inode =
     (let inode1 = pmfs_set_inode_flags s pi (inode\<lparr>i_mode := pi_mode s pi, i_uid := pi_uid s pi, i_gid := pi_gid s pi,
            i_nlink := pi_links_count s pi, i_size := pi_size s pi, i_atime := pi_atime s pi, i_ctime := pi_ctime s pi,
            i_mtime := pi_mtime s pi, i_generation := pi_generation s pi\<rparr>)
      in if i_nlink inode1 = 0 \<and> (i_mode inode1 = 0 \<or> pi_dtime s pi \<noteq> 0) then Inl ESTALE
      else
        let inode2 = inode1\<lparr>i_blocks := pi_blocks s pi\<rparr>
        in if S_ISREG (i_mode inode2) \<or> S_ISDIR (i_mode inode2) \<or> S_ISLNK (i_mode inode2) then Inr inode2
        else Inr (inode2\<lparr>i_size := 0,
          i_rdev := (if S_ISCHR (i_mode inode2) \<or> S_ISBLK (i_mode inode2) then pi_rdev s pi else i_rdev inode2)\<rparr>))"

definition pmfs_update_inode :: "wpmfs \<Rightarrow> nat \<Rightarrow> vinode \<Rightarrow> wpmfs" where
  "pmfs_update_inode s pi inode =
     (let s1 = PM_EQU 2 s (pi + 36) (i_mode inode);
          s2 = PM_EQU 4 s1 (pi + 56) (i_uid inode);
          s3 = PM_EQU 4 s2 (pi + 60) (i_gid inode);
          s4 = PM_EQU 2 s3 (pi + 38) (i_nlink inode);
          s5 = PM_EQU 8 s4 (pi + 16) (i_size inode);
          s6 = PM_EQU 8 s5 (pi + 40) (i_blocks inode);
          s7 = PM_EQU 4 s6 (pi + 68) (i_atime inode);
          s8 = PM_EQU 4 s7 (pi + 24) (i_ctime inode);
          s9 = PM_EQU 4 s8 (pi + 28) (i_mtime inode);
          s10 = PM_EQU 4 s9 (pi + 64) (i_generation inode);
          s11 = pmfs_get_inode_flags s10 pi inode
      in if S_ISCHR (i_mode inode) \<or> S_ISBLK (i_mode inode) then PM_EQU 4 s11 (pi + 72) (i_rdev inode) else s11)"

definition pmfs_update_nlink :: "wpmfs \<Rightarrow> nat \<Rightarrow> vinode \<Rightarrow> wpmfs" where
  "pmfs_update_nlink s pi inode = PM_EQU 2 s (pi + 38) (i_nlink inode)"

definition pmfs_update_isize :: "wpmfs \<Rightarrow> nat \<Rightarrow> vinode \<Rightarrow> wpmfs" where
  "pmfs_update_isize s pi inode = PM_EQU 8 s (pi + 16) (i_size inode)"

definition pmfs_update_time :: "wpmfs \<Rightarrow> nat \<Rightarrow> vinode \<Rightarrow> wpmfs" where
  "pmfs_update_time s pi inode = PM_EQU 4 (PM_EQU 4 s (pi + 24) (i_ctime inode)) (pi + 28) (i_mtime inode)"

definition pmfs_is_inode_dirty :: "wpmfs \<Rightarrow> nat \<Rightarrow> vinode \<Rightarrow> bool" where
  "pmfs_is_inode_dirty s pi inode \<longleftrightarrow>
     i_ctime inode \<noteq> pi_ctime s pi \<or> i_mtime inode \<noteq> pi_mtime s pi \<or> i_size inode \<noteq> pi_size s pi \<or>
     i_mode inode \<noteq> pi_mode s pi \<or> i_uid inode \<noteq> pi_uid s pi \<or> i_gid inode \<noteq> pi_gid s pi \<or>
     i_nlink inode \<noteq> pi_links_count s pi \<or> i_blocks inode \<noteq> pi_blocks s pi \<or> i_atime inode \<noteq> pi_atime s pi"

definition pmfs_dirty_inode :: "allocator_factory \<Rightarrow> wpmfs \<Rightarrow> vinode \<Rightarrow> wpmfs option" where
  "pmfs_dirty_inode A s inode =
     do { (pi, s1) \<leftarrow> inode_at A s (i_ino inode); Some (PM_EQU 4 s1 (pi + 68) (i_atime inode)) }"

definition pmfs_set_blocksize_hint :: "wpmfs \<Rightarrow> nat \<Rightarrow> wpmfs" where
  "pmfs_set_blocksize_hint s pi = (if pi_root s pi \<noteq> 0 then s else PM_STORE 1 2 s (pi + 3) 0)"

text \<open>512-byte blocks reported by \<^verbatim>\<open>stat\<close>.\<close>

definition pmfs_getattr_blocks :: "vinode \<Rightarrow> nat" where
  "pmfs_getattr_blocks inode = i_blocks inode * 2 ^ 12 mod 2 ^ 64 div 2 ^ 9"

section \<open>The truncate list\<close>

text \<open>
  The list of inodes whose blocks are still to be freed: on the device a chain of inode numbers through
  the truncate items behind the inodes, starting behind the inode of the inode table; in memory the list
  \<^verbatim>\<open>s_truncate\<close>, here of inode numbers.
\<close>

definition truncate_head :: "wpmfs \<Rightarrow> nat" where "truncate_head s = pmfs_get_inode_table s + 80"

definition truncate_item :: "allocator_factory \<Rightarrow> wpmfs \<Rightarrow> nat \<Rightarrow> (nat \<times> wpmfs) option" where
  "truncate_item A s ino = do { (pi, s1) \<leftarrow> inode_at A s ino; Some (pi + 80, s1) }"

definition li_truncatesize :: "wpmfs \<Rightarrow> nat \<Rightarrow> nat" where "li_truncatesize s li = le_load 8 (pm s) li"
definition li_next :: "wpmfs \<Rightarrow> nat \<Rightarrow> nat" where "li_next s li = le_load 8 (pm s) (li + 8)"

definition pmfs_truncate_add :: "allocator_factory \<Rightarrow> wpmfs \<Rightarrow> nat list \<Rightarrow> nat \<Rightarrow> nat \<Rightarrow> (wpmfs \<times> nat list) option" where
  "pmfs_truncate_add A s trunc ino truncate_size =
     (if ino \<in> set trunc then Some (s, trunc)
      else do {
        (li, s1) \<leftarrow> truncate_item A s ino;
        let s2 = PM_EQU 8 s1 (li + 8) (li_next s1 (truncate_head s));
        let s3 = PM_EQU 8 s2 li truncate_size;
        Some (PM_EQU 8 s3 (truncate_head s + 8) ino, ino # trunc)
      })"

text \<open>The element before \<open>ino\<close> in the list, \<open>None\<close> inside when it is the first.\<close>

fun list_prev :: "nat list \<Rightarrow> nat \<Rightarrow> nat option" where
  "list_prev (a # b # xs) ino = (if a = ino then None else if b = ino then Some a else list_prev (b # xs) ino)"
| "list_prev xs ino = None"

definition pmfs_truncate_del :: "allocator_factory \<Rightarrow> wpmfs \<Rightarrow> nat list \<Rightarrow> nat \<Rightarrow> (wpmfs \<times> nat list) option" where
  "pmfs_truncate_del A s trunc ino =
     (if ino \<notin> set trunc then Some (s, trunc)
      else do {
        (li, s1) \<leftarrow> truncate_item A s ino;
        let ino_next = li_next s1 li;
        case list_prev trunc ino of
          None \<Rightarrow> Some (PM_EQU 8 s1 (truncate_head s + 8) ino_next, remove1 ino trunc)
        | Some p \<Rightarrow> do {
            (li_prv, s2) \<leftarrow> truncate_item A s1 p;
            Some (PM_EQU 8 s2 (li_prv + 8) ino_next, remove1 ino trunc)
          }
      })"

end
