(* ===== verification/InodeOps.thy ===== *)
theory InodeOps
  imports Inodes
begin

text \<open>
  The life of an inode: allocation in the inode table, growth of the table, loading, release and eviction,
  size changes, changes of attributes, and the processing of the truncate list at mount.  What the kernel
  does with its own inodes (its cache, owner and permission rules, attribute copies) are parameters.
\<close>

section \<open>Setting up the inode table\<close>

definition pmfs_init_inode_table :: "kernel_vm \<Rightarrow> allocator_factory \<Rightarrow> addressing \<Rightarrow> wpmfs \<Rightarrow> ((errno + unit) \<times> wpmfs) option" where
  "pmfs_init_inode_table K A E s =
     (let pi = pmfs_get_inode_table s;
          init_inode_table_size = (if num_inodes s = 0 then 4096 else num_inodes s * 2 ^ 7);
          s1 = PM_STORE 2 4 s (pi + 36) 0;
          s2 = PM_STORE 4 4 s1 (pi + 56) 0;
          s3 = PM_STORE 4 4 s2 (pi + 60) 0;
          s4 = PM_EQU 2 s3 (pi + 38) 1;
          s5 = PM_STORE 4 4 s4 (pi + 4) 0;
          s6 = PM_STORE 1 4 s5 (pi + 2) 0;
          s7 = PM_STORE 4 4 s6 (pi + 32) 0;
          s8 = PM_STORE 1 4 s7 (pi + 3) 0;
          num_blocks = (init_inode_table_size + pmfs_inode_blk_size s8 pi - 1) div 2 ^ pmfs_inode_blk_shift s8 pi;
          s9 = PM_EQU 8 s8 (pi + 16) (num_blocks * 2 ^ pmfs_inode_blk_shift s8 pi);
          s10 = s9\<lparr>s_inodes_count := num_blocks * 2 ^ (pmfs_inode_blk_shift s9 pi - 7) mod 2 ^ 32\<rparr>;
          num_blocks = num_blocks * 2 ^ (pmfs_inode_blk_shift s10 pi - 12)
      in do {
        (r, s11, J) \<leftarrow> pmfs_alloc_blocks_at K A E s10 None pi 0 num_blocks True 2;
        case r of
          Inl e \<Rightarrow> Some (Inl e, s11)
        | Inr _ \<Rightarrow>
            let s12 = wpmfs_confirm_mptable_dynamic s11
            in Some (Inr (), s12\<lparr>s_free_inodes_count := (s_inodes_count s12 + 2 ^ 32 - 3) mod 2 ^ 32, s_free_inode_hint := 3\<rparr>)
      })"

section \<open>Loading\<close>

text \<open>
  The inode of a number: from the kernel's cache, or a fresh one (\<open>blank\<close>) filled from the device.
\<close>

definition blank_inode :: "nat \<Rightarrow> vinode" where
  "blank_inode ino = \<lparr>i_ino = ino, i_mode = 0, i_uid = 0, i_gid = 0, i_nlink = 1, i_size = 0, i_blocks = 0,
     i_atime = 0, i_mtime = 0, i_ctime = 0, i_generation = 0, i_flags = 0, i_rdev = 0\<rparr>"

definition pmfs_iget :: "allocator_factory \<Rightarrow> (nat \<Rightarrow> vinode option) \<Rightarrow> wpmfs \<Rightarrow> nat \<Rightarrow> ((errno + vinode) \<times> wpmfs) option" where
  "pmfs_iget A cache s ino =
     (if \<not> kmem_ok s then Some (Inl ENOMEM, s)
      else case cache ino of
        Some inode \<Rightarrow> Some (Inr inode, s)
      | None \<Rightarrow> do {
          (p, s1) \<leftarrow> pmfs_get_inode A s ino;
          case p of
            None \<Rightarrow> Some (Inl EACCES, s1)
          | Some pi \<Rightarrow> Some (map_sum id (\<lambda>inode. inode\<lparr>i_ino := ino\<rparr>) (pmfs_read_inode s1 pi (blank_inode ino)), s1)
        })"

section \<open>Release\<close>

definition pmfs_free_inode :: "allocator_factory \<Rightarrow> addressing \<Rightarrow> wpmfs \<Rightarrow> jstate \<Rightarrow> nat \<Rightarrow> nat \<Rightarrow>
    ((errno + unit) \<times> wpmfs \<times> jstate) option" where
  "pmfs_free_inode A E s j ino now =
     do {
       (p, s1) \<leftarrow> pmfs_get_inode A s ino;
       (r, j1) \<leftarrow> tx_start E MAX_INODE_LENTRIES s1 j;
       case r of
         Inl e \<Rightarrow> Some (Inl e, s1, j1)
       | Inr tx \<Rightarrow> do {
           pi \<leftarrow> p;
           let J = tx_log E s1 pi MAX_DATA_PER_LENTRY (tx, j1);
           let s2 = PM_STORE 8 4 s1 (pi + 8) 0;
           let s3 = PM_STORE 8 4 s2 (pi + 16) 0;
           let s4 = PM_EQU 4 s3 (pi + 32) now;
           let (s5, j2) = tx_commit E s4 J;
           let inode_nr = ino div 2 ^ 7;
           let s6 = (if inode_nr < s_free_inode_hint s5 then s5\<lparr>s_free_inode_hint := inode_nr\<rparr> else s5);
           let s7 = s6\<lparr>s_free_inodes_count := (s_free_inodes_count s6 + 1) mod 2 ^ 32\<rparr>;
           let s8 = (if s_free_inodes_count s7 = (s_inodes_count s7 + 2 ^ 32 - 3) mod 2 ^ 32
                     then s7\<lparr>s_free_inode_hint := 3\<rparr> else s7);
           Some (Inr (), s8, j2)
         }
     }"

text \<open>The range of blocks an eviction frees.\<close>

definition evict_last_blocknr :: "wpmfs \<Rightarrow> nat \<Rightarrow> vinode \<Rightarrow> nat" where
  "evict_last_blocknr s pi inode =
     (if and (pi_flags s pi) PMFS_EOFBLOCKS_FL \<noteq> 0 then 2 ^ (pi_height s pi * 9) - 1
      else pmfs_sparse_last_blocknr (pi_height s pi)
        (if i_size inode \<noteq> 0 then (i_size inode - 1) div 2 ^ pmfs_inode_blk_shift s pi else 0))"

definition pmfs_evict_inode :: "allocator_factory \<Rightarrow> addressing \<Rightarrow> bool \<Rightarrow> wpmfs \<Rightarrow> jstate \<Rightarrow> nat list \<Rightarrow> vinode \<Rightarrow> nat \<Rightarrow>
    (vinode \<times> wpmfs \<times> jstate \<times> nat list) option" where
  "pmfs_evict_inode A E bad s j trunc inode now =
     do {
       (p, s1) \<leftarrow> pmfs_get_inode A s (i_ino inode);
       (inode1, s2, j2) \<leftarrow>
         (if i_nlink inode = 0 \<and> \<not> bad \<and> (S_ISREG (i_mode inode) \<or> S_ISDIR (i_mode inode) \<or> S_ISLNK (i_mode inode)) \<and>
             and (i_flags inode) S_APPEND = 0 \<and> and (i_flags inode) S_IMMUTABLE = 0
          then do {
            pi \<leftarrow> p;
            let root = pi_root s1 pi;
            let height = pi_height s1 pi;
            let btype = pi_blk_type s1 pi;
            let last_blocknr = evict_last_blocknr s1 pi inode;
            (r, s2, j2) \<leftarrow> pmfs_free_inode A E s1 j (i_ino inode) now;
            case r of
              Inl e \<Rightarrow> Some (inode, s2, j2)
            | Inr _ \<Rightarrow> do {
                (freed, s3) \<leftarrow> pmfs_free_inode_subtree A s2 root height btype last_blocknr;
                Some (inode\<lparr>i_mtime := now, i_ctime := now, i_size := 0\<rparr>, s3, j2)
              }
          }
          else Some (inode, s1, j));
       (s3, trunc') \<leftarrow> pmfs_truncate_del A s2 trunc (i_ino inode);
       Some (inode1, s3, j2, trunc')
     }"

section \<open>Allocation\<close>

definition pmfs_increase_inode_table_size :: "kernel_vm \<Rightarrow> allocator_factory \<Rightarrow> addressing \<Rightarrow> wpmfs \<Rightarrow> jstate \<Rightarrow>
    ((errno + unit) \<times> wpmfs \<times> jstate) option" where
  "pmfs_increase_inode_table_size K A E s j =
     (let pi = pmfs_get_inode_table s
      in do {
        (r, j1) \<leftarrow> tx_start E MAX_INODE_LENTRIES s j;
        case r of
          Inl e \<Rightarrow> Some (Inl e, s, j1)
        | Inr tx \<Rightarrow> do {
            let J = tx_log E s pi MAX_DATA_PER_LENTRY (tx, j1);
            (r2, s2, J2) \<leftarrow> pmfs_alloc_blocks_at K A E s (Some J) pi (pi_size s pi div 2 ^ 12) 1 True 2;
            J2 \<leftarrow> J2;
            let s3 = (case r2 of
                Inl e \<Rightarrow> s2
              | Inr _ \<Rightarrow>
                  let i_size = pi_size s2 pi;
                      s3 = s2\<lparr>s_free_inode_hint := i_size div 2 ^ 7 mod 2 ^ 32\<rparr>;
                      i_size = i_size + pmfs_inode_blk_size s3 pi;
                      s4 = PM_EQU 8 s3 (pi + 16) i_size
                  in s4\<lparr>s_free_inodes_count := (s_free_inodes_count s4 + INODES_PER_BLOCK (pi_blk_type s4 pi)) mod 2 ^ 32,
                       s_inodes_count := i_size div 2 ^ 7 mod 2 ^ 32\<rparr>);
            let (s4, j4) = tx_commit E s3 J2;
            Some (r2, wpmfs_confirm_mptable_dynamic s4, j4)
          }
      })"

text \<open>
  The search of \<^verbatim>\<open>pmfs_new_inode\<close>: block by block of the table, and inside the block inode by inode.
  The result is the inode number over 128 and the inode's offset.
\<close>

function find_free_inode :: "allocator_factory \<Rightarrow> nat \<Rightarrow> nat \<Rightarrow> nat \<Rightarrow> wpmfs \<Rightarrow> (nat \<times> nat option \<times> wpmfs) option" where
  "find_free_inode A inodes_per_block total_inodes i s =
     (if i < total_inodes \<and> 0 < inodes_per_block then
        (case inode_at A s (i * 2 ^ 7) of
           None \<Rightarrow> None
         | Some (pi, s1) \<Rightarrow>
             let end_ino = i + (inodes_per_block - i mod inodes_per_block);
                 k = find_next (\<lambda>k. empty_inode s1 (pi + PMFS_INODE_SIZE * (k - i))) end_ino i
             in if k < end_ino then Some (k, Some (pi + PMFS_INODE_SIZE * (k - i)), s1)
                else find_free_inode A inodes_per_block total_inodes end_ino s1)
      else Some (i, None, s))"
  by pat_completeness auto
termination
proof (relation "measure (\<lambda>(A, n, total_inodes, i, s). total_inodes - i)")
  fix A :: allocator_factory and n total_inodes i end_ino :: nat and s s1 :: wpmfs
  assume "i < total_inodes \<and> 0 < n" "end_ino = i + (n - i mod n)"
  moreover from this have "i mod n < n" by simp
  ultimately show "((A, n, total_inodes, end_ino, s1), A, n, total_inodes, i, s) \<in>
      measure (\<lambda>(A, n, total_inodes, i, s). total_inodes - i)" by auto
qed simp

declare find_free_inode.simps [simp del]

text \<open>The table grows until the search finds a free inode; a search that never does is \<open>None\<close>.\<close>

partial_function (option) search_inode :: "kernel_vm \<Rightarrow> allocator_factory \<Rightarrow> addressing \<Rightarrow> nat \<Rightarrow> nat \<Rightarrow> wpmfs \<Rightarrow> jstate \<Rightarrow>
    ((errno + nat \<times> nat) \<times> wpmfs \<times> jstate) option" where
  "search_inode K A E inodes_per_block i s j =
     (case find_free_inode A inodes_per_block (s_inodes_count s) i s of
        None \<Rightarrow> None
      | Some (k, p, s1) \<Rightarrow>
          if k < s_inodes_count s then
            (case p of None \<Rightarrow> None | Some pi \<Rightarrow> Some (Inr (k, pi), s1, j))
          else
            (case pmfs_increase_inode_table_size K A E s1 j of
               None \<Rightarrow> None
             | Some (Inl e, s2, j2) \<Rightarrow> Some (Inl e, s2, j2)
             | Some (Inr _, s2, j2) \<Rightarrow> search_inode K A E inodes_per_block k s2 j2))"

text \<open>
  \<^verbatim>\<open>pmfs_new_inode\<close>.  \<open>owner\<close> is the kernel's \<^verbatim>\<open>inode_init_owner\<close> (mode, user and group of an inode made in a
  directory), \<open>insert_ok\<close> its \<^verbatim>\<open>insert_inode_locked\<close>; \<open>gen\<close> is the new generation.  A transaction and the log
  go along; the inode that is given up on an error is marked bad, and its eviction does nothing.
\<close>

definition init_new_inode :: "wpmfs \<Rightarrow> nat \<Rightarrow> nat \<Rightarrow> nat \<Rightarrow> wpmfs" where
  "init_new_inode s pi mode dir_flags =
     (let s1 = PM_STORE 1 4 s (pi + 3) 0;
          s2 = PM_EQU 4 s1 (pi + 4) (pmfs_mask_flags mode dir_flags);
          s3 = PM_STORE 1 4 s2 (pi + 2) 0
      in PM_STORE 4 4 s3 (pi + 32) 0)"

definition take_inode :: "nat \<Rightarrow> wpmfs \<Rightarrow> wpmfs" where
  "take_inode i s =
     (let s1 = s\<lparr>s_free_inodes_count := (s_free_inodes_count s + 2 ^ 32 - 1) mod 2 ^ 32\<rparr>
      in s1\<lparr>s_free_inode_hint := (if i < s_inodes_count s1 - 1 then i + 1 else 3)\<rparr>)"

definition pmfs_new_inode :: "kernel_vm \<Rightarrow> allocator_factory \<Rightarrow> addressing \<Rightarrow> (vinode \<Rightarrow> nat \<Rightarrow> nat \<times> nat \<times> nat) \<Rightarrow> (nat \<Rightarrow> bool) \<Rightarrow>
    wpmfs \<Rightarrow> pmfs_transaction \<times> jstate \<Rightarrow> vinode \<Rightarrow> nat \<Rightarrow> nat \<Rightarrow> nat \<Rightarrow>
    ((errno + vinode) \<times> wpmfs \<times> pmfs_transaction \<times> jstate) option" where
  "pmfs_new_inode K A E owner insert_ok s J dir mode gen now =
     (if \<not> kmem_ok s then Some (Inl ENOMEM, s, J)
      else do {
        let (imode, uid, gid) = owner dir mode;
        let inode = (blank_inode 0)\<lparr>i_mode := imode, i_uid := uid, i_gid := gid, i_atime := now, i_mtime := now, i_ctime := now,
              i_generation := gen\<rparr>;
        let inode_table = pmfs_get_inode_table s;
        (diri, s1) \<leftarrow> pmfs_get_inode A s (i_ino dir);
        case diri of
          None \<Rightarrow> Some (Inl EACCES, s1, J)
        | Some diri \<Rightarrow> do {
            (r, s2, j2) \<leftarrow> search_inode K A E (INODES_PER_BLOCK (pi_blk_type s1 inode_table)) (s_free_inode_hint s1) s1 (snd J);
            case r of
              Inl e \<Rightarrow> Some (Inl e, s2, fst J, j2)
            | Inr (i, pi) \<Rightarrow>
                let inode = inode\<lparr>i_ino := i * 2 ^ 7\<rparr>;
                    J3 = tx_log E s2 pi 80 (fst J, j2);
                    s4 = take_inode i (init_new_inode s2 pi mode (pi_flags s2 diri));
                    s5 = pmfs_update_inode s4 pi inode;
                    inode = pmfs_set_inode_flags s5 pi inode
                in Some (if insert_ok (i_ino inode) then Inr inode else Inl EINVAL, s5, J3)
          }
      })"

section \<open>Size and attributes\<close>

definition pmfs_block_truncate_page :: "allocator_factory \<Rightarrow> wpmfs \<Rightarrow> vinode \<Rightarrow> nat \<Rightarrow> wpmfs option" where
  "pmfs_block_truncate_page A s inode newsize =
     (let offset = newsize mod 2 ^ 12
      in if offset = 0 \<or> newsize > i_size inode then Some s
      else do {
        (blockoff, s1) \<leftarrow> pmfs_find_data_block A s (i_ino inode) (newsize div 2 ^ 12);
        if blockoff = 0 then Some s1
        else case wpmfs_get_block s1 (of_nat blockoff) of
          None \<Rightarrow> None
        | Some bp \<Rightarrow> Some (if bp = 0 then s1 else PM_MEMSET s1 (va_off s1 bp + offset) 0 (2 ^ 12 - offset))
      })"

definition pmfs_setsize :: "allocator_factory \<Rightarrow> wpmfs \<Rightarrow> vinode \<Rightarrow> nat \<Rightarrow> nat \<Rightarrow> (vinode \<times> wpmfs) option" where
  "pmfs_setsize A s inode newsize now =
     (if \<not> (S_ISREG (i_mode inode) \<or> S_ISDIR (i_mode inode) \<or> S_ISLNK (i_mode inode)) then Some (inode, s)
      else do {
        let oldsize = i_size inode;
        s1 \<leftarrow> (if newsize \<noteq> oldsize then pmfs_block_truncate_page A s inode newsize else Some s);
        pmfs_truncate_blocks A s1 (inode\<lparr>i_size := newsize\<rparr>) newsize oldsize now
      })"

abbreviation ATTR_MODE :: nat where "ATTR_MODE \<equiv> 1"
abbreviation ATTR_UID :: nat where "ATTR_UID \<equiv> 2"
abbreviation ATTR_GID :: nat where "ATTR_GID \<equiv> 4"
abbreviation ATTR_SIZE :: nat where "ATTR_SIZE \<equiv> 8"
abbreviation ATTR_ATIME :: nat where "ATTR_ATIME \<equiv> 16"
abbreviation ATTR_MTIME :: nat where "ATTR_MTIME \<equiv> 32"
abbreviation ATTR_CTIME :: nat where "ATTR_CTIME \<equiv> 64"

definition pmfs_update_single_field :: "wpmfs \<Rightarrow> vinode \<Rightarrow> nat \<Rightarrow> nat \<Rightarrow> wpmfs" where
  "pmfs_update_single_field s inode pi ia_valid =
     (if ia_valid = ATTR_MODE then PM_EQU 2 s (pi + 36) (i_mode inode)
      else if ia_valid = ATTR_UID then PM_EQU 4 s (pi + 56) (i_uid inode)
      else if ia_valid = ATTR_GID then PM_EQU 4 s (pi + 60) (i_gid inode)
      else if ia_valid = ATTR_SIZE then PM_EQU 8 s (pi + 16) (i_size inode)
      else if ia_valid = ATTR_ATIME then PM_EQU 4 s (pi + 68) (i_atime inode)
      else if ia_valid = ATTR_CTIME then PM_EQU 4 s (pi + 24) (i_ctime inode)
      else if ia_valid = ATTR_MTIME then PM_EQU 4 s (pi + 28) (i_mtime inode)
      else s)"

text \<open>
  \<^verbatim>\<open>pmfs_notify_change\<close>; \<open>prepare\<close> is the kernel's permission check (\<^verbatim>\<open>setattr_prepare\<close>), \<open>copy\<close> its
  \<^verbatim>\<open>setattr_copy\<close>.
\<close>

definition pmfs_notify_change :: "allocator_factory \<Rightarrow> addressing \<Rightarrow> errno option \<Rightarrow> (vinode \<Rightarrow> vinode) \<Rightarrow> wpmfs \<Rightarrow> jstate \<Rightarrow>
    nat list \<Rightarrow> vinode \<Rightarrow> nat \<Rightarrow> nat \<Rightarrow> nat \<Rightarrow> ((errno + unit) \<times> vinode \<times> wpmfs \<times> jstate \<times> nat list) option" where
  "pmfs_notify_change A E prepare copy s j trunc inode ia_valid ia_size now =
     do {
       (p, s1) \<leftarrow> pmfs_get_inode A s (i_ino inode);
       case p of
         None \<Rightarrow> Some (Inl EACCES, inode, s1, j, trunc)
       | Some pi \<Rightarrow>
           (case prepare of
              Some e \<Rightarrow> Some (Inl e, inode, s1, j, trunc)
            | None \<Rightarrow> do {
                (inode1, s2, trunc1, valid) \<leftarrow>
                  (if and ia_valid ATTR_SIZE \<noteq> 0 \<and> (ia_size \<noteq> i_size inode \<or> and (pi_flags s1 pi) PMFS_EOFBLOCKS_FL \<noteq> 0)
                   then do {
                     (s2, trunc1) \<leftarrow> pmfs_truncate_add A s1 trunc (i_ino inode) ia_size;
                     (inode1, s3) \<leftarrow> pmfs_setsize A (pmfs_set_blocksize_hint s2 pi) inode ia_size now;
                     (s4, trunc2) \<leftarrow> pmfs_truncate_del A (pmfs_update_isize s3 pi inode1) trunc1 (i_ino inode);
                     Some (inode1, s4, trunc2, clear_bits ia_valid (ATTR_CTIME + ATTR_MTIME))
                   }
                   else Some (inode, s1, trunc, ia_valid));
                let inode2 = copy inode1;
                let valid = and valid (ATTR_MODE + ATTR_UID + ATTR_GID + ATTR_ATIME + ATTR_MTIME + ATTR_CTIME);
                if valid = 0 then Some (Inr (), inode2, s2, j, trunc1)
                else if and valid (valid - 1) = 0 then Some (Inr (), inode2, pmfs_update_single_field s2 inode2 pi valid, j, trunc1)
                else do {
                  (r, j1) \<leftarrow> tx_start E MAX_INODE_LENTRIES s2 j;
                  case r of
                    Inl e \<Rightarrow> Some (Inl e, inode2, s2, j1, trunc1)
                  | Inr tx \<Rightarrow>
                      let J = tx_log E s2 pi 80 (tx, j1);
                          (s3, j2) = tx_commit E (pmfs_update_inode s2 pi inode2) J
                      in Some (Inr (), inode2, s3, j2, trunc1)
                }
              })
     }"

section \<open>The truncate list at mount\<close>

text \<open>
  \<^verbatim>\<open>pmfs_recover_truncate_list\<close> (\<^verbatim>\<open>super.c\<close>).  An inode without links is freed by the kernel's release of the
  last reference, which evicts it; the list in memory is empty then.  A chain that comes back to itself is
  never left: \<open>None\<close>.
\<close>

definition recover_truncated :: "allocator_factory \<Rightarrow> addressing \<Rightarrow> wpmfs \<Rightarrow> jstate \<Rightarrow> nat \<Rightarrow> vinode \<Rightarrow> nat \<Rightarrow> nat \<Rightarrow>
    (wpmfs \<times> jstate) option" where
  "recover_truncated A E s j pi inode truncatesize now =
     (if i_nlink inode \<noteq> 0 then do {
        (inode1, s1) \<leftarrow> pmfs_setsize A (pmfs_set_blocksize_hint s pi) inode truncatesize now;
        Some (pmfs_update_isize s1 pi inode1, j)
      }
      else do { (inode1, s1, j1, t) \<leftarrow> pmfs_evict_inode A E False s j [] inode now; Some (s1, j1) })"

partial_function (option) recover_list :: "allocator_factory \<Rightarrow> addressing \<Rightarrow> (nat \<Rightarrow> vinode option) \<Rightarrow> nat \<Rightarrow> nat \<Rightarrow> wpmfs \<Rightarrow> jstate \<Rightarrow>
    (wpmfs \<times> jstate) option" where
  "recover_list A E cache now ino_next s j =
     (if ino_next = 0 then Some (s, j)
      else case inode_at A s ino_next of
        None \<Rightarrow> None
      | Some (pi, s1) \<Rightarrow>
          (case pmfs_iget A cache s1 ino_next of
             None \<Rightarrow> None
           | Some (Inl e, s2) \<Rightarrow> Some (s2, j)
           | Some (Inr inode, s2) \<Rightarrow>
               (case recover_truncated A E s2 j pi inode (li_truncatesize s2 (pi + 80)) now of
                  None \<Rightarrow> None
                | Some (s3, j3) \<Rightarrow> recover_list A E cache now (li_next s3 (pi + 80)) s3 j3)))"

definition pmfs_recover_truncate_list :: "allocator_factory \<Rightarrow> addressing \<Rightarrow> (nat \<Rightarrow> vinode option) \<Rightarrow> nat \<Rightarrow> wpmfs \<Rightarrow> jstate \<Rightarrow>
    (wpmfs \<times> jstate) option" where
  "pmfs_recover_truncate_list A E cache now s j =
     (let ino_next = li_next s (truncate_head s)
      in if ino_next = 0 then Some (s, j)
      else do {
        (s1, j1) \<leftarrow> recover_list A E cache now ino_next s j;
        Some (PM_STORE 8 4 s1 (truncate_head s + 8) 0, j1)
      })"

end
