(* ===== verification/DirEntry.thy ===== *)
theory DirEntry
  imports InodeOps
begin

text \<open>
  Directory entries in a block (\<^verbatim>\<open>struct pmfs_direntry\<close>; \<^verbatim>\<open>pmfs_add_dirent_to_buf\<close> of \<^verbatim>\<open>dir.c\<close>,
  \<^verbatim>\<open>pmfs_search_dirblock\<close> and \<^verbatim>\<open>pmfs_check_dir_entry\<close> of \<^verbatim>\<open>namei.c\<close>).  A block is a chain of entries of
  variable length that fills its 4096 bytes; an entry whose inode number is 0 is unused.  A block is given
  by the device offset of its first byte, an entry by its offset from there; a name is a list of bytes.
\<close>

section \<open>Entries\<close>

definition de_ino :: "(nat \<Rightarrow> 8 word) \<Rightarrow> nat \<Rightarrow> nat" where "de_ino m de = le_load 8 m de"
definition de_len :: "(nat \<Rightarrow> 8 word) \<Rightarrow> nat \<Rightarrow> nat" where "de_len m de = le_load 2 m (de + 8)"
definition de_name_len :: "(nat \<Rightarrow> 8 word) \<Rightarrow> nat \<Rightarrow> nat" where "de_name_len m de = le_load 1 m (de + 10)"
definition de_name :: "(nat \<Rightarrow> 8 word) \<Rightarrow> nat \<Rightarrow> nat \<Rightarrow> 8 word list" where "de_name m de n = mem_read m (de + 12) n"

definition PMFS_DIR_REC_LEN :: "nat \<Rightarrow> nat" where
  "PMFS_DIR_REC_LEN name_len = (name_len + 12 + 3) div 4 * 4"

definition pmfs_match :: "(nat \<Rightarrow> 8 word) \<Rightarrow> 8 word list \<Rightarrow> nat \<Rightarrow> bool" where
  "pmfs_match m name de \<longleftrightarrow> length name = de_name_len m de \<and> de_ino m de \<noteq> 0 \<and> de_name m de (length name) = name"

definition pmfs_check_dir_entry :: "(nat \<Rightarrow> 8 word) \<Rightarrow> nat \<Rightarrow> nat \<Rightarrow> bool" where
  "pmfs_check_dir_entry m base off =
     (let rlen = de_len m (base + off)
      in \<not> rlen < PMFS_DIR_REC_LEN 1 \<and> \<not> rlen mod 4 \<noteq> 0 \<and> \<not> rlen < PMFS_DIR_REC_LEN (de_name_len m (base + off))
         \<and> \<not> off + rlen > PAGE_SIZE)"

lemma check_len: "pmfs_check_dir_entry m base off \<Longrightarrow> 16 \<le> de_len m (base + off) \<and> off + de_len m (base + off) \<le> 4096"
  by (auto simp: pmfs_check_dir_entry_def PMFS_DIR_REC_LEN_def Let_def)

section \<open>Search\<close>

text \<open>\<^verbatim>\<open>1\<close> with the entry and the one before it, \<^verbatim>\<open>0\<close> and \<^verbatim>\<open>-1\<close>.\<close>

datatype search_result = Found nat "nat option" | NotFound | BadBlock

function search_loop :: "(nat \<Rightarrow> 8 word) \<Rightarrow> nat \<Rightarrow> 8 word list \<Rightarrow> nat \<Rightarrow> nat option \<Rightarrow> search_result" where
  "search_loop m base name off pde =
     (if off < PAGE_SIZE then
        (if off + length name \<le> PAGE_SIZE \<and> pmfs_match m name (base + off) then
           (if pmfs_check_dir_entry m base off then Found off pde else BadBlock)
         else if de_len m (base + off) = 0 then BadBlock
         else search_loop m base name (off + de_len m (base + off)) (Some off))
      else NotFound)"
  by pat_completeness auto
termination
  by (relation "measure (\<lambda>(m, base, name, off, pde). PAGE_SIZE - off)") auto

declare search_loop.simps [simp del]

definition pmfs_search_dirblock :: "(nat \<Rightarrow> 8 word) \<Rightarrow> nat \<Rightarrow> 8 word list \<Rightarrow> search_result" where
  "pmfs_search_dirblock m base name = search_loop m base name 0 None"

section \<open>Adding an entry\<close>

text \<open>
  The search for an entry with room for \<open>reclen\<close> bytes.  An entry of length 0 keeps the code in the loop
  for ever: \<open>None\<close> is not returning.
\<close>

partial_function (option) find_room :: "(nat \<Rightarrow> 8 word) \<Rightarrow> nat \<Rightarrow> nat \<Rightarrow> nat \<Rightarrow> (errno + nat) option" where
  "find_room m base reclen off =
     (if off \<le> PAGE_SIZE - reclen then
        (let rlen = de_len m (base + off)
         in if (if de_ino m (base + off) \<noteq> 0 then PMFS_DIR_REC_LEN (de_name_len m (base + off)) + reclen \<le> rlen else reclen \<le> rlen)
            then Some (Inr off)
            else find_room m base reclen (off + rlen))
      else Some (Inl ENOSPC))"

text \<open>Bytes that do not come from the device.\<close>

definition pm_write :: "wpmfs \<Rightarrow> nat \<Rightarrow> 8 word list \<Rightarrow> wpmfs" where
  "pm_write s off bs = pm_touch (s\<lparr>pm := mem_write (pm s) off bs\<rparr>) off (length bs)"

definition log_off :: "addressing \<Rightarrow> tx_ctx \<Rightarrow> wpmfs \<Rightarrow> nat \<Rightarrow> nat \<Rightarrow> tx_ctx" where
  "log_off E J s off len = map_option (tx_log E s off len) J"

text \<open>An entry in use is split: it keeps what it needs, and the rest becomes the new entry.\<close>

definition split_entry :: "addressing \<Rightarrow> wpmfs \<Rightarrow> tx_ctx \<Rightarrow> nat \<Rightarrow> nat \<times> wpmfs \<times> tx_ctx" where
  "split_entry E s J de =
     (let rlen = de_len (pm s) de
      in if de_ino (pm s) de \<noteq> 0 then
        let J1 = log_off E J s (de + 8) 2;
            nlen = PMFS_DIR_REC_LEN (de_name_len (pm s) de);
            s1 = PM_EQU 2 s (de + nlen + 8) (rlen - nlen);
            s2 = PM_EQU 2 s1 (de + 8) nlen
        in (de + nlen, s2, J1)
      else (de, s, log_off E J s de 8))"

definition write_entry :: "wpmfs \<Rightarrow> nat \<Rightarrow> nat option \<Rightarrow> 8 word list \<Rightarrow> wpmfs" where
  "write_entry s de ino name =
     (let s1 = (case ino of Some i \<Rightarrow> PM_EQU 8 s de i | None \<Rightarrow> PM_STORE 8 4 s de 0);
          s2 = PM_STORE 1 4 s1 (de + 10) (length name)
      in pm_write s2 (de + 12) name)"

text \<open>\<open>de\<close> is the entry the caller already knows to be free.\<close>

definition pmfs_add_dirent_to_buf :: "addressing \<Rightarrow> tx_ctx \<Rightarrow> wpmfs \<Rightarrow> vinode \<Rightarrow> 8 word list \<Rightarrow> nat option \<Rightarrow> nat option \<Rightarrow>
    nat \<Rightarrow> nat \<Rightarrow> nat \<Rightarrow> ((errno + unit) \<times> vinode \<times> wpmfs \<times> tx_ctx) option" where
  "pmfs_add_dirent_to_buf E J s dir name ino de base pidir now =
     do {
       r \<leftarrow> (case de of Some off \<Rightarrow> Some (Inr off)
             | None \<Rightarrow> find_room (pm s) base (PMFS_DIR_REC_LEN (length name) mod 2 ^ 16) 0);
       case r of
         Inl e \<Rightarrow> Some (Inl e, dir, s, J)
       | Inr off \<Rightarrow>
           let (de, s1, J1) = split_entry E s J (base + off);
               s2 = write_entry s1 de ino name;
               s3 = PM_EQU 4 (PM_EQU 4 s2 (pidir + 28) now) (pidir + 24) now
           in Some (Inr (), dir\<lparr>i_mtime := now, i_ctime := now\<rparr>, s3, J1)
     }"

section \<open>Removing an entry\<close>

definition remove_dirent :: "addressing \<Rightarrow> tx_ctx \<Rightarrow> wpmfs \<Rightarrow> nat \<Rightarrow> nat \<Rightarrow> nat option \<Rightarrow> wpmfs \<times> tx_ctx" where
  "remove_dirent E J s base res prev =
     (case prev of
        Some p \<Rightarrow>
          let J1 = log_off E J s (base + p + 8) 2
          in (PM_EQU 2 s (base + p + 8) (de_len (pm s) (base + p) + de_len (pm s) (base + res)), J1)
      | None \<Rightarrow>
          let J1 = log_off E J s (base + res) 8
          in (PM_STORE 8 4 s (base + res) 0, J1))"

section \<open>The first entries of a new directory\<close>

abbreviation DOT :: "8 word list" where "DOT \<equiv> [46]"
abbreviation DOTDOT :: "8 word list" where "DOTDOT \<equiv> [46, 46]"

definition init_dir_block :: "wpmfs \<Rightarrow> nat \<Rightarrow> nat \<Rightarrow> nat \<Rightarrow> wpmfs" where
  "init_dir_block s base ino parent =
     (let s1 = PM_EQU 8 s base ino;
          s2 = PM_STORE 1 4 s1 (base + 10) 1;
          s3 = PM_EQU 2 s2 (base + 8) (PMFS_DIR_REC_LEN (de_name_len (pm s2) base));
          s4 = pm_touch (s3\<lparr>pm := mem_write (pm s3) (base + 12) (DOT @ [0])\<rparr>) (base + 12) 1;
          de = base + de_len (pm s4) base;
          s5 = PM_EQU 8 s4 de parent;
          s6 = PM_EQU 2 s5 (de + 8) (PAGE_SIZE - PMFS_DIR_REC_LEN 1);
          s7 = PM_STORE 1 4 s6 (de + 10) 2
      in pm_touch (s7\<lparr>pm := mem_write (pm s7) (de + 12) (DOTDOT @ [0])\<rparr>) (de + 12) 2)"

end
