(* ===== verification/DirSpec.thy ===== *)
theory DirSpec
  imports DirEntry
begin

text \<open>
  A directory block as a list of names.  A well-formed block is a chain of valid entries up to its end;
  search finds what the list holds, adding and removing an entry change the list by that entry.
\<close>

section \<open>The names of a block\<close>

lemma rec_len_bounds: "n + 12 \<le> PMFS_DIR_REC_LEN n" "PMFS_DIR_REC_LEN n \<le> n + 15" "PMFS_DIR_REC_LEN n mod 4 = 0"
  "PMFS_DIR_REC_LEN 1 = 16" "n \<le> 255 \<Longrightarrow> PMFS_DIR_REC_LEN n mod 65536 = PMFS_DIR_REC_LEN n"
proof -
  show "n + 12 \<le> PMFS_DIR_REC_LEN n" "PMFS_DIR_REC_LEN n \<le> n + 15" "PMFS_DIR_REC_LEN n mod 4 = 0" "PMFS_DIR_REC_LEN 1 = 16"
    unfolding PMFS_DIR_REC_LEN_def by presburger+
  then show "n \<le> 255 \<Longrightarrow> PMFS_DIR_REC_LEN n mod 65536 = PMFS_DIR_REC_LEN n" by simp
qed

lemma rec_len_least: "0 < n \<Longrightarrow> 16 \<le> PMFS_DIR_REC_LEN n"
  unfolding PMFS_DIR_REC_LEN_def by presburger

function block_names :: "(nat \<Rightarrow> 8 word) \<Rightarrow> nat \<Rightarrow> nat \<Rightarrow> (8 word list \<times> nat) list" where
  "block_names m base off =
     (if off < 4096 \<and> pmfs_check_dir_entry m base off then
        (if de_ino m (base + off) = 0 then []
         else [(de_name m (base + off) (de_name_len m (base + off)), de_ino m (base + off))]) @
        block_names m base (off + de_len m (base + off))
      else [])"
  by pat_completeness auto
termination
  by (relation "measure (\<lambda>(m, base, off). 4096 - off)") (auto dest!: check_len)

text \<open>A name is not empty; the length of a new entry relies on it.\<close>

definition entry_ok :: "(nat \<Rightarrow> 8 word) \<Rightarrow> nat \<Rightarrow> nat \<Rightarrow> bool" where
  "entry_ok m base off \<longleftrightarrow> pmfs_check_dir_entry m base off \<and> (de_ino m (base + off) \<noteq> 0 \<longrightarrow> 0 < de_name_len m (base + off))"

function block_wf :: "(nat \<Rightarrow> 8 word) \<Rightarrow> nat \<Rightarrow> nat \<Rightarrow> bool" where
  "block_wf m base off \<longleftrightarrow>
     (if off < 4096 \<and> entry_ok m base off then block_wf m base (off + de_len m (base + off)) else off = 4096)"
  by pat_completeness auto
termination
  by (relation "measure (\<lambda>(m, base, off). 4096 - off)") (auto simp: entry_ok_def dest!: check_len)

declare block_names.simps [simp del] block_wf.simps [simp del]

abbreviation entry_names :: "(nat \<Rightarrow> 8 word) \<Rightarrow> nat \<Rightarrow> (8 word list \<times> nat) list" where
  "entry_names m de \<equiv> (if de_ino m de = 0 then [] else [(de_name m de (de_name_len m de), de_ino m de)])"

lemma block_wf_end: "block_wf m base off \<Longrightarrow> \<not> off < 4096 \<Longrightarrow> off = 4096"
  by (subst (asm) block_wf.simps) auto

lemma block_wf_step:
  assumes "block_wf m base off" "off < 4096"
  shows "entry_ok m base off" "block_wf m base (off + de_len m (base + off))" "16 \<le> de_len m (base + off)"
    "off + de_len m (base + off) \<le> 4096" "de_len m (base + off) mod 4 = 0"
    "PMFS_DIR_REC_LEN (de_name_len m (base + off)) \<le> de_len m (base + off)"
    "block_names m base off = entry_names m (base + off) @ block_names m base (off + de_len m (base + off))"
    "pmfs_check_dir_entry m base off" "de_ino m (base + off) \<noteq> 0 \<Longrightarrow> 0 < de_name_len m (base + off)"
proof -
  show c: "entry_ok m base off" "block_wf m base (off + de_len m (base + off))"
    using assms by (subst (asm) block_wf.simps; auto split: if_splits)+
  show k: "pmfs_check_dir_entry m base off" and "de_ino m (base + off) \<noteq> 0 \<Longrightarrow> 0 < de_name_len m (base + off)"
    using c(1) by (auto simp: entry_ok_def)
  show "16 \<le> de_len m (base + off)" "off + de_len m (base + off) \<le> 4096" using check_len [OF k] by auto
  show "de_len m (base + off) mod 4 = 0" "PMFS_DIR_REC_LEN (de_name_len m (base + off)) \<le> de_len m (base + off)"
    using k by (auto simp: pmfs_check_dir_entry_def Let_def)
  show "block_names m base off = entry_names m (base + off) @ block_names m base (off + de_len m (base + off))"
    using assms(2) k by (subst block_names.simps) simp
qed

lemma block_names_end: "\<not> off < 4096 \<Longrightarrow> block_names m base off = []"
  by (subst block_names.simps) simp

section \<open>Search\<close>

lemma match_names: "pmfs_match m name de \<longleftrightarrow> name \<in> fst ` set (entry_names m de)"
  by (auto simp: pmfs_match_def de_name_def mem_read_def)

lemma search_spec:
  "block_wf m base off \<Longrightarrow>
    (case search_loop m base name off pde of
       NotFound \<Rightarrow> name \<notin> fst ` set (block_names m base off)
     | Found res prev \<Rightarrow> off \<le> res \<and> res < 4096 \<and> map_of (block_names m base off) name = Some (de_ino m (base + res))
     | BadBlock \<Rightarrow> False)"
proof (induction m base name off pde rule: search_loop.induct)
  case (1 m base name off pde)
  show ?case
  proof (cases "off < 4096")
    case False
    then show ?thesis by (simp add: search_loop.simps block_names_end)
  next
    case lt: True
    note S = block_wf_step [OF 1(2) lt]
    note unf = search_loop.simps [of m base name off pde]
    let ?l = "de_len m (base + off)"
    show ?thesis
    proof (cases "pmfs_match m name (base + off)")
      case True
      then have "length name = de_name_len m (base + off)" "de_ino m (base + off) \<noteq> 0"
        "de_name m (base + off) (length name) = name" by (auto simp: pmfs_match_def)
      moreover have "off + length name \<le> 4096"
        using S(4,6) rec_len_bounds(1) [of "de_name_len m (base + off)"] calculation(1) by linarith
      ultimately show ?thesis using lt True S(7,8) by (simp add: unf)
    next
      case False
      have "?l \<noteq> 0" using S(3) by linarith
      then have e: "search_loop m base name off pde = search_loop m base name (off + ?l) (Some off)" using lt False by (simp add: unf)
      have n: "name \<notin> fst ` set (entry_names m (base + off))" using False by (simp add: match_names)
      then have n': "map_of (entry_names m (base + off) @ xs) name = map_of xs name" for xs by (auto split: if_splits)
      have "\<not> (off + length name \<le> 4096 \<and> pmfs_match m name (base + off))" using False by simp
      from 1(1) [OF lt this \<open>?l \<noteq> 0\<close> S(2)] show ?thesis unfolding e S(7) n'
        using n by (cases "search_loop m base name (off + ?l) (Some off)") auto
    qed
  qed
qed

section \<open>Memories that agree\<close>

abbreviation same_on :: "nat \<Rightarrow> nat \<Rightarrow> (nat \<Rightarrow> 8 word) \<Rightarrow> (nat \<Rightarrow> 8 word) \<Rightarrow> bool" where
  "same_on a b m m' \<equiv> \<forall>x. a \<le> x \<longrightarrow> x < b \<longrightarrow> m' x = m x"

lemma entry_same:
  assumes "same_on de (de + k) m m'"
  shows "8 \<le> k \<Longrightarrow> de_ino m' de = de_ino m de" "10 \<le> k \<Longrightarrow> de_len m' de = de_len m de"
    "11 \<le> k \<Longrightarrow> de_name_len m' de = de_name_len m de"
    "12 + n \<le> k \<Longrightarrow> de_name m' de n = de_name m de n"
  using assms by (auto simp: de_ino_def de_len_def de_name_len_def de_name_def mem_read_def intro!: le_load_cong)

lemma entry_names_same:
  assumes "same_on de (de + k) m m'" "PMFS_DIR_REC_LEN (de_name_len m de) \<le> k"
  shows "entry_names m' de = entry_names m de"
proof -
  have "12 + de_name_len m de \<le> k" using assms(2) rec_len_bounds(1) [of "de_name_len m de"] by linarith
  then show ?thesis using entry_same [OF assms(1)] by simp
qed

lemma check_same:
  assumes "same_on (base + off) (base + off + k) m m'" "16 \<le> k"
  shows "entry_ok m' base off = entry_ok m base off"
  using entry_same [OF assms(1)] assms(2) by (simp add: entry_ok_def pmfs_check_dir_entry_def)

lemma block_same:
  "same_on (base + off) (base + 4096) m m' \<Longrightarrow> block_wf m base off \<Longrightarrow>
    block_wf m' base off \<and> block_names m' base off = block_names m base off"
proof (induction m base off rule: block_wf.induct)
  case (1 m base off)
  show ?case
  proof (cases "off < 4096")
    case True
    note S = block_wf_step [OF 1(3) True]
    let ?l = "de_len m (base + off)"
    have sm: "same_on (base + off) (base + off + ?l) m m'" "same_on (base + (off + ?l)) (base + 4096) m m'" using 1(2) S(4) by auto
    have l: "de_len m' (base + off) = ?l" using entry_same(2) [OF sm(1)] S(3) by simp
    have c: "entry_ok m' base off" using check_same [OF sm(1) S(3)] S(1) by simp
    have IH: "block_wf m' base (off + ?l) \<and> block_names m' base (off + ?l) = block_names m base (off + ?l)"
      by (rule 1(1)) (use True S(1,2) sm(2) in auto)
    have "block_wf m' base off" using True c IH by (subst block_wf.simps) (simp add: l)
    moreover have "block_names m' base off = block_names m base off"
      using block_wf_step(7) [OF calculation True] S(7) IH entry_names_same [OF sm(1) S(6)] by (simp add: l)
    ultimately show ?thesis by simp
  next
    case False
    then show ?thesis using 1(3) block_wf_end [OF 1(3)] by (simp add: block_wf.simps block_names_end)
  qed
qed

section \<open>Removal\<close>

lemma search_from:
  "search_loop m base name off pde = Found res prev \<Longrightarrow>
    off \<le> res \<and> res < 4096 \<and> pmfs_match m name (base + res) \<and>
    (if res = off then prev = pde else \<exists>p. prev = Some p \<and> off \<le> p \<and> p < res \<and> p + de_len m (base + p) = res)"
proof (induction m base name off pde rule: search_loop.induct)
  case (1 m base name off pde)
  note unf = search_loop.simps [of m base name off pde]
  show ?case
  proof (cases "off < 4096 \<and> \<not> (off + length name \<le> 4096 \<and> pmfs_match m name (base + off)) \<and> de_len m (base + off) \<noteq> 0")
    case False
    with 1(2) show ?thesis by (auto simp: unf split: if_splits)
  next
    case True
    then have e: "search_loop m base name (off + de_len m (base + off)) (Some off) = Found res prev"
      using 1(2) by (auto simp: unf split: if_splits)
    from 1(1) [OF _ _ _ e] True show ?thesis by (auto split: if_splits)
  qed
qed

lemma search_hit:
  assumes "block_wf m base off" "off < 4096" "pmfs_match m name (base + off)"
  shows "search_loop m base name off pde = Found off pde"
proof -
  note S = block_wf_step [OF assms(1,2)]
  have "length name = de_name_len m (base + off)" using assms(3) by (simp add: pmfs_match_def)
  then have "off + length name \<le> 4096" using S(4,6) rec_len_bounds(1) [of "de_name_len m (base + off)"] by linarith
  with assms S(8) show ?thesis by (simp add: search_loop.simps)
qed

lemma search_miss:
  assumes "block_wf m base off" "off < 4096" "\<not> pmfs_match m name (base + off)"
  shows "search_loop m base name off pde = search_loop m base name (off + de_len m (base + off)) (Some off)"
  using assms block_wf_step(3) [OF assms(1,2)] by (subst search_loop.simps) simp

lemma remove_first_spec:
  assumes wf: "block_wf m base off" "off < 4096" and hit: "pmfs_match m name (base + off)"
  defines "m' \<equiv> le_store 8 m (base + off) 0"
  shows "block_wf m' base off \<and> block_names m base off = (name, de_ino m (base + off)) # block_names m' base off"
proof -
  note S = block_wf_step [OF wf]
  let ?l = "de_len m (base + off)"
  have h: "length name = de_name_len m (base + off)" "de_ino m (base + off) \<noteq> 0" "de_name m (base + off) (length name) = name"
    using hit by (auto simp: pmfs_match_def)
  have f: "de_len m' (base + off) = ?l" "de_name_len m' (base + off) = de_name_len m (base + off)" "de_ino m' (base + off) = 0"
    by (simp_all add: de_len_def de_name_len_def de_ino_def m'_def le_load_store_other)
  have "same_on (base + (off + ?l)) (base + 4096) m m'" using S(3) by (simp add: m'_def)
  from block_same [OF this S(2)] have t: "block_wf m' base (off + ?l)" "block_names m' base (off + ?l) = block_names m base (off + ?l)"
    by auto
  have "entry_ok m' base off" using S(8) by (simp add: entry_ok_def pmfs_check_dir_entry_def f)
  then have w: "block_wf m' base off" using t(1) wf(2) by (subst block_wf.simps) (simp add: f)
  show ?thesis using w block_wf_step(7) [OF w wf(2)] S(7) t(2) h by (simp add: f)
qed

lemma remove_merge:
  assumes wf: "block_wf m base off" "off < 4096" and hit: "pmfs_match m name (base + (off + de_len m (base + off)))"
    and lt: "off + de_len m (base + off) < 4096" and miss: "\<not> pmfs_match m name (base + off)"
  defines "m' \<equiv> le_store 2 m (base + off + 8) (de_len m (base + off) + de_len m (base + (off + de_len m (base + off))))"
  shows "block_wf m' base off \<and> (\<exists>xs ys. block_names m base off = xs @ (name, de_ino m (base + (off + de_len m (base + off)))) # ys \<and>
    block_names m' base off = xs @ ys \<and> name \<notin> fst ` set xs)"
proof -
  let ?l = "de_len m (base + off)"
  let ?l2 = "de_len m (base + (off + ?l))"
  note S = block_wf_step [OF wf] and T = block_wf_step [OF block_wf_step(2) [OF wf] lt]
  have h: "length name = de_name_len m (base + (off + ?l))" "de_ino m (base + (off + ?l)) \<noteq> 0"
    "de_name m (base + (off + ?l)) (length name) = name"
    using hit by (auto simp: pmfs_match_def)
  have sum: "?l + ?l2 \<le> 4096" using T(4) by linarith
  have f: "de_len m' (base + off) = ?l + ?l2" using sum by (simp add: de_len_def m'_def)
  have g: "de_name_len m' (base + off) = de_name_len m (base + off)" "de_ino m' (base + off) = de_ino m (base + off)"
    "de_name m' (base + off) n = de_name m (base + off) n" for n
    by (simp_all add: de_name_len_def de_ino_def de_name_def m'_def le_load_store_other mem_read_def)
  have "same_on (base + (off + ?l + ?l2)) (base + 4096) m m'" using S(3) by (simp add: m'_def)
  from block_same [OF this T(2)] have t: "block_wf m' base (off + ?l + ?l2)"
    "block_names m' base (off + ?l + ?l2) = block_names m base (off + ?l + ?l2)" by auto
  have "(?l + ?l2) mod 4 = 0" using S(5) T(5) by presburger
  then have "entry_ok m' base off"
    using S(3,6,9) T(4) rec_len_bounds(4) by (simp add: entry_ok_def pmfs_check_dir_entry_def f g)
  then have w: "block_wf m' base off" using t(1) wf(2) by (subst block_wf.simps) (simp add: f add.assoc)
  have n': "block_names m' base off = entry_names m (base + off) @ block_names m base (off + ?l + ?l2)"
    using block_wf_step(7) [OF w wf(2)] t(2) by (simp add: f g add.assoc)
  have n: "block_names m base off = entry_names m (base + off) @ (name, de_ino m (base + (off + ?l))) # block_names m base (off + ?l + ?l2)"
    using S(7) T(7) h by simp
  have "name \<notin> fst ` set (entry_names m (base + off))" using miss by (simp add: match_names)
  with w n n' show ?thesis by blast
qed

text \<open>The entry found, and the memory in which it is gone.\<close>

definition removed_mem :: "(nat \<Rightarrow> 8 word) \<Rightarrow> nat \<Rightarrow> nat \<Rightarrow> nat option \<Rightarrow> (nat \<Rightarrow> 8 word)" where
  "removed_mem m base res prev =
     (case prev of None \<Rightarrow> le_store 8 m (base + res) 0
      | Some p \<Rightarrow> le_store 2 m (base + p + 8) (de_len m (base + p) + de_len m (base + res)))"

lemma remove_later:
  "block_wf m base off \<Longrightarrow> search_loop m base name off pde = Found res prev \<Longrightarrow> off < res \<Longrightarrow>
    block_wf (removed_mem m base res prev) base off \<and>
    (\<exists>xs ys. block_names m base off = xs @ (name, de_ino m (base + res)) # ys \<and>
      block_names (removed_mem m base res prev) base off = xs @ ys \<and> name \<notin> fst ` set xs)"
proof (induction m base name off pde rule: search_loop.induct)
  case (1 m base name off pde)
  have R: "res < 4096" using search_from [OF 1(3)] by blast
  then have lt: "off < 4096" using 1(4) by linarith
  note S = block_wf_step [OF 1(2) lt]
  have miss: "\<not> pmfs_match m name (base + off)"
    using search_hit [OF 1(2) lt, of name pde] 1(3,4) by auto
  let ?l = "de_len m (base + off)"
  have go: "search_loop m base name (off + ?l) (Some off) = Found res prev" using search_miss [OF 1(2) lt miss] 1(3) by simp
  note G = search_from [OF go]
  show ?case
  proof (cases "res = off + ?l")
    case True
    then have "prev = Some off" "pmfs_match m name (base + (off + ?l))" using G by auto
    with remove_merge [OF 1(2) lt _ _ miss] R True show ?thesis by (simp add: removed_mem_def)
  next
    case False
    then have res: "off + ?l < res" using G by linarith
    obtain p where p: "prev = Some p" "off + ?l \<le> p" using G False by auto
    define m' where "m' = removed_mem m base res prev"
    have sm: "same_on (base + off) (base + off + ?l) m m'" using p by (auto simp: m'_def removed_mem_def)
    have l0: "?l \<noteq> 0" using S(3) by linarith
    have n: "\<not> (off + length name \<le> 4096 \<and> pmfs_match m name (base + off))" using miss by simp
    have IH: "block_wf m' base (off + ?l) \<and>
      (\<exists>xs ys. block_names m base (off + ?l) = xs @ (name, de_ino m (base + res)) # ys \<and>
        block_names m' base (off + ?l) = xs @ ys \<and> name \<notin> fst ` set xs)"
      unfolding m'_def by (rule 1(1) [OF lt n l0 S(2) go res])
    have l: "de_len m' (base + off) = ?l" using entry_same(2) [OF sm] S(3) by simp
    have c: "entry_ok m' base off" using check_same [OF sm S(3)] S(1) by simp
    have w: "block_wf m' base off" using lt c IH by (subst block_wf.simps) (simp add: l)
    have n': "block_names m' base off = entry_names m (base + off) @ block_names m' base (off + ?l)"
      using block_wf_step(7) [OF w lt] entry_names_same [OF sm S(6)] by (simp add: l)
    obtain xs ys where xs: "block_names m base (off + ?l) = xs @ (name, de_ino m (base + res)) # ys"
      "block_names m' base (off + ?l) = xs @ ys" "name \<notin> fst ` set xs" using IH by blast
    have "name \<notin> fst ` set (entry_names m (base + off) @ xs)" using miss xs(3) by (auto simp: match_names)
    with w n' S(7) xs show ?thesis unfolding m'_def [symmetric]
      by (intro conjI exI [of _ "entry_names m (base + off) @ xs"] exI [of _ ys]) simp_all
  qed
qed

lemma removed_spec:
  assumes "block_wf m base 0" "pmfs_search_dirblock m base name = Found res prev"
  shows "block_wf (removed_mem m base res prev) base 0 \<and>
    (\<exists>xs ys. block_names m base 0 = xs @ (name, de_ino m (base + res)) # ys \<and>
      block_names (removed_mem m base res prev) base 0 = xs @ ys \<and> name \<notin> fst ` set xs)"
proof (cases "res = 0")
  case False
  then show ?thesis using remove_later [OF assms(1) assms(2) [unfolded pmfs_search_dirblock_def]] by simp
next
  case True
  note G = search_from [OF assms(2) [unfolded pmfs_search_dirblock_def]]
  have "prev = None" "pmfs_match m name (base + 0)" using G True by auto
  from remove_first_spec [OF assms(1) _ this(2)]
  have F: "block_wf (le_store 8 m base 0) base 0"
    "block_names m base 0 = [] @ (name, de_ino m base) # block_names (le_store 8 m base 0) base 0" by simp_all
  have e: "removed_mem m base res prev = le_store 8 m base 0" "base + res = base"
    using \<open>prev = None\<close> True by (simp_all add: removed_mem_def)
  show ?thesis unfolding e
    by (intro conjI F(1) exI [of _ "[]"] exI [of _ "block_names (le_store 8 m base 0) base 0"] F(2)) simp_all
qed

section \<open>Adding\<close>

text \<open>The bytes a new entry at \<open>de\<close> changes, and those of a split before.\<close>

definition entry_mem :: "(nat \<Rightarrow> 8 word) \<Rightarrow> nat \<Rightarrow> nat \<Rightarrow> 8 word list \<Rightarrow> (nat \<Rightarrow> 8 word)" where
  "entry_mem m de ino name = mem_write (le_store 1 (le_store 8 m de ino) (de + 10) (length name)) (de + 12) name"

definition split_mem :: "(nat \<Rightarrow> 8 word) \<Rightarrow> nat \<Rightarrow> (nat \<Rightarrow> 8 word) \<times> nat" where
  "split_mem m de =
     (if de_ino m de \<noteq> 0 then
        let nlen = PMFS_DIR_REC_LEN (de_name_len m de)
        in (le_store 2 (le_store 2 m (de + nlen + 8) (de_len m de - nlen)) (de + 8) nlen, de + nlen)
      else (m, de))"

definition added_mem :: "(nat \<Rightarrow> 8 word) \<Rightarrow> nat \<Rightarrow> nat \<Rightarrow> 8 word list \<Rightarrow> (nat \<Rightarrow> 8 word)" where
  "added_mem m de ino name = (let (m1, de1) = split_mem m de in entry_mem m1 de1 ino name)"

lemma mem_write_apart [simp]: "x < a \<or> a + length bs \<le> x \<Longrightarrow> mem_write m a bs x = m x"
  by (auto simp: mem_write_def)

lemma mem_read_write [simp]: "mem_read (mem_write m a bs) a (length bs) = bs"
  by (rule nth_equalityI) (auto simp: mem_read_def mem_write_def)

lemma entry_mem_fields:
  assumes "length name < 256" "ino < 2 ^ 64"
  shows "de_ino (entry_mem m de ino name) de = ino" "de_len (entry_mem m de ino name) de = de_len m de"
    "de_name_len (entry_mem m de ino name) de = length name" "de_name (entry_mem m de ino name) de (length name) = name"
    "x < de \<or> de + 12 + length name \<le> x \<Longrightarrow> entry_mem m de ino name x = m x"
proof -
  let ?m1 = "le_store 8 m de ino" let ?m2 = "le_store 1 ?m1 (de + 10) (length name)"
  have w: "le_load k (entry_mem m de ino name) a = le_load k ?m2 a" if "a + k \<le> de + 12" for k a
    unfolding entry_mem_def by (rule le_load_cong) (use that in auto)
  show "de_ino (entry_mem m de ino name) de = ino" "de_len (entry_mem m de ino name) de = de_len m de"
    "de_name_len (entry_mem m de ino name) de = length name"
    unfolding de_ino_def de_len_def de_name_len_def using assms by (subst w; simp add: le_load_store_other del: One_nat_def)+
  show "de_name (entry_mem m de ino name) de (length name) = name" by (simp add: de_name_def entry_mem_def)
  show "x < de \<or> de + 12 + length name \<le> x \<Longrightarrow> entry_mem m de ino name x = m x" by (auto simp: entry_mem_def)
qed

text \<open>An entry is well-formed from its fields.\<close>

lemma wf_intro:
  assumes "off < 4096" "16 \<le> l" "l mod 4 = 0" "PMFS_DIR_REC_LEN (de_name_len m (base + off)) \<le> l" "off + l \<le> 4096"
    and "de_len m (base + off) = l" "de_ino m (base + off) \<noteq> 0 \<longrightarrow> 0 < de_name_len m (base + off)" "block_wf m base (off + l)"
  shows "block_wf m base off" "block_names m base off = entry_names m (base + off) @ block_names m base (off + l)"
proof -
  have "entry_ok m base off" using assms(2-7) rec_len_bounds(4) by (simp add: entry_ok_def pmfs_check_dir_entry_def)
  then show w: "block_wf m base off" using assms(1,6,8) by (subst block_wf.simps) simp
  show "block_names m base off = entry_names m (base + off) @ block_names m base (off + l)"
    using block_wf_step(7) [OF w assms(1)] assms(6) by simp
qed

definition has_room :: "(nat \<Rightarrow> 8 word) \<Rightarrow> nat \<Rightarrow> nat \<Rightarrow> nat \<Rightarrow> bool" where
  "has_room m base reclen off \<longleftrightarrow>
     (if de_ino m (base + off) \<noteq> 0 then PMFS_DIR_REC_LEN (de_name_len m (base + off)) + reclen \<le> de_len m (base + off)
      else reclen \<le> de_len m (base + off))"

lemma added_here:
  assumes wf: "block_wf m base off" "off < 4096" and room: "has_room m base (PMFS_DIR_REC_LEN (length name)) off"
    and nm: "0 < length name" "length name < 256" "0 < ino" "ino < 2 ^ 64"
  defines "m' \<equiv> added_mem m (base + off) ino name"
  shows "block_wf m' base off \<and> (\<exists>xs ys. block_names m base off = xs @ ys \<and> block_names m' base off = xs @ (name, ino) # ys) \<and>
    (\<forall>x. x < base + off \<or> base + 4096 \<le> x \<longrightarrow> m' x = m x)"
proof -
  note S = block_wf_step [OF wf]
  let ?l = "de_len m (base + off)"
  let ?r = "PMFS_DIR_REC_LEN (length name)"
  have r: "12 + length name \<le> ?r" "?r mod 4 = 0" using rec_len_bounds(1,3) [of "length name"] by simp_all
  note E = entry_mem_fields [OF nm(2,4)]
  show ?thesis
  proof (cases "de_ino m (base + off) = 0")
    case True
    have m': "m' = entry_mem m (base + off) ino name" using True by (simp add: m'_def added_mem_def split_mem_def)
    have rl: "?r \<le> ?l" using room True by (simp add: has_room_def)
    have out: "m' x = m x" if "x < base + off \<or> base + off + ?l \<le> x" for x
      unfolding m' by (rule E(5)) (use that r(1) rl in linarith)
    then have "same_on (base + (off + ?l)) (base + 4096) m m'" by simp
    from block_same [OF this S(2)] have t: "block_wf m' base (off + ?l)" "block_names m' base (off + ?l) = block_names m base (off + ?l)"
      by auto
    note W = wf_intro [OF wf(2) S(3) S(5) _ S(4) _ _ t(1)]
    have "block_wf m' base off" by (rule W) (use E nm rl in \<open>simp_all add: m'\<close>)
    moreover have "block_names m' base off = entry_names m' (base + off) @ block_names m' base (off + ?l)"
      by (rule W) (use E nm rl in \<open>simp_all add: m'\<close>)
    moreover have "entry_names m' (base + off) = [(name, ino)]" using E nm by (simp add: m')
    ultimately show ?thesis using S(4,7) t(2) True out
      by (intro conjI exI [of _ "[]"] exI [of _ "block_names m base (off + ?l)"]) auto
  next
    case used: False
    let ?n = "PMFS_DIR_REC_LEN (de_name_len m (base + off))"
    have nl: "0 < de_name_len m (base + off)" using S(9) used by simp
    have n: "16 \<le> ?n" "?n mod 4 = 0" "12 + de_name_len m (base + off) \<le> ?n"
      using nl rec_len_bounds(1,3) [of "de_name_len m (base + off)"] by (auto simp: PMFS_DIR_REC_LEN_def)
    have rl: "?n + ?r \<le> ?l" using room used by (simp add: has_room_def)
    define m1 where "m1 = le_store 2 (le_store 2 m (base + off + ?n + 8) (?l - ?n)) (base + off + 8) ?n"
    have m': "m' = entry_mem m1 (base + off + ?n) ino name"
      using used by (simp add: m'_def added_mem_def split_mem_def m1_def Let_def)
    have len: "de_len m1 (base + off) = ?n" "de_len m1 (base + off + ?n) = ?l - ?n"
    proof -
      have "?n < 256 ^ 2" "?l - ?n < 256 ^ 2" using S(4) rl by simp_all
      then show "de_len m1 (base + off) = ?n" "de_len m1 (base + off + ?n) = ?l - ?n"
        using n(1) by (simp_all add: de_len_def m1_def le_load_store_other)
    qed
    have out1: "m1 x = m x" if "x < base + off \<or> base + off + ?l \<le> x" for x
    proof -
      have "x < base + off + 8 \<or> base + off + 8 + 2 \<le> x" "x < base + off + ?n + 8 \<or> base + off + ?n + 8 + 2 \<le> x"
        using that n(1) r(1) rl by linarith+
      then show ?thesis unfolding m1_def by (simp only: le_store_out)
    qed
    have out: "m' x = m x" if "x < base + off \<or> base + off + ?l \<le> x" for x
    proof -
      have "m' x = m1 x" unfolding m' by (rule E(5)) (use that r(1) rl in linarith)
      then show ?thesis using out1 [OF that] by simp
    qed
    have e1: "de_ino m1 (base + off) = de_ino m (base + off)" "de_name_len m1 (base + off) = de_name_len m (base + off)"
      "de_name m1 (base + off) (de_name_len m (base + off)) = de_name m (base + off) (de_name_len m (base + off))"
      using n by (simp_all add: de_ino_def de_name_len_def de_name_def mem_read_def m1_def le_load_store_other)
    have sm: "same_on (base + off) (base + off + ?n) m1 m'" using E(5) by (simp add: m')
    have e: "de_ino m' (base + off) = de_ino m (base + off)" "de_len m' (base + off) = ?n"
      "de_name_len m' (base + off) = de_name_len m (base + off)"
      "de_name m' (base + off) (de_name_len m (base + off)) = de_name m (base + off) (de_name_len m (base + off))"
      using entry_same [OF sm] n e1 len(1) by simp_all
    have f: "de_ino m' (base + off + ?n) = ino" "de_len m' (base + off + ?n) = ?l - ?n" "de_name_len m' (base + off + ?n) = length name"
      "de_name m' (base + off + ?n) (length name) = name" using E len(2) by (simp_all add: m')
    have "same_on (base + (off + ?l)) (base + 4096) m m'" using out by simp
    from block_same [OF this S(2)] have t: "block_wf m' base (off + ?l)" "block_names m' base (off + ?l) = block_names m base (off + ?l)"
      by auto
    have j: "off + ?n + (?l - ?n) = off + ?l" using rl by simp
    have mod: "(?l - ?n) mod 4 = 0" using S(5) n(2) rl by presburger
    have r16: "16 \<le> ?r" using rec_len_least [OF nm(1)] .
    have b2: "off + ?n < 4096" "16 \<le> ?l - ?n" "?r \<le> ?l - ?n" using rl S(4) r16 by linarith+
    have b3: "off + ?n + (?l - ?n) \<le> 4096" using j S(4) by simp
    have w2: "block_wf m' base (off + ?n)" "block_names m' base (off + ?n) = entry_names m' (base + (off + ?n)) @ block_names m' base (off + ?n + (?l - ?n))"
      by (rule wf_intro [OF b2(1,2) mod _ b3]; use f b2 t(1) j nm in \<open>simp add: add.assoc\<close>)+
    have b1: "off + ?n \<le> 4096" using b2(1) by simp
    have w1: "block_wf m' base off" "block_names m' base off = entry_names m' (base + off) @ block_names m' base (off + ?n)"
      by (rule wf_intro [OF wf(2) n(1,2) _ b1]; use e w2(1) nl in simp)+
    have "block_names m' base off = entry_names m (base + off) @ (name, ino) # block_names m base (off + ?l)"
      unfolding w1(2) w2(2) j t(2) using e f nm by (simp add: add.assoc)
    then show ?thesis using w1(1) S(4,7) out
      by (intro conjI exI [of _ "entry_names m (base + off)"] exI [of _ "block_names m base (off + ?l)"]) auto
  qed
qed

text \<open>The search for room: it ends in every well-formed block, and fails only when no entry has room.\<close>

function entry_offsets :: "(nat \<Rightarrow> 8 word) \<Rightarrow> nat \<Rightarrow> nat \<Rightarrow> nat list" where
  "entry_offsets m base off =
     (if off < 4096 \<and> entry_ok m base off then off # entry_offsets m base (off + de_len m (base + off)) else [])"
  by pat_completeness auto
termination
  by (relation "measure (\<lambda>(m, base, off). 4096 - off)") (auto simp: entry_ok_def dest!: check_len)

declare entry_offsets.simps [simp del]

lemma room_step:
  assumes "block_wf m base off" "off < 4096" "0 < reclen"
  shows "find_room m base reclen off =
    (if has_room m base reclen off then Some (Inr off) else find_room m base reclen (off + de_len m (base + off)))"
proof -
  note S = block_wf_step [OF assms(1,2)]
  show ?thesis
  proof (cases "off \<le> 4096 - reclen")
    case True
    then show ?thesis by (subst find_room.simps) (simp add: has_room_def Let_def)
  next
    case False
    have "\<not> has_room m base reclen off" using False S(4) by (auto simp: has_room_def split: if_splits)
    moreover have "find_room m base reclen o' = Some (Inl ENOSPC)" if "\<not> o' \<le> 4096 - reclen" for o'
      using that by (subst find_room.simps) simp
    ultimately show ?thesis using False S(3) by simp
  qed
qed

lemma add_spec:
  "block_wf m base off \<Longrightarrow> 0 < length name \<Longrightarrow> length name < 256 \<Longrightarrow> 0 < ino \<Longrightarrow> ino < 2 ^ 64 \<Longrightarrow>
    (\<exists>res. find_room m base (PMFS_DIR_REC_LEN (length name)) off = Some (Inr res) \<and> off \<le> res \<and> res < 4096 \<and>
       has_room m base (PMFS_DIR_REC_LEN (length name)) res \<and>
       block_wf (added_mem m (base + res) ino name) base off \<and>
       (\<exists>xs ys. block_names m base off = xs @ ys \<and> block_names (added_mem m (base + res) ino name) base off = xs @ (name, ino) # ys) \<and>
       (\<forall>x. x < base + res \<or> base + 4096 \<le> x \<longrightarrow> added_mem m (base + res) ino name x = m x)) \<or>
    find_room m base (PMFS_DIR_REC_LEN (length name)) off = Some (Inl ENOSPC) \<and>
      (\<forall>o'\<in>set (entry_offsets m base off). \<not> has_room m base (PMFS_DIR_REC_LEN (length name)) o')"
proof (induction m base off rule: entry_offsets.induct)
  case (1 m base off)
  let ?r = "PMFS_DIR_REC_LEN (length name)"
  have r: "12 \<le> ?r" using rec_len_bounds(1) [of "length name"] by linarith
  then have r0: "0 < ?r" by linarith
  show ?case
  proof (cases "off < 4096")
    case False
    then have "\<not> off \<le> 4096 - ?r" using r by linarith
    then have "find_room m base ?r off = Some (Inl ENOSPC)" by (subst find_room.simps) simp
    then show ?thesis using False by (subst entry_offsets.simps) simp
  next
    case lt: True
    note S = block_wf_step [OF 1(2) lt] and st = room_step [OF 1(2) lt r0]
    let ?l = "de_len m (base + off)"
    have offs: "entry_offsets m base off = off # entry_offsets m base (off + ?l)"
      using lt S(1) by (subst entry_offsets.simps) simp
    show ?thesis
    proof (cases "has_room m base ?r off")
      case True
      then have "find_room m base ?r off = Some (Inr off)" by (simp add: st)
      with added_here [OF 1(2) lt True 1(3-6)] lt True show ?thesis by blast
    next
      case no: False
      have e: "find_room m base ?r off = find_room m base ?r (off + ?l)" using no by (simp add: st)
      from 1(1) [OF _ S(2) 1(3-6)] lt S(1) consider
        (found) res where "find_room m base ?r (off + ?l) = Some (Inr res)" "off + ?l \<le> res" "res < 4096" "has_room m base ?r res"
          "block_wf (added_mem m (base + res) ino name) base (off + ?l)"
          "\<exists>xs ys. block_names m base (off + ?l) = xs @ ys \<and> block_names (added_mem m (base + res) ino name) base (off + ?l) = xs @ (name, ino) # ys"
          "\<forall>x. x < base + res \<or> base + 4096 \<le> x \<longrightarrow> added_mem m (base + res) ino name x = m x"
        | (none) "find_room m base ?r (off + ?l) = Some (Inl ENOSPC)" "\<forall>o'\<in>set (entry_offsets m base (off + ?l)). \<not> has_room m base ?r o'"
        by blast
      then show ?thesis
      proof cases
        case none
        then show ?thesis using no e offs by simp
      next
        case found
        define m' where "m' = added_mem m (base + res) ino name"
        have sm: "same_on (base + off) (base + off + ?l) m m'" using found(2,7) by (simp add: m'_def)
        have l: "de_len m' (base + off) = ?l" using entry_same(2) [OF sm] S(3) by simp
        have c: "entry_ok m' base off" using check_same [OF sm S(3)] S(1) by simp
        have w: "block_wf m' base off" using lt c found(5) [folded m'_def] by (subst block_wf.simps) (simp add: l)
        have n': "block_names m' base off = entry_names m (base + off) @ block_names m' base (off + ?l)"
          using block_wf_step(7) [OF w lt] entry_names_same [OF sm S(6)] by (simp add: l)
        obtain xs ys where xs: "block_names m base (off + ?l) = xs @ ys" "block_names m' base (off + ?l) = xs @ (name, ino) # ys"
          using found(6) by (auto simp: m'_def)
        have "block_names m base off = (entry_names m (base + off) @ xs) @ ys \<and>
            block_names m' base off = (entry_names m (base + off) @ xs) @ (name, ino) # ys" using S(7) n' xs by simp
        then have ex: "\<exists>xs ys. block_names m base off = xs @ ys \<and> block_names m' base off = xs @ (name, ino) # ys" by blast
        have "off \<le> res" using found(2) by linarith
        with w ex found(1,3,4,7) show ?thesis unfolding m'_def e by blast
      qed
    qed
  qed
qed

section \<open>The operations\<close>

lemma pm_sel [simp]: "pm (pm_write s off bs) = mem_write (pm s) off bs"
  by (simp add: pm_write_def pm_touch_frame)

lemma split_entry_mem:
  "split_entry E s J de = (snd (split_mem (pm s) de), fst (snd (split_entry E s J de)), snd (snd (split_entry E s J de)))"
  "pm (fst (snd (split_entry E s J de))) = fst (split_mem (pm s) de)"
  by (simp_all add: split_entry_def split_mem_def Let_def)

lemma write_entry_mem: "pm (write_entry s de (Some ino) name) = entry_mem (pm s) de ino name"
  by (simp add: write_entry_def entry_mem_def Let_def)

definition timed_mem :: "(nat \<Rightarrow> 8 word) \<Rightarrow> nat \<Rightarrow> nat \<Rightarrow> (nat \<Rightarrow> 8 word)" where
  "timed_mem m pidir now = le_store 4 (le_store 4 m (pidir + 28) now) (pidir + 24) now"

lemma add_dirent_mem:
  assumes "find_room (pm s) base (PMFS_DIR_REC_LEN (length name)) 0 = Some r" "length name < 256"
  shows "\<exists>t J'. pmfs_add_dirent_to_buf E J s dir name (Some ino) None base pidir now =
     Some (map_sum id (\<lambda>_. ()) r, case r of Inl _ \<Rightarrow> dir | Inr _ \<Rightarrow> dir\<lparr>i_mtime := now, i_ctime := now\<rparr>, t, J') \<and>
     (case r of Inl _ \<Rightarrow> t = s \<and> J' = J | Inr off \<Rightarrow> pm t = timed_mem (added_mem (pm s) (base + off) ino name) pidir now)"
proof -
  have m: "PMFS_DIR_REC_LEN (length name) mod 2 ^ 16 = PMFS_DIR_REC_LEN (length name)"
    using rec_len_bounds(5) [of "length name"] assms(2) by simp
  show ?thesis
  proof (cases r)
    case (Inl e)
    with assms(1) m show ?thesis by (simp add: pmfs_add_dirent_to_buf_def)
  next
    case (Inr off)
    obtain de s1 J1 where sp: "split_entry E s J (base + off) = (de, s1, J1)" by (metis prod_cases3)
    have "de = snd (split_mem (pm s) (base + off))" "pm s1 = fst (split_mem (pm s) (base + off))"
      using split_entry_mem [of E s J "base + off"] by (simp_all add: sp)
    then have "pm (write_entry s1 de (Some ino) name) = added_mem (pm s) (base + off) ino name"
      by (simp add: write_entry_mem added_mem_def split_beta)
    with Inr assms(1) m sp show ?thesis by (simp add: pmfs_add_dirent_to_buf_def timed_mem_def)
  qed
qed

lemma remove_dirent_mem: "pm (fst (remove_dirent E J s base res prev)) = removed_mem (pm s) base res prev"
  by (cases prev) (simp_all add: remove_dirent_def removed_mem_def)

end
