(* ===== verification/DirOps.thy ===== *)
theory DirOps
  imports DirEntry
begin

text \<open>
  Directories as files of entry blocks (\<^verbatim>\<open>pmfs_add_entry\<close>, \<^verbatim>\<open>pmfs_remove_entry\<close>, \<^verbatim>\<open>pmfs_readdir\<close> of
  \<^verbatim>\<open>dir.c\<close>; \<^verbatim>\<open>pmfs_inode_by_name\<close>, \<^verbatim>\<open>pmfs_lookup\<close>, \<^verbatim>\<open>pmfs_empty_dir\<close> of \<^verbatim>\<open>namei.c\<close>).  Blocks of a
  directory are reached through the direct mapping.  \<open>None\<close> also stands for a loop that is never left.
\<close>

section \<open>Adding and removing a name\<close>

definition dir_block :: "allocator_factory \<Rightarrow> wpmfs \<Rightarrow> nat \<Rightarrow> nat \<Rightarrow> (nat option \<times> wpmfs) option" where
  "dir_block A s ino block =
     do {
       (bp, s1) \<leftarrow> pmfs_find_data_block A s ino block;
       let va = pmfs_get_block s1 bp;
       Some (if va = 0 then None else Some (va_off s1 va), s1)
     }"

text \<open>The loop over the blocks; \<open>None\<close> inside when no block has room.\<close>

primrec add_in_blocks :: "allocator_factory \<Rightarrow> addressing \<Rightarrow> 8 word list \<Rightarrow> nat option \<Rightarrow> nat \<Rightarrow> nat \<Rightarrow> vinode \<Rightarrow> nat list \<Rightarrow>
    wpmfs \<Rightarrow> tx_ctx \<Rightarrow> ((errno + unit) option \<times> vinode \<times> wpmfs \<times> tx_ctx) option" where
  "add_in_blocks A E name ino pidir now dir [] s J = Some (None, dir, s, J)"
| "add_in_blocks A E name ino pidir now dir (block # blocks) s J =
     do {
       (b, s1) \<leftarrow> dir_block A s (i_ino dir) block;
       case b of
         None \<Rightarrow> Some (Some (Inl EIO), dir, s1, J)
       | Some base \<Rightarrow> do {
           (r, dir1, s2, J1) \<leftarrow> pmfs_add_dirent_to_buf E J s1 dir name ino None base pidir now;
           if r = Inl ENOSPC then add_in_blocks A E name ino pidir now dir blocks s2 J1
           else Some (Some r, dir1, s2, J1)
         }
     }"

definition pmfs_add_entry :: "kernel_vm \<Rightarrow> allocator_factory \<Rightarrow> addressing \<Rightarrow> tx_ctx \<Rightarrow> wpmfs \<Rightarrow> vinode \<Rightarrow> 8 word list \<Rightarrow>
    nat option \<Rightarrow> nat \<Rightarrow> ((errno + unit) \<times> vinode \<times> wpmfs \<times> tx_ctx) option" where
  "pmfs_add_entry K A E J s dir name ino now =
     (if name = [] then Some (Inl EINVAL, dir, s, J)
      else do {
        (pidir, s1) \<leftarrow> inode_at A s (i_ino dir);
        let J1 = log_off E J s1 pidir MAX_DATA_PER_LENTRY;
        let blocks = i_size dir div 2 ^ 12;
        (r, dir1, s2, J2) \<leftarrow> add_in_blocks A E name ino pidir now dir [0..<blocks] s1 J1;
        case r of
          Some r \<Rightarrow> Some (r, dir1, s2, J2)
        | None \<Rightarrow> do {
            (r, dir2, s3, J3) \<leftarrow> pmfs_alloc_blocks K A E s2 J2 dir1 blocks 1 False 0;
            case r of
              Inl e \<Rightarrow> Some (Inl e, dir2, s3, J3)
            | Inr _ \<Rightarrow> do {
                let dir3 = dir2\<lparr>i_size := i_size dir2 + 2 ^ 12\<rparr>;
                (b, s4) \<leftarrow> dir_block A (pmfs_update_isize s3 pidir dir3) (i_ino dir3) blocks;
                case b of
                  None \<Rightarrow> Some (Inl ENOSPC, dir3, s4, J3)
                | Some base \<Rightarrow> do {
                    let s5 = PM_EQU 2 (PM_STORE 8 4 s4 base 0) (base + 8) 4096;
                    (r, dir4, s6, J4) \<leftarrow> pmfs_add_dirent_to_buf E None s5 dir3 name ino (Some 0) base pidir now;
                    Some (r, dir4, s6, J3)
                  }
              }
          }
      })"

text \<open>The first block with the name: its offset, the entry and the one before it.\<close>

primrec find_in_blocks :: "allocator_factory \<Rightarrow> nat \<Rightarrow> 8 word list \<Rightarrow> nat list \<Rightarrow> wpmfs \<Rightarrow>
    ((nat \<times> nat \<times> nat option) option \<times> wpmfs) option" where
  "find_in_blocks A ino name [] s = Some (None, s)"
| "find_in_blocks A ino name (block # blocks) s =
     do {
       (b, s1) \<leftarrow> dir_block A s ino block;
       case b of
         None \<Rightarrow> Some (None, s1)
       | Some base \<Rightarrow>
           (case pmfs_search_dirblock (pm s1) base name of
              Found res prev \<Rightarrow> Some (Some (base, res, prev), s1)
            | _ \<Rightarrow> find_in_blocks A ino name blocks s1)
     }"

definition pmfs_remove_entry :: "allocator_factory \<Rightarrow> addressing \<Rightarrow> tx_ctx \<Rightarrow> wpmfs \<Rightarrow> vinode \<Rightarrow> 8 word list \<Rightarrow> nat \<Rightarrow>
    ((errno + unit) \<times> vinode \<times> wpmfs \<times> tx_ctx) option" where
  "pmfs_remove_entry A E J s dir name now =
     (if name = [] then Some (Inl EINVAL, dir, s, J)
      else do {
        (r, s1) \<leftarrow> find_in_blocks A (i_ino dir) name [0..<i_size dir div 2 ^ 12] s;
        case r of
          None \<Rightarrow> Some (Inl EINVAL, dir, s1, J)
        | Some (base, res, prev) \<Rightarrow> do {
            let (s2, J2) = remove_dirent E J s1 base res prev;
            let dir1 = dir\<lparr>i_mtime := now, i_ctime := now\<rparr>;
            (pidir, s3) \<leftarrow> inode_at A s2 (i_ino dir);
            let J3 = log_off E J2 s3 pidir MAX_DATA_PER_LENTRY;
            Some (Inr (), dir1, PM_EQU 4 (PM_EQU 4 s3 (pidir + 28) now) (pidir + 24) now, J3)
          }
      })"

section \<open>Lookup\<close>

text \<open>
  The loop of \<^verbatim>\<open>pmfs_inode_by_name\<close> over the blocks, round the end of the directory until it is back at
  \<open>start\<close>: a hit, the jump to \<^verbatim>\<open>done\<close>, or the end of the loop.
\<close>

datatype lookup_result = Hit nat nat nat | Stop | Missing

partial_function (option) search_round :: "allocator_factory \<Rightarrow> nat \<Rightarrow> 8 word list \<Rightarrow> nat \<Rightarrow> nat \<Rightarrow> nat \<Rightarrow> wpmfs \<Rightarrow>
    (lookup_result \<times> wpmfs) option" where
  "search_round A ino name nblocks start block s =
     (case dir_block A s ino block of
        None \<Rightarrow> None
      | Some (None, s1) \<Rightarrow> Some (Stop, s1)
      | Some (Some base, s1) \<Rightarrow>
          (case pmfs_search_dirblock (pm s1) base name of
             Found res prev \<Rightarrow> Some (Hit block base res, s1)
           | BadBlock \<Rightarrow> Some (Stop, s1)
           | NotFound \<Rightarrow>
               (let block' = (if block + 1 \<ge> nblocks then 0 else block + 1)
                in if block' \<noteq> start then search_round A ino name nblocks start block' s1 else Some (Missing, s1))))"

text \<open>
  The result is the inode number, the entry if there is one (as a device offset) and the block where the
  next lookup starts.  The search for \<^verbatim>\<open>.\<close> and \<^verbatim>\<open>..\<close> looks at the first block, then at the others.
\<close>

definition pmfs_inode_by_name :: "allocator_factory \<Rightarrow> wpmfs \<Rightarrow> vinode \<Rightarrow> nat \<Rightarrow> 8 word list \<Rightarrow>
    (nat \<times> nat option \<times> nat \<times> wpmfs) option" where
  "pmfs_inode_by_name A s dir start_lookup name =
     do {
       (pi, s1) \<leftarrow> pmfs_get_inode A s (i_ino dir);
       if length name > 255 then Some (0, None, start_lookup, s1)
       else do {
         let dots = (name = DOT \<or> name = DOTDOT);
         let nblocks = (if dots then 1 else i_size dir div 2 ^ 12);
         let start = (if dots \<or> start_lookup \<ge> nblocks then 0 else start_lookup);
         (r, s2) \<leftarrow> search_round A (i_ino dir) name nblocks start start s1;
         (r, s3) \<leftarrow> (if r = Missing \<and> nblocks < i_size dir div 2 ^ 12
             then search_round A (i_ino dir) name (i_size dir div 2 ^ 12) 0 nblocks s2 else Some (r, s2));
         case r of
           Hit block base res \<Rightarrow> Some (de_ino (pm s3) (base + res), Some (base + res), block, s3)
         | _ \<Rightarrow> Some (0, None, start_lookup, s3)
       }
     }"

definition pmfs_lookup :: "allocator_factory \<Rightarrow> (nat \<Rightarrow> vinode option) \<Rightarrow> wpmfs \<Rightarrow> vinode \<Rightarrow> nat \<Rightarrow> 8 word list \<Rightarrow>
    ((errno + vinode option) \<times> nat \<times> wpmfs) option" where
  "pmfs_lookup A cache s dir start_lookup name =
     (if length name > 255 then Some (Inl ENAMETOOLONG, start_lookup, s)
      else do {
        (ino, de, start', s1) \<leftarrow> pmfs_inode_by_name A s dir start_lookup name;
        if ino = 0 then Some (Inr None, start', s1)
        else do {
          (r, s2) \<leftarrow> pmfs_iget A cache s1 ino;
          Some (case r of Inl ESTALE \<Rightarrow> Inl EIO | Inl e \<Rightarrow> Inl e | Inr inode \<Rightarrow> Inr (Some inode), start', s2)
        }
      })"

section \<open>Is a directory empty\<close>

text \<open>
  The loop behind the first two entries.  \<open>blk\<close> is the block looked at, \<open>de\<close> the offset of the next entry
  in it.
\<close>

function empty_loop :: "allocator_factory \<Rightarrow> vinode \<Rightarrow> nat option \<Rightarrow> nat \<Rightarrow> nat \<Rightarrow> wpmfs \<Rightarrow> (bool \<times> wpmfs) option" where
  "empty_loop A inode blk de offset s =
     (if offset < i_size inode then
        (case (if blk = None \<or> de \<ge> PAGE_SIZE
               then map_option (\<lambda>(b, s1). (b, 0, s1)) (dir_block A s (i_ino inode) (offset div 2 ^ 12))
               else Some (blk, de, s)) of
           None \<Rightarrow> None
         | Some (None, de1, s1) \<Rightarrow> empty_loop A inode None de (offset + PAGE_SIZE) s1
         | Some (Some base, de1, s1) \<Rightarrow>
             if \<not> pmfs_check_dir_entry (pm s1) base de1
             then empty_loop A inode (Some base) PAGE_SIZE ((offset div PAGE_SIZE + 1) * PAGE_SIZE) s1
             else if de_ino (pm s1) (base + de1) \<noteq> 0 then Some (False, s1)
             else empty_loop A inode (Some base) (de1 + de_len (pm s1) (base + de1)) (offset + de_len (pm s1) (base + de1)) s1)
      else Some (True, s))"
  by pat_completeness auto

termination
proof (relation "measure (\<lambda>(A, inode, blk, de, offset, s). i_size inode - offset)")
  fix A :: allocator_factory and inode blk de offset and s s1 :: wpmfs and base de1 :: nat
  assume "offset < i_size inode"
  moreover have "offset < (offset div PAGE_SIZE + 1) * PAGE_SIZE" by simp
  ultimately show "((A, inode, Some base, PAGE_SIZE, (offset div PAGE_SIZE + 1) * PAGE_SIZE, s1), A, inode, blk, de, offset, s) \<in>
      measure (\<lambda>(A, inode, blk, de, offset, s). i_size inode - offset)" by auto
qed (auto dest: check_len)

declare empty_loop.simps [simp del]

definition pmfs_empty_dir :: "allocator_factory \<Rightarrow> wpmfs \<Rightarrow> vinode \<Rightarrow> (bool \<times> wpmfs) option" where
  "pmfs_empty_dir A s inode =
     (if i_size inode < PMFS_DIR_REC_LEN 1 + PMFS_DIR_REC_LEN 2 then Some (True, s)
      else do {
        (b, s1) \<leftarrow> dir_block A s (i_ino inode) 0;
        case b of
          None \<Rightarrow> Some (True, s1)
        | Some base \<Rightarrow>
            let m = pm s1;
                de1 = base + de_len m base
            in if de_ino m base \<noteq> i_ino inode \<or> de_ino m de1 = 0 \<or> de_name m base 2 \<noteq> DOT @ [0] \<or> de_name m de1 3 \<noteq> DOTDOT @ [0]
            then Some (True, s1)
            else let off = de_len m base + de_len m de1 in empty_loop A inode (Some base) off off s1
      })"

section \<open>Listing a directory\<close>

text \<open>
  \<^verbatim>\<open>pmfs_readdir\<close>: what is listed, with the new position.  \<open>room\<close> is how many entries the kernel's buffer
  still takes.  A bad first entry of a block keeps the code in the loop for ever.
\<close>

record dir_pos =
  dp_pos :: nat
  dp_offset :: nat
  dp_out :: "(8 word list \<times> nat \<times> nat) list"

definition IF2DT :: "nat \<Rightarrow> nat" where "IF2DT sif = and sif 0xF000 div 2 ^ 12"

text \<open>The entries of one block; the flag says that the buffer is full.\<close>

partial_function (option) readdir_block :: "allocator_factory \<Rightarrow> nat \<Rightarrow> nat \<Rightarrow> nat \<Rightarrow> dir_pos \<Rightarrow> wpmfs \<Rightarrow> (bool \<times> dir_pos \<times> wpmfs) option" where
  "readdir_block A isize room base d s =
     (if dp_pos d < isize \<and> dp_offset d < PAGE_SIZE then
        (if \<not> pmfs_check_dir_entry (pm s) base (dp_offset d)
         then Some (False, d\<lparr>dp_pos := (dp_pos d + 4095) div PAGE_SIZE * PAGE_SIZE\<rparr>, s)
         else
           (let de = base + dp_offset d;
                len = de_len (pm s) de;
                d1 = d\<lparr>dp_offset := dp_offset d + len\<rparr>
            in if de_ino (pm s) de = 0 then readdir_block A isize room base (d1\<lparr>dp_pos := dp_pos d + len\<rparr>) s
            else case inode_at A s (de_ino (pm s) de) of
              None \<Rightarrow> None
            | Some (pi, s1) \<Rightarrow>
                if length (dp_out d) \<ge> room then Some (True, d1, s1)
                else readdir_block A isize room base
                  (d1\<lparr>dp_pos := dp_pos d + len,
                     dp_out := dp_out d @ [(de_name (pm s) de (de_name_len (pm s) de), de_ino (pm s) de, IF2DT (pi_mode s1 pi))]\<rparr>) s1))
      else Some (False, d, s))"

partial_function (option) readdir_loop :: "allocator_factory \<Rightarrow> vinode \<Rightarrow> nat \<Rightarrow> dir_pos \<Rightarrow> wpmfs \<Rightarrow> (dir_pos \<times> wpmfs) option" where
  "readdir_loop A inode room d s =
     (if dp_pos d < i_size inode then
        (case dir_block A s (i_ino inode) (dp_pos d div 2 ^ 12) of
           None \<Rightarrow> None
         | Some (None, s1) \<Rightarrow> readdir_loop A inode room (d\<lparr>dp_pos := dp_pos d + (PAGE_SIZE - dp_offset d)\<rparr>) s1
         | Some (Some base, s1) \<Rightarrow>
             (case readdir_block A (i_size inode) room base d s1 of
                None \<Rightarrow> None
              | Some (full, d1, s2) \<Rightarrow>
                  if full then Some (d1, s2) else readdir_loop A inode room (d1\<lparr>dp_offset := 0\<rparr>) s2))
      else Some (d, s))"

definition pmfs_readdir :: "allocator_factory \<Rightarrow> wpmfs \<Rightarrow> vinode \<Rightarrow> nat \<Rightarrow> nat \<Rightarrow> (dir_pos \<times> wpmfs) option" where
  "pmfs_readdir A s inode pos room =
     readdir_loop A inode room \<lparr>dp_pos = pos, dp_offset = pos mod 2 ^ 12, dp_out = []\<rparr> s"

end
