(* ===== verification/NameOps.thy ===== *)
theory NameOps
  imports DirOps
begin

text \<open>
  The operations on names (\<^verbatim>\<open>namei.c\<close>, \<^verbatim>\<open>symlink.c\<close>).  Each runs in a transaction; the kernel's side of an
  operation is the record \<open>vfs\<close>: who owns a new inode, whether it can be entered into the inode cache,
  its generation, the time, and the cached inodes.  Inodes the operation changes are returned.
\<close>

record vfs =
  v_owner :: "vinode \<Rightarrow> nat \<Rightarrow> nat \<times> nat \<times> nat"
  v_insert_ok :: "nat \<Rightarrow> bool"
  v_gen :: nat
  v_now :: nat
  v_cache :: "nat \<Rightarrow> vinode option"

abbreviation PMFS_LINK_MAX :: nat where "PMFS_LINK_MAX \<equiv> 32000"
definition MAX_DIRENTRY_LENTRIES :: nat where "MAX_DIRENTRY_LENTRIES = 2"

type_synonym fs_state = "wpmfs \<times> jstate \<times> nat list"

definition end_tx :: "(addressing \<Rightarrow> wpmfs \<Rightarrow> pmfs_transaction \<times> jstate \<Rightarrow> wpmfs \<times> jstate) \<Rightarrow> addressing \<Rightarrow> wpmfs \<Rightarrow> tx_ctx \<Rightarrow> nat list \<Rightarrow>
    fs_state option" where
  "end_tx finish E s J trunc = do { J \<leftarrow> J; let (s', j') = finish E s J; Some (s', j', trunc) }"

section \<open>Link counts\<close>

definition pmfs_inc_count :: "wpmfs \<Rightarrow> vinode \<Rightarrow> nat \<Rightarrow> vinode \<times> wpmfs" where
  "pmfs_inc_count s inode pi =
     (let inode = inode\<lparr>i_nlink := i_nlink inode + 1\<rparr> in (inode, pmfs_update_nlink s pi inode))"

definition pmfs_dec_count :: "wpmfs \<Rightarrow> vinode \<Rightarrow> nat \<Rightarrow> vinode \<times> wpmfs" where
  "pmfs_dec_count s inode pi =
     (if i_nlink inode \<noteq> 0 then
        let inode = inode\<lparr>i_nlink := i_nlink inode - 1\<rparr> in (inode, pmfs_update_nlink s pi inode)
      else (inode, s))"

text \<open>The last reference of an inode goes away: without links it is evicted.\<close>

definition iput_last :: "allocator_factory \<Rightarrow> addressing \<Rightarrow> nat \<Rightarrow> wpmfs \<Rightarrow> tx_ctx \<Rightarrow> nat list \<Rightarrow> vinode \<Rightarrow>
    (wpmfs \<times> tx_ctx \<times> nat list) option" where
  "iput_last A E now s J trunc inode =
     do {
       (tx, j) \<leftarrow> J;
       (inode1, s1, j1, trunc1) \<leftarrow> pmfs_evict_inode A E False s j trunc inode now;
       Some (s1, Some (tx, j1), trunc1)
     }"

section \<open>New names\<close>

definition pmfs_add_nondir :: "kernel_vm \<Rightarrow> allocator_factory \<Rightarrow> addressing \<Rightarrow> nat \<Rightarrow> tx_ctx \<Rightarrow> wpmfs \<Rightarrow> nat list \<Rightarrow> vinode \<Rightarrow>
    8 word list \<Rightarrow> vinode \<Rightarrow> ((errno + unit) \<times> vinode \<times> wpmfs \<times> tx_ctx \<times> nat list) option" where
  "pmfs_add_nondir K A E now J s trunc dir name inode =
     do {
       (r, dir1, s1, J1) \<leftarrow> pmfs_add_entry K A E J s dir name (Some (i_ino inode)) now;
       case r of
         Inr _ \<Rightarrow> Some (Inr (), dir1, s1, J1, trunc)
       | Inl e \<Rightarrow> do {
           (pi, s2) \<leftarrow> inode_at A s1 (i_ino inode);
           let (inode1, s3) = pmfs_dec_count s2 inode pi;
           (s4, J2, trunc1) \<leftarrow> iput_last A E now s3 J1 trunc inode1;
           Some (Inl e, dir1, s4, J2, trunc1)
         }
     }"

text \<open>An error of \<^verbatim>\<open>pmfs_new_inode\<close> aborts the transaction but is not returned: \<^verbatim>\<open>err\<close> is still 0.\<close>

definition pmfs_create :: "kernel_vm \<Rightarrow> allocator_factory \<Rightarrow> addressing \<Rightarrow> vfs \<Rightarrow> fs_state \<Rightarrow> vinode \<Rightarrow> 8 word list \<Rightarrow> nat \<Rightarrow>
    ((errno + unit) \<times> vinode \<times> fs_state) option" where
  "pmfs_create K A E V = (\<lambda>(s, j, trunc) dir name mode.
     do {
       (r, j1) \<leftarrow> tx_start E (MAX_INODE_LENTRIES * 2 + MAX_DIRENTRY_LENTRIES) s j;
       case r of
         Inl e \<Rightarrow> Some (Inl e, dir, s, j1, trunc)
       | Inr tx \<Rightarrow> do {
           (r, s2, J2) \<leftarrow> pmfs_new_inode K A E (v_owner V) (v_insert_ok V) s (tx, j1) dir mode (v_gen V) (v_now V);
           case r of
             Inl e \<Rightarrow> do { st \<leftarrow> end_tx tx_abort E s2 (Some J2) trunc; Some (Inr (), dir, st) }
           | Inr inode \<Rightarrow> do {
               (r, dir1, s3, J3, trunc1) \<leftarrow> pmfs_add_nondir K A E (v_now V) (Some J2) s2 trunc dir name inode;
               case r of
                 Inl e \<Rightarrow> do { st \<leftarrow> end_tx tx_abort E s3 J3 trunc1; Some (Inl e, dir1, st) }
               | Inr _ \<Rightarrow> do { st \<leftarrow> end_tx tx_commit E s3 J3 trunc1; Some (Inr (), dir1, st) }
             }
         }
     })"

definition pmfs_mknod :: "kernel_vm \<Rightarrow> allocator_factory \<Rightarrow> addressing \<Rightarrow> vfs \<Rightarrow> fs_state \<Rightarrow> vinode \<Rightarrow> 8 word list \<Rightarrow> nat \<Rightarrow> nat \<Rightarrow>
    ((errno + unit) \<times> vinode \<times> fs_state) option" where
  "pmfs_mknod K A E V = (\<lambda>(s, j, trunc) dir name mode rdev.
     do {
       (r, j1) \<leftarrow> tx_start E (MAX_INODE_LENTRIES * 2 + MAX_DIRENTRY_LENTRIES) s j;
       case r of
         Inl e \<Rightarrow> Some (Inl e, dir, s, j1, trunc)
       | Inr tx \<Rightarrow> do {
           (r, s2, J2) \<leftarrow> pmfs_new_inode K A E (v_owner V) (v_insert_ok V) s (tx, j1) dir mode (v_gen V) (v_now V);
           case r of
             Inl e \<Rightarrow> do { st \<leftarrow> end_tx tx_abort E s2 (Some J2) trunc; Some (Inr (), dir, st) }
           | Inr inode \<Rightarrow> do {
               let special = S_ISCHR (i_mode inode) \<or> S_ISBLK (i_mode inode);
               let inode1 = (if special then inode\<lparr>i_rdev := rdev\<rparr> else inode);
               (pi, s3) \<leftarrow> inode_at A s2 (i_ino inode1);
               let s4 = (if special then PM_EQU 4 s3 (pi + 72) (i_rdev inode1) else s3);
               (r, dir1, s5, J3, trunc1) \<leftarrow> pmfs_add_nondir K A E (v_now V) (Some J2) s4 trunc dir name inode1;
               case r of
                 Inl e \<Rightarrow> do { st \<leftarrow> end_tx tx_abort E s5 J3 trunc1; Some (Inl e, dir1, st) }
               | Inr _ \<Rightarrow> do { st \<leftarrow> end_tx tx_commit E s5 J3 trunc1; Some (Inr (), dir1, st) }
             }
         }
     })"

definition pmfs_block_symlink :: "kernel_vm \<Rightarrow> allocator_factory \<Rightarrow> addressing \<Rightarrow> wpmfs \<Rightarrow> vinode \<Rightarrow> 8 word list \<Rightarrow>
    ((errno + unit) \<times> vinode \<times> wpmfs) option" where
  "pmfs_block_symlink K A E s inode symname =
     do {
       (r, inode1, s1, J) \<leftarrow> pmfs_alloc_blocks K A E s None inode 0 1 False 0;
       case r of
         Inl e \<Rightarrow> Some (Inl e, inode1, s1)
       | Inr _ \<Rightarrow> do {
           (b, s2) \<leftarrow> dir_block A s1 (i_ino inode1) 0;
           base \<leftarrow> b;
           Some (Inr (), inode1, PM_STORE 1 4 (pm_write s2 base symname) (base + length symname) 0)
         }
     }"

text \<open>The target, up to the first zero byte.\<close>

definition pmfs_readlink :: "allocator_factory \<Rightarrow> wpmfs \<Rightarrow> nat \<Rightarrow> nat \<Rightarrow> (8 word list \<times> wpmfs) option" where
  "pmfs_readlink A s ino buflen =
     do {
       (b, s1) \<leftarrow> dir_block A s ino 0;
       base \<leftarrow> b;
       Some (take buflen (takeWhile (\<lambda>c. c \<noteq> 0) (mem_read (pm s1) base 4096)), s1)
     }"

abbreviation S_IFDIR :: nat where "S_IFDIR \<equiv> 0x4000"
abbreviation S_IFLNK :: nat where "S_IFLNK \<equiv> 0xA000"

definition pmfs_symlink :: "kernel_vm \<Rightarrow> allocator_factory \<Rightarrow> addressing \<Rightarrow> vfs \<Rightarrow> fs_state \<Rightarrow> vinode \<Rightarrow> 8 word list \<Rightarrow> 8 word list \<Rightarrow>
    ((errno + unit) \<times> vinode \<times> fs_state) option" where
  "pmfs_symlink K A E V = (\<lambda>(s, j, trunc) dir name symname.
     if length symname + 1 > 4096 then Some (Inl ENAMETOOLONG, dir, s, j, trunc)
     else do {
       (r, j1) \<leftarrow> tx_start E (MAX_INODE_LENTRIES * 2 + MAX_DIRENTRY_LENTRIES) s j;
       case r of
         Inl e \<Rightarrow> Some (Inl e, dir, s, j1, trunc)
       | Inr tx \<Rightarrow> do {
           (r, s2, J2) \<leftarrow> pmfs_new_inode K A E (v_owner V) (v_insert_ok V) s (tx, j1) dir (or S_IFLNK 0x1FF) (v_gen V) (v_now V);
           case r of
             Inl e \<Rightarrow> do { st \<leftarrow> end_tx tx_abort E s2 (Some J2) trunc; Some (Inl e, dir, st) }
           | Inr inode \<Rightarrow> do {
               (pi, s3) \<leftarrow> inode_at A s2 (i_ino inode);
               (r, inode1, s4) \<leftarrow> pmfs_block_symlink K A E s3 inode symname;
               case r of
                 Inl e \<Rightarrow> do {
                   let (inode2, s5) = pmfs_dec_count s4 inode1 pi;
                   (s6, J3, trunc1) \<leftarrow> iput_last A E (v_now V) s5 (Some J2) trunc inode2;
                   st \<leftarrow> end_tx tx_abort E s6 J3 trunc1;
                   Some (Inl e, dir, st)
                 }
               | Inr _ \<Rightarrow> do {
                   let inode2 = inode1\<lparr>i_size := length symname\<rparr>;
                   (r, dir1, s6, J3, trunc1) \<leftarrow>
                     pmfs_add_nondir K A E (v_now V) (Some J2) (pmfs_update_isize s4 pi inode2) trunc dir name inode2;
                   case r of
                     Inl e \<Rightarrow> do { st \<leftarrow> end_tx tx_abort E s6 J3 trunc1; Some (Inl e, dir1, st) }
                   | Inr _ \<Rightarrow> do { st \<leftarrow> end_tx tx_commit E s6 J3 trunc1; Some (Inr (), dir1, st) }
                 }
             }
         }
     })"

text \<open>A further name; \<open>inode\<close> is the inode it is for.\<close>

definition pmfs_link :: "kernel_vm \<Rightarrow> allocator_factory \<Rightarrow> addressing \<Rightarrow> vfs \<Rightarrow> fs_state \<Rightarrow> vinode \<Rightarrow> vinode \<Rightarrow> 8 word list \<Rightarrow>
    ((errno + unit) \<times> vinode \<times> vinode \<times> fs_state) option" where
  "pmfs_link K A E V = (\<lambda>(s, j, trunc) inode dir name.
     do {
       (p, s1) \<leftarrow> pmfs_get_inode A s (i_ino inode);
       if i_nlink inode \<ge> PMFS_LINK_MAX then Some (Inl EMLINK, inode, dir, s1, j, trunc)
       else do {
         (r, j1) \<leftarrow> tx_start E (MAX_INODE_LENTRIES * 2 + MAX_DIRENTRY_LENTRIES) s1 j;
         case r of
           Inl e \<Rightarrow> Some (Inl e, inode, dir, s1, j1, trunc)
         | Inr tx \<Rightarrow> do {
             pi \<leftarrow> p;
             let J2 = Some (tx_log E s1 pi MAX_DATA_PER_LENTRY (tx, j1));
             (r, dir1, s2, J3) \<leftarrow> pmfs_add_entry K A E J2 s1 dir name (Some (i_ino inode)) (v_now V);
             case r of
               Inl e \<Rightarrow> do { st \<leftarrow> end_tx tx_abort E s2 J3 trunc; Some (Inl e, inode, dir1, st) }
             | Inr _ \<Rightarrow> do {
                 let inode1 = inode\<lparr>i_ctime := v_now V, i_nlink := i_nlink inode + 1\<rparr>;
                 let s3 = PM_EQU 2 (PM_EQU 4 s2 (pi + 24) (i_ctime inode1)) (pi + 38) (i_nlink inode1);
                 st \<leftarrow> end_tx tx_commit E s3 J3 trunc;
                 Some (Inr (), inode1, dir1, st)
               }
           }
       }
     })"

section \<open>Names that go away\<close>

definition pmfs_unlink :: "allocator_factory \<Rightarrow> addressing \<Rightarrow> vfs \<Rightarrow> fs_state \<Rightarrow> vinode \<Rightarrow> 8 word list \<Rightarrow> vinode \<Rightarrow>
    ((errno + unit) \<times> vinode \<times> vinode \<times> fs_state) option" where
  "pmfs_unlink A E V = (\<lambda>(s, j, trunc) dir name inode.
     do {
       (p, s1) \<leftarrow> pmfs_get_inode A s (i_ino inode);
       (r, j1) \<leftarrow> tx_start E (MAX_INODE_LENTRIES * 2 + MAX_DIRENTRY_LENTRIES) s1 j;
       case r of
         Inl e \<Rightarrow> Some (Inl e, dir, inode, s1, j1, trunc)
       | Inr tx \<Rightarrow> do {
           pi \<leftarrow> p;
           let J2 = Some (tx_log E s1 pi MAX_DATA_PER_LENTRY (tx, j1));
           (r, dir1, s2, J3) \<leftarrow> pmfs_remove_entry A E J2 s1 dir name (v_now V);
           case r of
             Inl e \<Rightarrow> do { st \<leftarrow> end_tx tx_abort E s2 J3 trunc; Some (Inl e, dir1, inode, st) }
           | Inr _ \<Rightarrow> do {
               (s3, trunc1) \<leftarrow> (if i_nlink inode = 1 then pmfs_truncate_add A s2 trunc (i_ino inode) (i_size inode)
                 else Some (s2, trunc));
               let inode1 = inode\<lparr>i_ctime := i_ctime dir1\<rparr>;
               let inode2 = (if i_nlink inode1 \<noteq> 0 then inode1\<lparr>i_nlink := i_nlink inode1 - 1\<rparr> else inode1);
               let s4 = (if i_nlink inode1 \<noteq> 0 then PM_EQU 2 s3 (pi + 38) (i_nlink inode2) else s3);
               st \<leftarrow> end_tx tx_commit E (PM_EQU 4 s4 (pi + 24) (i_ctime inode2)) J3 trunc1;
               Some (Inr (), dir1, inode2, st)
             }
         }
     })"

definition pmfs_rmdir :: "allocator_factory \<Rightarrow> addressing \<Rightarrow> vfs \<Rightarrow> fs_state \<Rightarrow> vinode \<Rightarrow> nat \<Rightarrow> 8 word list \<Rightarrow> vinode \<Rightarrow>
    ((errno + unit) \<times> vinode \<times> vinode \<times> fs_state) option" where
  "pmfs_rmdir A E V = (\<lambda>(s, j, trunc) dir start_lookup name inode.
     do {
       (p, s1) \<leftarrow> pmfs_get_inode A s (i_ino inode);
       (ino, de, start', s2) \<leftarrow> pmfs_inode_by_name A s1 dir start_lookup name;
       if ino = 0 then Some (Inl ENOENT, dir, inode, s2, j, trunc)
       else do {
         (empt, s3) \<leftarrow> pmfs_empty_dir A s2 inode;
         if \<not> empt then Some (Inl ENOTEMPTY, dir, inode, s3, j, trunc)
         else do {
           (r, j1) \<leftarrow> tx_start E (MAX_INODE_LENTRIES * 2 + MAX_DIRENTRY_LENTRIES) s3 j;
           case r of
             Inl e \<Rightarrow> Some (Inl e, dir, inode, s3, j1, trunc)
           | Inr tx \<Rightarrow> do {
               pi \<leftarrow> p;
               let J2 = Some (tx_log E s3 pi MAX_DATA_PER_LENTRY (tx, j1));
               (r, dir1, s4, J3) \<leftarrow> pmfs_remove_entry A E J2 s3 dir name (v_now V);
               case r of
                 Inl e \<Rightarrow> do { st \<leftarrow> end_tx tx_abort E s4 J3 trunc; Some (Inl e, dir1, inode, st) }
               | Inr _ \<Rightarrow> do {
                   let inode1 = inode\<lparr>i_nlink := 0, i_ctime := i_ctime dir1\<rparr>;
                   let s5 = PM_EQU 4 (PM_EQU 2 s4 (pi + 38) (i_nlink inode1)) (pi + 24) (i_ctime inode1);
                   (s6, trunc1) \<leftarrow> pmfs_truncate_add A s5 trunc (i_ino inode1) (i_size inode1);
                   (pidir, s7) \<leftarrow> inode_at A s6 (i_ino dir1);
                   let (dir2, s8) = pmfs_dec_count s7 dir1 pidir;
                   st \<leftarrow> end_tx tx_commit E s8 J3 trunc1;
                   Some (Inr (), dir2, inode1, st)
                 }
             }
         }
       }
     })"

section \<open>New directories\<close>

definition pmfs_mkdir :: "kernel_vm \<Rightarrow> allocator_factory \<Rightarrow> addressing \<Rightarrow> vfs \<Rightarrow> fs_state \<Rightarrow> vinode \<Rightarrow> 8 word list \<Rightarrow> nat \<Rightarrow>
    ((errno + unit) \<times> vinode \<times> fs_state) option" where
  "pmfs_mkdir K A E V = (\<lambda>(s, j, trunc) dir name mode.
     if i_nlink dir \<ge> PMFS_LINK_MAX then Some (Inl EMLINK, dir, s, j, trunc)
     else do {
       (r, j1) \<leftarrow> tx_start E (MAX_INODE_LENTRIES * 2 + MAX_DIRENTRY_LENTRIES) s j;
       case r of
         Inl e \<Rightarrow> Some (Inl e, dir, s, j1, trunc)
       | Inr tx \<Rightarrow> do {
           (r, s2, J2) \<leftarrow> pmfs_new_inode K A E (v_owner V) (v_insert_ok V) s (tx, j1) dir (or S_IFDIR mode) (v_gen V) (v_now V);
           case r of
             Inl e \<Rightarrow> do { st \<leftarrow> end_tx tx_abort E s2 (Some J2) trunc; Some (Inl e, dir, st) }
           | Inr inode \<Rightarrow> do {
               (r, inode1, s3, J) \<leftarrow> pmfs_alloc_blocks K A E s2 None inode 0 1 False 0;
               (r, dir1, inode2, s4, J3) \<leftarrow>
                 (case r of
                    Inl e \<Rightarrow> Some (Inl e, dir, inode1, s3, Some J2)
                  | Inr _ \<Rightarrow> do {
                      let inode2 = inode1\<lparr>i_size := 4096\<rparr>;
                      (b, s4) \<leftarrow> dir_block A s3 (i_ino inode2) 0;
                      base \<leftarrow> b;
                      let s5 = init_dir_block s4 base (i_ino inode2) (i_ino dir);
                      let inode3 = inode2\<lparr>i_nlink := 2\<rparr>;
                      (r, dir1, s6, J3) \<leftarrow> pmfs_add_entry K A E (Some J2) s5 dir name (Some (i_ino inode3)) (v_now V);
                      Some (r, dir1, inode3, s6, J3)
                    });
               case r of
                 Inl e \<Rightarrow> do {
                   (s5, J4, trunc1) \<leftarrow> iput_last A E (v_now V) s4 J3 trunc (inode2\<lparr>i_nlink := 0\<rparr>);
                   st \<leftarrow> end_tx tx_abort E s5 J4 trunc1;
                   Some (Inl e, dir1, st)
                 }
               | Inr _ \<Rightarrow> do {
                   (pi, s5) \<leftarrow> inode_at A s4 (i_ino inode2);
                   let s6 = PM_EQU 8 (PM_EQU 2 s5 (pi + 38) (i_nlink inode2)) (pi + 16) (i_size inode2);
                   (pidir, s7) \<leftarrow> inode_at A s6 (i_ino dir1);
                   let (dir2, s8) = pmfs_inc_count s7 dir1 pidir;
                   st \<leftarrow> end_tx tx_commit E s8 J3 trunc;
                   Some (Inr (), dir2, st)
                 }
             }
         }
     })"

definition pmfs_get_parent :: "allocator_factory \<Rightarrow> vfs \<Rightarrow> wpmfs \<Rightarrow> vinode \<Rightarrow> nat \<Rightarrow> ((errno + vinode) \<times> wpmfs) option" where
  "pmfs_get_parent A V s child start_lookup =
     do {
       (ino, de, start', s1) \<leftarrow> pmfs_inode_by_name A s child start_lookup DOTDOT;
       if de = None \<or> ino = 0 then Some (Inl ENOENT, s1) else pmfs_iget A (v_cache V) s1 ino
     }"

section \<open>Renaming\<close>

text \<open>
  The entry of the new name, when there is one, is made to point at the old inode; the old name is then
  removed, and the inode the new name stood for loses its links.
\<close>

definition rename_target :: "kernel_vm \<Rightarrow> allocator_factory \<Rightarrow> addressing \<Rightarrow> nat \<Rightarrow> wpmfs \<Rightarrow> tx_ctx \<Rightarrow> vinode \<Rightarrow> vinode \<Rightarrow> nat option \<Rightarrow>
    8 word list \<Rightarrow> nat \<Rightarrow> ((errno + unit) \<times> vinode \<times> wpmfs \<times> tx_ctx) option" where
  "rename_target K A E now s J old_inode new_dir new_de new_name new_pidir =
     (case new_de of
        None \<Rightarrow> pmfs_add_entry K A E J s new_dir new_name (Some (i_ino old_inode)) now
      | Some de \<Rightarrow>
          let J1 = log_off E J s de 8;
              s1 = PM_EQU 8 s de (i_ino old_inode);
              J2 = log_off E J1 s1 new_pidir MAX_DATA_PER_LENTRY;
              new_dir1 = new_dir\<lparr>i_mtime := now, i_ctime := now\<rparr>
          in Some (Inr (), new_dir1, pmfs_update_time s1 new_pidir new_dir1, J2))"

definition drop_replaced :: "allocator_factory \<Rightarrow> addressing \<Rightarrow> nat \<Rightarrow> wpmfs \<Rightarrow> tx_ctx \<Rightarrow> nat list \<Rightarrow> vinode \<Rightarrow> vinode \<Rightarrow>
    (vinode \<times> wpmfs \<times> tx_ctx \<times> nat list) option" where
  "drop_replaced A E now s J trunc old_inode new_inode =
     do {
       (pi, s1) \<leftarrow> inode_at A s (i_ino new_inode);
       let J1 = log_off E J s1 pi MAX_DATA_PER_LENTRY;
       let n = i_nlink new_inode;
       let n1 = (if S_ISDIR (i_mode old_inode) then n - 1 else n);
       let s2 = PM_EQU 4 s1 (pi + 24) now;
       let inode1 = new_inode\<lparr>i_ctime := now, i_nlink := n1 - 1\<rparr>;
       let s3 = PM_EQU 2 s2 (pi + 38) (i_nlink inode1);
       (s4, trunc1) \<leftarrow> (if i_nlink inode1 = 0 then pmfs_truncate_add A s3 trunc (i_ino inode1) (i_size inode1) else Some (s3, trunc));
       Some (inode1, s4, J1, trunc1)
     }"

text \<open>\<open>same\<close> says that both names are in one directory: it is then one inode of the kernel.\<close>

definition pmfs_rename :: "kernel_vm \<Rightarrow> allocator_factory \<Rightarrow> addressing \<Rightarrow> vfs \<Rightarrow> fs_state \<Rightarrow> vinode \<Rightarrow> nat \<Rightarrow> 8 word list \<Rightarrow> vinode \<Rightarrow>
    vinode \<Rightarrow> nat \<Rightarrow> 8 word list \<Rightarrow> vinode option \<Rightarrow>
    ((errno + unit) \<times> vinode \<times> vinode \<times> vinode option \<times> fs_state) option" where
  "pmfs_rename K A E V = (\<lambda>(s, j, trunc) old_dir old_start old_name old_inode new_dir new_start new_name new_inode.
     do {
       let same = (i_ino old_dir = i_ino new_dir);
       (ino1, new_de, start1, s1) \<leftarrow> pmfs_inode_by_name A s new_dir new_start new_name;
       (ino2, old_de, start2, s2) \<leftarrow> pmfs_inode_by_name A s1 old_dir (if same then start1 else old_start) old_name;
       (r, j1) \<leftarrow> tx_start E (MAX_INODE_LENTRIES * 4 + MAX_DIRENTRY_LENTRIES * 2) s2 j;
       case r of
         Inl e \<Rightarrow> Some (Inl e, old_dir, new_dir, new_inode, s2, j1, trunc)
       | Inr tx \<Rightarrow> do {
           (refused, s3) \<leftarrow>
             (case new_inode of
                Some ni \<Rightarrow> if S_ISDIR (i_mode old_inode)
                  then do { (empt, s3) \<leftarrow> pmfs_empty_dir A s2 ni; Some (if empt then None else Some ENOTEMPTY, s3) }
                  else Some (None, s2)
              | None \<Rightarrow> Some (if S_ISDIR (i_mode old_inode) \<and> i_nlink new_dir \<ge> PMFS_LINK_MAX then Some EMLINK else None, s2));
           case refused of
             Some e \<Rightarrow> do { st \<leftarrow> end_tx tx_abort E s3 (Some (tx, j1)) trunc; Some (Inl e, old_dir, new_dir, new_inode, st) }
           | None \<Rightarrow> do {
               (new_pidir, s4) \<leftarrow> inode_at A s3 (i_ino new_dir);
               (pi, s5) \<leftarrow> inode_at A s4 (i_ino old_inode);
               let J2 = Some (tx_log E s5 pi MAX_DATA_PER_LENTRY (tx, j1));
               (r, new_dir1, s6, J3) \<leftarrow> rename_target K A E (v_now V) s5 J2 old_inode new_dir new_de new_name new_pidir;
               let old_dir1 = (if same then new_dir1 else old_dir);
               case r of
                 Inl e \<Rightarrow> do { st \<leftarrow> end_tx tx_abort E s6 J3 trunc; Some (Inl e, old_dir1, new_dir1, new_inode, st) }
               | Inr _ \<Rightarrow> do {
                   (r, old_dir2, s7, J4) \<leftarrow> pmfs_remove_entry A E J3 s6 old_dir1 old_name (v_now V);
                   let new_dir2 = (if same then old_dir2 else new_dir1);
                   case r of
                     Inl e \<Rightarrow> do { st \<leftarrow> end_tx tx_abort E s7 J4 trunc; Some (Inl e, old_dir2, new_dir2, new_inode, st) }
                   | Inr _ \<Rightarrow>
                       (case new_inode of
                          Some ni \<Rightarrow> do {
                            (ni1, s8, J5, trunc1) \<leftarrow> drop_replaced A E (v_now V) s7 J4 trunc old_inode ni;
                            st \<leftarrow> end_tx tx_commit E s8 J5 trunc1;
                            Some (Inr (), old_dir2, new_dir2, Some ni1, st)
                          }
                        | None \<Rightarrow>
                            if S_ISDIR (i_mode old_inode) then do {
                              let (new_dir3, s8) = pmfs_inc_count s7 new_dir2 new_pidir;
                              (old_pidir, s9) \<leftarrow> inode_at A s8 (i_ino old_dir2);
                              let (old_dir3, s10) = pmfs_dec_count s9 (if same then new_dir3 else old_dir2) old_pidir;
                              st \<leftarrow> end_tx tx_commit E s10 J4 trunc;
                              Some (Inr (), old_dir3, if same then old_dir3 else new_dir3, None, st)
                            }
                            else do { st \<leftarrow> end_tx tx_commit E s7 J4 trunc; Some (Inr (), old_dir2, new_dir2, None, st) })
                 }
             }
         }
     })"

end
