(* ===== verification/TruncList.thy ===== *)
theory TruncList
  imports InodeOps TreeLookup
begin

text \<open>
  Inodes in an inode table whose pages are all in good order, and the truncate list: the chain on the
  device is the list in memory.
\<close>

section \<open>The inode table\<close>

definition table_lookup :: "wpmfs \<Rightarrow> nat \<Rightarrow> nat" where
  "table_lookup s n = tree_lookup (pi_height s (pmfs_get_inode_table s)) (pm s) (pi_root s (pmfs_get_inode_table s)) n"

text \<open>Inode numbers the table has, and where their inodes are.\<close>

definition table_ino :: "wpmfs \<Rightarrow> nat \<Rightarrow> bool" where
  "table_ino s ino \<longleftrightarrow> ino \<noteq> 0 \<and> 128 dvd ino \<and> ino div 4096 < FANOUT ^ pi_height s (pmfs_get_inode_table s) \<and> table_lookup s (ino div 4096) \<noteq> 0"

definition pi_addr :: "wpmfs \<Rightarrow> nat \<Rightarrow> nat" where
  "pi_addr s ino = table_lookup s (ino div 4096) + ino mod 4096"

definition super_page :: "wpmfs \<Rightarrow> nat" where
  "super_page s = page_of (va_off s (pmfs_get_super s + 40))"

text \<open>
  A table of small blocks below the direct mapping, none of its pages tired; its inode and the super block
  are not in its blocks.
\<close>

definition table_ok :: "wpmfs \<Rightarrow> bool" where
  "table_ok s \<longleftrightarrow> direct_ok s \<and> (let T = pmfs_get_inode_table s; h = pi_height s T; r = pi_root s T in
     pi_blk_type s T = 0 \<and> tree_wf h (pm s) r \<and> (\<forall>q\<in>tree_blocks h (pm s) r. \<not> tired s q) \<and>
     page_of T \<notin> tree_blocks h (pm s) r \<and> super_page s \<notin> tree_blocks h (pm s) r \<and>
     va_off s (pmfs_get_super s + 40) mod 4096 + 8 \<le> 4096 \<and> T mod 4096 + 128 \<le> 4096 \<and>
     (T + 128 \<le> va_off s (pmfs_get_super s + 40) \<or> va_off s (pmfs_get_super s + 40) + 8 \<le> T))"

lemma table_inode:
  assumes ok: "table_ok s" and i: "table_ino s ino"
  shows "inode_at A s ino = Some (pi_addr s ino, s)"
proof -
  let ?T = "pmfs_get_inode_table s"
  let ?h = "pi_height s ?T" and ?r = "pi_root s ?T"
  have dir: "direct_ok s" and bt: "pi_blk_type s ?T = 0" and wf: "tree_wf ?h (pm s) ?r"
    and nt: "\<And>q. q \<in> tree_blocks ?h (pm s) ?r \<Longrightarrow> \<not> tired s q" using ok by (auto simp: table_ok_def Let_def)
  have sh: "pmfs_inode_blk_shift s ?T = 12" "pmfs_inode_blk_size s ?T = 4096"
    by (simp_all add: pmfs_inode_blk_size_def pmfs_inode_blk_shift_def bt blk_type_to_shift_def)
  have n: "ino div 4096 < FANOUT ^ ?h" "table_lookup s (ino div 4096) \<noteq> 0" "ino \<noteq> 0" using i by (auto simp: table_ino_def)
  have "plain_ok (\<lambda>_. {}) ?h ?r s" using dir wf by (simp add: plain_ok_def)
  from plain_loop [OF this n(1) nt] have f: "find_data_block_at A s ?T (ino div 4096) = Some (table_lookup s (ino div 4096), s)"
    by (simp add: find_data_block_at_def table_lookup_def)
  have "table_lookup s (ino div 4096) \<in> tree_blocks ?h (pm s) ?r"
    using tree_lookup_data [OF wf n(1)] n(2) tree_nodes_sub(2) by (auto simp: table_lookup_def)
  then have p: "block_ptr (table_lookup s (ino div 4096))" using tree_blocks_ptr [OF wf] by blast
  have "va_off s (virt_addr s + table_lookup s (ino div 4096) + ino mod 4096) = table_lookup s (ino div 4096) + ino mod 4096"
  proof -
    have "table_lookup s (ino div 4096) + 4096 \<le> 2 ^ 44" using p by (auto simp: block_ptr_def elim!: dvdE)
    then have "table_lookup s (ino div 4096) + ino mod 4096 < 2 ^ 44" by (meson add_less_cancel_left le_trans mod_less_divisor order_less_le_trans zero_less_numeral)
    then show ?thesis using dir by (simp add: va_off_def direct_ok_def add.assoc)
  qed
  then show ?thesis
    using f n(2,3) node_va_direct(1) [OF dir p] sh by (simp add: inode_at_def pmfs_get_inode_def pi_addr_def Let_def)
qed

lemma pi_addr_block:
  assumes "table_ok s" "table_ino s ino"
  shows "page_of (pi_addr s ino) \<in> tree_data (pi_height s (pmfs_get_inode_table s)) (pm s) (pi_root s (pmfs_get_inode_table s))"
    "pi_addr s ino mod 4096 + 128 \<le> 4096" "128 dvd pi_addr s ino"
proof -
  let ?T = "pmfs_get_inode_table s"
  have wf: "tree_wf (pi_height s ?T) (pm s) (pi_root s ?T)" using assms(1) by (auto simp: table_ok_def Let_def)
  have d: "table_lookup s (ino div 4096) \<in> tree_data (pi_height s ?T) (pm s) (pi_root s ?T)"
    unfolding table_lookup_def by (rule tree_lookup_data [OF wf]) (use assms(2) in \<open>auto simp: table_ino_def table_lookup_def\<close>)
  then have p: "block_ptr (table_lookup s (ino div 4096))" using tree_blocks_ptr [OF wf] tree_nodes_sub(2) by blast
  have dv: "4096 dvd table_lookup s (ino div 4096)" using p by (simp add: block_ptr_def)
  have "page_of (pi_addr s ino) = table_lookup s (ino div 4096)"
    unfolding pi_addr_def by (rule page_of_in) (use dv in auto)
  with d show "page_of (pi_addr s ino) \<in> tree_data (pi_height s ?T) (pm s) (pi_root s ?T)" by simp
  have m: "ino mod 4096 mod 128 = 0" "128 dvd ino mod 4096"
    using assms(2) by (auto simp: table_ino_def mod_mod_cancel dvd_mod)
  have "ino mod 4096 + 128 \<le> 4096"
  proof -
    obtain k where k: "ino mod 4096 = 128 * k" using m(2) by blast
    have "128 * k < 4096" using k by (metis mod_less_divisor zero_less_numeral)
    with k show ?thesis by simp
  qed
  moreover have "pi_addr s ino mod 4096 = ino mod 4096" using dv by (auto simp: pi_addr_def elim!: dvdE)
  ultimately show "pi_addr s ino mod 4096 + 128 \<le> 4096" by simp
  show "128 dvd pi_addr s ino" unfolding pi_addr_def
    by (rule dvd_add) (use dv m(2) in \<open>auto intro: dvd_trans [of 128 4096]\<close>)
qed

lemma pi_addr_inj:
  assumes "table_ok s" "table_ino s i" "table_ino s j" "pi_addr s i = pi_addr s j"
  shows "i = j"
proof -
  let ?T = "pmfs_get_inode_table s"
  have wf: "tree_wf (pi_height s ?T) (pm s) (pi_root s ?T)" using assms(1) by (auto simp: table_ok_def Let_def)
  have p: "4096 dvd table_lookup s (x div 4096)" if "table_ino s x" for x
  proof -
    have "table_lookup s (x div 4096) \<in> tree_data (pi_height s ?T) (pm s) (pi_root s ?T)"
      unfolding table_lookup_def by (rule tree_lookup_data [OF wf]) (use that in \<open>auto simp: table_ino_def table_lookup_def\<close>)
    then show ?thesis using tree_blocks_ptr [OF wf] tree_nodes_sub(2) by (fastforce simp: block_ptr_def)
  qed
  have m: "pi_addr s x mod 4096 = x mod 4096" "pi_addr s x div 4096 * 4096 = table_lookup s (x div 4096)" if "table_ino s x" for x
    using p [OF that] by (auto simp: pi_addr_def elim!: dvdE)
  have "i mod 4096 = j mod 4096" "table_lookup s (i div 4096) = table_lookup s (j div 4096)"
    using m [OF assms(2)] m [OF assms(3)] assms(4) by metis+
  moreover from this(2) have "i div 4096 = j div 4096"
    using tree_lookup_inj [OF wf, of "i div 4096" "j div 4096"] assms(2,3) by (auto simp: table_ino_def table_lookup_def)
  ultimately show ?thesis by (metis div_mult_mod_eq)
qed

text \<open>Stores that leave the table where it is.\<close>

definition table_fixed :: "wpmfs \<Rightarrow> wpmfs \<Rightarrow> bool" where
  "table_fixed s t \<longleftrightarrow> kernel_same s t \<and> page_private t = page_private s \<and>
     (let T = pmfs_get_inode_table s in \<forall>x. page_of x \<in> tree_nodes (pi_height s T) (pm s) (pi_root s T) \<or>
        T \<le> x \<and> x < T + 80 \<or> va_off s (pmfs_get_super s + 40) \<le> x \<and> x < va_off s (pmfs_get_super s + 40) + 8 \<longrightarrow> pm t x = pm s x)"

lemma va_super_same: "kernel_same s t \<Longrightarrow> va_off t = va_off s" "kernel_same s t \<Longrightarrow> pmfs_get_super t = pmfs_get_super s"
  by (rule ext, simp add: kernel_same_def va_off_def split: option.split) (simp add: kernel_same_def pmfs_get_super_def)

lemma table_keep:
  assumes ok: "table_ok s" and fx: "table_fixed s t"
  shows "table_ok t" "pmfs_get_inode_table t = pmfs_get_inode_table s" "table_ino t ino = table_ino s ino"
    "table_ino s ino \<Longrightarrow> pi_addr t ino = pi_addr s ino" "truncate_head t = truncate_head s"
proof -
  let ?T = "pmfs_get_inode_table s" and ?so = "va_off s (pmfs_get_super s + 40)"
  have k: "kernel_same s t" and pp: "page_private t = page_private s"
    and nd: "page_of x \<in> tree_nodes (pi_height s ?T) (pm s) (pi_root s ?T) \<Longrightarrow> pm t x = pm s x"
    and fd: "?T \<le> x \<Longrightarrow> x < ?T + 80 \<Longrightarrow> pm t x = pm s x" and su: "?so \<le> x \<Longrightarrow> x < ?so + 8 \<Longrightarrow> pm t x = pm s x" for x
    using fx by (auto simp: table_fixed_def Let_def)
  note va = va_super_same [OF k]
  have "ps_inode_table_offset t = ps_inode_table_offset s"
    unfolding ps_inode_table_offset_def va by (rule le_load_cong) (rule su)
  then show T: "pmfs_get_inode_table t = ?T" by (simp add: pmfs_get_inode_table_def va)
  have ld: "le_load n (pm t) (?T + k) = le_load n (pm s) (?T + k)" if "k + n \<le> 80" for k n
    by (rule le_load_cong, rule fd) (use that in auto)
  have f: "pi_height t ?T = pi_height s ?T" "pi_root t ?T = pi_root s ?T" "pi_blk_type t ?T = pi_blk_type s ?T"
    unfolding pi_height_def pi_root_def pi_blk_type_def by (rule ld; simp)+
  have wf: "tree_wf (pi_height s ?T) (pm s) (pi_root s ?T)" using ok by (auto simp: table_ok_def Let_def)
  note tc = tree_cong [OF wf nd]
  have l: "table_lookup t n = table_lookup s n" if "n < FANOUT ^ pi_height s ?T" for n
    using tc(5) [OF _ that] by (simp add: table_lookup_def T f)
  show "table_ino t ino = table_ino s ino" using l by (auto simp: table_ino_def T f)
  show "table_ino s ino \<Longrightarrow> pi_addr t ino = pi_addr s ino" using l by (simp add: pi_addr_def table_ino_def)
  show "truncate_head t = truncate_head s" by (simp add: truncate_head_def T)
  have "direct_ok t = direct_ok s" "tired t = tired s" using k pp by (simp_all add: direct_ok_def kernel_same_def tired_def wpmfs_page_marks_def fun_eq_iff)
  then show "table_ok t" using ok tc(1,4) by (simp add: table_ok_def T f super_page_def va Let_def)
qed

lemma table_fixed_trans:
  assumes "table_ok s" "table_fixed s t" "table_fixed t u"
  shows "table_fixed s u"
proof -
  let ?T = "pmfs_get_inode_table s"
  note K = table_keep [OF assms(1,2)]
  have k: "kernel_same s t" using assms(2) by (simp add: table_fixed_def)
  have fd: "pm t x = pm s x" if "?T \<le> x" "x < ?T + 80" for x using assms(2) that by (auto simp: table_fixed_def Let_def)
  have ld: "le_load n (pm t) (?T + k) = le_load n (pm s) (?T + k)" if "k + n \<le> 80" for k n
    by (rule le_load_cong, rule fd) (use that in auto)
  have f: "pi_height t ?T = pi_height s ?T" "pi_root t ?T = pi_root s ?T"
    unfolding pi_height_def pi_root_def by (rule ld; simp)+
  have wf: "tree_wf (pi_height s ?T) (pm s) (pi_root s ?T)" using assms(1) by (auto simp: table_ok_def Let_def)
  have nd: "pm t x = pm s x" if "page_of x \<in> tree_nodes (pi_height s ?T) (pm s) (pi_root s ?T)" for x
    using assms(2) that by (auto simp: table_fixed_def Let_def)
  show ?thesis
    using assms(2,3) kernel_same_trans [of s t u] tree_cong(2) [OF wf nd]
    unfolding table_fixed_def Let_def K(2) f va_super_same [OF k] by auto
qed

lemma equ_frame [simp]: "kernel_same s (PM_EQU n s off y)" "page_private (PM_EQU n s off y) = page_private s"
  using pm_touch_frame [of "s\<lparr>pm := le_store n (pm s) off y\<rparr>" off n] by (simp_all add: PM_EQU_def kernel_same_def)

lemma nodes_data_disjoint: "tree_wf h m p \<Longrightarrow> tree_nodes h m p \<inter> tree_data h m p = {}"
proof (induction h arbitrary: p)
  case (Suc h)
  have "x \<notin> tree_data (Suc h) m p" if "x \<in> tree_nodes (Suc h) m p" for x
  proof
    assume "x \<in> tree_data (Suc h) m p"
    then obtain j where j: "j \<in> live m p" "x \<in> tree_data h m (slot m p j)" by auto
    then have b: "x \<in> tree_blocks h m (slot m p j)" by (simp add: tree_blocks_def)
    from that consider "x = p" | i where "i \<in> live m p" "x \<in> tree_nodes h m (slot m p i)" by auto
    then show False
    proof cases
      case 1
      with b j Suc.prems show False by auto
    next
      case 2
      then have "x \<in> tree_blocks h m (slot m p i)" by (simp add: tree_blocks_def)
      then have "i = j" using Suc.prems 2(1) j(1) b by auto
      with Suc.IH [of "slot m p i"] Suc.prems 2 j(2) show False by auto
    qed
  qed
  then show ?case by blast
qed simp

text \<open>Stores into the inodes of the table and their truncate items, and into the head of the list.\<close>

lemma item_fixed:
  assumes ok: "table_ok s" and i: "table_ino s ino" and k: "k + n \<le> 128"
  shows "table_fixed s (PM_EQU n s (pi_addr s ino + k) y)"
proof -
  let ?T = "pmfs_get_inode_table s"
  let ?N = "tree_nodes (pi_height s ?T) (pm s) (pi_root s ?T)"
  note A = pi_addr_block [OF ok i]
  have pg: "page_of x = page_of (pi_addr s ino)" if "pi_addr s ino + k \<le> x" "x < pi_addr s ino + k + n" for x
    by (rule page_of_inode [OF A(2)]) (use that k in auto)
  have wf: "tree_wf (pi_height s ?T) (pm s) (pi_root s ?T)" and T: "page_of ?T \<notin> tree_blocks (pi_height s ?T) (pm s) (pi_root s ?T)"
    "super_page s \<notin> tree_blocks (pi_height s ?T) (pm s) (pi_root s ?T)" "?T mod 4096 + 128 \<le> 4096"
    "va_off s (pmfs_get_super s + 40) mod 4096 + 8 \<le> 4096"
    using ok by (auto simp: table_ok_def Let_def)
  have dn: "page_of (pi_addr s ino) \<notin> ?N" "page_of (pi_addr s ino) \<in> tree_blocks (pi_height s ?T) (pm s) (pi_root s ?T)"
    using A(1) nodes_data_disjoint [OF wf] by (auto simp: tree_blocks_def)
  have tp: "page_of x = page_of ?T" if "?T \<le> x" "x < ?T + 80" for x
    by (rule page_of_inode [OF T(3)]) (use that in auto)
  have sp: "page_of x = super_page s" if "va_off s (pmfs_get_super s + 40) \<le> x" "x < va_off s (pmfs_get_super s + 40) + 8" for x
  proof -
    let ?o = "va_off s (pmfs_get_super s + 40)"
    have "?o = page_of ?o + ?o mod 4096" by (simp add: page_of_def)
    then have "page_of ?o \<le> x" "x < page_of ?o + 4096" using that T(4) by linarith+
    then show ?thesis unfolding super_page_def by (intro page_of_in) (simp_all add: page_of_def)
  qed
  have "pm (PM_EQU n s (pi_addr s ino + k) y) x = pm s x"
    if "page_of x \<in> ?N \<or> ?T \<le> x \<and> x < ?T + 80 \<or> va_off s (pmfs_get_super s + 40) \<le> x \<and> x < va_off s (pmfs_get_super s + 40) + 8" for x
  proof -
    have "\<not> (pi_addr s ino + k \<le> x \<and> x < pi_addr s ino + k + n)"
      using that pg [of x] tp [of x] sp [of x] dn T(1,2) by auto
    then show ?thesis by (simp add: not_le not_less)
  qed
  then show ?thesis by (simp add: table_fixed_def Let_def)
qed

lemma head_fixed:
  assumes ok: "table_ok s" and k: "n \<le> 8"
  shows "table_fixed s (PM_EQU n s (truncate_head s + 8) y)"
proof -
  let ?T = "pmfs_get_inode_table s" and ?o = "va_off s (pmfs_get_super s + 40)"
  have T: "page_of ?T \<notin> tree_blocks (pi_height s ?T) (pm s) (pi_root s ?T)" "?T mod 4096 + 128 \<le> 4096"
    "?T + 128 \<le> ?o \<or> ?o + 8 \<le> ?T"
    using ok by (auto simp: table_ok_def Let_def)
  have pg: "page_of x = page_of ?T" if "?T \<le> x" "x < ?T + 128" for x by (rule page_of_inode [OF T(2) that])
  have "pm (PM_EQU n s (truncate_head s + 8) y) x = pm s x"
    if "page_of x \<in> tree_nodes (pi_height s ?T) (pm s) (pi_root s ?T) \<or> ?T \<le> x \<and> x < ?T + 80 \<or> ?o \<le> x \<and> x < ?o + 8" for x
  proof -
    have "\<not> (?T + 88 \<le> x \<and> x < ?T + 88 + n)"
      using that pg [of x] T(1,3) k tree_nodes_sub(1) by fastforce
    then show ?thesis by (subst pm_equ, intro le_store_out) (auto simp: truncate_head_def)
  qed
  then show ?thesis by (simp add: table_fixed_def Let_def)
qed

section \<open>The chain\<close>

text \<open>The chain of next pointers from the field at \<open>a\<close> on.\<close>

primrec chain :: "wpmfs \<Rightarrow> nat \<Rightarrow> nat list \<Rightarrow> bool" where
  "chain s a [] \<longleftrightarrow> le_load 8 (pm s) a = 0"
| "chain s a (i # is) \<longleftrightarrow> le_load 8 (pm s) a = i \<and> chain s (pi_addr s i + 88) is"

definition trunc_ok :: "wpmfs \<Rightarrow> nat list \<Rightarrow> bool" where
  "trunc_ok s is \<longleftrightarrow> table_ok s \<and> distinct is \<and> (\<forall>i\<in>set is. table_ino s i \<and> i < 2 ^ 64) \<and> chain s (truncate_head s + 8) is"

text \<open>The items do not overlap, and none of them is the head.\<close>

lemma items_apart:
  assumes "table_ok s" "table_ino s i" "table_ino s j" "i \<noteq> j"
  shows "pi_addr s i + 128 \<le> pi_addr s j \<or> pi_addr s j + 128 \<le> pi_addr s i"
proof -
  have "pi_addr s i \<noteq> pi_addr s j" using pi_addr_inj assms by blast
  moreover obtain a b where "pi_addr s i = 128 * a" "pi_addr s j = 128 * b"
    using pi_addr_block(3) [OF assms(1,2)] pi_addr_block(3) [OF assms(1,3)] by (auto elim!: dvdE)
  ultimately show ?thesis by (simp add: nat_neq_iff) linarith
qed

lemma head_apart:
  assumes "table_ok s" "table_ino s i"
  shows "pi_addr s i + 128 \<le> truncate_head s \<or> truncate_head s + 16 \<le> pi_addr s i"
proof (rule ccontr)
  let ?T = "pmfs_get_inode_table s"
  have T: "page_of ?T \<notin> tree_blocks (pi_height s ?T) (pm s) (pi_root s ?T)" "?T mod 4096 + 128 \<le> 4096"
    using assms(1) by (auto simp: table_ok_def Let_def)
  note A = pi_addr_block [OF assms]
  assume "\<not> ?thesis"
  then have "\<exists>x. ?T \<le> x \<and> x < ?T + 128 \<and> pi_addr s i \<le> x \<and> x < pi_addr s i + 128"
    by (intro exI [of _ "max (pi_addr s i) (?T + 80)"]) (auto simp: truncate_head_def)
  then obtain x where x: "?T \<le> x" "x < ?T + 128" "pi_addr s i \<le> x" "x < pi_addr s i + 128" by blast
  have "page_of x = page_of ?T" "page_of x = page_of (pi_addr s i)"
    using page_of_inode [OF T(2)] page_of_inode [OF A(2)] x by blast+
  then show False using A(1) T(1) by (simp add: tree_blocks_def)
qed

lemma chain_cong:
  assumes "le_load 8 (pm t) a = le_load 8 (pm s) a"
    and "\<And>i. i \<in> set is \<Longrightarrow> pi_addr t i = pi_addr s i \<and> le_load 8 (pm t) (pi_addr s i + 88) = le_load 8 (pm s) (pi_addr s i + 88)"
  shows "chain t a is = chain s a is"
  using assms
proof (induction "is" arbitrary: a)
  case (Cons i "is")
  have "chain t (pi_addr s i + 88) is = chain s (pi_addr s i + 88) is"
    by (rule Cons.IH) (use Cons.prems(2) in auto)
  with Cons.prems show ?case by auto
qed simp

theorem truncate_add_ok:
  assumes ok: "trunc_ok s is" and i: "table_ino s ino" "ino < 2 ^ 64" "ino \<notin> set is"
  shows "\<exists>t. pmfs_truncate_add A s is ino sz = Some (t, ino # is) \<and> trunc_ok t (ino # is) \<and> li_truncatesize t (pi_addr t ino + 80) = sz mod 2 ^ 64"
proof -
  have tab: "table_ok s" using ok by (simp add: trunc_ok_def)
  let ?li = "pi_addr s ino + 80"
  define s2 where "s2 = PM_EQU 8 s (?li + 8) (li_next s (truncate_head s))"
  define s3 where "s3 = PM_EQU 8 s2 ?li sz"
  define t where "t = PM_EQU 8 s3 (truncate_head s + 8) ino"
  have r: "pmfs_truncate_add A s is ino sz = Some (t, ino # is)"
    using i(3) table_inode [OF tab i(1), of A] by (simp add: pmfs_truncate_add_def truncate_item_def s2_def s3_def t_def)
  have f2: "table_fixed s s2" using item_fixed [OF tab i(1), of 88 8] by (simp add: s2_def add.assoc)
  note K2 = table_keep [OF tab f2]
  have f3: "table_fixed s2 s3" using item_fixed [OF K2(1), of ino 80 8] i(1) by (simp add: s3_def K2)
  note K3 = table_keep [OF K2(1) f3]
  have f4: "table_fixed s3 t" using head_fixed [OF K3(1), of 8] by (simp add: t_def K3 K2)
  have fx: "table_fixed s t" using table_fixed_trans [OF tab table_fixed_trans [OF tab f2 f3] f4] .
  note K = table_keep [OF tab fx]
  note ha = head_apart [OF tab i(1)]
  have pmt: "pm t = le_store 8 (le_store 8 (le_store 8 (pm s) (?li + 8) (li_next s (truncate_head s))) ?li sz) (truncate_head s + 8) ino"
    by (simp add: t_def s3_def s2_def)
  have h: "le_load 8 (pm t) (truncate_head s + 8) = ino" using i(2) by (simp add: pmt)
  have n: "le_load 8 (pm t) (pi_addr s ino + 88) = le_load 8 (pm s) (truncate_head s + 8)"
  proof -
    have "pi_addr s ino + 88 + 8 \<le> truncate_head s + 8 \<or> truncate_head s + 8 + 8 \<le> pi_addr s ino + 88" using ha by linarith
    then show ?thesis using le_load_bound [of 8 "pm s" "truncate_head s + 8"]
      by (simp add: pmt le_load_store_other li_next_def add.assoc)
  qed
  have sz: "le_load 8 (pm t) ?li = sz mod 2 ^ 64"
  proof -
    have "?li + 8 \<le> truncate_head s + 8 \<or> truncate_head s + 8 + 8 \<le> ?li" using ha by linarith
    then show ?thesis by (simp add: pmt le_load_store_other)
  qed
  have o: "le_load 8 (pm t) (pi_addr s j + 88) = le_load 8 (pm s) (pi_addr s j + 88)" if "j \<in> set is" for j
  proof -
    have j: "table_ino s j" "j \<noteq> ino" using ok that i(3) by (auto simp: trunc_ok_def)
    note a = items_apart [OF tab j(1) i(1) j(2)] head_apart [OF tab j(1)]
    have "pi_addr s j + 88 + 8 \<le> truncate_head s + 8 \<or> truncate_head s + 8 + 8 \<le> pi_addr s j + 88"
      "pi_addr s j + 88 + 8 \<le> ?li \<or> ?li + 8 \<le> pi_addr s j + 88" "pi_addr s j + 88 + 8 \<le> ?li + 8 \<or> ?li + 8 + 8 \<le> pi_addr s j + 88"
      using a by linarith+
    then show ?thesis unfolding pmt by (simp only: le_load_store_other)
  qed
  have "chain t (pi_addr s ino + 88) is = chain s (truncate_head s + 8) is"
  proof (cases "is")
    case Nil
    then show ?thesis by (simp add: n)
  next
    case (Cons j js)
    have "chain t (pi_addr s j + 88) js = chain s (pi_addr s j + 88) js"
      by (rule chain_cong) (use o ok K(4) in \<open>auto simp: Cons trunc_ok_def\<close>)
    moreover have "pi_addr t j = pi_addr s j" using ok K(4) by (simp add: Cons trunc_ok_def)
    ultimately show ?thesis by (simp add: Cons n)
  qed
  then have "trunc_ok t (ino # is)" using ok i h K by (auto simp: trunc_ok_def)
  with r sz K(4) [OF i(1)] show ?thesis by (auto simp: li_truncatesize_def)
qed

text \<open>Taking an item out of the chain: the field that pointed to it points behind it.\<close>

definition chain_end :: "wpmfs \<Rightarrow> nat \<Rightarrow> nat list \<Rightarrow> nat" where
  "chain_end s a xs = (if xs = [] then a else pi_addr s (last xs) + 88)"

lemma list_prev_split: "distinct (xs @ ino # ys) \<Longrightarrow> list_prev (xs @ ino # ys) ino = (if xs = [] then None else Some (last xs))"
proof (induction xs)
  case (Cons x xs)
  show ?case
  proof (cases xs)
    case Nil
    with Cons.prems show ?thesis by auto
  next
    case (Cons x' xs')
    with Cons.prems Cons.IH show ?thesis by auto
  qed
qed (cases ys; simp)

lemma chain_remove:
  assumes "chain s a (xs @ ino # ys)"
    and "le_load 8 (pm t) (chain_end s a xs) = le_load 8 (pm s) (pi_addr s ino + 88)"
    and "\<And>i. i \<in> set xs \<union> set ys \<Longrightarrow> pi_addr t i = pi_addr s i"
    and "\<And>i. i \<in> set (butlast xs) \<union> set ys \<Longrightarrow> le_load 8 (pm t) (pi_addr s i + 88) = le_load 8 (pm s) (pi_addr s i + 88)"
    and "xs \<noteq> [] \<Longrightarrow> le_load 8 (pm t) a = le_load 8 (pm s) a"
  shows "chain t a (xs @ ys)"
  using assms
proof (induction xs arbitrary: a)
  case Nil
  show ?case
  proof (cases ys)
    case (Cons j js)
    have "chain t (pi_addr s j + 88) js = chain s (pi_addr s j + 88) js"
      by (rule chain_cong) (use Nil.prems(3,4) Cons in auto)
    with Nil.prems Cons show ?thesis by (simp add: chain_end_def)
  qed (use Nil.prems in \<open>simp add: chain_end_def\<close>)
next
  case (Cons i xs)
  have "chain t (pi_addr s i + 88) (xs @ ys)"
    by (rule Cons.IH) (use Cons.prems in \<open>auto simp: chain_end_def split: if_splits\<close>)
  with Cons.prems show ?case by simp
qed

theorem truncate_del_ok:
  assumes ok: "trunc_ok s is" and i: "ino \<in> set is"
  shows "\<exists>t. pmfs_truncate_del A s is ino = Some (t, remove1 ino is) \<and> trunc_ok t (remove1 ino is)"
proof -
  have tab: "table_ok s" and di: "distinct is" and ti: "\<And>j. j \<in> set is \<Longrightarrow> table_ino s j \<and> j < 2 ^ 64" and ch: "chain s (truncate_head s + 8) is"
    using ok by (auto simp: trunc_ok_def)
  obtain xs ys where xy: "is = xs @ ino # ys" using i split_list by metis
  have nx: "ino \<notin> set xs" "ino \<notin> set ys" "set xs \<inter> set ys = {}" "distinct xs" using di by (auto simp: xy)
  have rem: "remove1 ino is = xs @ ys" using nx(1) by (simp add: xy remove1_append)
  define e where "e = chain_end s (truncate_head s + 8) xs"
  define t where "t = PM_EQU 8 s e (le_load 8 (pm s) (pi_addr s ino + 88))"
  have r: "pmfs_truncate_del A s is ino = Some (t, remove1 ino is)"
  proof (cases "xs = []")
    case True
    then show ?thesis using i table_inode [OF tab, of ino A] ti [OF i] list_prev_split [of xs ino ys] di
      by (simp add: pmfs_truncate_del_def truncate_item_def xy t_def e_def chain_end_def li_next_def add.assoc)
  next
    case False
    then have "last xs \<in> set is" by (simp add: xy)
    from False table_inode [OF tab, of "last xs" A] ti [OF this] show ?thesis
      using i table_inode [OF tab, of ino A] ti [OF i] list_prev_split [of xs ino ys] di
      by (simp add: pmfs_truncate_del_def truncate_item_def xy t_def e_def chain_end_def li_next_def add.assoc)
  qed
  have fx: "table_fixed s t"
  proof (cases "xs = []")
    case True
    then show ?thesis using head_fixed [OF tab, of 8] by (simp add: t_def e_def chain_end_def)
  next
    case False
    then have "last xs \<in> set is" by (simp add: xy)
    then show ?thesis using item_fixed [OF tab, of "last xs" 88 8] ti False by (simp add: t_def e_def chain_end_def)
  qed
  note K = table_keep [OF tab fx]
  have pmt: "pm t = le_store 8 (pm s) e (le_load 8 (pm s) (pi_addr s ino + 88))" by (simp add: t_def)
  have keep: "le_load 8 (pm t) x = le_load 8 (pm s) x" if "x + 8 \<le> e \<or> e + 8 \<le> x" for x
    unfolding pmt using that by (simp only: le_load_store_other)
  have ap: "pi_addr s j + 88 + 8 \<le> e \<or> e + 8 \<le> pi_addr s j + 88" if "j \<in> set is" "xs \<noteq> [] \<longrightarrow> j \<noteq> last xs" for j
  proof (cases "xs = []")
    case True
    show ?thesis using head_apart [OF tab, of j] ti [OF that(1)] by (simp add: e_def chain_end_def True) linarith
  next
    case False
    then have l: "last xs \<in> set is" by (simp add: xy)
    show ?thesis using items_apart [OF tab, of j "last xs"] ti [OF that(1)] ti [OF l] that(2) False
      by (simp add: e_def chain_end_def) linarith
  qed
  have "chain t (truncate_head s + 8) (xs @ ys)"
  proof (rule chain_remove [OF ch [unfolded xy]])
    show "le_load 8 (pm t) (chain_end s (truncate_head s + 8) xs) = le_load 8 (pm s) (pi_addr s ino + 88)"
      using le_load_bound [of 8 "pm s" "pi_addr s ino + 88"] by (simp add: pmt flip: e_def)
    show "pi_addr t j = pi_addr s j" if "j \<in> set xs \<union> set ys" for j
      using K(4) ti [of j] that by (auto simp: xy)
    show "le_load 8 (pm t) (pi_addr s j + 88) = le_load 8 (pm s) (pi_addr s j + 88)" if "j \<in> set (butlast xs) \<union> set ys" for j
    proof (rule keep, rule ap)
      show "j \<in> set is" using that by (auto simp: xy dest: in_set_butlastD)
      show "xs \<noteq> [] \<longrightarrow> j \<noteq> last xs"
        using that nx(3,4) by (metis Un_iff append_butlast_last_id disjoint_iff distinct_butlast last_in_set not_distinct_conv_prefix)
    qed
    show "le_load 8 (pm t) (truncate_head s + 8) = le_load 8 (pm s) (truncate_head s + 8)" if ne: "xs \<noteq> []"
    proof (rule keep)
      have "last xs \<in> set is" using ne by (simp add: xy)
      from head_apart [OF tab, of "last xs"] ti [OF this] ne
      show "truncate_head s + 8 + 8 \<le> e \<or> e + 8 \<le> truncate_head s + 8" by (simp add: e_def chain_end_def) linarith
    qed
  qed
  then have "trunc_ok t (xs @ ys)" using K ti nx di by (auto simp: trunc_ok_def xy)
  with r rem show ?thesis by auto
qed

end
