(* ===== verification/InodeFields.thy ===== *)
theory InodeFields
  imports InodeOps
begin

text \<open>
  An inode written with \<open>pmfs_update_inode\<close> and read with \<open>pmfs_read_inode\<close> comes back: every field at its
  width, the five flags through the two encodings of them.
\<close>

section \<open>Flag bits\<close>

lemma bit_pow: "bit ((2::nat) ^ k) n \<longleftrightarrow> n = k"
  by (auto simp: bit_exp_iff possible_bit_def)

lemma bit_lits:
  "bit (1::nat) n \<longleftrightarrow> n = 0" "bit (2::nat) n \<longleftrightarrow> n = 1" "bit (4::nat) n \<longleftrightarrow> n = 2" "bit (8::nat) n \<longleftrightarrow> n = 3" "bit (64::nat) n \<longleftrightarrow> n = 6"
  "bit (0x10::nat) n \<longleftrightarrow> n = 4" "bit (0x20::nat) n \<longleftrightarrow> n = 5" "bit (0x80::nat) n \<longleftrightarrow> n = 7" "bit (0x10000::nat) n \<longleftrightarrow> n = 16"
  using bit_pow [of 0 n] bit_pow [of 1 n] bit_pow [of 2 n] bit_pow [of 3 n] bit_pow [of 6 n] bit_pow [of 4 n] bit_pow [of 5 n]
    bit_pow [of 7 n] bit_pow [of 16 n] by simp_all

lemma and_lits:
  fixes x :: nat
  shows "and x 1 \<noteq> 0 \<longleftrightarrow> bit x 0" "and x 2 \<noteq> 0 \<longleftrightarrow> bit x 1" "and x 4 \<noteq> 0 \<longleftrightarrow> bit x 2" "and x 8 \<noteq> 0 \<longleftrightarrow> bit x 3" "and x 64 \<noteq> 0 \<longleftrightarrow> bit x 6"
    "and x 0x10 \<noteq> 0 \<longleftrightarrow> bit x 4" "and x 0x20 \<noteq> 0 \<longleftrightarrow> bit x 5" "and x 0x80 \<noteq> 0 \<longleftrightarrow> bit x 7" "and x 0x10000 \<noteq> 0 \<longleftrightarrow> bit x 16"
  using and_exp_eq_0_iff_not_bit [of x 0] and_exp_eq_0_iff_not_bit [of x 1] and_exp_eq_0_iff_not_bit [of x 2]
    and_exp_eq_0_iff_not_bit [of x 3] and_exp_eq_0_iff_not_bit [of x 6] and_exp_eq_0_iff_not_bit [of x 4]
    and_exp_eq_0_iff_not_bit [of x 5] and_exp_eq_0_iff_not_bit [of x 7] and_exp_eq_0_iff_not_bit [of x 16] by simp_all

abbreviation VFS_FLAGS :: nat where "VFS_FLAGS \<equiv> S_SYNC + S_APPEND + S_IMMUTABLE + S_NOATIME + S_DIRSYNC"

lemma bit_flags:
  "bit VFS_FLAGS n \<longleftrightarrow> n = 0 \<or> n = 1 \<or> n = 2 \<or> n = 3 \<or> n = 6"
  "bit (FS_SYNC_FL + FS_APPEND_FL + FS_IMMUTABLE_FL + FS_NOATIME_FL + FS_DIRSYNC_FL) n \<longleftrightarrow> n = 3 \<or> n = 4 \<or> n = 5 \<or> n = 7 \<or> n = 16"
proof -
  have "VFS_FLAGS = or 1 (or 2 (or 4 (or 8 64)))" by simp
  then show "bit VFS_FLAGS n \<longleftrightarrow> n = 0 \<or> n = 1 \<or> n = 2 \<or> n = 3 \<or> n = 6" by (simp only: bit_or_iff bit_lits)
  have "FS_SYNC_FL + FS_APPEND_FL + FS_IMMUTABLE_FL + FS_NOATIME_FL + FS_DIRSYNC_FL = or 8 (or 0x10 (or 0x20 (or 0x80 0x10000)))" by simp
  then show "bit (FS_SYNC_FL + FS_APPEND_FL + FS_IMMUTABLE_FL + FS_NOATIME_FL + FS_DIRSYNC_FL) n \<longleftrightarrow> n = 3 \<or> n = 4 \<or> n = 5 \<or> n = 7 \<or> n = 16"
    by (simp only: bit_or_iff bit_lits)
qed

lemma bit_clear: "bit (clear_bits x b) n \<longleftrightarrow> bit x n \<and> \<not> bit b n"
proof -
  have d: "and (and x b) (xor x (and x b)) = 0" by (rule bit_eqI) (simp add: bit_simps; blast)
  have "and x b + xor x (and x b) = or (and x b) (xor x (and x b))" using d by (rule disjunctive_add_eq_or)
  also have "\<dots> = x" by (rule bit_eqI) (simp add: bit_simps; blast)
  finally have "clear_bits x b = xor x (and x b)" by (simp add: clear_bits_def)
  then show ?thesis by (simp add: bit_simps) blast
qed

lemma bit_copy: "bit (copy_flag src from to x) n \<longleftrightarrow> bit x n \<or> bit to n \<and> and src from \<noteq> 0"
  by (auto simp: copy_flag_def bit_simps)

lemma stored_bits:
  "bit (stored_flags f p) 3 = bit f 0" "bit (stored_flags f p) 4 = bit f 3" "bit (stored_flags f p) 5 = bit f 2"
  "bit (stored_flags f p) 7 = bit f 1" "bit (stored_flags f p) 16 = bit f 6"
  by (simp_all only: stored_flags_def Let_def bit_copy bit_clear bit_flags and_lits bit_lits) simp_all

text \<open>Storing the flags and reading them back copies the five flags.\<close>

lemma flags_back:
  assumes "pi_flags s pi = stored_flags f p"
  shows "pmfs_set_inode_flags s pi base = base\<lparr>i_flags := or (or (clear_bits (i_flags base) VFS_FLAGS) (and f VFS_FLAGS)) S_DAX\<rparr>"
proof -
  define x where "x = clear_bits (i_flags base) VFS_FLAGS"
  let ?g = "copy_flag (stored_flags f p) FS_DIRSYNC_FL S_DIRSYNC (copy_flag (stored_flags f p) FS_NOATIME_FL S_NOATIME
    (copy_flag (stored_flags f p) FS_IMMUTABLE_FL S_IMMUTABLE (copy_flag (stored_flags f p) FS_APPEND_FL S_APPEND
    (copy_flag (stored_flags f p) FS_SYNC_FL S_SYNC x))))"
  have "?g = or x (and f VFS_FLAGS)"
    by (rule bit_eqI, simp only: bit_copy and_lits stored_bits bit_lits bit_or_iff bit_and_iff bit_flags) blast
  then show ?thesis unfolding pmfs_set_inode_flags_def assms Let_def by (simp only: x_def [symmetric])
qed

section \<open>The inode comes back\<close>

definition vinode_fits :: "vinode \<Rightarrow> bool" where
  "vinode_fits inode \<longleftrightarrow> i_mode inode < 2 ^ 16 \<and> i_uid inode < 2 ^ 32 \<and> i_gid inode < 2 ^ 32 \<and> i_nlink inode < 2 ^ 16 \<and>
     i_size inode < 2 ^ 64 \<and> i_blocks inode < 2 ^ 64 \<and> i_atime inode < 2 ^ 32 \<and> i_mtime inode < 2 ^ 32 \<and> i_ctime inode < 2 ^ 32 \<and>
     i_generation inode < 2 ^ 32 \<and> i_rdev inode < 2 ^ 32"

definition update_mem :: "(nat \<Rightarrow> 8 word) \<Rightarrow> nat \<Rightarrow> vinode \<Rightarrow> nat \<Rightarrow> nat \<Rightarrow> 8 word" where
  "update_mem m pi inode flags =
     le_store 4 (le_store 4 (le_store 4 (le_store 4 (le_store 4 (le_store 8 (le_store 8 (le_store 2 (le_store 4 (le_store 4
       (le_store 2 m (pi + 36) (i_mode inode)) (pi + 56) (i_uid inode)) (pi + 60) (i_gid inode)) (pi + 38) (i_nlink inode))
       (pi + 16) (i_size inode)) (pi + 40) (i_blocks inode)) (pi + 68) (i_atime inode)) (pi + 24) (i_ctime inode))
       (pi + 28) (i_mtime inode)) (pi + 64) (i_generation inode)) (pi + 4) flags"

lemma update_loads:
  fixes m :: "nat \<Rightarrow> 8 word" and pi :: nat
  assumes "vinode_fits inode" "flags < 2 ^ 32"
  defines "m' \<equiv> update_mem m pi inode flags"
  shows "le_load 2 m' (pi + 36) = i_mode inode" "le_load 4 m' (pi + 56) = i_uid inode" "le_load 4 m' (pi + 60) = i_gid inode"
    "le_load 2 m' (pi + 38) = i_nlink inode" "le_load 8 m' (pi + 16) = i_size inode" "le_load 8 m' (pi + 40) = i_blocks inode"
    "le_load 4 m' (pi + 68) = i_atime inode" "le_load 4 m' (pi + 24) = i_ctime inode" "le_load 4 m' (pi + 28) = i_mtime inode"
    "le_load 4 m' (pi + 64) = i_generation inode" "le_load 4 m' (pi + 4) = flags"
    "le_load 4 m' (pi + 32) = le_load 4 m (pi + 32)"
  using assms(1,2) unfolding m'_def update_mem_def
  by (simp_all add: vinode_fits_def le_load_store_other)

definition update_flags :: "wpmfs \<Rightarrow> nat \<Rightarrow> vinode \<Rightarrow> nat" where
  "update_flags s pi inode = stored_flags (i_flags inode) (pi_flags s pi)"

lemma update_mem:
  "pm (pmfs_update_inode s pi inode) =
     (let m = update_mem (pm s) pi inode (update_flags s pi inode)
      in if S_ISCHR (i_mode inode) \<or> S_ISBLK (i_mode inode) then le_store 4 m (pi + 72) (i_rdev inode) else m)"
  by (simp add: pmfs_update_inode_def pmfs_get_inode_flags_def update_mem_def update_flags_def pi_flags_def Let_def le_load_store_other)

definition special_inode :: "vinode \<Rightarrow> bool" where
  "special_inode inode \<longleftrightarrow> S_ISCHR (i_mode inode) \<or> S_ISBLK (i_mode inode)"

definition sized_inode :: "vinode \<Rightarrow> bool" where
  "sized_inode inode \<longleftrightarrow> S_ISREG (i_mode inode) \<or> S_ISDIR (i_mode inode) \<or> S_ISLNK (i_mode inode)"

lemma kinds_apart: "special_inode inode \<Longrightarrow> \<not> sized_inode inode"
  by (auto simp: special_inode_def sized_inode_def S_ISCHR_def S_ISBLK_def S_ISREG_def S_ISDIR_def S_ISLNK_def)

lemma updated_fields:
  assumes fit: "vinode_fits inode" and fl: "update_flags s pi inode < 2 ^ 32"
  defines "t \<equiv> pmfs_update_inode s pi inode"
  shows "pi_mode t pi = i_mode inode" "pi_uid t pi = i_uid inode" "pi_gid t pi = i_gid inode" "pi_links_count t pi = i_nlink inode"
    "pi_size t pi = i_size inode" "pi_blocks t pi = i_blocks inode" "pi_atime t pi = i_atime inode" "pi_ctime t pi = i_ctime inode"
    "pi_mtime t pi = i_mtime inode" "pi_generation t pi = i_generation inode" "pi_flags t pi = update_flags s pi inode"
    "pi_dtime t pi = pi_dtime s pi" "special_inode inode \<Longrightarrow> pi_rdev t pi = i_rdev inode"
proof -
  let ?m = "update_mem (pm s) pi inode (update_flags s pi inode)"
  have pm: "pm t = (if special_inode inode then le_store 4 ?m (pi + 72) (i_rdev inode) else ?m)"
    by (simp add: t_def update_mem special_inode_def Let_def)
  have out: "le_load n (pm t) (pi + k) = le_load n ?m (pi + k)" if "k + n \<le> 72" for n k
    using that by (simp add: pm le_load_store_other)
  note L = update_loads [OF fit fl, of "pm s" pi]
  show "pi_mode t pi = i_mode inode" "pi_uid t pi = i_uid inode" "pi_gid t pi = i_gid inode" "pi_links_count t pi = i_nlink inode"
    "pi_size t pi = i_size inode" "pi_blocks t pi = i_blocks inode" "pi_atime t pi = i_atime inode" "pi_ctime t pi = i_ctime inode"
    "pi_mtime t pi = i_mtime inode" "pi_generation t pi = i_generation inode" "pi_flags t pi = update_flags s pi inode"
    "pi_dtime t pi = pi_dtime s pi"
    by (simp_all add: pi_mode_def pi_uid_def pi_gid_def pi_links_count_def pi_size_def pi_blocks_def pi_atime_def pi_ctime_def
        pi_mtime_def pi_generation_def pi_flags_def pi_dtime_def out L)
  show "special_inode inode \<Longrightarrow> pi_rdev t pi = i_rdev inode" using fit by (simp add: pi_rdev_def pm vinode_fits_def)
qed

text \<open>What is read back: the stored fields, the five flags, no size and a device number for special files.\<close>

definition stored_part :: "vinode \<Rightarrow> vinode \<Rightarrow> vinode" where
  "stored_part inode base =
     base\<lparr>i_mode := i_mode inode, i_uid := i_uid inode, i_gid := i_gid inode, i_nlink := i_nlink inode,
       i_size := (if sized_inode inode then i_size inode else 0), i_blocks := i_blocks inode,
       i_atime := i_atime inode, i_mtime := i_mtime inode, i_ctime := i_ctime inode, i_generation := i_generation inode,
       i_flags := or (or (clear_bits (i_flags base) VFS_FLAGS) (and (i_flags inode) VFS_FLAGS)) S_DAX,
       i_rdev := (if special_inode inode then i_rdev inode else i_rdev base)\<rparr>"

lemma update_flags_bound: "update_flags s pi inode < 2 ^ 32"
proof -
  have "take_bit 32 (update_flags s pi inode) = update_flags s pi inode"
  proof (rule bit_eqI)
    fix n
    have pf: "pi_flags s pi < 2 ^ 32" using le_load_bound [of 4 "pm s" "pi + 4"] by (simp add: pi_flags_def)
    then have tb: "take_bit 32 (pi_flags s pi) = pi_flags s pi" by (simp add: take_bit_eq_mod)
    have "\<not> bit (pi_flags s pi) n" if "\<not> n < 32" using that by (subst tb [symmetric]) (simp add: bit_take_bit_iff)
    then show "bit (take_bit 32 (update_flags s pi inode)) n = bit (update_flags s pi inode) n"
      unfolding update_flags_def stored_flags_def Let_def
      by (simp only: bit_take_bit_iff bit_copy bit_clear bit_flags bit_lits) auto
  qed
  then show ?thesis using take_bit_nat_less_exp [of 32 "update_flags s pi inode"] by simp
qed

lemma inode_comes_back:
  assumes fit: "vinode_fits inode"
  shows "pmfs_read_inode (pmfs_update_inode s pi inode) pi base =
    (if i_nlink inode = 0 \<and> (i_mode inode = 0 \<or> pi_dtime s pi \<noteq> 0) then Inl ESTALE else Inr (stored_part inode base))"
proof -
  note F = updated_fields [OF fit update_flags_bound]
  have fb: "pmfs_set_inode_flags (pmfs_update_inode s pi inode) pi b =
      b\<lparr>i_flags := or (or (clear_bits (i_flags b) VFS_FLAGS) (and (i_flags inode) VFS_FLAGS)) S_DAX\<rparr>" for b
    by (rule flags_back [of _ _ _ "pi_flags s pi"]) (use F(11) in \<open>simp add: update_flags_def\<close>)
  show ?thesis
    unfolding pmfs_read_inode_def Let_def fb F(1-12)
    using F(13) kinds_apart [of inode] by (cases "special_inode inode"; cases "sized_inode inode")
      (simp_all add: stored_part_def sized_inode_def special_inode_def)
qed

end
