(* ===== verification/MountSuper.thy ===== *)
theory MountSuper
  imports NameOps JournalTx
begin

text \<open>
  The super block and the mount (\<^verbatim>\<open>super.c\<close>, \<^verbatim>\<open>pmfs_sync_super\<close> of \<^verbatim>\<open>wprotect.h\<close>): options, the making of
  an empty file system, the check of the super block and its copy, and the mount that composes the recovery
  of windows, journal, truncate list and free blocks.  The kernel's \<^verbatim>\<open>crc16\<close> is the parameter \<open>crc16\<close>.
\<close>

section \<open>Options\<close>

text \<open>The mount's own part of \<^verbatim>\<open>struct pmfs_sb_info\<close>, and the globals the options set.\<close>

record mount_info =
  mi_bpi :: nat
  mi_uid :: nat
  mi_gid :: nat
  mi_mode :: nat
  mi_jsize :: nat
  mi_dbgmask :: nat
  mi_tracemask :: nat
  mi_cell_endur :: nat
  mi_alloc :: nat

abbreviation PMFS_MOUNT_PROTECT :: "64 word" where "PMFS_MOUNT_PROTECT \<equiv> 0x1"
abbreviation PMFS_MOUNT_XIP :: "64 word" where "PMFS_MOUNT_XIP \<equiv> 0x8"
abbreviation PMFS_MOUNT_ERRORS_CONT :: "64 word" where "PMFS_MOUNT_ERRORS_CONT \<equiv> 0x10"
abbreviation PMFS_MOUNT_ERRORS_RO :: "64 word" where "PMFS_MOUNT_ERRORS_RO \<equiv> 0x20"
abbreviation PMFS_MOUNT_ERRORS_PANIC :: "64 word" where "PMFS_MOUNT_ERRORS_PANIC \<equiv> 0x40"
abbreviation PMFS_MOUNT_HUGEMMAP :: "64 word" where "PMFS_MOUNT_HUGEMMAP \<equiv> 0x80"
abbreviation PMFS_MOUNT_HUGEIOREMAP :: "64 word" where "PMFS_MOUNT_HUGEIOREMAP \<equiv> 0x100"
abbreviation PMFS_MOUNT_PROTECT_OLD :: "64 word" where "PMFS_MOUNT_PROTECT_OLD \<equiv> 0x200"
abbreviation PMFS_MOUNT_FORMAT :: "64 word" where "PMFS_MOUNT_FORMAT \<equiv> 0x400"
abbreviation PMFS_MOUNT_MOUNTING :: "64 word" where "PMFS_MOUNT_MOUNTING \<equiv> 0x800"
abbreviation PMFS_MINIMUM_JOURNAL_SIZE :: nat where "PMFS_MINIMUM_JOURNAL_SIZE \<equiv> 2 ^ 16"
abbreviation PMFS_DEFAULT_JOURNAL_SIZE :: nat where "PMFS_DEFAULT_JOURNAL_SIZE \<equiv> 4 * 2 ^ 20"

definition set_opt :: "64 word \<Rightarrow> wpmfs \<Rightarrow> wpmfs" where "set_opt opt s = s\<lparr>s_mount_opt := s_mount_opt s OR opt\<rparr>"
definition clear_opt :: "64 word \<Rightarrow> wpmfs \<Rightarrow> wpmfs" where "clear_opt opt s = s\<lparr>s_mount_opt := s_mount_opt s AND NOT opt\<rparr>"

text \<open>
  The options after the kernel's \<^verbatim>\<open>match_token\<close>, with the value it reads; \<open>None\<close> is a value it refuses (for
  \<open>Opt_jsize\<close>, one that does not start with a digit).  The size of the journal is kept in 32 bits.
\<close>

datatype mount_token = Opt_bpi "nat option" | Opt_init | Opt_jsize "nat option" | Opt_num_inodes "nat option" | Opt_mode "nat option"
  | Opt_uid "nat option" | Opt_gid "nat option" | Opt_wprotect | Opt_wprotectold | Opt_err_cont | Opt_err_panic | Opt_err_ro
  | Opt_hugemmap | Opt_nohugeioremap | Opt_dbgmask "nat option" | Opt_tracemask "nat option" | Opt_bs | Opt_vmap
  | Opt_wlsw "nat option" | Opt_alloc "nat option" | Opt_int_thres "nat option" | Opt_cell_endur "nat option" | Opt_err

type_synonym mount_state = "mount_info \<times> wpmfs"

text \<open>Options that a remount refuses.\<close>

fun mount_only :: "mount_token \<Rightarrow> bool" where
  "mount_only (Opt_bpi _) = True"
| "mount_only (Opt_uid _) = True"
| "mount_only Opt_init = True"
| "mount_only (Opt_jsize _) = True"
| "mount_only (Opt_num_inodes _) = True"
| "mount_only Opt_wprotect = True"
| "mount_only Opt_wprotectold = True"
| "mount_only Opt_hugemmap = True"
| "mount_only Opt_nohugeioremap = True"
| "mount_only _ = False"

definition errors_opt :: "64 word \<Rightarrow> 64 word \<Rightarrow> 64 word \<Rightarrow> wpmfs \<Rightarrow> wpmfs" where
  "errors_opt off1 off2 on s = set_opt on (clear_opt off2 (clear_opt off1 s))"

text \<open>One option; \<open>None\<close> is the jump to \<^verbatim>\<open>bad_val\<close> or \<^verbatim>\<open>bad_opt\<close>.\<close>

fun parse_option :: "mount_token \<Rightarrow> mount_state \<Rightarrow> mount_state option" where
  "parse_option (Opt_bpi v) (mi, s) = map_option (\<lambda>n. (mi\<lparr>mi_bpi := n\<rparr>, s)) v"
| "parse_option (Opt_uid v) (mi, s) = map_option (\<lambda>n. (mi\<lparr>mi_uid := n\<rparr>, s)) v"
| "parse_option (Opt_gid v) (mi, s) = map_option (\<lambda>n. (mi\<lparr>mi_gid := n\<rparr>, s)) v"
| "parse_option (Opt_mode v) (mi, s) = map_option (\<lambda>n. (mi\<lparr>mi_mode := and n 0x3FF\<rparr>, s)) v"
| "parse_option Opt_init (mi, s) = Some (mi, set_opt PMFS_MOUNT_FORMAT s)"
| "parse_option (Opt_jsize v) (mi, s) =
     (case v of
        None \<Rightarrow> None
      | Some v \<Rightarrow>
          (let n = v mod 2 ^ 32
           in if (n \<noteq> 0 \<and> and n (n - 1) \<noteq> 0) \<or> n < PMFS_MINIMUM_JOURNAL_SIZE then None else Some (mi\<lparr>mi_jsize := n\<rparr>, s)))"
| "parse_option (Opt_num_inodes v) (mi, s) = map_option (\<lambda>n. (mi, s\<lparr>num_inodes := n\<rparr>)) v"
| "parse_option Opt_err_panic (mi, s) = Some (mi, errors_opt PMFS_MOUNT_ERRORS_CONT PMFS_MOUNT_ERRORS_RO PMFS_MOUNT_ERRORS_PANIC s)"
| "parse_option Opt_err_ro (mi, s) = Some (mi, errors_opt PMFS_MOUNT_ERRORS_CONT PMFS_MOUNT_ERRORS_PANIC PMFS_MOUNT_ERRORS_RO s)"
| "parse_option Opt_err_cont (mi, s) = Some (mi, errors_opt PMFS_MOUNT_ERRORS_RO PMFS_MOUNT_ERRORS_PANIC PMFS_MOUNT_ERRORS_CONT s)"
| "parse_option Opt_wprotect (mi, s) = Some (mi, set_opt PMFS_MOUNT_PROTECT s)"
| "parse_option Opt_wprotectold (mi, s) = Some (mi, set_opt PMFS_MOUNT_PROTECT_OLD s)"
| "parse_option Opt_hugemmap (mi, s) = Some (mi, set_opt PMFS_MOUNT_HUGEMMAP s)"
| "parse_option Opt_nohugeioremap (mi, s) = Some (mi, clear_opt PMFS_MOUNT_HUGEIOREMAP s)"
| "parse_option (Opt_dbgmask v) (mi, s) = map_option (\<lambda>n. (mi\<lparr>mi_dbgmask := n\<rparr>, s)) v"
| "parse_option (Opt_tracemask v) (mi, s) = map_option (\<lambda>n. (mi\<lparr>mi_tracemask := n\<rparr>, s)) v"
| "parse_option Opt_vmap (mi, s) = Some (mi, s\<lparr>vmapi := (vmapi s)\<lparr>enabled := True\<rparr>\<rparr>)"
| "parse_option (Opt_wlsw v) (mi, s) = map_option (\<lambda>n. (mi, s\<lparr>wl_switch := of_nat n\<rparr>)) v"
| "parse_option (Opt_alloc v) (mi, s) =
     (case v of None \<Rightarrow> None | Some n \<Rightarrow> map_option (\<lambda>A. (mi\<lparr>mi_alloc := n\<rparr>, s)) (wpmfs_select_allocator n))"
| "parse_option (Opt_int_thres v) (mi, s) =
     (case v of None \<Rightarrow> None | Some n \<Rightarrow> if n < 12 then None else map_option (Pair mi) (set_int_threshold s (int n)))"
| "parse_option (Opt_cell_endur v) (mi, s) = map_option (\<lambda>n. (mi\<lparr>mi_cell_endur := n\<rparr>, s)) v"
| "parse_option Opt_bs st = None"
| "parse_option Opt_err st = None"

text \<open>The whole string: on an error, what came before it stays done.\<close>

fun pmfs_parse_options :: "bool \<Rightarrow> mount_token list \<Rightarrow> mount_state \<Rightarrow> (errno + unit) \<times> mount_state" where
  "pmfs_parse_options remount [] st = (Inr (), st)"
| "pmfs_parse_options remount (t # ts) st =
     (if remount \<and> mount_only t then (Inl EINVAL, st)
      else case parse_option t st of None \<Rightarrow> (Inl EINVAL, st) | Some st' \<Rightarrow> pmfs_parse_options remount ts st')"

text \<open>The new structure is zeroed; the globals and the state of the device stay.\<close>

definition new_sb_info :: "mount_state \<Rightarrow> mount_state" where
  "new_sb_info = (\<lambda>(mi, s).
     (mi\<lparr>mi_bpi := 0, mi_uid := 0, mi_gid := 0, mi_mode := 0, mi_jsize := 0\<rparr>,
      s\<lparr>phys_addr := 0, virt_addr := 0, block_inuse_head := [], block_start := 0, block_end := 0, num_free_blocks := 0,
        num_inodes := 0, initsize := 0, s_mount_opt := 0, s_inodes_count := 0, s_free_inodes_count := 0,
        s_inodes_used_count := 0, s_free_inode_hint := 0, num_blocknode_allocated := 0,
        vmapi := \<lparr>enabled = False, base_static = 0, size_static = 0, base_dynamic = 0, size_dynamic = 0\<rparr>,
        num_bins := 0, block_bins := [], unused_block_low := 0, unused_block_high := 0\<rparr>))"

definition set_default_opts :: "mount_state \<Rightarrow> mount_state" where
  "set_default_opts = (\<lambda>(mi, s).
     (mi\<lparr>mi_jsize := PMFS_DEFAULT_JOURNAL_SIZE, mi_alloc := 1\<rparr>,
      (set_opt PMFS_MOUNT_ERRORS_CONT (set_opt PMFS_MOUNT_HUGEIOREMAP s))\<lparr>wl_switch := 0\<rparr>))"

section \<open>Sizes\<close>

definition pmfs_max_size :: "nat \<Rightarrow> nat \<Rightarrow> nat" where
  "pmfs_max_size max_lfs bits = min (2 ^ (3 * 9 + bits) - 1) max_lfs"

definition pmfs_check_size :: "mount_info \<Rightarrow> wpmfs \<Rightarrow> nat \<Rightarrow> bool" where
  "pmfs_check_size mi s sz \<longleftrightarrow>
     (let num_blocks = (if num_inodes s > 0 then num_inodes s div 2 ^ (12 - 7) + 1 else 1)
      in \<not> sz < 2 * 2 ^ 12 + num_blocks * 2 ^ 12 + mi_jsize mi)"

text \<open>
  \<^verbatim>\<open>pmfs_get_block_info\<close> from the size and the addresses the kernel gives: the counters take the end of the
  device, 8 bytes for each page.
\<close>

definition pmfs_get_block_info :: "wpmfs \<Rightarrow> (nat \<times> nat \<times> nat) option \<Rightarrow> (errno + unit) \<times> wpmfs" where
  "pmfs_get_block_info s access =
     (case access of
        None \<Rightarrow> (Inl EINVAL, s)
      | Some (sz, va, pa) \<Rightarrow>
          let cnter_size = round_down PAGE_SIZE (sz div (8 + PAGE_SIZE) * 8 + PAGE_SIZE - 1);
              s1 = s\<lparr>virt_addr := va, phys_addr := pa, initsize := sz - cnter_size\<rparr>
          in (Inr (), s1\<lparr>page_private := (\<lambda>b. if b < initsize s1 div 2 ^ PAGE_SHIFT then 0 else page_private s1 b)\<rparr>))"

section \<open>The super block and its copy\<close>

abbreviation PMFS_SB_SIZE :: nat where "PMFS_SB_SIZE \<equiv> 512"
abbreviation PMFS_SB_STATIC_SIZE :: nat where "PMFS_SB_STATIC_SIZE \<equiv> 48"
abbreviation SB_STRUCT :: nat where "SB_STRUCT \<equiv> 96"
abbreviation PMFS_SUPER_MAGIC :: nat where "PMFS_SUPER_MAGIC \<equiv> 0xEFFC"

definition sb_magic :: "wpmfs \<Rightarrow> nat \<Rightarrow> nat" where "sb_magic s sb = le_load 2 (pm s) (sb + 2)"

text \<open>\<open>False\<close> when the checksum fits.\<close>

definition pmfs_calc_checksum :: "(nat \<Rightarrow> 8 word list \<Rightarrow> nat) \<Rightarrow> wpmfs \<Rightarrow> nat \<Rightarrow> nat \<Rightarrow> bool" where
  "pmfs_calc_checksum crc16 s data n \<longleftrightarrow> le_load 2 (pm s) data \<noteq> crc16 (2 ^ 16 - 1) (mem_read (pm s) (data + 2) (n - 2)) mod 2 ^ 16"

definition pmfs_sync_super :: "(nat \<Rightarrow> 8 word list \<Rightarrow> nat) \<Rightarrow> nat \<Rightarrow> wpmfs \<Rightarrow> nat \<Rightarrow> wpmfs" where
  "pmfs_sync_super crc16 now s ps =
     (let s1 = PM_EQU 4 s (ps + 60) now;
          s2 = PM_STORE 2 4 s1 ps 0;
          crc = crc16 (2 ^ 16 - 1) (mem_read (pm s2) (ps + 2) (PMFS_SB_STATIC_SIZE - 2));
          s3 = PM_EQU 2 s2 ps crc
      in PM_MEMCPY s3 (ps + PMFS_SB_SIZE) ps SB_STRUCT)"

text \<open>The repair from the copy; \<^verbatim>\<open>pmfs_memlock_super\<close> makes the checksum anew.\<close>

definition repair_super :: "(nat \<Rightarrow> 8 word list \<Rightarrow> nat) \<Rightarrow> nat \<Rightarrow> wpmfs \<Rightarrow> nat \<Rightarrow> wpmfs" where
  "repair_super crc16 now s ps = pmfs_sync_super crc16 now (PM_MEMCPY s ps (ps + PMFS_SB_SIZE) SB_STRUCT) ps"

definition pmfs_check_integrity :: "(nat \<Rightarrow> 8 word list \<Rightarrow> nat) \<Rightarrow> nat \<Rightarrow> wpmfs \<Rightarrow> nat \<Rightarrow> bool \<times> wpmfs" where
  "pmfs_check_integrity crc16 now s ps =
     (if sb_magic s ps \<noteq> PMFS_SUPER_MAGIC \<and> sb_magic s (ps + PMFS_SB_SIZE) \<noteq> PMFS_SUPER_MAGIC then (False, s)
      else
        let s1 = (if sb_magic s ps \<noteq> PMFS_SUPER_MAGIC then repair_super crc16 now s ps else s)
        in if pmfs_calc_checksum crc16 s1 ps PMFS_SB_STATIC_SIZE then
             (if pmfs_calc_checksum crc16 s1 (ps + PMFS_SB_SIZE) PMFS_SB_STATIC_SIZE then (False, s1)
              else (True, repair_super crc16 now s1 ps))
           else (True, s1))"

section \<open>An empty file system\<close>

text \<open>
  \<^verbatim>\<open>wpmfs_init\<close> and \<^verbatim>\<open>wpmfs_recv\<close> (\<^verbatim>\<open>wpmfs_wl.c\<close>); \<open>borrowed\<close>: the kernel has the configuration and the
  symbols they look up.
\<close>

definition init_int :: "wpmfs \<Rightarrow> bool \<times> wpmfs" where
  "init_int s = (if kmem_ok s then (True, s\<lparr>fifo := [], work_queued := False\<rparr>) else (False, s))"

definition wpmfs_init :: "kernel_vm \<Rightarrow> bool \<Rightarrow> wpmfs \<Rightarrow> nat \<Rightarrow> (errno + nat) \<times> wpmfs" where
  "wpmfs_init K borrowed s reserved =
     (if \<not> borrowed then (Inl EPERM, s)
      else case init_int (wpmfs_init_all_cnter s) of
        (False, s1) \<Rightarrow> (Inl ENOMEM, s1)
      | (True, s1) \<Rightarrow>
          (case wpmfs_setup_memory K s1 reserved of
             (ok, reserved', s2) \<Rightarrow> (if ok then Inr reserved' else Inl ENOMEM, s2)))"

definition wpmfs_recv :: "kernel_vm \<Rightarrow> bool \<Rightarrow> wpmfs \<Rightarrow> ((errno + unit) \<times> wpmfs) option" where
  "wpmfs_recv K borrowed s =
     (if \<not> borrowed then Some (Inl EPERM, s)
      else case init_int s of
        (False, s1) \<Rightarrow> Some (Inl ENOMEM, s1)
      | (True, s1) \<Rightarrow> map_option (\<lambda>(ok, s2). (if ok then Inr () else Inl ENOMEM, s2)) (wpmfs_recv_memory K s1))"

abbreviation JOURNAL_META_START :: nat where "JOURNAL_META_START \<equiv> 128"
abbreviation INODE_TABLE_START :: nat where "INODE_TABLE_START \<equiv> 192"
abbreviation JOURNAL_DATA_START :: nat where "JOURNAL_DATA_START \<equiv> 4096"
abbreviation PMFS_ROOT_INO :: nat where "PMFS_ROOT_INO \<equiv> 128"

definition write_super :: "wpmfs \<Rightarrow> nat \<Rightarrow> nat \<Rightarrow> wpmfs" where
  "write_super s super sz =
     (let s1 = PM_MEMSET s super 0 JOURNAL_DATA_START;
          s2 = PM_EQU 8 s1 (super + 8) sz;
          s3 = PM_EQU 4 s2 (super + 4) 4096;
          s4 = PM_EQU 2 s3 (super + 2) PMFS_SUPER_MAGIC;
          s5 = PM_EQU 8 s4 (super + 32) JOURNAL_META_START
      in PM_EQU 8 s5 (super + 40) INODE_TABLE_START)"

definition write_root :: "mount_info \<Rightarrow> nat \<Rightarrow> wpmfs \<Rightarrow> nat \<Rightarrow> nat \<Rightarrow> wpmfs" where
  "write_root mi now s root_i blocknr =
     (let s1 = PM_EQU 2 s (root_i + 36) (or (mi_mode mi) S_IFDIR);
          s2 = PM_EQU 4 s1 (root_i + 56) (mi_uid mi);
          s3 = PM_EQU 4 s2 (root_i + 60) (mi_gid mi);
          s4 = PM_EQU 2 s3 (root_i + 38) 2;
          s5 = PM_STORE 1 4 s4 (root_i + 3) 0;
          s6 = PM_STORE 4 4 s5 (root_i + 4) 0;
          s7 = PM_EQU 8 s6 (root_i + 40) 1;
          s8 = PM_EQU 8 s7 (root_i + 16) 4096;
          s9 = PM_EQU 4 s8 (root_i + 68) now;
          s10 = PM_EQU 4 s9 (root_i + 28) now;
          s11 = PM_EQU 4 s10 (root_i + 24) now;
          s12 = PM_EQU 8 s11 (root_i + 8) (blocknr * 2 ^ PAGE_SHIFT)
      in PM_STORE 1 4 s12 (root_i + 2) 0)"

text \<open>
  \<^verbatim>\<open>pmfs_init\<close>.  The number of the root directory's block is used without a look at the allocation's result:
  \<open>None\<close> is its uninitialised value.
\<close>

definition pmfs_init :: "kernel_vm \<Rightarrow> allocator_factory \<Rightarrow> addressing \<Rightarrow> (nat \<Rightarrow> 8 word list \<Rightarrow> nat) \<Rightarrow> bool \<Rightarrow> nat \<Rightarrow> mount_info \<Rightarrow>
    wpmfs \<Rightarrow> jstate \<Rightarrow> nat \<Rightarrow> ((errno + nat) \<times> wpmfs \<times> jstate) option" where
  "pmfs_init K A E crc16 borrowed now mi s j sz =
     (let s1 = s\<lparr>block_start := 0, block_end := sz div 2 ^ PAGE_SHIFT, num_free_blocks := sz div 2 ^ PAGE_SHIFT\<rparr>
      in if virt_addr s1 = 0 then Some (Inl EINVAL, s1, j)
      else if \<not> pmfs_check_size mi s1 sz then Some (Inl EINVAL, s1, j)
      else case wpmfs_init K borrowed s1 (JOURNAL_DATA_START + mi_jsize mi) of
        (Inl e, s2) \<Rightarrow> Some (Inl EPERM, s2, j)
      | (Inr reserved, s2) \<Rightarrow> do {
          let super = va_off s2 (pmfs_get_super s2);
          s3 \<leftarrow> af_init_blockmap A (write_super s2 super sz) reserved;
          let j1 = pmfs_journal_hard_init JOURNAL_DATA_START (mi_jsize mi) j;
          (r, s4) \<leftarrow> pmfs_init_inode_table K A E s3;
          case r of
            Inl e \<Rightarrow> Some (Inl EINVAL, s4, j1)
          | Inr _ \<Rightarrow> do {
              let s5 = pmfs_sync_super crc16 now s4 super;
              (r, s6) \<leftarrow> af_new_block A s5 0 True;
              blocknr \<leftarrow> (case r of Inr b \<Rightarrow> Some b | Inl e \<Rightarrow> None);
              (root_i, s7) \<leftarrow> inode_at A s6 PMFS_ROOT_INO;
              let s8 = write_root mi now s7 root_i blocknr;
              let base = va_off s8 (pmfs_get_block s8 (blocknr * 2 ^ PAGE_SHIFT));
              Some (Inr root_i, init_dir_block s8 base PMFS_ROOT_INO PMFS_ROOT_INO, j1)
            }
        })"

section \<open>The mount\<close>

text \<open>
  What the kernel supplies at mount: its mapping services, the block device's memory, the ids of the caller,
  the cached inodes, whether \<^verbatim>\<open>d_make_root\<close> succeeds, memory for the scan, and where the journal lies.
\<close>

record mount_env =
  me_vm :: kernel_vm
  me_addressing :: addressing
  me_crc16 :: "nat \<Rightarrow> 8 word list \<Rightarrow> nat"
  me_borrowed :: bool
  me_access :: "(nat \<times> nat \<times> nat) option"
  me_fsuid :: nat
  me_fsgid :: nat
  me_cache :: "nat \<Rightarrow> vinode option"
  me_make_root :: bool
  me_scan_mem :: bool
  me_journal_base :: "64 word"
  me_rdonly :: bool
  me_now :: nat

definition mount_allocator :: "mount_info \<Rightarrow> allocator_factory" where
  "mount_allocator mi = (if mi_alloc mi = 0 then wpmfs_allocator else pmfs_allocator)"

definition make_bins :: "mount_info \<Rightarrow> wpmfs \<Rightarrow> wpmfs" where
  "make_bins mi s =
     (let n = unat (get_cell_endurance (mi_cell_endur mi) * of_nat PAGE_SIZE div get_int_thres_size s) + 1
      in s\<lparr>num_bins := n, block_bins := replicate n []\<rparr>)"

definition setup_blocknode_map :: "mount_env \<Rightarrow> mount_info \<Rightarrow> wpmfs \<Rightarrow> jstate \<Rightarrow> (wpmfs \<times> jstate) option" where
  "setup_blocknode_map M mi s j =
     (if mi_alloc mi = 0 then map_option (\<lambda>s'. (s', j)) (wpmfs_setup_blocknode_map (me_scan_mem M) s)
      else pmfs_setup_blocknode_map (me_scan_mem M) pmfs_allocator (me_addressing M) (me_journal_base M) s j)"

definition mount_time :: "nat \<Rightarrow> wpmfs \<Rightarrow> wpmfs" where
  "mount_time now s =
     (let t = now mod 2 ^ 32 in PM_EQU 8 s (va_off s (pmfs_get_super s) + 56) (or t (t * 2 ^ 32)))"

text \<open>From \<^verbatim>\<open>setup_sb\<close> on.  A root inode that is no directory is only reported.\<close>

definition setup_sb :: "mount_env \<Rightarrow> bool \<Rightarrow> mount_info \<Rightarrow> wpmfs \<Rightarrow> jstate \<Rightarrow> ((errno + vinode) \<times> mount_info \<times> wpmfs \<times> jstate) option" where
  "setup_sb M formatted mi s j =
     do {
       let A = mount_allocator mi;
       (r, s1) \<leftarrow> pmfs_iget A (me_cache M) s PMFS_ROOT_INO;
       case r of
         Inl e \<Rightarrow> Some (Inl e, mi, s1, j)
       | Inr root_i \<Rightarrow>
           if \<not> me_make_root M then Some (Inl ENOMEM, mi, s1, j)
           else do {
             (s2, j2) \<leftarrow> pmfs_recover_truncate_list A (me_addressing M) (me_cache M) (me_now M) s1 j;
             (s3, j3) \<leftarrow> (if formatted then Some (s2, j2) else setup_blocknode_map M mi s2 j2);
             let s4 = (if me_rdonly M then s3 else mount_time (me_now M) s3);
             Some (Inr root_i, mi, (clear_opt PMFS_MOUNT_MOUNTING s4)\<lparr>fs_ready := True\<rparr>, j3)
           }
     }"

text \<open>
  An existing file system.  The result of the check of the super block leaves \<^verbatim>\<open>retval\<close> at the 0 of
  \<^verbatim>\<open>wpmfs_recv\<close>: the mount then reports success, without a root inode (\<open>Inr None\<close>).
\<close>

definition mount_existing :: "mount_env \<Rightarrow> mount_info \<Rightarrow> wpmfs \<Rightarrow> jstate \<Rightarrow>
    ((errno + vinode option) \<times> mount_info \<times> wpmfs \<times> jstate) option" where
  "mount_existing M mi s j =
     do {
       let E = me_addressing M;
       (r, s1) \<leftarrow> wpmfs_recv (me_vm M) (me_borrowed M) s;
       case r of
         Inl e \<Rightarrow> Some (Inl e, mi, s1, j)
       | Inr _ \<Rightarrow> do {
           j1 \<leftarrow> pmfs_recover_journal E (pmfs_journal_soft_init (j\<lparr>jmem := pm s1\<rparr>));
           let s2 = s1\<lparr>pm := jmem j1\<rparr>;
           let super = va_off s2 (pmfs_get_super s2);
           let (ok, s3) = pmfs_check_integrity (me_crc16 M) (me_now M) s2 super;
           if \<not> ok then Some (Inr None, mi, s3, j1)
           else do {
             (root_pi, s4) \<leftarrow> inode_at (mount_allocator mi) s3 PMFS_ROOT_INO;
             (r, mi', s5, j2) \<leftarrow> setup_sb M False mi s4 j1;
             Some (map_sum id Some r, mi', s5, j2)
           }
         }
     }"

definition pmfs_fill_super :: "mount_env \<Rightarrow> mount_token list \<Rightarrow> mount_info \<Rightarrow> wpmfs \<Rightarrow> jstate \<Rightarrow>
    ((errno + vinode option) \<times> mount_info \<times> wpmfs \<times> jstate) option" where
  "pmfs_fill_super M tokens mi s j =
     (if \<not> kmem_ok s then Some (Inl ENOMEM, mi, s, j)
      else
        let (mi1, s1) = set_default_opts (new_sb_info (mi, s))
        in case pmfs_get_block_info s1 (me_access M) of
             (Inl e, s2) \<Rightarrow> Some (Inl EINVAL, mi1, s2, j)
           | (Inr _, s2) \<Rightarrow>
               let mi2 = mi1\<lparr>mi_mode := 0x1ED, mi_uid := me_fsuid M, mi_gid := me_fsgid M\<rparr>;
                   s3 = set_opt PMFS_MOUNT_HUGEIOREMAP (clear_opt PMFS_MOUNT_PROTECT (set_opt PMFS_MOUNT_XIP (s2\<lparr>block_inuse_head := []\<rparr>)))
               in (case pmfs_parse_options False tokens (mi2, s3) of
                     (Inl e, mi3, s4) \<Rightarrow> Some (Inl EINVAL, mi3, s4, j)
                   | (Inr _, mi3, s4) \<Rightarrow>
                       let s5 = set_opt PMFS_MOUNT_MOUNTING (make_bins mi3 s4)
                       in if s_mount_opt s5 AND PMFS_MOUNT_FORMAT \<noteq> 0 then
                            do {
                              (r, s6, j1) \<leftarrow> pmfs_init (me_vm M) (mount_allocator mi3) (me_addressing M) (me_crc16 M)
                                (me_borrowed M) (me_now M) mi3 s5 j (initsize s5);
                              case r of
                                Inl e \<Rightarrow> Some (Inl EINVAL, mi3, s6, j1)
                              | Inr root_i \<Rightarrow> do {
                                  (r, mi4, s7, j2) \<leftarrow> setup_sb M True mi3 s6 j1;
                                  Some (map_sum id Some r, mi4, s7, j2)
                                }
                            }
                          else mount_existing M mi3 s5 j))"

section \<open>Mounted\<close>

definition pmfs_statfs :: "allocator_factory \<Rightarrow> wpmfs \<Rightarrow> nat \<times> nat \<times> nat \<times> nat" where
  "pmfs_statfs A s = (block_end s, af_count_free_blocks A s, s_inodes_count s, s_free_inodes_count s)"

text \<open>A failed remount takes back \<^verbatim>\<open>s_mount_opt\<close> and nothing else.\<close>

definition pmfs_remount :: "bool \<Rightarrow> nat \<Rightarrow> mount_token list \<Rightarrow> mount_state \<Rightarrow> (errno + unit) \<times> mount_state" where
  "pmfs_remount rdonly_changes now tokens st =
     (case pmfs_parse_options True tokens st of
        (Inl e, mi, s) \<Rightarrow> (Inl EINVAL, mi, s\<lparr>s_mount_opt := s_mount_opt (snd st)\<rparr>)
      | (Inr _, mi, s) \<Rightarrow> (Inr (), mi, if rdonly_changes then mount_time now s else s))"

text \<open>The kernel takes back the two mappings.\<close>

definition pmfs_put_super :: "(nat \<Rightarrow> (nat \<times> bool) option) \<Rightarrow> wpmfs \<Rightarrow> wpmfs" where
  "pmfs_put_super unmapped s =
     (let s1 = fold (\<lambda>i s. pmfs_free_blocknode s) (block_inuse_head s) (s\<lparr>virt_addr := 0, block_inuse_head := []\<rparr>)
      in s1\<lparr>fifo := [], vmap_pt := unmapped\<rparr>)"

definition pmfs_nfs_get_inode :: "allocator_factory \<Rightarrow> (nat \<Rightarrow> vinode option) \<Rightarrow> wpmfs \<Rightarrow> nat \<Rightarrow> nat \<Rightarrow> ((errno + vinode) \<times> wpmfs) option" where
  "pmfs_nfs_get_inode A cache s ino generation =
     (if ino < PMFS_ROOT_INO then Some (Inl ESTALE, s)
      else if ino div 2 ^ 7 > s_inodes_count s then Some (Inl ESTALE, s)
      else map_option (\<lambda>(r, s1). (case r of
             Inl e \<Rightarrow> Inl e
           | Inr inode \<Rightarrow> if generation \<noteq> 0 \<and> i_generation inode \<noteq> generation then Inl ESTALE else Inr inode, s1))
         (pmfs_iget A cache s ino))"

end
