(* ===== verification/SuperCheck.thy ===== *)
theory SuperCheck
  imports MountSuper
begin

text \<open>
  Which super blocks \<^verbatim>\<open>pmfs_check_integrity\<close> accepts: the copy repairs a bad magic number without a look at its
  own checksum, because \<^verbatim>\<open>pmfs_memlock_super\<close> computes a new one over whatever was copied.
\<close>

lemma memcpy_mem: "pm (PM_MEMCPY s dst src n) = mem_write (pm s) dst (mem_read (pm s) src n)"
  by (rule ext) (auto simp: PM_MEMCPY_def mem_copy_def mem_write_def mem_read_def)

lemma sync_checksum: "\<not> pmfs_calc_checksum crc16 (pmfs_sync_super crc16 now s ps) ps PMFS_SB_STATIC_SIZE"
proof -
  define m2 where "m2 = le_store 2 (le_store 4 (pm s) (ps + 60) now) ps 0"
  define crc where "crc = crc16 (2 ^ 16 - 1) (mem_read m2 (ps + 2) 46)"
  define m3 where "m3 = le_store 2 m2 ps crc"
  have p: "pm (pmfs_sync_super crc16 now s ps) = mem_write m3 (ps + 512) (mem_read m3 ps 96)"
    by (simp add: pmfs_sync_super_def Let_def memcpy_mem m2_def crc_def m3_def)
  have o: "pm (pmfs_sync_super crc16 now s ps) x = m3 x" if "x < ps + 512" for x
    using that by (simp add: p mem_write_def)
  have "le_load 2 (pm (pmfs_sync_super crc16 now s ps)) ps = le_load 2 m3 ps" by (rule le_load_cong) (use o in auto)
  also have "\<dots> = crc mod 2 ^ 16" by (simp add: m3_def le_load_store)
  finally have l: "le_load 2 (pm (pmfs_sync_super crc16 now s ps)) ps = crc mod 2 ^ 16" .
  have "mem_read (pm (pmfs_sync_super crc16 now s ps)) (ps + 2) 46 = mem_read m2 (ps + 2) 46"
    unfolding mem_read_def by (rule map_cong [OF refl]) (use o in \<open>auto simp: m3_def le_store_def\<close>)
  then show ?thesis by (simp add: pmfs_calc_checksum_def l crc_def)
qed

theorem integrity_iff:
  "fst (pmfs_check_integrity crc16 now s ps) \<longleftrightarrow>
     (if sb_magic s ps = PMFS_SUPER_MAGIC
      then \<not> pmfs_calc_checksum crc16 s ps PMFS_SB_STATIC_SIZE \<or> \<not> pmfs_calc_checksum crc16 s (ps + PMFS_SB_SIZE) PMFS_SB_STATIC_SIZE
      else sb_magic s (ps + PMFS_SB_SIZE) = PMFS_SUPER_MAGIC)"
  using sync_checksum by (auto simp: pmfs_check_integrity_def Let_def repair_super_def)

theorem integrity_checksum:
  assumes "pmfs_check_integrity crc16 now s ps = (True, s')"
  shows "\<not> pmfs_calc_checksum crc16 s' ps PMFS_SB_STATIC_SIZE"
  using assms sync_checksum by (auto simp: pmfs_check_integrity_def Let_def repair_super_def split: if_splits)

end
