(* ===== verification/FileIO.thy ===== *)
theory FileIO
  imports InodeOps
begin

text \<open>
  Data of files: reading and writing through the block tree (\<^verbatim>\<open>xip.c\<close>), direct I/O (\<^verbatim>\<open>inode.c\<close>), preallocation,
  seeking and synchronisation (\<^verbatim>\<open>file.c\<close>).  The user's buffer of a write is the list of its bytes that can be
  read; it is shorter than the count when the copy faults.  For a read, \<open>room\<close> is how many bytes of the
  buffer can be written.  Locks, flushes and fences are left out.
\<close>

definition MAX_PTRS_PER_LENTRY :: nat where "MAX_PTRS_PER_LENTRY = MAX_DATA_PER_LENTRY div 8"
definition MAX_METABLOCK_LENTRIES :: nat where "MAX_METABLOCK_LENTRIES = 4096 * 3 div MAX_DATA_PER_LENTRY"

section \<open>The block behind a page of a file\<close>

text \<open>
  The task's own transaction, when it has one, goes along with the log.
\<close>

type_synonym io_ctx = "pmfs_transaction option \<times> jstate"

definition pmfs_find_and_alloc_blocks :: "kernel_vm \<Rightarrow> allocator_factory \<Rightarrow> addressing \<Rightarrow> wpmfs \<Rightarrow> io_ctx \<Rightarrow> vinode \<Rightarrow> nat \<Rightarrow> bool \<Rightarrow>
    ((errno + nat) \<times> vinode \<times> wpmfs \<times> io_ctx) option" where
  "pmfs_find_and_alloc_blocks K A E s C inode iblock create =
     do {
       (block, s1) \<leftarrow> pmfs_find_data_block A s (i_ino inode) iblock;
       if block \<noteq> 0 then Some (Inr block, inode, s1, C)
       else if \<not> create then Some (Inl ENODATA, inode, s1, C)
       else do {
         (p, s2) \<leftarrow> pmfs_get_inode A s1 (i_ino inode);
         (r, inode1, s3, C1) \<leftarrow>
           (case C of
              (Some tx, j) \<Rightarrow> do {
                (r, inode1, s3, J) \<leftarrow> pmfs_alloc_blocks K A E s2 (Some (tx, j)) inode iblock 1 True 0;
                (tx', j') \<leftarrow> J;
                Some (r, inode1, s3, (Some tx', j'))
              }
            | (None, j) \<Rightarrow> do {
                (r, j1) \<leftarrow> tx_start E MAX_INODE_LENTRIES s2 j;
                case r of
                  Inl e \<Rightarrow> Some (Inl e, inode, s2, (None, j1))
                | Inr tx \<Rightarrow> do {
                    pi \<leftarrow> p;
                    (r, inode1, s3, J) \<leftarrow>
                      pmfs_alloc_blocks K A E s2 (Some (tx_log E s2 pi MAX_DATA_PER_LENTRY (tx, j1))) inode iblock 1 True 0;
                    J \<leftarrow> J;
                    let (s4, j4) = tx_commit E s3 J;
                    Some (r, inode1, s4, (None, j4))
                  }
              });
         case r of
           Inl e \<Rightarrow> Some (Inl e, inode1, s3, C1)
         | Inr _ \<Rightarrow> do {
             (block, s4) \<leftarrow> pmfs_find_data_block A s3 (i_ino inode1) iblock;
             Some (if block = 0 then Inl ENODATA else Inr block, inode1, s4, C1)
           }
       }
     }"

text \<open>The memory of the page, as a device offset, with the page frame number.\<close>

definition pmfs_get_xip_mem :: "kernel_vm \<Rightarrow> allocator_factory \<Rightarrow> addressing \<Rightarrow> wpmfs \<Rightarrow> io_ctx \<Rightarrow> vinode \<Rightarrow> nat \<Rightarrow> bool \<Rightarrow>
    ((errno + nat \<times> nat) \<times> vinode \<times> wpmfs \<times> io_ctx) option" where
  "pmfs_get_xip_mem K A E s C inode pgoff create =
     do {
       (r, inode1, s1, C1) \<leftarrow> pmfs_find_and_alloc_blocks K A E s C inode pgoff create;
       Some (map_sum id (\<lambda>block. (va_off s1 (pmfs_get_block s1 block), pmfs_get_pfn s1 block)) r, inode1, s1, C1)
     }"

section \<open>Reading\<close>

text \<open>
  The pages of \<^verbatim>\<open>do_xip_mapping_read\<close>, from the byte \<open>offset\<close> of page \<open>index\<close> on: the bytes copied with the
  error of the last page.  A page without memory reads as zeros.
\<close>

record read_result =
  rd_data :: "8 word list"
  rd_error :: "errno option"

definition page_bytes :: "nat \<Rightarrow> nat \<Rightarrow> nat" where
  "page_bytes isize index =
     (let end_index = (isize - 1) div PAGE_SIZE
      in if index < end_index then PAGE_SIZE else if index = end_index then (isize - 1) mod PAGE_SIZE + 1 else 0)"

function read_loop :: "kernel_vm \<Rightarrow> allocator_factory \<Rightarrow> addressing \<Rightarrow> io_ctx \<Rightarrow> vinode \<Rightarrow> nat \<Rightarrow> nat \<Rightarrow> nat \<Rightarrow> nat \<Rightarrow> read_result \<Rightarrow> wpmfs \<Rightarrow>
    (read_result \<times> wpmfs) option" where
  "read_loop K A E C inode len room index offset d s =
     (let nr = page_bytes (i_size inode) index
      in if nr \<le> offset then Some (d, s)
      else
        let nr = min (nr - offset) (len - length (rd_data d))
        in case pmfs_get_xip_mem K A E s C inode index False of
             None \<Rightarrow> None
           | Some (r, inode1, s1, C1) \<Rightarrow>
               let d1 = d\<lparr>rd_error := (case r of Inl e \<Rightarrow> Some e | Inr _ \<Rightarrow> None)\<rparr>
               in if (case r of Inl e \<Rightarrow> e \<noteq> ENODATA | Inr _ \<Rightarrow> False) then Some (d1, s1)
               else if length (rd_data d) + nr > room then Some (d1\<lparr>rd_error := Some EFAULT\<rparr>, s1)
               else
                 let bytes = (case r of Inl _ \<Rightarrow> replicate nr 0 | Inr (mem, pfn) \<Rightarrow> mem_read (pm s1) (mem + offset) nr);
                     d2 = d1\<lparr>rd_data := rd_data d @ bytes\<rparr>
                 in if length (rd_data d) + nr < len \<and> nr \<noteq> 0
                    then read_loop K A E C inode len room (index + (offset + nr) div PAGE_SIZE) ((offset + nr) mod PAGE_SIZE) d2 s1
                    else Some (d2, s1))"
  by pat_completeness auto
termination
  by (relation "measure (\<lambda>(K, A, E, C, inode, len, room, index, offset, d, s). len - length (rd_data d))")
    (auto simp: mem_read_def split: sum.splits)

declare read_loop.simps [simp del]

text \<open>The result with the new position; \<open>access_ok\<close> is the kernel's check of the buffer.\<close>

definition do_xip_mapping_read :: "kernel_vm \<Rightarrow> allocator_factory \<Rightarrow> addressing \<Rightarrow> wpmfs \<Rightarrow> io_ctx \<Rightarrow> vinode \<Rightarrow> nat \<Rightarrow> nat \<Rightarrow> nat \<Rightarrow>
    ((errno + 8 word list) \<times> nat \<times> wpmfs) option" where
  "do_xip_mapping_read K A E s C inode len room pos =
     (if i_size inode = 0 then Some (Inr [], pos, s)
      else do {
        (d, s1) \<leftarrow> read_loop K A E C inode len room (pos div PAGE_SIZE) (pos mod PAGE_SIZE) \<lparr>rd_data = [], rd_error = None\<rparr> s;
        Some (if rd_data d \<noteq> [] then Inr (rd_data d) else case rd_error d of None \<Rightarrow> Inr [] | Some e \<Rightarrow> Inl e,
          pos + length (rd_data d), s1)
      })"

definition pmfs_xip_file_read :: "kernel_vm \<Rightarrow> allocator_factory \<Rightarrow> addressing \<Rightarrow> bool \<Rightarrow> wpmfs \<Rightarrow> io_ctx \<Rightarrow> vinode \<Rightarrow> nat \<Rightarrow> nat \<Rightarrow> nat \<Rightarrow>
    ((errno + 8 word list) \<times> nat \<times> wpmfs) option" where
  "pmfs_xip_file_read K A E access_ok s C inode len room pos =
     (if \<not> access_ok then Some (Inl EFAULT, pos, s) else do_xip_mapping_read K A E s C inode len room pos)"

section \<open>Writing\<close>

text \<open>
  The copy into the page: how many bytes, and the state.  With \<^verbatim>\<open>clwb\<close> the write is not charged; without it
  the whole of \<open>bytes\<close> is.
\<close>

definition memcpy_to_nvmm :: "bool \<Rightarrow> wpmfs \<Rightarrow> nat \<Rightarrow> 8 word list \<Rightarrow> nat \<Rightarrow> nat \<times> wpmfs" where
  "memcpy_to_nvmm clwb s dst buf bytes =
     (let bs = take bytes buf;
          s1 = s\<lparr>pm := mem_write (pm s) dst bs\<rparr>
      in (length bs, if clwb then s1 else pm_touch s1 dst bytes))"

record write_result =
  wr_written :: nat
  wr_pos :: nat
  wr_status :: "errno option"

function write_loop :: "kernel_vm \<Rightarrow> allocator_factory \<Rightarrow> addressing \<Rightarrow> bool \<Rightarrow> 8 word list \<Rightarrow> nat \<Rightarrow> write_result \<Rightarrow> vinode \<Rightarrow> wpmfs \<Rightarrow> io_ctx \<Rightarrow>
    (write_result \<times> vinode \<times> wpmfs \<times> io_ctx) option" where
  "write_loop K A E clwb buf cnt w inode s C =
     (case pmfs_get_xip_mem K A E s C inode (wr_pos w div 2 ^ 12) True of
        None \<Rightarrow> None
      | Some (Inl e, inode1, s1, C1) \<Rightarrow> Some (w\<lparr>wr_status := Some e\<rparr>, inode1, s1, C1)
      | Some (Inr (mem, pfn), inode1, s1, C1) \<Rightarrow>
          let offset = wr_pos w mod 2 ^ 12;
              bytes = min (2 ^ 12 - offset) cnt;
              (copied, s2) = memcpy_to_nvmm clwb s1 (mem + offset) buf bytes;
              w1 = w\<lparr>wr_written := wr_written w + copied, wr_pos := wr_pos w + copied, wr_status := None\<rparr>
          in if copied \<noteq> bytes then Some (w1\<lparr>wr_status := Some EFAULT\<rparr>, inode1, s2, C1)
          else if cnt - copied = 0 then Some (w1, inode1, s2, C1)
          else write_loop K A E clwb (drop copied buf) (cnt - copied) w1 inode1 s2 C1)"
  by pat_completeness auto
termination
proof (relation "measure (\<lambda>(K, A, E, clwb, buf, cnt, w, inode, s, C). cnt)", goal_cases)
  case (2 K A E clwb buf cnt w inode s C)
  have "0 < min (2 ^ 12 - wr_pos w mod 2 ^ 12) cnt" if "0 < cnt" using that by simp
  with 2 show ?case by (auto simp del: min_less_iff_conj)
qed simp

declare write_loop.simps [simp del]

definition xip_write :: "kernel_vm \<Rightarrow> allocator_factory \<Rightarrow> addressing \<Rightarrow> bool \<Rightarrow> 8 word list \<Rightarrow> nat \<Rightarrow> nat \<Rightarrow> vinode \<Rightarrow> wpmfs \<Rightarrow> io_ctx \<Rightarrow>
    ((errno + nat) \<times> nat \<times> vinode \<times> wpmfs \<times> io_ctx) option" where
  "xip_write K A E clwb buf cnt pos inode s C =
     do {
       (p, s1) \<leftarrow> pmfs_get_inode A s (i_ino inode);
       (w, inode1, s2, C1) \<leftarrow> write_loop K A E clwb buf cnt \<lparr>wr_written = 0, wr_pos = pos, wr_status = None\<rparr> inode s1 C;
       (inode2, s3) \<leftarrow>
         (if wr_pos w > i_size inode1 then do {
            pi \<leftarrow> p;
            let inode2 = inode1\<lparr>i_size := wr_pos w\<rparr>;
            Some (inode2, pmfs_update_isize s2 pi inode2)
          }
          else Some (inode1, s2));
       Some (if wr_written w \<noteq> 0 then Inr (wr_written w) else case wr_status w of None \<Rightarrow> Inr 0 | Some e \<Rightarrow> Inl e,
         wr_pos w, inode2, s3, C1)
     }"

text \<open>
  The path for a range inside one existing block.  The size and the times go to the device with one
  compare-and-exchange of 16 bytes, which is not charged; the times alone with one tracked store.
\<close>

definition pmfs_update_time_and_size :: "wpmfs \<Rightarrow> nat \<Rightarrow> vinode \<Rightarrow> wpmfs" where
  "pmfs_update_time_and_size s pi inode =
     plain_store 4 (plain_store 4 (plain_store 8 s (pi + 16) (i_size inode)) (pi + 24) (i_ctime inode)) (pi + 28) (i_mtime inode)"

definition pmfs_file_write_fast :: "bool \<Rightarrow> wpmfs \<Rightarrow> vinode \<Rightarrow> nat \<Rightarrow> 8 word list \<Rightarrow> nat \<Rightarrow> nat \<Rightarrow> nat \<Rightarrow> nat \<Rightarrow>
    (errno + nat) \<times> nat \<times> vinode \<times> wpmfs" where
  "pmfs_file_write_fast clwb s inode pi buf cnt pos block now =
     (let xmem = va_off s (pmfs_get_block s block);
          (copied, s1) = memcpy_to_nvmm clwb s (xmem + pos mod 2 ^ 12) buf cnt;
          pos = pos + copied;
          inode1 = inode\<lparr>i_ctime := now, i_mtime := now\<rparr>;
          ret = (if copied \<noteq> cnt \<and> copied = 0 then Inl EFAULT else Inr copied)
      in if pos > i_size inode1 then
           let inode2 = inode1\<lparr>i_size := pos\<rparr> in (ret, pos, inode2, pmfs_update_time_and_size s1 pi inode2)
         else
           let c_m_time = now mod 2 ^ 32;
               c_m_time = or c_m_time (c_m_time * 2 ^ 32)
           in (ret, pos, inode1, PM_EQU 8 s1 (pi + 24) c_m_time))"

text \<open>Zeroing the part of a new block at an end of the range that is not written.\<close>

definition pmfs_clear_edge_blk :: "allocator_factory \<Rightarrow> wpmfs \<Rightarrow> nat \<Rightarrow> bool \<Rightarrow> nat \<Rightarrow> nat \<Rightarrow> bool \<Rightarrow> wpmfs option" where
  "pmfs_clear_edge_blk A s pi new_blk block blk_off is_end_blk =
     (if \<not> new_blk then Some s
      else do {
        let blknr = block div 2 ^ (pmfs_inode_blk_shift s pi - 12);
        (bp, s1) \<leftarrow> find_data_block_at A s pi blknr;
        let ptr = pmfs_get_block s1 bp;
        if ptr = 0 then Some s1
        else if is_end_blk
        then Some (PM_MEMSET s1 (va_off s1 ptr + blk_off - blk_off mod 8) 0 (pmfs_inode_blk_size s1 pi - blk_off + blk_off mod 8))
        else Some (PM_MEMSET s1 (va_off s1 ptr) 0 (blk_off + (8 - blk_off mod 8)))
      })"

text \<open>
  \<open>remove_privs\<close> is the kernel's \<^verbatim>\<open>file_remove_privs\<close>.  The result of \<^verbatim>\<open>pmfs_alloc_blocks\<close> is not looked at:
  the copy asks for the blocks again.
\<close>

definition write_slow :: "kernel_vm \<Rightarrow> allocator_factory \<Rightarrow> addressing \<Rightarrow> bool \<Rightarrow> errno option \<Rightarrow> nat \<Rightarrow> 8 word list \<Rightarrow> nat \<Rightarrow> nat \<Rightarrow> nat \<Rightarrow>
    vinode \<Rightarrow> wpmfs \<Rightarrow> jstate \<Rightarrow> ((errno + nat) \<times> nat \<times> vinode \<times> wpmfs \<times> jstate) option" where
  "write_slow K A E clwb remove_privs now buf cnt pos pi inode s j =
     (let num_blocks = (cnt + pos mod 2 ^ 12 - 1) div 2 ^ 12 + 1;
          offset = pos mod pmfs_inode_blk_size s pi;
          start_blk = pos div 2 ^ 12;
          end_blk = start_blk + num_blocks - 1;
          max_logentries = min (num_blocks div MAX_PTRS_PER_LENTRY + 2) MAX_METABLOCK_LENTRIES
      in do {
        (r, j1) \<leftarrow> tx_start E (MAX_INODE_LENTRIES + max_logentries) s j;
        case r of
          Inl e \<Rightarrow> Some (Inl e, pos, inode, s, j1)
        | Inr tx \<Rightarrow> do {
            let J = tx_log E s pi MAX_DATA_PER_LENTRY (tx, j1);
            case remove_privs of
              Some e \<Rightarrow> (let (s1, j2) = tx_abort E s J in Some (Inl e, pos, inode, s1, j2))
            | None \<Rightarrow> do {
                let inode1 = inode\<lparr>i_ctime := now, i_mtime := now\<rparr>;
                let s1 = pmfs_update_time s pi inode1;
                (sb, s2) \<leftarrow> (if offset \<noteq> 0 then pmfs_find_data_block A s1 (i_ino inode1) start_blk else Some (1, s1));
                let eblk_offset = (pos + cnt) mod pmfs_inode_blk_size s2 pi;
                (eb, s3) \<leftarrow> (if eblk_offset \<noteq> 0 then pmfs_find_data_block A s2 (i_ino inode1) end_blk else Some (1, s2));
                (r, inode2, s4, J4) \<leftarrow> pmfs_alloc_blocks K A E s3 (Some J) inode1 start_blk num_blocks False 0;
                (tx4, j4) \<leftarrow> J4;
                s5 \<leftarrow> pmfs_clear_edge_blk A s4 pi (sb = 0) start_blk offset False;
                s6 \<leftarrow> pmfs_clear_edge_blk A s5 pi (eb = 0) end_blk eblk_offset True;
                (ret, pos', inode3, s7, C) \<leftarrow> xip_write K A E clwb buf cnt pos inode2 s6 (Some tx4, j4);
                tx7 \<leftarrow> fst C;
                let (s8, j8) = tx_commit E s7 (tx7, snd C);
                Some (ret, pos', inode3, s8, j8)
              }
          }
      })"

definition pmfs_xip_file_write :: "kernel_vm \<Rightarrow> allocator_factory \<Rightarrow> addressing \<Rightarrow> bool \<Rightarrow> bool \<Rightarrow> errno option \<Rightarrow> nat \<Rightarrow> 8 word list \<Rightarrow>
    nat \<Rightarrow> nat \<Rightarrow> vinode \<Rightarrow> wpmfs \<Rightarrow> jstate \<Rightarrow> ((errno + nat) \<times> nat \<times> vinode \<times> wpmfs \<times> jstate) option" where
  "pmfs_xip_file_write K A E clwb access_ok remove_privs now buf len pos inode s j =
     (if \<not> access_ok then Some (Inl EFAULT, pos, inode, s, j)
      else if len = 0 then Some (Inr 0, pos, inode, s, j)
      else do {
        (p, s1) \<leftarrow> pmfs_get_inode A s (i_ino inode);
        pi \<leftarrow> p;
        let offset = pos mod pmfs_inode_blk_size s1 pi;
        (block, s2) \<leftarrow> pmfs_find_data_block A s1 (i_ino inode) (pos div 2 ^ 12);
        if block \<noteq> 0 \<and> (len + offset - 1) div 2 ^ pmfs_inode_blk_shift s2 pi = 0 then
          (let (ret, pos', inode1, s3) = pmfs_file_write_fast clwb s2 inode pi buf len pos block now
           in Some (ret, pos', inode1, s3, j))
        else write_slow K A E clwb remove_privs now buf len pos pi inode s2 j
      })"

end
