(* ===== verification/FileOps.thy ===== *)
theory FileOps
  imports FileIO
begin

text \<open>
  Preallocation, seeking and synchronisation (\<^verbatim>\<open>file.c\<close>) and direct I/O (\<^verbatim>\<open>inode.c\<close>).  Offsets are 64-bit:
  one of \<open>2 ^ 63\<close> or more is negative.
\<close>

section \<open>Preallocation\<close>

abbreviation FALLOC_FL_KEEP_SIZE :: nat where "FALLOC_FL_KEEP_SIZE \<equiv> 1"

text \<open>\<open>newsize_ok\<close> is the kernel's check of the new size.\<close>

definition pmfs_fallocate :: "kernel_vm \<Rightarrow> allocator_factory \<Rightarrow> addressing \<Rightarrow> errno option \<Rightarrow> nat \<Rightarrow> nat \<Rightarrow> nat \<Rightarrow> nat \<Rightarrow> vinode \<Rightarrow> wpmfs \<Rightarrow> jstate \<Rightarrow>
    ((errno + unit) \<times> vinode \<times> wpmfs \<times> jstate) option" where
  "pmfs_fallocate K A E newsize_ok now mode offset len inode s j =
     (let new_size = len + offset;
          keep = (and mode FALLOC_FL_KEEP_SIZE \<noteq> 0)
      in if clear_bits mode FALLOC_FL_KEEP_SIZE \<noteq> 0 then Some (Inl EOPNOTSUPP, inode, s, j)
      else if S_ISDIR (i_mode inode) then Some (Inl ENODEV, inode, s, j)
      else case (if \<not> keep \<and> new_size > i_size inode then newsize_ok else None) of
        Some e \<Rightarrow> Some (Inl e, inode, s, j)
      | None \<Rightarrow> do {
          (p, s1) \<leftarrow> pmfs_get_inode A s (i_ino inode);
          case p of
            None \<Rightarrow> Some (Inl EACCES, inode, s1, j)
          | Some pi \<Rightarrow> do {
              (r, j1) \<leftarrow> tx_start E (MAX_INODE_LENTRIES + MAX_METABLOCK_LENTRIES) s1 j;
              case r of
                Inl e \<Rightarrow> Some (Inl e, inode, s1, j1)
              | Inr tx \<Rightarrow> do {
                  let J = tx_log E s1 pi MAX_DATA_PER_LENTRY (tx, j1);
                  let s2 = pmfs_set_blocksize_hint s1 pi;
                  let num_blocks = (offset mod 4096 + len + 4095) div 2 ^ 12 mod 2 ^ 32;
                  (r, inode1, s3, J3) \<leftarrow> pmfs_alloc_blocks K A E s2 (Some J) inode (offset div 2 ^ 12) num_blocks True 0;
                  J3 \<leftarrow> J3;
                  let inode2 = inode1\<lparr>i_mtime := now, i_ctime := now\<rparr>;
                  let s4 = (if r \<noteq> Inr () \<or> keep then PM_OR_EQU 4 s3 (pi + 4) PMFS_EOFBLOCKS_FL else s3);
                  let inode3 = (if \<not> keep \<and> new_size > i_size inode2 then inode2\<lparr>i_size := new_size\<rparr> else inode2);
                  let s5 = (if \<not> keep \<and> new_size > i_size inode2 then PM_EQU 8 s4 (pi + 16) new_size else s4);
                  let s6 = PM_EQU 4 (PM_EQU 4 s5 (pi + 28) now) (pi + 24) now;
                  let (s7, j7) = tx_commit E s6 J3;
                  Some (r, inode3, s7, j7)
                }
            }
        })"

section \<open>Seeking\<close>

text \<open>
  The search for data (\<open>hole\<close> false) or for a hole; the kernel does the other origins.  What
  \<^verbatim>\<open>pmfs_find_region\<close> returns is kept in an \<^verbatim>\<open>int\<close>; as an offset it is extended by its sign.
\<close>

definition int_offset :: "nat \<Rightarrow> nat" where
  "int_offset v = (let v = v mod 2 ^ 32 in if v < 2 ^ 31 then v else v + (2 ^ 64 - 2 ^ 32))"

definition pmfs_llseek :: "allocator_factory \<Rightarrow> wpmfs \<Rightarrow> vinode \<Rightarrow> bool \<Rightarrow> nat \<Rightarrow> nat \<Rightarrow> nat \<Rightarrow> bool \<Rightarrow>
    ((errno + nat) \<times> nat \<times> wpmfs) option" where
  "pmfs_llseek A s inode unsigned_offset maxbytes f_pos offset hole =
     do {
       ((r, offset'), s1) \<leftarrow> pmfs_find_region A s inode offset hole;
       Some (case r of
           Inl e \<Rightarrow> (Inl e, f_pos, s1)
         | Inr retval \<Rightarrow>
             if int_offset retval \<noteq> 0 then (Inr (int_offset retval), f_pos, s1)
             else if (offset' \<ge> 2 ^ 63 \<and> \<not> unsigned_offset) \<or> (offset' < 2 ^ 63 \<and> offset' > maxbytes) then (Inl EINVAL, f_pos, s1)
             else (Inr offset', offset', s1))
     }"

section \<open>Synchronisation\<close>

text \<open>The ranges of the device that are flushed, in order.  The loop ends at the first hole.\<close>

function fsync_loop :: "allocator_factory \<Rightarrow> nat \<Rightarrow> nat \<Rightarrow> nat \<Rightarrow> (nat \<times> nat) list \<Rightarrow> wpmfs \<Rightarrow> ((nat \<times> nat) list \<times> wpmfs) option" where
  "fsync_loop A ino start end' flushed s =
     (let offset = start mod 4096;
          nr_flush_bytes = min (PAGE_SIZE - offset) (end' - start)
      in case pmfs_find_data_block A s ino (start div 2 ^ PAGE_SHIFT) of
           None \<Rightarrow> None
         | Some (block, s1) \<Rightarrow>
             if block = 0 then Some (flushed, s1)
             else
               let flushed' = flushed @ [(va_off s1 (pmfs_get_block s1 block) + offset, nr_flush_bytes)]
               in if start + nr_flush_bytes < end' then fsync_loop A ino (start + nr_flush_bytes) end' flushed' s1
                  else Some (flushed', s1))"
  by pat_completeness auto
termination
proof (relation "measure (\<lambda>(A, ino, start, end', flushed, s). end' - start)", goal_cases)
  case (2 A ino start end' flushed s)
  have less: "e - (a + n) < e - a" if "a + n < e" "0 < n" for a n e :: nat using that by linarith
  have "0 < min (PAGE_SIZE - start mod 4096) (end' - start)" if "start < end'" using that by simp
  with 2 show ?case by (auto simp del: min_less_iff_conj intro!: less)
qed simp

declare fsync_loop.simps [simp del]

text \<open>\<open>mapped\<close>: some process has the file mapped.\<close>

definition pmfs_fsync :: "allocator_factory \<Rightarrow> wpmfs \<Rightarrow> bool \<Rightarrow> vinode \<Rightarrow> nat \<Rightarrow> nat \<Rightarrow> ((errno + (nat \<times> nat) list) \<times> wpmfs) option" where
  "pmfs_fsync A s mapped inode start end_incl =
     (if \<not> mapped then Some (Inr [], s)
      else
        let end' = min (end_incl + 1) (i_size inode)
        in if i_size inode = 0 \<or> start \<ge> end' then Some (Inl ENODATA, s)
        else do {
          (flushed, s1) \<leftarrow> fsync_loop A (i_ino inode) (start div 64 * 64) ((end' + 63) div 64 * 64) [] s;
          Some (Inr flushed, s1)
        })"

section \<open>Direct I/O\<close>

text \<open>A segment of a read is its length and the writable bytes of it; of a write, its bytes and its length.\<close>

primrec direct_read :: "kernel_vm \<Rightarrow> allocator_factory \<Rightarrow> addressing \<Rightarrow> io_ctx \<Rightarrow> vinode \<Rightarrow> (nat \<times> nat) list \<Rightarrow> 8 word list \<Rightarrow> nat \<Rightarrow> wpmfs \<Rightarrow>
    ((errno + 8 word list) \<times> nat \<times> wpmfs) option" where
  "direct_read K A E C inode [] got pos s = Some (Inr got, pos, s)"
| "direct_read K A E C inode (seg # segs) got pos s =
     do {
       (r, pos1, s1) \<leftarrow> pmfs_xip_file_read K A E True s C inode (fst seg) (snd seg) pos;
       case r of Inl e \<Rightarrow> Some (Inl e, pos1, s1) | Inr bs \<Rightarrow> direct_read K A E C inode segs (got @ bs) pos1 s1
     }"

primrec direct_write :: "kernel_vm \<Rightarrow> allocator_factory \<Rightarrow> addressing \<Rightarrow> bool \<Rightarrow> errno option \<Rightarrow> nat \<Rightarrow> (8 word list \<times> nat) list \<Rightarrow> nat \<Rightarrow> nat \<Rightarrow>
    vinode \<Rightarrow> wpmfs \<Rightarrow> jstate \<Rightarrow> ((errno + nat) \<times> nat \<times> vinode \<times> wpmfs \<times> jstate) option" where
  "direct_write K A E clwb remove_privs now [] written pos inode s j = Some (Inr written, pos, inode, s, j)"
| "direct_write K A E clwb remove_privs now (seg # segs) written pos inode s j =
     do {
       (r, pos1, inode1, s1, j1) \<leftarrow> pmfs_xip_file_write K A E clwb True remove_privs now (fst seg) (snd seg) pos inode s j;
       case r of
         Inl e \<Rightarrow> Some (Inl e, pos1, inode1, s1, j1)
       | Inr n \<Rightarrow> direct_write K A E clwb remove_privs now segs (written + n) pos1 inode1 s1 j1
     }"

definition pmfs_direct_write :: "kernel_vm \<Rightarrow> allocator_factory \<Rightarrow> addressing \<Rightarrow> bool \<Rightarrow> errno option \<Rightarrow> nat \<Rightarrow> (8 word list \<times> nat) list \<Rightarrow> nat \<Rightarrow>
    vinode \<Rightarrow> wpmfs \<Rightarrow> jstate \<Rightarrow> ((errno + nat) \<times> nat \<times> vinode \<times> wpmfs \<times> jstate) option" where
  "pmfs_direct_write K A E clwb remove_privs now segs pos inode s j =
     (if pos + sum_list (map snd segs) > i_size inode then Some (Inl EINVAL, pos, inode, s, j)
      else direct_write K A E clwb remove_privs now segs 0 pos inode s j)"

end
