(* ===== verification/WearLevel.thy ===== *)
theory WearLevel
  imports WearVmap BlockTree
begin

text \<open>
  The wear-levelling worker (\<^verbatim>\<open>wpmfs_wl.c\<close>) and the migration of a page that processes have mapped
  (\<^verbatim>\<open>_level_type_rmap\<close>; \<^verbatim>\<open>wpmfs_replace_single_datablk\<close> of \<^verbatim>\<open>inode.c\<close>).  What the kernel answers is a
  parameter: \<open>igrab\<close>, whether the inode can be pinned, and \<open>entry_free\<close>, whether the file's cache has an
  unlocked entry for the page.  The radix tree and the processes' page tables are the kernel's.
\<close>

section \<open>Pages mapped by processes\<close>

text \<open>
  The new page takes over the place in the file: the content is copied and the slot of the tree that points
  at the old block is changed.  Without such a slot an error is logged and nothing changes.
\<close>

definition wpmfs_replace_single_datablk :: "allocator_factory \<Rightarrow> wpmfs \<Rightarrow> nat \<Rightarrow> nat \<Rightarrow> nat \<Rightarrow> wpmfs option" where
  "wpmfs_replace_single_datablk A s ino pgoff blocknr =
     do {
       (p, s1) \<leftarrow> pmfs_get_inode A s ino;
       pi \<leftarrow> p;
       pdatablk \<leftarrow> wpmfs_find_pdatablk s1 pi pgoff;
       case pdatablk of
         None \<Rightarrow> Some s1
       | Some slot \<Rightarrow> do {
           src \<leftarrow> wpmfs_get_block s1 (of_nat (le_load 8 (pm s1) slot));
           let tmp_blockoff = blocknr * 2 ^ PAGE_SHIFT;
           dst \<leftarrow> wpmfs_get_block s1 (of_nat tmp_blockoff);
           Some (PM_EQU 8 (memcpy_page s1 (va_off s1 dst) (va_off s1 src) True) slot tmp_blockoff)
         }
     }"

definition pass_mapping :: "nat \<Rightarrow> nat \<Rightarrow> wpmfs \<Rightarrow> wpmfs" where
  "pass_mapping page new_page s =
     s\<lparr>page_index := (page_index s)(new_page := page_index s page, page := 0),
       page_mapping := (page_mapping s)(new_page := page_mapping s page, page := None)\<rparr>"

text \<open>\<open>False\<close> is \<^verbatim>\<open>-EAGAIN\<close>: the cache entry is locked or gone.\<close>

definition level_type_rmap_core :: "allocator_factory \<Rightarrow> (nat \<Rightarrow> nat \<Rightarrow> bool) \<Rightarrow> nat \<Rightarrow> nat \<Rightarrow> nat \<Rightarrow> nat \<Rightarrow> wpmfs \<Rightarrow> (bool \<times> wpmfs) option" where
  "level_type_rmap_core A entry_free ino page new_page blocknr s =
     (let pgoff = page_index s page
      in if \<not> entry_free ino pgoff then Some (False, s)
      else map_option (Pair True) (wpmfs_replace_single_datablk A (pass_mapping page new_page s) ino pgoff blocknr))"

definition level_type_rmap :: "allocator_factory \<Rightarrow> (nat \<Rightarrow> bool) \<Rightarrow> (nat \<Rightarrow> nat \<Rightarrow> bool) \<Rightarrow> wpmfs \<Rightarrow> nat \<Rightarrow> wpmfs option" where
  "level_type_rmap A igrab entry_free s pfn =
     (let pfn0 = phys_addr s div 2 ^ PAGE_SHIFT;
          page = pfn - pfn0
      in case page_mapping s page of
           None \<Rightarrow> Some s
         | Some ino \<Rightarrow>
             if \<not> igrab ino then Some s
             else (case af_new_block A s 0 False of
                 None \<Rightarrow> None
               | Some (Inl e, s1) \<Rightarrow> if e = ENOMEM then Some s1 else None
               | Some (Inr blocknr, s1) \<Rightarrow>
                   let new_page = pmfs_get_pfn s1 (blocknr * 2 ^ PAGE_SHIFT) - pfn0
                   in (case level_type_rmap_core A entry_free ino page new_page blocknr s1 of
                         None \<Rightarrow> None
                       | Some (done, s2) \<Rightarrow>
                           if done then af_free_block A s2 (wpmfs_get_blocknr s2 pfn) 0 else af_free_block A s2 blocknr 0)))"

section \<open>The worker\<close>

datatype page_type = TYPE_RMAP | TYPE_VMAP | TYPE_STRANDED

definition page_type :: "wpmfs \<Rightarrow> nat \<Rightarrow> page_type" where
  "page_type s page =
     (if page_mapping s page \<noteq> None then TYPE_RMAP else if check_vmap s page then TYPE_VMAP else TYPE_STRANDED)"

definition level_vmap_on :: "allocator_factory \<Rightarrow> wpmfs \<Rightarrow> nat \<Rightarrow> wpmfs option" where
  "level_vmap_on A s pfn = (if wl_switch s AND 0x2 \<noteq> 0 then level_type_vmap A s pfn else Some s)"

text \<open>With the first switch off, a mapped page is handled as a page of a window.\<close>

definition wear_leveling :: "allocator_factory \<Rightarrow> (nat \<Rightarrow> bool) \<Rightarrow> (nat \<Rightarrow> nat \<Rightarrow> bool) \<Rightarrow> wpmfs \<Rightarrow> nat \<Rightarrow> wpmfs option" where
  "wear_leveling A igrab entry_free s pfn =
     (let page = pfn - phys_addr s div 2 ^ PAGE_SHIFT
      in case page_type s page of
           TYPE_RMAP \<Rightarrow> if wl_switch s AND 0x1 \<noteq> 0 then level_type_rmap A igrab entry_free s pfn else level_vmap_on A s pfn
         | TYPE_VMAP \<Rightarrow> level_vmap_on A s pfn
         | TYPE_STRANDED \<Rightarrow> Some (if wl_switch s AND 0x4 \<noteq> 0 then level_type_stranded s page else s))"

text \<open>
  The bottom half empties the queue; what it writes can queue further pages.  A worker that never
  finishes is \<open>None\<close>.  Without a mounted file system there is nothing to work on.
\<close>

partial_function (option) int_loop :: "allocator_factory \<Rightarrow> (nat \<Rightarrow> bool) \<Rightarrow> (nat \<Rightarrow> nat \<Rightarrow> bool) \<Rightarrow> wpmfs \<Rightarrow> wpmfs option" where
  "int_loop A igrab entry_free s =
     (case fifo s of
        [] \<Rightarrow> Some s
      | pfn # rest \<Rightarrow>
          (let s1 = s\<lparr>fifo := rest\<rparr>
           in if wpmfs_page_marks s1 (pfn - phys_addr s1 div 2 ^ PAGE_SHIFT) AND WPMFS_PAGE_USING \<noteq> 0
              then (case wear_leveling A igrab entry_free s1 pfn of None \<Rightarrow> None | Some s2 \<Rightarrow> int_loop A igrab entry_free s2)
              else int_loop A igrab entry_free s1))"

definition int_bottom :: "allocator_factory \<Rightarrow> (nat \<Rightarrow> bool) \<Rightarrow> (nat \<Rightarrow> nat \<Rightarrow> bool) \<Rightarrow> wpmfs \<Rightarrow> wpmfs option" where
  "int_bottom A igrab entry_free s = (if fs_ready s then int_loop A igrab entry_free (s\<lparr>work_queued := False\<rparr>) else Some s)"

text \<open>
  \<^verbatim>\<open>wpmfs_get_capacity\<close>, and \<^verbatim>\<open>wpmfs_get_fs_wear\<close> with its static \<open>capacity\<close>: the first answer is kept.
\<close>

definition wpmfs_get_capacity :: "wpmfs \<Rightarrow> nat" where
  "wpmfs_get_capacity s = (if fs_ready s then initsize s else 0)"

definition wpmfs_get_fs_wear :: "nat \<Rightarrow> wpmfs \<Rightarrow> nat \<Rightarrow> 64 word option \<times> nat" where
  "wpmfs_get_fs_wear capacity s blocknr =
     (let capacity = (if capacity = 0 then wpmfs_get_capacity s else capacity)
      in (if blocknr \<ge> capacity div 2 ^ PAGE_SHIFT then None else Some (wt_cnter_read_blocknr s blocknr), capacity))"

definition fs_now_ready :: "wpmfs \<Rightarrow> wpmfs" where "fs_now_ready s = s\<lparr>fs_ready := True\<rparr>"
definition fs_now_removed :: "wpmfs \<Rightarrow> wpmfs" where "fs_now_removed s = s\<lparr>fs_ready := False\<rparr>"
definition wpmfs_set_wl_switch :: "wpmfs \<Rightarrow> nat \<Rightarrow> wpmfs" where "wpmfs_set_wl_switch s wlsw = s\<lparr>wl_switch := of_nat wlsw\<rparr>"

section \<open>A mapped file of one block\<close>

text \<open>The tree of a file of one block has no slot: the migration changes nothing and frees the block.\<close>

lemma pass_mapping_sel [simp]:
  "pm (pass_mapping p q s) = pm s" "vmapi (pass_mapping p q s) = vmapi s" "vmap_pt (pass_mapping p q s) = vmap_pt s"
  "virt_addr (pass_mapping p q s) = virt_addr s" "phys_addr (pass_mapping p q s) = phys_addr s"
  "page_private (pass_mapping p q s) = page_private s"
  by (simp_all add: pass_mapping_def)

lemma rmap_no_slot:
  assumes "pmfs_get_inode A s ino = Some (Some pi, s)" "pi_height s pi = 0"
  shows "wpmfs_replace_single_datablk A s ino pgoff blocknr = Some s"
  using assms by (simp add: wpmfs_replace_single_datablk_def wpmfs_find_pdatablk_def)

lemma rmap_one_block:
  assumes "page_mapping s c = Some ino" "igrab ino" "\<And>k. entry_free ino k" "4096 dvd phys_addr s"
    and "af_new_block A s 0 False = Some (Inr b, s1)" "phys_addr s1 = phys_addr s"
    and "pmfs_get_inode A (pass_mapping c b s1) ino = Some (Some pi, pass_mapping c b s1)" "pi_height s1 pi = 0"
  shows "level_type_rmap A igrab entry_free s (phys_addr s div 4096 + c) = af_free_block A (pass_mapping c b s1) c 0"
proof -
  have "pi_height (pass_mapping c b s1) pi = 0" using assms(8) by (simp add: pi_height_def)
  note R = rmap_no_slot [OF assms(7) this]
  have "wpmfs_get_blocknr (pass_mapping c b s1) (phys_addr s div 4096 + c) = c"
    using get_blocknr_pfn [of "pass_mapping c b s1" c] assms(4,6) by simp
  then show ?thesis using assms(1-6) R get_pfn_block [of s1 b]
    by (simp add: level_type_rmap_def level_type_rmap_core_def)
qed

end
