(* ===== verification/Requests.thy ===== *)
theory Requests
  imports FileOps WearLevel
begin

text \<open>
  Requests that reach the file system beside reads and writes: \<^verbatim>\<open>ioctl.c\<close>, the file under \<^verbatim>\<open>/proc\<close>
  (\<^verbatim>\<open>wpmfs_proc.c\<close>) and the mapping of a file's page for a fault (\<^verbatim>\<open>xip.c\<close>).  What the kernel answers
  (write access, ownership, copies from and to the user) are parameters.
\<close>

section \<open>ioctl\<close>

abbreviation FS_FL_USER_VISIBLE :: nat where "FS_FL_USER_VISIBLE \<equiv> 0x0003DFFF"
abbreviation FS_FL_USER_MODIFIABLE :: nat where "FS_FL_USER_MODIFIABLE \<equiv> 0x000380FF"
abbreviation FS_IOC_GETFLAGS :: nat where "FS_IOC_GETFLAGS \<equiv> 0x80086601"
abbreviation FS_IOC_SETFLAGS :: nat where "FS_IOC_SETFLAGS \<equiv> 0x40086602"
abbreviation FS_IOC_GETVERSION :: nat where "FS_IOC_GETVERSION \<equiv> 0x80087601"
abbreviation FS_IOC_SETVERSION :: nat where "FS_IOC_SETVERSION \<equiv> 0x40087602"
abbreviation FS_IOC32_GETFLAGS :: nat where "FS_IOC32_GETFLAGS \<equiv> 0x80046601"
abbreviation FS_IOC32_SETFLAGS :: nat where "FS_IOC32_SETFLAGS \<equiv> 0x40046602"
abbreviation FS_IOC32_GETVERSION :: nat where "FS_IOC32_GETVERSION \<equiv> 0x80047601"
abbreviation FS_IOC32_SETVERSION :: nat where "FS_IOC32_SETVERSION \<equiv> 0x40047602"
abbreviation FS_PMFS_FSYNC :: nat where "FS_PMFS_FSYNC \<equiv> 0xBCD0000E"
abbreviation PMFS_PRINT_TIMING :: nat where "PMFS_PRINT_TIMING \<equiv> 0xBCD00010"
abbreviation PMFS_CLEAR_STATS :: nat where "PMFS_CLEAR_STATS \<equiv> 0xBCD00011"

text \<open>
  The kernel's answers: whether the user's word can be written, the result of \<^verbatim>\<open>mnt_want_write_file\<close>, whether
  the caller owns the inode and may change immutable files, the word read from the user, the range for
  the synchronisation, and whether the file is mapped.
\<close>

record ioctl_env =
  ie_put_ok :: bool
  ie_want_write :: "errno option"
  ie_owner :: bool
  ie_immutable :: bool
  ie_word :: "nat option"
  ie_range :: "nat \<times> nat"
  ie_mapped :: bool

text \<open>The flags that \<^verbatim>\<open>FS_IOC_SETFLAGS\<close> stores.\<close>

definition settable_flags :: "nat \<Rightarrow> nat \<Rightarrow> nat \<Rightarrow> nat" where
  "settable_flags mode oldflags flags =
     (let flags = (if \<not> S_ISDIR mode then clear_bits flags FS_DIRSYNC_FL else flags)
      in or (and flags FS_FL_USER_MODIFIABLE) (clear_bits oldflags FS_FL_USER_MODIFIABLE))"

definition ioctl_set_flags :: "addressing \<Rightarrow> ioctl_env \<Rightarrow> nat \<Rightarrow> vinode \<Rightarrow> nat \<Rightarrow> wpmfs \<Rightarrow> jstate \<Rightarrow>
    ((errno + nat) \<times> vinode \<times> wpmfs \<times> jstate) option" where
  "ioctl_set_flags E I now inode pi s j =
     (case ie_want_write I of Some e \<Rightarrow> Some (Inl e, inode, s, j) | None \<Rightarrow>
      if \<not> ie_owner I then Some (Inl EPERM, inode, s, j)
      else case ie_word I of None \<Rightarrow> Some (Inl EFAULT, inode, s, j) | Some flags \<Rightarrow>
      let oldflags = pi_flags s pi
      in if and (Bit_Operations.xor flags oldflags) (FS_APPEND_FL + FS_IMMUTABLE_FL) \<noteq> 0 \<and> \<not> ie_immutable I
         then Some (Inl EPERM, inode, s, j)
         else
           let flags = settable_flags (i_mode inode) oldflags flags;
               inode1 = inode\<lparr>i_ctime := now\<rparr>
           in do {
             (r, j1) \<leftarrow> tx_start E MAX_INODE_LENTRIES s j;
             case r of
               Inl e \<Rightarrow> Some (Inl e, inode1, s, j1)
             | Inr tx \<Rightarrow>
                 let J = tx_log E s pi MAX_DATA_PER_LENTRY (tx, j1);
                     s1 = PM_EQU 4 s (pi + 4) flags;
                     s2 = PM_EQU 4 s1 (pi + 24) now;
                     inode2 = pmfs_set_inode_flags s2 pi inode1;
                     (s3, j3) = tx_commit E s2 J
                 in Some (Inr 0, inode2, s3, j3)
           })"

definition ioctl_set_version :: "addressing \<Rightarrow> ioctl_env \<Rightarrow> nat \<Rightarrow> vinode \<Rightarrow> nat \<Rightarrow> wpmfs \<Rightarrow> jstate \<Rightarrow>
    ((errno + nat) \<times> vinode \<times> wpmfs \<times> jstate) option" where
  "ioctl_set_version E I now inode pi s j =
     (if \<not> ie_owner I then Some (Inl EPERM, inode, s, j)
      else case ie_want_write I of Some e \<Rightarrow> Some (Inl e, inode, s, j) | None \<Rightarrow>
      case ie_word I of None \<Rightarrow> Some (Inl EFAULT, inode, s, j) | Some generation \<Rightarrow>
      do {
        (r, j1) \<leftarrow> tx_start E MAX_INODE_LENTRIES s j;
        case r of
          Inl e \<Rightarrow> Some (Inl e, inode, s, j1)
        | Inr tx \<Rightarrow>
            let J = tx_log E s pi 80 (tx, j1);
                inode1 = inode\<lparr>i_ctime := now, i_generation := generation\<rparr>;
                s1 = PM_EQU 4 s (pi + 24) now;
                s2 = PM_EQU 4 s1 (pi + 64) generation;
                (s3, j3) = tx_commit E s2 J
            in Some (Inr 0, inode1, s3, j3)
      })"

text \<open>
  The value is the word given to the user, 0 when there is none.  The two requests on timing statistics change
  nothing here.
\<close>

definition pmfs_ioctl :: "allocator_factory \<Rightarrow> addressing \<Rightarrow> ioctl_env \<Rightarrow> nat \<Rightarrow> nat \<Rightarrow> vinode \<Rightarrow> wpmfs \<Rightarrow> jstate \<Rightarrow>
    ((errno + nat) \<times> vinode \<times> wpmfs \<times> jstate) option" where
  "pmfs_ioctl A E I now cmd inode s j =
     do {
       (p, s1) \<leftarrow> pmfs_get_inode A s (i_ino inode);
       case p of
         None \<Rightarrow> Some (Inl EACCES, inode, s1, j)
       | Some pi \<Rightarrow>
           if cmd = FS_IOC_GETFLAGS then
             Some (if ie_put_ok I then Inr (and (pi_flags s1 pi) (or FS_FL_USER_VISIBLE PMFS_EOFBLOCKS_FL)) else Inl EFAULT, inode, s1, j)
           else if cmd = FS_IOC_SETFLAGS then ioctl_set_flags E I now inode pi s1 j
           else if cmd = FS_IOC_GETVERSION then
             Some (if ie_put_ok I then Inr (i_generation inode) else Inl EFAULT, inode, s1, j)
           else if cmd = FS_IOC_SETVERSION then ioctl_set_version E I now inode pi s1 j
           else if cmd = FS_PMFS_FSYNC then
             (case ie_range I of (offset, len) \<Rightarrow> do {
                (r, s2) \<leftarrow> pmfs_fsync A s1 (ie_mapped I) inode offset (offset + len);
                Some (Inr 0, inode, s2, j)
              })
           else if cmd = PMFS_PRINT_TIMING \<or> cmd = PMFS_CLEAR_STATS then Some (Inr 0, inode, s1, j)
           else Some (Inl ENOTTY, inode, s1, j)
     }"

definition pmfs_compat_ioctl :: "allocator_factory \<Rightarrow> addressing \<Rightarrow> ioctl_env \<Rightarrow> nat \<Rightarrow> nat \<Rightarrow> vinode \<Rightarrow> wpmfs \<Rightarrow> jstate \<Rightarrow>
    ((errno + nat) \<times> vinode \<times> wpmfs \<times> jstate) option" where
  "pmfs_compat_ioctl A E I now cmd inode s j =
     (if cmd = FS_IOC32_GETFLAGS then pmfs_ioctl A E I now FS_IOC_GETFLAGS inode s j
      else if cmd = FS_IOC32_SETFLAGS then pmfs_ioctl A E I now FS_IOC_SETFLAGS inode s j
      else if cmd = FS_IOC32_GETVERSION then pmfs_ioctl A E I now FS_IOC_GETVERSION inode s j
      else if cmd = FS_IOC32_SETVERSION then pmfs_ioctl A E I now FS_IOC_SETVERSION inode s j
      else Some (Inl ENOIOCTLCMD, inode, s, j))"

section \<open>The file under /proc\<close>

text \<open>
  The one message all callers share: 25 packed bytes, with the parameters of the requests laid over each
  other behind the operation code.
\<close>

type_synonym message = "nat \<Rightarrow> 8 word"

abbreviation WPMFS_CMD_INC_CNT :: nat where "WPMFS_CMD_INC_CNT \<equiv> 0xBCD00020"
abbreviation WPMFS_CMD_GET_CNT :: nat where "WPMFS_CMD_GET_CNT \<equiv> 0xBCD00021"
abbreviation WPMFS_CMD_GET_FS_CAP :: nat where "WPMFS_CMD_GET_FS_CAP \<equiv> 0xBCD00022"
abbreviation WPMFS_CMD_GET_FS_WEAR :: nat where "WPMFS_CMD_GET_FS_WEAR \<equiv> 0xBCD00023"
abbreviation MESSAGE_SIZE :: nat where "MESSAGE_SIZE \<equiv> 25"

definition msg_opcode :: "message \<Rightarrow> nat" where "msg_opcode m = le_load 4 m 0"
definition msg_fd :: "message \<Rightarrow> nat" where "msg_fd m = le_load 4 m 4"
definition msg_pageoff :: "message \<Rightarrow> nat" where "msg_pageoff m = le_load 8 m 8"
definition msg_page_wcnt :: "message \<Rightarrow> nat" where "msg_page_wcnt m = le_load 8 m 16"
definition msg_blocknr :: "message \<Rightarrow> nat" where "msg_blocknr m = le_load 8 m 4"
definition msg_succ :: "message \<Rightarrow> bool" where "msg_succ m \<longleftrightarrow> m 24 \<noteq> 0"
definition set_succ :: "bool \<Rightarrow> message \<Rightarrow> message" where "set_succ b m = m(24 := (if b then 1 else 0))"

text \<open>The block of the file's page, asked for only when the file is not empty.\<close>

definition lookup_page :: "allocator_factory \<Rightarrow> wpmfs \<Rightarrow> vinode \<Rightarrow> nat \<Rightarrow> (nat \<times> wpmfs) option" where
  "lookup_page A s inode pageoff = (if i_size inode = 0 then Some (0, s) else pmfs_find_data_block A s (i_ino inode) pageoff)"

text \<open>
  A write of \<open>cnt\<close> bytes, of which \<open>ubuf\<close> can be read: the result is \<^verbatim>\<open>count\<close> or \<^verbatim>\<open>-EINVAL\<close>, also for a
  request that failed.  A write longer than the message runs over it (\<open>None\<close>).  \<open>files\<close> is the caller's
  table of open files, \<open>capacity\<close> the static variable of \<^verbatim>\<open>wpmfs_get_fs_wear\<close>.
\<close>

definition write_handler :: "allocator_factory \<Rightarrow> (nat \<Rightarrow> vinode option) \<Rightarrow> 8 word list \<Rightarrow> nat \<Rightarrow> nat \<Rightarrow> message \<Rightarrow> wpmfs \<Rightarrow>
    ((errno + nat) \<times> nat \<times> message \<times> wpmfs) option" where
  "write_handler A files ubuf cnt capacity m s =
     (if cnt > MESSAGE_SIZE then None
      else
        let m1 = mem_write m 0 (take cnt (ubuf @ replicate cnt 0))
        in if length ubuf < cnt then Some (Inl EINVAL, capacity, m1, s)
        else if msg_opcode m1 = WPMFS_CMD_INC_CNT then
          (case files (msg_fd m1) of
             None \<Rightarrow> Some (Inl EINVAL, capacity, m1, s)
           | Some inode \<Rightarrow> do {
               (block, s1) \<leftarrow> lookup_page A s inode (msg_pageoff m1);
               let (succ, s2) = wt_cnter_track_fileoff s1 (i_size inode) (\<lambda>_. block) (msg_pageoff m1) (of_nat (msg_page_wcnt m1));
               Some (Inr cnt, capacity, set_succ succ m1, s2)
             })
        else if msg_opcode m1 = WPMFS_CMD_GET_CNT then
          (case files (msg_fd m1) of
             None \<Rightarrow> Some (Inl EINVAL, capacity, m1, s)
           | Some inode \<Rightarrow> do {
               (block, s1) \<leftarrow> lookup_page A s inode (msg_pageoff m1);
               Some (Inr cnt, capacity,
                 (case wt_cnter_read_fileoff s1 (i_size inode) (\<lambda>_. block) (msg_pageoff m1) of
                    None \<Rightarrow> set_succ False m1
                  | Some c \<Rightarrow> set_succ True (le_store 8 m1 16 (unat c))), s1)
             })
        else if msg_opcode m1 = WPMFS_CMD_GET_FS_CAP then
          (let c = wpmfs_get_capacity s in Some (Inr cnt, capacity, set_succ (c \<noteq> 0) (le_store 8 m1 4 c), s))
        else if msg_opcode m1 = WPMFS_CMD_GET_FS_WEAR then
          (let (r, capacity') = wpmfs_get_fs_wear capacity s (msg_blocknr m1)
           in Some (Inr cnt, capacity',
                (case r of None \<Rightarrow> set_succ False m1 | Some c \<Rightarrow> set_succ True (le_store 8 m1 12 (unat c))), s))
        else Some (Inl EINVAL, capacity, m1, s))"

text \<open>A read gives the whole message, whatever the size asked for; its result is 0.\<close>

definition read_handler :: "message \<Rightarrow> errno + 8 word list" where
  "read_handler m =
     (if \<not> msg_succ m then Inl EINVAL
      else if msg_opcode m \<in> {WPMFS_CMD_GET_CNT, WPMFS_CMD_GET_FS_CAP, WPMFS_CMD_GET_FS_WEAR} then Inr (mem_read m 0 MESSAGE_SIZE)
      else Inl EINVAL)"

section \<open>Page faults\<close>

text \<open>The block behind one page of the file, for the kernel's fault handler.\<close>

record iomap_result =
  io_offset :: nat
  io_addr :: nat
  io_length :: nat

definition pmfs_iomap_begin :: "kernel_vm \<Rightarrow> allocator_factory \<Rightarrow> addressing \<Rightarrow> wpmfs \<Rightarrow> io_ctx \<Rightarrow> vinode \<Rightarrow> nat \<Rightarrow> nat \<Rightarrow> bool \<Rightarrow>
    ((errno + iomap_result) \<times> vinode \<times> wpmfs \<times> io_ctx) option" where
  "pmfs_iomap_begin K A E s C inode offset len iomap_write =
     (let first_block = offset div 2 ^ 12;
          max_blocks = (len + 2 ^ 12 - 1) div 2 ^ 12
      in if max_blocks \<noteq> 1 then None
      else do {
        (r, inode1, s1, C1) \<leftarrow> pmfs_find_and_alloc_blocks K A E s C inode first_block iomap_write;
        Some (map_sum id (\<lambda>block. \<lparr>io_offset = first_block * 2 ^ 12, io_addr = block, io_length = 2 ^ 12\<rparr>) r, inode1, s1, C1)
      })"

end
