(* ===== verification/WriteProtect.thy ===== *)
theory WriteProtect
  imports PmState
begin

text \<open>
  Write protection of the device around stores (\<^verbatim>\<open>wprotect.c\<close>, \<^verbatim>\<open>wprotect.h\<close>): the bit \<^verbatim>\<open>WP\<close> of the control
  register \<^verbatim>\<open>CR0\<close>, the interrupt flag, and the static variable that keeps it while the protection is off.  The
  components leave the calls out: they change nothing but this processor state.
\<close>

record cpu =
  cr0 :: "64 word"
  irq_on :: bool
  saved_irq :: bool

definition X86_CR0_WP :: "64 word" where "X86_CR0_WP = 0x10000"

definition wprotect_disable :: "cpu \<Rightarrow> cpu" where "wprotect_disable c = c\<lparr>cr0 := cr0 c AND NOT X86_CR0_WP\<rparr>"
definition wprotect_enable :: "cpu \<Rightarrow> cpu" where "wprotect_enable c = c\<lparr>cr0 := cr0 c OR X86_CR0_WP\<rparr>"

definition pmfs_writeable :: "bool \<Rightarrow> cpu \<Rightarrow> cpu" where
  "pmfs_writeable rw c =
     (if rw then wprotect_disable (c\<lparr>saved_irq := irq_on c, irq_on := False\<rparr>)
      else let c1 = wprotect_enable c in c1\<lparr>irq_on := saved_irq c1\<rparr>)"

text \<open>\<^verbatim>\<open>PMFS_MOUNT_PROTECT\<close> is the lowest bit of the mount options.\<close>

definition pmfs_is_protected :: "wpmfs \<Rightarrow> bool" where
  "pmfs_is_protected s \<longleftrightarrow> s_mount_opt s AND 0x1 \<noteq> 0"

text \<open>The range does not matter: the register holds for the whole kernel.\<close>

definition pmfs_memunlock_range :: "wpmfs \<Rightarrow> cpu \<Rightarrow> cpu" where
  "pmfs_memunlock_range s c = (if pmfs_is_protected s then pmfs_writeable True c else c)"

definition pmfs_memlock_range :: "wpmfs \<Rightarrow> cpu \<Rightarrow> cpu" where
  "pmfs_memlock_range s c = (if pmfs_is_protected s then pmfs_writeable False c else c)"

definition pmfs_xip_mem_protect :: "wpmfs \<Rightarrow> bool \<Rightarrow> cpu \<Rightarrow> cpu" where
  "pmfs_xip_mem_protect s rw c = (if \<not> pmfs_is_protected s then c else pmfs_writeable rw c)"

definition wp_on :: "cpu \<Rightarrow> bool" where "wp_on c \<longleftrightarrow> cr0 c AND X86_CR0_WP \<noteq> 0"

lemma bit_WP: "bit X86_CR0_WP n \<longleftrightarrow> n = 16"
proof -
  have "(0x10000 :: 64 word) = 2 ^ 16" by simp
  then show ?thesis unfolding X86_CR0_WP_def by (simp only: bit_exp_iff) auto
qed

lemma wp_bit: "wp_on c \<longleftrightarrow> bit (cr0 c) 16"
proof -
  have "cr0 c AND X86_CR0_WP = (if bit (cr0 c) 16 then X86_CR0_WP else 0)"
    by (rule bit_word_eqI) (auto simp: bit_and_iff bit_WP)
  moreover have "X86_CR0_WP \<noteq> 0" by (simp add: X86_CR0_WP_def)
  ultimately show ?thesis by (simp add: wp_on_def)
qed

lemma writeable_wp [simp]: "wp_on (pmfs_writeable rw c) \<longleftrightarrow> \<not> rw"
  by (cases rw) (simp_all add: wp_bit bit_WP pmfs_writeable_def wprotect_disable_def wprotect_enable_def bit_and_iff bit_or_iff bit_not_iff Let_def)

lemma writeable_irq [simp]:
  "irq_on (pmfs_writeable True c) \<longleftrightarrow> False" "saved_irq (pmfs_writeable True c) = irq_on c"
  "irq_on (pmfs_writeable False c) = saved_irq c" "saved_irq (pmfs_writeable False c) = saved_irq c"
  by (simp_all add: pmfs_writeable_def wprotect_disable_def wprotect_enable_def Let_def)

lemma bracket_restores:
  assumes "wp_on c" "pmfs_is_protected s"
  shows "\<not> wp_on (pmfs_memunlock_range s c)" "wp_on (pmfs_memlock_range s (pmfs_memunlock_range s c))"
    and "irq_on (pmfs_memlock_range s (pmfs_memunlock_range s c)) = irq_on c"
  using assms by (simp_all add: pmfs_memunlock_range_def pmfs_memlock_range_def)

text \<open>A bracket inside another: the inner end protects again, and the outer one leaves interrupts off.\<close>

lemma nested_bracket:
  assumes "pmfs_is_protected s" "irq_on c"
  defines "inner \<equiv> pmfs_memlock_range s (pmfs_memunlock_range s (pmfs_memunlock_range s c))"
  shows "wp_on inner" "\<not> irq_on (pmfs_memlock_range s inner)"
  using assms(1,2) by (simp_all add: inner_def pmfs_memunlock_range_def pmfs_memlock_range_def)

end
