(* ===== verification/FileView.thy ===== *)
theory FileView
  imports TruncList FileOps DirSpec
begin

text \<open>
  Files whose pages are all in good order, seen as functions from offsets to bytes: what reads return and
  what writes into existing blocks change.  A file is calm when the inode table is, its tree is well-formed,
  none of its pages is tired, and none of its blocks is one of the table's.
\<close>

section \<open>Calm files\<close>

abbreviation table_tree :: "wpmfs \<Rightarrow> nat set" where
  "table_tree s \<equiv> (let T = pmfs_get_inode_table s in tree_blocks (pi_height s T) (pm s) (pi_root s T))"

definition calm :: "wpmfs \<Rightarrow> nat \<Rightarrow> bool" where
  "calm s ino \<longleftrightarrow> table_ok s \<and> table_ino s ino \<and> file_ok (\<lambda>_. {}) (pi_addr s ino) s \<and>
     (\<forall>q\<in>file_blocks s (pi_addr s ino). \<not> tired s q \<and> q \<notin> table_tree s \<and> q \<noteq> page_of (pmfs_get_inode_table s) \<and> q \<noteq> super_page s)"

definition file_data :: "wpmfs \<Rightarrow> nat \<Rightarrow> nat set" where
  "file_data s pi = (if pi_root s pi = 0 then {} else tree_data (pi_height s pi) (pm s) (pi_root s pi))"

lemma calmD:
  assumes "calm s ino"
  shows "table_ok s" "table_ino s ino" "file_ok (\<lambda>_. {}) (pi_addr s ino) s" "direct_ok s"
    "q \<in> file_blocks s (pi_addr s ino) \<Longrightarrow> \<not> tired s q"
  using assms root_okD(1) [of "\<lambda>_. {}" "pi_addr s ino"] by (auto simp: calm_def file_ok_def)

lemma file_block_in:
  assumes "file_ok avail pi s" "file_block s pi n \<noteq> 0"
  shows "file_block s pi n \<in> file_data s pi" "file_block s pi n \<in> file_blocks s pi" "block_ptr (file_block s pi n)"
proof -
  have r: "pi_root s pi \<noteq> 0" "n < FANOUT ^ pi_height s pi" using assms(2) by (auto simp: file_block_def vlookup_def split: if_splits)
  have wf: "tree_wf (pi_height s pi) (pm s) (pi_root s pi)" using assms(1) r(1) root_okD(2) by (auto simp: file_ok_def)
  have fb: "file_block s pi n = tree_lookup (pi_height s pi) (pm s) (pi_root s pi) n" using file_block_tree [OF r] .
  have d: "file_block s pi n \<in> tree_data (pi_height s pi) (pm s) (pi_root s pi)"
    unfolding fb by (rule tree_lookup_data [OF wf r(2)]) (use assms(2) fb in simp)
  then show "file_block s pi n \<in> file_data s pi" "file_block s pi n \<in> file_blocks s pi"
    using r tree_nodes_sub(2) by (auto simp: file_data_def file_blocks_def rblocks_def)
  show "block_ptr (file_block s pi n)" using d tree_blocks_ptr [OF wf] tree_nodes_sub(2) by blast
qed

lemma file_block_inj:
  assumes "file_ok avail pi s" "file_block s pi n \<noteq> 0" "file_block s pi n = file_block s pi k"
  shows "n = k"
proof -
  have r: "pi_root s pi \<noteq> 0" "n < FANOUT ^ pi_height s pi" "k < FANOUT ^ pi_height s pi"
    using assms(2,3) by (auto simp: file_block_def vlookup_def split: if_splits)
  have wf: "tree_wf (pi_height s pi) (pm s) (pi_root s pi)" using assms(1) r(1) root_okD(2) by (auto simp: file_ok_def)
  show ?thesis using tree_lookup_inj [OF wf r(2,3)] assms(2,3) file_block_tree [OF r(1,2)] file_block_tree [OF r(1,3)] by simp
qed

lemma calm_find:
  assumes c: "calm s ino"
  shows "pmfs_find_data_block A s ino n = Some (file_block s (pi_addr s ino) n, s)"
proof -
  let ?pi = "pi_addr s ino"
  note D = calmD [OF c]
  have f: "pmfs_find_data_block A s ino n = find_file_block A s ?pi n"
    using table_inode [OF D(1,2), of A] by (simp add: pmfs_find_data_block_def)
  show ?thesis
  proof (cases "FANOUT ^ pi_height s ?pi \<le> n \<or> pi_root s ?pi = 0")
    case True
    moreover have "pi_root s ?pi = 0 \<Longrightarrow> pi_height s ?pi = 0" using root_okD(3) D(3) by (simp add: file_ok_def)
    ultimately show ?thesis unfolding f find_file_4k [OF D(3)] by (auto simp: file_block_def vlookup_def)
  next
    case False
    then have n: "n < FANOUT ^ pi_height s ?pi" and r: "pi_root s ?pi \<noteq> 0" by auto
    have "find_data_loop A (pi_height s ?pi) (pi_root s ?pi) n s = Some (tree_lookup (pi_height s ?pi) (pm s) (pi_root s ?pi) n, s)"
      by (rule plain_loop [OF file_plain [OF D(3) r] n]) (rule D(5), use r in \<open>simp add: file_blocks_def rblocks_def\<close>)
    then show ?thesis unfolding f find_file_4k [OF D(3)] using n file_block_tree [OF r n] by simp
  qed
qed

lemma calm_addr:
  assumes "calm s ino" "file_block s (pi_addr s ino) n \<noteq> 0"
  shows "pmfs_get_block s (file_block s (pi_addr s ino) n) = virt_addr s + file_block s (pi_addr s ino) n"
    "va_off s (virt_addr s + file_block s (pi_addr s ino) n) = file_block s (pi_addr s ino) n"
  using assms(2) node_va_direct(2) [OF calmD(4) [OF assms(1)] file_block_in(3) [OF calmD(3) [OF assms(1)] assms(2)]]
  by (simp_all add: pmfs_get_block_def)

section \<open>Stores that keep a file calm\<close>

text \<open>Into its data, or into its inode behind the first 16 bytes.\<close>

definition data_fixed :: "wpmfs \<Rightarrow> nat \<Rightarrow> wpmfs \<Rightarrow> bool" where
  "data_fixed s ino t \<longleftrightarrow> kernel_same s t \<and> page_private t = page_private s \<and>
     (\<forall>x. pm t x \<noteq> pm s x \<longrightarrow> page_of x \<in> file_data s (pi_addr s ino) \<or> pi_addr s ino + 16 \<le> x \<and> x < pi_addr s ino + 128)"

lemma file_data_sub: "file_data s pi \<subseteq> file_blocks s pi"
  using tree_nodes_sub(2) by (auto simp: file_data_def file_blocks_def rblocks_def)

lemma data_table_fixed:
  assumes c: "calm s ino" and f: "data_fixed s ino t"
  shows "table_fixed s t"
proof -
  let ?T = "pmfs_get_inode_table s" and ?pi = "pi_addr s ino" and ?o = "va_off s (pmfs_get_super s + 40)"
  let ?B = "tree_blocks (pi_height s ?T) (pm s) (pi_root s ?T)" and ?N = "tree_nodes (pi_height s ?T) (pm s) (pi_root s ?T)"
  note D = calmD [OF c]
  note A = pi_addr_block [OF D(1,2)]
  have wf: "tree_wf (pi_height s ?T) (pm s) (pi_root s ?T)" and T: "page_of ?T \<notin> ?B" "super_page s \<notin> ?B" "?T mod 4096 + 128 \<le> 4096"
    "?o mod 4096 + 8 \<le> 4096" using D(1) by (auto simp: table_ok_def Let_def)
  have pB: "page_of ?pi \<in> ?B" using A(1) tree_nodes_sub(2) by blast
  have p: "page_of ?pi \<notin> ?N" "page_of ?pi \<noteq> page_of ?T" "page_of ?pi \<noteq> super_page s"
    using A(1) nodes_data_disjoint [OF wf] pB T(1,2) by (blast, metis, metis)
  have q: "q \<notin> ?N \<and> q \<noteq> page_of ?T \<and> q \<noteq> super_page s" if "q \<in> file_data s ?pi" for q
  proof -
    have "q \<in> file_blocks s ?pi" using that file_data_sub [of s ?pi] by (rule subsetD [rotated])
    then have "q \<notin> ?B" "q \<noteq> page_of ?T" "q \<noteq> super_page s" using c by (auto simp: calm_def Let_def)
    then show ?thesis using tree_nodes_sub(1) [of "pi_height s ?T" "pm s" "pi_root s ?T"] by auto
  qed
  have pt: "page_of x = page_of ?T" if "?T \<le> x" "x < ?T + 80" for x
    by (rule page_of_inode [OF T(3)]) (use that in auto)
  have ps: "page_of x = super_page s" if "?o \<le> x" "x < ?o + 8" for x
  proof -
    have "?o = page_of ?o + ?o mod 4096" by (simp add: page_of_def)
    then have "page_of ?o \<le> x" "x < page_of ?o + 4096" using that T(4) by linarith+
    then show ?thesis unfolding super_page_def by (intro page_of_in) (simp_all add: page_of_def)
  qed
  have "pm t x = pm s x" if x: "page_of x \<in> ?N \<or> ?T \<le> x \<and> x < ?T + 80 \<or> ?o \<le> x \<and> x < ?o + 8" for x
  proof (rule ccontr)
    assume "pm t x \<noteq> pm s x"
    then have "page_of x \<in> file_data s ?pi \<or> ?pi + 16 \<le> x \<and> x < ?pi + 128" using f by (auto simp: data_fixed_def)
    moreover have "page_of x = page_of ?pi" if "?pi + 16 \<le> x \<and> x < ?pi + 128"
      by (rule page_of_inode [OF A(2)]) (use that in auto)
    ultimately have "page_of x \<in> file_data s ?pi \<or> page_of x = page_of ?pi" by blast
    moreover have "page_of x \<in> ?N \<or> page_of x = page_of ?T \<or> page_of x = super_page s" using x pt ps by blast
    ultimately show False using p q by auto
  qed
  then show ?thesis using f by (simp add: table_fixed_def data_fixed_def Let_def)
qed

text \<open>More generally, stores elsewhere than in the nodes of its tree and the first 16 bytes of its inode.\<close>

lemma calm_frame:
  assumes c: "calm s ino" and F: "table_fixed s t"
    and fld: "\<And>x. pi_addr s ino \<le> x \<Longrightarrow> x < pi_addr s ino + 16 \<Longrightarrow> pm t x = pm s x"
    and nd: "\<And>x. pi_root s (pi_addr s ino) \<noteq> 0 \<Longrightarrow>
      page_of x \<in> tree_nodes (pi_height s (pi_addr s ino)) (pm s) (pi_root s (pi_addr s ino)) \<Longrightarrow> pm t x = pm s x"
  shows "calm t ino" "pi_addr t ino = pi_addr s ino" "file_block t (pi_addr s ino) n = file_block s (pi_addr s ino) n"
    "file_data t (pi_addr s ino) = file_data s (pi_addr s ino)"
proof -
  let ?T = "pmfs_get_inode_table s" and ?pi = "pi_addr s ino"
  note D = calmD [OF c]
  note K = table_keep [OF D(1) F]
  have k: "kernel_same s t" "page_private t = page_private s" using F by (auto simp: table_fixed_def)
  show pi: "pi_addr t ino = ?pi" using K(4) D(2) by blast
  note R = root_okD [OF D(3) [unfolded file_ok_def]]
  have ld: "le_load n (pm t) (?pi + a) = le_load n (pm s) (?pi + a)" if "a + n \<le> 16" for a n
    by (rule le_load_cong, rule fld) (use that in auto)
  have g: "pi_height t ?pi = pi_height s ?pi" "pi_root t ?pi = pi_root s ?pi" "pi_blk_type t ?pi = pi_blk_type s ?pi"
    unfolding pi_height_def pi_root_def pi_blk_type_def by (rule ld; simp)+
  let ?h = "pi_height s ?pi" and ?r = "pi_root s ?pi"
  have tc: "tree_wf ?h (pm t) ?r" "tree_data ?h (pm t) ?r = tree_data ?h (pm s) ?r" "tree_blocks ?h (pm t) ?r = tree_blocks ?h (pm s) ?r"
    "\<And>n. n < FANOUT ^ ?h \<Longrightarrow> tree_lookup ?h (pm t) ?r n = tree_lookup ?h (pm s) ?r n" if r: "?r \<noteq> 0"
    using tree_cong [OF R(2) [OF r] nd [OF r]] by auto
  have rb: "rblocks ?h (pm t) ?r = rblocks ?h (pm s) ?r" using tc(3) by (simp add: rblocks_def)
  show "file_data t ?pi = file_data s ?pi" using tc(2) by (simp add: file_data_def g)
  show "file_block t ?pi n = file_block s ?pi n" using tc(4) by (simp add: file_block_def vlookup_def g)
  have "file_ok (\<lambda>_. {}) ?pi t"
    using R(3,5,8,9) tc(1) direct_ok_same [OF k(1) R(1)] unfolding file_ok_def root_ok_def g rb by auto
  moreover have "tired t = tired s" using k by (simp add: tired_def wpmfs_page_marks_def fun_eq_iff)
  moreover have "table_tree t = table_tree s"
  proof -
    have wf: "tree_wf (pi_height s ?T) (pm s) (pi_root s ?T)" using D(1) by (auto simp: table_ok_def Let_def)
    have nT: "\<And>x. page_of x \<in> tree_nodes (pi_height s ?T) (pm s) (pi_root s ?T) \<Longrightarrow> pm t x = pm s x"
      and fT: "\<And>x. ?T \<le> x \<Longrightarrow> x < ?T + 80 \<Longrightarrow> pm t x = pm s x" using F by (auto simp: table_fixed_def Let_def)
    have ld: "le_load n (pm t) (?T + k) = le_load n (pm s) (?T + k)" if "k + n \<le> 80" for k n
      by (rule le_load_cong, rule fT) (use that in auto)
    have "pi_height t ?T = pi_height s ?T" "pi_root t ?T = pi_root s ?T"
      unfolding pi_height_def pi_root_def by (rule ld; simp)+
    then show ?thesis using tree_cong(4) [OF wf nT] by (simp add: K(2))
  qed
  moreover have "super_page t = super_page s" by (simp add: super_page_def va_super_same [OF k(1)])
  moreover have "file_blocks t ?pi = file_blocks s ?pi" using rb by (simp add: file_blocks_def g)
  ultimately show "calm t ino" using c K(1,3) unfolding calm_def pi K(2) by simp
qed

lemma calm_keep:
  assumes c: "calm s ino" and f: "data_fixed s ino t"
  shows "calm t ino" "pi_addr t ino = pi_addr s ino" "file_block t (pi_addr s ino) n = file_block s (pi_addr s ino) n"
    "file_data t (pi_addr s ino) = file_data s (pi_addr s ino)"
proof -
  let ?pi = "pi_addr s ino"
  let ?h = "pi_height s ?pi" and ?r = "pi_root s ?pi"
  note R = root_okD [OF calmD(3) [OF c, unfolded file_ok_def]]
  have ch: "page_of x \<in> file_data s ?pi \<or> ?pi + 16 \<le> x \<and> x < ?pi + 128" if "pm t x \<noteq> pm s x" for x
    using f that by (auto simp: data_fixed_def)
  have in_page: "page_of x = page_of ?pi" if "?pi \<le> x" "x < ?pi + 128" for x by (rule page_of_inode [OF R(8) that])
  have npi: "page_of ?pi \<notin> file_blocks s ?pi" using R(5) by (simp add: file_blocks_def)
  have fld: "pm t x = pm s x" if x: "?pi \<le> x" "x < ?pi + 16" for x
  proof (rule ccontr)
    assume ne: "pm t x \<noteq> pm s x"
    have "page_of x \<in> file_data s ?pi" using ch [OF ne] x by auto
    moreover have "page_of x = page_of ?pi" by (rule in_page) (use x in auto)
    ultimately show False using npi file_data_sub [of s ?pi] by auto
  qed
  have nd: "pm t x = pm s x" if "?r \<noteq> 0" "page_of x \<in> tree_nodes ?h (pm s) ?r" for x
  proof (rule ccontr)
    assume "pm t x \<noteq> pm s x"
    from ch [OF this] in_page [of x] have "page_of x \<in> file_data s ?pi \<or> page_of x = page_of ?pi" by auto
    moreover have "page_of x \<in> file_blocks s ?pi" using that tree_nodes_sub(1) by (auto simp: file_blocks_def rblocks_def)
    ultimately have "page_of x \<in> tree_data ?h (pm s) ?r" using npi that(1) by (auto simp: file_data_def)
    then show False using nodes_data_disjoint [OF R(2) [OF that(1)]] that(2) by blast
  qed
  note G = calm_frame [OF c data_table_fixed [OF c f] fld nd]
  show "calm t ino" "pi_addr t ino = ?pi" "file_block t ?pi n = file_block s ?pi n" "file_data t ?pi = file_data s ?pi"
    by (rule G; assumption)+
qed

lemma data_fixed_refl: "data_fixed s ino s"
  by (simp add: data_fixed_def)

lemma data_fixed_trans:
  assumes "calm s ino" "data_fixed s ino t" "data_fixed t ino u"
  shows "data_fixed s ino u"
proof -
  note K = calm_keep [OF assms(1,2)]
  have "pm t x \<noteq> pm s x \<or> pm u x \<noteq> pm t x" if "pm u x \<noteq> pm s x" for x using that by auto
  then show ?thesis
    using assms(2,3) kernel_same_trans [of s t u] K(2,4) unfolding data_fixed_def by fastforce
qed

section \<open>The bytes of a file\<close>

definition file_byte :: "wpmfs \<Rightarrow> nat \<Rightarrow> nat \<Rightarrow> 8 word" where
  "file_byte s pi x = (if file_block s pi (x div 4096) = 0 then 0 else pm s (file_block s pi (x div 4096) + x mod 4096))"

lemma calm_xip:
  assumes "calm s (i_ino inode)" "\<not> create \<or> file_block s (pi_addr s (i_ino inode)) n \<noteq> 0"
  shows "pmfs_get_xip_mem K A E s C inode n create =
    Some (let fb = file_block s (pi_addr s (i_ino inode)) n in if fb = 0 then Inl ENODATA else Inr (fb, pmfs_get_pfn s fb), inode, s, C)"
  using assms calm_find [OF assms(1), of A n] calm_addr [OF assms(1), of n]
  by (auto simp: pmfs_get_xip_mem_def pmfs_find_and_alloc_blocks_def Let_def)

text \<open>A piece of one page.\<close>

lemma page_piece:
  assumes "off + n \<le> 4096"
  shows "map (file_byte s pi) [k * 4096 + off..<k * 4096 + off + n] =
    (if file_block s pi k = 0 then replicate n 0 else mem_read (pm s) (file_block s pi k + off) n)"
proof (rule nth_equalityI)
  fix i assume "i < length (map (file_byte s pi) [k * 4096 + off..<k * 4096 + off + n])"
  then have i: "i < n" by simp
  then have "off + i < 4096" using assms by linarith
  then have "(k * 4096 + (off + i)) div 4096 = k" "(k * 4096 + (off + i)) mod 4096 = off + i" by simp_all
  with i show "map (file_byte s pi) [k * 4096 + off..<k * 4096 + off + n] ! i =
    (if file_block s pi k = 0 then replicate n 0 else mem_read (pm s) (file_block s pi k + off) n) ! i"
    by (simp add: file_byte_def mem_read_def add.assoc)
qed (simp add: mem_read_def)

lemma page_bytes_rest:
  assumes "0 < isize" "off < 4096"
  shows "page_bytes isize k - off = min (4096 - off) (isize - (k * 4096 + off))"
proof -
  define e r where "e = (isize - 1) div 4096" and "r = (isize - 1) mod 4096"
  have i: "isize = e * 4096 + r + 1" "r < 4096" using assms(1) unfolding e_def r_def by simp_all
  consider "k < e" | "k = e" | "e < k" by linarith
  then show ?thesis
  proof cases
    case 1
    then have "k * 4096 + 4096 \<le> e * 4096" by simp
    with 1 i show ?thesis by (simp add: page_bytes_def e_def [symmetric] r_def [symmetric])
  next
    case 3
    then have "e * 4096 + 4096 \<le> k * 4096" by simp
    with 3 i show ?thesis by (simp add: page_bytes_def e_def [symmetric] r_def [symmetric])
  qed (use i in \<open>simp add: page_bytes_def e_def [symmetric] r_def [symmetric]\<close>)
qed

lemma upt_split: "i \<le> j \<Longrightarrow> j \<le> k \<Longrightarrow> [i..<k] = [i..<j] @ [j..<k]"
  using upt_add_eq_append [of i j "k - j"] by simp

lemma read_loop_bytes:
  assumes c: "calm s (i_ino inode)" and sz: "0 < i_size inode" and room: "len \<le> room"
  defines "pi \<equiv> pi_addr s (i_ino inode)"
  shows "off < 4096 \<Longrightarrow> length (rd_data d) < len \<Longrightarrow>
    \<exists>e. read_loop K A E C inode len room k off d s = Some (\<lparr>rd_data = rd_data d @
        map (file_byte s pi) [k * 4096 + off..<min (k * 4096 + off + (len - length (rd_data d))) (i_size inode)], rd_error = e\<rparr>, s) \<and>
      (i_size inode \<le> k * 4096 + off \<longrightarrow> e = rd_error d)"
proof (induction "len - length (rd_data d)" arbitrary: k off d rule: less_induct)
  case less
  let ?p = "k * 4096 + off" and ?l = "length (rd_data d)"
  let ?n = "min (4096 - off) (i_size inode - ?p)"
  have nr: "page_bytes (i_size inode) k - off = ?n" by (rule page_bytes_rest [OF sz less(2)])
  show ?case
  proof (cases "i_size inode \<le> ?p")
    case True
    then have "page_bytes (i_size inode) k \<le> off" using nr by simp
    with True show ?thesis by (cases d) (simp add: read_loop.simps Let_def)
  next
    case False
    define n where "n = min ?n (len - ?l)"
    have n: "0 < n" "n \<le> len - ?l" "off + n \<le> 4096" "?p + n \<le> i_size inode" using False less(2,3) by (auto simp: n_def)
    have np: "\<not> page_bytes (i_size inode) k \<le> off" using nr False less(2) by auto
    define fb where "fb = file_block s pi k"
    define e where "e = (if fb = 0 then Some ENODATA else None)"
    define bs where "bs = map (file_byte s pi) [?p..<?p + n]"
    have bs: "(if fb = 0 then replicate n 0 else mem_read (pm s) (fb + off) n) = bs"
      using page_piece [OF n(3), of s pi k] by (simp add: bs_def fb_def)
    have x: "pmfs_get_xip_mem K A E s C inode k False =
        Some (if fb = 0 then Inl ENODATA else Inr (fb, pmfs_get_pfn s fb), inode, s, C)"
      using calm_xip [OF c, of False k K A E C] by (simp add: fb_def pi_def Let_def)
    let ?d = "\<lparr>rd_data = rd_data d @ bs, rd_error = e\<rparr>"
    let ?k = "k + (off + n) div 4096" and ?off = "(off + n) mod 4096"
    have nx: "?k * 4096 + ?off = ?p + n" by (simp add: add_mult_distrib)
    have rm: "\<not> ?l + n > room" using n(2) room less(3) by linarith
    have rb: "length bs = n" by (simp add: bs_def)
    have step: "read_loop K A E C inode len room k off d s =
        (if ?l + n < len then read_loop K A E C inode len room ?k ?off ?d s else Some (?d, s))"
    proof -
      have m: "min (page_bytes (i_size inode) k - off) (len - ?l) = n" by (simp only: nr n_def)
      have "read_loop K A E C inode len room k off d s =
          (let d2 = d\<lparr>rd_error := e\<rparr>\<lparr>rd_data := rd_data d @ bs\<rparr>
           in if ?l + n < len then read_loop K A E C inode len room ?k ?off d2 s else Some (d2, s))"
      proof (cases "fb = 0")
        case True
        then have b: "replicate n 0 = bs" using bs by simp
        show ?thesis using np n(1) rm True
          by (subst read_loop.simps) (simp only: Let_def m x if_True if_False option.case prod.case sum.case b e_def simp_thms, simp)
      next
        case False
        then have b: "mem_read (pm s) (fb + off) n = bs" using bs by simp
        show ?thesis using np n(1) rm False
          by (subst read_loop.simps) (simp only: Let_def m x if_True if_False option.case prod.case sum.case b e_def simp_thms, simp)
      qed
      then show ?thesis by (cases d) (simp add: Let_def)
    qed
    show ?thesis
    proof (cases "?l + n < len")
      case True
      have "len - length (rd_data ?d) < len - ?l" "length (rd_data ?d) < len" "?off < 4096" using True n(1) rb by simp_all
      from less(1) [OF this(1,3,2), of ?k, unfolded nx] obtain e' where
        r: "read_loop K A E C inode len room ?k ?off ?d s = Some (\<lparr>rd_data = (rd_data d @ bs) @
          map (file_byte s pi) [?p + n..<min (?p + n + (len - (?l + n))) (i_size inode)], rd_error = e'\<rparr>, s)"
        by (auto simp: rb)
      have "?p + n + (len - (?l + n)) = ?p + (len - ?l)" using True by simp
      moreover have "[?p..<min (?p + (len - ?l)) (i_size inode)] = [?p..<?p + n] @ [?p + n..<min (?p + (len - ?l)) (i_size inode)]"
        by (rule upt_split) (use n in auto)
      ultimately show ?thesis using step r True False by (simp add: bs_def)
    next
      case no: False
      then have "len - ?l = n" using n(2) by simp
      then show ?thesis using step no False n(4) by (simp add: bs_def)
    qed
  qed
qed

theorem read_bytes:
  assumes "calm s (i_ino inode)" "0 < len" "len \<le> room"
  shows "pmfs_xip_file_read K A E True s C inode len room pos =
    Some (Inr (map (file_byte s (pi_addr s (i_ino inode))) [pos..<min (pos + len) (i_size inode)]),
      pos + (min (pos + len) (i_size inode) - pos), s)"
proof (cases "i_size inode = 0")
  case True
  then show ?thesis by (simp add: pmfs_xip_file_read_def do_xip_mapping_read_def)
next
  case False
  then have "0 < i_size inode" by simp
  from read_loop_bytes [OF assms(1) this assms(3), of "pos mod 4096" "\<lparr>rd_data = [], rd_error = None\<rparr>" K A E C "pos div 4096"] assms(2)
  show ?thesis using False by (auto simp: pmfs_xip_file_read_def do_xip_mapping_read_def)
qed

section \<open>Writing into existing blocks\<close>

definition overwritten :: "nat \<Rightarrow> 8 word list \<Rightarrow> (nat \<Rightarrow> 8 word) \<Rightarrow> nat \<Rightarrow> 8 word" where
  "overwritten pos bs f = (\<lambda>x. if pos \<le> x \<and> x < pos + length bs then bs ! (x - pos) else f x)"

lemma overwritten_append:
  "overwritten (pos + length bs) cs (overwritten pos bs f) = overwritten pos (bs @ cs) f"
  by (rule ext) (auto simp: overwritten_def nth_append)

lemma table_get: "table_ok s \<Longrightarrow> table_ino s ino \<Longrightarrow> pmfs_get_inode A s ino = Some (Some (pi_addr s ino), s)"
  using table_inode [of s ino A] by (auto simp: inode_at_def split: Option.bind_split_asm)

lemma file_byte_page:
  assumes "calm s ino" "file_block s (pi_addr s ino) k \<noteq> 0" "j < 4096"
  shows "page_of (file_block s (pi_addr s ino) k + j) = file_block s (pi_addr s ino) k"
    "page_of (file_block s (pi_addr s ino) k + j) \<in> file_data s (pi_addr s ino)"
proof -
  note B = file_block_in [OF calmD(3) [OF assms(1)] assms(2)]
  show pg: "page_of (file_block s (pi_addr s ino) k + j) = file_block s (pi_addr s ino) k"
    by (rule page_of_in) (use B(3) assms(3) in \<open>auto simp: block_ptr_def\<close>)
  then show "page_of (file_block s (pi_addr s ino) k + j) \<in> file_data s (pi_addr s ino)" using B(1) by simp
qed

lemma write_block:
  assumes c: "calm s ino" and fb: "file_block s (pi_addr s ino) k \<noteq> 0" and off: "off + length bs \<le> 4096"
    and k: "kernel_same s t" "page_private t = page_private s"
    and m: "pm t = mem_write (pm s) (file_block s (pi_addr s ino) k + off) bs"
  shows "data_fixed s ino t" "file_byte t (pi_addr s ino) = overwritten (k * 4096 + off) bs (file_byte s (pi_addr s ino))"
    "page_of x \<notin> file_data s (pi_addr s ino) \<Longrightarrow> pm t x = pm s x"
proof -
  let ?pi = "pi_addr s ino" and ?fb = "file_block s (pi_addr s ino) k"
  have out: "pm t x = pm s x" if "page_of x \<noteq> ?fb" for x
  proof (cases "?fb + off \<le> x \<and> x < ?fb + off + length bs")
    case True
    then obtain j where "x = ?fb + j" "j < 4096" using off by (metis add.assoc le_Suc_ex nat_add_left_cancel_less order_less_le_trans)
    with file_byte_page(1) [OF c fb] that show ?thesis by blast
  qed (auto simp: m mem_write_def)
  have fd: "?fb \<in> file_data s ?pi" using file_block_in(1) [OF calmD(3) [OF c] fb] .
  then show "page_of x \<notin> file_data s ?pi \<Longrightarrow> pm t x = pm s x" using out by metis
  show df: "data_fixed s ino t" using k out fd unfolding data_fixed_def by metis
  show "file_byte t ?pi = overwritten (k * 4096 + off) bs (file_byte s ?pi)"
  proof
    fix x
    let ?q = "file_block s ?pi (x div 4096)"
    have q: "file_block t ?pi (x div 4096) = ?q" using calm_keep(3) [OF c df] .
    have x: "x = x div 4096 * 4096 + x mod 4096" "x mod 4096 < 4096" by simp_all
    show "file_byte t ?pi x = overwritten (k * 4096 + off) bs (file_byte s ?pi) x"
    proof (cases "x div 4096 = k")
      case True
      have "k * 4096 + off \<le> x \<longleftrightarrow> off \<le> x mod 4096" "x < k * 4096 + off + length bs \<longleftrightarrow> x mod 4096 < off + length bs"
        "x - (k * 4096 + off) = x mod 4096 - off" using x True by linarith+
      then show ?thesis using fb True q by (simp add: file_byte_def overwritten_def m mem_write_def)
    next
      case False
      have "\<not> (k * 4096 + off \<le> x \<and> x < k * 4096 + off + length bs)"
      proof
        assume "k * 4096 + off \<le> x \<and> x < k * 4096 + off + length bs"
        then have "k * 4096 \<le> x" "x < (k + 1) * 4096" using off by auto
        then have "x div 4096 = k" by (simp add: div_nat_eqI)
        with False show False ..
      qed
      moreover have "pm t (?q + x mod 4096) = pm s (?q + x mod 4096)" if "?q \<noteq> 0"
      proof -
        have "?q \<noteq> ?fb" using file_block_inj [OF calmD(3) [OF c] that] False by blast
        then show ?thesis using out file_byte_page(1) [OF c that x(2)] by simp
      qed
      ultimately show ?thesis using q by (auto simp: file_byte_def overwritten_def)
    qed
  qed
qed

lemma store_inode:
  assumes c: "calm s ino" and k: "kernel_same s t" "page_private t = page_private s"
    and m: "\<And>x. \<not> (pi_addr s ino + 16 \<le> x \<and> x < pi_addr s ino + 128) \<Longrightarrow> pm t x = pm s x"
  shows "data_fixed s ino t" "file_byte t (pi_addr s ino) = file_byte s (pi_addr s ino)"
    "page_of x \<in> file_data s (pi_addr s ino) \<Longrightarrow> pm t x = pm s x"
proof -
  let ?pi = "pi_addr s ino"
  show df: "data_fixed s ino t" using k m unfolding data_fixed_def by metis
  note R = root_okD [OF calmD(3) [OF c, unfolded file_ok_def]]
  have out: "pm t x = pm s x" if "page_of x \<in> file_data s ?pi" for x
  proof (rule m, rule notI)
    assume "?pi + 16 \<le> x \<and> x < ?pi + 128"
    then have "page_of x = page_of ?pi" by (intro page_of_inode [OF R(8)]) auto
    then show False using R(5) that file_data_sub [of s ?pi] by (auto simp: file_blocks_def)
  qed
  then show "page_of x \<in> file_data s ?pi \<Longrightarrow> pm t x = pm s x" .
  show "file_byte t ?pi = file_byte s ?pi"
    using out file_byte_page(2) [OF c] calm_keep(3) [OF c df] by (auto simp: file_byte_def fun_eq_iff)
qed

lemma memcpy_state:
  assumes "length buf = n"
  shows "\<exists>t. memcpy_to_nvmm clwb s a buf n = (n, t) \<and> kernel_same s t \<and> page_private t = page_private s \<and> pm t = mem_write (pm s) a buf"
  using assms by (cases clwb) (simp_all add: memcpy_to_nvmm_def kernel_same_def)

lemma memcpy_take: "memcpy_to_nvmm clwb s a buf n = memcpy_to_nvmm clwb s a (take n buf) n"
  by (simp add: memcpy_to_nvmm_def)

definition range_mapped :: "wpmfs \<Rightarrow> nat \<Rightarrow> nat \<Rightarrow> nat \<Rightarrow> bool" where
  "range_mapped s pi pos n \<longleftrightarrow> (\<forall>x. pos \<le> x \<and> x < pos + n \<longrightarrow> file_block s pi (x div 4096) \<noteq> 0)"

lemma write_loop_bytes:
  "calm s (i_ino inode) \<Longrightarrow> range_mapped s (pi_addr s (i_ino inode)) (wr_pos w) (length buf) \<Longrightarrow> buf \<noteq> [] \<Longrightarrow>
    \<exists>t. write_loop K A E clwb buf (length buf) w inode s C =
        Some (\<lparr>wr_written = wr_written w + length buf, wr_pos = wr_pos w + length buf, wr_status = None\<rparr>, inode, t, C) \<and>
      data_fixed s (i_ino inode) t \<and>
      file_byte t (pi_addr s (i_ino inode)) = overwritten (wr_pos w) buf (file_byte s (pi_addr s (i_ino inode))) \<and>
      (\<forall>x. page_of x \<notin> file_data s (pi_addr s (i_ino inode)) \<longrightarrow> pm t x = pm s x)"
proof (induction "length buf" arbitrary: buf w s rule: less_induct)
  case less
  note c = less(2)
  let ?ino = "i_ino inode"
  let ?pi = "pi_addr s ?ino"
  define pos where "pos = wr_pos w"
  define k off where "k = pos div 4096" and "off = pos mod 4096"
  have po: "pos = k * 4096 + off" "off < 4096" by (simp_all add: k_def off_def)
  let ?fb = "file_block s ?pi k"
  have fb: "?fb \<noteq> 0" using less(3,4) unfolding range_mapped_def pos_def [symmetric] k_def by (cases buf) auto
  define n where "n = min (4096 - off) (length buf)"
  have n: "0 < n" "n \<le> length buf" "off + n \<le> 4096" using less(4) po(2) by (auto simp: n_def)
  have x: "pmfs_get_xip_mem K A E s C inode k True = Some (Inr (?fb, pmfs_get_pfn s ?fb), inode, s, C)"
    using calm_xip [OF c, of True k K A E C] fb by (simp add: Let_def)
  have tl: "length (take n buf) = n" using n(2) by simp
  obtain s2 where mc: "memcpy_to_nvmm clwb s (?fb + off) buf n = (n, s2)"
    and s2: "kernel_same s s2" "page_private s2 = page_private s" "pm s2 = mem_write (pm s) (?fb + off) (take n buf)"
    using memcpy_state [OF tl, of clwb s "?fb + off"] by (auto simp: memcpy_take [of clwb s "?fb + off" buf n])
  have W: "data_fixed s ?ino s2" "file_byte s2 ?pi = overwritten pos (take n buf) (file_byte s ?pi)"
    "page_of x \<notin> file_data s ?pi \<Longrightarrow> pm s2 x = pm s x" for x
    using write_block [OF c fb _ s2] n(3) tl po(1) by auto
  let ?w = "\<lparr>wr_written = wr_written w + n, wr_pos = pos + n, wr_status = None\<rparr>"
  have mn: "min (2 ^ 12 - off) (length buf) = n" by (simp add: n_def)
  have kp: "wr_pos w div 2 ^ 12 = k" "wr_pos w mod 2 ^ 12 = off" by (simp_all add: k_def off_def pos_def)
  have "write_loop K A E clwb buf (length buf) w inode s C =
      (let w1 = w\<lparr>wr_written := wr_written w + n, wr_pos := wr_pos w + n, wr_status := None\<rparr>
       in if length buf - n = 0 then Some (w1, inode, s2, C) else write_loop K A E clwb (drop n buf) (length buf - n) w1 inode s2 C)"
    by (subst write_loop.simps) (simp only: kp x Let_def mn mc option.case prod.case sum.case simp_thms if_False)
  then have step: "write_loop K A E clwb buf (length buf) w inode s C =
      (if length buf - n = 0 then Some (?w, inode, s2, C) else write_loop K A E clwb (drop n buf) (length (drop n buf)) ?w inode s2 C)"
    by (cases w) (simp add: pos_def Let_def)
  show ?case
  proof (cases "length buf - n = 0")
    case True
    then have l: "length buf = n" using n(2) by simp
    then have "take n buf = buf" by simp
    with step l W show ?thesis by (simp add: pos_def)
  next
    case False
    note K = calm_keep [OF c W(1)]
    have pl: "pos + n = (k + 1) * 4096" using False po by (auto simp: n_def min_def split: if_splits)
    have rm: "range_mapped s2 (pi_addr s2 ?ino) (wr_pos ?w) (length (drop n buf))"
      using less(3) n(2) K(2,3) by (simp add: range_mapped_def pos_def)
    have "length (drop n buf) < length buf" "drop n buf \<noteq> []" using n(1) False by auto
    from less(1) [OF this(1) K(1) rm this(2)] obtain t where
      t: "write_loop K A E clwb (drop n buf) (length (drop n buf)) ?w inode s2 C =
          Some (\<lparr>wr_written = wr_written ?w + length (drop n buf), wr_pos = wr_pos ?w + length (drop n buf), wr_status = None\<rparr>, inode, t, C)"
        "data_fixed s2 ?ino t" "file_byte t ?pi = overwritten (pos + n) (drop n buf) (file_byte s2 ?pi)"
        "\<And>x. page_of x \<notin> file_data s ?pi \<Longrightarrow> pm t x = pm s2 x"
      unfolding K(2,4) by auto
    have "file_byte t ?pi = overwritten pos buf (file_byte s ?pi)"
      using overwritten_append [of pos "take n buf" "drop n buf" "file_byte s ?pi"] tl by (simp add: t(3) W(2))
    moreover have "data_fixed s ?ino t" by (rule data_fixed_trans [OF c W(1) t(2)])
    moreover have "pm t x = pm s x" if "page_of x \<notin> file_data s ?pi" for x using t(4) W(3) that by simp
    moreover have "write_loop K A E clwb buf (length buf) w inode s C =
        Some (\<lparr>wr_written = wr_written w + length buf, wr_pos = wr_pos w + length buf, wr_status = None\<rparr>, inode, t, C)"
      using step t(1) False n(2) by (simp add: pos_def)
    ultimately show ?thesis by (simp add: pos_def)
  qed
qed

text \<open>The size as stored grows with the file's.\<close>

theorem overwrite_bytes:
  assumes c: "calm s (i_ino inode)" and m: "range_mapped s (pi_addr s (i_ino inode)) pos (length buf)" and b: "buf \<noteq> []"
  defines "pi \<equiv> pi_addr s (i_ino inode)"
  shows "\<exists>t. xip_write K A E clwb buf (length buf) pos inode s C = Some (Inr (length buf), pos + length buf,
        inode\<lparr>i_size := max (i_size inode) (pos + length buf)\<rparr>, t, C) \<and>
      data_fixed s (i_ino inode) t \<and> file_byte t pi = overwritten pos buf (file_byte s pi)"
proof -
  let ?ino = "i_ino inode" and ?w = "\<lparr>wr_written = 0, wr_pos = pos, wr_status = None\<rparr>"
  have "range_mapped s (pi_addr s ?ino) (wr_pos ?w) (length buf)" using m by simp
  from write_loop_bytes [OF c this b, of K A E clwb C] obtain t where
    t: "write_loop K A E clwb buf (length buf) ?w inode s C =
        Some (\<lparr>wr_written = length buf, wr_pos = pos + length buf, wr_status = None\<rparr>, inode, t, C)"
      "data_fixed s ?ino t" "file_byte t pi = overwritten pos buf (file_byte s pi)" by (auto simp: pi_def)
  note K = calm_keep [OF c t(2)]
  note G = table_get [OF calmD(1,2) [OF c], of A]
  define inode2 where "inode2 = inode\<lparr>i_size := pos + length buf\<rparr>"
  define u where "u = (if pos + length buf > i_size inode then pmfs_update_isize t pi inode2 else t)"
  have u: "data_fixed t ?ino u" "file_byte u pi = file_byte t pi"
  proof -
    have "kernel_same t u" "page_private u = page_private t" by (simp_all add: u_def pmfs_update_isize_def)
    moreover have "pm u x = pm t x" if "\<not> (pi_addr t ?ino + 16 \<le> x \<and> x < pi_addr t ?ino + 128)" for x
      using that unfolding K(2) by (auto simp: u_def pmfs_update_isize_def pi_def le_store_def)
    ultimately show "data_fixed t ?ino u" "file_byte u pi = file_byte t pi"
      using store_inode [OF K(1), of u] unfolding K(2) pi_def by blast+
  qed
  have "inode\<lparr>i_size := max (i_size inode) (pos + length buf)\<rparr> = (if pos + length buf > i_size inode then inode2 else inode)"
    by (cases inode) (auto simp: inode2_def)
  then have "xip_write K A E clwb buf (length buf) pos inode s C = Some (Inr (length buf), pos + length buf,
        inode\<lparr>i_size := max (i_size inode) (pos + length buf)\<rparr>, u, C)"
    using G t(1) b unfolding xip_write_def by (auto simp: u_def inode2_def pi_def Let_def)
  moreover have "data_fixed s ?ino u" by (rule data_fixed_trans [OF c t(2) u(1)])
  ultimately show ?thesis using u(2) t(3) by (intro exI [of _ u]) simp
qed

section \<open>The fast path\<close>

theorem fast_write_bytes:
  assumes c: "calm s (i_ino inode)" and m: "file_block s (pi_addr s (i_ino inode)) (pos div 4096) \<noteq> 0"
    and b: "buf \<noteq> []" "pos mod 4096 + length buf \<le> 4096"
  defines "pi \<equiv> pi_addr s (i_ino inode)"
  shows "\<exists>t. pmfs_xip_file_write K A E clwb True rp now buf (length buf) pos inode s j = Some (Inr (length buf), pos + length buf,
        inode\<lparr>i_ctime := now, i_mtime := now, i_size := max (i_size inode) (pos + length buf)\<rparr>, t, j) \<and>
      data_fixed s (i_ino inode) t \<and> file_byte t pi = overwritten pos buf (file_byte s pi)"
proof -
  let ?ino = "i_ino inode" and ?fb = "file_block s (pi_addr s (i_ino inode)) (pos div 4096)"
  let ?off = "pos mod 4096" and ?n = "length buf"
  note D = calmD [OF c]
  note G = table_get [OF D(1,2), of A]
  have sh: "pmfs_inode_blk_shift s pi = 12" "pmfs_inode_blk_size s pi = 4096"
    using file_blk_shift [OF D(3)] by (simp_all add: pmfs_inode_blk_size_def pi_def)
  obtain s2 where mc: "memcpy_to_nvmm clwb s (?fb + ?off) buf ?n = (?n, s2)"
    and s2: "kernel_same s s2" "page_private s2 = page_private s" "pm s2 = mem_write (pm s) (?fb + ?off) buf"
    using memcpy_state [of buf ?n clwb s "?fb + ?off"] by auto
  have W: "data_fixed s ?ino s2" "file_byte s2 pi = overwritten pos buf (file_byte s pi)"
    using write_block [OF c m b(2) s2] by (simp_all add: pi_def)
  note K = calm_keep [OF c W(1)]
  define inode1 where "inode1 = inode\<lparr>i_ctime := now, i_mtime := now, i_size := max (i_size inode) (pos + ?n)\<rparr>"
  define u where "u = (if pos + ?n > i_size inode then pmfs_update_time_and_size s2 pi inode1
    else PM_EQU 8 s2 (pi + 24) (or (now mod 2 ^ 32) (now mod 2 ^ 32 * 2 ^ 32)))"
  have u: "data_fixed s2 ?ino u" "file_byte u pi = file_byte s2 pi"
  proof -
    have "kernel_same s2 u" "page_private u = page_private s2"
      by (simp_all add: u_def pmfs_update_time_and_size_def plain_store_def kernel_same_def PM_EQU_def)
    moreover have "pm u x = pm s2 x" if "\<not> (pi_addr s2 ?ino + 16 \<le> x \<and> x < pi_addr s2 ?ino + 128)" for x
      using that unfolding K(2) by (auto simp: u_def pmfs_update_time_and_size_def plain_store_def pi_def le_store_def)
    ultimately show "data_fixed s2 ?ino u" "file_byte u pi = file_byte s2 pi"
      using store_inode [OF K(1), of u] unfolding K(2) pi_def by blast+
  qed
  have one: "(?n + ?off - 1) div 2 ^ 12 = 0" using b by (cases buf) auto
  have f: "pmfs_file_write_fast clwb s inode pi buf ?n pos ?fb now = (Inr ?n, pos + ?n, inode1, u)"
  proof -
    have mc': "memcpy_to_nvmm clwb s (va_off s (pmfs_get_block s ?fb) + pos mod 2 ^ 12) buf ?n = (?n, s2)"
      using mc calm_addr [OF c m] by simp
    show ?thesis unfolding pmfs_file_write_fast_def Let_def mc'
      by (cases inode) (auto simp: u_def inode1_def Let_def)
  qed
  have "pmfs_xip_file_write K A E clwb True rp now buf ?n pos inode s j = Some (Inr ?n, pos + ?n, inode1, u, j)"
    using G calm_find [OF c, of A "pos div 4096"] m b(1) sh one f by (simp add: pmfs_xip_file_write_def pi_def Let_def)
  moreover have "data_fixed s ?ino u" by (rule data_fixed_trans [OF c W(1) u(1)])
  ultimately show ?thesis using u(2) W(2) by (intro exI [of _ u]) (simp add: inode1_def)
qed

text \<open>What was written is read back.\<close>

lemma overwritten_range: "map (overwritten pos buf f) [pos..<pos + length buf] = buf"
  by (rule nth_equalityI) (simp_all add: overwritten_def)

theorem write_read:
  assumes c: "calm s (i_ino inode)" and m: "file_block s (pi_addr s (i_ino inode)) (pos div 4096) \<noteq> 0"
    and b: "buf \<noteq> []" "pos mod 4096 + length buf \<le> 4096"
  shows "\<exists>inode' t. pmfs_xip_file_write K A E clwb True rp now buf (length buf) pos inode s j = Some (Inr (length buf), pos + length buf, inode', t, j) \<and>
    pmfs_xip_file_read K A E True t C inode' (length buf) (length buf) pos = Some (Inr buf, pos + length buf, t)"
proof -
  let ?pi = "pi_addr s (i_ino inode)"
  let ?i = "inode\<lparr>i_ctime := now, i_mtime := now, i_size := max (i_size inode) (pos + length buf)\<rparr>"
  from fast_write_bytes [OF assms, of K A E clwb rp now j] obtain t where
    t: "pmfs_xip_file_write K A E clwb True rp now buf (length buf) pos inode s j = Some (Inr (length buf), pos + length buf, ?i, t, j)"
      "data_fixed s (i_ino inode) t" "file_byte t ?pi = overwritten pos buf (file_byte s ?pi)" by blast
  note Kp = calm_keep [OF c t(2)]
  have "min (pos + length buf) (i_size ?i) = pos + length buf" by simp
  with read_bytes [of t ?i "length buf" "length buf" K A E C pos] Kp(1,2) b(1) t(3)
  have "pmfs_xip_file_read K A E True t C ?i (length buf) (length buf) pos = Some (Inr buf, pos + length buf, t)"
    by (simp add: overwritten_range)
  with t(1) show ?thesis by blast
qed

end
