(* ===== verification/DirFile.thy ===== *)
theory DirFile
  imports FileView NameOps
begin

text \<open>
  Directories as files: over all blocks of a directory, lookup finds exactly the names it has, adding an
  entry adds the name and removing one removes it.
\<close>

definition dir_block_names :: "wpmfs \<Rightarrow> nat \<Rightarrow> nat \<Rightarrow> (8 word list \<times> nat) list" where
  "dir_block_names s ino i = block_names (pm s) (file_block s (pi_addr s ino) i) 0"

definition dir_names :: "wpmfs \<Rightarrow> nat \<Rightarrow> nat \<Rightarrow> (8 word list \<times> nat) list" where
  "dir_names s ino n = concat (map (dir_block_names s ino) [0..<n])"

text \<open>A calm file of \<open>n\<close> well-formed entry blocks.\<close>

definition dir_calm :: "wpmfs \<Rightarrow> nat \<Rightarrow> nat \<Rightarrow> bool" where
  "dir_calm s ino n \<longleftrightarrow> calm s ino \<and>
     (\<forall>i<n. file_block s (pi_addr s ino) i \<noteq> 0 \<and> block_wf (pm s) (file_block s (pi_addr s ino) i) 0)"

lemma dir_calmD:
  assumes "dir_calm s ino n"
  shows "calm s ino" "i < n \<Longrightarrow> file_block s (pi_addr s ino) i \<noteq> 0" "i < n \<Longrightarrow> block_wf (pm s) (file_block s (pi_addr s ino) i) 0"
    "i < n \<Longrightarrow> dir_block A s ino i = Some (Some (file_block s (pi_addr s ino) i), s)"
proof -
  show c: "calm s ino" and f: "i < n \<Longrightarrow> file_block s (pi_addr s ino) i \<noteq> 0"
    and "i < n \<Longrightarrow> block_wf (pm s) (file_block s (pi_addr s ino) i) 0" for i
    using assms by (auto simp: dir_calm_def)
  show "dir_block A s ino i = Some (Some (file_block s (pi_addr s ino) i), s)" if "i < n"
    using calm_find [OF c, of A i] calm_addr [OF c f [OF that]] f [OF that] by (simp add: dir_block_def)
qed

section \<open>Lookup\<close>

definition round_ok :: "wpmfs \<Rightarrow> nat \<Rightarrow> 8 word list \<Rightarrow> nat set \<Rightarrow> lookup_result \<Rightarrow> bool" where
  "round_ok s ino name S r \<longleftrightarrow> (case r of
     Missing \<Rightarrow> \<forall>i\<in>S. name \<notin> fst ` set (dir_block_names s ino i)
   | Hit i base res \<Rightarrow> i \<in> S \<and> map_of (dir_block_names s ino i) name = Some (de_ino (pm s) (base + res))
   | Stop \<Rightarrow> False)"

lemma round_step:
  assumes d: "dir_calm s ino n" and b: "block < n"
  shows "(\<exists>base res. search_round A ino name nb start block s = Some (Hit block base res, s) \<and>
      map_of (dir_block_names s ino block) name = Some (de_ino (pm s) (base + res))) \<or>
    name \<notin> fst ` set (dir_block_names s ino block) \<and> search_round A ino name nb start block s =
      (let block' = (if block + 1 \<ge> nb then 0 else block + 1)
       in if block' \<noteq> start then search_round A ino name nb start block' s else Some (Missing, s))"
proof -
  note D = dir_calmD [OF d]
  note S = search_spec [OF D(3) [OF b], of name None]
  show ?thesis
  proof (cases "search_loop (pm s) (file_block s (pi_addr s ino) block) name 0 None")
    case (Found res prev)
    then show ?thesis using S D(4) [OF b, of A]
      by (subst search_round.simps) (simp add: pmfs_search_dirblock_def dir_block_names_def)
  next
    case NotFound
    then show ?thesis using S D(4) [OF b, of A]
      by (subst (2) search_round.simps) (simp add: pmfs_search_dirblock_def dir_block_names_def)
  next
    case BadBlock
    then show ?thesis using S by simp
  qed
qed

lemma round_ok_Un: "round_ok s ino name S r \<Longrightarrow> name \<notin> fst ` set (dir_block_names s ino i) \<Longrightarrow> round_ok s ino name (insert i S) r"
  by (cases r) (auto simp: round_ok_def)

lemma round_low:
  assumes d: "dir_calm s ino n" and nb: "nb \<le> n" "start < nb"
  shows "block < start \<Longrightarrow> \<exists>r. search_round A ino name nb start block s = Some (r, s) \<and> round_ok s ino name {block..<start} r"
proof (induction "start - block" arbitrary: block)
  case (Suc k)
  have b: "block < n" using Suc(3) nb by simp
  have nw: "\<not> block + 1 \<ge> nb" using Suc(3) nb by simp
  have i: "{block..<start} = insert block {Suc block..<start}" using Suc(3) by auto
  from round_step [OF d b, of A name nb start] show ?case
  proof (elim disjE exE conjE)
    fix base res assume "search_round A ino name nb start block s = Some (Hit block base res, s)"
      "map_of (dir_block_names s ino block) name = Some (de_ino (pm s) (base + res))"
    then show ?thesis using Suc(3) by (auto simp: round_ok_def)
  next
    assume no: "name \<notin> fst ` set (dir_block_names s ino block)" and e: "search_round A ino name nb start block s =
      (let block' = (if block + 1 \<ge> nb then 0 else block + 1)
       in if block' \<noteq> start then search_round A ino name nb start block' s else Some (Missing, s))"
    show ?thesis
    proof (cases "block + 1 = start")
      case True
      with e nw no show ?thesis by (auto simp: round_ok_def i)
    next
      case False
      then have "k = start - Suc block" "Suc block < start" using Suc(2,3) by simp_all
      from Suc(1) [OF this] e nw False round_ok_Un [OF _ no] show ?thesis by (auto simp: i)
    qed
  qed
qed simp

lemma round_high:
  assumes d: "dir_calm s ino n" and nb: "nb \<le> n" "start < nb"
  shows "start \<le> block \<Longrightarrow> block < nb \<Longrightarrow>
    \<exists>r. search_round A ino name nb start block s = Some (r, s) \<and> round_ok s ino name ({block..<nb} \<union> {0..<start}) r"
proof (induction "nb - block" arbitrary: block)
  case (Suc k)
  have b: "block < n" using Suc(4) nb by simp
  have i: "{block..<nb} \<union> {0..<start} = insert block ({Suc block..<nb} \<union> {0..<start})" using Suc(4) by auto
  from round_step [OF d b, of A name nb start] show ?case
  proof (elim disjE exE conjE)
    fix base res assume "search_round A ino name nb start block s = Some (Hit block base res, s)"
      "map_of (dir_block_names s ino block) name = Some (de_ino (pm s) (base + res))"
    then show ?thesis using Suc(4) by (auto simp: round_ok_def)
  next
    assume no: "name \<notin> fst ` set (dir_block_names s ino block)" and e: "search_round A ino name nb start block s =
      (let block' = (if block + 1 \<ge> nb then 0 else block + 1)
       in if block' \<noteq> start then search_round A ino name nb start block' s else Some (Missing, s))"
    show ?thesis
    proof (cases "block + 1 \<ge> nb")
      case True
      then have em: "{Suc block..<nb} = {}" by simp
      show ?thesis
      proof (cases "start = 0")
        case True
        with e \<open>block + 1 \<ge> nb\<close> no show ?thesis unfolding i em by (auto simp: round_ok_def)
      next
        case False
        with round_low [OF d nb, of 0 A name] e True round_ok_Un [OF _ no] show ?thesis unfolding i em by (auto simp: Let_def)
      qed
    next
      case False
      then have "k = nb - Suc block" "start \<le> Suc block" "Suc block < nb" using Suc(2,3) by simp_all
      from Suc(1) [OF this] e False Suc(3) round_ok_Un [OF _ no] show ?thesis unfolding i by (auto simp: Let_def)
    qed
  qed
qed simp

lemma block_names_ino: "block_wf m base off \<Longrightarrow> (nm, i) \<in> set (block_names m base off) \<Longrightarrow> i \<noteq> 0"
proof (induction m base off rule: block_names.induct)
  case (1 m base off)
  show ?case
  proof (cases "off < 4096")
    case True
    note S = block_wf_step [OF 1(2) True]
    from 1(3) consider "(nm, i) \<in> set (entry_names m (base + off))" | "(nm, i) \<in> set (block_names m base (off + de_len m (base + off)))"
      unfolding S(7) by auto
    then show ?thesis by cases (auto split: if_splits, use 1(1) S(2,8) True in blast)
  qed (use 1(3) in \<open>simp add: block_names_end\<close>)
qed

lemma map_of_concat:
  assumes "distinct (map fst (concat xss))" "xs \<in> set xss" "map_of xs k = Some v"
  shows "map_of (concat xss) k = Some v"
  using assms map_of_SomeD [OF assms(3)] by (auto intro!: map_of_is_SomeI)

text \<open>The whole lookup: it ends, changes nothing and finds the name wherever it starts.\<close>

theorem lookup_names:
  assumes d: "dir_calm s (i_ino dir) n" and n: "n = i_size dir div 4096" "0 < n" and l: "length name \<le> 255"
    and u: "distinct (map fst (dir_names s (i_ino dir) n))"
  shows "\<exists>de start'. pmfs_inode_by_name A s dir start name =
    Some (case map_of (dir_names s (i_ino dir) n) name of None \<Rightarrow> 0 | Some i \<Rightarrow> i, de, start', s)"
proof -
  let ?ino = "i_ino dir"
  define dots where "dots = (name = DOT \<or> name = DOTDOT)"
  define nb where "nb = (if dots then 1 else n)"
  define st where "st = (if dots \<or> start \<ge> nb then 0 else start)"
  have nb: "nb \<le> n" "st < nb" using n(2) by (auto simp: nb_def st_def)
  note G = table_get [OF calmD(1,2) [OF dir_calmD(1) [OF d]], of A]
  from round_high [OF d nb order_refl nb(2), of A name] obtain r where
    r: "search_round A ?ino name nb st st s = Some (r, s)" "round_ok s ?ino name ({st..<nb} \<union> {0..<st}) r" by blast
  have S: "{st..<nb} \<union> {0..<st} = {0..<nb}" using nb by auto
  obtain r' where r': "(if r = Missing \<and> nb < n then search_round A ?ino name n 0 nb s else Some (r, s)) = Some (r', s)"
    "round_ok s ?ino name {0..<n} r'"
  proof (cases "r = Missing \<and> nb < n")
    case True
    from round_high [OF d order_refl n(2), of nb A name] True obtain q where
      q: "search_round A ?ino name n 0 nb s = Some (q, s)" "round_ok s ?ino name {nb..<n} q" by auto
    have "{0..<n} = {0..<nb} \<union> {nb..<n}" using True by auto
    then have "round_ok s ?ino name {0..<n} q" using q(2) r(2) True unfolding S by (cases q) (auto simp: round_ok_def)
    with q(1) True that show ?thesis by simp
  next
    case False
    have "round_ok s ?ino name {0..<n} r" using r(2) False nb(1) unfolding S by (cases r) (auto simp: round_ok_def)
    with False that show ?thesis by auto
  qed
  have "pmfs_inode_by_name A s dir start name =
      do { (r, s2) \<leftarrow> search_round A ?ino name nb st st s;
           (r, s3) \<leftarrow> (if r = Missing \<and> nb < n then search_round A ?ino name n 0 nb s2 else Some (r, s2));
           case r of Hit block base res \<Rightarrow> Some (de_ino (pm s3) (base + res), Some (base + res), block, s3) | _ \<Rightarrow> Some (0, None, start, s3) }"
  proof -
    have n': "i_size dir div 2 ^ 12 = n" and l': "(255 < length name) = False" using n l by simp_all
    show ?thesis
      by (simp only: pmfs_inode_by_name_def G Option.bind.bind_lunit prod.case l' if_False Let_def n' dots_def [symmetric]
        nb_def [symmetric] st_def [symmetric])
  qed
  also have "\<dots> = (case r' of Hit block base res \<Rightarrow> Some (de_ino (pm s) (base + res), Some (base + res), block, s) | _ \<Rightarrow> Some (0, None, start, s))"
    by (simp only: r(1) r'(1) Option.bind.bind_lunit prod.case)
  finally have run: "pmfs_inode_by_name A s dir start name =
      (case r' of Hit block base res \<Rightarrow> Some (de_ino (pm s) (base + res), Some (base + res), block, s) | _ \<Rightarrow> Some (0, None, start, s))" .
  show ?thesis
  proof (cases r')
    case (Hit block base res)
    then have h: "block < n" "map_of (dir_block_names s ?ino block) name = Some (de_ino (pm s) (base + res))"
      using r'(2) by (auto simp: round_ok_def)
    have "map_of (dir_names s ?ino n) name = Some (de_ino (pm s) (base + res))"
      unfolding dir_names_def by (rule map_of_concat [OF u [unfolded dir_names_def] _ h(2)]) (use h(1) in simp)
    with run Hit show ?thesis by simp
  next
    case Stop
    then show ?thesis using r'(2) by (simp add: round_ok_def)
  next
    case Missing
    then have "map_of (dir_names s ?ino n) name = None"
      using r'(2) by (auto simp: round_ok_def dir_names_def map_of_eq_None_iff)
    with run Missing show ?thesis by simp
  qed
qed

section \<open>Changing one block\<close>

text \<open>A store inside one block of the directory, and one into its inode.\<close>

lemma dir_change:
  assumes d: "dir_calm s ino n" and i: "i < n" and k: "kernel_same s t" "page_private t = page_private s"
    and m: "\<forall>x. x < file_block s (pi_addr s ino) i \<or> file_block s (pi_addr s ino) i + 4096 \<le> x \<longrightarrow> pm t x = pm s x"
    and w: "block_wf (pm t) (file_block s (pi_addr s ino) i) 0"
  shows "dir_calm t ino n" "pi_addr t ino = pi_addr s ino" "data_fixed s ino t" "j < n \<Longrightarrow> j \<noteq> i \<Longrightarrow> dir_block_names t ino j = dir_block_names s ino j"
    "dir_block_names t ino i = block_names (pm t) (file_block s (pi_addr s ino) i) 0"
proof -
  let ?pi = "pi_addr s ino" and ?fb = "file_block s (pi_addr s ino) i"
  note D = dir_calmD [OF d]
  have ptr: "block_ptr (file_block s ?pi j)" if "j < n" for j
    using file_block_in(3) [OF calmD(3) [OF D(1)] D(2) [OF that]] .
  have pg: "page_of x = ?fb" if "pm t x \<noteq> pm s x" for x
  proof (rule page_of_in)
    show "?fb \<le> x" "x < ?fb + 4096" using m [rule_format, of x] that by (auto simp: not_less [symmetric])
  qed (use ptr [OF i] in \<open>simp add: block_ptr_def\<close>)
  have fd: "?fb \<in> file_data s ?pi" using file_block_in(1) [OF calmD(3) [OF D(1)] D(2) [OF i]] .
  show df: "data_fixed s ino t" using k pg fd unfolding data_fixed_def by metis
  note K = calm_keep [OF D(1) df]
  show "pi_addr t ino = ?pi" by (rule K(2))
  have oth: "block_wf (pm t) (file_block s ?pi j) 0 \<and> block_names (pm t) (file_block s ?pi j) 0 = block_names (pm s) (file_block s ?pi j) 0"
    if j: "j < n" "j \<noteq> i" for j
  proof (rule block_same)
    show "block_wf (pm s) (file_block s ?pi j) 0" using D(3) [OF j(1)] .
    have ne: "file_block s ?pi j \<noteq> ?fb" using file_block_inj [OF calmD(3) [OF D(1)] D(2) [OF j(1)]] j(2) by blast
    show "same_on (file_block s ?pi j + 0) (file_block s ?pi j + 4096) (pm s) (pm t)"
    proof (intro allI impI)
      fix x assume "file_block s ?pi j + 0 \<le> x" "x < file_block s ?pi j + 4096"
      then have "page_of x = file_block s ?pi j" by (intro page_of_in) (use ptr [OF j(1)] in \<open>simp_all add: block_ptr_def\<close>)
      then show "pm t x = pm s x" using pg [of x] ne by auto
    qed
  qed
  show "dir_calm t ino n" unfolding dir_calm_def K(2,3)
  proof (intro conjI allI impI)
    show "calm t ino" by (rule K(1))
    fix j assume j: "j < n"
    show "file_block s ?pi j \<noteq> 0" by (rule D(2) [OF j])
    show "block_wf (pm t) (file_block s ?pi j) 0" using oth [OF j] w by (cases "j = i") auto
  qed
  show "j < n \<Longrightarrow> j \<noteq> i \<Longrightarrow> dir_block_names t ino j = dir_block_names s ino j"
    using oth by (simp add: dir_block_names_def K(2,3))
  show "dir_block_names t ino i = block_names (pm t) ?fb 0" by (simp add: dir_block_names_def K(2,3))
qed

lemma dir_store_inode:
  assumes d: "dir_calm s ino n" and k: "kernel_same s t" "page_private t = page_private s"
    and m: "\<forall>x. \<not> (pi_addr s ino + 16 \<le> x \<and> x < pi_addr s ino + 128) \<longrightarrow> pm t x = pm s x"
  shows "dir_calm t ino n" "pi_addr t ino = pi_addr s ino" "j < n \<Longrightarrow> dir_block_names t ino j = dir_block_names s ino j"
proof -
  let ?pi = "pi_addr s ino"
  note D = dir_calmD [OF d]
  have I: "data_fixed s ino t" "\<And>x. page_of x \<in> file_data s ?pi \<Longrightarrow> pm t x = pm s x"
    by (rule store_inode [OF D(1) k]; use m in blast)+
  note K = calm_keep [OF D(1) I(1)]
  show "pi_addr t ino = ?pi" by (rule K(2))
  have oth: "block_wf (pm t) (file_block s ?pi j) 0 \<and> block_names (pm t) (file_block s ?pi j) 0 = block_names (pm s) (file_block s ?pi j) 0"
    if j: "j < n" for j
  proof (rule block_same)
    show "block_wf (pm s) (file_block s ?pi j) 0" using D(3) [OF j] .
    note B = file_block_in [OF calmD(3) [OF D(1)] D(2) [OF j]]
    show "same_on (file_block s ?pi j + 0) (file_block s ?pi j + 4096) (pm s) (pm t)"
    proof (intro allI impI)
      fix x assume "file_block s ?pi j + 0 \<le> x" "x < file_block s ?pi j + 4096"
      then have "page_of x = file_block s ?pi j" by (intro page_of_in) (use B(3) in \<open>simp_all add: block_ptr_def\<close>)
      then show "pm t x = pm s x" using I(2) B(1) by simp
    qed
  qed
  show "dir_calm t ino n" using K(1) D(2) oth by (simp add: dir_calm_def K(2,3))
  show "j < n \<Longrightarrow> dir_block_names t ino j = dir_block_names s ino j"
    using oth by (simp add: dir_block_names_def K(2,3))
qed

lemma concat_update:
  assumes "i < n" "\<forall>j. j < n \<longrightarrow> j \<noteq> i \<longrightarrow> g j = f j"
  shows "\<exists>xs ys. concat (map f [0..<n]) = xs @ f i @ ys \<and> concat (map g [0..<n]) = xs @ g i @ ys \<and> xs = concat (map f [0..<i])"
proof -
  have s: "[0..<n] = [0..<i] @ i # [Suc i..<n]"
    using assms(1) upt_split [of 0 i n] upt_conv_Cons [of i n] by simp
  have e: "map g [0..<i] = map f [0..<i]" "map g [Suc i..<n] = map f [Suc i..<n]" using assms by auto
  have "concat (map g [0..<n]) = concat (map f [0..<i]) @ g i @ concat (map f [Suc i..<n])"
    by (simp only: s map_append list.map concat_append concat.simps e)
  moreover have "concat (map f [0..<n]) = concat (map f [0..<i]) @ f i @ concat (map f [Suc i..<n])"
    by (simp only: s map_append list.map concat_append concat.simps)
  ultimately show ?thesis by blast
qed

section \<open>Removing a name\<close>

lemma search_room: "search_loop m base name off pde = Found res prev \<Longrightarrow> res + 16 \<le> 4096"
proof (induction m base name off pde rule: search_loop.induct)
  case (1 m base name off pde)
  show ?case
  proof (cases "off < 4096 \<and> \<not> (off + length name \<le> 4096 \<and> pmfs_match m name (base + off)) \<and> de_len m (base + off) \<noteq> 0")
    case True
    then show ?thesis using 1 by (auto simp: search_loop.simps [of m base name off pde])
  next
    case False
    then have "res = off" "pmfs_check_dir_entry m base off" using 1(2)
      by (auto simp: search_loop.simps [of m base name off pde] split: if_splits)
    with check_len [of m base off] show ?thesis by linarith
  qed
qed

lemma removed_out:
  assumes "pmfs_search_dirblock m base name = Found res prev" "x < base \<or> base + 4096 \<le> x"
  shows "removed_mem m base res prev x = m x"
proof -
  have f: "search_loop m base name 0 None = Found res prev" using assms(1) by (simp add: pmfs_search_dirblock_def)
  note R = search_room [OF f] and F = search_from [OF f]
  show ?thesis
  proof (cases prev)
    case None
    have "x < base + res \<or> base + res + 8 \<le> x" using R assms(2) by linarith
    then show ?thesis by (auto simp: None removed_mem_def le_store_def)
  next
    case (Some p)
    then have "p < res" using F by (auto split: if_splits)
    then have "x < base + p + 8 \<or> base + p + 8 + 2 \<le> x" using R assms(2) by linarith
    then show ?thesis by (auto simp: Some removed_mem_def le_store_def)
  qed
qed

lemma find_blocks:
  assumes d: "dir_calm s ino n"
  shows "set bl \<subseteq> {0..<n} \<Longrightarrow> 
    (find_in_blocks A ino name bl s = Some (None, s) \<and> (\<forall>i\<in>set bl. name \<notin> fst ` set (dir_block_names s ino i))) \<or>
    (\<exists>i res prev pre post. bl = pre @ i # post \<and> (\<forall>j\<in>set pre. name \<notin> fst ` set (dir_block_names s ino j)) \<and>
      find_in_blocks A ino name bl s = Some (Some (file_block s (pi_addr s ino) i, res, prev), s) \<and>
      pmfs_search_dirblock (pm s) (file_block s (pi_addr s ino) i) name = Found res prev)"
proof (induction bl)
  case (Cons b bl)
  then have b: "b < n" and bl: "set bl \<subseteq> {0..<n}" by auto
  note D = dir_calmD [OF d]
  note S = search_spec [OF D(3) [OF b], of name None]
  show ?case
  proof (cases "pmfs_search_dirblock (pm s) (file_block s (pi_addr s ino) b) name")
    case (Found res prev)
    then have "find_in_blocks A ino name (b # bl) s = Some (Some (file_block s (pi_addr s ino) b, res, prev), s)"
      using D(4) [OF b, of A] by simp
    with Found show ?thesis by (intro disjI2 exI [of _ b] exI [of _ res] exI [of _ prev] exI [of _ "[]"] exI [of _ bl]) simp
  next
    case NotFound
    then have no: "name \<notin> fst ` set (dir_block_names s ino b)" using S by (simp add: dir_block_names_def pmfs_search_dirblock_def)
    have e: "find_in_blocks A ino name (b # bl) s = find_in_blocks A ino name bl s" using D(4) [OF b, of A] NotFound by simp
    from Cons(1) [OF bl] show ?thesis
    proof (elim disjE exE conjE)
      fix i res prev pre post
      assume "bl = pre @ i # post" "\<forall>j\<in>set pre. name \<notin> fst ` set (dir_block_names s ino j)"
        "find_in_blocks A ino name bl s = Some (Some (file_block s (pi_addr s ino) i, res, prev), s)"
        "pmfs_search_dirblock (pm s) (file_block s (pi_addr s ino) i) name = Found res prev"
      with no e show ?thesis
        by (intro disjI2 exI [of _ i] exI [of _ res] exI [of _ prev] exI [of _ "b # pre"] exI [of _ post]) simp
    qed (use no e in simp)
  next
    case BadBlock
    then show ?thesis using S by (simp add: pmfs_search_dirblock_def)
  qed
qed simp

lemma remove_dirent_frame:
  "kernel_same s (fst (remove_dirent E J s base res prev))" "page_private (fst (remove_dirent E J s base res prev)) = page_private s"
  by (cases prev; simp add: remove_dirent_def PM_STORE_def kernel_same_def)+

text \<open>The transaction only gets longer.\<close>

inductive logged :: "addressing \<Rightarrow> tx_ctx \<Rightarrow> tx_ctx \<Rightarrow> bool" for E J where
  logged_none [intro]: "logged E J J"
| logged_more [intro]: "logged E J K \<Longrightarrow> logged E J (log_off E K s off len)"

lemma logged_trans: "logged E K L \<Longrightarrow> logged E J K \<Longrightarrow> logged E J L"
  by (induction rule: logged.induct) auto

lemma remove_dirent_logged: "logged E J (snd (remove_dirent E J s base res prev))"
  by (cases prev) (auto simp: remove_dirent_def)

lemma add_dirent_logged:
  assumes "pmfs_add_dirent_to_buf E J s dir name ino de base pidir now = Some (r, d, t, J')"
  shows "logged E J J'"
proof -
  have "logged E J (snd (snd (split_entry E s J off)))" for s off by (auto simp: split_entry_def Let_def)
  with assms show ?thesis
    by (auto simp: pmfs_add_dirent_to_buf_def split_beta Let_def split: Option.bind_split_asm sum.split_asm)
qed

text \<open>What adding or removing an entry writes: the directory's blocks and the times in its inode.\<close>

definition entry_frame :: "wpmfs \<Rightarrow> nat \<Rightarrow> wpmfs \<Rightarrow> bool" where
  "entry_frame s ino t \<longleftrightarrow> kernel_same s t \<and> page_private t = page_private s \<and>
     (\<forall>x. pm t x \<noteq> pm s x \<longrightarrow> page_of x \<in> file_data s (pi_addr s ino) \<or> pi_addr s ino + 24 \<le> x \<and> x < pi_addr s ino + 32)"

lemma entry_frameI:
  assumes c: "calm s ino" and b: "file_block s (pi_addr s ino) i \<noteq> 0"
    and o: "\<forall>x. x < file_block s (pi_addr s ino) i \<or> file_block s (pi_addr s ino) i + 4096 \<le> x \<longrightarrow> pm s2 x = pm s x"
    and k: "kernel_same s t" "page_private t = page_private s"
    and m: "\<And>x. \<not> (pi_addr s ino + 24 \<le> x \<and> x < pi_addr s ino + 32) \<Longrightarrow> pm t x = pm s2 x"
  shows "entry_frame s ino t"
proof -
  let ?pi = "pi_addr s ino"
  let ?fb = "file_block s ?pi i"
  note B = file_block_in [OF calmD(3) [OF c] b]
  have "page_of x \<in> file_data s ?pi \<or> ?pi + 24 \<le> x \<and> x < ?pi + 32" if ne: "pm t x \<noteq> pm s x" for x
  proof (cases "pm s2 x = pm s x")
    case True
    with ne m [of x] show ?thesis by auto
  next
    case False
    then have "?fb \<le> x" "x < ?fb + 4096" using o by (auto simp: not_less [symmetric])
    then have "page_of x = ?fb" by (intro page_of_in) (use B(3) in \<open>simp_all add: block_ptr_def\<close>)
    then show ?thesis using B(1) by simp
  qed
  then show ?thesis using k by (simp add: entry_frame_def)
qed

theorem remove_names:
  assumes d: "dir_calm s (i_ino dir) n" and n: "n = i_size dir div 4096" and nm: "name \<noteq> []"
  shows "if name \<in> fst ` set (dir_names s (i_ino dir) n) then
      \<exists>t J'. pmfs_remove_entry A E J s dir name now = Some (Inr (), dir\<lparr>i_mtime := now, i_ctime := now\<rparr>, t, J') \<and> dir_calm t (i_ino dir) n \<and>
        entry_frame s (i_ino dir) t \<and> logged E J J' \<and> (\<exists>xs i ys. dir_names s (i_ino dir) n = xs @ (name, i) # ys \<and> dir_names t (i_ino dir) n = xs @ ys \<and> name \<notin> fst ` set xs)
    else pmfs_remove_entry A E J s dir name now = Some (Inl EINVAL, dir, s, J)"
proof -
  let ?ino = "i_ino dir"
  have sub: "set [0..<n] \<subseteq> {0..<n}" by simp
  from find_blocks [OF d sub, of A name] show ?thesis
  proof (elim disjE exE conjE)
    assume "find_in_blocks A ?ino name [0..<n] s = Some (None, s)" "\<forall>i\<in>set [0..<n]. name \<notin> fst ` set (dir_block_names s ?ino i)"
    then have "name \<notin> fst ` set (dir_names s ?ino n)" "pmfs_remove_entry A E J s dir name now = Some (Inl EINVAL, dir, s, J)"
      using nm by (auto simp: dir_names_def pmfs_remove_entry_def n [symmetric])
    then show ?thesis by simp
  next
    fix i res prev pre post
    assume l: "[0..<n] = pre @ i # post" and pre: "\<forall>j\<in>set pre. name \<notin> fst ` set (dir_block_names s ?ino j)"
      and fi: "find_in_blocks A ?ino name [0..<n] s = Some (Some (file_block s (pi_addr s ?ino) i, res, prev), s)"
      and se: "pmfs_search_dirblock (pm s) (file_block s (pi_addr s ?ino) i) name = Found res prev"
    let ?fb = "file_block s (pi_addr s ?ino) i" and ?pi = "pi_addr s ?ino"
    have "i \<in> set [0..<n]" unfolding l by simp
    then have i: "i < n" by simp
    have pr: "pre = [0..<i]"
    proof -
      have "[0..<n] ! length pre = i" unfolding l by simp
      moreover have "length pre < length [0..<n]" unfolding l by simp
      ultimately have "length pre = i" by simp
      then have "take i [0..<n] = pre" unfolding l by simp
      then show ?thesis using i by (simp add: take_upt)
    qed
    note D = dir_calmD [OF d]
    note R = removed_spec [OF D(3) [OF i] se]
    define s2 J2 where "s2 = fst (remove_dirent E J s ?fb res prev)" and "J2 = snd (remove_dirent E J s ?fb res prev)"
    have m2: "pm s2 = removed_mem (pm s) ?fb res prev" by (simp add: s2_def remove_dirent_mem)
    have fr: "kernel_same s s2" "page_private s2 = page_private s" by (simp_all add: s2_def remove_dirent_frame)
    have w2: "block_wf (pm s2) ?fb 0" using R by (simp add: m2)
    have o2: "\<forall>x. x < ?fb \<or> ?fb + 4096 \<le> x \<longrightarrow> pm s2 x = pm s x" unfolding m2 using removed_out [OF se] by blast
    note C = dir_change [OF d i fr o2 w2]
    define t where "t = PM_EQU 4 (PM_EQU 4 s2 (?pi + 28) now) (?pi + 24) now"
    have frt: "kernel_same s2 t" "page_private t = page_private s2" unfolding t_def
      by (rule kernel_same_trans [OF equ_frame(1) equ_frame(1)], simp)
      have pa: "pi_addr s2 ?ino = ?pi" by (rule C(2))
    have ot: "\<forall>x. \<not> (pi_addr s2 ?ino + 16 \<le> x \<and> x < pi_addr s2 ?ino + 128) \<longrightarrow> pm t x = pm s2 x"
      using pa unfolding t_def by (auto simp: le_store_def)
    note S = dir_store_inode [OF C(1) frt ot]
    have at: "inode_at A s2 ?ino = Some (?pi, s2)"
      using table_inode [OF calmD(1,2) [OF dir_calmD(1) [OF C(1)]], of A] C(2) by simp
    have run: "pmfs_remove_entry A E J s dir name now =
        Some (Inr (), dir\<lparr>i_mtime := now, i_ctime := now\<rparr>, t, log_off E J2 s2 ?pi MAX_DATA_PER_LENTRY)"
      using nm fi at by (simp add: pmfs_remove_entry_def n [symmetric] t_def s2_def J2_def split_beta)
    have tn: "dir_block_names t ?ino j = dir_block_names s2 ?ino j" if "j < n" for j using S(3) that .
    have "\<forall>j. j < n \<longrightarrow> j \<noteq> i \<longrightarrow> dir_block_names t ?ino j = dir_block_names s ?ino j" using tn C(4) by simp
    from concat_update [OF i this] obtain xs ys where cu: "dir_names s ?ino n = xs @ dir_block_names s ?ino i @ ys"
      "dir_names t ?ino n = xs @ dir_block_names t ?ino i @ ys" "xs = concat (map (dir_block_names s ?ino) [0..<i])"
      by (auto simp: dir_names_def)
    obtain us vs where uv: "dir_block_names s ?ino i = us @ (name, de_ino (pm s) (?fb + res)) # vs"
      "dir_block_names t ?ino i = us @ vs" "name \<notin> fst ` set us"
      using R tn [OF i] C(5) by (auto simp: dir_block_names_def [of s] m2)
    have "name \<notin> fst ` set (xs @ us)" using pre uv(3) by (auto simp: cu(3) pr)
    then have ex: "\<exists>xs i ys. dir_names s ?ino n = xs @ (name, i) # ys \<and> dir_names t ?ino n = xs @ ys \<and> name \<notin> fst ` set xs"
      using cu(1,2) uv(1,2) by - (rule exI [of _ "xs @ us"], rule exI [of _ "de_ino (pm s) (?fb + res)"], rule exI [of _ "vs @ ys"], simp)
    then have "name \<in> fst ` set (dir_names s ?ino n)" by force
    moreover have "entry_frame s ?ino t"
    proof (rule entry_frameI [OF D(1) _ o2])
      show "file_block s ?pi i \<noteq> 0" by (rule D(2) [OF i])
      show "kernel_same s t" "page_private t = page_private s" using kernel_same_trans [OF fr(1) frt(1)] fr(2) frt(2) by simp_all
      show "pm t x = pm s2 x" if "\<not> (?pi + 24 \<le> x \<and> x < ?pi + 32)" for x
        using that unfolding t_def by (auto simp: le_store_def)
    qed
    moreover have "logged E J (log_off E J2 s2 ?pi MAX_DATA_PER_LENTRY)"
      unfolding J2_def by (rule logged_more [OF remove_dirent_logged])
    ultimately show ?thesis using run S(1) ex by auto
  qed
qed

section \<open>Adding a name\<close>

lemma add_dirent_frame:
  assumes "pmfs_add_dirent_to_buf E J s dir name ino de base pidir now = Some (r, d, t, J')"
  shows "kernel_same s t \<and> page_private t = page_private s"
proof -
  have sp: "kernel_same s (fst (snd (split_entry E s J de))) \<and> page_private (fst (snd (split_entry E s J de))) = page_private s" for s de
    by (simp add: split_entry_def Let_def PM_EQU_def kernel_same_def)
  have we: "kernel_same s (write_entry s de ino name) \<and> page_private (write_entry s de ino name) = page_private s" for s de
    by (cases ino) (simp_all add: write_entry_def Let_def PM_EQU_def PM_STORE_def pm_write_def kernel_same_def)
  have ti: "kernel_same s (PM_EQU 4 (PM_EQU 4 s a now) b now) \<and> page_private (PM_EQU 4 (PM_EQU 4 s a now) b now) = page_private s" for s a b
    by (simp add: PM_EQU_def kernel_same_def)
  have tr: "kernel_same a b \<and> page_private b = page_private a \<Longrightarrow> kernel_same b c \<and> page_private c = page_private b \<Longrightarrow>
      kernel_same a c \<and> page_private c = page_private a" for a b c using kernel_same_trans by auto
  from assms consider "t = s" | off where
    "t = PM_EQU 4 (PM_EQU 4 (write_entry (fst (snd (split_entry E s J (base + off)))) (fst (split_entry E s J (base + off))) ino name)
      (pidir + 28) now) (pidir + 24) now"
    by (auto simp: pmfs_add_dirent_to_buf_def split_beta Let_def split: Option.bind_split_asm sum.split_asm)
  then show ?thesis
  proof cases
    case 2
    show ?thesis unfolding 2 by (rule tr [OF tr [OF sp we] ti])
  qed simp
qed

lemma add_blocks:
  assumes d: "dir_calm s (i_ino dir) n" and nm: "0 < length name" "length name < 256" "0 < ino" "ino < 2 ^ 64"
  defines "fb \<equiv> file_block s (pi_addr s (i_ino dir))" and "rl \<equiv> PMFS_DIR_REC_LEN (length name)"
  shows "set bl \<subseteq> {0..<n} \<Longrightarrow>
    (add_in_blocks A E name (Some ino) pidir now dir bl s J = Some (None, dir, s, J) \<and>
      (\<forall>i\<in>set bl. \<forall>k\<in>set (entry_offsets (pm s) (fb i) 0). \<not> has_room (pm s) (fb i) rl k)) \<or>
    (\<exists>i off t J'. i < n \<and> find_room (pm s) (fb i) rl 0 = Some (Inr off) \<and>
      add_in_blocks A E name (Some ino) pidir now dir bl s J = Some (Some (Inr ()), dir\<lparr>i_mtime := now, i_ctime := now\<rparr>, t, J') \<and>
      pm t = timed_mem (added_mem (pm s) (fb i + off) ino name) pidir now \<and> kernel_same s t \<and> page_private t = page_private s \<and> logged E J J')"
proof (induction bl)
  case (Cons b bl)
  then have b: "b < n" and bl: "set bl \<subseteq> {0..<n}" by auto
  note D = dir_calmD [OF d]
  have db: "dir_block A s (i_ino dir) b = Some (Some (fb b), s)" using D(4) [OF b] by (simp add: fb_def)
  from add_spec [OF D(3) [OF b] nm] consider
    (found) res where "find_room (pm s) (fb b) rl 0 = Some (Inr res)"
  | (none) "find_room (pm s) (fb b) rl 0 = Some (Inl ENOSPC)" "\<forall>k\<in>set (entry_offsets (pm s) (fb b) 0). \<not> has_room (pm s) (fb b) rl k"
    unfolding fb_def rl_def by blast
  then show ?case
  proof cases
    case found
    from add_dirent_mem [OF found [unfolded rl_def] nm(2), of E J dir ino pidir now] obtain t J' where
      t: "pmfs_add_dirent_to_buf E J s dir name (Some ino) None (fb b) pidir now = Some (Inr (), dir\<lparr>i_mtime := now, i_ctime := now\<rparr>, t, J')"
        "pm t = timed_mem (added_mem (pm s) (fb b + res) ino name) pidir now" by auto
    have "add_in_blocks A E name (Some ino) pidir now dir (b # bl) s J = Some (Some (Inr ()), dir\<lparr>i_mtime := now, i_ctime := now\<rparr>, t, J')"
      using db t(1) by simp
    with found t b add_dirent_frame [OF t(1)] add_dirent_logged [OF t(1)] show ?thesis by blast
  next
    case none
    from add_dirent_mem [OF none(1) [unfolded rl_def] nm(2), of E J dir ino pidir now]
    have "pmfs_add_dirent_to_buf E J s dir name (Some ino) None (fb b) pidir now = Some (Inl ENOSPC, dir, s, J)" by auto
    then have e: "add_in_blocks A E name (Some ino) pidir now dir (b # bl) s J = add_in_blocks A E name (Some ino) pidir now dir bl s J"
      using db by simp
    from Cons(1) [OF bl] none(2) show ?thesis unfolding e by auto
  qed
qed simp

theorem add_names:
  assumes d: "dir_calm s (i_ino dir) n" and n: "n = i_size dir div 4096"
    and nm: "name \<noteq> []" "length name < 256" "0 < ino" "ino < 2 ^ 64"
    and room: "i < n" "k \<in> set (entry_offsets (pm s) (file_block s (pi_addr s (i_ino dir)) i) 0)"
      "has_room (pm s) (file_block s (pi_addr s (i_ino dir)) i) (PMFS_DIR_REC_LEN (length name)) k"
  shows "\<exists>t J'. pmfs_add_entry K A E J s dir name (Some ino) now = Some (Inr (), dir\<lparr>i_mtime := now, i_ctime := now\<rparr>, t, J') \<and>
    dir_calm t (i_ino dir) n \<and> entry_frame s (i_ino dir) t \<and> logged E J J' \<and>
    (\<exists>xs ys. dir_names s (i_ino dir) n = xs @ ys \<and> dir_names t (i_ino dir) n = xs @ (name, ino) # ys)"
proof -
  let ?ino = "i_ino dir"
  let ?pi = "pi_addr s ?ino"
  let ?J = "log_off E J s ?pi MAX_DATA_PER_LENTRY"
  have len: "0 < length name" using nm(1) by simp
  have sub: "set [0..<n] \<subseteq> {0..<n}" by simp
  note D = dir_calmD [OF d]
  have at: "inode_at A s ?ino = Some (?pi, s)" using table_inode [OF calmD(1,2) [OF D(1)]] .
  from add_blocks [OF d len nm(2-4) sub, of A E ?pi now ?J] room obtain i off t J' where
    i: "i < n" and fr: "find_room (pm s) (file_block s ?pi i) (PMFS_DIR_REC_LEN (length name)) 0 = Some (Inr off)"
    and run: "add_in_blocks A E name (Some ino) ?pi now dir [0..<n] s ?J = Some (Some (Inr ()), dir\<lparr>i_mtime := now, i_ctime := now\<rparr>, t, J')"
    and t: "pm t = timed_mem (added_mem (pm s) (file_block s ?pi i + off) ino name) ?pi now" "kernel_same s t" "page_private t = page_private s"
      and lg: "logged E ?J J'"
    by auto
  let ?fb = "file_block s ?pi i"
  define s2 where "s2 = s\<lparr>pm := added_mem (pm s) (?fb + off) ino name\<rparr>"
  from add_spec [OF D(3) [OF i] len nm(2-4)] fr obtain xs ys where
    a: "block_wf (pm s2) ?fb 0" "block_names (pm s) ?fb 0 = xs @ ys" "block_names (pm s2) ?fb 0 = xs @ (name, ino) # ys"
      "\<forall>x. x < ?fb + off \<or> ?fb + 4096 \<le> x \<longrightarrow> pm s2 x = pm s x"
    by (auto simp: s2_def)
  have o2: "\<forall>x. x < ?fb \<or> ?fb + 4096 \<le> x \<longrightarrow> pm s2 x = pm s x" using a(4) by auto
  have f2: "kernel_same s s2" "page_private s2 = page_private s" by (simp_all add: s2_def kernel_same_def)
  note C = dir_change [OF d i f2 o2 a(1)]
  have ft: "kernel_same s2 t" "page_private t = page_private s2" using t(2,3) by (simp_all add: s2_def kernel_same_def)
  have ot: "\<forall>x. \<not> (pi_addr s2 ?ino + 16 \<le> x \<and> x < pi_addr s2 ?ino + 128) \<longrightarrow> pm t x = pm s2 x"
    using C(2) by (auto simp: t(1) s2_def timed_mem_def le_store_def)
  note S = dir_store_inode [OF C(1) ft ot]
  have "\<forall>j. j < n \<longrightarrow> j \<noteq> i \<longrightarrow> dir_block_names t ?ino j = dir_block_names s ?ino j" using S(3) C(4) by simp
  from concat_update [OF i this] obtain us vs where cu: "dir_names s ?ino n = us @ dir_block_names s ?ino i @ vs"
    "dir_names t ?ino n = us @ dir_block_names t ?ino i @ vs" by (auto simp: dir_names_def)
  have "dir_block_names s ?ino i = xs @ ys" using a(2) by (simp add: dir_block_names_def)
  moreover have "dir_block_names t ?ino i = xs @ (name, ino) # ys" using S(3) [OF i] C(5) a(3) by simp
  ultimately have "dir_names s ?ino n = (us @ xs) @ (ys @ vs)" "dir_names t ?ino n = (us @ xs) @ (name, ino) # (ys @ vs)"
    using cu by simp_all
  moreover have "pmfs_add_entry K A E J s dir name (Some ino) now = Some (Inr (), dir\<lparr>i_mtime := now, i_ctime := now\<rparr>, t, J')"
    using nm(1) at run by (simp add: pmfs_add_entry_def n [symmetric] Let_def)
  moreover have "entry_frame s ?ino t"
  proof (rule entry_frameI [OF D(1) _ o2 t(2,3)])
    show "file_block s ?pi i \<noteq> 0" by (rule D(2) [OF i])
    show "pm t x = pm s2 x" if "\<not> (?pi + 24 \<le> x \<and> x < ?pi + 32)" for x
      using that by (auto simp: t(1) s2_def timed_mem_def le_store_def)
  qed
  moreover have "logged E J J'" by (rule logged_trans [OF lg]) blast
  ultimately show ?thesis using S(1) by blast
qed

section \<open>Names come back\<close>

theorem added_found:
  assumes d: "dir_calm s (i_ino dir) n" and n: "n = i_size dir div 4096"
    and nm: "name \<noteq> []" "length name < 256" "0 < ino" "ino < 2 ^ 64"
    and room: "i < n" "k \<in> set (entry_offsets (pm s) (file_block s (pi_addr s (i_ino dir)) i) 0)"
      "has_room (pm s) (file_block s (pi_addr s (i_ino dir)) i) (PMFS_DIR_REC_LEN (length name)) k"
    and u: "distinct (map fst (dir_names s (i_ino dir) n))" "name \<notin> fst ` set (dir_names s (i_ino dir) n)"
  shows "\<exists>dir' t J' de start'. pmfs_add_entry K A E J s dir name (Some ino) now = Some (Inr (), dir', t, J') \<and>
    pmfs_inode_by_name A t dir' start name = Some (ino, de, start', t)"
proof -
  let ?d = "dir\<lparr>i_mtime := now, i_ctime := now\<rparr>"
  from add_names [OF d n nm room, of K A E J now] obtain t J' xs ys where
    t: "pmfs_add_entry K A E J s dir name (Some ino) now = Some (Inr (), ?d, t, J')" "dir_calm t (i_ino ?d) n"
      "dir_names s (i_ino dir) n = xs @ ys" "dir_names t (i_ino ?d) n = xs @ (name, ino) # ys" by auto
  have dt: "distinct (map fst (dir_names t (i_ino ?d) n))" using u unfolding t(3,4) by auto
  then have mp: "map_of (dir_names t (i_ino ?d) n) name = Some ino" by (rule map_of_is_SomeI) (use t(4) in simp)
  have "0 < n" using room(1) by simp
  with lookup_names [OF t(2) _ _ _ dt, of name A start] n nm(2) mp
  have "\<exists>de start'. pmfs_inode_by_name A t ?d start name = Some (ino, de, start', t)" by simp
  with t(1) show ?thesis by blast
qed

theorem removed_gone:
  assumes d: "dir_calm s (i_ino dir) n" and n: "n = i_size dir div 4096" and nm: "name \<noteq> []" "length name < 256"
    and u: "distinct (map fst (dir_names s (i_ino dir) n))" "name \<in> fst ` set (dir_names s (i_ino dir) n)"
  shows "\<exists>dir' t J' de start'. pmfs_remove_entry A E J s dir name now = Some (Inr (), dir', t, J') \<and>
    pmfs_inode_by_name A t dir' start name = Some (0, de, start', t)"
proof -
  let ?d = "dir\<lparr>i_mtime := now, i_ctime := now\<rparr>"
  from remove_names [OF d n nm(1), of A E J now] u(2) obtain t J' xs v ys where
    t: "pmfs_remove_entry A E J s dir name now = Some (Inr (), ?d, t, J')" "dir_calm t (i_ino ?d) n"
      "dir_names s (i_ino dir) n = xs @ (name, v) # ys" "dir_names t (i_ino ?d) n = xs @ ys" by auto
  have dt: "distinct (map fst (dir_names t (i_ino ?d) n))" using u(1) unfolding t(3,4) by auto
  have "map_of (dir_names t (i_ino ?d) n) name = None" using u(1) unfolding t(3,4) by (auto simp: map_of_eq_None_iff)
  moreover have "0 < n" using u(2) by (auto simp: dir_names_def)
  ultimately have "\<exists>de start'. pmfs_inode_by_name A t ?d start name = Some (0, de, start', t)"
    using lookup_names [OF t(2) _ _ _ dt, of name A start] n nm(2) by simp
  with t(1) show ?thesis by blast
qed

end
