(* ===== verification/NameFile.thy ===== *)
theory NameFile
  imports DirFile JournalTx
begin

text \<open>
  The steps of unlinking a name put together: the transaction, the directory's blocks, the truncate list
  and the link count do not get in each other's way.  In undo mode logging does not touch what is logged.
\<close>

section \<open>Logging in undo mode\<close>

definition log_only :: "(jstate \<Rightarrow> jstate) \<Rightarrow> bool" where
  "log_only f \<longleftrightarrow> (\<forall>s. \<not> redo_log s \<longrightarrow> jmem (f s) = jmem s \<and> \<not> redo_log (f s))"

lemma log_only_run: "\<forall>f\<in>set fs. log_only f \<Longrightarrow> log_only (run_stores fs)"
  by (induction fs) (simp_all add: log_only_def)

lemma log_only_entry: "log_only (set_entry le f)" "log_only (\<lambda>s. if b then set_entry le (g s) s else s)" "log_only (valid_store tx le)"
  by (simp_all add: log_only_def set_entry_def valid_store_def)

lemma log_only_stores: "\<forall>f\<in>set (fst (addlog_stores E False tx ls addr len type i n)). log_only f"
proof (induction E "False" tx ls addr len type i n rule: addlog_stores.induct)
  case (1 E tx ls addr len type i n)
  have e: "\<forall>f\<in>set (entry_stores tx le a b c d e). log_only f" for le a b c d e
    by (simp add: entry_stores_def log_only_entry)
  have c: "\<forall>f\<in>set (commit_stores E tx' le False). log_only f" for tx' le
    by (simp add: commit_stores_def Let_def log_only_entry) (simp add: log_only_def flush_transaction_undo)
  show ?case
    using 1 [OF _ refl refl refl refl] e c log_only_entry(3)
    by (subst addlog_stores.simps) (auto simp: Let_def split_beta)
qed

lemma add_logentry_only: "log_only (\<lambda>s. snd (pmfs_add_logentry E tx addr len type s))"
  unfolding log_only_def
proof (intro allI impI)
  fix s :: jstate assume u: "\<not> redo_log s"
  show "jmem (snd (pmfs_add_logentry E tx addr len type s)) = jmem s \<and> \<not> redo_log (snd (pmfs_add_logentry E tx addr len type s))"
    using log_only_run [OF log_only_stores, of E tx "if len \<noteq> 0 then blockoff_of E addr else 0" addr len type 0 "addlog_entries len type"] u
    by (simp add: pmfs_add_logentry_def Let_def split_beta log_only_def)
qed

lemma tx_log_undo: "\<not> redo_log (snd J) \<Longrightarrow> \<not> redo_log (snd (tx_log E s off len J))"
proof -
  assume u: "\<not> redo_log (snd J)"
  obtain tx j where J: "J = (tx, j)" by force
  have "\<not> redo_log (snd (pmfs_add_logentry E tx off len LE_DATA (j\<lparr>jmem := pm s\<rparr>)))"
    using add_logentry_only [of E tx off len LE_DATA, unfolded log_only_def, rule_format, of "j\<lparr>jmem := pm s\<rparr>"] u by (simp add: J)
  then show ?thesis by (auto simp: J tx_log_def split: prod.split sum.split)
qed

lemma tx_commit_undo: "\<not> redo_log (snd J) \<Longrightarrow> fst (tx_commit E s J) = s"
proof -
  assume u: "\<not> redo_log (snd J)"
  obtain tx j where J: "J = (tx, j)" by force
  have "jmem (pmfs_commit_transaction E tx (j\<lparr>jmem := pm s\<rparr>)) = pm s"
    using add_logentry_only [of E tx 0 0 LE_COMMIT, unfolded log_only_def, rule_format, of "j\<lparr>jmem := pm s\<rparr>"] u
    by (simp add: J pmfs_commit_transaction_def)
  then show ?thesis by (simp add: J tx_commit_def Let_def)
qed

definition in_undo :: "tx_ctx \<Rightarrow> bool" where
  "in_undo J \<longleftrightarrow> (case J of None \<Rightarrow> False | Some (tx, j) \<Rightarrow> \<not> redo_log j)"

lemma in_undo_log: "in_undo J \<Longrightarrow> in_undo (log_off E J s off len)"
  using tx_log_undo by (auto simp: in_undo_def log_off_def split: option.splits prod.splits) (metis snd_conv)

lemma in_undo_commit: "in_undo J \<Longrightarrow> \<exists>j'. end_tx tx_commit E s J trunc = Some (s, j', trunc)"
  using tx_commit_undo by (auto simp: in_undo_def end_tx_def split: option.splits prod.splits) (metis fst_conv snd_conv)

lemma logged_undo: "logged E J J' \<Longrightarrow> in_undo J \<Longrightarrow> in_undo J'"
  by (induction rule: logged.induct) (simp_all add: in_undo_log)

text \<open>A transaction that has started and logged an inode.\<close>

lemma in_undo_start: "\<not> redo_log j \<Longrightarrow> in_undo (Some (tx_log E s off len (tx, j)))"
  using tx_log_undo [of "(tx, j)" E s off len] by (simp add: in_undo_def split_beta)

section \<open>The directory, the items and the head do not overlap\<close>

lemma entry_data_fixed: "entry_frame s ino t \<Longrightarrow> data_fixed s ino t"
  by (fastforce simp: entry_frame_def data_fixed_def)

lemma data_apart:
  assumes c: "calm s ino" and x: "page_of x \<in> file_blocks s (pi_addr s ino)"
  shows "table_ino s i \<Longrightarrow> \<not> (pi_addr s i \<le> x \<and> x < pi_addr s i + 128)"
    "\<not> (pmfs_get_inode_table s \<le> x \<and> x < pmfs_get_inode_table s + 128)"
proof -
  let ?T = "pmfs_get_inode_table s"
  note D = calmD [OF c]
  have q: "page_of x \<notin> table_tree s" "page_of x \<noteq> page_of ?T" using c x by (auto simp: calm_def)
  have T: "?T mod 4096 + 128 \<le> 4096" using D(1) by (auto simp: table_ok_def Let_def)
  show "\<not> (?T \<le> x \<and> x < ?T + 128)" using page_of_inode [OF T] q(2) by blast
  assume i: "table_ino s i"
  note A = pi_addr_block [OF D(1) i]
  have "page_of (pi_addr s i) \<in> table_tree s" using A(1) tree_nodes_sub(2) by (auto simp: Let_def)
  with page_of_inode [OF A(2)] q(1) show "\<not> (pi_addr s i \<le> x \<and> x < pi_addr s i + 128)" by metis
qed

lemma trunc_keep:
  assumes ok: "trunc_ok s is" and f: "table_fixed s t"
    and h: "\<forall>x. truncate_head s + 8 \<le> x \<and> x < truncate_head s + 16 \<longrightarrow> pm t x = pm s x"
    and n: "\<forall>i x. table_ino s i \<and> pi_addr s i + 88 \<le> x \<and> x < pi_addr s i + 96 \<longrightarrow> pm t x = pm s x"
  shows "trunc_ok t is"
proof -
  have tab: "table_ok s" and ti: "\<forall>i\<in>set is. table_ino s i" using ok by (auto simp: trunc_ok_def)
  note K = table_keep [OF tab f]
  have "le_load 8 (pm t) (truncate_head s + 8) = le_load 8 (pm s) (truncate_head s + 8)"
    by (rule le_load_cong) (use h in auto)
  moreover have "le_load 8 (pm t) (pi_addr s i + 88) = le_load 8 (pm s) (pi_addr s i + 88)" if i: "table_ino s i" for i
  proof (rule le_load_cong)
    fix x assume "pi_addr s i + 88 \<le> x" "x < pi_addr s i + 88 + 8"
    with n [rule_format, of i x] i show "pm t x = pm s x" by simp
  qed
  ultimately have "chain t (truncate_head s + 8) is = chain s (truncate_head s + 8) is"
    by (intro chain_cong) (use ti K(4) in auto)
  with ok K show ?thesis by (auto simp: trunc_ok_def)
qed

lemma entry_trunc:
  assumes c: "calm s ino" and e: "entry_frame s ino t" and ok: "trunc_ok s is"
  shows "trunc_ok t is"
proof (rule trunc_keep [OF ok data_table_fixed [OF c entry_data_fixed [OF e]]]; intro allI impI; rule ccontr)
  have ch: "page_of x \<in> file_blocks s (pi_addr s ino) \<or> pi_addr s ino + 24 \<le> x \<and> x < pi_addr s ino + 32" if "pm t x \<noteq> pm s x" for x
    using e that file_data_sub [of s "pi_addr s ino"] by (auto simp: entry_frame_def)
  note D = calmD [OF c]
  show False if "truncate_head s + 8 \<le> x \<and> x < truncate_head s + 16" "pm t x \<noteq> pm s x" for x
    using ch [OF that(2)] that(1) data_apart(2) [OF c, of x] head_apart [OF D(1,2)] by (auto simp: truncate_head_def)
  show False if i: "table_ino s i \<and> pi_addr s i + 88 \<le> x \<and> x < pi_addr s i + 96" and ne: "pm t x \<noteq> pm s x" for i x
    using ch [OF ne] i data_apart(1) [OF c, of x i] items_apart [OF D(1) _ D(2), of i] by (cases "i = ino") auto
qed

text \<open>Stores into an inode behind its first 16 bytes, and into the head of the truncate list.\<close>

definition inode_frame :: "wpmfs \<Rightarrow> nat \<Rightarrow> wpmfs \<Rightarrow> bool" where
  "inode_frame s i t \<longleftrightarrow> kernel_same s t \<and> page_private t = page_private s \<and>
     (\<forall>x. pm t x \<noteq> pm s x \<longrightarrow> pi_addr s i + 16 \<le> x \<and> x < pi_addr s i + 128 \<or> truncate_head s + 8 \<le> x \<and> x < truncate_head s + 16)"

lemma inode_table_fixed:
  assumes tab: "table_ok s" and i: "table_ino s i" and f: "inode_frame s i t"
  shows "table_fixed s t"
proof -
  define prot where "prot x \<longleftrightarrow> (let T = pmfs_get_inode_table s in page_of x \<in> tree_nodes (pi_height s T) (pm s) (pi_root s T) \<or>
    T \<le> x \<and> x < T + 80 \<or> va_off s (pmfs_get_super s + 40) \<le> x \<and> x < va_off s (pmfs_get_super s + 40) + 8)" for x
  have hit: "\<not> prot x" if "table_fixed s (PM_EQU 1 s x (unat (pm s x) + 1))" for x
  proof
    assume "prot x"
    with that have "pm (PM_EQU 1 s x (unat (pm s x) + 1)) x = pm s x" by (auto simp: table_fixed_def prot_def Let_def)
    then have "(of_nat (unat (pm s x) + 1) :: 8 word) = pm s x" by (simp add: le_store_def)
    then show False by simp
  qed
  have "\<not> prot x" if ne: "pm t x \<noteq> pm s x" for x
  proof -
    from f ne consider "pi_addr s i + 16 \<le> x" "x < pi_addr s i + 128" | "truncate_head s + 8 \<le> x" "x < truncate_head s + 16"
      by (auto simp: inode_frame_def)
    then show ?thesis
    proof cases
      case 1
      then show ?thesis using hit [of x] item_fixed [OF tab i, of "x - pi_addr s i" 1] by simp
    next
      case 2
      have "\<not> (truncate_head s + 8 \<le> x \<and> x < truncate_head s + 16 \<and> prot x)"
      proof
        assume a: "truncate_head s + 8 \<le> x \<and> x < truncate_head s + 16 \<and> prot x"
        define k where "k = x - truncate_head s - 8"
        then have x: "x = truncate_head s + 8 + k" "k < 8" using a by auto
        define y where "y = (unat (pm s x) + 1) * 256 ^ k"
        have "pm (PM_EQU 8 s (truncate_head s + 8) y) x = pm s x"
          using head_fixed [OF tab, of 8 y] a by (auto simp: table_fixed_def prot_def Let_def)
        then have "(of_nat (y div 256 ^ k) :: 8 word) = pm s x" using x by (simp add: le_store_def)
        then show False by (simp add: y_def)
      qed
      with 2 show ?thesis by blast
    qed
  qed
  with f show ?thesis unfolding table_fixed_def inode_frame_def prot_def Let_def by blast
qed

lemma inode_frame_dir:
  assumes d: "dir_calm s dino n" and i: "table_ino s i" and f: "inode_frame s i t"
  shows "dir_calm t dino n" "dir_names t dino n = dir_names s dino n"
proof -
  let ?pi = "pi_addr s dino"
  note D = dir_calmD [OF d] and C = calmD [OF dir_calmD(1) [OF d]]
  have ch: "pi_addr s i + 16 \<le> x \<and> x < pi_addr s i + 128 \<or> truncate_head s + 8 \<le> x \<and> x < truncate_head s + 16" if "pm t x \<noteq> pm s x" for x
    using f that by (simp add: inode_frame_def)
  have blk: "pm t x = pm s x" if "page_of x \<in> file_blocks s ?pi" for x
    using ch [of x] data_apart(1) [OF D(1) that i] data_apart(2) [OF D(1) that] by (fastforce simp: truncate_head_def)
  have fld: "pm t x = pm s x" if "?pi \<le> x" "x < ?pi + 16" for x
    by (rule ccontr) (use ch [of x] that head_apart [OF C(1,2)] items_apart [OF C(1) i C(2)] in \<open>cases "i = dino"; force\<close>)
  have nd: "pm t x = pm s x" if "pi_root s ?pi \<noteq> 0" "page_of x \<in> tree_nodes (pi_height s ?pi) (pm s) (pi_root s ?pi)" for x
    using blk [of x] that subsetD [OF tree_nodes_sub(1) that(2)] by (simp add: file_blocks_def rblocks_def)
  note G = calm_frame [OF D(1) inode_table_fixed [OF C(1) i f] fld nd]
  have cal: "calm t dino" and pi: "pi_addr t dino = ?pi" by (rule G; assumption)+
  have fb: "file_block t ?pi m = file_block s ?pi m" for m by (rule G; assumption)
  have b: "block_wf (pm t) (file_block s ?pi j) 0 \<and> block_names (pm t) (file_block s ?pi j) 0 = block_names (pm s) (file_block s ?pi j) 0"
    if j: "j < n" for j
  proof (rule block_same [OF _ D(3) [OF j]])
    note B = file_block_in [OF calmD(3) [OF D(1)] D(2) [OF j]]
    show "same_on (file_block s ?pi j + 0) (file_block s ?pi j + 4096) (pm s) (pm t)"
    proof (intro allI impI)
      fix x assume "file_block s ?pi j + 0 \<le> x" "x < file_block s ?pi j + 4096"
      then have "page_of x = file_block s ?pi j" by (intro page_of_in) (use B(3) in \<open>simp_all add: block_ptr_def\<close>)
      then show "pm t x = pm s x" using blk B(2) by simp
    qed
  qed
  show "dir_calm t dino n" using cal D(2) b by (simp add: dir_calm_def pi fb)
  show "dir_names t dino n = dir_names s dino n" using b by (auto simp: dir_names_def dir_block_names_def pi fb intro!: arg_cong [where f = concat])
qed

text \<open>Stores into the fields of an inode before its item.\<close>

lemma field_store:
  assumes ok: "trunc_ok s is" and i: "table_ino s i" and k: "16 \<le> k" "k + n \<le> 80"
  shows "trunc_ok (PM_EQU n s (pi_addr s i + k) y) is" "inode_frame s i (PM_EQU n s (pi_addr s i + k) y)"
    "pi_addr (PM_EQU n s (pi_addr s i + k) y) i = pi_addr s i" "table_ino (PM_EQU n s (pi_addr s i + k) y) i"
proof -
  let ?t = "PM_EQU n s (pi_addr s i + k) y"
  have tab: "table_ok s" using ok by (simp add: trunc_ok_def)
  have ch: "pi_addr s i + 16 \<le> x \<and> x < pi_addr s i + 80" if "pm ?t x \<noteq> pm s x" for x
    using that k by (auto simp: le_store_def split: if_splits)
  then show fr: "inode_frame s i ?t" by (force simp: inode_frame_def)
  note F = inode_table_fixed [OF tab i fr]
  note K = table_keep [OF tab F]
  show "pi_addr ?t i = pi_addr s i" "table_ino ?t i" using K i by simp_all
  show "trunc_ok ?t is"
  proof (rule trunc_keep [OF ok F]; intro allI impI; rule ccontr)
    show False if "truncate_head s + 8 \<le> x \<and> x < truncate_head s + 16" "pm ?t x \<noteq> pm s x" for x
      using ch [OF that(2)] that(1) head_apart [OF tab i] by auto
    show False if "table_ino s j \<and> pi_addr s j + 88 \<le> x \<and> x < pi_addr s j + 96" "pm ?t x \<noteq> pm s x" for j x
      using ch [OF that(2)] that(1) items_apart [OF tab _ i, of j] by (cases "j = i") auto
  qed
qed

lemma truncate_add_frame:
  assumes ok: "trunc_ok s is" and i: "table_ino s ino" "ino < 2 ^ 64"
  shows "\<exists>t. pmfs_truncate_add A s is ino sz = Some (t, List.insert ino is) \<and> trunc_ok t (List.insert ino is) \<and> inode_frame s ino t"
proof (cases "ino \<in> set is")
  case True
  with ok show ?thesis by (simp add: pmfs_truncate_add_def inode_frame_def)
next
  case False
  have tab: "table_ok s" using ok by (simp add: trunc_ok_def)
  from truncate_add_ok [OF ok i False, of A sz] obtain t where
    t: "pmfs_truncate_add A s is ino sz = Some (t, ino # is)" "trunc_ok t (ino # is)" by blast
  have e: "t = PM_EQU 8 (PM_EQU 8 (PM_EQU 8 s (pi_addr s ino + 80 + 8) (li_next s (truncate_head s))) (pi_addr s ino + 80) sz) (truncate_head s + 8) ino"
    using t(1) False table_inode [OF tab i(1), of A] by (simp add: pmfs_truncate_add_def truncate_item_def)
  have "kernel_same s t \<and> page_private t = page_private s" unfolding e
    by (simp add: kernel_same_def PM_EQU_def)
  then have "inode_frame s ino t" unfolding inode_frame_def by (auto simp: e le_store_def)
  with t False show ?thesis by simp
qed

section \<open>Unlinking\<close>

theorem unlink_names:
  assumes d: "dir_calm s (i_ino dir) n" and n: "n = i_size dir div 4096" and nm: "name \<noteq> []" "name \<in> fst ` set (dir_names s (i_ino dir) n)"
    and i: "table_ino s (i_ino inode)" "i_ino inode < 2 ^ 64" "0 < i_nlink inode" "i_nlink inode < 2 ^ 16" and ok: "trunc_ok s trunc"
    and tx: "tx_start E (MAX_INODE_LENTRIES * 2 + MAX_DIRENTRY_LENTRIES) s j = Some (Inr tx, j1)" "\<not> redo_log j1"
  shows "\<exists>t j2 trunc'. pmfs_unlink A E V (s, j, trunc) dir name inode = Some (Inr (), dir\<lparr>i_mtime := v_now V, i_ctime := v_now V\<rparr>,
      inode\<lparr>i_ctime := v_now V, i_nlink := i_nlink inode - 1\<rparr>, t, j2, trunc') \<and>
    dir_calm t (i_ino dir) n \<and> (\<exists>xs v ys. dir_names s (i_ino dir) n = xs @ (name, v) # ys \<and> dir_names t (i_ino dir) n = xs @ ys \<and> name \<notin> fst ` set xs) \<and>
    pi_links_count t (pi_addr s (i_ino inode)) = i_nlink inode - 1 \<and>
    trunc' = (if i_nlink inode = 1 then List.insert (i_ino inode) trunc else trunc) \<and> trunc_ok t trunc'"
proof -
  let ?i = "i_ino inode" and ?d = "i_ino dir" and ?now = "v_now V"
  let ?p = "pi_addr s ?i"
  note C = calmD [OF dir_calmD(1) [OF d]]
  define J where "J = Some (tx_log E s ?p MAX_DATA_PER_LENTRY (tx, j1))"
  have J: "in_undo J" unfolding J_def by (rule in_undo_start [OF tx(2)])
  from remove_names [OF d n nm(1), of A E J ?now] nm(2) obtain s2 J2 xs v ys where
    r: "pmfs_remove_entry A E J s dir name ?now = Some (Inr (), dir\<lparr>i_mtime := ?now, i_ctime := ?now\<rparr>, s2, J2)"
      "dir_calm s2 ?d n" "entry_frame s ?d s2" "dir_names s ?d n = xs @ (name, v) # ys" "dir_names s2 ?d n = xs @ ys" "name \<notin> fst ` set xs" "logged E J J2"
    by auto
  have J2: "in_undo J2" by (rule logged_undo [OF r(7) J])
  note K2 = table_keep [OF C(1) data_table_fixed [OF dir_calmD(1) [OF d] entry_data_fixed [OF r(3)]]]
  have ok2: "trunc_ok s2 trunc" by (rule entry_trunc [OF dir_calmD(1) [OF d] r(3) ok])
  have i2: "table_ino s2 ?i" "pi_addr s2 ?i = ?p" using K2 i(1) by simp_all
  define trunc' where "trunc' = (if i_nlink inode = 1 then List.insert ?i trunc else trunc)"
  obtain s3 where s3: "(if i_nlink inode = 1 then pmfs_truncate_add A s2 trunc ?i (i_size inode) else Some (s2, trunc)) = Some (s3, trunc')"
    "trunc_ok s3 trunc'" "inode_frame s2 ?i s3"
  proof (cases "i_nlink inode = 1")
    case True
    from truncate_add_frame [OF ok2 i2(1) i(2), of A "i_size inode"] True that show ?thesis by (auto simp: trunc'_def)
  next
    case False
    have "inode_frame s2 ?i s2" by (simp add: inode_frame_def)
    with False ok2 that show ?thesis by (simp add: trunc'_def)
  qed
  have tab2: "table_ok s2" using ok2 by (simp add: trunc_ok_def)
  note D3 = inode_frame_dir [OF r(2) i2(1) s3(3)] and K3 = table_keep [OF tab2 inode_table_fixed [OF tab2 i2(1) s3(3)]]
  have i3: "table_ino s3 ?i" "pi_addr s3 ?i = ?p" using K3 i2 by simp_all
  define s4 where "s4 = PM_EQU 2 s3 (?p + 38) (i_nlink inode - 1)"
  have F4: "trunc_ok s4 trunc'" "inode_frame s3 ?i s4" "pi_addr s4 ?i = ?p" "table_ino s4 ?i"
    using field_store [OF s3(2) i3(1), of 38 2 "i_nlink inode - 1"] by (simp_all add: s4_def i3(2))
  note D4 = inode_frame_dir [OF D3(1) i3(1) F4(2)]
  define t where "t = PM_EQU 4 s4 (?p + 24) ?now"
  have F5: "trunc_ok t trunc'" "inode_frame s4 ?i t"
    using field_store [OF F4(1) F4(4), of 24 4 ?now] by (simp_all add: t_def F4(3))
  note D5 = inode_frame_dir [OF D4(1) F4(4) F5(2)]
  from in_undo_commit [OF J2, of E t trunc'] obtain j2 where e: "end_tx tx_commit E t J2 trunc' = Some (t, j2, trunc')" by blast
  have lk: "pi_links_count t ?p = i_nlink inode - 1"
    using i(4) by (simp add: pi_links_count_def t_def s4_def le_load_store_other)
  have te: "PM_EQU 4 (PM_EQU 2 s3 (?p + 38) (i_nlink inode - 1)) (?p + 24) ?now = t" by (simp add: t_def s4_def)
  have "pmfs_unlink A E V (s, j, trunc) dir name inode = Some (Inr (), dir\<lparr>i_mtime := ?now, i_ctime := ?now\<rparr>,
      inode\<lparr>i_ctime := ?now, i_nlink := i_nlink inode - 1\<rparr>, t, j2, trunc')"
    using table_get [OF C(1) i(1), of A] tx(1) r(1) s3(1) te e i(3)
    by (simp add: pmfs_unlink_def Let_def J_def [symmetric])
  with D5 D4 D3 r(4-6) lk F5(1) show ?thesis by (auto simp: trunc'_def)
qed

section \<open>Linking\<close>

theorem link_names:
  assumes d: "dir_calm s (i_ino dir) n" and n: "n = i_size dir div 4096"
    and nm: "name \<noteq> []" "length name < 256" "0 < i_ino inode" "i_ino inode < 2 ^ 64"
    and room: "b < n" "k \<in> set (entry_offsets (pm s) (file_block s (pi_addr s (i_ino dir)) b) 0)"
      "has_room (pm s) (file_block s (pi_addr s (i_ino dir)) b) (PMFS_DIR_REC_LEN (length name)) k"
    and i: "table_ino s (i_ino inode)" "i_nlink inode < PMFS_LINK_MAX" and ok: "trunc_ok s trunc"
    and tx: "tx_start E (MAX_INODE_LENTRIES * 2 + MAX_DIRENTRY_LENTRIES) s j = Some (Inr tx, j1)" "\<not> redo_log j1"
  shows "\<exists>t j2. pmfs_link K A E V (s, j, trunc) inode dir name = Some (Inr (), inode\<lparr>i_ctime := v_now V, i_nlink := i_nlink inode + 1\<rparr>,
      dir\<lparr>i_mtime := v_now V, i_ctime := v_now V\<rparr>, t, j2, trunc) \<and>
    dir_calm t (i_ino dir) n \<and> (\<exists>xs ys. dir_names s (i_ino dir) n = xs @ ys \<and> dir_names t (i_ino dir) n = xs @ (name, i_ino inode) # ys) \<and>
    pi_links_count t (pi_addr s (i_ino inode)) = i_nlink inode + 1 \<and> trunc_ok t trunc"
proof -
  let ?i = "i_ino inode" and ?d = "i_ino dir" and ?now = "v_now V"
  let ?p = "pi_addr s ?i"
  note C = calmD [OF dir_calmD(1) [OF d]]
  define J where "J = Some (tx_log E s ?p MAX_DATA_PER_LENTRY (tx, j1))"
  have J: "in_undo J" unfolding J_def by (rule in_undo_start [OF tx(2)])
  from add_names [OF d n nm room, of K A E J ?now] obtain s2 J2 xs ys where
    r: "pmfs_add_entry K A E J s dir name (Some ?i) ?now = Some (Inr (), dir\<lparr>i_mtime := ?now, i_ctime := ?now\<rparr>, s2, J2)"
      "dir_calm s2 ?d n" "entry_frame s ?d s2" "logged E J J2" "dir_names s ?d n = xs @ ys" "dir_names s2 ?d n = xs @ (name, ?i) # ys"
    by auto
  have J2: "in_undo J2" by (rule logged_undo [OF r(4) J])
  note K2 = table_keep [OF C(1) data_table_fixed [OF dir_calmD(1) [OF d] entry_data_fixed [OF r(3)]]]
  have ok2: "trunc_ok s2 trunc" by (rule entry_trunc [OF dir_calmD(1) [OF d] r(3) ok])
  have i2: "table_ino s2 ?i" "pi_addr s2 ?i = ?p" using K2 i(1) by simp_all
  define s3 where "s3 = PM_EQU 4 s2 (?p + 24) ?now"
  have F3: "trunc_ok s3 trunc" "inode_frame s2 ?i s3" "pi_addr s3 ?i = ?p" "table_ino s3 ?i"
    using field_store [OF ok2 i2(1), of 24 4 ?now] by (simp_all add: s3_def i2(2))
  note D3 = inode_frame_dir [OF r(2) i2(1) F3(2)]
  define t where "t = PM_EQU 2 s3 (?p + 38) (i_nlink inode + 1)"
  have F4: "trunc_ok t trunc" "inode_frame s3 ?i t"
    using field_store [OF F3(1) F3(4), of 38 2 "i_nlink inode + 1"] by (simp_all add: t_def F3(3))
  note D4 = inode_frame_dir [OF D3(1) F3(4) F4(2)]
  from in_undo_commit [OF J2, of E t trunc] obtain j2 where e: "end_tx tx_commit E t J2 trunc = Some (t, j2, trunc)" by blast
  have lk: "pi_links_count t ?p = i_nlink inode + 1"
    using i(2) by (simp add: pi_links_count_def t_def)
  have te: "PM_EQU 2 (PM_EQU 4 s2 (?p + 24) ?now) (?p + 38) (i_nlink inode + 1) = t" by (simp add: t_def s3_def)
  have "pmfs_link K A E V (s, j, trunc) inode dir name = Some (Inr (), inode\<lparr>i_ctime := ?now, i_nlink := i_nlink inode + 1\<rparr>,
      dir\<lparr>i_mtime := ?now, i_ctime := ?now\<rparr>, t, j2, trunc)"
    using table_get [OF C(1) i(1), of A] tx(1) r(1) te e i(2)
    by (simp add: pmfs_link_def Let_def J_def [symmetric])
  with D4 D3 r(5,6) lk F4(1) show ?thesis by auto
qed

end
