(* ===== verification/MigrateFile.thy ===== *)
theory MigrateFile
  imports FileView WearLevel
begin

text \<open>
  The migration of a mapped page (\<^theory_text>\<open>WearLevel\<close>) seen from its file, under the first-fit allocator: a file of one
  block keeps its block, which the allocator can hand out again afterwards.
\<close>

lemma pass_mapping_same:
  "alloc_same s (pass_mapping p q s)" "kernel_same s (pass_mapping p q s)" "page_private (pass_mapping p q s) = page_private s"
  by (simp_all add: pass_mapping_def alloc_same_def kernel_same_def)

theorem rmap_frees_live:
  assumes c: "calm s ino" and h: "pi_height s (pi_addr s ino) = 0" "pi_root s (pi_addr s ino) = c * 4096" "c \<noteq> 0"
    and m: "page_mapping s c = Some ino" "igrab ino" "\<And>k. entry_free ino k" "4096 dvd phys_addr s"
    and l: "list_inv s" "kmem_ok s" "list_may_free s c 1" "pmfs_new_block s 0 False = (Inr b, s1)"
  shows "\<exists>t. level_type_rmap pmfs_allocator igrab entry_free s (phys_addr s div 4096 + c) = Some t \<and> c \<in> list_avail t \<and>
    file_block t (pi_addr s ino) 0 = c * 4096"
proof -
  let ?pi = "pi_addr s ino"
  let ?s2 = "pass_mapping c b s1"
  let ?t = "pmfs_free_block ?s2 c 0"
  have f: "kernel_same s s1" "page_private s1 = page_private s" "pm s1 = pm s"
    using l(4) by (auto simp: pmfs_new_block_def kernel_same_def Let_def split: option.splits)
  have d2: "data_fixed s ino ?s2" using f by (simp add: data_fixed_def kernel_same_def)
  note K2 = calm_keep [OF c d2]
  have N: "list_inv s1" "kmem_ok s1" "list_may_free s1 c 1"
    using pmfs_alloc.new_ok [OF _ l(4)] pmfs_alloc.new_keeps [OF _ l(4)] l by auto
  have run: "level_type_rmap pmfs_allocator igrab entry_free s (phys_addr s div 4096 + c) = af_free_block pmfs_allocator ?s2 c 0"
  proof (rule rmap_one_block [where ino = ino])
    show "af_new_block pmfs_allocator s 0 False = Some (Inr b, s1)" using l(4) by (simp add: pmfs_allocator_def)
    show "page_mapping s c = Some ino" "igrab ino" "entry_free ino k" "4096 dvd phys_addr s" for k by (rule m)+
    show "phys_addr s1 = phys_addr s" using f(1) by (simp add: kernel_same_def)
    show "pmfs_get_inode pmfs_allocator ?s2 ino = Some (Some ?pi, ?s2)"
      using table_get [OF calmD(1,2) [OF K2(1)]] K2(2) by simp
    show "pi_height s1 ?pi = 0" using h(1) by (simp add: pi_height_def f(3))
  qed
  have inv2: "list_inv ?s2 \<and> kmem_ok ?s2" "list_may_free ?s2 c 1"
    using pmfs_tree.contract_cong [of s1 ?s2 c] pass_mapping_same(1) N by auto
  have av: "c \<in> list_avail ?t" using pmfs_alloc.free_exact [OF inv2] by simp
  have d3: "data_fixed s ino ?t" using f pmfs_free_block_frame [of ?s2 c] by (simp add: data_fixed_def kernel_same_def)
  have "file_block ?t ?pi 0 = c * 4096"
    using calm_keep(3) [OF c d3, of 0] h by (simp add: file_block_def vlookup_def)
  with run av show ?thesis by (simp add: pmfs_allocator_def)
qed

end
