(* ===== verification/Spec2Isabelle.thy ===== *)
theory Spec2Isabelle
  imports WearVmap JournalTx MountTotal MountMap DirSpec NameOps TruncList InodeFields SuperCheck Requests WriteProtect DirFile NameFile MigrateFile
begin

text \<open>
  A model of WPMFS, a wear-aware persistent-memory file system for the Linux kernel derived from PMFS:
  the C files directly under \<^verbatim>\<open>src/\<close>.  (\<^verbatim>\<open>src/workloads\<close> holds third-party benchmark programs.)

  \<^bold>\<open>How the program is put together.\<close>  The device is an array of bytes mapped into the kernel.  A write
  through the macros of \<^verbatim>\<open>pm_instr.h\<close> is charged to a per-page counter (\<^verbatim>\<open>wpmfs_wt.h\<close>); a counter that
  passes a multiple of the threshold queues the page, and the wear-levelling worker (\<^verbatim>\<open>wpmfs_wl.c\<close>) moves
  what the page holds to another block, or marks the page tired so that the next lookup moves it.  What
  the file system itself keeps (super block, journal, inode table) lies in two vmalloc windows, whose
  mapping tables are on the device (\<^verbatim>\<open>wpmfs_balloc.c\<close>), so that their pages can move too.  Blocks come from
  one of two allocators behind the table of functions \<^verbatim>\<open>allocator_factory\<close>: the block list of PMFS, or
  the wear-aware bins.  Files are trees of blocks (\<^verbatim>\<open>inode.c\<close>), metadata changes are logged in an undo
  journal (\<^verbatim>\<open>journal.c\<close>), and the allocators' state is rebuilt at mount by a scan (\<^verbatim>\<open>wpmfs_bbuild.c\<close>).

  \<^bold>\<open>Theories.\<close>
  \<^item> \<^theory_text>\<open>Prelude\<close>: error numbers, page and block constants, C idioms, lists; \<^theory_text>\<open>PmState\<close>: the record
    \<open>wpmfs\<close> of \<^verbatim>\<open>struct pmfs_sb_info\<close>, \<^verbatim>\<open>struct wpmfs_page\<close> marks and the bytes of the device (\<open>pm\<close>);
    \<^theory_text>\<open>PmBytes\<close>: little-endian fields and \<^verbatim>\<open>PM_EQU\<close>, \<^verbatim>\<open>PM_MEMSET\<close>, \<^verbatim>\<open>PM_MEMCPY\<close> (\<^verbatim>\<open>pm_instr.h\<close>).
  \<^item> \<^theory_text>\<open>WriteTrack\<close>: counters, thresholds and the queue (\<^verbatim>\<open>wpmfs_wt.h\<close>, \<^verbatim>\<open>wpmfs_wt.c\<close>).
  \<^item> \<^theory_text>\<open>AllocInterface\<close>: the contract of an allocator as locales; \<^theory_text>\<open>BallocBins\<close>, \<^theory_text>\<open>BallocList\<close>: the two
    allocators (\<^verbatim>\<open>wpmfs_balloc.c\<close>), each an interpretation of it; \<^theory_text>\<open>AllocFactory\<close>: the function tables and
    \<^verbatim>\<open>wpmfs_replace_tired_page\<close>.
  \<^item> \<^theory_text>\<open>VMap\<close>: block offsets, the windows, their tables and their recovery at mount; \<^theory_text>\<open>WearVmap\<close>: migration
    of a page of a window and the mark of a stranded page (\<^verbatim>\<open>wpmfs_wl.c\<close>).
  \<^item> \<^theory_text>\<open>Journal\<close>: the log (\<^verbatim>\<open>journal.c\<close>); \<^theory_text>\<open>JournalUndo\<close>: what recovery undoes; \<^theory_text>\<open>JournalTx\<close>: a transaction
    store by store, abort and crash.
  \<^item> \<^theory_text>\<open>BlockTree\<close>, \<^theory_text>\<open>TreeAlloc\<close>, \<^theory_text>\<open>TreeTrunc\<close>: lookup, growth, truncation, search for holes (\<^verbatim>\<open>inode.c\<close>,
    \<^verbatim>\<open>pmfs.h\<close>).  \<^theory_text>\<open>TreeShape\<close> gives the abstract tree (\<open>tree_lookup\<close>: block number to block);
    \<^theory_text>\<open>TreeExt\<close>, \<^theory_text>\<open>TreeGrow\<close>, \<^theory_text>\<open>TreeFile\<close> prove growth, \<^theory_text>\<open>TreeCut\<close>, \<^theory_text>\<open>TreeFileCut\<close> truncation and \<^theory_text>\<open>TreeLookup\<close>
    lookups that move tired pages, over locales that say what the tree relies on of an allocator and that
    are interpreted on both.
  \<^item> \<^theory_text>\<open>MountScan\<close>, \<^theory_text>\<open>MountScanPmfs\<close>: the rebuild at mount (\<^verbatim>\<open>wpmfs_bbuild.c\<close>); \<^theory_text>\<open>MountBins\<close>, \<^theory_text>\<open>MountTotal\<close>:
    what it puts into the bins and that it returns; \<^theory_text>\<open>MountMap\<close>: the block list it builds, and that the
    two scans agree.
  \<^item> \<^theory_text>\<open>Inodes\<close>, \<^theory_text>\<open>InodeOps\<close>: the inode on the device and in memory, the inode table and its growth, creation,
    loading, release and eviction, attributes, the truncate list (\<^verbatim>\<open>inode.c\<close>, \<^verbatim>\<open>super.c\<close>); \<^theory_text>\<open>InodeFields\<close>: an inode
    written comes back; \<^theory_text>\<open>TruncList\<close>: the list on the device is the list in memory.
  \<^item> \<^theory_text>\<open>DirEntry\<close>, \<^theory_text>\<open>DirOps\<close>: the entries of a block, search, insertion and removal over the blocks of a directory,
    listing (\<^verbatim>\<open>dir.c\<close>, \<^verbatim>\<open>namei.c\<close>); \<^theory_text>\<open>NameOps\<close>: create, link, unlink, mkdir, rmdir, rename, symbolic links with their
    transactions (\<^verbatim>\<open>namei.c\<close>, \<^verbatim>\<open>symlink.c\<close>); \<^theory_text>\<open>DirSpec\<close>: a block as a list of names; \<^theory_text>\<open>DirFile\<close>: a directory as a list
    of names; \<^theory_text>\<open>NameFile\<close>: link and unlink as wholes, from the transaction to the truncate list.
  \<^item> \<^theory_text>\<open>FileIO\<close>, \<^theory_text>\<open>FileOps\<close>: reads, writes, block lookup, preallocation, seeking, synchronisation and direct I/O
    (\<^verbatim>\<open>xip.c\<close>, \<^verbatim>\<open>file.c\<close>, \<^verbatim>\<open>inode.c\<close>); \<^theory_text>\<open>FileView\<close>: a file as a function from offsets to bytes.
  \<^item> \<^theory_text>\<open>WearLevel\<close>: the whole worker of \<^verbatim>\<open>wpmfs_wl.c\<close>, with pages mapped by processes; \<^theory_text>\<open>MigrateFile\<close>: such a page
    seen from its file.
  \<^item> \<^theory_text>\<open>MountSuper\<close>: options, format, check and repair of the super block, mount, remount, unmount (\<^verbatim>\<open>super.c\<close>);
    \<^theory_text>\<open>SuperCheck\<close>: which super blocks are accepted.  \<^theory_text>\<open>WriteProtect\<close>: the brackets around stores (\<^verbatim>\<open>wprotect.c\<close>).
    \<^theory_text>\<open>Requests\<close>: \<^verbatim>\<open>ioctl.c\<close>, \<^verbatim>\<open>wpmfs_proc.c\<close> and the page lookup of a fault.

  \<^bold>\<open>Conventions.\<close>  An operation takes the state and returns it updated.  \<open>None\<close> stands for a failed
  \<^verbatim>\<open>BUG_ON\<close> or assertion, a null pointer followed, and an access behind an allocation; an error the code
  returns is a value \<open>Inl e\<close> of a sum.  Sizes the code keeps in 64-bit words are words where they wrap
  (log entries, marks, block offsets, counters, file offsets) and naturals where the code only ever
  compares and adds below the size of the device; conversions to 32 bits are written out.  Addresses are
  natural numbers; \<open>va_off\<close> takes an address of the direct mapping or of a window to its byte on the
  device, through the page table \<open>vmap_pt\<close>.  The kernel's mapping services are the parameter \<open>K\<close>, with
  the contract \<open>kernel_vm_ok\<close>; where the journal's bytes are is the parameter \<open>E\<close>.

  \<^bold>\<open>What is shown.\<close>  The journal: after a crash between any two stores of a transaction, recovery gives back
  the memory it started from, and nothing of it once committed.  The allocators: neither hands out a block
  in use, over all sequences of requests; the wear-aware one takes a block of the least worn bin.  Wear
  levelling changes no byte any window shows.  Block trees: growth fills exactly the range asked for,
  truncation removes exactly the tail and gives back exactly its blocks, lookups that move tired pages
  change no content; the blocks of a file are distinct and never available.  The mount after a failure
  finds exactly the free blocks.  Files: on a file none of whose pages is tired, a read returns exactly the
  bytes of its range with zeros for holes, a write into blocks it has changes exactly its range, and a read
  gives back what was written.  Directories of well-formed blocks: lookup ends and finds exactly the names,
  adding and removing a name changes exactly this name and keeps the blocks well-formed; link and unlink do so
  together with the link count, the truncate list and their transaction.  An inode written is
  read back; the truncate list on the device mirrors the one in memory.  The section Further facts holds
  companions of the numbered properties, mostly the same statement over the other allocator.

  \<^bold>\<open>Bounds and assumptions.\<close>  The statements on trees are about files of 4K blocks, of height up to what
  the device holds, on devices the direct mapping shows (up to 16 TiB, \<open>direct_block\<close>); the definitions
  have all three block sizes where the code has.  No recursion needs fuel: loops end by a measure, or are partial functions
  of the option type where they need not end (the search for room in a block, the circular search of a
  directory, listing, the search for a free inode, the truncate list on the device, the worker's queue), so
  that not returning is \<open>None\<close>, as is a failed assertion; the properties that promise a result promise \<open>Some\<close>.  The code runs under its locks, so one operation at a
  time; crashes between stores are modelled for the journal.  Flushes and fences order stores and have no
  other effect here.

  \<^bold>\<open>Not modelled.\<close>  The kernel's own structures: its inode and dentry caches, permission rules, page tables and
  radix tree (whether an entry is free, an inode can be held or a user page read is a parameter), the fault
  handler around the lookup of a page, module and cache registration, the address hints for huge-page
  mappings, and the printing of options.  Flushes, fences and locks, which have no effect on a sequential
  state; timing statistics (\<^verbatim>\<open>pmfs_stats.c\<close>); the test module \<^verbatim>\<open>pmfs_test.c\<close>, which is not part of the build; the
  vendored programs under \<^verbatim>\<open>src/workloads\<close>.
\<close>


section \<open>Instances\<close>

text \<open>
  Concrete states at which the properties with hypotheses are applied: a journal of 16 entries with
  one transaction that has reserved ten, and devices of a few blocks.
\<close>

definition wit_E :: addressing where
  "wit_E = \<lparr>get_block_of = unat, blockoff_of = of_nat\<rparr>"

definition wit_journal :: jstate where
  "wit_journal = \<lparr>jmem = (\<lambda>x. of_nat x),
     jlog = (\<lambda>_. \<lparr>addr_offset = 0, transaction_id = 0, le_gen_id = 0, le_type = 0, le_size = 0, le_data = []\<rparr>),
     journal = \<lparr>j_base = 0, j_size = 1024, j_head = 0, j_tail = 640, j_gen_id = 1, redo_logging = 0\<rparr>,
     jsize = 1024, redo_log = False, next_transaction_id = 1, jkmem_ok = True\<rparr>"

definition wit_journal_end :: jstate where
  "wit_journal_end = wit_journal\<lparr>journal := (journal wit_journal)\<lparr>j_head := 896, j_tail := 896\<rparr>\<rparr>"

definition wit_tx :: pmfs_transaction where
  "wit_tx = \<lparr>t_transaction_id = 0, num_entries = 10, num_used = 0, t_gen_id = 1, start_addr = 0\<rparr>"

lemma wit_live: "live_log wit_journal [seg_of wit_tx wit_journal]"
  by (simp add: live_log_def wit_journal_def seg_of_def wit_tx_def seg_ok_def tx_shape_def tx_entries_def)

lemma wit_addressable: "a + n < 2 ^ 64 \<Longrightarrow> addressable wit_E (of_nat a) a n"
proof -
  assume "a + n < 2 ^ 64"
  then have "unat (of_nat (a + k) :: 64 word) = a + k" if "k < n" for k
    using that by (simp add: unat_of_nat del: of_nat_add)
  then show ?thesis by (simp add: addressable_def wit_E_def)
qed

lemma wit_inv: "tx_inv wit_E (jmem wit_journal) wit_tx wit_journal"
  by (rule tx_inv_start) (simp_all add: wit_journal_def wit_tx_def)

lemma wit_log: "\<exists>tx' s'. tx_step wit_E (TxLog 100 60) (wit_tx, wit_journal) = (tx', s') \<and> num_used tx' = 2 \<and>
    num_entries tx' = 10 \<and> covered wit_E (tx_entries tx' s') = {100..<160}"
proof -
  have ad: "addressable wit_E (blockoff_of wit_E 100) 100 60"
    using wit_addressable [of 100 60] by (simp add: wit_E_def)
  have n: "addlog_entries 60 LE_DATA = 2" by (simp add: addlog_entries_def)
  obtain tx' s' where st: "pmfs_add_logentry wit_E wit_tx 100 60 LE_DATA wit_journal = (Inr tx', s')"
    "num_entries tx' = num_entries wit_tx"
    "covered wit_E (tx_entries tx' s') = covered wit_E (tx_entries wit_tx wit_journal) \<union> {100..<100 + 60}"
    using tx_log_stores(2) [OF wit_inv _ ad] n by (auto simp: wit_tx_def)
  have "num_used tx' = 2"
    using st(1) n by (auto simp: pmfs_add_logentry_def wit_tx_def addlog_stores.simps Let_def
        split: if_splits prod.splits)
  with st show ?thesis by (simp add: wit_tx_def tx_entries_def)
qed

definition wit_ops :: "tx_op list" where
  "wit_ops = [TxLog 100 60, TxStore 120 [7, 8]]"

definition wit_end :: "pmfs_transaction \<times> jstate" where
  "wit_end = tx_run wit_E wit_ops (wit_tx, wit_journal)"

lemma wit_run: "tx_run wit_E wit_ops (wit_tx, wit_journal) = (fst wit_end, snd wit_end)"
  "num_used (fst wit_end) = 2" "num_entries (fst wit_end) = 10"
  using wit_log by (auto simp: wit_end_def wit_ops_def)

lemma wit_run_ok: "tx_run_ok wit_E wit_ops (wit_tx, wit_journal)"
  using wit_log wit_addressable [of 100 60] by (auto simp: wit_E_def wit_ops_def)

lemma wit_start: "num_used wit_tx = 0" "\<not> redo_log wit_journal"
  "\<forall>i<num_entries wit_tx. le_gen_id (jlog wit_journal (start_addr wit_tx + i * 64)) \<noteq> t_gen_id wit_tx"
  by (simp_all add: wit_tx_def wit_journal_def)

text \<open>
  A device of 32 blocks: block 0 holds the static table, blocks 1 and 2 are the static window, blocks 3
  to 12 the dynamic table, block 13 the one page of the dynamic window.  The first-fit allocator has
  the rest free, the wear-aware allocator blocks 24 to 31 unused, block 20 in its first bin and block
  21 retired.
\<close>

definition wit_kernel :: kernel_vm where
  "wit_kernel =
    \<lparr>vmap_page_range = (\<lambda>pt vp bs q. if vp \<le> q \<and> q < vp + length bs then Some (bs ! (q - vp), True) else pt q),
     vmap = (\<lambda>pt bs. Some (1073745920, \<lambda>q. if 262145 \<le> q \<and> q < 262145 + length bs
        then Some (bs ! (q - 262145), True) else pt q)),
     get_vm_area = (\<lambda>_. Some 4096)\<rparr>"

definition wit_pm :: "nat \<Rightarrow> 8 word" where
  "wit_pm x = (if x = 0 then 2 else if x = 8 then 3 else if x = 16 then 1 else if x = 24 then 1 else if x = 32 then 2
     else if x = 12288 then 13 else if 4096 \<le> x \<and> x < 12288 then of_nat x else 0)"

definition wit_dev :: wpmfs where
  "wit_dev =
    \<lparr>phys_addr = 65536, virt_addr = 1048576, block_inuse_head = [\<lparr>block_low = 0, block_high = 13\<rparr>],
     block_start = 0, block_end = 32, num_free_blocks = 10, num_inodes = 0, initsize = 131072, s_mount_opt = 0,
     s_inodes_count = 0, s_free_inodes_count = 0, s_inodes_used_count = 0, s_free_inode_hint = 0,
     num_blocknode_allocated = 1,
     vmapi = \<lparr>enabled = True, base_static = 1073745920, size_static = 8192, base_dynamic = 4096, size_dynamic = 4096\<rparr>,
     num_bins = 3, block_bins = [[20], [], [21]], unused_block_low = 24, unused_block_high = 32,
     pm = wit_pm, wt_cnt = (\<lambda>b. if b = 22 then 2 ^ 20 else 0),
     page_private = (\<lambda>b. if b = 1 \<or> b = 2 then 5 else if b = 13 then 13 else 1),
     page_index = (\<lambda>b. if b = 2 then 1 else 0), page_mapping = (\<lambda>_. None),
     vmap_pt = (\<lambda>v. if v = 262145 then Some (1, True) else if v = 262146 then Some (2, True)
       else if v = 1 then Some (13, True) else None),
     int_thres_power = 17, fs_ready = True, wl_switch = 1, fifo = [], work_queued = False, kmem_ok = True\<rparr>"

lemma wit_sel:
  "phys_addr wit_dev = 65536" "virt_addr wit_dev = 1048576" "pm wit_dev = wit_pm" "kmem_ok wit_dev = True"
  "block_inuse_head wit_dev = [\<lparr>block_low = 0, block_high = 13\<rparr>]" "block_start wit_dev = 0" "block_end wit_dev = 32"
  "num_free_blocks wit_dev = 10" "num_blocknode_allocated wit_dev = 1"
  "enabled (vmapi wit_dev)" "base_static (vmapi wit_dev) = 1073745920" "size_static (vmapi wit_dev) = 8192"
  "base_dynamic (vmapi wit_dev) = 4096" "size_dynamic (vmapi wit_dev) = 4096"
  "num_bins wit_dev = 3" "block_bins wit_dev = [[20], [], [21]]" "unused_block_low wit_dev = 24"
  "unused_block_high wit_dev = 32" "int_thres_power wit_dev = 17" "page_index wit_dev b = (if b = 2 then 1 else 0)"
  "page_private wit_dev b = (if b = 1 \<or> b = 2 then 5 else if b = 13 then 13 else 1)"
  "wt_cnt wit_dev b = (if b = 22 then 2 ^ 20 else 0)"
  "vmap_pt wit_dev v = (if v = 262145 then Some (1, True) else if v = 262146 then Some (2, True)
     else if v = 1 then Some (13, True) else None)"
  by (simp_all add: wit_dev_def)

definition wit_list_dev :: wpmfs where
  "wit_list_dev = wit_dev\<lparr>num_free_blocks := 18\<rparr>"

definition wit_full_dev :: wpmfs where
  "wit_full_dev = wit_dev\<lparr>num_free_blocks := 0, block_inuse_head := [\<lparr>block_low = 0, block_high = 31\<rparr>]\<rparr>"

lemma wit_kernel_ok: "kernel_vm_ok wit_kernel"
  by (simp add: kernel_vm_ok_def wit_kernel_def maps_pages_def)

lemma wit_kernel_apart: "kernel_areas_apart wit_kernel"
  by (simp add: kernel_areas_apart_def wit_kernel_def)

lemma wit_load: "le_load 8 wit_pm 0 = 2" "le_load 8 wit_pm 8 = 3" "le_load 8 wit_pm 16 = 1"
  "le_load 8 wit_pm 24 = 1" "le_load 8 wit_pm 32 = 2" "le_load 8 wit_pm 40 = 0" "le_load 8 wit_pm 12288 = 13"
proof -
  have byte: "le_load 8 m a = unat (m a)" if "\<forall>x. a < x \<and> x < a + 8 \<longrightarrow> m x = 0" for m :: "nat \<Rightarrow> 8 word" and a
  proof -
    have "le_load (Suc 7) m a = unat (m a) + 256 * le_load 7 m (Suc a)"
      by (simp only: le_load.simps)
    moreover have "le_load 7 m (Suc a) = 0" by (rule le_load_zero) (use that in auto)
    ultimately show ?thesis by simp
  qed
  show "le_load 8 wit_pm 0 = 2" "le_load 8 wit_pm 8 = 3" "le_load 8 wit_pm 16 = 1"
    "le_load 8 wit_pm 24 = 1" "le_load 8 wit_pm 32 = 2" "le_load 8 wit_pm 40 = 0" "le_load 8 wit_pm 12288 = 13"
    by (subst byte, simp add: wit_pm_def, simp add: wit_pm_def)+
qed

lemma wit_tables:
  "head_blocknr wit_dev = 3" "static_slot wit_dev 0 = 1" "static_slot wit_dev (Suc 0) = 2" "static_slot wit_dev 2 = 0"
  "dynamic_slot wit_dev 0 = 13" "static_pages wit_dev = 2" "dynamic_pages wit_dev = 1"
  by (simp_all add: head_blocknr_def static_slot_def dynamic_slot_def wit_sel wit_load)

lemma wit_windows: "window_blocks wit_dev = [1, 2, 13]" "table_blocks wit_dev = {0} \<union> {3..<13}"
  by (simp_all add: window_blocks_def table_blocks_def wit_tables upt_rec)

lemma wit_vmap: "vmap_wf wit_dev"
proof -
  have "windows_apart wit_dev" by (simp add: windows_apart_def wit_sel)
  moreover have "(\<forall>i<2. P i) \<longleftrightarrow> P 0 \<and> P (Suc 0)" for P :: "nat \<Rightarrow> bool"
    by (auto simp: less_Suc_eq numeral_2_eq_2)
  ultimately show ?thesis
    unfolding vmap_wf_def wit_windows
    by (simp add: wit_tables page_marked_def wit_sel)
qed

lemma wit_list_windows:
  "window_blocks wit_list_dev = [1, 2, 13]" "window_blocks wit_full_dev = [1, 2, 13]"
  "table_blocks wit_list_dev = {0} \<union> {3..<13}" "table_blocks wit_full_dev = {0} \<union> {3..<13}"
proof -
  have sl: "static_slot wit_list_dev = static_slot wit_dev" "static_slot wit_full_dev = static_slot wit_dev"
    "dynamic_slot wit_list_dev = dynamic_slot wit_dev" "dynamic_slot wit_full_dev = dynamic_slot wit_dev"
    "head_blocknr wit_list_dev = head_blocknr wit_dev" "head_blocknr wit_full_dev = head_blocknr wit_dev"
    by (rule slots_cong; simp add: wit_list_dev_def wit_full_dev_def)+
  have "vmapi wit_list_dev = vmapi wit_dev" "vmapi wit_full_dev = vmapi wit_dev"
    by (simp_all add: wit_list_dev_def wit_full_dev_def)
  with sl wit_windows show "window_blocks wit_list_dev = [1, 2, 13]" "window_blocks wit_full_dev = [1, 2, 13]"
    "table_blocks wit_list_dev = {0} \<union> {3..<13}" "table_blocks wit_full_dev = {0} \<union> {3..<13}"
    by (simp_all add: window_blocks_def table_blocks_def)
qed

lemma vmap_wf_cong:
  assumes "pm t = pm s" "vmapi t = vmapi s" "page_private t = page_private s" "page_index t = page_index s"
    "vmap_pt t = vmap_pt s" "vmap_wf s"
  shows "vmap_wf t"
  using assms slots_cong [OF assms(1)]
  by (simp add: vmap_wf_def windows_apart_def window_blocks_def table_blocks_def page_marked_def)

lemma wit_list_vmap: "vmap_wf wit_list_dev" "vmap_wf wit_full_dev"
  by (rule vmap_wf_cong [OF _ _ _ _ _ wit_vmap]; simp add: wit_list_dev_def wit_full_dev_def)+

lemma wit_bins: "bins_inv wit_dev" "bins_avail wit_dev = {24..<32} \<union> {20}"
  by (simp_all add: bins_inv_def bins_avail_def wit_sel numeral_2_eq_2)

lemma wit_list: "list_inv wit_list_dev" "list_avail wit_list_dev = {14..<32}" "kmem_ok wit_list_dev"
proof -
  have "{0..<32} - {0..13} = {14..<32::nat}" by auto
  then show "list_inv wit_list_dev" "list_avail wit_list_dev = {14..<32}" "kmem_ok wit_list_dev"
    by (simp_all add: list_inv_def list_avail_def blocklist_wf_def wit_list_dev_def wit_sel node_blocks_def)
qed

lemma wit_full: "list_inv wit_full_dev" "list_avail wit_full_dev = {}" "kmem_ok wit_full_dev" "list_may_free wit_full_dev 1 1"
proof -
  have "{0..<32} - {0..31} = ({}::nat set)" by auto
  then show "list_inv wit_full_dev" "list_avail wit_full_dev = {}" "kmem_ok wit_full_dev" "list_may_free wit_full_dev 1 1"
    by (simp_all add: list_inv_def list_avail_def blocklist_wf_def wit_full_dev_def wit_sel node_blocks_def
        list_may_free_def)
qed


lemma wit_new: "\<exists>b s1. wear_new False wit_dev = (Inr b, s1)" "\<exists>b s1. pmfs_new_block wit_list_dev 0 False = (Inr b, s1)"
proof -
  show "\<exists>b s1. wear_new False wit_dev = (Inr b, s1)"
    by (simp add: wear_new_def wpmfs_new_block_def wpmfs_new_block_locked_def wit_sel)
  show "\<exists>b s1. pmfs_new_block wit_list_dev 0 False = (Inr b, s1)"
    using pmfs_new_block_first_fit [OF wit_list(1,3), of 0 20 False] by (auto simp: wit_list(2))
qed

text \<open>The wear levelling of block 2 returns on both devices.\<close>

lemmas wit_migration_defs = level_type_vmap_to_def pmfs_get_block_def pmfs_get_pfn_def wpmfs_page_marks_def mark_page_eq
  pfn_to_vaddr_def get_vmalloc_pte_def wpmfs_reget_mptable_slot_def wpmfs_get_mptable_static_def wpmfs_get_blocknr_def
  PM_EQU_NO_INT_def memcpy_page_def PM_MEMCPY_NO_INT_def set_pte_atomic_def wt_cnter_track_addr_intless_def
  wt_track_addr1_intless_def wt_cnter_track_pfn_intless_def wt_cnter_add_def

lemma wit_offs: "b < 64 \<Longrightarrow> 0 < b \<Longrightarrow> wpmfs_get_blockoff_direct b = Some (wb_make (b * 4096) 0)"
  "b < 64 \<Longrightarrow> unat (wb_make (b * 4096) 0) = b * 4096"
  by (simp_all add: blockoff_direct unat_wb_make_0)

lemma wit_frees: "wt_cnt t 2 = 0 \<Longrightarrow> int_thres_power t = 17 \<Longrightarrow> num_bins t = 3 \<Longrightarrow> \<exists>t'. af_free_block wpmfs_allocator t 2 0 = Some t'"
  by (simp add: wpmfs_allocator_def wpmfs_free_block_def wpmfs_free_block_locked_def wpmfs_get_bin_def
      wt_cnter_read_pfn_def Let_def)

lemma wit_level_wear: "\<exists>s'. level_type_vmap wpmfs_allocator wit_dev 18 = Some s'"
proof -
  have nr: "wpmfs_get_blocknr wit_dev 18 = 2" by (simp add: wpmfs_get_blocknr_def wit_sel)
  have new: "af_new_block wpmfs_allocator wit_dev 0 False = Some (Inr 24, wit_dev\<lparr>unused_block_low := 25,
      num_free_blocks := 9, page_private := (page_private wit_dev)(24 := 1)\<rparr>)" (is "_ = Some (_, ?s1)")
    by (simp add: wpmfs_allocator_def wpmfs_new_block_def wpmfs_new_block_locked_def wit_sel wpmfs_new_suc_def mark_page_eq)
  define A where "A = wpmfs_allocator"
  have "\<exists>t. level_type_vmap_to A ?s1 18 1056768 24 = af_free_block A t 2 0
      \<and> wt_cnt t 2 = 0 \<and> int_thres_power t = 17 \<and> num_bins t = 3"
    using wit_offs [of 24] by (simp add: wit_migration_defs wit_sel) (rule exI, rule conjI, rule refl, simp add: wit_sel)
  then have "\<exists>t'. level_type_vmap_to A ?s1 18 1056768 24 = Some t'"
    using wit_frees unfolding A_def by fastforce
  then show ?thesis
    using wit_offs [of 2] by (simp add: level_type_vmap_def nr new pmfs_get_block_def wit_sel A_def)
qed

lemma wit_level_pmfs: "\<exists>s'. level_type_vmap pmfs_allocator wit_list_dev 18 = Some s'"
proof -
  have nr: "wpmfs_get_blocknr wit_list_dev 18 = 2" by (simp add: wpmfs_get_blocknr_def wit_list_dev_def wit_sel)
  have new: "pmfs_new_block wit_list_dev 0 False = (Inr 14, wit_list_dev\<lparr>block_inuse_head := [\<lparr>block_low = 0, block_high = 14\<rparr>],
      num_blocknode_allocated := 1, num_free_blocks := 17\<rparr>)"
      (is "_ = (_, ?s1)")
    by (simp add: pmfs_new_block_def new_scan_step wit_list_dev_def wit_sel mark_page_eq)
  define A where "A = pmfs_allocator"
  have "\<exists>t. level_type_vmap_to A ?s1 18 1056768 14 = af_free_block A t 2 0"
    using wit_offs [of 14] by (simp add: wit_migration_defs wit_list_dev_def wit_sel) (rule exI, rule refl)
  then have "\<exists>t'. level_type_vmap_to A ?s1 18 1056768 14 = Some t'" by (auto simp: A_def pmfs_allocator_def)
  then show ?thesis
    using wit_offs [of 2] new
    by (simp add: level_type_vmap_def nr pmfs_get_block_def A_def) (simp add: pmfs_allocator_def wit_list_dev_def wit_sel)
qed

lemma wit_level:
  "\<exists>s'. level_type_vmap wpmfs_allocator wit_dev (phys_addr wit_dev div 4096 + 2) = Some s'"
  "\<exists>s'. level_type_vmap pmfs_allocator wit_list_dev (phys_addr wit_list_dev div 4096 + 2) = Some s'"
  using wit_level_wear wit_level_pmfs by (simp_all add: wit_list_dev_def wit_sel)

text \<open>
  A file on a device without windows: the inode at offset 53248 (block 13) has a tree of height 1 with
  root block 10, whose slots 0 and 5 point at blocks 11 and 12.
\<close>

definition wit_tree_pm :: "nat \<Rightarrow> 8 word" where
  "wit_tree_pm x = (if x = 53250 then 1 else if x = 53257 then 160 else if x = 53288 then 2
     else if x = 40961 then 176 else if x = 41001 then 192 else 0)"

definition wit_tree_list :: wpmfs where
  "wit_tree_list = wit_list_dev\<lparr>vmap_pt := (\<lambda>_. None), pm := wit_tree_pm\<rparr>"

definition wit_tree_wear :: wpmfs where
  "wit_tree_wear = wit_dev\<lparr>vmap_pt := (\<lambda>_. None), pm := wit_tree_pm, page_private := (\<lambda>b. if b = 11 then 3 else 1)\<rparr>"

definition wit_vinode :: vinode where
  "wit_vinode = \<lparr>i_ino = 128, i_mode = 33188, i_uid = 0, i_gid = 0, i_nlink = 1, i_size = 24576, i_blocks = 2,
     i_atime = 0, i_mtime = 0, i_ctime = 0, i_generation = 0, i_flags = 0, i_rdev = 0\<rparr>"

lemma wit_tree_pm_sel: "pm wit_tree_list = wit_tree_pm" "pm wit_tree_wear = wit_tree_pm"
  by (simp_all add: wit_tree_list_def wit_tree_wear_def)

lemma wit_load2:
  "(\<And>x. a \<le> x \<Longrightarrow> x < a + 8 \<Longrightarrow> x \<noteq> a + 1 \<Longrightarrow> m x = 0) \<Longrightarrow> le_load 8 m a = 256 * unat (m (a + 1))"
proof -
  assume z: "\<And>x. a \<le> x \<Longrightarrow> x < a + 8 \<Longrightarrow> x \<noteq> a + 1 \<Longrightarrow> m x = 0"
  have "le_load (Suc (Suc 6)) m a = unat (m a) + 256 * (unat (m (Suc a)) + 256 * le_load 6 m (Suc (Suc a)))"
    by (simp only: le_load.simps)
  moreover have "le_load 6 m (Suc (Suc a)) = 0" by (rule le_load_zero) (use z in auto)
  ultimately show ?thesis using z [of a] by simp
qed

lemma wit_tree_slot: "slot wit_tree_pm 40960 i = (if i = 0 then 45056 else if i = 5 then 49152 else 0)" if "i < FANOUT"
proof -
  consider "i = 0" | "i = 5" | "i \<noteq> 0" "i \<noteq> 5" by blast
  then show ?thesis
  proof cases
    case 1
    then show ?thesis unfolding slot_def by (subst wit_load2) (simp_all add: wit_tree_pm_def)
  next
    case 2
    then show ?thesis unfolding slot_def by (subst wit_load2) (simp_all add: wit_tree_pm_def)
  next
    case 3
    have "le_load 8 wit_tree_pm (40960 + 8 * i) = 0"
      by (rule le_load_zero) (use 3 that in \<open>auto simp: wit_tree_pm_def FANOUT_def\<close>)
    with 3 show ?thesis by (simp add: slot_def)
  qed
qed

lemma wit_tree_fields:
  "pm s = wit_tree_pm \<Longrightarrow> pi_height s 53248 = 1" "pm s = wit_tree_pm \<Longrightarrow> pi_root s 53248 = 40960"
  "pm s = wit_tree_pm \<Longrightarrow> pi_blk_type s 53248 = 0" "pm s = wit_tree_pm \<Longrightarrow> pi_flags s 53248 = 0"
proof -
  assume m: "pm s = wit_tree_pm"
  show "pi_height s 53248 = 1" "pi_blk_type s 53248 = 0"
    by (simp_all add: pi_height_def pi_blk_type_def m wit_tree_pm_def)
  show "pi_root s 53248 = 40960" unfolding pi_root_def m by (subst wit_load2) (simp_all add: wit_tree_pm_def)
  show "pi_flags s 53248 = 0" unfolding pi_flags_def m by (rule le_load_zero) (simp add: wit_tree_pm_def)
qed

lemma wit_tree_live: "live wit_tree_pm 40960 = {0, 5}"
  by (auto simp: live_def wit_tree_slot FANOUT_def split: if_splits)

lemma wit_tree_shape:
  "tree_wf 1 wit_tree_pm 40960" "tree_blocks 1 wit_tree_pm 40960 = {40960, 45056, 49152}" "tree_lean 1 wit_tree_pm 40960"
  using wit_tree_slot by (auto simp: wit_tree_live block_ptr_def FANOUT_def)

lemma wit_tree_ok: "file_ok list_avail 53248 wit_tree_list" "file_ok bins_avail 53248 wit_tree_wear"
  "list_inv wit_tree_list" "kmem_ok wit_tree_list" "bins_inv wit_tree_wear"
  "list_avail wit_tree_list = {14..<32}" "bins_avail wit_tree_wear = {24..<32} \<union> {20}"
proof -
  have av: "list_avail wit_tree_list = {14..<32}" "bins_avail wit_tree_wear = {24..<32} \<union> {20}"
    using wit_list(2) wit_bins(2) by (simp_all add: list_avail_def bins_avail_def wit_tree_list_def wit_tree_wear_def)
  show "list_avail wit_tree_list = {14..<32}" "bins_avail wit_tree_wear = {24..<32} \<union> {20}" by (fact av)+
  show "list_inv wit_tree_list" "kmem_ok wit_tree_list" "bins_inv wit_tree_wear"
    using wit_list(1,2,3) wit_bins(1)
    by (simp_all add: list_inv_def list_avail_def bins_inv_def wit_tree_list_def wit_tree_wear_def)
  have dir: "direct_ok wit_tree_list" "direct_ok wit_tree_wear"
    by (simp_all add: direct_ok_def wit_tree_list_def wit_tree_wear_def wit_list_dev_def wit_sel)
  show "file_ok list_avail 53248 wit_tree_list" "file_ok bins_avail 53248 wit_tree_wear"
    using wit_tree_shape wit_tree_fields [OF wit_tree_pm_sel(1)] wit_tree_fields [OF wit_tree_pm_sel(2)] dir
    by (auto simp: file_ok_def root_ok_def wit_tree_pm_sel rblocks_def av page_of_def)
qed

lemma wit_tree_blocks: "file_block wit_tree_list 53248 n = (if n = 0 then 45056 else if n = 5 then 49152 else 0)"
  "file_blocks wit_tree_list 53248 = {40960, 45056, 49152}"
  "file_block wit_tree_wear 53248 n = (if n = 0 then 45056 else if n = 5 then 49152 else 0)"
  "file_blocks wit_tree_wear 53248 = {40960, 45056, 49152}"
  using wit_tree_fields [OF wit_tree_pm_sel(1)] wit_tree_fields [OF wit_tree_pm_sel(2)] wit_tree_slot [of n] wit_tree_shape(2)
  by (auto simp: file_block_def vlookup_def file_blocks_def rblocks_def wit_tree_pm_sel FANOUT_def)

lemma wit_tree_counts: "card {n. file_block wit_tree_list 53248 n \<noteq> 0} = 2" "card {n. file_block wit_tree_wear 53248 n \<noteq> 0} = 2"
proof -
  have "{n. file_block wit_tree_list 53248 n \<noteq> 0} = {0, 5}" "{n. file_block wit_tree_wear 53248 n \<noteq> 0} = {0, 5}"
    by (auto simp: wit_tree_blocks split: if_splits)
  then show "card {n. file_block wit_tree_list 53248 n \<noteq> 0} = 2" "card {n. file_block wit_tree_wear 53248 n \<noteq> 0} = 2" by simp_all
qed

lemma wit_tree_may: "\<forall>q\<in>{40960, 45056, 49152}. list_may_free wit_tree_list (q div 4096) 1"
  "\<forall>q\<in>{40960, 45056, 49152}. bins_may_free wit_tree_wear (q div 4096)"
  by (simp_all add: list_may_free_def bins_may_free_def wit_tree_list_def wit_list_dev_def wit_tree_wear_def wit_sel node_blocks_def)

lemma wit_tree_range: "pm s = wit_tree_pm \<Longrightarrow> truncate_range s 53248 4096 24576 = Some (1, 5)"
  using wit_tree_fields [of s] by (simp add: truncate_range_def pmfs_sparse_last_blocknr_def pmfs_inode_blk_shift_def
      blk_type_to_shift_def FANOUT_def)

lemmas wit_tree_trunc = wit_tree_counts wit_tree_may wit_tree_range [OF wit_tree_pm_sel(1)] wit_tree_range [OF wit_tree_pm_sel(2)]
  wit_tree_shape

text \<open>A file of a single block.\<close>

definition wit_one_wear :: wpmfs where
  "wit_one_wear = wit_tree_wear\<lparr>pm := (\<lambda>x. if x = 53257 then 160 else if x = 53288 then 1 else 0)\<rparr>"

lemma wit_one_fields: "pi_height wit_one_wear 53248 = 0" "pi_root wit_one_wear 53248 = 40960"
  "pi_blk_type wit_one_wear 53248 = 0" "pi_flags wit_one_wear 53248 = 0"
proof -
  show "pi_height wit_one_wear 53248 = 0" "pi_blk_type wit_one_wear 53248 = 0"
    by (simp_all add: pi_height_def pi_blk_type_def wit_one_wear_def)
  show "pi_root wit_one_wear 53248 = 40960" unfolding pi_root_def wit_one_wear_def by (subst wit_load2) simp_all
  show "pi_flags wit_one_wear 53248 = 0" unfolding pi_flags_def wit_one_wear_def by (simp, intro le_load_zero) simp
qed

lemma wit_one_ok: "file_ok bins_avail 53248 wit_one_wear" "bins_inv wit_one_wear" "file_blocks wit_one_wear 53248 = {40960}"
  "file_block wit_one_wear 53248 n = (if n = 0 then 40960 else 0)" "bins_may_free wit_one_wear 10"
  "truncate_range wit_one_wear 53248 0 4096 = Some (0, 0)"
proof -
  have av: "bins_avail wit_one_wear = {24..<32} \<union> {20}" using wit_tree_ok(7) by (simp add: wit_one_wear_def bins_avail_def)
  have "direct_ok wit_one_wear" using wit_tree_ok(2) by (simp add: wit_one_wear_def file_ok_def root_ok_def direct_ok_def)
  then show "file_ok bins_avail 53248 wit_one_wear"
    using wit_one_fields by (auto simp: file_ok_def root_ok_def rblocks_def av page_of_def block_ptr_def)
  show "bins_inv wit_one_wear" using wit_tree_ok(5) by (simp add: wit_one_wear_def bins_inv_def)
  show "file_blocks wit_one_wear 53248 = {40960}" "file_block wit_one_wear 53248 n = (if n = 0 then 40960 else 0)"
    by (auto simp: file_blocks_def rblocks_def file_block_def vlookup_def wit_one_fields)
  show "bins_may_free wit_one_wear 10"
    by (simp add: bins_may_free_def wit_one_wear_def wit_tree_wear_def wit_sel)
  show "truncate_range wit_one_wear 53248 0 4096 = Some (0, 0)"
    by (simp add: truncate_range_def pmfs_sparse_last_blocknr_def pmfs_inode_blk_shift_def blk_type_to_shift_def wit_one_fields)
qed

lemma wit_one_returns: "\<exists>ino' t. pmfs_truncate_at wpmfs_allocator wit_one_wear (wit_vinode\<lparr>i_blocks := 1\<rparr>) 53248 0 4096 7 = Some (ino', t)"
proof -
  have c: "wt_cnt wit_one_wear 10 = 0" "int_thres_power wit_one_wear = 17" "num_bins wit_one_wear = 3"
    by (simp_all add: wit_one_wear_def wit_tree_wear_def wit_sel)
  then obtain t where "af_free_block wpmfs_allocator wit_one_wear 10 0 = Some t"
    by (auto simp: wpmfs_allocator_def wpmfs_free_block_def wpmfs_free_block_locked_def wpmfs_get_bin_def
        wt_cnter_read_pfn_def Let_def)
  moreover have "wpmfs_reget_blocknr wit_one_wear (of_nat 40960) = Some 10"
    using reget_block_ptr [of 40960 wit_one_wear] by (simp add: block_ptr_def)
  moreover have "s_mount_opt wit_one_wear = 0" by (simp add: wit_one_wear_def wit_tree_wear_def wit_dev_def)
  ultimately show ?thesis
    by (simp add: pmfs_truncate_at_def wit_one_ok(6) wit_one_fields free_pointer_def pmfs_decrease_btree_height_def Let_def)
qed

text \<open>
  A device at mount, of 32 blocks: the inode table at offset 4096 has the single block 9, whose second
  inode is a file with root block 10 and the data blocks 11 and 12.  The pages below block 9, and those
  behind the device, are in use.
\<close>

definition wit_mount_pm :: "nat \<Rightarrow> 8 word" where
  "wit_mount_pm x = (if x = 10 then 2 else if x = 41 then 16 else if x = 4105 then 144 else if x = 36994 then 1
     else if x = 37001 then 160 else if x = 37030 then 1 else if x = 40961 then 176 else if x = 41001 then 192 else 0)"

definition wit_mount :: wpmfs where
  "wit_mount = wit_dev\<lparr>vmapi := (vmapi wit_dev)\<lparr>enabled := False\<rparr>, vmap_pt := (\<lambda>_. None), pm := wit_mount_pm,
     page_private := (\<lambda>b. if b < 9 \<or> 32 \<le> b then 1 else 0), block_bins := replicate 3 [], num_free_blocks := 0,
     wt_cnt := (\<lambda>_. 0)\<rparr>"

lemma wit_mount_sel: "pm wit_mount = wit_mount_pm" "num_bins wit_mount = 3" "virt_addr wit_mount = 1048576"
  "vmap_pt wit_mount v = None" "phys_addr wit_mount = 65536" "int_thres_power wit_mount = 17" "wt_cnt wit_mount b = 0"
  "page_private wit_mount b = (if b < 9 \<or> 32 \<le> b then 1 else 0)" "num_free_blocks wit_mount = 0"
  "block_bins wit_mount = replicate 3 []" "enabled (vmapi wit_mount) = False"
  by (simp_all add: wit_mount_def wit_sel)

lemma wit_mount_super: "pmfs_get_super wit_mount = 1048576" "fs_size wit_mount = 131072"
  "pmfs_get_inode_table wit_mount = 4096" "bitmap_bits wit_mount = 40"
proof -
  have va: "x < 2 ^ 20 \<Longrightarrow> va_off wit_mount (1048576 + x) = x" for x
    by (simp add: va_off_def wit_mount_sel)
  show sup: "pmfs_get_super wit_mount = 1048576" by (simp add: pmfs_get_super_def wit_mount_sel)
  have z: "le_load 5 wit_mount_pm 11 = 0" by (rule le_load_zero) (auto simp: wit_mount_pm_def)
  have "le_load (Suc (Suc (Suc 5))) wit_mount_pm 8 = unat (wit_mount_pm 8) + 256 * (unat (wit_mount_pm (Suc 8)) +
      256 * (unat (wit_mount_pm (Suc (Suc 8))) + 256 * le_load 5 wit_mount_pm (Suc (Suc (Suc 8)))))"
    by (simp only: le_load.simps)
  then have "le_load 8 wit_mount_pm 8 = 131072" using z by (simp add: wit_mount_pm_def)
  then show fs: "fs_size wit_mount = 131072" using va [of 8] by (simp add: fs_size_def sup wit_mount_sel)
  have "le_load 8 wit_mount_pm 40 = 4096" by (subst wit_load2) (simp_all add: wit_mount_pm_def)
  then have "ps_inode_table_offset wit_mount = 4096" using va [of 40] by (simp add: ps_inode_table_offset_def sup wit_mount_sel)
  then show "pmfs_get_inode_table wit_mount = 4096" using va [of 4096] by (simp add: pmfs_get_inode_table_def sup)
  show "bitmap_bits wit_mount = 40" by (simp add: bitmap_bits_def fs)
qed

lemma wit_mount_fields: "pi_height wit_mount 4096 = 0" "pi_root wit_mount 4096 = 36864" "pi_blk_type wit_mount 4096 = 0"
  "pi_height wit_mount 36992 = 1" "pi_root wit_mount 36992 = 40960" "pi_blk_type wit_mount 36992 = 0"
proof -
  show "pi_height wit_mount 4096 = 0" "pi_blk_type wit_mount 4096 = 0" "pi_height wit_mount 36992 = 1"
    "pi_blk_type wit_mount 36992 = 0"
    by (simp_all add: pi_height_def pi_blk_type_def wit_mount_sel wit_mount_pm_def)
  show "pi_root wit_mount 4096 = 36864" "pi_root wit_mount 36992 = 40960"
    unfolding pi_root_def wit_mount_sel by (subst wit_load2; simp add: wit_mount_pm_def)+
qed

lemma wit_mount_slot: "slot wit_mount_pm 40960 i = (if i = 0 then 45056 else if i = 5 then 49152 else 0)" if "i < FANOUT"
proof -
  have same: "wit_mount_pm x = wit_tree_pm x" if "40960 \<le> x" "x < 45056" for x
    using that by (simp add: wit_mount_pm_def wit_tree_pm_def)
  have "le_load 8 wit_mount_pm (40960 + 8 * i) = le_load 8 wit_tree_pm (40960 + 8 * i)"
    by (rule le_load_cong, rule same) (use that in \<open>simp_all add: FANOUT_def\<close>)
  then show ?thesis using wit_tree_slot [OF that] by (simp add: slot_def)
qed

lemma wit_mount_tree: "tree_wf 1 wit_mount_pm 40960" "tree_blocks 1 wit_mount_pm 40960 = {40960, 45056, 49152}"
proof -
  have "live wit_mount_pm 40960 = {0, 5}" by (auto simp: live_def wit_mount_slot FANOUT_def split: if_splits)
  then show "tree_wf 1 wit_mount_pm 40960" "tree_blocks 1 wit_mount_pm 40960 = {40960, 45056, 49152}"
    using wit_mount_slot by (auto simp: block_ptr_def FANOUT_def)
qed

lemma wit_mount_used: "used_inodes wit_mount 0 36864 = {36992}"
proof -
  have lk: "pi_links_count wit_mount (36864 + 128 * i) = (if i = 1 then 1 else 0)"
    "pi_mode wit_mount (36864 + 128 * i) = 0" if "i < 32" for i
  proof -
    consider "i = 0" | "i = 1" | "2 \<le> i" by linarith
    then show "pi_links_count wit_mount (36864 + 128 * i) = (if i = 1 then 1 else 0)"
      by cases (use that in \<open>auto simp: pi_links_count_def wit_mount_sel wit_mount_pm_def numeral_2_eq_2\<close>)
    have z: "wit_mount_pm x = 0" if "36864 + 128 * i + 36 \<le> x" "x < 36864 + 128 * i + 36 + 2" for x
    proof -
      define k where "k = x - (36864 + 128 * i + 36)"
      have k: "x = 128 * (288 + i) + (36 + k)" "k < 2" using that by (simp_all add: k_def)
      have "x mod 128 = 36 + k" using k by (simp only: mod_mult_self4 mod_less)
      moreover have "36900 \<le> x" "x < 40960" using that \<open>i < 32\<close> by linarith+
      ultimately show ?thesis using k(2) by (auto simp: wit_mount_pm_def)
    qed
    show "pi_mode wit_mount (36864 + 128 * i) = 0"
      unfolding pi_mode_def wit_mount_sel by (rule le_load_zero) (use z in blast)
  qed
  have n: "INODES_PER_BLOCK 0 = 32" by (simp add: INODES_PER_BLOCK_def blk_type_to_shift_def)
  have e: "\<not> empty_inode wit_mount (36864 + 128 * i) \<longleftrightarrow> i = 1" if "i < 32" for i
    using lk [OF that] by (simp add: empty_inode_def)
  from e [of 1] have "\<not> empty_inode wit_mount 36992" by simp
  with e show ?thesis by (auto simp: used_inodes_def n)
qed

lemma wit_mount_ok: "mountable wit_mount" "live_blocks wit_mount = {9, 10, 11, 12}" "in_use wit_mount b \<longleftrightarrow> b < 9 \<or> 32 \<le> b"
  "0 < b \<Longrightarrow> bin_ok wit_mount b" "direct_ok wit_mount" "small_files wit_mount 0 36864"
proof -
  show dir: "direct_ok wit_mount" by (simp add: direct_ok_def wit_mount_sel)
  show small: "small_files wit_mount 0 36864"
    using wit_mount_tree by (simp add: small_files_def wit_mount_used wit_mount_fields wit_mount_sel)
  have mk: "inode_marks wit_mount 36992 = {10, 11, 12}"
    using wit_mount_tree by (auto simp: inode_marks_def wit_mount_fields wit_mount_sel)
  show "mountable wit_mount"
    using dir wit_mount_tree
    by (auto simp: mountable_def wit_mount_super wit_mount_fields scan_ok_def wit_mount_used mk wit_mount_sel block_ptr_def)
  show "live_blocks wit_mount = {9, 10, 11, 12}"
    by (auto simp: live_blocks_def wit_mount_super wit_mount_fields wit_mount_used mk)
  show "in_use wit_mount b \<longleftrightarrow> b < 9 \<or> 32 \<le> b" by (simp add: in_use_def wpmfs_page_marks_def wit_mount_sel)
  show "bin_ok wit_mount b" if "0 < b"
    using that by (simp add: bin_ok_def wpmfs_get_bin_def wt_cnter_read_pfn_def get_int_thres_size_def wit_mount_sel Let_def)
qed

text \<open>
  The same device, seen through its inode 128: a file with two blocks, the first of which holds one directory
  entry, the name \<^verbatim>\<open>a\<close> of inode 128; and a device on which the file is its one block 10, mapped by a process.
\<close>

definition wit_dir :: wpmfs where
  "wit_dir = wit_mount\<lparr>pm := (\<lambda>x. if x = 45056 then 128 else if x = 45065 then 16 else if x = 45066 then 1
     else if x = 45068 then 97 else wit_mount_pm x)\<rparr>"

definition wit_file :: vinode where
  "wit_file = \<lparr>i_ino = 128, i_mode = 0x81A4, i_uid = 0, i_gid = 0, i_nlink = 1, i_size = 4096, i_blocks = 2,
     i_atime = 1, i_mtime = 1, i_ctime = 1, i_generation = 7, i_flags = 4, i_rdev = 0\<rparr>"

lemma wit_file_sel: "i_ino wit_file = 128" "i_size wit_file = 4096" "i_mode wit_file = 0x81A4" "i_nlink wit_file = 1"
  by (simp_all add: wit_file_def)

lemma wit_table: "table_ok wit_mount" "table_ino wit_mount 128" "pi_addr wit_mount 128 = 36992" "super_page wit_mount = 0"
proof -
  have so: "va_off wit_mount (pmfs_get_super wit_mount + 40) = 40" "va_off wit_mount 1048616 = 40"
    by (simp_all add: wit_mount_super va_off_def wit_mount_sel)
  show "super_page wit_mount = 0" by (simp add: super_page_def so page_of_def)
  then show "table_ok wit_mount"
    using wit_mount_ok(5)
    by (simp add: table_ok_def so wit_mount_super wit_mount_fields Let_def block_ptr_def tired_def wpmfs_page_marks_def wit_mount_sel page_of_def)
  have l: "table_lookup wit_mount 0 = 36864" by (simp add: table_lookup_def wit_mount_super wit_mount_fields)
  then show "table_ino wit_mount 128" by (simp add: table_ino_def wit_mount_super wit_mount_fields)
  show "pi_addr wit_mount 128 = 36992" by (simp add: pi_addr_def l)
qed

lemma wit_calm: "calm wit_mount 128" "file_data wit_mount 36992 = {45056, 49152}"
  "file_block wit_mount 36992 0 = 45056" "file_block wit_mount 36992 (Suc 0) = 0"
proof -
  have nt: "\<not> tired wit_mount q" for q by (simp add: tired_def wpmfs_page_marks_def wit_mount_sel)
  have fo: "file_ok (\<lambda>_. {}) 36992 wit_mount"
    using wit_mount_tree wit_mount_ok(5)
    by (simp add: file_ok_def root_ok_def rblocks_def wit_mount_fields wit_mount_sel page_of_def)
  have fb: "file_blocks wit_mount 36992 = {40960, 45056, 49152}"
    using wit_mount_tree by (simp add: file_blocks_def rblocks_def wit_mount_fields wit_mount_sel)
  show "calm wit_mount 128"
    unfolding calm_def wit_table(3) fb using wit_table fo nt
    by (simp add: wit_mount_super wit_mount_fields page_of_def Let_def)
  have lv: "live wit_mount_pm 40960 = {0, 5}" by (auto simp: live_def wit_mount_slot FANOUT_def split: if_splits)
  then show "file_data wit_mount 36992 = {45056, 49152}"
    by (auto simp: file_data_def wit_mount_fields wit_mount_sel wit_mount_slot FANOUT_def)
  show "file_block wit_mount 36992 0 = 45056" "file_block wit_mount 36992 (Suc 0) = 0"
    by (simp_all add: file_block_def vlookup_def wit_mount_fields wit_mount_sel wit_mount_slot FANOUT_def)
qed

lemma wit_dir_fixed: "data_fixed wit_mount 128 wit_dir"
proof -
  have "page_of 45056 = 45056" "page_of 45065 = 45056" "page_of 45066 = 45056" "page_of 45068 = 45056" by (simp_all add: page_of_def)
  moreover have "file_data wit_mount (pi_addr wit_mount 128) = {45056, 49152}"
    using wit_calm(2) by (simp only: wit_table(3))
  ultimately show ?thesis by (auto simp: data_fixed_def wit_dir_def kernel_same_def wit_mount_sel)
qed

lemma wit_dir_calm: "calm wit_dir 128" "pi_addr wit_dir 128 = 36992" "file_block wit_dir 36992 0 = 45056" "file_block wit_dir 36992 (Suc 0) = 0"
  using calm_keep [OF wit_calm(1) wit_dir_fixed] wit_calm(3,4) by (simp_all add: wit_table(3))

lemma wit_two_bytes: "le_load 2 m a = unat (m a) + 256 * unat (m (Suc a))"
  by (simp add: numeral_2_eq_2)

lemma wit_dir_bytes: "de_ino (pm wit_dir) 45056 = 128" "de_len (pm wit_dir) 45056 = 4096" "de_name_len (pm wit_dir) 45056 = 1"
  "de_name (pm wit_dir) 45056 1 = [97]"
proof -
  have z: "le_load 7 (pm wit_dir) 45057 = 0" by (rule le_load_zero) (auto simp: wit_dir_def wit_mount_pm_def)
  have "le_load (Suc 7) (pm wit_dir) 45056 = unat (pm wit_dir 45056) + 256 * le_load 7 (pm wit_dir) (Suc 45056)"
    by (simp only: le_load.simps)
  moreover have "unat (pm wit_dir 45056) = 128" by (simp add: wit_dir_def take_bit_eq_mod)
  ultimately show "de_ino (pm wit_dir) 45056 = 128" using z by (simp add: de_ino_def)
  show "de_len (pm wit_dir) 45056 = 4096" by (simp add: de_len_def wit_two_bytes wit_dir_def wit_mount_pm_def)
  show "de_name_len (pm wit_dir) 45056 = 1" by (simp add: de_name_len_def wit_dir_def)
  show "de_name (pm wit_dir) 45056 1 = [97]" by (simp add: de_name_def mem_read_def wit_dir_def)
qed

lemma wit_dir_block: "block_wf (pm wit_dir) 45056 0" "block_names (pm wit_dir) 45056 0 = [([97], 128)]"
  "0 \<in> set (entry_offsets (pm wit_dir) 45056 0)" "has_room (pm wit_dir) 45056 (PMFS_DIR_REC_LEN (Suc 0)) 0"
proof -
  have c: "entry_ok (pm wit_dir) 45056 0" "pmfs_check_dir_entry (pm wit_dir) 45056 0"
    using wit_dir_bytes by (simp_all add: entry_ok_def pmfs_check_dir_entry_def PMFS_DIR_REC_LEN_def)
  show "block_wf (pm wit_dir) 45056 0"
    by (subst block_wf.simps) (simp add: c wit_dir_bytes block_wf.simps [of _ _ 4096])
  show "block_names (pm wit_dir) 45056 0 = [([97], 128)]"
    using wit_dir_bytes by (subst block_names.simps) (simp add: c block_names_end)
  show "0 \<in> set (entry_offsets (pm wit_dir) 45056 0)" by (subst entry_offsets.simps) (simp add: c)
  show "has_room (pm wit_dir) 45056 (PMFS_DIR_REC_LEN (Suc 0)) 0" using wit_dir_bytes by (simp add: has_room_def PMFS_DIR_REC_LEN_def)
qed

lemma wit_dir_ok: "dir_calm wit_dir 128 (Suc 0)" "dir_names wit_dir 128 (Suc 0) = [([97], 128)]"
  using wit_dir_calm wit_dir_block by (simp_all add: dir_calm_def dir_names_def dir_block_names_def)

definition wit_mapped :: wpmfs where
  "wit_mapped = wit_mount\<lparr>pm := wit_mount_pm(36994 := 0), num_free_blocks := 18, page_mapping := (\<lambda>c. if c = 10 then Some 128 else None)\<rparr>"

lemma wit_mapped_fields: "pi_height wit_mapped 36992 = 0" "pi_root wit_mapped 36992 = 40960" "pi_blk_type wit_mapped 36992 = 0"
proof -
  show "pi_height wit_mapped 36992 = 0" by (simp add: pi_height_def wit_mapped_def)
  have e: "le_load n (pm wit_mapped) a = le_load n (pm wit_mount) a" if "36994 < a" for n a
    by (rule le_load_cong) (use that in \<open>simp add: wit_mapped_def wit_mount_sel\<close>)
  show "pi_root wit_mapped 36992 = 40960" using wit_mount_fields(5) by (simp add: pi_root_def e)
  show "pi_blk_type wit_mapped 36992 = 0" by (simp add: pi_blk_type_def wit_mapped_def wit_mount_pm_def)
qed

lemma wit_mapped_calm: "calm wit_mapped 128" "pi_addr wit_mapped 128 = 36992"
proof -
  have po: "page_of x = 36864 \<and> x \<noteq> 36994 \<Longrightarrow> True" for x ..
  have fx: "table_fixed wit_mount wit_mapped"
    by (auto simp: table_fixed_def Let_def wit_mount_super wit_mount_fields kernel_same_def wit_mapped_def wit_mount_sel va_off_def)
  note K = table_keep [OF wit_table(1) fx]
  show pa: "pi_addr wit_mapped 128 = 36992" using K(4) wit_table(2,3) by simp
  have T: "pmfs_get_inode_table wit_mapped = 4096" using K(2) by (simp add: wit_mount_super)
  have f: "pi_height wit_mapped 4096 = 0" "pi_root wit_mapped 4096 = 36864"
  proof -
    have e: "le_load n (pm wit_mapped) (4096 + a) = le_load n (pm wit_mount) (4096 + a)" if "a + n \<le> 128" for n a
      by (rule le_load_cong) (use that in \<open>simp add: wit_mapped_def wit_mount_sel\<close>)
    show "pi_height wit_mapped 4096 = 0" "pi_root wit_mapped 4096 = 36864"
      using wit_mount_fields(2) e [of 8 8] by (simp_all add: pi_height_def pi_root_def wit_mapped_def wit_mount_pm_def)
  qed
  have ks: "kernel_same wit_mount wit_mapped" by (simp add: wit_mapped_def kernel_same_def)
  have d: "direct_ok wit_mapped" by (rule direct_ok_same [OF ks wit_mount_ok(5)])
  have sp: "super_page wit_mapped = 0" using wit_table(4) by (simp add: super_page_def va_super_same [OF ks])
  have fb: "file_blocks wit_mapped 36992 = {40960}" by (simp add: file_blocks_def rblocks_def wit_mapped_fields)
  have nt: "\<not> tired wit_mapped q" for q by (simp add: tired_def wpmfs_page_marks_def wit_mapped_def wit_mount_sel)
  have "file_ok (\<lambda>_. {}) 36992 wit_mapped"
    using d by (simp add: file_ok_def root_ok_def rblocks_def wit_mapped_fields block_ptr_def page_of_def)
  then show "calm wit_mapped 128"
    unfolding calm_def pa fb using K(1,3) wit_table(2) nt by (simp add: T f sp page_of_def Let_def)
qed

lemma wit_mapped_list: "list_inv wit_mapped" "kmem_ok wit_mapped" "list_may_free wit_mapped 10 1" "list_avail wit_mapped = {14..<32}"
proof -
  have h: "block_inuse_head wit_mapped = block_inuse_head wit_list_dev" "block_start wit_mapped = block_start wit_list_dev"
    "block_end wit_mapped = block_end wit_list_dev" "num_free_blocks wit_mapped = num_free_blocks wit_list_dev"
    "num_blocknode_allocated wit_mapped = num_blocknode_allocated wit_list_dev" "kmem_ok wit_mapped = kmem_ok wit_list_dev"
    by (simp_all add: wit_mapped_def wit_mount_def wit_list_dev_def)
  show "list_inv wit_mapped" "kmem_ok wit_mapped" "list_avail wit_mapped = {14..<32}"
    using wit_list h by (simp_all add: list_inv_def list_avail_def)
  show "list_may_free wit_mapped 10 1"
    by (simp add: list_may_free_def wit_mapped_def wit_mount_def wit_sel node_blocks_def subset_eq)
qed

text \<open>The same directory with a log that has room, and an inode of the table to name.\<close>

definition wit_fresh :: jstate where
  "wit_fresh = wit_journal\<lparr>journal := (journal wit_journal)\<lparr>j_tail := 0\<rparr>\<rparr>"

definition wit_named :: vinode where
  "wit_named = wit_file\<lparr>i_ino := 256\<rparr>"

definition wit_vfs :: vfs where
  "wit_vfs = \<lparr>v_owner = (\<lambda>_ m. (m, 0, 0)), v_insert_ok = (\<lambda>_. True), v_gen = 1, v_now = 9, v_cache = (\<lambda>_. None)\<rparr>"

lemma wit_named_sel: "i_ino wit_named = 256" "i_nlink wit_named = 1"
  by (simp_all add: wit_named_def wit_file_sel)

lemma wit_named_ok: "table_ino wit_dir 256" "pi_addr wit_dir 256 = 37120" "trunc_ok wit_dir []"
proof -
  have l: "table_lookup wit_mount 0 = 36864" by (simp add: table_lookup_def wit_mount_super wit_mount_fields)
  then have i: "table_ino wit_mount 256" "pi_addr wit_mount 256 = 37120"
    by (simp_all add: table_ino_def pi_addr_def wit_mount_super wit_mount_fields)
  note K = table_keep [OF wit_table(1) data_table_fixed [OF wit_calm(1) wit_dir_fixed]]
  show "table_ino wit_dir 256" "pi_addr wit_dir 256 = 37120" using K i by simp_all
  have "le_load 8 (pm wit_dir) 4184 = 0" by (rule le_load_zero) (auto simp: wit_dir_def wit_mount_pm_def)
  with K(1,5) show "trunc_ok wit_dir []" by (simp add: trunc_ok_def truncate_head_def wit_mount_super)
qed

lemma wit_fresh_tx:
  "\<exists>tx j1. tx_start wit_E (MAX_INODE_LENTRIES * 2 + MAX_DIRENTRY_LENTRIES) s wit_fresh = Some (Inr tx, j1) \<and> \<not> redo_log j1"
  by (simp add: tx_start_def MAX_INODE_LENTRIES_def MAX_DIRENTRY_LENTRIES_def new_transaction_eq again_fit avail_of_def wit_fresh_def wit_journal_def)


section \<open>Properties\<close>

text \<open>
  C1. Undo journal: whatever a transaction has logged and changed, and however many stores of its next log call have reached the memory when the machine stops, recovery gives back the memory the transaction started from, provided the other transactions in the log are finished.
\<close>

theorem crash_recovers:
  assumes "live_log s (xs @ seg_of tx s # ys)" "\<forall>sg\<in>set (xs @ ys). quiet sg" "\<not> redo_log s" "num_used tx = 0"
    and "tx_run_ok E ops (tx, s)" "tx_run E ops (tx, s) = (tx', s')"
    and "0 < n" "addressable E (blockoff_of E a) a n" "num_used tx' + addlog_entries n LE_DATA \<le> num_entries tx'"
    and "s'' = run_stores (take k (fst (addlog_stores E False tx' (blockoff_of E a) a n LE_DATA 0
           (addlog_entries n LE_DATA)))) s'"
  shows "\<exists>r. pmfs_recover_journal E s'' = Some r \<and> jmem r = jmem s"
  by (rule crash_in_transaction [OF assms])

lemma crash_recovers_witness: "\<exists>r. pmfs_recover_journal wit_E (run_stores (take 5 (fst (addlog_stores wit_E False
    (fst wit_end) (blockoff_of wit_E 300) 300 10 LE_DATA 0 (addlog_entries 10 LE_DATA)))) (snd wit_end)) = Some r
    \<and> jmem r = jmem wit_journal"
proof (rule crash_recovers [where xs = "[]" and ys = "[]" and tx = wit_tx and ops = wit_ops and k = 5])
  show "live_log wit_journal ([] @ [seg_of wit_tx wit_journal])"
    by (simp add: wit_live)
  show "addressable wit_E (blockoff_of wit_E 300) 300 10"
    using wit_addressable [of 300 10] by (simp add: wit_E_def)
  show "num_used (fst wit_end) + addlog_entries 10 LE_DATA \<le> num_entries (fst wit_end)"
    by (simp add: wit_run(2,3) addlog_entries_def)
qed (simp_all add: wit_start wit_run(1) wit_run_ok)

text \<open>
  C2. Undo journal: once the commit entry is in the log, recovery leaves the memory as the transaction left it.
\<close>

theorem commit_durable:
  assumes "live_log s (xs @ seg_of tx s # ys)" "\<forall>sg\<in>set (xs @ ys). quiet sg" "\<not> redo_log s" "num_used tx = 0"
    and "tx_run_ok E ops (tx, s)" "tx_run E ops (tx, s) = (tx', s')" "num_used tx' < num_entries tx'"
  shows "\<exists>r. pmfs_recover_journal E (pmfs_commit_transaction E tx' s') = Some r \<and> jmem r = jmem s'"
  by (rule commit_survives [OF assms])

lemma commit_durable_witness: "\<exists>r. pmfs_recover_journal wit_E (pmfs_commit_transaction wit_E (fst wit_end) (snd wit_end)) = Some r
    \<and> jmem r = jmem (snd wit_end)"
  by (rule commit_durable [where s = wit_journal and xs = "[]" and ys = "[]" and tx = wit_tx and ops = wit_ops])
    (simp_all add: wit_live wit_start wit_run wit_run_ok)

text \<open>
  C3. Undo recovery ends, empties the journal, and its effect on the memory is to undo, from the last reserved to the first, the transactions of the live log that have no commit or abort entry; the live log may wrap.
\<close>

theorem recovery_undoes_unfinished:
  assumes "live_log s segs" "\<not> redo_log s"
  shows "\<exists>s'. pmfs_recover_journal E s = Some s' \<and> jmem s' = rec_mem E segs (jmem s) \<and>
    j_head (journal s') = j_tail (journal s')"
  by (rule recover_undo_journal [OF assms])

lemma recovery_undoes_unfinished_witness: "\<exists>s'. pmfs_recover_journal wit_E wit_journal = Some s' \<and>
    jmem s' = rec_mem wit_E [seg_of wit_tx wit_journal] (jmem wit_journal) \<and> j_head (journal s') = j_tail (journal s')"
  by (rule recovery_undoes_unfinished) (simp add: wit_live, simp add: wit_journal_def)

text \<open>
  C4. Aborting an undo transaction restores the memory, whatever ranges it logged (overlapping or repeated ones included) and whatever it stored into them.
\<close>

theorem abort_restores:
  assumes "\<not> redo_log s" "num_used tx = 0"
    and "\<forall>i<num_entries tx. le_gen_id (jlog s (start_addr tx + i * 64)) \<noteq> t_gen_id tx"
    and "tx_run_ok E ops (tx, s)" "tx_run E ops (tx, s) = (tx', s')"
  shows "jmem (pmfs_abort_transaction E tx' s') = jmem s"
  using tx_run_inv [OF tx_inv_start [OF assms(1-3)] assms(4,5)] by (blast intro: abort_mem)

lemma abort_restores_witness: "jmem (pmfs_abort_transaction wit_E (fst wit_end) (snd wit_end)) = jmem wit_journal"
  by (rule abort_restores [where ops = wit_ops and tx = wit_tx])
    (rule wit_start wit_run_ok wit_run)+

text \<open>
  C5. Starting a transaction with room: the reserved run lies behind the live log, holds one entry more than asked for, and the log stays well-formed; no memory changes.
\<close>

theorem transaction_reserves_tail:
  assumes "live_log s segs" "\<not> redo_log s" "jkmem_ok s"
    and "j_head (journal s) \<le> j_tail (journal s) \<Longrightarrow>
        j_tail (journal s) - j_head (journal s) + 64 + (n + 1) * 64 \<le> jsize s \<and> j_tail (journal s) + (n + 1) * 64 < jsize s"
      "j_tail (journal s) < j_head (journal s) \<Longrightarrow> j_tail (journal s) + (n + 1) * 64 + 64 \<le> j_head (journal s)"
    and "\<forall>i<n + 1. le_gen_id (jlog s (j_tail (journal s) + i * 64)) \<noteq> j_gen_id (journal s)"
  shows "\<exists>tx s'. pmfs_new_transaction E n s = Some (Inr tx, s') \<and> live_log s' (segs @ [seg_of tx s']) \<and>
    num_used tx = 0 \<and> num_entries tx = n + 1 \<and> start_addr tx = j_tail (journal s) \<and> jmem s' = jmem s \<and> \<not> redo_log s'"
  by (rule new_transaction_room [OF assms])

lemma transaction_reserves_tail_witness: "\<exists>tx s'. pmfs_new_transaction wit_E 3 wit_journal = Some (Inr tx, s') \<and>
    live_log s' ([seg_of wit_tx wit_journal] @ [seg_of tx s']) \<and> num_used tx = 0 \<and> num_entries tx = 3 + 1 \<and>
    start_addr tx = j_tail (journal wit_journal) \<and> jmem s' = jmem wit_journal \<and> \<not> redo_log s'"
  by (rule transaction_reserves_tail) (simp add: wit_live, simp_all add: wit_journal_def)

text \<open>
  C6. Wrap of the log: the rest of the log becomes unused entries, the generation advances, and the new transaction starts at offset 0; the wrapped log is well-formed for recovery.
\<close>

theorem transaction_wraps:
  assumes "live_log s segs" "\<not> redo_log s" "jkmem_ok s"
    and "j_head (journal s) \<le> j_tail (journal s)" "64 dvd jsize s" "64 dvd j_tail (journal s)" "j_gen_id (journal s) \<noteq> 0"
    and "(n + 1) * 64 + 64 \<le> j_head (journal s)" "j_tail (journal s) + (n + 1) * 64 \<ge> jsize s" "j_tail (journal s) < jsize s"
    and "\<forall>x. j_tail (journal s) \<le> x \<longrightarrow> le_gen_id (jlog s x) \<noteq> j_gen_id (journal s)"
      "\<forall>x<(n + 1) * 64. le_gen_id (jlog s x) \<noteq> next_gen_id (j_gen_id (journal s))"
  shows "\<exists>tx s' pad. pmfs_new_transaction E n s = Some (Inr tx, s') \<and> live_log s' (segs @ [pad, seg_of tx s']) \<and> quiet pad \<and>
    num_used tx = 0 \<and> num_entries tx = n + 1 \<and> start_addr tx = 0 \<and> jmem s' = jmem s \<and> \<not> redo_log s'"
  by (rule new_transaction_wrap [OF assms])

lemma transaction_wraps_witness: "\<exists>tx s' pad. pmfs_new_transaction wit_E 3 wit_journal_end = Some (Inr tx, s') \<and>
    live_log s' ([] @ [pad, seg_of tx s']) \<and> quiet pad \<and> num_used tx = 0 \<and> num_entries tx = 3 + 1 \<and>
    start_addr tx = 0 \<and> jmem s' = jmem wit_journal_end \<and> \<not> redo_log s'"
  by (rule transaction_wraps) (simp_all add: wit_journal_end_def wit_journal_def live_log_def next_gen_id_def)




text \<open>
  C9. Write and read back: a write of some bytes inside one block that the file has writes them all, and a read of as many bytes at the same place returns exactly them, whatever the size of the file was.
\<close>

theorem file_write_read_back:
  assumes "calm s (i_ino inode)" "file_block s (pi_addr s (i_ino inode)) (pos div 4096) \<noteq> 0"
    and "buf \<noteq> []" "pos mod 4096 + length buf \<le> 4096"
  shows "\<exists>inode' t. pmfs_xip_file_write K A E clwb True rp now buf (length buf) pos inode s j =
      Some (Inr (length buf), pos + length buf, inode', t, j) \<and>
    pmfs_xip_file_read K A E True t C inode' (length buf) (length buf) pos = Some (Inr buf, pos + length buf, t)"
  by (rule write_read [OF assms])

lemma file_write_read_back_witness: "\<exists>inode' t.
    pmfs_xip_file_write wit_kernel pmfs_allocator wit_E False True None 9 [1, 2, 3] 3 100 wit_file wit_mount wit_journal =
      Some (Inr 3, 103, inode', t, wit_journal) \<and>
    pmfs_xip_file_read wit_kernel pmfs_allocator wit_E True t (None, wit_journal) inode' 3 3 100 = Some (Inr [1, 2, 3], 103, t)"
  using file_write_read_back [of wit_mount wit_file 100 "[1, 2, 3]" wit_kernel pmfs_allocator wit_E False None 9 wit_journal "(None, wit_journal)"]
  by (simp add: wit_file_sel wit_calm wit_table numeral_3_eq_3)

text \<open>
  C10. Reading: pmfs_xip_file_read returns the bytes of the file from the position to the end of the request or of the file, whichever comes first, with zeros for its holes; it moves the position by as much and changes neither the device nor the counters.
\<close>

theorem file_read_bytes:
  assumes "calm s (i_ino inode)" "0 < len" "len \<le> room"
  shows "pmfs_xip_file_read K A E True s C inode len room pos =
    Some (Inr (map (file_byte s (pi_addr s (i_ino inode))) [pos..<min (pos + len) (i_size inode)]),
      pos + (min (pos + len) (i_size inode) - pos), s)"
  by (rule read_bytes [OF assms])

lemma file_read_bytes_witness: "pmfs_xip_file_read wit_kernel pmfs_allocator wit_E True wit_dir (None, wit_journal) wit_file 1 1 12 = Some (Inr [97], 13, wit_dir)"
proof -
  have "file_byte wit_dir 36992 12 = 97" by (simp add: file_byte_def wit_dir_calm) (simp add: wit_dir_def)
  then show ?thesis
    using file_read_bytes [of wit_dir wit_file 1 1 wit_kernel pmfs_allocator wit_E "(None, wit_journal)" 12]
    by (simp add: wit_file_sel wit_dir_calm)
qed



text \<open>
  C12. Looking a name up: from whatever block the last lookup ended at, the circular search over the blocks of a directory ends and returns the inode number of the entry with this name, and 0 when there is none; the directory is not changed.
\<close>

theorem dir_lookup_finds:
  assumes "dir_calm s (i_ino dir) n" "n = i_size dir div 4096" "0 < n" "length name \<le> 255"
    and "distinct (map fst (dir_names s (i_ino dir) n))"
  shows "\<exists>de start'. pmfs_inode_by_name A s dir start name =
    Some (case map_of (dir_names s (i_ino dir) n) name of None \<Rightarrow> 0 | Some i \<Rightarrow> i, de, start', s)"
  by (rule lookup_names [OF assms])

lemma dir_lookup_finds_witness: "(\<exists>de start'. pmfs_inode_by_name pmfs_allocator wit_dir wit_file 7 [97] = Some (128, de, start', wit_dir)) \<and>
    (\<exists>de start'. pmfs_inode_by_name pmfs_allocator wit_dir wit_file 7 [98] = Some (0, de, start', wit_dir))"
  using dir_lookup_finds [of wit_dir wit_file 1 "[97]" pmfs_allocator 7] dir_lookup_finds [of wit_dir wit_file 1 "[98]" pmfs_allocator 7]
  by (simp add: wit_file_sel wit_dir_ok)

text \<open>
  C13. Adding a name: when some entry of some block has room behind its name (or is free), pmfs_add_entry succeeds without growing the directory, every block is again a well-formed sequence of entries that covers it, and the names of the directory are the old ones in their order with the new one among them.
\<close>

theorem dir_add_name:
  assumes "dir_calm s (i_ino dir) n" "n = i_size dir div 4096"
    and "name \<noteq> []" "length name < 256" "0 < ino" "ino < 2 ^ 64"
    and "i < n" "k \<in> set (entry_offsets (pm s) (file_block s (pi_addr s (i_ino dir)) i) 0)"
    and "has_room (pm s) (file_block s (pi_addr s (i_ino dir)) i) (PMFS_DIR_REC_LEN (length name)) k"
  shows "\<exists>t J'. pmfs_add_entry K A E J s dir name (Some ino) now = Some (Inr (), dir\<lparr>i_mtime := now, i_ctime := now\<rparr>, t, J') \<and>
    dir_calm t (i_ino dir) n \<and>
    (\<exists>xs ys. dir_names s (i_ino dir) n = xs @ ys \<and> dir_names t (i_ino dir) n = xs @ (name, ino) # ys)"
  using add_names [OF assms, of K A E J now] by (elim exE conjE) (intro exI conjI)

lemma dir_add_name_witness: "\<exists>t J' dir'. pmfs_add_entry wit_kernel pmfs_allocator wit_E None wit_dir wit_file [98] (Some 129) 9 = Some (Inr (), dir', t, J') \<and>
    dir_calm t 128 1 \<and> set (dir_names t 128 1) = {([97], 128), ([98], 129)}"
proof -
  obtain t J' xs ys where "pmfs_add_entry wit_kernel pmfs_allocator wit_E None wit_dir wit_file [98] (Some 129) 9 =
      Some (Inr (), wit_file\<lparr>i_mtime := 9, i_ctime := 9\<rparr>, t, J')" "dir_calm t 128 1"
    and xy: "[([97], 128)] = xs @ ys" "dir_names t 128 1 = xs @ ([98], 129) # ys"
    using dir_add_name [of wit_dir wit_file 1 "[98]" 129 0 0 wit_kernel pmfs_allocator wit_E None 9]
    by (auto simp: wit_file_sel wit_dir_ok wit_dir_calm wit_dir_block)
  moreover have "set (dir_names t 128 1) = insert ([98], 129) (set (xs @ ys))" using xy(2) by auto
  moreover have "set (xs @ ys) = {([97], 128)}" by (simp only: xy(1) [symmetric]) simp
  ultimately show ?thesis by auto
qed

text \<open>
  C14. Linking: with a transaction in undo mode and a directory that has room, pmfs_link succeeds; the directory stays well-formed, its names are the old ones in their order with the new one among them under the inode's number, the link count is one more both in memory and on the device, and the truncate list on the device is still the chain of the one in memory.
\<close>

theorem link_adds_name:
  assumes "dir_calm s (i_ino dir) n" "n = i_size dir div 4096"
    and "name \<noteq> []" "length name < 256" "0 < i_ino inode" "i_ino inode < 2 ^ 64"
    and "b < n" "k \<in> set (entry_offsets (pm s) (file_block s (pi_addr s (i_ino dir)) b) 0)"
    and "has_room (pm s) (file_block s (pi_addr s (i_ino dir)) b) (PMFS_DIR_REC_LEN (length name)) k"
    and "table_ino s (i_ino inode)" "i_nlink inode < PMFS_LINK_MAX" "trunc_ok s trunc"
    and "tx_start E (MAX_INODE_LENTRIES * 2 + MAX_DIRENTRY_LENTRIES) s j = Some (Inr tx, j1)" "\<not> redo_log j1"
  shows "\<exists>t j2. pmfs_link K A E V (s, j, trunc) inode dir name = Some (Inr (), inode\<lparr>i_ctime := v_now V, i_nlink := i_nlink inode + 1\<rparr>,
      dir\<lparr>i_mtime := v_now V, i_ctime := v_now V\<rparr>, t, j2, trunc) \<and>
    dir_calm t (i_ino dir) n \<and> (\<exists>xs ys. dir_names s (i_ino dir) n = xs @ ys \<and> dir_names t (i_ino dir) n = xs @ (name, i_ino inode) # ys) \<and>
    pi_links_count t (pi_addr s (i_ino inode)) = i_nlink inode + 1 \<and> trunc_ok t trunc"
  by (rule link_names [OF assms])

lemma link_adds_name_witness: "\<exists>t j2 dir' inode'. pmfs_link wit_kernel pmfs_allocator wit_E wit_vfs (wit_dir, wit_fresh, []) wit_named wit_file [98] =
      Some (Inr (), inode', dir', t, j2, []) \<and> i_nlink inode' = 2 \<and> set (dir_names t 128 1) = {([97], 128), ([98], 256)} \<and> pi_links_count t 37120 = 2"
proof -
  obtain tx j1 where tx: "tx_start wit_E (MAX_INODE_LENTRIES * 2 + MAX_DIRENTRY_LENTRIES) wit_dir wit_fresh = Some (Inr tx, j1)" "\<not> redo_log j1"
    using wit_fresh_tx by blast
  obtain t j2 xs ys where "pmfs_link wit_kernel pmfs_allocator wit_E wit_vfs (wit_dir, wit_fresh, []) wit_named wit_file [98] =
      Some (Inr (), wit_named\<lparr>i_ctime := v_now wit_vfs, i_nlink := Suc 1\<rparr>, wit_file\<lparr>i_mtime := v_now wit_vfs, i_ctime := v_now wit_vfs\<rparr>, t, j2, [])"
      "pi_links_count t 37120 = 2"
    and xy: "[([97], 128)] = xs @ ys" "dir_names t 128 1 = xs @ ([98], 256) # ys"
    using link_adds_name [of wit_dir wit_file 1 "[98]" wit_named 0 0 "[]", OF _ _ _ _ _ _ _ _ _ _ _ _ tx, of wit_kernel pmfs_allocator wit_vfs]
    by (auto simp: wit_file_sel wit_named_sel wit_dir_ok wit_named_ok wit_dir_calm wit_dir_block)
  moreover have "set (dir_names t 128 1) = insert ([98], 256) (set (xs @ ys))" using xy(2) by auto
  moreover have "set (xs @ ys) = {([97], 128)}" by (simp only: xy(1) [symmetric]) simp
  ultimately show ?thesis by auto
qed

text \<open>
  C15. Unlinking: with a transaction in undo mode, pmfs_unlink of a name the directory has succeeds; the directory stays well-formed and has lost exactly the first entry of that name, the link count is one less both in memory and on the device, the inode is in the truncate list in front when this was its last link (the list is untouched otherwise), and the list on the device is still the chain of the one in memory: entry, item, link count and log do not get into each other's way.
\<close>

theorem unlink_takes_name:
  assumes "dir_calm s (i_ino dir) n" "n = i_size dir div 4096" "name \<noteq> []" "name \<in> fst ` set (dir_names s (i_ino dir) n)"
    and "table_ino s (i_ino inode)" "i_ino inode < 2 ^ 64" "0 < i_nlink inode" "i_nlink inode < 2 ^ 16" "trunc_ok s trunc"
    and "tx_start E (MAX_INODE_LENTRIES * 2 + MAX_DIRENTRY_LENTRIES) s j = Some (Inr tx, j1)" "\<not> redo_log j1"
  shows "\<exists>t j2 trunc'. pmfs_unlink A E V (s, j, trunc) dir name inode = Some (Inr (), dir\<lparr>i_mtime := v_now V, i_ctime := v_now V\<rparr>,
      inode\<lparr>i_ctime := v_now V, i_nlink := i_nlink inode - 1\<rparr>, t, j2, trunc') \<and>
    dir_calm t (i_ino dir) n \<and> (\<exists>xs v ys. dir_names s (i_ino dir) n = xs @ (name, v) # ys \<and> dir_names t (i_ino dir) n = xs @ ys \<and> name \<notin> fst ` set xs) \<and>
    pi_links_count t (pi_addr s (i_ino inode)) = i_nlink inode - 1 \<and>
    trunc' = (if i_nlink inode = 1 then List.insert (i_ino inode) trunc else trunc) \<and> trunc_ok t trunc'"
  by (rule unlink_names [OF assms])

lemma unlink_takes_name_witness: "\<exists>t j2 dir' inode'. pmfs_unlink pmfs_allocator wit_E wit_vfs (wit_dir, wit_fresh, []) wit_file [97] wit_named =
      Some (Inr (), dir', inode', t, j2, [256]) \<and> dir_names t 128 1 = [] \<and> pi_links_count t 37120 = 0 \<and> trunc_ok t [256]"
proof -
  obtain tx j1 where tx: "tx_start wit_E (MAX_INODE_LENTRIES * 2 + MAX_DIRENTRY_LENTRIES) wit_dir wit_fresh = Some (Inr tx, j1)" "\<not> redo_log j1"
    using wit_fresh_tx by blast
  obtain t j2 dir' inode' xs v ys where "pmfs_unlink pmfs_allocator wit_E wit_vfs (wit_dir, wit_fresh, []) wit_file [97] wit_named =
      Some (Inr (), dir', inode', t, j2, [256])" "pi_links_count t 37120 = 0" "trunc_ok t [256]"
    and xy: "[([97], 128)] = xs @ ([97], v) # ys" "dir_names t 128 1 = xs @ ys"
    using unlink_takes_name [of wit_dir wit_file 1 "[97]" wit_named "[]", OF _ _ _ _ _ _ _ _ _ tx, of pmfs_allocator wit_vfs]
    by (auto simp: wit_file_sel wit_named_sel wit_dir_ok wit_named_ok)
  moreover have "xs = [] \<and> ys = []" using xy(1) by (cases xs) auto
  ultimately show ?thesis by auto
qed

text \<open>
  C16. Wear-aware allocator: from a consistent state, any run of allocations and releases of held blocks keeps the bins consistent, and the blocks the client holds are distinct and not available.
\<close>

theorem wear_client_safe:
  assumes "client_safe bins_inv bins_avail bins_may_free (s, held)"
  shows "client_safe bins_inv bins_avail bins_may_free (client_run (wear_new zero) wear_free rs (s, held))"
  by (rule wear_alloc.client_run_safe [OF assms])

lemma wear_client_safe_witness: "client_safe bins_inv bins_avail bins_may_free
    (client_run (wear_new True) wear_free [ReqAlloc, ReqAlloc, ReqFree 24, ReqAlloc] (wit_dev, []))"
  by (rule wear_client_safe) (simp add: client_safe_def wit_bins)

text \<open>
  C17. First-fit allocator: from a consistent state, any run of allocations and releases of held blocks keeps the block list ordered and the free count exact, and the blocks the client holds are distinct and not available.
\<close>

theorem pmfs_client_safe:
  assumes "client_safe (\<lambda>s. list_inv s \<and> kmem_ok s) list_avail (\<lambda>s b. list_may_free s b 1) (s, held)"
  shows "client_safe (\<lambda>s. list_inv s \<and> kmem_ok s) list_avail (\<lambda>s b. list_may_free s b 1)
    (client_run (\<lambda>s. pmfs_new_block s 0 zero) (\<lambda>s b. pmfs_free_block s b 0) rs (s, held))"
  by (rule pmfs_alloc.client_run_safe [OF assms])

lemma pmfs_client_safe_witness: "client_safe (\<lambda>s. list_inv s \<and> kmem_ok s) list_avail (\<lambda>s b. list_may_free s b 1)
    (client_run (\<lambda>s. pmfs_new_block s 0 True) (\<lambda>s b. pmfs_free_block s b 0)
      [ReqAlloc, ReqAlloc, ReqFree 14, ReqAlloc] (wit_list_dev, []))"
  by (rule pmfs_client_safe) (simp add: client_safe_def wit_list)

text \<open>
  C18. Formatting: after wpmfs_setup_memory the windows and their tables are consistent, the static window shows the reserved blocks in order, and the reserved size is exactly that of table and window blocks.
\<close>

theorem setup_builds_windows:
  assumes "kernel_vm_ok K" "kernel_areas_apart K" "enabled (vmapi s)" "reserved = 4096 * n" "map_pages n + n < 2 ^ 45" "0 < n"
    and "wpmfs_setup_memory K s reserved = (True, r', s')"
  shows "vmap_wf s' \<and> window_blocks s' = [map_pages n..<map_pages n + n] \<and>
    table_blocks s' \<union> set (window_blocks s') = {0..<r' div 4096}"
  using setup_memory_wf [OF assms] by blast

lemma setup_builds_windows_witness: "\<exists>r' s'. wpmfs_setup_memory wit_kernel wit_dev 8192 = (True, r', s') \<and> vmap_wf s'"
proof -
  have "fst (wpmfs_setup_memory wit_kernel wit_dev 8192)"
  proof -
    have "\<exists>r1 s1. setup_vmap_static wit_kernel wit_dev 8192 = (True, r1, s1)"
      by (simp add: setup_vmap_static_def wit_kernel_def Let_def) (simp add: PM_STORE_def wit_sel)
    moreover have "fst (setup_vmap_dynamic wit_kernel t r)" for t r
      by (simp add: setup_vmap_dynamic_def wit_kernel_def Let_def)
    ultimately show ?thesis by (auto simp: wpmfs_setup_memory_def wit_sel)
  qed
  then obtain r' s' where ok: "wpmfs_setup_memory wit_kernel wit_dev 8192 = (True, r', s')"
    by (cases "wpmfs_setup_memory wit_kernel wit_dev 8192") auto
  have "enabled (vmapi wit_dev)" by (simp add: wit_sel)
  from setup_builds_windows [OF wit_kernel_ok wit_kernel_apart this _ _ _ ok, of 2] ok show ?thesis
    by (simp add: map_pages_def)
qed



text \<open>
  C20. Growing the dynamic window: the new window page shows the mapped block, the windows stay consistent, and the returned block offset leads to that page.
\<close>

theorem dynamic_page_shows_block:
  assumes "kernel_vm_ok K" "vmap_wf s" "dynamic_pages s < 5120" "blocknr_ok b"
    and "b \<notin> set (window_blocks s)" "b \<notin> table_blocks s" "wpmfs_map_dynamic_page K s b = Some (bo, s')" "x < 4096"
  shows "vmap_wf s' \<and> window_blocks s' = window_blocks s @ [b] \<and>
    (\<exists>va. wpmfs_get_block (s\<lparr>vmapi := (vmapi s')\<lparr>enabled := True\<rparr>\<rparr>) bo = Some va \<and>
      vread s' (va + x) = Some (pm s (b * 4096 + x)))"
  using map_dynamic_page_wf [OF assms(1-7)] map_dynamic_page_read [OF assms(1-4,6-8)] by blast

lemma dynamic_page_shows_block_witness: "\<exists>bo s'. wpmfs_map_dynamic_page wit_kernel wit_dev 14 = Some (bo, s') \<and> window_blocks s' = [1, 2, 13, 14]"
proof -
  have b: "blocknr_ok (head_blocknr wit_dev)" "blocknr_ok 14" by (simp_all add: wit_tables)
  obtain bo s' where m: "wpmfs_map_dynamic_page wit_kernel wit_dev 14 = Some (bo, s')"
    by (rule map_dynamic_page_Some [OF b])
  from dynamic_page_shows_block [OF wit_kernel_ok wit_vmap _ b(2) _ _ m, of 0] m show ?thesis
    by (simp add: wit_windows wit_tables)
qed

text \<open>
  C21. First-fit allocator: releasing a run that lies in one node makes exactly its blocks available again and keeps the block list consistent, for every block size.
\<close>

theorem free_returns_run:
  assumes "list_inv s" "list_may_free s b (pmfs_get_numblocks btype)" "kmem_ok s"
  shows "list_inv (pmfs_free_block s b btype) \<and>
    list_avail (pmfs_free_block s b btype) = list_avail s \<union> {b..<b + pmfs_get_numblocks btype}"
  using pmfs_free_block_sound [OF assms] by blast

lemma free_returns_run_witness: "list_inv (pmfs_free_block wit_full_dev 5 0) \<and>
    list_avail (pmfs_free_block wit_full_dev 5 0) = list_avail wit_full_dev \<union> {5..<5 + pmfs_get_numblocks 0}"
  by (rule free_returns_run)
    (simp_all add: wit_full list_may_free_def, auto simp: wit_full_dev_def wit_sel node_blocks_def)

text \<open>
  C22. First-fit allocator: a successful allocation of 4K, 2M or 1G returns an aligned run of available blocks, which are exactly the blocks that stop being available.
\<close>

theorem new_block_takes_aligned_run:
  assumes "list_inv s" "pmfs_new_block s btype zero = (Inr b, s')"
  shows "list_inv s' \<and> pmfs_get_numblocks btype dvd b \<and> {b..<b + pmfs_get_numblocks btype} \<subseteq> list_avail s \<and>
    list_avail s' = list_avail s - {b..<b + pmfs_get_numblocks btype}"
  using pmfs_new_block_sound [OF assms] by blast

lemma new_block_takes_aligned_run_witness: "\<exists>b s'. pmfs_new_block wit_list_dev 0 False = (Inr b, s') \<and> list_inv s' \<and>
    {b..<b + pmfs_get_numblocks 0} \<subseteq> list_avail wit_list_dev"
proof -
  have "\<exists>b s'. pmfs_new_block wit_list_dev 0 False = (Inr b, s') \<and> b \<le> 20"
    by (rule pmfs_new_block_first_fit) (simp_all add: wit_list)
  then obtain b s' where "pmfs_new_block wit_list_dev 0 False = (Inr b, s')" by blast
  with new_block_takes_aligned_run [OF wit_list(1) this] show ?thesis by blast
qed

text \<open>
  C23. Wear-aware allocator: with the unused blocks gone, the block comes from the first non-empty bin, never the last one, and is the oldest of that bin.
\<close>

theorem wear_least_worn:
  assumes "unused_block_high s - unused_block_low s = 0" "wpmfs_new_block s 0 zero = Some (Inr b, s')"
  shows "\<exists>k. k < num_bins s - 1 \<and> k < length (block_bins s) \<and> block_bins s ! k \<noteq> []
    \<and> b = last (block_bins s ! k) \<and> (\<forall>i<k. block_bins s ! i = [])"
  by (rule wpmfs_new_block_least_worn [OF assms])

lemma wear_least_worn_witness: "\<exists>k. k < 2 \<and> (20::nat) = last ([[20], [], [21]] ! k) \<and> (\<forall>i<k. [[20], [], [21::nat]] ! i = [])"
proof -
  let ?s = "wit_dev\<lparr>unused_block_low := 32, num_free_blocks := 2\<rparr>"
  have "\<exists>s'. wpmfs_new_block ?s 0 False = Some (Inr 20, s')"
    by (simp add: wpmfs_new_block_def wpmfs_new_block_locked_def wit_sel numeral_2_eq_2)
  then obtain s' where "wpmfs_new_block ?s 0 False = Some (Inr 20, s')" ..
  from wear_least_worn [OF _ this] show ?thesis by (simp add: wit_sel) blast
qed

text \<open>
  C24. Wear-aware allocator: a released block becomes available unless its page's counter puts it in the last bin; then it is kept but never served.
\<close>

theorem wear_free_retires:
  assumes "bins_inv s" "bins_may_free s b" "wpmfs_free_block s b 0 = Some s'"
  shows "bins_inv s' \<and> set (concat (block_bins s')) = insert b (set (concat (block_bins s))) \<and>
    bins_avail s' = (if wpmfs_get_bin s b = Some (int (num_bins s) - 1) then bins_avail s else insert b (bins_avail s))"
  using wpmfs_free_block_sound [OF assms] by blast

lemma wear_free_retires_witness: "\<exists>s'. wpmfs_free_block wit_dev 22 0 = Some s' \<and> bins_inv s' \<and> bins_avail s' = bins_avail wit_dev"
proof -
  have bin: "wpmfs_get_bin wit_dev 22 = Some (int (num_bins wit_dev) - 1)"
    by (simp add: wpmfs_get_bin_def wit_sel wt_cnter_read_pfn_def get_int_thres_size_eq thres_ok_def)
  then obtain s' where s': "wpmfs_free_block wit_dev 22 0 = Some s'"
    by (auto simp: wpmfs_free_block_def wpmfs_free_block_locked_def Let_def wit_sel)
  have "bins_may_free wit_dev 22" by (simp add: bins_may_free_def wit_sel)
  from wear_free_retires [OF wit_bins(1) this s'] bin s' show ?thesis by auto
qed



text \<open>
  C26. Wear levelling on a full device under the first-fit allocator releases the block that the window page still shows.
\<close>

theorem migration_full_frees_live:
  assumes "vmap_wf s" "4096 dvd phys_addr s" "c \<in> set (window_blocks s)"
    and "list_inv s" "kmem_ok s" "list_may_free s c 1" "pmfs_new_block s 0 False = (Inl ENOSPC, s)"
  shows "\<exists>s'. level_type_vmap pmfs_allocator s (phys_addr s div 4096 + c) = Some s' \<and> c \<in> list_avail s' \<and>
    vmap_pt s' (window_vpage s c) = Some (c, True)"
  by (rule level_type_vmap_full [OF assms])

lemma migration_full_frees_live_witness: "\<exists>s'. level_type_vmap pmfs_allocator wit_full_dev (phys_addr wit_full_dev div 4096 + 1) = Some s' \<and>
    1 \<in> list_avail s' \<and> vmap_pt s' (window_vpage wit_full_dev 1) = Some (1, True)"
proof (rule migration_full_frees_live)
  show "pmfs_new_block wit_full_dev 0 False = (Inl ENOSPC, wit_full_dev)" "4096 dvd phys_addr wit_full_dev"
    by (simp_all add: wit_full_dev_def wit_sel pmfs_new_block_def new_scan_step)
qed (rule wit_full wit_list_vmap | simp add: wit_list_windows)+



text \<open>
  C28. Truncation (first-fit allocator): for a file whose tree has no empty nodes and whose block count is right, __pmfs_truncate_blocks never runs into an assertion. Afterwards exactly the blocks from the first one behind the new size are gone, the tree is well-formed, only blocks the file has given up have become free, and the counts in the kernel's and the stored inode are the number of blocks left.
\<close>

theorem truncate_frees_tail_pmfs:
  assumes "file_ok list_avail pi s" "list_inv s \<and> kmem_ok s" "\<forall>q\<in>file_blocks s pi. list_may_free s (q div 4096) 1"
    and "tree_lean (pi_height s pi) (pm s) (pi_root s pi)"
    and "truncate_range s pi start end' = Some (first, la)" "\<And>n. la < n \<Longrightarrow> file_block s pi n = 0"
    and "i_blocks ino = card {n. file_block s pi n \<noteq> 0}" "i_blocks ino < 2 ^ 64"
    and "s_mount_opt s AND PMFS_MOUNT_MOUNTING = 0"
  shows "\<exists>ino' t. pmfs_truncate_at pmfs_allocator s ino pi start end' now = Some (ino', t) \<and>
      file_ok list_avail pi t \<and> list_inv t \<and> kmem_ok t \<and>
      (\<forall>n. file_block t pi n = (if first \<le> n then 0 else file_block s pi n)) \<and>
      (\<forall>b\<in>list_avail t. b \<in> list_avail s \<or> b * 4096 \<in> file_blocks s pi - file_blocks t pi) \<and>
      i_blocks ino' = card {n. file_block t pi n \<noteq> 0} \<and> pi_blocks t pi = i_blocks ino'"
proof -
  note R = pmfs_release.truncate_at_ok [OF assms, of now, unfolded returns_def pmfs_release.file_cut_def pmfs_release.released_def]
  obtain ino' t where r: "pmfs_truncate_at pmfs_allocator s ino pi start end' now = Some (ino', t)"
    using R by (cases "pmfs_truncate_at pmfs_allocator s ino pi start end' now") auto
  show ?thesis
    by (rule exI [of _ ino'], rule exI [of _ t]) (use R in \<open>simp add: r\<close>)
qed

lemma truncate_frees_tail_pmfs_witness: "\<exists>ino' t. pmfs_truncate_at pmfs_allocator wit_tree_list wit_vinode 53248 4096 24576 7 = Some (ino', t) \<and>
    file_block t 53248 0 = 45056 \<and> file_block t 53248 5 = 0"
proof -
  have "\<exists>ino' t. pmfs_truncate_at pmfs_allocator wit_tree_list wit_vinode 53248 4096 24576 7 = Some (ino', t) \<and>
      file_ok list_avail 53248 t \<and> list_inv t \<and> kmem_ok t \<and>
      (\<forall>n. file_block t 53248 n = (if 1 \<le> n then 0 else file_block wit_tree_list 53248 n)) \<and>
      (\<forall>b\<in>list_avail t. b \<in> list_avail wit_tree_list \<or>
         b * 4096 \<in> file_blocks wit_tree_list 53248 - file_blocks t 53248) \<and>
      i_blocks ino' = card {n. file_block t 53248 n \<noteq> 0} \<and> pi_blocks t 53248 = i_blocks ino'"
    by (rule truncate_frees_tail_pmfs [where la = 5])
      (use wit_tree_ok wit_tree_trunc wit_tree_fields [OF wit_tree_pm_sel(1)] in \<open>simp_all add: wit_tree_blocks wit_tree_pm_sel wit_vinode_def\<close>,
        simp add: wit_tree_list_def wit_list_dev_def wit_dev_def)
  then show ?thesis by (auto simp: wit_tree_blocks)
qed







text \<open>
  C32. The height chosen for a file's tree is at least the present one, covers the last block number, and a tree one level lower would not unless the height stays.
\<close>

theorem tree_height_bounds:
  "h \<le> wanted_height h n \<and> n < FANOUT ^ wanted_height h n \<and>
    (\<forall>k. h \<le> k \<and> n < FANOUT ^ k \<longrightarrow> wanted_height h n \<le> k)"
proof (intro conjI allI impI)
  show "h \<le> wanted_height h n" "n < FANOUT ^ wanted_height h n" using wanted_height_enough(1) by blast+
  fix k assume k: "h \<le> k \<and> n < FANOUT ^ k"
  then have "n < FANOUT ^ h * FANOUT ^ (k - h)" by (simp add: power_add [symmetric])
  then have "n div FANOUT ^ h < FANOUT ^ (k - h)" by (simp add: less_mult_imp_div_less mult.commute)
  with grow_height_least [of "n div FANOUT ^ h" "k - h" h] k show "wanted_height h n \<le> k"
    by (simp add: wanted_height_def)
qed

lemma tree_height_bounds_witness: "wanted_height 1 600 \<le> 2"
  using tree_height_bounds [of 1 600] by (simp add: FANOUT_def)





text \<open>
  C35. Building the block list (first-fit allocator): when the marked blocks of the three bitmaps are free and do not overlap, inserting all runs of set bits succeeds, the list stays an ordered list of disjoint nodes whose counters agree with it, and exactly the marked blocks are no longer available; a bit of the larger bitmaps stands for 512 or 262144 blocks.
\<close>

theorem build_map_exact:
  assumes "list_inv s" "kmem_ok s" "block_start s = 0"
    and "1 \<le> bitmap_4k_size bm * 8" "1 \<le> bitmap_2M_size bm * 8" "1 \<le> bitmap_1G_size bm * 8"
    and "bitmap_4k bm \<subseteq> {1..<bitmap_4k_size bm * 8}" "bitmap_2M bm \<subseteq> {1..<bitmap_2M_size bm * 8}"
    and "bitmap_1G bm \<subseteq> {1..<bitmap_1G_size bm * 8}"
    and "bitmap_4k bm \<union> scaled 9 (bitmap_2M bm) \<union> scaled 18 (bitmap_1G bm) \<subseteq> list_avail s"
    and "bitmap_4k bm \<inter> scaled 9 (bitmap_2M bm) = {}" "bitmap_4k bm \<inter> scaled 18 (bitmap_1G bm) = {}"
    and "scaled 9 (bitmap_2M bm) \<inter> scaled 18 (bitmap_1G bm) = {}"
  shows "list_inv (pmfs_build_blocknode_map bm s) \<and>
    list_avail (pmfs_build_blocknode_map bm s) =
      list_avail s - (bitmap_4k bm \<union> scaled 9 (bitmap_2M bm) \<union> scaled 18 (bitmap_1G bm))"
  using build_map_ok [OF _ assms(3-13)] assms(1,2) by (simp add: map_ok_def)

lemma build_map_exact_witness: "list_avail (pmfs_build_blocknode_map
    \<lparr>bitmap_4k_size = 5, bitmap_2M_size = 1, bitmap_1G_size = 1, bitmap_4k = {15, 16, 20}, bitmap_2M = {}, bitmap_1G = {}\<rparr>
    wit_list_dev) = {14..<32} - {15, 16, 20}"
proof -
  let ?bm = "\<lparr>bitmap_4k_size = 5, bitmap_2M_size = 1, bitmap_1G_size = 1, bitmap_4k = {15, 16, 20}, bitmap_2M = {}, bitmap_1G = {}\<rparr>"
  have "block_start wit_list_dev = 0" by (simp add: wit_list_dev_def wit_sel)
  from build_map_exact [OF wit_list(1,3) this, of ?bm] show ?thesis by (simp add: wit_list(2))
qed



text \<open>
  C37. Storing an inode: what pmfs_update_inode wrote, pmfs_read_inode reads back, whatever was there before: mode, owner, links, size (of files, directories and links), blocks, times, generation, the five flags both sides know and the device number of special files; an unlinked inode with mode 0 or a deletion time is reported stale.
\<close>

theorem inode_round_trip:
  assumes "vinode_fits inode"
  shows "pmfs_read_inode (pmfs_update_inode s pi inode) pi base =
    (if i_nlink inode = 0 \<and> (i_mode inode = 0 \<or> pi_dtime s pi \<noteq> 0) then Inl ESTALE else Inr (stored_part inode base))"
  by (rule inode_comes_back [OF assms])

lemma inode_round_trip_witness: "\<exists>v. pmfs_read_inode (pmfs_update_inode wit_mount 36992 wit_file) 36992 wit_vinode = Inr v \<and> i_mode v = 0x81A4 \<and> i_size v = 4096"
  using inode_round_trip [of wit_file wit_mount 36992 wit_vinode]
  by (simp add: vinode_fits_def wit_file_def stored_part_def sized_inode_def special_inode_def S_ISREG_def)

text \<open>
  C38. The truncate list: the list on the device is always the chain of the inodes that the list in memory holds; adding an inode puts it in front (once only), taking one out leaves the others in their order, and both return.
\<close>

theorem truncate_list_mirrors:
  assumes "trunc_ok s is" "table_ino s ino" "ino < 2 ^ 64"
  shows "(\<exists>t. pmfs_truncate_add A s is ino sz = Some (t, if ino \<in> set is then is else ino # is) \<and>
      trunc_ok t (if ino \<in> set is then is else ino # is)) \<and>
    (\<exists>t. pmfs_truncate_del A s is ino = Some (t, remove1 ino is) \<and> trunc_ok t (remove1 ino is))"
proof (cases "ino \<in> set is")
  case True
  then show ?thesis using truncate_del_ok [OF assms(1) True] assms(1) by (simp add: pmfs_truncate_add_def)
next
  case False
  then show ?thesis
    using truncate_add_ok [OF assms(1-3) False] assms(1) by (auto simp: pmfs_truncate_del_def remove1_idem)
qed

lemma truncate_list_mirrors_witness: "\<exists>t. pmfs_truncate_add pmfs_allocator wit_mount [] 128 4096 = Some (t, [128]) \<and> trunc_ok t [128]"
proof -
  have "le_load 8 wit_mount_pm 4184 = 0" by (rule le_load_zero) (auto simp: wit_mount_pm_def)
  then have "trunc_ok wit_mount []" by (simp add: trunc_ok_def wit_table truncate_head_def wit_mount_super wit_mount_sel)
  with truncate_list_mirrors [of wit_mount "[]" 128 pmfs_allocator 4096] show ?thesis by (simp add: wit_table)
qed

text \<open>
  C39. Checking the super block at mount: one with the right magic number is accepted when its checksum or the one of its copy is right; one without is accepted as soon as the copy has the magic number, whatever the checksum of the copy. After an accepting check the checksum of the first super block is right, because a repair makes it anew.
\<close>

theorem super_block_accepted:
  "(fst (pmfs_check_integrity crc16 now s ps) \<longleftrightarrow>
     (if sb_magic s ps = PMFS_SUPER_MAGIC
      then \<not> pmfs_calc_checksum crc16 s ps PMFS_SB_STATIC_SIZE \<or> \<not> pmfs_calc_checksum crc16 s (ps + PMFS_SB_SIZE) PMFS_SB_STATIC_SIZE
      else sb_magic s (ps + PMFS_SB_SIZE) = PMFS_SUPER_MAGIC)) \<and>
   (fst (pmfs_check_integrity crc16 now s ps) \<longrightarrow>
     \<not> pmfs_calc_checksum crc16 (snd (pmfs_check_integrity crc16 now s ps)) ps PMFS_SB_STATIC_SIZE)"
  using integrity_checksum [of crc16 now s ps "snd (pmfs_check_integrity crc16 now s ps)"]
  by (metis (full_types) integrity_iff prod.collapse)

lemma super_block_accepted_witness: "fst (pmfs_check_integrity (\<lambda>_ _. 0) 9 (wit_mount\<lparr>pm := (\<lambda>x. if x = 514 then 0xFC else if x = 515 then 0xEF else 0)\<rparr>) 0)"
  using super_block_accepted [of "\<lambda>_ _. 0" 9 "wit_mount\<lparr>pm := (\<lambda>x. if x = 514 then 0xFC else if x = 515 then 0xEF else 0)\<rparr>" 0]
  by (simp add: sb_magic_def wit_two_bytes)

text \<open>
  C40. Wear levelling of a page mapped by processes, with a file whose only block is the root of its tree (first-fit allocator): when the radix-tree entry is free, the worker hands the block back to the allocator, but the file still shows it, because the replacement in the tree changes only slots of nodes.
\<close>

theorem rmap_one_block_frees_live:
  assumes "calm s ino" "pi_height s (pi_addr s ino) = 0" "pi_root s (pi_addr s ino) = c * 4096" "c \<noteq> 0"
    and "page_mapping s c = Some ino" "igrab ino" "\<forall>k. entry_free ino k" "4096 dvd phys_addr s"
    and "list_inv s" "kmem_ok s" "list_may_free s c 1" "pmfs_new_block s 0 False = (Inr b, s1)"
  shows "\<exists>t. level_type_rmap pmfs_allocator igrab entry_free s (phys_addr s div 4096 + c) = Some t \<and>
    c \<in> list_avail t \<and> file_block t (pi_addr s ino) 0 = c * 4096"
  using assms by (intro rmap_frees_live) auto

lemma rmap_one_block_frees_live_witness: "\<exists>t. level_type_rmap pmfs_allocator (\<lambda>_. True) (\<lambda>_ _. True) wit_mapped 26 = Some t \<and>
    10 \<in> list_avail t \<and> file_block t 36992 0 = 40960"
proof -
  obtain b s1 where "pmfs_new_block wit_mapped 0 False = (Inr b, s1)"
    using pmfs_new_block_first_fit [OF wit_mapped_list(1,2), of 0 20 False] by (auto simp: wit_mapped_list(4))
  moreover have "page_mapping wit_mapped 10 = Some 128" "phys_addr wit_mapped = 65536" by (simp_all add: wit_mapped_def wit_mount_sel)
  ultimately show ?thesis
    using rmap_one_block_frees_live [of wit_mapped 128 10 "\<lambda>_. True" "\<lambda>_ _. True" b s1] wit_mapped_list wit_mapped_calm wit_mapped_fields
    by simp
qed


section \<open>Further facts\<close>

text \<open>
  First-fit allocator: if some aligned run of the wanted size is available, the allocation succeeds, and what it returns lies no higher than that run.
\<close>

theorem new_block_first_fit:
  assumes "list_inv s" "kmem_ok s" "pmfs_get_numblocks btype dvd y" "{y..<y + pmfs_get_numblocks btype} \<subseteq> list_avail s"
  shows "\<exists>b s'. pmfs_new_block s btype zero = (Inr b, s') \<and> b \<le> y"
  by (rule pmfs_new_block_first_fit [OF assms])

lemma new_block_first_fit_witness: "\<exists>b s'. pmfs_new_block wit_list_dev 0 True = (Inr b, s') \<and> b \<le> 17"
  by (rule new_block_first_fit) (simp_all add: wit_list)

text \<open>
  Releasing with a start hint gives the same state as releasing without one, for every node of an ordered list as hint.
\<close>

theorem free_hint_equivalent:
  assumes "blocklist_wf be (block_inuse_head s)" "k < length (block_inuse_head s)"
  shows "fst (pmfs_free_block_locked s b btype (Some (Some k))) = fst (pmfs_free_block_locked s b btype None)"
  by (rule hint_equiv [OF assms])

lemma free_hint_equivalent_witness: "fst (pmfs_free_block_locked wit_full_dev 5 0 (Some (Some 0))) = fst (pmfs_free_block_locked wit_full_dev 5 0 None)"
  by (rule free_hint_equivalent [where be = 32]) (simp_all add: wit_full_dev_def wit_sel blocklist_wf_def)

text \<open>
  Wear-aware allocator: the only error is -ENOMEM, it is reported exactly when nothing is available, and it changes nothing.
\<close>

theorem wear_new_block_error:
  assumes "bins_inv s"
  shows "wpmfs_new_block s 0 zero = Some (Inl e, s') \<longleftrightarrow> bins_avail s = {} \<and> e = ENOMEM \<and> s' = s"
  by (rule wpmfs_new_block_err [OF assms])

lemma wear_new_block_error_witness: "wpmfs_new_block wit_dev 0 True \<noteq> Some (Inl ENOMEM, wit_dev)"
proof -
  have "24 \<in> bins_avail wit_dev" by (simp add: wit_bins)
  with wear_new_block_error [OF wit_bins(1), of True ENOMEM wit_dev] show ?thesis by auto
qed

text \<open>
  Write tracking: an interrupt is signalled exactly when a multiple of the threshold lies above the old counter and at or below the new one.
\<close>

theorem threshold_signal:
  assumes "thres_ok s" "unat (wt_cnt s pfn) + unat cnt < 2 ^ 64"
  shows "fst (wt_cnter_add s pfn cnt) \<longleftrightarrow> (\<exists>k. unat (wt_cnt s pfn) < k * 2 ^ int_thres_power s
       \<and> k * 2 ^ int_thres_power s \<le> unat (wt_cnt s pfn) + unat cnt)"
  by (rule wt_cnter_add_signal_multiple [OF assms])

lemma threshold_signal_witness: "fst (wt_cnter_add wit_dev 5 131072) \<and> \<not> fst (wt_cnter_add wit_dev 5 131071)"
proof -
  have ok: "thres_ok wit_dev" "wt_cnt wit_dev 5 = 0" "int_thres_power wit_dev = 17"
    by (simp_all add: thres_ok_def wit_sel)
  have "\<exists>k. 0 < k * 2 ^ 17 \<and> k * 2 ^ 17 \<le> (131072::nat)" by (rule exI [of _ 1]) simp
  moreover have "\<not> (\<exists>k. 0 < k * 2 ^ 17 \<and> k * 2 ^ 17 \<le> (131071::nat))" 
  proof
    assume "\<exists>k. 0 < k * 2 ^ 17 \<and> k * 2 ^ 17 \<le> (131071::nat)"
    then obtain k :: nat where "0 < k" "k * 131072 \<le> 131071" by auto
    then show False by linarith
  qed
  ultimately show ?thesis
    using threshold_signal [OF ok(1), of 5 131072] threshold_signal [OF ok(1), of 5 131071] by (simp add: ok)
qed

text \<open>
  Write tracking with and without interrupts leaves the same counters.
\<close>

theorem intless_same_counters:
  "wt_cnt (snd (wt_cnter_track_addr_intless f s addr cnt)) = wt_cnt (wt_cnter_track_addr f s addr cnt)"
  by (rule wt_intless_same_counters)

text \<open>
  Block offsets: an address of the device or of a window survives being stored as a block offset and read back, the first address of the static window excepted, whose offset reads as null.
\<close>

theorem blockoff_round_trip:
  assumes "enabled (vmapi s)" "wpmfs_reget_blockoff is_vm s addr = Some bo"
    and "\<not> is_vm addr \<Longrightarrow> virt_addr s < addr \<and> addr - virt_addr s < 2 ^ 57"
    and "is_vm addr \<Longrightarrow> addr \<noteq> base_static (vmapi s)"
    and "size_static (vmapi s) \<le> 2 ^ 57" "size_dynamic (vmapi s) \<le> 2 ^ 57"
  shows "wpmfs_get_block s bo = Some addr"
  by (rule get_block_reget [OF assms])

lemma blockoff_round_trip_witness: "\<exists>bo. wpmfs_reget_blockoff (\<lambda>_. True) wit_dev 1073750016 = Some bo \<and> wpmfs_get_block wit_dev bo = Some 1073750016"
proof -
  have e: "wpmfs_reget_blockoff (\<lambda>_. True) wit_dev 1073750016 = Some (wb_make 4096 1)"
    by (simp add: wpmfs_reget_blockoff_def wit_sel)
  have "wpmfs_get_block wit_dev (wb_make 4096 1) = Some 1073750016"
    by (rule blockoff_round_trip [OF _ e]) (simp_all add: wit_sel)
  with e show ?thesis by blast
qed

text \<open>
  Wear levelling of a window page, first-fit allocator: the new block takes the tired block's place, the windows stay consistent and every load through them reads what it read before.
\<close>

theorem migration_transparent_pmfs:
  assumes "vmap_wf s" "4096 dvd phys_addr s" "c \<in> set (window_blocks s)" "list_inv s \<and> kmem_ok s"
    and "list_avail s \<inter> (set (window_blocks s) \<union> table_blocks s) = {}" "\<forall>x\<in>list_avail s. blocknr_ok x"
    and "pmfs_new_block s 0 False = (Inr b, s1)" "level_type_vmap pmfs_allocator s (phys_addr s div 4096 + c) = Some s'" "va div 4096 \<in> window_pages s"
  shows "vmap_wf s' \<and> window_blocks s' = map (\<lambda>x. if x = c then b else x) (window_blocks s) \<and> vread s' va = vread s va"
  using pmfs_fs.level_type_vmap_transparent [OF assms(1-8)] assms(9) by blast

lemma migration_transparent_pmfs_witness: "\<exists>b s'. level_type_vmap pmfs_allocator wit_list_dev (phys_addr wit_list_dev div 4096 + 2) = Some s' \<and>
    window_blocks s' = [1, b, 13] \<and> vread s' 1073750016 = vread wit_list_dev 1073750016"
proof -
  obtain b s1 where new: "pmfs_new_block wit_list_dev 0 False = (Inr b, s1)" using wit_new by blast
  obtain s' where lev: "level_type_vmap pmfs_allocator wit_list_dev (phys_addr wit_list_dev div 4096 + 2) = Some s'" using wit_level by blast
  have c: "2 \<in> set (window_blocks wit_list_dev)" "4096 dvd phys_addr wit_list_dev" "1073750016 div 4096 \<in> window_pages wit_list_dev"
    by (simp_all add: wit_windows wit_list_windows, simp_all add: wit_list_dev_def wit_sel window_pages_def)
  from migration_transparent_pmfs [OF wit_list_vmap(1) c(2,1) _ _ _ new lev c(3)] lev show ?thesis
    by (auto simp: wit_list_windows wit_list)
qed

text \<open>
  Growing a file (first-fit allocator): __pmfs_alloc_blocks always returns; blocks the file had keep their place, blocks outside the range stay as they are, nothing outside the file's nodes, its inode and the blocks newly taken is written, and on success the whole range is backed by blocks. The tree stays well-formed: no block is used twice.
\<close>

theorem alloc_fills_range_pmfs:
  assumes "file_ok list_avail pi s" "list_inv s \<and> kmem_ok s" "0 < num" "fb + num < 2 ^ 64"
  shows "\<exists>r t J'. pmfs_alloc_blocks_at K pmfs_allocator E s J pi fb num z 0 = Some (r, t, J') \<and> list_inv t \<and> kmem_ok t \<and> file_ok list_avail pi t \<and>
    (\<forall>n. file_block s pi n \<noteq> 0 \<or> n \<notin> {fb..<fb + num} \<longrightarrow> file_block t pi n = file_block s pi n) \<and>
    (\<forall>x. page_of x \<notin> file_blocks s pi \<union> got list_avail s t \<longrightarrow> x \<notin> {pi..<pi + 128} \<longrightarrow> pm t x = pm s x) \<and>
    (r = Inr () \<longrightarrow> (\<forall>n\<in>{fb..<fb + num}. file_block t pi n \<noteq> 0))"
proof -
  obtain r t J' where "pmfs_alloc_blocks_at K pmfs_allocator E s J pi fb num z 0 = Some (r, t, J')"
    "pmfs_tree.file_grown pi {fb..<fb + num} s t"
    "case r of Inl _ \<Rightarrow> True | Inr _ \<Rightarrow> \<forall>n\<in>{fb..<fb + num}. file_block t pi n \<noteq> 0"
    using pmfs_tree.alloc_blocks_at [of pi s num fb K E J z] assms by blast
  then show ?thesis
    using rnodes_sub [of "pi_height s pi" "pm s" "pi_root s pi"]
    unfolding pmfs_tree.file_grown_def file_ext_def root_ext_def file_block_def file_blocks_def
    by (intro exI [of _ r] exI [of _ t] exI [of _ J']) (auto simp: subset_iff)
qed

lemma alloc_fills_range_pmfs_witness: "\<exists>r t J'. pmfs_alloc_blocks_at wit_kernel pmfs_allocator wit_E wit_tree_list None 53248 0 600 True 0 = Some (r, t, J') \<and>
    file_block t 53248 5 = 49152"
proof -
  obtain r t J' where g: "pmfs_alloc_blocks_at wit_kernel pmfs_allocator wit_E wit_tree_list None 53248 0 600 True 0 = Some (r, t, J')"
    "\<forall>n. file_block wit_tree_list 53248 n \<noteq> 0 \<or> n \<notin> {0..<0 + 600} \<longrightarrow> file_block t 53248 n = file_block wit_tree_list 53248 n"
    using alloc_fills_range_pmfs [of 53248 wit_tree_list 600 0 wit_kernel wit_E None True] wit_tree_ok by (auto simp del: atLeastLessThan_iff)
  from g(2) [rule_format, of 5] g(1) show ?thesis by (auto simp: wit_tree_blocks)
qed

text \<open>
  Truncation (wear-aware allocator): the same outcome whenever the function returns; a release may stop at its assertion when a page's counter is beyond the endurance the bins are made for.
\<close>

theorem truncate_frees_tail_wear:
  assumes "file_ok bins_avail pi s" "bins_inv s" "\<forall>q\<in>file_blocks s pi. bins_may_free s (q div 4096)"
    and "tree_lean (pi_height s pi) (pm s) (pi_root s pi)"
    and "truncate_range s pi start end' = Some (first, la)" "\<And>n. la < n \<Longrightarrow> file_block s pi n = 0"
    and "i_blocks ino = card {n. file_block s pi n \<noteq> 0}" "i_blocks ino < 2 ^ 64"
    and "s_mount_opt s AND PMFS_MOUNT_MOUNTING = 0"
    and "pmfs_truncate_at wpmfs_allocator s ino pi start end' now = Some (ino', t)"
  shows "file_ok bins_avail pi t \<and> bins_inv t \<and>
    (\<forall>n. file_block t pi n = (if first \<le> n then 0 else file_block s pi n)) \<and>
    (\<forall>b\<in>bins_avail t. b \<in> bins_avail s \<or> b * 4096 \<in> file_blocks s pi - file_blocks t pi) \<and>
    i_blocks ino' = card {n. file_block t pi n \<noteq> 0} \<and> pi_blocks t pi = i_blocks ino'"
  using wear_release.truncate_at_ok [OF assms(1-9), of now, unfolded returns_def wear_release.file_cut_def
      wear_release.released_def] assms(10)
  by simp

lemma truncate_frees_tail_wear_witness: "\<exists>ino' t. pmfs_truncate_at wpmfs_allocator wit_one_wear (wit_vinode\<lparr>i_blocks := 1\<rparr>) 53248 0 4096 7 = Some (ino', t) \<and>
    file_block t 53248 0 = 0"
proof -
  obtain ino' t where r: "pmfs_truncate_at wpmfs_allocator wit_one_wear (wit_vinode\<lparr>i_blocks := 1\<rparr>) 53248 0 4096 7 = Some (ino', t)"
    using wit_one_returns by blast
  have "s_mount_opt wit_one_wear = 0" by (simp add: wit_one_wear_def wit_tree_wear_def wit_dev_def)
  then have "\<forall>n. file_block t 53248 n = (if 0 \<le> n then 0 else file_block wit_one_wear 53248 n)"
    using truncate_frees_tail_wear [OF _ _ _ _ _ _ _ _ _ r, of 0 0] wit_one_ok wit_one_fields by simp
  with r show ?thesis by simp
qed

text \<open>
  Removing a name: when the directory has it, pmfs_remove_entry succeeds, the blocks stay well-formed and the names of the directory are the old ones without the first entry of this name; when it does not, the answer is EINVAL and neither the device nor the transaction has changed.
\<close>

theorem dir_remove_name:
  assumes "dir_calm s (i_ino dir) n" "n = i_size dir div 4096" "name \<noteq> []"
  shows "if name \<in> fst ` set (dir_names s (i_ino dir) n) then
      \<exists>t J'. pmfs_remove_entry A E J s dir name now = Some (Inr (), dir\<lparr>i_mtime := now, i_ctime := now\<rparr>, t, J') \<and> dir_calm t (i_ino dir) n \<and>
        (\<exists>xs i ys. dir_names s (i_ino dir) n = xs @ (name, i) # ys \<and> dir_names t (i_ino dir) n = xs @ ys \<and> name \<notin> fst ` set xs)
    else pmfs_remove_entry A E J s dir name now = Some (Inl EINVAL, dir, s, J)"
proof (cases "name \<in> fst ` set (dir_names s (i_ino dir) n)")
  case True
  with remove_names [OF assms, of A E J now] obtain t J' where
    "pmfs_remove_entry A E J s dir name now = Some (Inr (), dir\<lparr>i_mtime := now, i_ctime := now\<rparr>, t, J')" "dir_calm t (i_ino dir) n"
    "\<exists>xs i ys. dir_names s (i_ino dir) n = xs @ (name, i) # ys \<and> dir_names t (i_ino dir) n = xs @ ys \<and> name \<notin> fst ` set xs"
    by (simp only: if_True) (elim exE conjE, blast)
  then show ?thesis by (subst if_P [OF True]) (rule exI, rule exI, intro conjI; assumption)
next
  case False
  with remove_names [OF assms, of A E J now] show ?thesis by (simp only: if_False)
qed

lemma dir_remove_name_witness: "(\<exists>t J' dir'. pmfs_remove_entry pmfs_allocator wit_E None wit_dir wit_file [97] 9 = Some (Inr (), dir', t, J') \<and> dir_names t 128 1 = []) \<and>
    pmfs_remove_entry pmfs_allocator wit_E None wit_dir wit_file [98] 9 = Some (Inl EINVAL, wit_file, wit_dir, None)"
proof -
  obtain t J' xs i ys where "pmfs_remove_entry pmfs_allocator wit_E None wit_dir wit_file [97] 9 =
      Some (Inr (), wit_file\<lparr>i_mtime := 9, i_ctime := 9\<rparr>, t, J')"
    and xy: "[([97], 128)] = xs @ ([97], i) # ys" "dir_names t 128 1 = xs @ ys"
    using dir_remove_name [of wit_dir wit_file 1 "[97]" pmfs_allocator wit_E None 9] by (auto simp: wit_file_sel wit_dir_ok)
  moreover have "xs = [] \<and> ys = []" using xy(1) by (cases xs) auto
  moreover have "pmfs_remove_entry pmfs_allocator wit_E None wit_dir wit_file [98] 9 = Some (Inl EINVAL, wit_file, wit_dir, None)"
    using dir_remove_name [of wit_dir wit_file 1 "[98]" pmfs_allocator wit_E None 9] by (simp add: wit_file_sel wit_dir_ok)
  ultimately show ?thesis by auto
qed

end
